(* ===== verification/Afl_Prelude.thy ===== *)
theory Afl_Prelude
  imports Main "HOL-Library.Word"
begin

unbundle bit_operations_syntax

text \<open>
  Shared vocabulary of the development: the fixed-width integer types of \<open>include/types.h\<close>,
  the little-endian view of a byte buffer as machine words (the source casts \<open>u8 *\<close> buffers to
  \<open>u64 *\<close>, \<open>u32 *\<close> and \<open>u16 *\<close>; the modelled targets are little-endian), the error values that
  stand for the aborting macros of \<open>include/debug.h\<close>, and generic lemmas on lists, bits and words
  that the component theories share.
\<close>

section \<open>Types and errors\<close>

type_synonym u8 = "8 word"
type_synonym u16 = "16 word"
type_synonym u32 = "32 word"
type_synonym u64 = "64 word"
type_synonym bytes = "u8 list"

text \<open>
  An execution that does not deliver a value ends in one of these: \<open>Fatal\<close> carries the message of
  a \<open>FATAL\<close> or \<open>PFATAL\<close> (the process exits), \<open>Out_of_bounds\<close> is a read or write outside the
  buffer it names (undefined behaviour in C), \<open>Not_finite\<close> a floating point result that is infinite or
  not a number, or a conversion to an integer type that cannot hold the value: doubles are modelled as real
  numbers, and a computation that leaves them ends there.
\<close>

datatype afl_error = Fatal string | Out_of_bounds string | Not_finite string

type_synonym 'a result = "afl_error + 'a"

named_theorems byte_simps \<open>rewriting between words and their bytes\<close>
named_theorems frame \<open>fields an operation leaves alone\<close>

section \<open>Parts of a word\<close>

text \<open>
  \<open>join_words\<close> is the value read through a cast pointer from a sequence of narrower cells (lowest
  address first), \<open>split_word k\<close> the \<open>k\<close> cells a store through it writes, \<open>part_of w j\<close> the cell
  number \<open>j\<close> of the word, e.g. \<open>((u8 *)&w)[j]\<close>. The cell width is the length of the cell type.
\<close>

fun join_words :: "'b::len word list \<Rightarrow> 'a::len word" where
  "join_words [] = 0"
| "join_words (b # bs) = ucast b OR push_bit LENGTH('b) (join_words bs)"

definition part_of :: "'a::len word \<Rightarrow> nat \<Rightarrow> 'b::len word" where
  "part_of w j = ucast (drop_bit (LENGTH('b) * j) w)"

definition split_word :: "nat \<Rightarrow> 'a::len word \<Rightarrow> 'b::len word list" where
  "split_word k w = map (part_of w) [0..<k]"

lemma bit_join_words:
  "bit (join_words (bs :: 'b::len word list) :: 'a::len word) n \<longleftrightarrow>
     n < LENGTH('a) \<and> n div LENGTH('b) < length bs
       \<and> bit (bs ! (n div LENGTH('b))) (n mod LENGTH('b))"
proof (induction bs arbitrary: n)
  case Nil
  then show ?case by simp
next
  case (Cons b bs)
  show ?case
  proof (cases "n < LENGTH('b)")
    case True
    then show ?thesis by (auto simp: bit_simps)
  next
    case False
    then have "n div LENGTH('b) = Suc ((n - LENGTH('b)) div LENGTH('b))"
      and "n mod LENGTH('b) = (n - LENGTH('b)) mod LENGTH('b)"
      by (simp_all add: le_div_geq le_mod_geq)
    moreover have "\<not> bit b n"
      using False by (auto dest: bit_imp_le_length)
    ultimately show ?thesis
      using False Cons.IH [of "n - LENGTH('b)"] by (auto simp: bit_simps)
  qed
qed

lemma bit_part_of:
  "bit (part_of (w :: 'a::len word) j :: 'b::len word) n
     \<longleftrightarrow> n < LENGTH('b) \<and> bit w (LENGTH('b) * j + n)"
  by (auto simp: part_of_def bit_simps)

lemma length_split_word [simp]: "length (split_word k w) = k"
  by (simp add: split_word_def)

lemma nth_split_word [simp]: "j < k \<Longrightarrow> split_word k w ! j = part_of w j"
  by (simp add: split_word_def)

lemma part_of_join_words [byte_simps]:
  fixes bs :: "'b::len word list"
  assumes "length bs = k" and "LENGTH('b) * k = LENGTH('a)" and "j < k"
  shows "part_of (join_words bs :: 'a::len word) j = bs ! j"
proof (rule bit_word_eqI)
  fix n assume n: "n < LENGTH('b)"
  have "LENGTH('b) * j + n < LENGTH('b) * Suc j" using n by simp
  also have "\<dots> \<le> LENGTH('a)"
    using assms(3) by (simp only: assms(2) [symmetric]) (intro mult_le_mono2, simp)
  finally show "bit (part_of (join_words bs :: 'a word) j :: 'b word) n = bit (bs ! j) n"
    using assms n by (simp add: bit_part_of bit_join_words)
qed

lemma split_word_join_words [byte_simps]:
  fixes bs :: "'b::len word list"
  assumes "length bs = k" and "LENGTH('b) * k = LENGTH('a)"
  shows "split_word k (join_words bs :: 'a::len word) = bs"
  using assms by (intro nth_equalityI) (simp_all add: part_of_join_words)

lemma word_parts_eqI:
  fixes v w :: "'a::len word"
  assumes "LENGTH('b) * k = LENGTH('a)"
    and "\<And>j. j < k \<Longrightarrow> (part_of v j :: 'b::len word) = part_of w j"
  shows "v = w"
proof (rule bit_word_eqI)
  fix n assume n: "n < LENGTH('a)"
  then have "n div LENGTH('b) < k"
    using assms(1) by (simp add: less_mult_imp_div_less mult.commute)
  then have "bit (part_of v (n div LENGTH('b)) :: 'b word) (n mod LENGTH('b))
      = bit (part_of w (n div LENGTH('b)) :: 'b word) (n mod LENGTH('b))"
    using assms(2) by simp
  then show "bit v n = bit w n" by (simp add: bit_part_of)
qed

lemma join_words_split_word [byte_simps]:
  "LENGTH('b) * k = LENGTH('a) \<Longrightarrow>
     join_words (split_word k w :: 'b::len word list) = (w :: 'a::len word)"
  by (rule word_parts_eqI [where 'b = 'b and k = k])
    (simp_all add: part_of_join_words)

lemma part_of_0 [byte_simps, simp]: "part_of 0 j = 0"
  by (simp add: part_of_def)

lemma part_of_and [byte_simps]: "part_of (x AND y) j = part_of x j AND part_of y j"
  and part_of_or [byte_simps]: "part_of (x OR y) j = part_of x j OR part_of y j"
  by (rule bit_word_eqI; auto simp: bit_part_of bit_simps)+

lemma part_of_not [byte_simps]:
  "LENGTH('b) * Suc j \<le> LENGTH('a) \<Longrightarrow>
     (part_of (NOT x :: 'a::len word) j :: 'b::len word) = NOT (part_of x j)"
  by (rule bit_word_eqI) (auto simp: bit_part_of bit_simps)

lemma part_of_part_of [byte_simps]:
  assumes "LENGTH('b) = m * LENGTH('c)" and "j < m"
  shows "(part_of (part_of (w :: 'a::len word) i :: 'b::len word) j :: 'c::len word)
       = part_of w (m * i + j)"
proof (rule bit_word_eqI)
  fix n assume n: "n < LENGTH('c)"
  have "LENGTH('c) * j + n < LENGTH('c) * Suc j" using n by simp
  also have "\<dots> \<le> LENGTH('b)"
    using assms(2) by (simp only: assms(1) mult.commute [of m]) (intro mult_le_mono2, simp)
  finally show "bit (part_of (part_of w i :: 'b word) j :: 'c word) n
      = bit (part_of w (m * i + j) :: 'c word) n"
    using n by (simp add: bit_part_of assms(1) algebra_simps)
qed

lemma word_zero_iff_parts:
  assumes "LENGTH('b) * k = LENGTH('a)"
  shows "(w :: 'a::len word) = 0 \<longleftrightarrow> (\<forall>j < k. (part_of w j :: 'b::len word) = 0)"
  using word_parts_eqI [OF assms, of w 0] by auto

section \<open>Words\<close>

lemma unat_lt2p: "unat (w :: 'a::len word) < 2 ^ LENGTH('a)"
  by (rule unsigned_less)

lemma unat_u8_less: "unat (x :: u8) < 256"
  and unat_u16_less: "unat (h :: u16) < 65536"
  and unat_u32_less: "unat (w :: u32) < 4294967296"
  by (rule order.strict_trans2 [OF unat_lt2p], simp)+

lemma u8_255: "(255 :: u8) = - 1"
  by simp

lemma u8_and_255 [simp]: "c AND 255 = (c :: u8)" "255 AND c = (c :: u8)"
  by (simp_all only: u8_255 and.right_neutral and.left_neutral)

lemma unat_of_nat_eq: "n < 2 ^ LENGTH('a) \<Longrightarrow> unat (of_nat n :: 'a::len word) = n"
  by (simp add: unat_of_nat)

lemma unat_p2: "n < LENGTH('a) \<Longrightarrow> unat (2 ^ n :: 'a::len word) = 2 ^ n"
  using unat_of_nat_eq [of "2 ^ n", where 'a = 'a] by simp

lemma unat_add_small:
  "unat x + unat y < 2 ^ LENGTH('a) \<Longrightarrow> unat (x + y :: 'a::len word) = unat x + unat y"
  by (simp add: unat_word_ariths)

section \<open>Lists\<close>

lemma list_ex_zip:
  "length xs = length ys \<Longrightarrow>
     list_ex (\<lambda>(x, y). P x y) (zip xs ys) \<longleftrightarrow> (\<exists>j < length xs. P (xs ! j) (ys ! j))"
  by (simp add: list_ex_length cong: conj_cong)

lemma ex_less_8: "(\<exists>j < (8 :: nat). P j) \<longleftrightarrow>
    P 0 \<or> P 1 \<or> P 2 \<or> P 3 \<or> P 4 \<or> P 5 \<or> P 6 \<or> P 7"
  by (simp add: numeral_eq_Suc Ex_less_Suc2)

lemma ex_less_4: "(\<exists>j < (4 :: nat). P j) \<longleftrightarrow> P 0 \<or> P 1 \<or> P 2 \<or> P 3"
  by (simp add: numeral_eq_Suc Ex_less_Suc2)

lemma all_less_4: "(\<forall>j < (4 :: nat). P j) \<longleftrightarrow> P 0 \<and> P 1 \<and> P 2 \<and> P 3"
  by (simp add: numeral_eq_Suc All_less_Suc2)

lemma all_less_8: "(\<forall>j < (8 :: nat). P j) \<longleftrightarrow>
    P 0 \<and> P 1 \<and> P 2 \<and> P 3 \<and> P 4 \<and> P 5 \<and> P 6 \<and> P 7"
  by (simp add: numeral_eq_Suc All_less_Suc2)

lemma list_update_map_nth:
  "i < length xs \<Longrightarrow> map f (xs[i := x]) = (map f xs)[i := f x]"
  by (simp add: map_update)

lemma nth_list_update_if:
  "i < length xs \<Longrightarrow> xs[j := y] ! i = (if i = j then y else xs ! i)"
  by simp

end
