(* ===== verification/Afl_Rand.thy ===== *)
theory Afl_Rand
  imports Complex_Main Afl_Prelude "HOL-Library.Stream"
begin

unbundle bit_operations_syntax

text \<open>
  The pseudo random generator of the fuzzer: \<open>src/afl-performance.c\<close> (\<open>rand_set_seed\<close>, the
  romuDuoJr step \<open>rand_next\<close> and its RomuTrio32 variant, \<open>rand_next_percent\<close>, the hash wrappers) and
  the inline routines of \<open>include/afl-fuzz.h\<close> (\<open>rand_below\<close>, \<open>rand_below_datalen\<close>,
  \<open>rand_get_seed\<close>, \<open>next_p2\<close>).

  The fields of \<open>afl_state_t\<close> the generator owns form the record \<open>afl_rand\<close>; the later components
  extend it, so every operation here runs on the whole fuzzer state. \<open>dev_urandom\<close> is the sequence of
  24-byte blocks the kernel delivers for \<open>/dev/urandom\<close>. The XXH3 hash is vendored third-party code
  and stays a parameter \<open>xxh3\<close>. A call that keeps rejecting forever is the value \<open>None\<close>.
\<close>

section \<open>State\<close>

record afl_rand =
  rand_seed :: "u64 \<times> u64 \<times> u64"
  rand_cnt :: u32
  fixed_seed :: bool
  init_seed :: u64
  dev_urandom :: "(u64 \<times> u64 \<times> u64) stream"

abbreviation RESEED_RNG :: nat where "RESEED_RNG \<equiv> 2500000"

section \<open>afl-performance.c\<close>

definition hash32 :: "(bytes \<Rightarrow> u64) \<Rightarrow> bytes \<Rightarrow> u32 \<Rightarrow> u32" where
  "hash32 xxh3 key seed = ucast (xxh3 key)"

definition hash64 :: "(bytes \<Rightarrow> u64) \<Rightarrow> bytes \<Rightarrow> u64 \<Rightarrow> u64" where
  "hash64 xxh3 key seed = xxh3 key"

abbreviation HASH_CONST :: "'a::len word" where "HASH_CONST \<equiv> 0xa5b35705"

definition rand_set_seed ::
  "(bytes \<Rightarrow> u64) \<Rightarrow> 'a afl_rand_scheme \<Rightarrow> u64 \<Rightarrow> 'a afl_rand_scheme" where
  "rand_set_seed xxh3 afl seed =
     (let s0 = hash64 xxh3 (split_word 8 seed) HASH_CONST;
          s1 = s0 XOR 0x1234567890abcdef;
          s2 = (s0 AND 0x1234567890abcdef) XOR (s1 OR 0xfedcba9876543210)
      in afl\<lparr>init_seed := seed, rand_seed := (s0, s1, s2)\<rparr>)"

definition ROTL :: "'a::len word \<Rightarrow> nat \<Rightarrow> 'a word" where
  "ROTL d lrot = push_bit lrot d OR drop_bit (LENGTH('a) - lrot) d"

definition romu_duo_jr :: "u64 \<times> u64 \<times> u64 \<Rightarrow> u64 \<times> (u64 \<times> u64 \<times> u64)" where
  "romu_duo_jr seed =
     (case seed of (s0, s1, s2) \<Rightarrow>
        let xp = s0; s0' = 15241094284759029579 * s1; s1' = s1 - xp
        in (xp, (s0', ROTL s1' 27, s2)))"

definition rand_next :: "'a afl_rand_scheme \<Rightarrow> u64 \<times> 'a afl_rand_scheme" where
  "rand_next afl = (case romu_duo_jr (rand_seed afl) of
     (xp, seed) \<Rightarrow> (xp, afl\<lparr>rand_seed := seed\<rparr>))"

definition rand_next_32 :: "u32 \<times> u32 \<times> u32 \<Rightarrow> u32 \<times> (u32 \<times> u32 \<times> u32)" where
  "rand_next_32 seed =
     (case seed of (xp, yp, zp) \<Rightarrow>
        (xp, (3323815723 * zp, ROTL (yp - xp) 6, ROTL (zp - yp) 22)))"

definition rand_next_percent :: "'a afl_rand_scheme \<Rightarrow> real \<times> 'a afl_rand_scheme" where
  "rand_next_percent afl =
     (case rand_next afl of (x, afl') \<Rightarrow> (of_nat (unat x) / of_nat (unat (- 1 :: u64)), afl'))"

section \<open>The inline routines of afl-fuzz.h\<close>

partial_function (option) rand_unbiased ::
  "u64 \<Rightarrow> 'a afl_rand_scheme \<Rightarrow> (u64 \<times> 'a afl_rand_scheme) option" where
  "rand_unbiased bound afl =
     (case rand_next afl of (unbiased_rnd, afl') \<Rightarrow>
        if unbiased_rnd \<ge> bound then rand_unbiased bound afl'
        else Some (unbiased_rnd, afl'))"

definition rand_bound :: "u32 \<Rightarrow> u64" where
  "rand_bound limit = (- 1) - ((- 1) mod ucast limit)"

definition rand_reseed :: "'a afl_rand_scheme \<Rightarrow> 'a afl_rand_scheme" where
  "rand_reseed afl =
     (let seed = shd (dev_urandom afl); s1 = fst (snd seed)
      in afl\<lparr>rand_seed := seed, dev_urandom := stl (dev_urandom afl),
             rand_cnt := ucast (of_nat (RESEED_RNG div 2) + s1 mod of_nat RESEED_RNG)\<rparr>)"

definition rand_below ::
  "'a afl_rand_scheme \<Rightarrow> u32 \<Rightarrow> (u32 \<times> 'a afl_rand_scheme) option" where
  "rand_below afl limit =
     (if limit \<le> 1 then Some (0, afl)
      else
        let cnt = rand_cnt afl;
            afl = afl\<lparr>rand_cnt := cnt - 1\<rparr>;
            afl = (if cnt = 0 \<and> \<not> fixed_seed afl then rand_reseed afl else afl)
        in case rand_unbiased (rand_bound limit) afl of
             None \<Rightarrow> None
           | Some (unbiased_rnd, afl) \<Rightarrow> Some (ucast (unbiased_rnd mod ucast limit), afl))"

definition rand_below_datalen ::
  "'a afl_rand_scheme \<Rightarrow> u32 \<Rightarrow> (u32 \<times> 'a afl_rand_scheme) option" where
  "rand_below_datalen afl limit =
     (if limit \<le> 1 then Some (0, afl)
      else Option.bind (rand_below afl 3) (\<lambda>(c, afl).
        if c = 2 then
          Option.bind (rand_below afl limit) (\<lambda>(a, afl).
          Option.bind (rand_below afl (limit - 1)) (\<lambda>(b, afl).
          Option.bind (rand_below afl (limit - 1)) (\<lambda>(d, afl).
            Some ((a mod (1 + b)) mod (1 + d), afl))))
        else if c = 1 then
          Option.bind (rand_below afl limit) (\<lambda>(a, afl).
          Option.bind (rand_below afl (limit - 1)) (\<lambda>(b, afl).
            Some (a mod (1 + b), afl)))
        else if c = 0 then rand_below afl limit
        else Some (1, afl)))"

definition rand_get_seed :: "'a afl_rand_scheme \<Rightarrow> u64" where
  "rand_get_seed afl = (if fixed_seed afl then init_seed afl else fst (rand_seed afl))"

partial_function (option) next_p2_loop :: "u64 \<Rightarrow> u64 \<Rightarrow> u64 option" where
  "next_p2_loop val ret = (if val > ret then next_p2_loop val (push_bit 1 ret) else Some ret)"

definition next_p2 :: "u64 \<Rightarrow> u64 option" where
  "next_p2 val = next_p2_loop val 1"


section \<open>The generator step is a permutation of its state\<close>

lemma bit_ROTL:
  fixes d :: "'a::len word"
  assumes "r \<le> LENGTH('a)"
  shows "bit (ROTL d r) n \<longleftrightarrow>
    n < LENGTH('a) \<and> (if r \<le> n then bit d (n - r) else bit d (n + (LENGTH('a) - r)))"
proof -
  have "\<not> bit d (n + (LENGTH('a) - r))" if "r \<le> n"
    using that assms by (auto dest!: bit_imp_le_length)
  then show ?thesis
    by (auto simp: ROTL_def bit_simps add.commute dest: bit_imp_le_length)
qed

lemma ROTL_ROTL_inverse:
  fixes d :: "'a::len word"
  assumes "r + s = LENGTH('a)"
  shows "ROTL (ROTL d r) s = d"
proof (rule bit_word_eqI)
  fix n assume n: "n < LENGTH('a)"
  show "bit (ROTL (ROTL d r) s) n = bit d n"
  proof (cases "s \<le> n")
    case True
    then have "n - s + (LENGTH('a) - r) = n" and "n - s < LENGTH('a)" and "\<not> r \<le> n - s"
      using n assms by auto
    then show ?thesis
      using n assms True by (simp add: bit_ROTL)
  next
    case False
    then have "n + (LENGTH('a) - s) - r = n" and "n + (LENGTH('a) - s) < LENGTH('a)"
      and "r \<le> n + (LENGTH('a) - s)"
      using n assms by auto
    then show ?thesis
      using n assms False by (simp add: bit_ROTL)
  qed
qed

lemma ROTL_inject: "r \<le> LENGTH('a) \<Longrightarrow> ROTL d r = ROTL e r \<longleftrightarrow> d = (e :: 'a::len word)"
  by (metis ROTL_ROTL_inverse le_add_diff_inverse)

lemma romu_mult_inverse: "4888251478366616163 * (15241094284759029579 * x) = (x :: u64)"
proof -
  have "4888251478366616163 * (15241094284759029579 * x)
      = (4888251478366616163 * 15241094284759029579) * x"
    by (simp only: mult.assoc)
  also have "(4888251478366616163 * 15241094284759029579 :: u64) = 1" by simp
  finally show ?thesis by simp
qed

lemma romu_duo_jr_inject: "snd (romu_duo_jr s) = snd (romu_duo_jr t) \<longleftrightarrow> s = t"
proof
  obtain s0 s1 s2 t0 t1 t2 where st: "s = (s0, s1, s2)" "t = (t0, t1, t2)"
    by (cases s; cases t) blast
  assume "snd (romu_duo_jr s) = snd (romu_duo_jr t)"
  then have "15241094284759029579 * s1 = 15241094284759029579 * t1"
    and r: "ROTL (s1 - s0) 27 = ROTL (t1 - t0) 27" and "s2 = t2"
    by (simp_all add: st romu_duo_jr_def Let_def)
  then have "s1 = t1" by (metis romu_mult_inverse)
  moreover from r have "s1 - s0 = t1 - t0" by (simp add: ROTL_inject)
  ultimately show "s = t" using \<open>s2 = t2\<close> by (simp add: st)
qed simp

section \<open>Bounds of the derived generators\<close>

lemma rand_next_frame [frame, simp]:
  "rand_next afl = (x, afl') \<Longrightarrow> afl_rand.more afl' = afl_rand.more afl"
  by (auto simp: rand_next_def split: prod.splits)

lemma rand_unbiased_below:
  assumes "rand_unbiased bound afl = Some (x, afl')"
  shows "x < bound \<and> afl_rand.more afl' = afl_rand.more afl"
proof -
  have "fst p < bound \<and> afl_rand.more (snd p) = afl_rand.more afl"
    if "rand_unbiased bound afl = Some p" for p
  proof (rule rand_unbiased.raw_induct [where
        P = "\<lambda>b s p. fst p < b \<and> afl_rand.more (snd p) = afl_rand.more s", OF _ that])
    fix f bound and afl :: "'a afl_rand_scheme" and p
    assume IH: "\<And>b s p. f b s = Some p \<Longrightarrow>
        fst p < b \<and> afl_rand.more (snd p) = afl_rand.more s"
      and eq: "(case rand_next afl of (unbiased_rnd, afl') \<Rightarrow>
          if bound \<le> unbiased_rnd then f bound afl' else Some (unbiased_rnd, afl')) = Some p"
    obtain y s where ys: "rand_next afl = (y, s)" by fastforce
    show "fst p < bound \<and> afl_rand.more (snd p) = afl_rand.more afl"
      using eq IH rand_next_frame [OF ys] by (auto simp: ys not_le split: if_splits)
  qed
  from this [OF assms] show ?thesis by simp
qed

lemma rand_reseed_frame [frame, simp]: "afl_rand.more (rand_reseed afl) = afl_rand.more afl"
  by (simp add: rand_reseed_def Let_def)

lemma unat_ucast_u32 [simp]: "unat (ucast (x :: u32) :: u64) = unat x"
  by (simp add: unsigned_ucast_eq take_bit_nat_eq_self_iff less_le_trans [OF unsigned_less])

lemma rand_below_bound:
  assumes "rand_below afl limit = Some (r, afl')"
  shows "if limit \<le> 1 then r = 0 else r < limit"
proof (cases "limit \<le> 1")
  case True
  with assms show ?thesis by (simp add: rand_below_def)
next
  case False
  with assms obtain x :: u64 where "r = ucast (x mod ucast limit)"
    by (auto simp: rand_below_def Let_def split: option.splits)
  moreover have "unat (x mod ucast limit) < unat limit"
    using False by (simp add: unat_mod word_le_nat_alt)
  ultimately have "unat r < unat limit"
    by (simp add: unsigned_ucast_eq order.strict_trans1 [OF take_bit_nat_less_eq_self])
  with False show ?thesis by (simp add: word_less_nat_alt)
qed

lemma rand_below_frame [frame]:
  "rand_below afl limit = Some (r, afl') \<Longrightarrow> afl_rand.more afl' = afl_rand.more afl"
  by (auto simp: rand_below_def Let_def split: option.splits if_splits
      dest!: rand_unbiased_below)


text \<open>What the rest of the fuzzer relies on: a bounded result, and nothing but the generator's own
  fields written. The clients' lemmas are proved once, from these two laws.\<close>

locale bounded_rng =
  fixes rb :: "'s \<Rightarrow> u32 \<Rightarrow> (u32 \<times> 's) option"
    and rest :: "'s \<Rightarrow> 'r"
  assumes rb_bound: "rb s l = Some (r, s') \<Longrightarrow> if l \<le> 1 then r = 0 else r < l"
    and rb_rest: "rb s l = Some (r, s') \<Longrightarrow> rest s' = rest s"
begin

lemma rb_less: "rb s l = Some (r, s') \<Longrightarrow> 0 < l \<Longrightarrow> r < l"
  using rb_bound [of s l r s'] by (auto split: if_splits)

lemma rb_nat_less: "rb s l = Some (r, s') \<Longrightarrow> 0 < l \<Longrightarrow> unat r < unat l"
  using rb_less by (simp add: word_less_nat_alt)

lemma rb_mod_less: "rb s l = Some (r, s') \<Longrightarrow> 0 < l \<Longrightarrow> r mod m < l"
  using rb_nat_less [of s l r s']
  by (simp add: word_less_nat_alt unat_mod order.strict_trans1 [OF mod_less_eq_dividend])

lemma rb_interval:
  assumes "rb s (hi - lo + 1) = Some (r, s')" and "lo \<le> hi" and "0 < lo"
  shows "lo \<le> lo + r \<and> lo + r \<le> hi"
proof -
  have eq: "unat (hi - lo + 1) = unat hi - unat lo + 1"
  proof -
    have "unat (hi - lo) = unat hi - unat lo"
      using assms(2) by (simp add: unat_sub)
    moreover have "unat hi - unat lo + 1 < 2 ^ LENGTH(32)"
      using assms(3) unat_lt2p [of hi] by (simp add: word_less_nat_alt)
    ultimately show ?thesis by (simp add: unat_word_ariths)
  qed
  then have "0 < hi - lo + 1" by (simp add: word_less_nat_alt)
  with assms(1) eq have r: "unat r < unat hi - unat lo + 1"
    using rb_nat_less by metis
  then have "unat lo + unat r \<le> unat hi"
    using assms(2) by (simp add: word_le_nat_alt)
  moreover from this have "unat (lo + r) = unat lo + unat r"
    using unat_lt2p [of hi] by (simp add: unat_word_ariths)
  ultimately show ?thesis by (simp add: word_le_nat_alt)
qed

end

interpretation afl_rng: bounded_rng rand_below afl_rand.more
  by unfold_locales (rule rand_below_bound rand_below_frame; assumption)+

lemma rand_below_datalen_bound:
  assumes "rand_below_datalen afl limit = Some (r, afl')"
  shows "if limit \<le> 1 then r = 0 else r < limit"
proof (cases "limit \<le> 1")
  case True
  with assms show ?thesis by (simp add: rand_below_datalen_def)
next
  case False
  then have pos: "0 < limit" by (simp add: word_le_nat_alt word_less_nat_alt)
  have mod2: "(x mod y) mod z < limit" if "x < limit" for x y z :: u32
    using that by (simp add: word_less_nat_alt unat_mod)
      (meson mod_less_eq_dividend order.strict_trans1)
  have three: "c < 3" if "rand_below afl 3 = Some (c, s)" for c s
    using afl_rng.rb_less [OF that] by simp
  from False assms show ?thesis
    by (auto simp: rand_below_datalen_def Option.bind_eq_Some_conv split: if_splits
        dest!: afl_rng.rb_less [OF _ pos] three intro: mod2 mod2 [where y = 0, simplified])
qed

section \<open>The rejection bound removes the modulo bias\<close>

lemma card_residue_class:
  fixes l q r :: nat
  assumes "r < l"
  shows "card {n. n < q * l \<and> n mod l = r} = q"
proof -
  have "{n. n < q * l \<and> n mod l = r} = (\<lambda>k. k * l + r) ` {..<q}"
  proof (intro equalityI subsetI)
    fix n assume "n \<in> {n. n < q * l \<and> n mod l = r}"
    then have "n div l < q" and "n = n div l * l + r"
      using assms by (auto simp: less_mult_imp_div_less)
    then show "n \<in> (\<lambda>k. k * l + r) ` {..<q}" by blast
  next
    fix n assume "n \<in> (\<lambda>k. k * l + r) ` {..<q}"
    then obtain k where k: "k < q" "n = k * l + r" by auto
    then have "k * l + r < (k + 1) * l" using assms by simp
    also have "\<dots> \<le> q * l" using k by (intro mult_le_mono1) simp
    finally show "n \<in> {n. n < q * l \<and> n mod l = r}" using assms k by simp
  qed
  moreover have "inj_on (\<lambda>k. k * l + r) {..<q}"
    using assms by (auto simp: inj_on_def)
  ultimately show ?thesis by (simp add: card_image)
qed

lemma unat_rand_bound:
  "1 < limit \<Longrightarrow> unat (rand_bound limit) = (2 ^ 64 - 1) div unat limit * unat limit"
proof -
  assume "1 < limit"
  have m1: "unat (- 1 :: u64) = 2 ^ 64 - 1"
    by (simp add: unsigned_minus_1_eq_mask mask_eq_exp_minus_1)
  have le: "(- 1) mod ucast limit \<le> (- 1 :: u64)" by (rule word_order.extremum)
  have "unat (rand_bound limit) = (2 ^ 64 - 1) - (2 ^ 64 - 1) mod unat limit"
    unfolding rand_bound_def unat_sub [OF le] unat_mod m1 by simp
  then show ?thesis by (simp only: minus_mod_eq_div_mult)
qed


lemma rand_below_unbiased_aux:
  assumes "1 < limit" and "r < limit"
  shows "card {x. x < rand_bound limit \<and> ucast (x mod ucast limit) = r}
       = (2 ^ 64 - 1) div unat limit"
proof -
  let ?l = "unat limit"
  have cast: "ucast (x mod ucast limit) = r \<longleftrightarrow> unat x mod ?l = unat r" for x :: u64
  proof -
    have "unat (x mod ucast limit) < ?l"
      using assms(1) by (simp add: unat_mod word_less_nat_alt)
    then have "unat (ucast (x mod ucast limit) :: u32) = unat x mod ?l"
      using unat_lt2p [of limit]
      by (simp add: unsigned_ucast_eq take_bit_nat_eq_self_iff unat_mod)
    then show ?thesis by (metis word_unat_eq_iff)
  qed
  have "unat ` {x. x < rand_bound limit \<and> ucast (x mod ucast limit) = r}
      = {n. n < (2 ^ 64 - 1) div ?l * ?l \<and> n mod ?l = unat r}" (is "_ ` ?A = ?B")
  proof (intro equalityI subsetI)
    fix n assume "n \<in> unat ` ?A"
    then show "n \<in> ?B"
      by (auto simp: cast word_less_nat_alt unat_rand_bound [OF assms(1)])
  next
    fix n assume n: "n \<in> ?B"
    have "n < 2 ^ 64"
      using n order.strict_trans2 [of n "(2 ^ 64 - 1) div ?l * ?l" "2 ^ 64 - 1"]
      by (simp add: div_times_less_eq_dividend)
    then have "unat (of_nat n :: u64) = n" by (simp add: unat_of_nat_eq)
    with n show "n \<in> unat ` ?A"
      by (intro image_eqI [where x = "of_nat n"])
        (simp_all add: cast word_less_nat_alt unat_rand_bound [OF assms(1)])
  qed
  moreover have "card (unat ` ?A) = card ?A"
    by (rule card_image) (simp add: inj_on_def word_unat_eq_iff)
  ultimately show ?thesis
    using card_residue_class [of "unat r" ?l "(2 ^ 64 - 1) div ?l"] assms(2)
    by (simp add: word_less_nat_alt)
qed

section \<open>next\_p2\<close>

lemma push_bit_pow2: "push_bit 1 (2 ^ k :: u64) = 2 ^ Suc k"
  by (simp add: push_bit_eq_mult)

lemma next_p2_loop_correct:
  assumes "k \<le> n" and "n \<le> 63" and "unat val \<le> 2 ^ n" and "\<forall>j < n. k \<le> j \<longrightarrow> 2 ^ j < unat val"
  shows "next_p2_loop val (2 ^ k) = Some (2 ^ n)"
  using assms
proof (induction "n - k" arbitrary: k)
  case 0
  then have "k = n" by simp
  moreover have "\<not> 2 ^ n < val"
    using 0 by (simp add: word_less_nat_alt unat_p2 not_less)
  ultimately show ?case by (subst next_p2_loop.simps) simp
next
  case (Suc d)
  then have "k < n" by simp
  then have "2 ^ k < val"
    using Suc.prems by (auto simp: word_less_nat_alt unat_p2)
  then have "next_p2_loop val (2 ^ k) = next_p2_loop val (2 ^ Suc k)"
    by (subst next_p2_loop.simps) (simp add: push_bit_eq_mult mult.commute)
  also have "\<dots> = Some (2 ^ n)"
    using Suc by (intro Suc.hyps(1)) auto
  finally show ?case .
qed


lemma next_p2_loop_zero: "0 < val \<Longrightarrow> next_p2_loop val 0 = None"
proof (rule ccontr)
  assume val: "0 < val" and "next_p2_loop val 0 \<noteq> None"
  then obtain r where "next_p2_loop val 0 = Some r" by auto
  then have "\<not> ((0 :: u64) = 0 \<and> 0 < val)"
    by (rule next_p2_loop.raw_induct [where P = "\<lambda>v ret r. \<not> (ret = 0 \<and> 0 < v)", rotated])
      (auto split: if_splits)
  with val show False by simp
qed

lemma next_p2_loop_wraps:
  assumes "k \<le> 63" and "2 ^ 63 < unat val"
  shows "next_p2_loop val (2 ^ k) = None"
  using assms(1)
proof (induction "63 - k" arbitrary: k)
  case 0
  then have k: "k = 63" by simp
  have "(2 :: u64) ^ 63 < val"
    using assms(2) by (simp add: word_less_nat_alt unat_p2)
  moreover have "push_bit 1 ((2 :: u64) ^ 63) = 0" by (simp add: push_bit_eq_mult)
  ultimately have "next_p2_loop val (2 ^ 63) = next_p2_loop val 0"
    by (subst next_p2_loop.simps) (simp only: if_True)
  with assms(2) show ?case
    unfolding k by (simp add: next_p2_loop_zero word_less_nat_alt)
next
  case (Suc d)
  have "(2 :: nat) ^ k \<le> 2 ^ 63" using Suc.prems by (intro power_increasing) simp_all
  then have "(2 :: u64) ^ k < val"
    using assms(2) Suc by (simp add: word_less_nat_alt unat_p2)
  then have "next_p2_loop val (2 ^ k) = next_p2_loop val (2 ^ Suc k)"
    by (subst next_p2_loop.simps) (simp add: push_bit_eq_mult mult.commute)
  also have "\<dots> = None" using Suc by (intro Suc.hyps(1)) auto
  finally show ?case .
qed

section \<open>When the rejection loop returns\<close>

text \<open>The seed after \<open>n\<close> generator steps.\<close>

primrec seed_after :: "nat \<Rightarrow> u64 \<times> u64 \<times> u64 \<Rightarrow> u64 \<times> u64 \<times> u64" where
  "seed_after 0 seed = seed"
| "seed_after (Suc n) seed = seed_after n (snd (romu_duo_jr seed))"

lemma rand_next_eq:
  "rand_next afl = (fst (rand_seed afl), afl\<lparr>rand_seed := snd (romu_duo_jr (rand_seed afl))\<rparr>)"
  by (cases "rand_seed afl") (simp add: rand_next_def romu_duo_jr_def Let_def)

lemma rand_unbiased_step:
  "rand_unbiased bound afl =
     (if bound \<le> fst (rand_seed afl)
      then rand_unbiased bound (afl\<lparr>rand_seed := snd (romu_duo_jr (rand_seed afl))\<rparr>)
      else Some (fst (rand_seed afl), afl\<lparr>rand_seed := snd (romu_duo_jr (rand_seed afl))\<rparr>))"
  by (subst rand_unbiased.simps) (simp add: rand_next_eq)

lemma rand_unbiased_hits:
  assumes "\<forall>m < n. bound \<le> fst (seed_after m (rand_seed afl))"
    and "fst (seed_after n (rand_seed afl)) < bound"
  shows "rand_unbiased bound afl = Some (fst (seed_after n (rand_seed afl)),
           afl\<lparr>rand_seed := seed_after (Suc n) (rand_seed afl)\<rparr>)"
  using assms
proof (induction n arbitrary: afl)
  case 0
  then have "\<not> bound \<le> fst (rand_seed afl)" by (simp add: not_le)
  then show ?case by (subst rand_unbiased_step) simp
next
  case (Suc n)
  let ?afl = "afl\<lparr>rand_seed := snd (romu_duo_jr (rand_seed afl))\<rparr>"
  have "bound \<le> fst (rand_seed afl)" using Suc.prems(1) by force
  moreover have "\<forall>m < n. bound \<le> fst (seed_after m (rand_seed ?afl))"
    using Suc.prems(1) by fastforce
  ultimately show ?case
    using Suc.IH [of ?afl] Suc.prems(2) by (subst rand_unbiased_step) simp
qed

lemmas rand_unbiased_first = rand_unbiased_hits [of 0, simplified]

lemma rand_unbiased_never:
  assumes "\<forall>n. bound \<le> fst (seed_after n (rand_seed afl))"
  shows "rand_unbiased bound afl = None"
proof (rule ccontr)
  assume "rand_unbiased bound afl \<noteq> None"
  then obtain p where "rand_unbiased bound afl = Some p" by auto
  then have "\<exists>n. fst (seed_after n (rand_seed afl)) < bound"
  proof (rule rand_unbiased.raw_induct [where
        P = "\<lambda>b s p. \<exists>n. fst (seed_after n (rand_seed s)) < b", rotated])
    fix f bound and afl :: "'a afl_rand_scheme" and p
    assume IH: "\<And>b s p. f b s = Some p \<Longrightarrow> \<exists>n. fst (seed_after n (rand_seed s)) < b"
      and eq: "(case rand_next afl of (unbiased_rnd, afl') \<Rightarrow>
          if bound \<le> unbiased_rnd then f bound afl' else Some (unbiased_rnd, afl')) = Some p"
    show "\<exists>n. fst (seed_after n (rand_seed afl)) < bound"
    proof (cases "bound \<le> fst (rand_seed afl)")
      case True
      with eq obtain n where "fst (seed_after (Suc n) (rand_seed afl)) < bound"
        by (auto simp: rand_next_eq dest!: IH)
      then show ?thesis by blast
    next
      case False
      then have "fst (seed_after 0 (rand_seed afl)) < bound" by simp
      then show ?thesis by blast
    qed
  qed
  with assms show False by (meson not_le)
qed

lemma rand_unbiased_returns:
  "rand_unbiased bound afl \<noteq> None \<longleftrightarrow> (\<exists>n. fst (seed_after n (rand_seed afl)) < bound)"
proof
  assume "\<exists>n. fst (seed_after n (rand_seed afl)) < bound"
  define n where "n = (LEAST n. fst (seed_after n (rand_seed afl)) < bound)"
  have "fst (seed_after n (rand_seed afl)) < bound"
    using \<open>\<exists>n. _\<close> unfolding n_def by (rule LeastI_ex)
  moreover have "\<forall>m < n. bound \<le> fst (seed_after m (rand_seed afl))"
    unfolding n_def by (meson not_less_Least not_le)
  ultimately show "rand_unbiased bound afl \<noteq> None" by (simp add: rand_unbiased_hits)
next
  assume "rand_unbiased bound afl \<noteq> None"
  then show "\<exists>n. fst (seed_after n (rand_seed afl)) < bound"
    using rand_unbiased_never [of bound afl] by (meson not_le)
qed

section \<open>Properties\<close>

text \<open>\<open>rand_next\<close>: the 64-bit output is the first seed word, and the state transition it applies to
  the seed is a bijection of the 192-bit seed space, so no two generator states ever merge.\<close>

theorem rand_next_permutes:
  "bij (\<lambda>seed. snd (romu_duo_jr seed))
   \<and> rand_next afl = (fst (rand_seed afl), afl\<lparr>rand_seed := snd (romu_duo_jr (rand_seed afl))\<rparr>)"
proof -
  have "inj (\<lambda>seed. snd (romu_duo_jr seed))"
    by (simp add: inj_def romu_duo_jr_inject)
  then show ?thesis
    by (simp add: rand_next_eq finite_UNIV_inj_surj bij_def)
qed

text \<open>The loop ends at the first value below the bound.\<close>

lemma rand_unbiased_first_hit:
  assumes "rand_unbiased bound afl = Some (x, afl')"
  shows "\<exists>k. (\<forall>m < k. bound \<le> fst (seed_after m (rand_seed afl))) \<and> x < bound
    \<and> x = fst (seed_after k (rand_seed afl)) \<and> rand_seed afl' = seed_after (Suc k) (rand_seed afl)"
proof -
  have "\<exists>n. fst (seed_after n (rand_seed afl)) < bound" using assms rand_unbiased_returns [of bound afl] by auto
  then obtain k where k: "fst (seed_after k (rand_seed afl)) < bound" "\<forall>m < k. bound \<le> fst (seed_after m (rand_seed afl))"
    using exists_least_iff [of "\<lambda>n. fst (seed_after n (rand_seed afl)) < bound"] by (auto simp: not_less)
  from rand_unbiased_hits [OF k(2,1)] have
    "x = fst (seed_after k (rand_seed afl))" "rand_seed afl' = seed_after (Suc k) (rand_seed afl)"
    using assms by simp_all
  then show ?thesis using k by metis
qed

text \<open>(C27) \<open>rand_below\<close> has no modulo bias: for a limit above 1 the result is the remainder of the first value of the romuDuoJr sequence
  (from the seed in force, the reseeded one when the counter ran out and the seed is not fixed) that is below the rejection
  bound, all earlier values being at or above it; and of the 64-bit values below that bound exactly \<open>(2 ^ 64 - 1) div limit\<close>
  have each remainder. The result is below the limit, the limits 0 and 1 give 0 without a draw, and nothing but the
  generator's own fields changes.\<close>

theorem rand_below_uniform:
  assumes "rand_below afl limit = Some (r, afl')"
    and "seed = (if rand_cnt afl = 0 \<and> \<not> fixed_seed afl then shd (dev_urandom afl) else rand_seed afl)"
  shows "if limit \<le> 1 then r = 0 \<and> afl' = afl
    else r < limit \<and> afl_rand.more afl' = afl_rand.more afl
      \<and> (\<exists>k. (\<forall>m < k. rand_bound limit \<le> fst (seed_after m seed)) \<and> fst (seed_after k seed) < rand_bound limit
            \<and> r = ucast (fst (seed_after k seed) mod ucast limit) \<and> rand_seed afl' = seed_after (Suc k) seed)
      \<and> (\<forall>v < limit. card {x. x < rand_bound limit \<and> ucast (x mod ucast limit) = v} = (2 ^ 64 - 1) div unat limit)"
proof (cases "limit \<le> 1")
  case True
  then show ?thesis using assms by (simp add: rand_below_def)
next
  case False
  define b where "b = (let a = afl\<lparr>rand_cnt := rand_cnt afl - 1\<rparr>
    in if rand_cnt afl = 0 \<and> \<not> fixed_seed afl then rand_reseed a else a)"
  have seed: "rand_seed b = seed" by (simp add: b_def assms(2) rand_reseed_def Let_def)
  have "rand_below afl limit = (case rand_unbiased (rand_bound limit) b of
      None \<Rightarrow> None | Some (x, a) \<Rightarrow> Some (ucast (x mod ucast limit), a))"
    using False by (simp add: rand_below_def b_def Let_def)
  then obtain x where x: "rand_unbiased (rand_bound limit) b = Some (x, afl')" "r = ucast (x mod ucast limit)"
    using assms(1) by (auto split: option.splits)
  have "\<exists>k. (\<forall>m < k. rand_bound limit \<le> fst (seed_after m seed)) \<and> fst (seed_after k seed) < rand_bound limit
      \<and> r = ucast (fst (seed_after k seed) mod ucast limit) \<and> rand_seed afl' = seed_after (Suc k) seed"
    using rand_unbiased_first_hit [OF x(1)] x(2) unfolding seed by metis
  moreover have "r < limit" using rand_below_bound [OF assms(1)] False by simp
  moreover have "\<forall>v < limit. card {x. x < rand_bound limit \<and> ucast (x mod ucast limit) = v} = (2 ^ 64 - 1) div unat limit"
    using rand_below_unbiased_aux False by simp
  ultimately show ?thesis using rand_below_frame [OF assms(1)] False by simp
qed

definition rand_demo :: afl_rand where
  "rand_demo = \<lparr>rand_seed = (7, 9, 11), rand_cnt = 5, fixed_seed = True, init_seed = 1,
     dev_urandom = sconst (0, 0, 0)\<rparr>"

lemma rand_demo_draw: "\<exists>afl'. rand_below rand_demo 5 = Some (2, afl')"
  by (simp add: rand_below_def rand_demo_def Let_def rand_bound_def rand_unbiased_first
      word_le_nat_alt)

theorem rand_below_uniform_witness:
  "\<exists>afl'. rand_below rand_demo 5 = Some (2, afl') \<and> (2 :: u32) < 5
     \<and> card {x. x < rand_bound 5 \<and> ucast (x mod ucast (5 :: u32)) = (4 :: u32)} = (2 ^ 64 - 1) div 5"
proof -
  obtain afl' where draw: "rand_below rand_demo 5 = Some (2, afl')"
    using rand_demo_draw by blast
  show ?thesis
    using rand_below_uniform [OF draw refl] draw by (auto simp: word_le_nat_alt)
qed

text \<open>(C28) \<open>rand_below\<close> for a limit above 1 returns exactly when the romuDuoJr sequence from the seed in
  force (the reseeded one when the counter ran out and the seed is not fixed) ever delivers a value
  below the rejection bound; otherwise the C loop spins forever, the value \<open>None\<close>.\<close>

theorem rand_below_returns:
  assumes "1 < limit"
  shows "(\<exists>r afl'. rand_below afl limit = Some (r, afl')) \<longleftrightarrow>
    (\<exists>n. fst (seed_after n (if rand_cnt afl = 0 \<and> \<not> fixed_seed afl then shd (dev_urandom afl)
                             else rand_seed afl)) < rand_bound limit)"
proof -
  have "\<not> limit \<le> 1" using assms by simp
  then show ?thesis
    using rand_unbiased_returns [of "rand_bound limit" "rand_reseed (afl\<lparr>rand_cnt := rand_cnt afl - 1\<rparr>)"]
      rand_unbiased_returns [of "rand_bound limit" "afl\<lparr>rand_cnt := rand_cnt afl - 1\<rparr>"]
    by (auto simp: rand_below_def rand_reseed_def Let_def split: option.splits)
qed

theorem rand_below_returns_witness:
  "\<exists>r afl'. rand_below rand_demo 6 = Some (r, afl')"
proof -
  have "fst (seed_after 0 (if rand_cnt rand_demo = 0 \<and> \<not> fixed_seed rand_demo
      then shd (dev_urandom rand_demo) else rand_seed rand_demo)) < rand_bound 6"
    by (simp add: rand_demo_def rand_bound_def)
  then show ?thesis
    using rand_below_returns [of 6 rand_demo] by fastforce
qed

text \<open>\<open>rand_below_datalen\<close>: the skewed draw stays below the limit on every one of its three paths and
  changes only the generator's fields.\<close>

theorem rand_below_datalen_in_range:
  assumes "rand_below_datalen afl limit = Some (r, afl')"
  shows "(if limit \<le> 1 then r = 0 else r < limit) \<and> afl_rand.more afl' = afl_rand.more afl"
  using rand_below_datalen_bound [OF assms] assms
  by (auto simp: rand_below_datalen_def Option.bind_eq_Some_conv split: if_splits
      dest!: rand_below_frame)

theorem rand_below_datalen_in_range_witness:
  "\<exists>afl'. rand_below_datalen (rand_demo\<lparr>rand_seed := (0, 0, 0)\<rparr>) 5 = Some (0, afl') \<and> (0 :: u32) < 5"
proof -
  have "\<exists>afl'. rand_below_datalen (rand_demo\<lparr>rand_seed := (0, 0, 0)\<rparr>) 5 = Some (0, afl')"
    by (simp add: rand_below_datalen_def rand_demo_def rand_below_def Let_def rand_bound_def
        rand_unbiased_first romu_duo_jr_def ROTL_def word_le_nat_alt word_less_nat_alt unsigned_minus_1_eq_mask)
  then obtain afl' where draw: "rand_below_datalen (rand_demo\<lparr>rand_seed := (0, 0, 0)\<rparr>) 5 = Some (0, afl')"
    by blast
  show ?thesis using rand_below_datalen_in_range [OF draw] draw by auto
qed

text \<open>\<open>next_p2\<close>: for every value up to \<open>2 ^ 63\<close> the loop ends with the least power of two that is not
  below it; above that the 64-bit shift reaches 0 and the loop never ends.\<close>

theorem next_p2_least_power:
  "if unat val \<le> 2 ^ 63
   then next_p2 val = Some (2 ^ (LEAST n. unat val \<le> 2 ^ n))
   else next_p2 val = None"
proof (cases "unat val \<le> 2 ^ 63")
  case True
  define n where "n = (LEAST n. unat val \<le> 2 ^ n)"
  have "unat val \<le> 2 ^ n" unfolding n_def using True by (rule LeastI)
  moreover have "n \<le> 63" unfolding n_def using True by (rule Least_le)
  moreover have "\<forall>j < n. 0 \<le> j \<longrightarrow> 2 ^ j < unat val"
    unfolding n_def by (meson not_less_Least not_le)
  ultimately have "next_p2_loop val (2 ^ 0) = Some (2 ^ n)"
    by (intro next_p2_loop_correct) simp_all
  with True show ?thesis by (simp add: next_p2_def n_def)
next
  case False
  then have "2 ^ 63 < unat val" by (simp only: not_le)
  then show ?thesis
    using next_p2_loop_wraps [of 0 val] False unfolding next_p2_def by (simp only: if_False) simp
qed

end
