(* ===== verification/Afl_Coverage.thy ===== *)
theory Afl_Coverage
  imports Afl_Rand
begin

unbundle bit_operations_syntax

text \<open>
  The word-at-a-time coverage routines: the lookup tables of \<open>src/afl-fuzz-bitmap.c\<close>
  (\<open>simplify_lookup\<close>, \<open>count_class_lookup8\<close>, \<open>init_count_class16\<close>) and the whole of
  \<open>include/coverage-64.h\<close> and \<open>include/coverage-32.h\<close> (\<open>classify_word\<close>, \<open>simplify_trace\<close>,
  \<open>classify_counts\<close>, \<open>discover_word\<close> and the three vectorised and scalar variants of \<open>skim\<close>).

  A buffer is the list of its bytes; a pointer that walks over it is the tail of that list, so
  \<open>mem++\<close> on a \<open>u64 *\<close> is \<open>drop 8\<close>. Every routine is shown to be the plain byte-wise operation it
  optimises, once for all widths in the locales \<open>word_map_loop\<close> and \<open>discover_loop\<close>.
\<close>

section \<open>Lookup tables (afl-fuzz-bitmap.c)\<close>

definition simplify_lookup :: "u8 list" where
  "simplify_lookup = [1] @ replicate 255 128"

definition count_class_lookup8 :: "u8 list" where
  "count_class_lookup8 =
     [0, 1, 2, 4] @ replicate 4 8 @ replicate 8 16 @ replicate 16 32 @ replicate 96 64
       @ replicate 128 128"

definition count_class_entry16 :: "nat \<Rightarrow> nat \<Rightarrow> u16" where
  "count_class_entry16 b1 b2 =
     push_bit 8 (ucast (count_class_lookup8 ! b1)) OR ucast (count_class_lookup8 ! b2)"

definition init_count_class16 :: "u16 list \<Rightarrow> u16 list" where
  "init_count_class16 table =
     fold (\<lambda>(b1, b2) t. t[b1 * 256 + b2 := count_class_entry16 b1 b2])
       (List.product [0..<256] [0..<256]) table"

text \<open>The global table after \<open>init_count_class16\<close> ran on the zero-initialised array.\<close>

definition count_class_lookup16 :: "u16 list" where
  "count_class_lookup16 = init_count_class16 (replicate 65536 0)"

section \<open>coverage-64.h\<close>

definition classify_word64 :: "u64 \<Rightarrow> u64" where
  "classify_word64 word =
     (let mem16 = split_word 4 word :: u16 list;
          mem16 = mem16[0 := count_class_lookup16 ! unat (mem16 ! 0)];
          mem16 = mem16[1 := count_class_lookup16 ! unat (mem16 ! 1)];
          mem16 = mem16[2 := count_class_lookup16 ! unat (mem16 ! 2)];
          mem16 = mem16[3 := count_class_lookup16 ! unat (mem16 ! 3)]
      in join_words mem16)"

definition simplify_word64 :: "u64 \<Rightarrow> u64" where
  "simplify_word64 word =
     (if word \<noteq> 0 then
        let mem8 = split_word 8 word :: u8 list;
            mem8 = mem8[0 := simplify_lookup ! unat (mem8 ! 0)];
            mem8 = mem8[1 := simplify_lookup ! unat (mem8 ! 1)];
            mem8 = mem8[2 := simplify_lookup ! unat (mem8 ! 2)];
            mem8 = mem8[3 := simplify_lookup ! unat (mem8 ! 3)];
            mem8 = mem8[4 := simplify_lookup ! unat (mem8 ! 4)];
            mem8 = mem8[5 := simplify_lookup ! unat (mem8 ! 5)];
            mem8 = mem8[6 := simplify_lookup ! unat (mem8 ! 6)];
            mem8 = mem8[7 := simplify_lookup ! unat (mem8 ! 7)]
        in join_words mem8
      else 0x0101010101010101)"

fun simplify_trace64 :: "nat \<Rightarrow> bytes \<Rightarrow> bytes" where
  "simplify_trace64 0 mem = mem"
| "simplify_trace64 (Suc i) mem =
     split_word 8 (simplify_word64 (join_words (take 8 mem)))
       @ simplify_trace64 i (drop 8 mem)"

fun classify_counts64 :: "nat \<Rightarrow> bytes \<Rightarrow> bytes" where
  "classify_counts64 0 mem = mem"
| "classify_counts64 (Suc i) mem =
     (let word = join_words (take 8 mem) :: u64;
          word = (if word \<noteq> 0 then classify_word64 word else word)
      in split_word 8 word @ classify_counts64 i (drop 8 mem))"

definition discover_word64 :: "u8 \<Rightarrow> u64 \<Rightarrow> u64 \<Rightarrow> u8 \<times> u64" where
  "discover_word64 ret current virgin =
     (if current AND virgin \<noteq> 0 then
        let cur = split_word 8 current :: u8 list;
            vir = split_word 8 virgin :: u8 list;
            ret = (if ret < 2 then
                     if (cur ! 0 \<noteq> 0 \<and> vir ! 0 = 0xff) \<or> (cur ! 1 \<noteq> 0 \<and> vir ! 1 = 0xff)
                       \<or> (cur ! 2 \<noteq> 0 \<and> vir ! 2 = 0xff) \<or> (cur ! 3 \<noteq> 0 \<and> vir ! 3 = 0xff)
                       \<or> (cur ! 4 \<noteq> 0 \<and> vir ! 4 = 0xff) \<or> (cur ! 5 \<noteq> 0 \<and> vir ! 5 = 0xff)
                       \<or> (cur ! 6 \<noteq> 0 \<and> vir ! 6 = 0xff) \<or> (cur ! 7 \<noteq> 0 \<and> vir ! 7 = 0xff)
                     then 2 else 1
                   else ret)
        in (ret, virgin AND NOT current)
      else (ret, virgin))"

text \<open>
  The scalar \<open>skim\<close>: \<open>n\<close> is the number of bytes from \<open>current\<close> to \<open>current_end\<close>. The comparison is
  \<open>current < current_end\<close>, so a remainder below the stride also ends the loop after one more round.
\<close>

definition skim_hit64 :: "bytes \<Rightarrow> bytes \<Rightarrow> nat \<Rightarrow> bool" where
  "skim_hit64 virgin current x =
     (let c = join_words (take 8 (drop (8 * x) current)) :: u64;
          v = join_words (take 8 (drop (8 * x) virgin))
      in c \<noteq> 0 \<and> classify_word64 c AND v \<noteq> 0)"

function skim64 :: "bytes \<Rightarrow> bytes \<Rightarrow> nat \<Rightarrow> u32" where
  "skim64 virgin current n =
     (if n = 0 then 0
      else if skim_hit64 virgin current 0 then 1
      else if skim_hit64 virgin current 1 then 1
      else if skim_hit64 virgin current 2 then 1
      else if skim_hit64 virgin current 3 then 1
      else skim64 (drop 32 virgin) (drop 32 current) (n - 32))"
  by pat_completeness auto
termination
  by (relation "measure (\<lambda>(v, c, n). n)") auto

text \<open>
  The AVX2 \<open>skim\<close>: \<open>_mm256_cmpeq_epi64\<close> with zero gives all-ones lanes where a word is zero and
  \<open>_mm256_movemask_epi8\<close> collects one bit per byte, i.e. eight bits per word.
\<close>

definition avx2_zero_mask :: "bytes \<Rightarrow> u32" where
  "avx2_zero_mask current =
     join_words (map (\<lambda>x. if join_words (take 8 (drop (8 * x) current)) = (0 :: u64)
                          then 0xff else (0 :: u8)) [0, 1, 2, 3])"

definition masked_hit64 :: "bool \<Rightarrow> bytes \<Rightarrow> bytes \<Rightarrow> nat \<Rightarrow> bool" where
  "masked_hit64 is_zero virgin current x =
     (\<not> is_zero \<and> classify_word64 (join_words (take 8 (drop (8 * x) current)))
        AND join_words (take 8 (drop (8 * x) virgin)) \<noteq> 0)"

function skim64_avx2 :: "bytes \<Rightarrow> bytes \<Rightarrow> nat \<Rightarrow> u32" where
  "skim64_avx2 virgin current n =
     (if n = 0 then 0
      else let mask = avx2_zero_mask current in
        if mask = - 1 then skim64_avx2 (drop 32 virgin) (drop 32 current) (n - 32)
        else if masked_hit64 (mask AND 0xff \<noteq> 0) virgin current 0 then 1
        else if masked_hit64 (mask AND 0xff00 \<noteq> 0) virgin current 1 then 1
        else if masked_hit64 (mask AND 0xff0000 \<noteq> 0) virgin current 2 then 1
        else if masked_hit64 (mask AND 0xff000000 \<noteq> 0) virgin current 3 then 1
        else skim64_avx2 (drop 32 virgin) (drop 32 current) (n - 32))"
  by pat_completeness auto
termination
  by (relation "measure (\<lambda>(v, c, n). n)") auto

text \<open>
  The AVX-512 \<open>skim\<close>: \<open>_mm512_testn_epi64_mask\<close> sets mask bit \<open>x\<close> when word \<open>x\<close> is zero. Its loop
  runs while \<open>current != current_end\<close>: with a remainder below 64 bytes it would step over the end.
\<close>

definition avx512_zero_mask :: "bytes \<Rightarrow> u8" where
  "avx512_zero_mask current =
     foldr (\<lambda>x m. if join_words (take 8 (drop (8 * x) current)) = (0 :: u64)
                  then set_bit x m else m) [0, 1, 2, 3, 4, 5, 6, 7] 0"

function skim64_avx512 :: "bytes \<Rightarrow> bytes \<Rightarrow> nat \<Rightarrow> u32 result" where
  "skim64_avx512 virgin current n =
     (if n = 0 then Inr 0
      else if n < 64 then Inl (Out_of_bounds ''current'')
      else let mask = avx512_zero_mask current in
        if mask = 0xff then skim64_avx512 (drop 64 virgin) (drop 64 current) (n - 64)
        else if masked_hit64 (bit mask 0) virgin current 0 then Inr 1
        else if masked_hit64 (bit mask 1) virgin current 1 then Inr 1
        else if masked_hit64 (bit mask 2) virgin current 2 then Inr 1
        else if masked_hit64 (bit mask 3) virgin current 3 then Inr 1
        else if masked_hit64 (bit mask 4) virgin current 4 then Inr 1
        else if masked_hit64 (bit mask 5) virgin current 5 then Inr 1
        else if masked_hit64 (bit mask 6) virgin current 6 then Inr 1
        else if masked_hit64 (bit mask 7) virgin current 7 then Inr 1
        else skim64_avx512 (drop 64 virgin) (drop 64 current) (n - 64))"
  by pat_completeness auto
termination
  by (relation "measure (\<lambda>(v, c, n). n)") auto

section \<open>coverage-32.h\<close>

definition classify_word32 :: "u32 \<Rightarrow> u32" where
  "classify_word32 word =
     (let mem16 = split_word 2 word :: u16 list;
          mem16 = mem16[0 := count_class_lookup16 ! unat (mem16 ! 0)];
          mem16 = mem16[1 := count_class_lookup16 ! unat (mem16 ! 1)]
      in join_words mem16)"

definition simplify_word32 :: "u32 \<Rightarrow> u32" where
  "simplify_word32 word =
     (if word \<noteq> 0 then
        let mem8 = split_word 4 word :: u8 list;
            mem8 = mem8[0 := simplify_lookup ! unat (mem8 ! 0)];
            mem8 = mem8[1 := simplify_lookup ! unat (mem8 ! 1)];
            mem8 = mem8[2 := simplify_lookup ! unat (mem8 ! 2)];
            mem8 = mem8[3 := simplify_lookup ! unat (mem8 ! 3)]
        in join_words mem8
      else 0x01010101)"

fun simplify_trace32 :: "nat \<Rightarrow> bytes \<Rightarrow> bytes" where
  "simplify_trace32 0 mem = mem"
| "simplify_trace32 (Suc i) mem =
     split_word 4 (simplify_word32 (join_words (take 4 mem)))
       @ simplify_trace32 i (drop 4 mem)"

fun classify_counts32 :: "nat \<Rightarrow> bytes \<Rightarrow> bytes" where
  "classify_counts32 0 mem = mem"
| "classify_counts32 (Suc i) mem =
     (let word = join_words (take 4 mem) :: u32;
          word = (if word \<noteq> 0 then classify_word32 word else word)
      in split_word 4 word @ classify_counts32 i (drop 4 mem))"

definition discover_word32 :: "u8 \<Rightarrow> u32 \<Rightarrow> u32 \<Rightarrow> u8 \<times> u32" where
  "discover_word32 ret current virgin =
     (if current AND virgin \<noteq> 0 then
        let cur = split_word 4 current :: u8 list;
            vir = split_word 4 virgin :: u8 list;
            ret = (if ret < 2 then
                     if (cur ! 0 \<noteq> 0 \<and> vir ! 0 = 0xff) \<or> (cur ! 1 \<noteq> 0 \<and> vir ! 1 = 0xff)
                       \<or> (cur ! 2 \<noteq> 0 \<and> vir ! 2 = 0xff) \<or> (cur ! 3 \<noteq> 0 \<and> vir ! 3 = 0xff)
                     then 2 else 1
                   else ret)
        in (ret, virgin AND NOT current)
      else (ret, virgin))"

definition skim_hit32 :: "bytes \<Rightarrow> bytes \<Rightarrow> nat \<Rightarrow> bool" where
  "skim_hit32 virgin current x =
     (let c = join_words (take 4 (drop (4 * x) current)) :: u32;
          v = join_words (take 4 (drop (4 * x) virgin))
      in c \<noteq> 0 \<and> classify_word32 c AND v \<noteq> 0)"

function skim32 :: "bytes \<Rightarrow> bytes \<Rightarrow> nat \<Rightarrow> u32" where
  "skim32 virgin current n =
     (if n = 0 then 0
      else if skim_hit32 virgin current 0 then 1
      else if skim_hit32 virgin current 1 then 1
      else if skim_hit32 virgin current 2 then 1
      else if skim_hit32 virgin current 3 then 1
      else skim32 (drop 16 virgin) (drop 16 current) (n - 16))"
  by pat_completeness auto
termination
  by (relation "measure (\<lambda>(v, c, n). n)") auto

declare skim64.simps [simp del] skim64_avx2.simps [simp del] skim64_avx512.simps [simp del]
  skim32.simps [simp del]


section \<open>The tables, byte by byte\<close>

abbreviation class8 :: "u8 \<Rightarrow> u8" where "class8 c \<equiv> count_class_lookup8 ! unat c"
abbreviation simplify8 :: "u8 \<Rightarrow> u8" where "simplify8 c \<equiv> simplify_lookup ! unat c"

lemma length_count_class_lookup8 [simp]: "length count_class_lookup8 = 256"
  by (simp add: count_class_lookup8_def)

lemma fold_list_update_nth:
  assumes "j < length t"
  shows "fold (\<lambda>p t. t[h p := v (h p)]) xs t ! j = (if j \<in> h ` set xs then v j else t ! j)"
  using assms by (induction xs arbitrary: t) (auto simp: nth_list_update)

lemma count_class_lookup16_nth:
  assumes "k < 65536"
  shows "count_class_lookup16 ! k = count_class_entry16 (k div 256) (k mod 256)"
proof -
  let ?h = "\<lambda>(b1 :: nat, b2 :: nat). b1 * 256 + b2"
  let ?v = "\<lambda>k :: nat. count_class_entry16 (k div 256) (k mod 256)"
  let ?xs = "List.product [0..<256] [0..<256] :: (nat \<times> nat) list"
  have step: "fold (\<lambda>(b1, b2) t. t[b1 * 256 + b2 := count_class_entry16 b1 b2]) xs t
      = fold (\<lambda>p t. t[?h p := ?v (?h p)]) xs t" if "set xs \<subseteq> {0..<256} \<times> {0..<256}" for xs t
    using that by (induction xs arbitrary: t) auto
  have sub: "set ?xs \<subseteq> {0..<256} \<times> {0..<256}"
    by (simp only: set_product set_upt subset_refl)
  have "(k div 256, k mod 256) \<in> set ?xs"
    unfolding set_product set_upt using assms by auto
  then have in_xs: "k \<in> ?h ` set ?xs"
    by (intro image_eqI [where x = "(k div 256, k mod 256)"]) simp_all
  have len: "k < length (replicate 65536 0 :: u16 list)" using assms by simp
  show ?thesis
    unfolding count_class_lookup16_def init_count_class16_def step [OF sub]
    using fold_list_update_nth [OF len, where h = ?h and v = ?v and xs = ?xs]
    by (simp only: in_xs if_True)
qed

lemma unat_u16_parts:
  "unat (h :: u16) = unat (part_of h 1 :: u8) * 256 + unat (part_of h 0 :: u8)"
  and unat_u16_hi: "unat h div 256 = unat (part_of h 1 :: u8)"
  and unat_u16_lo: "unat h mod 256 = unat (part_of h 0 :: u8)"
proof -
  show hi: "unat h div 256 = unat (part_of h 1 :: u8)"
    using unat_u16_less [of h]
    by (simp add: part_of_def unsigned_ucast_eq drop_bit_eq_div unat_div
        take_bit_nat_eq_self less_mult_imp_div_less)
  show lo: "unat h mod 256 = unat (part_of h 0 :: u8)"
    by (simp add: part_of_def unsigned_ucast_eq take_bit_eq_mod)
  show "unat h = unat (part_of h 1 :: u8) * 256 + unat (part_of h 0 :: u8)"
    by (simp only: hi [symmetric] lo [symmetric] div_mult_mod_eq)
qed

lemma part_of_class16:
  fixes h :: u16
  assumes "j < 2"
  shows "(part_of (count_class_lookup16 ! unat h) j :: u8) = class8 (part_of h j)"
proof -
  let ?hi = "class8 (part_of h 1)" and ?lo = "class8 (part_of h 0)"
  have "unat h < 65536" by (rule unat_u16_less)
  then have "count_class_lookup16 ! unat h = push_bit 8 (ucast ?hi) OR ucast ?lo"
    by (simp only: count_class_lookup16_nth unat_u16_hi unat_u16_lo count_class_entry16_def)
  also have "\<dots> = join_words [?lo, ?hi]" by (simp add: or.commute)
  finally show ?thesis
    using assms part_of_join_words [of "[?lo, ?hi]" 2 j, where 'a = 16]
    by (auto simp: less_2_cases_iff)
qed

lemma count_class_lookup8_zero_iff: "class8 c = 0 \<longleftrightarrow> c = 0"
proof
  assume zero: "class8 c = 0"
  show "c = 0"
  proof (rule ccontr)
    assume "c \<noteq> 0"
    then obtain i where i: "unat c = Suc i" by (cases "unat c") (auto simp: unat_eq_zero)
    with unat_u8_less [of c] have "i < 255" by simp
    then have "class8 c \<in> set (tl count_class_lookup8)"
      by (subst i) (simp add: nth_tl [symmetric])
    then show False by (simp add: zero) (simp add: count_class_lookup8_def)
  qed
qed (simp add: count_class_lookup8_def)

lemma count_class_lookup8_0 [simp]: "count_class_lookup8 ! 0 = 0"
  by (simp add: count_class_lookup8_def)

section \<open>Word loops that are byte-wise maps\<close>

locale word_map_loop =
  fixes k :: nat
    and step :: "'w::len word \<Rightarrow> 'w word"
    and loop :: "nat \<Rightarrow> bytes \<Rightarrow> bytes"
    and g :: "u8 \<Rightarrow> u8"
  assumes width: "8 * k = LENGTH('w)"
    and loop_0: "loop 0 mem = mem"
    and loop_Suc: "loop (Suc i) mem = split_word k (step (join_words (take k mem))) @ loop i (drop k mem)"
    and bytewise: "j < k \<Longrightarrow> part_of (step w) j = g (part_of w j)"
begin

lemma split_step:
  assumes "length bs = k"
  shows "split_word k (step (join_words bs)) = map g bs"
  using assms width by (intro nth_equalityI) (simp_all add: bytewise part_of_join_words)

lemma loop_map: "i * k \<le> length mem \<Longrightarrow> loop i mem = map g (take (i * k) mem) @ drop (i * k) mem"
proof (induction i arbitrary: mem)
  case 0
  then show ?case by (simp add: loop_0)
next
  case (Suc i)
  have "loop (Suc i) mem = map g (take k mem) @ loop i (drop k mem)"
    using Suc.prems by (simp add: loop_Suc split_step)
  also have "\<dots> = map g (take k mem) @ map g (take (i * k) (drop k mem)) @ drop (i * k) (drop k mem)"
    using Suc by simp
  finally show ?case
    by (simp add: take_add add.commute flip: map_append)
qed

lemma length_loop: "i * k \<le> length mem \<Longrightarrow> length (loop i mem) = length mem"
  by (simp add: loop_map)

end

lemma nat_less_8: "j < (8 :: nat) \<longleftrightarrow> j \<in> {0, 1, 2, 3, 4, 5, 6, 7}"
  and nat_less_4: "j < (4 :: nat) \<longleftrightarrow> j \<in> {0, 1, 2, 3}"
  by auto

lemma part_of_classify_word64:
  assumes "j < 8"
  shows "(part_of (classify_word64 w) j :: u8) = class8 (part_of w j)"
proof -
  let ?hs = "map (\<lambda>h. count_class_lookup16 ! unat h) (split_word 4 w :: u16 list)"
  have "classify_word64 w = join_words ?hs"
    by (simp add: classify_word64_def split_word_def upt_rec)
  then have "(part_of (classify_word64 w) i :: u16) = count_class_lookup16 ! unat (part_of w i :: u16)"
    if "i < 4" for i
    using that by (simp add: part_of_join_words)
  moreover have "(part_of v j :: u8) = part_of (part_of v (j div 2) :: u16) (j mod 2)" for v :: u64
    using part_of_part_of [where 'b = 16 and 'c = 8 and m = 2 and j = "j mod 2" and w = v] by simp
  ultimately show ?thesis
    using assms by (simp add: part_of_class16 less_mult_imp_div_less)
qed

lemma part_of_classify_word32:
  assumes "j < 4"
  shows "(part_of (classify_word32 w) j :: u8) = class8 (part_of w j)"
proof -
  let ?hs = "map (\<lambda>h. count_class_lookup16 ! unat h) (split_word 2 w :: u16 list)"
  have "classify_word32 w = join_words ?hs"
    by (simp add: classify_word32_def split_word_def upt_rec)
  then have "(part_of (classify_word32 w) i :: u16) = count_class_lookup16 ! unat (part_of w i :: u16)"
    if "i < 2" for i
    using that by (simp add: part_of_join_words)
  moreover have "(part_of v j :: u8) = part_of (part_of v (j div 2) :: u16) (j mod 2)" for v :: u32
    using part_of_part_of [where 'b = 16 and 'c = 8 and m = 2 and j = "j mod 2" and w = v] by simp
  ultimately show ?thesis
    using assms by (simp add: part_of_class16 less_mult_imp_div_less)
qed


lemma simplify_lookup_nth: "i < 256 \<Longrightarrow> simplify_lookup ! i = (if i = 0 then 1 else 128)"
  by (simp add: simplify_lookup_def nth_append)

lemma simplify8_eq: "simplify8 c = (if c = 0 then 1 else 128)"
  by (simp add: simplify_lookup_nth unat_u8_less unat_eq_zero)

lemma part_of_simplify_word64:
  assumes "j < 8"
  shows "(part_of (simplify_word64 w) j :: u8) = simplify8 (part_of w j)"
proof (cases "w = 0")
  case True
  moreover have "\<forall>j \<in> {0, 1, 2, 3, 4, 5, 6, 7}. (part_of (0x0101010101010101 :: u64) j :: u8) = 1"
    by (simp add: part_of_def drop_bit_eq_div)
  ultimately show ?thesis
    using assms by (auto simp: simplify_word64_def simplify_lookup_nth nat_less_8)
next
  case False
  then have "simplify_word64 w = join_words (map simplify8 (split_word 8 w))"
    by (simp add: simplify_word64_def split_word_def upt_rec)
  then show ?thesis using assms by (simp add: part_of_join_words)
qed

lemma part_of_simplify_word32:
  assumes "j < 4"
  shows "(part_of (simplify_word32 w) j :: u8) = simplify8 (part_of w j)"
proof (cases "w = 0")
  case True
  moreover have "\<forall>j \<in> {0, 1, 2, 3}. (part_of (0x01010101 :: u32) j :: u8) = 1"
    by (simp add: part_of_def drop_bit_eq_div)
  ultimately show ?thesis
    using assms by (auto simp: simplify_word32_def simplify_lookup_nth nat_less_4)
next
  case False
  then have "simplify_word32 w = join_words (map simplify8 (split_word 4 w))"
    by (simp add: simplify_word32_def split_word_def upt_rec)
  then show ?thesis using assms by (simp add: part_of_join_words)
qed

interpretation simplify64: word_map_loop 8 simplify_word64 simplify_trace64 simplify8
  by unfold_locales (simp_all add: part_of_simplify_word64)

interpretation simplify32: word_map_loop 4 simplify_word32 simplify_trace32 simplify8
  by unfold_locales (simp_all add: part_of_simplify_word32)

interpretation classify64: word_map_loop 8
  "\<lambda>w. if w \<noteq> 0 then classify_word64 w else w" classify_counts64 class8
  by unfold_locales (simp_all add: part_of_classify_word64 count_class_lookup8_zero_iff Let_def)

interpretation classify32: word_map_loop 4
  "\<lambda>w. if w \<noteq> 0 then classify_word32 w else w" classify_counts32 class8
  by unfold_locales (simp_all add: part_of_classify_word32 count_class_lookup8_zero_iff Let_def)

section \<open>Discovery of new tuples and counts\<close>

text \<open>
  The contract of \<open>has_new_bits\<close>, byte by byte: 2 when some hit byte is pristine (255) in the virgin
  map, 1 when only some bit of it was still virgin, 0 otherwise; and every seen bit leaves the map.
\<close>

definition novelty :: "bytes \<Rightarrow> bytes \<Rightarrow> u8" where
  "novelty cur vir =
     (if list_ex (\<lambda>(c, v). c \<noteq> 0 \<and> v = 255) (zip cur vir) then 2
      else if list_ex (\<lambda>(c, v). c AND v \<noteq> 0) (zip cur vir) then 1 else 0)"

definition clear_seen :: "bytes \<Rightarrow> bytes \<Rightarrow> bytes" where
  "clear_seen cur vir = map2 (\<lambda>c v. v AND NOT c) cur vir"

lemma novelty_append:
  "length xs = length vs \<Longrightarrow> novelty (xs @ ys) (vs @ ws) = max (novelty xs vs) (novelty ys ws)"
  by (simp add: novelty_def zip_append max_def word_le_nat_alt)

lemma novelty_Nil [simp]: "novelty [] vs = 0" "novelty xs [] = 0"
  by (simp_all add: novelty_def)

lemma novelty_values: "novelty cur vir \<in> {0, 1, 2}"
  by (simp add: novelty_def)

lemma clear_seen_append:
  "length xs = length vs \<Longrightarrow> clear_seen (xs @ ys) (vs @ ws) = clear_seen xs vs @ clear_seen ys ws"
  by (simp add: clear_seen_def zip_append)

lemma length_clear_seen [simp]: "length (clear_seen cur vir) = min (length cur) (length vir)"
  by (simp add: clear_seen_def)

lemma and_not_self_word [simp]: "c AND (v AND NOT c) = (0 :: 'a::len word)"
  by (rule bit_word_eqI) (auto simp: bit_simps)

lemma novelty_clear_seen:
  "length cur = length vir \<Longrightarrow> novelty cur (clear_seen cur vir) = 0"
proof (induction cur vir rule: list_induct2)
  case (Cons c cs v vs)
  have "c = 0" if "v AND NOT c = 255"
  proof -
    have "c AND (v AND NOT c) = c AND 255" by (simp only: that)
    then show "c = 0" by simp
  qed
  with Cons.IH show ?case
    by (auto simp: novelty_def clear_seen_def split: if_splits)
qed (simp add: clear_seen_def)


locale discover_loop =
  fixes k :: nat
    and disc :: "u8 \<Rightarrow> 'w::len word \<Rightarrow> 'w word \<Rightarrow> u8 \<times> 'w word"
    and loop :: "nat \<Rightarrow> u8 \<Rightarrow> bytes \<Rightarrow> bytes \<Rightarrow> u8 \<times> bytes"
  assumes width: "8 * k = LENGTH('w)"
    and loop_0: "loop 0 ret cur vir = (ret, vir)"
    and loop_Suc: "loop (Suc i) ret cur vir =
      (let c = join_words (take k cur); v = join_words (take k vir);
           (ret', v') = (if c \<noteq> 0 then disc ret c v else (ret, v));
           (ret'', vs) = loop i ret' (drop k cur) (drop k vir)
       in (ret'', split_word k v' @ vs))"
    and disc_ret: "ret \<in> {0, 1, 2} \<Longrightarrow>
      fst (disc ret c v) = max ret (novelty (split_word k c) (split_word k v))"
    and disc_virgin: "snd (disc ret c v) = v AND NOT c"
begin

lemma clear_word:
  "length bs = k \<Longrightarrow> length ws = k \<Longrightarrow>
     split_word k (join_words ws AND NOT (join_words bs) :: 'w word) = clear_seen bs ws"
  using width
  by (intro nth_equalityI)
    (simp_all add: clear_seen_def part_of_and part_of_not part_of_join_words
      mult_le_mono2 [of "Suc _" k 8, simplified])

lemma clear_zero: "length bs = length ws \<Longrightarrow> \<forall>b \<in> set bs. b = 0 \<Longrightarrow> clear_seen bs ws = ws"
  by (induction bs ws rule: list_induct2) (simp_all add: clear_seen_def)

lemma novelty_zero: "\<forall>b \<in> set bs. b = 0 \<Longrightarrow> novelty bs ws = 0"
  by (fastforce simp: novelty_def list_ex_iff dest: set_zip_leftD)

lemma join_zero: "length (bs :: bytes) = k \<Longrightarrow> (join_words bs :: 'w word) = 0 \<longleftrightarrow> (\<forall>b \<in> set bs. b = 0)"
  using width word_zero_iff_parts [where 'b = 8 and k = k, of "join_words bs :: 'w word"]
  by (simp add: part_of_join_words all_set_conv_all_nth)

lemma loop_spec:
  assumes "ret \<in> {0, 1, 2}" and "i * k \<le> length cur" and "i * k \<le> length vir"
  shows "loop i ret cur vir =
    (max ret (novelty (take (i * k) cur) (take (i * k) vir)),
     clear_seen (take (i * k) cur) (take (i * k) vir) @ drop (i * k) vir)"
  using assms
proof (induction i arbitrary: ret cur vir)
  case 0
  then show ?case by (auto simp: loop_0 clear_seen_def)
next
  case (Suc i)
  let ?c = "take k cur" and ?v = "take k vir"
  let ?n = "novelty ?c ?v"
  have len: "length ?c = k" "length ?v = k" using Suc.prems by auto
  obtain ret' v' where step: "(if join_words ?c \<noteq> (0 :: 'w word)
      then disc ret (join_words ?c) (join_words ?v) else (ret, join_words ?v)) = (ret', v')"
    by fastforce
  have ret': "ret' = max ret ?n" and v': "split_word k v' = clear_seen ?c ?v"
    using step Suc.prems(1) len width disc_ret [of ret "join_words ?c" "join_words ?v"]
      disc_virgin [of ret "join_words ?c" "join_words ?v"]
      clear_word [OF len] join_zero [OF len(1)]
    by (auto simp: split_word_join_words novelty_zero clear_zero split: if_splits)
  have "ret' \<in> {0, 1, 2}"
    using Suc.prems(1) novelty_values [of ?c ?v] by (auto simp: ret' max_def)
  then have "loop i ret' (drop k cur) (drop k vir) =
      (max ret' (novelty (take (i * k) (drop k cur)) (take (i * k) (drop k vir))),
       clear_seen (take (i * k) (drop k cur)) (take (i * k) (drop k vir))
         @ drop (i * k) (drop k vir))"
    using Suc by simp
  then show ?case
    using len by (simp add: loop_Suc step ret' v' take_add novelty_append clear_seen_append
        max.assoc add.commute)
qed

end

lemma parts_and_nonzero:
  assumes "8 * k = LENGTH('w)"
  shows "(c AND v :: 'w::len word) \<noteq> 0
     \<longleftrightarrow> list_ex (\<lambda>(c, v). c AND v \<noteq> 0) (zip (split_word k c) (split_word k v :: u8 list))"
proof -
  have "(c AND v = 0) \<longleftrightarrow> (\<forall>j < k. (part_of c j AND part_of v j :: u8) = 0)"
    by (subst word_zero_iff_parts [where 'b = 8 and k = k]) (simp_all add: assms part_of_and)
  then show ?thesis
    by (simp add: list_ex_zip cong: conj_cong)
qed

lemma novelty_words:
  assumes "8 * k = LENGTH('w)"
  shows "novelty (split_word k c) (split_word k v) =
    (if (c AND v :: 'w::len word) \<noteq> 0 then
       if \<exists>j < k. (part_of c j :: u8) \<noteq> 0 \<and> (part_of v j :: u8) = 255 then 2 else 1
     else 0)"
proof -
  have "list_ex (\<lambda>(c, v). c \<noteq> 0 \<and> v = 255) (zip (split_word k c :: u8 list) (split_word k v :: u8 list))
      \<longleftrightarrow> (\<exists>j < k. (part_of c j :: u8) \<noteq> 0 \<and> (part_of v j :: u8) = 255)"
    by (simp add: list_ex_zip cong: conj_cong)
  moreover have "list_ex (\<lambda>(c, v). c AND v \<noteq> 0) (zip cs vs)"
    if "list_ex (\<lambda>(c, v). c \<noteq> 0 \<and> v = 255) (zip cs vs)" for cs vs :: "u8 list"
  proof -
    from that obtain c where "(c, 255) \<in> set (zip cs vs)" and "c \<noteq> 0"
      by (auto simp: list_ex_iff)
    then show ?thesis by (auto simp: list_ex_iff intro!: bexI [of _ "(c, 255)"])
  qed
  ultimately show ?thesis
    using parts_and_nonzero [OF assms, of c v] by (auto simp: novelty_def)
qed

lemma and_not_disjoint: "c AND v = 0 \<Longrightarrow> v AND NOT c = (v :: 'w::len word)"
proof (rule bit_word_eqI)
  fix n
  assume "c AND v = 0"
  then have "\<not> bit (c AND v) n" by simp
  then show "bit (v AND NOT c) n = bit v n"
    by (auto simp: bit_simps dest: bit_imp_le_length)
qed

lemma discover_word64_correct:
  "ret \<in> {0, 1, 2} \<Longrightarrow>
     fst (discover_word64 ret c v) = max ret (novelty (split_word 8 c) (split_word 8 v))"
  "snd (discover_word64 ret c v) = v AND NOT c"
  by (simp_all add: discover_word64_def novelty_words ex_less_8 and_not_disjoint Let_def)
    (auto simp: max_def word_less_nat_alt word_le_nat_alt)

lemma discover_word32_correct:
  "ret \<in> {0, 1, 2} \<Longrightarrow>
     fst (discover_word32 ret c v) = max ret (novelty (split_word 4 c) (split_word 4 v))"
  "snd (discover_word32 ret c v) = v AND NOT c"
  by (simp_all add: discover_word32_def novelty_words ex_less_4 and_not_disjoint Let_def)
    (auto simp: max_def word_less_nat_alt word_le_nat_alt)


section \<open>The skim variants agree\<close>

definition virgin_hit :: "bytes \<Rightarrow> bytes \<Rightarrow> bool" where
  "virgin_hit cur vir = list_ex (\<lambda>(c, v). class8 c AND v \<noteq> 0) (zip cur vir)"

lemma virgin_hit_Nil [simp]: "\<not> virgin_hit [] vs" "\<not> virgin_hit cs []"
  by (simp_all add: virgin_hit_def)

lemma virgin_hit_append:
  "length cs = length vs \<Longrightarrow> virgin_hit (cs @ ds) (vs @ ws) \<longleftrightarrow> virgin_hit cs vs \<or> virgin_hit ds ws"
  by (simp add: virgin_hit_def)

lemma virgin_hit_take_add:
  assumes "m \<le> length cs" and "m \<le> length vs"
  shows "virgin_hit (take (m + n) cs) (take (m + n) vs) \<longleftrightarrow>
    virgin_hit (take m cs) (take m vs) \<or> virgin_hit (take n (drop m cs)) (take n (drop m vs))"
  using assms by (simp add: take_add virgin_hit_append)

lemma virgin_hit_novelty:
  "length cur = length vir \<Longrightarrow> virgin_hit cur vir \<longleftrightarrow> novelty (map class8 cur) vir \<noteq> 0"
proof -
  assume len: "length cur = length vir"
  have "virgin_hit cur vir \<longleftrightarrow> list_ex (\<lambda>(c, v). c AND v \<noteq> 0) (zip (map class8 cur) vir)"
    by (simp add: virgin_hit_def zip_map1 list_ex_iff case_prod_unfold)
  moreover have "list_ex (\<lambda>(c, v). c AND v \<noteq> 0) (zip (map class8 cur) vir)"
    if "list_ex (\<lambda>(c, v). c \<noteq> 0 \<and> v = 255) (zip (map class8 cur) vir)"
    using that len by (auto simp: list_ex_zip)
  ultimately show ?thesis by (auto simp: novelty_def)
qed

lemma virgin_hit_word:
  fixes cl :: "'w::len word \<Rightarrow> 'w word"
  assumes "8 * k = LENGTH('w)" and "length cs = k" and "length vs = k"
    and cls: "\<And>w j. j < k \<Longrightarrow> (part_of (cl w) j :: u8) = class8 (part_of w j)"
  shows "cl (join_words cs) AND join_words vs \<noteq> 0 \<longleftrightarrow> virgin_hit cs vs"
proof -
  have parts: "part_of (join_words cs :: 'w word) j = cs ! j"
    "part_of (join_words vs :: 'w word) j = vs ! j" if "j < k" for j
    using that assms(1-3) by (simp_all add: part_of_join_words)
  have "cl (join_words cs) AND join_words vs = 0 \<longleftrightarrow>
      (\<forall>j < k. class8 (cs ! j) AND vs ! j = 0)"
    using assms(1)
    by (subst word_zero_iff_parts [where 'b = 8 and k = k])
      (simp_all add: part_of_and parts cls)
  then show ?thesis
    using assms by (simp add: virgin_hit_def list_ex_zip)
qed

lemma cls_zero_hit: "\<forall>c \<in> set cs. c = 0 \<Longrightarrow> \<not> virgin_hit cs vs"
  by (fastforce simp: virgin_hit_def list_ex_iff dest: set_zip_leftD)

lemma join_words_zero:
  assumes "8 * length bs = LENGTH('w)"
  shows "(join_words bs :: 'w::len word) = 0 \<longleftrightarrow> (\<forall>b \<in> set (bs :: bytes). b = 0)"
  using assms word_zero_iff_parts [where 'b = 8 and k = "length bs", of "join_words bs :: 'w word"]
  by (simp add: part_of_join_words all_set_conv_all_nth)

lemma skim_hit64_eq:
  assumes "8 * x + 8 \<le> length vir" and "8 * x + 8 \<le> length cur"
  shows "skim_hit64 vir cur x \<longleftrightarrow>
    virgin_hit (take 8 (drop (8 * x) cur)) (take 8 (drop (8 * x) vir))"
proof -
  let ?c = "take 8 (drop (8 * x) cur)" and ?v = "take 8 (drop (8 * x) vir)"
  have len: "length ?c = 8" "length ?v = 8" using assms by simp_all
  have "classify_word64 (join_words ?c) AND join_words ?v \<noteq> 0 \<longleftrightarrow> virgin_hit ?c ?v"
    using len by (intro virgin_hit_word [where k = 8]) (simp_all add: part_of_classify_word64)
  moreover have "join_words ?c = (0 :: u64) \<Longrightarrow> \<not> virgin_hit ?c ?v"
    using len by (intro cls_zero_hit) (simp add: join_words_zero)
  ultimately show ?thesis by (auto simp: skim_hit64_def Let_def)
qed

lemma skim_hit32_eq:
  assumes "4 * x + 4 \<le> length vir" and "4 * x + 4 \<le> length cur"
  shows "skim_hit32 vir cur x \<longleftrightarrow>
    virgin_hit (take 4 (drop (4 * x) cur)) (take 4 (drop (4 * x) vir))"
proof -
  let ?c = "take 4 (drop (4 * x) cur)" and ?v = "take 4 (drop (4 * x) vir)"
  have len: "length ?c = 4" "length ?v = 4" using assms by simp_all
  have "classify_word32 (join_words ?c) AND join_words ?v \<noteq> 0 \<longleftrightarrow> virgin_hit ?c ?v"
    using len by (intro virgin_hit_word [where k = 4]) (simp_all add: part_of_classify_word32)
  moreover have "join_words ?c = (0 :: u32) \<Longrightarrow> \<not> virgin_hit ?c ?v"
    using len by (intro cls_zero_hit) (simp add: join_words_zero)
  ultimately show ?thesis by (auto simp: skim_hit32_def Let_def)
qed

lemma virgin_hit_blocks:
  assumes "m * b \<le> length cs" and "m * b \<le> length vs"
  shows "virgin_hit (take (m * b) cs) (take (m * b) vs) \<longleftrightarrow>
    (\<exists>x < m. virgin_hit (take b (drop (b * x) cs)) (take b (drop (b * x) vs)))"
  using assms
proof (induction m)
  case 0
  then show ?case by simp
next
  case (Suc m)
  then show ?case
    using virgin_hit_take_add [of "m * b" cs vs b]
    by (auto simp: add.commute mult.commute less_Suc_eq)
qed

lemma skim64_correct:
  assumes "32 dvd n" and "n \<le> length cur" and "n \<le> length vir"
  shows "skim64 vir cur n = (if virgin_hit (take n cur) (take n vir) then 1 else 0)"
  using assms
proof (induction vir cur n rule: skim64.induct)
  case (1 vir cur n)
  show ?case
  proof (cases "n = 0")
    case True
    then show ?thesis by (simp add: skim64.simps [of vir cur 0])
  next
    case False
    with "1.prems"(1) obtain m where n: "n = 32 + m" and m: "32 dvd m"
      by (metis dvd_diff_nat dvd_imp_le dvd_refl gr0I le_add_diff_inverse)
    have hits: "(\<exists>x < 4. skim_hit64 vir cur x) \<longleftrightarrow> virgin_hit (take 32 cur) (take 32 vir)"
      using "1.prems" n virgin_hit_blocks [of 4 8 cur vir]
      by (simp add: skim_hit64_eq cong: conj_cong)
    have "skim64 vir cur n =
        (if \<exists>x < 4. skim_hit64 vir cur x then 1 else skim64 (drop 32 vir) (drop 32 cur) m)"
      unfolding n by (subst skim64.simps) (simp add: ex_less_4)
    moreover have "\<not> (\<exists>x < 4. skim_hit64 vir cur x) \<Longrightarrow> skim64 (drop 32 vir) (drop 32 cur) m
        = (if virgin_hit (take m (drop 32 cur)) (take m (drop 32 vir)) then 1 else 0)"
      using "1.prems" "1.IH" n m False by (simp add: ex_less_4)
    ultimately show ?thesis
      using "1.prems" n virgin_hit_take_add [of 32 cur vir m] hits by simp
  qed
qed


lemma skim32_correct:
  assumes "16 dvd n" and "n \<le> length cur" and "n \<le> length vir"
  shows "skim32 vir cur n = (if virgin_hit (take n cur) (take n vir) then 1 else 0)"
  using assms
proof (induction vir cur n rule: skim32.induct)
  case (1 vir cur n)
  show ?case
  proof (cases "n = 0")
    case True
    then show ?thesis by (simp add: skim32.simps [of vir cur 0])
  next
    case False
    with "1.prems"(1) obtain m where n: "n = 16 + m" and m: "16 dvd m"
      by (metis dvd_diff_nat dvd_imp_le dvd_refl gr0I le_add_diff_inverse)
    have hits: "(\<exists>x < 4. skim_hit32 vir cur x) \<longleftrightarrow> virgin_hit (take 16 cur) (take 16 vir)"
      using "1.prems" n virgin_hit_blocks [of 4 4 cur vir]
      by (simp add: skim_hit32_eq cong: conj_cong)
    have "skim32 vir cur n =
        (if \<exists>x < 4. skim_hit32 vir cur x then 1 else skim32 (drop 16 vir) (drop 16 cur) m)"
      unfolding n by (subst skim32.simps) (simp add: ex_less_4)
    moreover have "\<not> (\<exists>x < 4. skim_hit32 vir cur x) \<Longrightarrow> skim32 (drop 16 vir) (drop 16 cur) m
        = (if virgin_hit (take m (drop 16 cur)) (take m (drop 16 vir)) then 1 else 0)"
      using "1.prems" "1.IH" n m False by (simp add: ex_less_4)
    ultimately show ?thesis
      using "1.prems" n virgin_hit_take_add [of 16 cur vir m] hits by simp
  qed
qed

lemma masked_hit64_eq:
  "masked_hit64 (join_words (take 8 (drop (8 * x) cur)) = (0 :: u64)) vir cur x = skim_hit64 vir cur x"
  by (simp add: masked_hit64_def skim_hit64_def Let_def)

lemma avx2_mask_parts:
  assumes "x < 4"
  shows "part_of (avx2_zero_mask cur) x =
    (if join_words (take 8 (drop (8 * x) cur)) = (0 :: u64) then 0xff else (0 :: u8))"
  unfolding avx2_zero_mask_def using assms
  by (subst part_of_join_words [where k = 4]) (auto simp: nat_less_4)

lemma u32_mask_parts:
  "part_of (0xff :: u32) x = (if x = 0 then 0xff else 0 :: u8)"
  "part_of (0xff00 :: u32) x = (if x = 1 then 0xff else 0 :: u8)"
  "part_of (0xff0000 :: u32) x = (if x = 2 then 0xff else 0 :: u8)"
  "part_of (0xff000000 :: u32) x = (if x = 3 then 0xff else 0 :: u8)"
  if "x < 4"
  using that by (auto simp: nat_less_4 part_of_def drop_bit_eq_div)

lemma u32_and_byte_mask:
  "(m AND 0xff \<noteq> 0) = ((part_of m 0 :: u8) \<noteq> 0)"
  "(m AND 0xff00 \<noteq> 0) = ((part_of m 1 :: u8) \<noteq> 0)"
  "(m AND 0xff0000 \<noteq> 0) = ((part_of m 2 :: u8) \<noteq> 0)"
  "(m AND 0xff000000 \<noteq> 0) = ((part_of m 3 :: u8) \<noteq> 0)"
  for m :: u32
  using word_zero_iff_parts [where 'b = 8 and k = 4, of "m AND 0xff"]
    word_zero_iff_parts [where 'b = 8 and k = 4, of "m AND 0xff00"]
    word_zero_iff_parts [where 'b = 8 and k = 4, of "m AND 0xff0000"]
    word_zero_iff_parts [where 'b = 8 and k = 4, of "m AND 0xff000000"]
  by (simp_all add: part_of_and u32_mask_parts all_less_4)

lemma avx2_mask_full:
  "avx2_zero_mask cur = - 1 \<longleftrightarrow>
     (\<forall>x < 4. join_words (take 8 (drop (8 * x) cur)) = (0 :: u64))"
proof -
  have ones: "(part_of (- 1 :: u32) x :: u8) = 255" if "x < 4" for x
    unfolding u8_255 by (rule bit_word_eqI) (use that in \<open>simp add: bit_part_of\<close>)
  have "avx2_zero_mask cur = - 1 \<longleftrightarrow> (\<forall>x < 4. (part_of (avx2_zero_mask cur) x :: u8) = 255)"
    using word_parts_eqI [where 'b = 8 and k = 4, of "avx2_zero_mask cur" "- 1"] by (auto simp: ones)
  also have "\<dots> \<longleftrightarrow> (\<forall>x < 4. join_words (take 8 (drop (8 * x) cur)) = (0 :: u64))"
    by (simp add: avx2_mask_parts) blast
  finally show ?thesis .
qed

lemma skim64_avx2_eq_skim64: "skim64_avx2 vir cur n = skim64 vir cur n"
proof (induction vir cur n rule: skim64_avx2.induct)
  case (1 vir cur n)
  let ?mask = "avx2_zero_mask cur"
  have hit: "masked_hit64 (?mask AND 0xff \<noteq> 0) vir cur 0 = skim_hit64 vir cur 0"
    "masked_hit64 (?mask AND 0xff00 \<noteq> 0) vir cur 1 = skim_hit64 vir cur 1"
    "masked_hit64 (?mask AND 0xff0000 \<noteq> 0) vir cur 2 = skim_hit64 vir cur 2"
    "masked_hit64 (?mask AND 0xff000000 \<noteq> 0) vir cur 3 = skim_hit64 vir cur 3"
    by (simp_all add: u32_and_byte_mask avx2_mask_parts masked_hit64_def skim_hit64_def Let_def)
  have none: "\<forall>x < 4. \<not> skim_hit64 vir cur x" if "?mask = - 1"
    using that by (simp add: avx2_mask_full skim_hit64_def)
  show ?case
    using "1.IH" none
    by (simp add: skim64_avx2.simps [of vir cur n] skim64.simps [of vir cur n]
        hit [unfolded One_nat_def] Let_def)
qed


lemma avx512_mask_bit:
  assumes "x < 8"
  shows "bit (avx512_zero_mask cur) x \<longleftrightarrow> join_words (take 8 (drop (8 * x) cur)) = (0 :: u64)"
proof -
  have foldr_bits: "bit (foldr (\<lambda>x m. if Z x then set_bit x m else m) xs (0 :: u8)) n
      \<longleftrightarrow> n < 8 \<and> n \<in> set xs \<and> Z n" for xs n and Z :: "nat \<Rightarrow> bool"
    by (induction xs) (auto simp: bit_simps dest: bit_imp_le_length)
  have "x \<in> set [0, 1, 2, 3, 4, 5, 6, 7]"
    using assms unfolding nat_less_8 by simp
  then show ?thesis
    unfolding avx512_zero_mask_def foldr_bits using assms by simp
qed

lemma avx512_mask_full:
  "avx512_zero_mask cur = 0xff \<longleftrightarrow>
     (\<forall>x < 8. join_words (take 8 (drop (8 * x) cur)) = (0 :: u64))"
proof -
  have "avx512_zero_mask cur = - 1 \<longleftrightarrow> (\<forall>x < 8. bit (avx512_zero_mask cur) x)"
    using bit_word_eqI [of "avx512_zero_mask cur" "- 1"] by auto
  then show ?thesis by (simp add: u8_255 avx512_mask_bit)
qed

lemma skim64_avx512_correct:
  assumes "64 dvd n" and "n \<le> length cur" and "n \<le> length vir"
  shows "skim64_avx512 vir cur n = Inr (if virgin_hit (take n cur) (take n vir) then 1 else 0)"
  using assms
proof (induction vir cur n rule: skim64_avx512.induct)
  case (1 vir cur n)
  show ?case
  proof (cases "n = 0")
    case True
    then show ?thesis by (simp add: skim64_avx512.simps [of vir cur 0])
  next
    case False
    with "1.prems"(1) obtain m where n: "n = 64 + m" and m: "64 dvd m"
      by (metis dvd_diff_nat dvd_imp_le dvd_refl gr0I le_add_diff_inverse)
    let ?mask = "avx512_zero_mask cur"
    have hit: "masked_hit64 (bit ?mask x) vir cur x = skim_hit64 vir cur x" if "x < 8" for x
      using that by (simp add: avx512_mask_bit masked_hit64_eq)
    have none: "\<not> (\<exists>x < 8. skim_hit64 vir cur x)" if "?mask = 0xff"
      using that by (simp add: avx512_mask_full skim_hit64_def)
    have hits: "(\<exists>x < 8. skim_hit64 vir cur x) \<longleftrightarrow> virgin_hit (take 64 cur) (take 64 vir)"
      using "1.prems" n virgin_hit_blocks [of 8 8 cur vir]
      by (simp add: skim_hit64_eq cong: conj_cong)
    have "skim64_avx512 vir cur n = (if \<exists>x < 8. skim_hit64 vir cur x then Inr 1
        else skim64_avx512 (drop 64 vir) (drop 64 cur) m)"
      unfolding n using none
      by (subst skim64_avx512.simps) (simp add: ex_less_8 hit [unfolded One_nat_def] Let_def)
    moreover have "\<not> (\<exists>x < 8. skim_hit64 vir cur x) \<Longrightarrow> skim64_avx512 (drop 64 vir) (drop 64 cur) m
        = Inr (if virgin_hit (take m (drop 64 cur)) (take m (drop 64 vir)) then 1 else 0)"
      using "1.prems" "1.IH" n m False by (cases "?mask = 0xff") (simp_all add: ex_less_8 hit)
    ultimately show ?thesis
      using "1.prems" n virgin_hit_take_add [of 64 cur vir m] hits by simp
  qed
qed


section \<open>Properties\<close>

text \<open>(C24) The three builds of \<open>skim\<close> in \<open>coverage-64.h\<close> (scalar, AVX2, AVX-512) and the one of
  \<open>coverage-32.h\<close> compute the same answer on a map whose size is a multiple of 64: 1 exactly when
  some trace byte, once classified, still has a virgin bit. The AVX-512 loop, which only stops at the exact
  end pointer, does not step over it.\<close>

theorem skim_variants_agree:
  assumes "64 dvd n" and "n \<le> length cur" and "n \<le> length vir"
  shows "skim64 vir cur n = (if \<exists>i < n. count_class_lookup8 ! unat (cur ! i) AND vir ! i \<noteq> 0 then 1 else 0)
    \<and> skim64_avx2 vir cur n = skim64 vir cur n
    \<and> skim64_avx512 vir cur n = Inr (skim64 vir cur n)
    \<and> skim32 vir cur n = skim64 vir cur n"
proof -
  have "32 dvd n" and "16 dvd n" using assms(1) by (auto elim!: dvdE)
  moreover have "virgin_hit (take n cur) (take n vir)
      \<longleftrightarrow> (\<exists>i < n. count_class_lookup8 ! unat (cur ! i) AND vir ! i \<noteq> 0)"
    using assms by (auto simp: virgin_hit_def list_ex_zip)
  ultimately show ?thesis
    using assms
    by (simp add: skim64_correct skim32_correct skim64_avx512_correct skim64_avx2_eq_skim64)
qed

theorem skim_variants_agree_witness:
  "skim64_avx512 (replicate 64 255) (replicate 63 0 @ [3]) 64
     = Inr (skim64 (replicate 64 255) (replicate 63 0 @ [3]) 64)
   \<and> skim64 (replicate 64 255) (replicate 63 0 @ [3]) 64 = 1"
proof -
  let ?cur = "replicate 63 0 @ [3] :: bytes" and ?vir = "replicate 64 255 :: bytes"
  have "count_class_lookup8 ! unat (?cur ! 63) AND ?vir ! 63 \<noteq> 0"
    by (simp add: nth_append count_class_lookup8_def)
  then have "\<exists>i < 64. count_class_lookup8 ! unat (?cur ! i) AND ?vir ! i \<noteq> 0"
    by (intro exI [of _ 63]) simp
  then show ?thesis
    using skim_variants_agree [of 64 ?cur ?vir] by simp
qed

end
