(* ===== verification/Afl_Files.thy ===== *)
theory Afl_Files
  imports Afl_Rand
begin

text \<open>
  The file operations the fuzzer performs under its output directory, reduced to what the modelled
  code observes: a store from path names to contents and the set of names the operating system refuses
  to open or remove, and whether it supports symbolic links. \<open>open(.., O_WRONLY | O_CREAT | O_EXCL, ..)\<close> fails on an existing name,
  \<open>O_TRUNC\<close> overwrites it, \<open>unlink\<close> fails on a missing one; the callers turn each failure into
  \<open>PFATAL\<close>, the error value \<open>Fatal\<close>. \<open>snprintf\<close> into a \<open>PATH_MAX\<close> buffer truncates, \<open>sprintf\<close> into
  one overruns it when the text does not fit.
\<close>

record afl_files = afl_rand +
  out_dir :: string
  fs :: "string \<rightharpoonup> bytes"
  fs_deny :: "string \<Rightarrow> bool"
  fs_symlinks :: bool

abbreviation PATH_MAX :: nat where "PATH_MAX \<equiv> 4096"

definition snprintf_path :: "string \<Rightarrow> string" where
  "snprintf_path s = take (PATH_MAX - 1) s"

definition sprintf_path :: "string \<Rightarrow> string result" where
  "sprintf_path s = (if length s < PATH_MAX then Inr s else Inl (Out_of_bounds ''sprintf''))"

definition creat_excl :: "'a afl_files_scheme \<Rightarrow> string \<Rightarrow> bytes \<Rightarrow> 'a afl_files_scheme result" where
  "creat_excl afl fn data =
     (if fs_deny afl fn \<or> fs afl fn \<noteq> None then Inl (Fatal ''Unable to create'')
      else Inr (afl\<lparr>fs := (fs afl)(fn \<mapsto> data)\<rparr>))"

definition creat_trunc :: "'a afl_files_scheme \<Rightarrow> string \<Rightarrow> bytes \<Rightarrow> 'a afl_files_scheme result" where
  "creat_trunc afl fn data =
     (if fs_deny afl fn then Inl (Fatal ''Unable to open'')
      else Inr (afl\<lparr>fs := (fs afl)(fn \<mapsto> data)\<rparr>))"

definition unlink_file :: "'a afl_files_scheme \<Rightarrow> string \<Rightarrow> 'a afl_files_scheme result" where
  "unlink_file afl fn =
     (if fs_deny afl fn \<or> fs afl fn = None then Inl (Fatal ''Unable to remove'')
      else Inr (afl\<lparr>fs := (fs afl)(fn := None)\<rparr>))"

text \<open>A symbolic link is kept as an entry that holds its target; \<open>None\<close> is the failure of the call.\<close>

definition symlink :: "'a afl_files_scheme \<Rightarrow> string \<Rightarrow> string \<Rightarrow> 'a afl_files_scheme option" where
  "symlink afl ldest fn =
     (if fs_symlinks afl \<and> \<not> fs_deny afl fn \<and> fs afl fn = None
      then Some (afl\<lparr>fs := (fs afl)(fn \<mapsto> map of_char ldest)\<rparr>) else None)"

definition read_file :: "'a afl_files_scheme \<Rightarrow> string \<Rightarrow> bytes option" where
  "read_file afl fn = (if fs_deny afl fn then None else fs afl fn)"

text \<open>The part after the last slash, \<open>strrchr(fname, '/') + 1\<close>; a name without one makes the source
  compute on a null pointer.\<close>

definition basename :: "string \<Rightarrow> string result" where
  "basename fname =
     (if CHR ''/'' \<in> set fname then Inr (rev (takeWhile (\<lambda>c. c \<noteq> CHR ''/'') (rev fname)))
      else Inl (Out_of_bounds ''strrchr''))"

text \<open>Sequencing of fallible steps: the first error ends the run.\<close>

definition bind_result :: "'a result \<Rightarrow> ('a \<Rightarrow> 'b result) \<Rightarrow> 'b result" where
  "bind_result r k = (case r of Inl e \<Rightarrow> Inl e | Inr x \<Rightarrow> k x)"

lemma bind_result_simps [simp]:
  "bind_result (Inl e) k = Inl e" "bind_result (Inr x) k = k x"
  by (simp_all add: bind_result_def)

lemma bind_result_Inr_iff:
  "bind_result r k = Inr y \<longleftrightarrow> (\<exists>x. r = Inr x \<and> k x = Inr y)"
  by (cases r) simp_all

lemma creat_excl_Inr:
  "creat_excl afl fn data = Inr afl' \<longleftrightarrow>
     \<not> fs_deny afl fn \<and> fs afl fn = None \<and> afl' = afl\<lparr>fs := (fs afl)(fn \<mapsto> data)\<rparr>"
  by (auto simp: creat_excl_def)

lemma creat_trunc_Inr:
  "creat_trunc afl fn data = Inr afl' \<longleftrightarrow>
     \<not> fs_deny afl fn \<and> afl' = afl\<lparr>fs := (fs afl)(fn \<mapsto> data)\<rparr>"
  by (auto simp: creat_trunc_def)

lemma unlink_file_Inr:
  "unlink_file afl fn = Inr afl' \<longleftrightarrow>
     \<not> fs_deny afl fn \<and> fs afl fn \<noteq> None \<and> afl' = afl\<lparr>fs := (fs afl)(fn := None)\<rparr>"
  by (auto simp: unlink_file_def)

lemmas file_op_Inr = creat_excl_Inr creat_trunc_Inr unlink_file_Inr

end
