(* ===== verification/Afl_Bitmap.thy ===== *)
theory Afl_Bitmap
  imports Afl_Coverage Afl_Files
begin

unbundle bit_operations_syntax

text \<open>
  \<open>src/afl-fuzz-bitmap.c\<close> up to \<open>minimize_bits\<close>: the weight of a trace (the repository's own
  PST-FUZZ addition), \<open>write_bitmap\<close>, the three counting loops, the state-level \<open>classify_counts\<close>,
  \<open>simplify_trace\<close>, \<open>has_new_bits\<close>, \<open>has_new_bits_unclassified\<close> and \<open>minimize_bits\<close>.

  The record \<open>afl_cov\<close> holds the coverage fields of \<open>afl_state_t\<close> and of its fork server. The main
  model is the \<open>WORD_SIZE_64\<close> build; the 32-bit build's loop is \<open>has_new_bits_loop32\<close>.
\<close>

section \<open>State\<close>

record bitmap_weight_tuple =
  bitmap_offset :: u32
  weight :: u32

record afl_cov = afl_files +
  trace_bits :: bytes
  map_size :: u32
  real_map_size :: u32
  virgin_bits :: bytes
  virgin_tmout :: bytes
  virgin_crash :: bytes
  bitmap_changed :: bool
  bitmap_weight_array :: "bitmap_weight_tuple list"
  bitmap_weight_array_size :: u32

text \<open>The pointer argument \<open>u8 *virgin_map\<close> is always one of the three maps of the state.\<close>

datatype virgin_map = Virgin_bits | Virgin_tmout | Virgin_crash

fun get_virgin :: "virgin_map \<Rightarrow> 'a afl_cov_scheme \<Rightarrow> bytes" where
  "get_virgin Virgin_bits afl = virgin_bits afl"
| "get_virgin Virgin_tmout afl = virgin_tmout afl"
| "get_virgin Virgin_crash afl = virgin_crash afl"

fun set_virgin :: "virgin_map \<Rightarrow> bytes \<Rightarrow> 'a afl_cov_scheme \<Rightarrow> 'a afl_cov_scheme" where
  "set_virgin Virgin_bits m afl = afl\<lparr>virgin_bits := m\<rparr>"
| "set_virgin Virgin_tmout m afl = afl\<lparr>virgin_tmout := m\<rparr>"
| "set_virgin Virgin_crash m afl = afl\<lparr>virgin_crash := m\<rparr>"

section \<open>Operations\<close>

fun pst_weight_loop :: "bitmap_weight_tuple list \<Rightarrow> bytes \<Rightarrow> u32 \<Rightarrow> u32 result" where
  "pst_weight_loop [] mem total_weight = Inr total_weight"
| "pst_weight_loop (t # ts) mem total_weight =
     (if length mem \<le> unat (bitmap_offset t) then Inl (Out_of_bounds ''mem'')
      else if mem ! unat (bitmap_offset t) \<noteq> 0
        then pst_weight_loop ts mem (total_weight + weight t)
      else pst_weight_loop ts mem total_weight)"

definition pst_fuzz_calculate_bitmap_weight :: "'a afl_cov_scheme \<Rightarrow> bytes \<Rightarrow> u32 result" where
  "pst_fuzz_calculate_bitmap_weight afl mem =
     (if length (bitmap_weight_array afl) < unat (bitmap_weight_array_size afl)
      then Inl (Out_of_bounds ''bitmap_weight_array'')
      else pst_weight_loop (take (unat (bitmap_weight_array_size afl)) (bitmap_weight_array afl)) mem 0)"

definition write_bitmap :: "'a afl_cov_scheme \<Rightarrow> 'a afl_cov_scheme result" where
  "write_bitmap afl =
     (if \<not> bitmap_changed afl then Inr afl
      else
        let afl = afl\<lparr>bitmap_changed := False\<rparr>;
            fname = snprintf_path (out_dir afl @ ''/fuzz_bitmap'')
        in creat_trunc afl fname (take (unat (map_size afl)) (virgin_bits afl)))"

definition count_bits_word :: "u32 \<Rightarrow> u32" where
  "count_bits_word v =
     (let v = v - (drop_bit 1 v AND 0x55555555);
          v = (v AND 0x33333333) + (drop_bit 2 v AND 0x33333333)
      in drop_bit 24 (((v + drop_bit 4 v) AND 0x0F0F0F0F) * 0x01010101))"

fun count_bits_loop :: "nat \<Rightarrow> bytes \<Rightarrow> u32 \<Rightarrow> u32" where
  "count_bits_loop 0 ptr ret = ret"
| "count_bits_loop (Suc i) ptr ret =
     (let v = join_words (take 4 ptr) :: u32 in
      if v = 0xffffffff then count_bits_loop i (drop 4 ptr) (ret + 32)
      else count_bits_loop i (drop 4 ptr) (ret + count_bits_word v))"

definition words32 :: "'a afl_cov_scheme \<Rightarrow> nat" where
  "words32 afl = unat (drop_bit 2 (real_map_size afl + 3))"

definition count_bits :: "'a afl_cov_scheme \<Rightarrow> bytes \<Rightarrow> u32" where
  "count_bits afl mem = count_bits_loop (words32 afl) mem 0"

fun count_bytes_loop :: "nat \<Rightarrow> bytes \<Rightarrow> u32 \<Rightarrow> u32" where
  "count_bytes_loop 0 ptr ret = ret"
| "count_bytes_loop (Suc i) ptr ret =
     (let v = join_words (take 4 ptr) :: u32 in
      if v = 0 then count_bytes_loop i (drop 4 ptr) ret
      else
        let ret = (if v AND 0x000000ff \<noteq> 0 then ret + 1 else ret);
            ret = (if v AND 0x0000ff00 \<noteq> 0 then ret + 1 else ret);
            ret = (if v AND 0x00ff0000 \<noteq> 0 then ret + 1 else ret);
            ret = (if v AND 0xff000000 \<noteq> 0 then ret + 1 else ret)
        in count_bytes_loop i (drop 4 ptr) ret)"

definition count_bytes :: "'a afl_cov_scheme \<Rightarrow> bytes \<Rightarrow> u32" where
  "count_bytes afl mem = count_bytes_loop (words32 afl) mem 0"

fun count_non_255_loop :: "nat \<Rightarrow> bytes \<Rightarrow> u32 \<Rightarrow> u32" where
  "count_non_255_loop 0 ptr ret = ret"
| "count_non_255_loop (Suc i) ptr ret =
     (let v = join_words (take 4 ptr) :: u32 in
      if v = 0xffffffff then count_non_255_loop i (drop 4 ptr) ret
      else
        let ret = (if v AND 0x000000ff \<noteq> 0x000000ff then ret + 1 else ret);
            ret = (if v AND 0x0000ff00 \<noteq> 0x0000ff00 then ret + 1 else ret);
            ret = (if v AND 0x00ff0000 \<noteq> 0x00ff0000 then ret + 1 else ret);
            ret = (if v AND 0xff000000 \<noteq> 0xff000000 then ret + 1 else ret)
        in count_non_255_loop i (drop 4 ptr) ret)"

definition count_non_255_bytes :: "'a afl_cov_scheme \<Rightarrow> bytes \<Rightarrow> u32" where
  "count_non_255_bytes afl mem = count_non_255_loop (words32 afl) mem 0"

definition classify_counts :: "'a afl_cov_scheme \<Rightarrow> 'a afl_cov_scheme" where
  "classify_counts afl =
     afl\<lparr>trace_bits := classify_counts64 (unat (drop_bit 3 (map_size afl))) (trace_bits afl)\<rparr>"

definition simplify_trace :: "'a afl_cov_scheme \<Rightarrow> bytes \<Rightarrow> bytes" where
  "simplify_trace afl mem = simplify_trace64 (unat (drop_bit 3 (map_size afl))) mem"

fun has_new_bits_loop64 :: "nat \<Rightarrow> u8 \<Rightarrow> bytes \<Rightarrow> bytes \<Rightarrow> u8 \<times> bytes" where
  "has_new_bits_loop64 0 ret current virgin = (ret, virgin)"
| "has_new_bits_loop64 (Suc i) ret current virgin =
     (let c = join_words (take 8 current); v = join_words (take 8 virgin);
          (ret, v) = (if c \<noteq> 0 then discover_word64 ret c v else (ret, v));
          (ret, vs) = has_new_bits_loop64 i ret (drop 8 current) (drop 8 virgin)
      in (ret, split_word 8 v @ vs))"

fun has_new_bits_loop32 :: "nat \<Rightarrow> u8 \<Rightarrow> bytes \<Rightarrow> bytes \<Rightarrow> u8 \<times> bytes" where
  "has_new_bits_loop32 0 ret current virgin = (ret, virgin)"
| "has_new_bits_loop32 (Suc i) ret current virgin =
     (let c = join_words (take 4 current); v = join_words (take 4 virgin);
          (ret, v) = (if c \<noteq> 0 then discover_word32 ret c v else (ret, v));
          (ret, vs) = has_new_bits_loop32 i ret (drop 4 current) (drop 4 virgin)
      in (ret, split_word 4 v @ vs))"

definition has_new_bits :: "'a afl_cov_scheme \<Rightarrow> virgin_map \<Rightarrow> u8 \<times> 'a afl_cov_scheme" where
  "has_new_bits afl vm =
     (let i = unat (drop_bit 3 (real_map_size afl + 7));
          (ret, virgin) = has_new_bits_loop64 i 0 (trace_bits afl) (get_virgin vm afl);
          afl = set_virgin vm virgin afl
      in if ret \<noteq> 0 \<and> vm = Virgin_bits then (ret, afl\<lparr>bitmap_changed := True\<rparr>) else (ret, afl))"

definition has_new_bits_32 :: "'a afl_cov_scheme \<Rightarrow> virgin_map \<Rightarrow> u8 \<times> 'a afl_cov_scheme" where
  "has_new_bits_32 afl vm =
     (let i = words32 afl;
          (ret, virgin) = has_new_bits_loop32 i 0 (trace_bits afl) (get_virgin vm afl);
          afl = set_virgin vm virgin afl
      in if ret \<noteq> 0 \<and> vm = Virgin_bits then (ret, afl\<lparr>bitmap_changed := True\<rparr>) else (ret, afl))"

definition has_new_bits_unclassified ::
  "'a afl_cov_scheme \<Rightarrow> virgin_map \<Rightarrow> u8 \<times> 'a afl_cov_scheme" where
  "has_new_bits_unclassified afl vm =
     (if skim64 (get_virgin vm afl) (trace_bits afl) (unat (map_size afl)) = 0 then (0, afl)
      else has_new_bits (classify_counts afl) vm)"

function minimize_bits_loop :: "nat \<Rightarrow> nat \<Rightarrow> bytes \<Rightarrow> bytes \<Rightarrow> bytes result" where
  "minimize_bits_loop i n dst src =
     (if i < n then
        if length src \<le> i then Inl (Out_of_bounds ''src'')
        else if src ! i \<noteq> 0 then
          if length dst \<le> i div 8 then Inl (Out_of_bounds ''dst'')
          else minimize_bits_loop (Suc i) n (dst[i div 8 := dst ! (i div 8) OR push_bit (i mod 8) 1]) src
        else minimize_bits_loop (Suc i) n dst src
      else Inr dst)"
  by pat_completeness auto
termination
  by (relation "measure (\<lambda>(i, n, dst, src). n - i)") auto

declare minimize_bits_loop.simps [simp del]

definition minimize_bits :: "'a afl_cov_scheme \<Rightarrow> bytes \<Rightarrow> bytes \<Rightarrow> bytes result" where
  "minimize_bits afl dst src = minimize_bits_loop 0 (unat (map_size afl)) dst src"


section \<open>Well-formed coverage state\<close>

text \<open>
  What the map set-up establishes: all maps have \<open>map_size\<close> bytes, the size is a multiple of 64 (the
  fork server rounds it up) and the real size does not exceed it.
\<close>

definition cov_wf :: "'a afl_cov_scheme \<Rightarrow> bool" where
  "cov_wf afl \<longleftrightarrow>
     length (trace_bits afl) = unat (map_size afl)
     \<and> length (virgin_bits afl) = unat (map_size afl)
     \<and> length (virgin_tmout afl) = unat (map_size afl)
     \<and> length (virgin_crash afl) = unat (map_size afl)
     \<and> 64 dvd unat (map_size afl) \<and> unat (real_map_size afl) \<le> unat (map_size afl)"

lemma cov_wf_lengths:
  assumes "cov_wf afl"
  shows "length (trace_bits afl) = unat (map_size afl)"
    and "length (get_virgin vm afl) = unat (map_size afl)"
  using assms by (cases vm; simp add: cov_wf_def)+

text \<open>The bytes the word loops reach: the real size rounded up to the word size.\<close>

abbreviation scan64 :: "'a afl_cov_scheme \<Rightarrow> nat" where
  "scan64 afl \<equiv> 8 * unat (drop_bit 3 (real_map_size afl + 7))"

abbreviation scan32 :: "'a afl_cov_scheme \<Rightarrow> nat" where
  "scan32 afl \<equiv> 4 * words32 afl"

lemma cov_wf_real_small:
  assumes "cov_wf afl"
  shows "unat (real_map_size afl) \<le> 4294967232"
proof -
  from assms obtain q where q: "unat (map_size afl) = 64 * q" by (auto simp: cov_wf_def)
  then have "64 * q < 4294967296" using unat_u32_less [of "map_size afl"] by simp
  then have "64 * q \<le> 4294967232" by presburger
  with q assms show ?thesis by (simp add: cov_wf_def)
qed

lemma scan64_eq: "cov_wf afl \<Longrightarrow> scan64 afl = 8 * ((unat (real_map_size afl) + 7) div 8)"
  using cov_wf_real_small [of afl]
  by (simp add: unat_drop_bit_eq drop_bit_eq_div unat_div unat_word_ariths)

lemma scan32_eq: "cov_wf afl \<Longrightarrow> scan32 afl = 4 * ((unat (real_map_size afl) + 3) div 4)"
  using cov_wf_real_small [of afl]
  by (simp add: words32_def unat_drop_bit_eq drop_bit_eq_div unat_div unat_word_ariths)

lemma scan64_le:
  assumes "cov_wf afl"
  shows "scan64 afl \<le> unat (map_size afl)"
proof -
  from assms obtain q where q: "unat (map_size afl) = 8 * q"
    by (auto simp: cov_wf_def elim!: dvdE)
  with assms have "unat (real_map_size afl) \<le> 8 * q" by (simp add: cov_wf_def)
  then have "(unat (real_map_size afl) + 7) div 8 \<le> q" by presburger
  then show ?thesis unfolding scan64_eq [OF assms] q by simp
qed

lemma scan32_le:
  assumes "cov_wf afl"
  shows "scan32 afl \<le> unat (map_size afl)"
proof -
  from assms obtain q where q: "unat (map_size afl) = 4 * q"
    by (auto simp: cov_wf_def elim!: dvdE)
  with assms have "unat (real_map_size afl) \<le> 4 * q" by (simp add: cov_wf_def)
  then have "(unat (real_map_size afl) + 3) div 4 \<le> q" by presburger
  then show ?thesis unfolding scan32_eq [OF assms] q by simp
qed

lemma cov_wf_words:
  assumes "cov_wf afl"
  shows "unat (drop_bit 3 (map_size afl)) * 8 = unat (map_size afl)"
  using assms by (auto simp: cov_wf_def drop_bit_eq_div unat_div elim!: dvdE)

section \<open>Classification and simplification act on every byte\<close>

lemma classify_counts_map:
  "cov_wf afl \<Longrightarrow> classify_counts afl = afl\<lparr>trace_bits := map class8 (trace_bits afl)\<rparr>"
  using classify64.loop_map [of "unat (drop_bit 3 (map_size afl))" "trace_bits afl"]
  by (simp add: classify_counts_def cov_wf_words cov_wf_lengths(1))

lemma simplify_trace_map:
  "cov_wf afl \<Longrightarrow> length mem = unat (map_size afl) \<Longrightarrow> simplify_trace afl mem = map simplify8 mem"
  using simplify64.loop_map [of "unat (drop_bit 3 (map_size afl))" mem]
  by (simp add: simplify_trace_def cov_wf_words)

lemma classify_counts_wf: "cov_wf afl \<Longrightarrow> cov_wf (classify_counts afl)"
  unfolding classify_counts_map by (simp add: cov_wf_def)

section \<open>has\_new\_bits\<close>

interpretation has_new64: discover_loop 8 discover_word64 has_new_bits_loop64
  by unfold_locales (simp_all add: discover_word64_correct Let_def)

interpretation has_new32: discover_loop 4 discover_word32 has_new_bits_loop32
  by unfold_locales (simp_all add: discover_word32_correct Let_def)

lemma get_set_virgin [simp]: "get_virgin vm (set_virgin vm m afl) = m"
  by (cases vm) simp_all

lemma set_get_virgin [simp]: "set_virgin vm (get_virgin vm afl) afl = afl"
  by (cases vm) simp_all

lemma set_virgin_frame [frame, simp]:
  "trace_bits (set_virgin vm m afl) = trace_bits afl"
  "map_size (set_virgin vm m afl) = map_size afl"
  "real_map_size (set_virgin vm m afl) = real_map_size afl"
  by (cases vm; simp)+

lemma get_virgin_frame [frame, simp]:
  "get_virgin vm (afl\<lparr>bitmap_changed := b\<rparr>) = get_virgin vm afl"
  "get_virgin vm (afl\<lparr>trace_bits := t\<rparr>) = get_virgin vm afl"
  by (cases vm; simp)+

lemma max_0_u8 [simp]: "max 0 x = (x :: u8)"
  by (simp add: max_def)

lemma has_new_bits_eq:
  assumes "cov_wf afl"
  shows "has_new_bits afl vm =
    (let cur = take (scan64 afl) (trace_bits afl); vir = take (scan64 afl) (get_virgin vm afl);
         afl' = set_virgin vm (clear_seen cur vir @ drop (scan64 afl) (get_virgin vm afl)) afl
     in (novelty cur vir,
         if novelty cur vir \<noteq> 0 \<and> vm = Virgin_bits then afl'\<lparr>bitmap_changed := True\<rparr> else afl'))"
proof -
  let ?i = "unat (drop_bit 3 (real_map_size afl + 7))"
  have "?i * 8 \<le> length (trace_bits afl)" "?i * 8 \<le> length (get_virgin vm afl)"
    using scan64_le [OF assms] cov_wf_lengths [OF assms] by (simp_all add: mult.commute)
  then show ?thesis
    using has_new64.loop_spec [of 0 ?i "trace_bits afl" "get_virgin vm afl"]
    by (cases vm) (simp_all add: has_new_bits_def Let_def mult.commute)
qed

lemma has_new_bits_32_eq:
  assumes "cov_wf afl"
  shows "has_new_bits_32 afl vm =
    (let cur = take (scan32 afl) (trace_bits afl); vir = take (scan32 afl) (get_virgin vm afl);
         afl' = set_virgin vm (clear_seen cur vir @ drop (scan32 afl) (get_virgin vm afl)) afl
     in (novelty cur vir,
         if novelty cur vir \<noteq> 0 \<and> vm = Virgin_bits then afl'\<lparr>bitmap_changed := True\<rparr> else afl'))"
proof -
  let ?i = "words32 afl"
  have "?i * 4 \<le> length (trace_bits afl)" "?i * 4 \<le> length (get_virgin vm afl)"
    using scan32_le [OF assms] cov_wf_lengths [OF assms] by (simp_all add: mult.commute)
  then show ?thesis
    using has_new32.loop_spec [of 0 ?i "trace_bits afl" "get_virgin vm afl"]
    by (cases vm) (simp_all add: has_new_bits_32_def Let_def mult.commute)
qed

lemma has_new_bits_wf: "cov_wf afl \<Longrightarrow> cov_wf (snd (has_new_bits afl vm))"
  using scan64_le [of afl]
  by (cases vm) (simp_all add: has_new_bits_eq Let_def, simp_all add: cov_wf_def min_def)

text \<open>The contract the callers rely on, stated without the word loops.\<close>

lemma has_new_bits_ret:
  "cov_wf afl \<Longrightarrow> fst (has_new_bits afl vm)
     = novelty (take (scan64 afl) (trace_bits afl)) (take (scan64 afl) (get_virgin vm afl))"
  by (simp add: has_new_bits_eq Let_def)

lemma has_new_bits_virgin:
  "cov_wf afl \<Longrightarrow> get_virgin vm (snd (has_new_bits afl vm))
     = clear_seen (take (scan64 afl) (trace_bits afl)) (take (scan64 afl) (get_virgin vm afl))
         @ drop (scan64 afl) (get_virgin vm afl)"
  by (cases vm) (simp_all add: has_new_bits_eq Let_def)

lemma has_new_bits_frame [frame]:
  "trace_bits (snd (has_new_bits afl vm)) = trace_bits afl"
  "map_size (snd (has_new_bits afl vm)) = map_size afl"
  "real_map_size (snd (has_new_bits afl vm)) = real_map_size afl"
  by (cases vm; simp add: has_new_bits_def Let_def split: prod.split)+

lemma has_new_bits_again_aux:
  assumes "cov_wf afl"
  shows "fst (has_new_bits (snd (has_new_bits afl vm)) vm) = 0"
proof -
  let ?afl' = "snd (has_new_bits afl vm)" and ?n = "scan64 afl"
  let ?cur = "take ?n (trace_bits afl)" and ?vir = "take ?n (get_virgin vm afl)"
  have len: "length ?cur = length ?vir" "length ?cur = ?n"
    using scan64_le [OF assms] cov_wf_lengths [OF assms] by (simp_all add: min_def)
  have "fst (has_new_bits ?afl' vm) = novelty ?cur (clear_seen ?cur ?vir)"
    using len has_new_bits_ret [OF has_new_bits_wf [OF assms], of vm vm]
    by (simp add: has_new_bits_frame has_new_bits_virgin [OF assms])
  then show ?thesis by (simp add: novelty_clear_seen [OF len(1)])
qed

lemma novelty_zero_take:
  assumes "novelty (take m xs) (take m vs) = 0" and "n \<le> m" and "m \<le> length xs" and "m \<le> length vs"
  shows "novelty (take n xs) (take n vs) = 0"
proof -
  obtain d where m: "m = n + d" using assms(2) le_Suc_ex by blast
  have "novelty (take m xs) (take m vs) =
      max (novelty (take n xs) (take n vs)) (novelty (take d (drop n xs)) (take d (drop n vs)))"
    unfolding m take_add using assms m by (intro novelty_append) simp
  with assms(1) show ?thesis
    by (simp add: max_def split: if_splits)
qed

lemma has_new_bits_unclassified_aux:
  assumes "cov_wf afl"
  shows "fst (has_new_bits_unclassified afl vm) = fst (has_new_bits (classify_counts afl) vm)"
proof -
  let ?n = "unat (map_size afl)"
  have len: "length (trace_bits afl) = ?n" "length (get_virgin vm afl) = ?n"
    using cov_wf_lengths [OF assms] by simp_all
  have "32 dvd ?n" using assms by (auto simp: cov_wf_def elim!: dvdE)
  then have skim: "skim64 (get_virgin vm afl) (trace_bits afl) ?n =
      (if novelty (map class8 (trace_bits afl)) (get_virgin vm afl) \<noteq> 0 then 1 else 0)"
    using skim64_correct [of ?n "trace_bits afl" "get_virgin vm afl"] len
    by (simp add: virgin_hit_novelty)
  have "fst (has_new_bits (classify_counts afl) vm) = 0"
    if "novelty (map class8 (trace_bits afl)) (get_virgin vm afl) = 0"
    using that len scan64_le [OF assms] has_new_bits_ret [OF classify_counts_wf [OF assms], of vm]
      novelty_zero_take [of ?n "map class8 (trace_bits afl)" "get_virgin vm afl" "scan64 afl"]
    by (simp add: classify_counts_map [OF assms])
  then show ?thesis by (simp add: has_new_bits_unclassified_def skim)
qed


section \<open>The counting loops\<close>

definition byte_popcount :: "u8 \<Rightarrow> nat" where
  "byte_popcount b = length (filter (bit b) [0..<8])"

text \<open>One loop shape: \<open>i\<close> times read a 32-bit word, add what its four bytes contribute.\<close>

locale byte_counter =
  fixes loop :: "nat \<Rightarrow> bytes \<Rightarrow> u32 \<Rightarrow> u32"
    and score :: "u8 \<Rightarrow> nat"
  assumes loop_0: "loop 0 ptr ret = ret"
    and loop_Suc: "loop (Suc i) ptr ret = loop i (drop 4 ptr)
      (ret + of_nat (\<Sum>j < 4. score (part_of (join_words (take 4 ptr) :: u32) j)))"
begin

lemma loop_count:
  "4 * i \<le> length ptr \<Longrightarrow> loop i ptr ret = ret + of_nat (\<Sum>b \<leftarrow> take (4 * i) ptr. score b)"
proof (induction i arbitrary: ptr ret)
  case 0
  then show ?case by (simp add: loop_0)
next
  case (Suc i)
  have four: "length (take 4 ptr) = 4" using Suc.prems by simp
  have "(\<Sum>j < 4. score (part_of (join_words (take 4 ptr) :: u32) j)) = (\<Sum>j < 4. score (take 4 ptr ! j))"
    using four by (intro sum.cong) (simp_all add: part_of_join_words)
  also have "\<dots> = (\<Sum>b \<leftarrow> take 4 ptr. score b)"
    using four by (simp add: sum_list_sum_nth atLeast0LessThan)
  finally show ?case
    using Suc.prems Suc.IH [of "drop 4 ptr"]
    by (simp add: loop_Suc take_add [of 4 "4 * i" ptr, simplified] add.assoc)
qed

end

lemma sum_less_4: "(\<Sum>j < (4 :: nat). f j) = f 0 + f 1 + f 2 + (f 3 :: nat)"
  by (simp add: numeral_eq_Suc)

interpretation bytes_set: byte_counter count_bytes_loop "\<lambda>b. if b \<noteq> 0 then 1 else 0"
proof unfold_locales
  fix i ptr ret
  show "count_bytes_loop (Suc i) ptr ret = count_bytes_loop i (drop 4 ptr)
      (ret + of_nat (\<Sum>j < 4. if part_of (join_words (take 4 ptr) :: u32) j \<noteq> (0 :: u8) then 1 else 0))"
    by (simp add: sum_less_4 u32_and_byte_mask [simplified] Let_def add.assoc)
qed simp

lemma u32_full_parts: "(v :: u32) = 0xffffffff \<longleftrightarrow> (\<forall>j < 4. (part_of v j :: u8) = 255)"
proof -
  have "part_of (0xffffffff :: u32) j = (255 :: u8)" if "j < 4" for j
    using that by (auto simp: nat_less_4 part_of_def drop_bit_eq_div)
  then show ?thesis
    using word_parts_eqI [where 'b = 8 and k = 4, of v "0xffffffff"] by auto
qed

lemma u32_and_byte_mask_full:
  "(m AND 0xff = 0xff) = ((part_of m 0 :: u8) = 255)"
  "(m AND 0xff00 = 0xff00) = ((part_of m 1 :: u8) = 255)"
  "(m AND 0xff0000 = 0xff0000) = ((part_of m 2 :: u8) = 255)"
  "(m AND 0xff000000 = 0xff000000) = ((part_of m 3 :: u8) = 255)"
  for m :: u32
proof -
  have eq: "m AND c = c \<longleftrightarrow> (\<forall>j < 4. (part_of m j AND part_of c j :: u8) = part_of c j)" for c
    using word_parts_eqI [where 'b = 8 and k = 4, of "m AND c" c] by (auto simp: part_of_and) (metis part_of_and)
  show "(m AND 0xff = 0xff) = ((part_of m 0 :: u8) = 255)"
    "(m AND 0xff00 = 0xff00) = ((part_of m 1 :: u8) = 255)"
    "(m AND 0xff0000 = 0xff0000) = ((part_of m 2 :: u8) = 255)"
    "(m AND 0xff000000 = 0xff000000) = ((part_of m 3 :: u8) = 255)"
    unfolding eq by (simp_all add: u32_mask_parts all_less_4)
qed

interpretation non_255: byte_counter count_non_255_loop "\<lambda>b. if b \<noteq> 255 then 1 else 0"
proof unfold_locales
  fix i ptr ret
  show "count_non_255_loop (Suc i) ptr ret = count_non_255_loop i (drop 4 ptr)
      (ret + of_nat (\<Sum>j < 4. if part_of (join_words (take 4 ptr) :: u32) j \<noteq> (255 :: u8) then 1 else 0))"
    by (simp add: sum_less_4 u32_and_byte_mask_full [simplified] u32_full_parts all_less_4
        Let_def add.assoc)
qed simp

section \<open>The SWAR population count\<close>

lemma unat_part_of:
  "unat (part_of (w :: 'a::len word) j :: u8) = unat w div 256 ^ j mod 256"
proof -
  have "unat (part_of w j :: u8) = unat (drop_bit (8 * j) w) mod 256"
    by (simp add: part_of_def unsigned_ucast_eq take_bit_eq_mod)
  also have "unat (drop_bit (8 * j) w) = unat w div 2 ^ (8 * j)"
    by (simp only: unat_drop_bit_eq) (simp add: drop_bit_eq_div)
  finally show ?thesis by (simp add: power_mult)
qed

lemma unat_u32_parts:
  "unat (w :: u32) = unat (part_of w 0 :: u8) + 256 * unat (part_of w 1 :: u8)
     + 65536 * unat (part_of w 2 :: u8) + 16777216 * unat (part_of w 3 :: u8)"
proof -
  have "n = n mod 256 + 256 * (n div 256 mod 256) + 65536 * (n div 65536 mod 256)
      + 16777216 * (n div 16777216 mod 256)" if "n < 4294967296" for n :: nat
  proof -
    have "n = n mod 256 + 256 * (n div 256)" by simp
    moreover have "n div 256 = n div 256 mod 256 + 256 * (n div 65536)"
      using div_mult2_eq [of n 256 256] by simp
    moreover have "n div 65536 = n div 65536 mod 256 + 256 * (n div 16777216)"
      using div_mult2_eq [of n 65536 256] by simp
    moreover have "n div 16777216 mod 256 = n div 16777216"
      using that by (simp add: less_mult_imp_div_less)
    ultimately show ?thesis by linarith
  qed
  from this [OF unat_u32_less] show ?thesis by (simp add: unat_part_of)
qed


lemma swar_bytes:
  "list_all (\<lambda>n. let b = word_of_int n :: u8; h = drop_bit 1 b AND 0x55; p = b - h;
       q1 = p AND 0x33; q2 = drop_bit 2 p AND 0x33; q = q1 + q2
     in h \<le> b \<and> uint q1 + uint q2 \<le> 0x44 \<and> uint q mod 16 \<le> 4
        \<and> uint ((q + drop_bit 4 q) AND 0x0F) = int (byte_popcount b)) [0..255]"
  by code_simp

lemma swar_byte:
  fixes b :: u8
  defines "h \<equiv> drop_bit 1 b AND 0x55"
  defines "p \<equiv> b - h"
  defines "q \<equiv> (p AND 0x33) + (drop_bit 2 p AND 0x33)"
  shows "h \<le> b" and "unat (p AND 0x33) + unat (drop_bit 2 p AND 0x33) \<le> 0x44"
    and "unat q mod 16 \<le> 4"
    and "unat ((q + drop_bit 4 q) AND 0x0F) = byte_popcount b"
proof -
  have "uint b < 256" using uint_lt2p [of b] by simp
  then have "uint b \<in> set [0..255]" unfolding set_upto by simp
  note byte = swar_bytes [unfolded list_all_iff, rule_format, OF this]
  have "(word_of_int (uint b) :: u8) = b" by simp
  with byte have "h \<le> b" and sum: "uint (p AND 0x33) + uint (drop_bit 2 p AND 0x33) \<le> 0x44"
    and low: "uint q mod 16 \<le> 4"
    and pop: "uint ((q + drop_bit 4 q) AND 0x0F) = int (byte_popcount b)"
    by (simp_all only: Let_def h_def p_def q_def)
  then show "h \<le> b" by blast
  show "unat (p AND 0x33) + unat (drop_bit 2 p AND 0x33) \<le> 0x44"
    using sum unfolding uint_nat by linarith
  show "unat q mod 16 \<le> 4"
    using low unfolding uint_nat by presburger
  show "unat ((q + drop_bit 4 q) AND 0x0F) = byte_popcount b"
    using pop unfolding uint_nat by linarith
qed

lemma unat_join4:
  "unat (join_words [a, b, c, d :: u8] :: u32)
     = unat a + 256 * unat b + 65536 * unat c + 16777216 * unat d"
proof -
  let ?w = "join_words [a, b, c, d] :: u32"
  have "part_of ?w 0 = a" "part_of ?w 1 = b" "part_of ?w 2 = c" "part_of ?w 3 = d"
    using part_of_join_words [of "[a, b, c, d]" 4, where 'a = 32] by simp_all
  then show ?thesis using unat_u32_parts [of ?w] by (simp only:)
qed

lemma part_of_join4:
  "j < 4 \<Longrightarrow> part_of (join_words (map f [0, 1, 2, 3]) :: u32) j = (f j :: u8)"
  by (subst part_of_join_words [where k = 4]) (auto simp: nat_less_4)

lemma u32_add_parts:
  fixes v w :: u32
  assumes small: "\<And>j. j < 4 \<Longrightarrow> unat (part_of v j :: u8) + unat (part_of w j :: u8) < 256"
    and "j < 4"
  shows "(part_of (v + w) j :: u8) = part_of v j + part_of w j"
proof -
  let ?f = "\<lambda>j. part_of v j + part_of w j :: u8"
  have f: "unat (?f i) = unat (part_of v i :: u8) + unat (part_of w i :: u8)" if "i < 4" for i
    using small [OF that] by (intro unat_add_small) simp
  have "unat v + unat w < 4294967296"
    using small [of 0] small [of 1] small [of 2] small [of 3]
      unat_u32_parts [of v] unat_u32_parts [of w] by simp
  then have "unat (v + w) = unat v + unat w" by (intro unat_add_small) simp
  also have "\<dots> = unat (join_words (map ?f [0, 1, 2, 3]) :: u32)"
    using unat_u32_parts [of v] unat_u32_parts [of w] f [of 0] f [of 1] f [of 2] f [of 3]
    by (simp add: unat_join4 del: join_words.simps)
  finally have "v + w = join_words (map ?f [0, 1, 2, 3])" by (simp only: word_unat_eq_iff)
  then show ?thesis using part_of_join4 [OF \<open>j < 4\<close>, of ?f] by (simp only:)
qed

lemma u32_sub_parts:
  fixes v w :: u32
  assumes le: "\<And>j. j < 4 \<Longrightarrow> (part_of w j :: u8) \<le> part_of v j" and "j < 4"
  shows "(part_of (v - w) j :: u8) = part_of v j - part_of w j"
proof -
  let ?d = "join_words (map (\<lambda>j. part_of v j - part_of w j :: u8) [0, 1, 2, 3]) :: u32"
  have d: "part_of ?d j = (part_of v j - part_of w j :: u8)" if "j < 4" for j
    using part_of_join4 [OF that, of "\<lambda>j. part_of v j - part_of w j"] .
  have "v = ?d + w"
  proof (rule word_parts_eqI [where 'b = 8 and k = 4])
    fix i :: nat assume i: "i < 4"
    have "unat (part_of ?d j :: u8) + unat (part_of w j :: u8) < 256" if "j < 4" for j
      using le [OF that] unat_u8_less [of "part_of v j"]
      by (simp only: d [OF that]) (simp add: unat_sub word_le_nat_alt)
    then have "(part_of (?d + w) i :: u8) = part_of ?d i + part_of w i"
      using i by (rule u32_add_parts)
    then show "(part_of v i :: u8) = part_of (?d + w) i" by (simp only: d [OF i]) simp
  qed simp
  then have "v - w = ?d" by (rule iffD2 [OF diff_eq_eq])
  then show ?thesis using d [OF \<open>j < 4\<close>] by (simp only:)
qed


lemma part_of_masks:
  "j < 4 \<Longrightarrow> (part_of (0x55555555 :: u32) j :: u8) = 0x55"
  "j < 4 \<Longrightarrow> (part_of (0x33333333 :: u32) j :: u8) = 0x33"
  "j < 4 \<Longrightarrow> (part_of (0x0F0F0F0F :: u32) j :: u8) = 0x0F"
  by (auto simp: nat_less_4 part_of_def drop_bit_eq_div)

lemma mask_bits_low:
  assumes "bit (m :: u8) n"
  shows "m = 0x55 \<Longrightarrow> n < 7" and "m = 0x33 \<Longrightarrow> n < 6"
proof -
  have "n < 8" using assms by (auto dest: bit_imp_le_length)
  then have "n = 0 \<or> n = 1 \<or> n = 2 \<or> n = 3 \<or> n = 4 \<or> n = 5 \<or> n = 6 \<or> n = 7" by arith
  then show "m = 0x55 \<Longrightarrow> n < 7" "m = 0x33 \<Longrightarrow> n < 6"
    using assms by auto
qed

lemma part_of_shift_mask:
  assumes "j < 4"
  shows "(part_of (drop_bit 1 v AND 0x55555555 :: u32) j :: u8) = drop_bit 1 (part_of v j) AND 0x55"
    and "(part_of (drop_bit 2 v AND 0x33333333 :: u32) j :: u8) = drop_bit 2 (part_of v j) AND 0x33"
proof -
  have shift: "bit (part_of (drop_bit k v) j AND m :: u8) n = bit (drop_bit k (part_of v j) AND m) n"
    if low: "\<And>n. bit m n \<Longrightarrow> n + k < 8" for k m n
  proof (cases "bit m n")
    case True
    from low [OF this] show ?thesis
      by (simp add: bit_and_iff bit_part_of bit_drop_bit_eq ac_simps)
  qed (simp add: bit_and_iff)
  show "(part_of (drop_bit 1 v AND 0x55555555 :: u32) j :: u8) = drop_bit 1 (part_of v j) AND 0x55"
    unfolding part_of_and part_of_masks(1) [OF assms]
    by (intro bit_word_eqI shift) (use mask_bits_low(1) in fastforce)
  show "(part_of (drop_bit 2 v AND 0x33333333 :: u32) j :: u8) = drop_bit 2 (part_of v j) AND 0x33"
    unfolding part_of_and part_of_masks(2) [OF assms]
    by (intro bit_word_eqI shift) (use mask_bits_low(2) in fastforce)
qed

lemma u8_and_15: "unat (x AND 0x0F :: u8) = unat x mod 16"
proof -
  have "(0x0F :: u8) = mask 4" by (simp add: mask_eq_exp_minus_1)
  then have "x AND 0x0F = take_bit 4 x" by (simp only: take_bit_eq_mask)
  then show ?thesis by (simp add: take_bit_eq_mod unat_mod)
qed

lemma part_of_shift4:
  "unat (part_of (drop_bit 4 (v :: u32)) j :: u8)
     = unat (part_of v j :: u8) div 16 + 16 * (unat (part_of v (Suc j) :: u8) mod 16)"
proof -
  have arith: "M div 16 mod 256 = M mod 256 div 16 + 16 * (M div 256 mod 256 mod 16)" for M :: nat
  proof -
    have "M mod 256 div 16 = M div 16 mod 16"
      using mod_mult2_eq [of M 16 16] by simp
    moreover have "M div 16 mod 256 = 16 * (M div 256 mod 16) + M div 16 mod 16"
      using mod_mult2_eq [of "M div 16" 16 16] by (simp flip: div_mult2_eq)
    moreover have "M div 256 mod 256 mod 16 = M div 256 mod 16"
      by (rule mod_mod_cancel) simp
    ultimately show ?thesis by simp
  qed
  let ?M = "unat v div 256 ^ j"
  have "unat (drop_bit 4 v) div 256 ^ j = ?M div 16"
    by (simp only: unat_drop_bit_eq) (simp add: drop_bit_eq_div div_mult2_eq [symmetric] mult.commute)
  moreover have "unat v div 256 ^ Suc j = ?M div 256"
    by (simp add: div_mult2_eq [symmetric] mult.commute)
  ultimately show ?thesis by (simp only: unat_part_of arith)
qed

lemma byte_popcount_le: "byte_popcount b \<le> 8"
  unfolding byte_popcount_def by (rule order.trans [OF length_filter_le]) simp

lemma unat_mult_sum_bytes:
  fixes x :: u32
  assumes small: "\<And>j. j < 4 \<Longrightarrow> unat (part_of x j :: u8) \<le> 8"
  shows "unat (drop_bit 24 (x * 0x01010101)) = (\<Sum>j < 4. unat (part_of x j :: u8))"
proof -
  have top: "(a0 + 256 * a1 + 65536 * a2 + 16777216 * a3) * 16843009 mod 4294967296 div 16777216
      = a0 + a1 + a2 + a3" if "a0 \<le> 8" "a1 \<le> 8" "a2 \<le> 8" "a3 \<le> 8" for a0 a1 a2 a3 :: nat
  proof -
    let ?L = "a0 + 256 * (a0 + a1) + 65536 * (a0 + a1 + a2)"
    have split: "(a0 + 256 * a1 + 65536 * a2 + 16777216 * a3) * 16843009
        = (?L + 16777216 * (a0 + a1 + a2 + a3)) + 4294967296 * (a1 + a2 + a3 + 256 * (a2 + a3) + 65536 * a3)"
      by (simp add: algebra_simps)
    have gen: "(L + 16777216 * S + 4294967296 * H) mod 4294967296 div 16777216 = S"
      if "L < 16777216" "S < 256" for L S H :: nat
      using that by simp
    have "?L < 16777216" and "a0 + a1 + a2 + a3 < 256"
      using that by simp_all
    then show ?thesis unfolding split by (rule gen)
  qed
  have "unat (x * 0x01010101) = unat x * 16843009 mod 4294967296"
    by (simp add: unat_word_ariths)
  moreover have "unat (drop_bit 24 (x * 0x01010101)) = unat (x * 0x01010101) div 16777216"
    by (simp only: unat_drop_bit_eq) (simp add: drop_bit_eq_div)
  ultimately show ?thesis
    using top [OF small small small small, of 0 1 2 3] unat_u32_parts [of x]
    by (simp add: sum_less_4)
qed


text \<open>The first two folding steps, per byte; \<open>swar8\<close> is the same computation on one byte.\<close>

abbreviation swar8 :: "u8 \<Rightarrow> u8" where
  "swar8 b \<equiv> (let p = b - (drop_bit 1 b AND 0x55) in (p AND 0x33) + (drop_bit 2 p AND 0x33))"

lemma part_of_swar_pairs:
  assumes "j < 4"
  shows "(part_of (v - (drop_bit 1 v AND 0x55555555) :: u32) j :: u8)
       = part_of v j - (drop_bit 1 (part_of v j) AND 0x55)"
  by (subst u32_sub_parts [OF _ assms])
    (simp_all only: part_of_shift_mask assms swar_byte(1))

lemma part_of_swar_nibbles:
  fixes p :: u32
  assumes j: "j < 4"
    and sum: "\<And>i. i < 4 \<Longrightarrow> unat (part_of p i AND 0x33 :: u8)
                       + unat (drop_bit 2 (part_of p i) AND 0x33 :: u8) \<le> 0x44"
  shows "(part_of ((p AND 0x33333333) + (drop_bit 2 p AND 0x33333333)) j :: u8)
       = (part_of p j AND 0x33) + (drop_bit 2 (part_of p j) AND 0x33)"
proof -
  have parts: "(part_of (p AND 0x33333333) i :: u8) = part_of p i AND 0x33" if "i < 4" for i
    by (simp only: part_of_and part_of_masks [OF that])
  have "unat (part_of (p AND 0x33333333) i :: u8)
      + unat (part_of (drop_bit 2 p AND 0x33333333) i :: u8) < 256" if "i < 4" for i
    using sum [OF that] by (simp add: parts [OF that] part_of_shift_mask(2) [OF that])
  from u32_add_parts [OF this j] show ?thesis
    by (simp only: parts [OF j] part_of_shift_mask(2) [OF j])
qed

lemma part_of_swar_fold:
  fixes v :: u32
  defines "p \<equiv> v - (drop_bit 1 v AND 0x55555555)"
  defines "q \<equiv> (p AND 0x33333333) + (drop_bit 2 p AND 0x33333333)"
  assumes "j < 4"
  shows "(part_of q j :: u8) = swar8 (part_of v j)"
    and "unat (part_of q j :: u8) \<le> 0x44"
    and "unat (part_of q j :: u8) mod 16 \<le> 4"
proof -
  have sum: "unat (part_of p i AND 0x33 :: u8) + unat (drop_bit 2 (part_of p i) AND 0x33 :: u8) \<le> 0x44"
    if "i < 4" for i
    using swar_byte(2) [of "part_of v i"] by (simp only: p_def part_of_swar_pairs [OF that])
  have eq: "(part_of q j :: u8) = (part_of p j AND 0x33) + (drop_bit 2 (part_of p j) AND 0x33)"
    unfolding q_def by (rule part_of_swar_nibbles [OF \<open>j < 4\<close> sum])
  then show pq: "(part_of q j :: u8) = swar8 (part_of v j)"
    by (simp only: p_def part_of_swar_pairs [OF \<open>j < 4\<close>] Let_def)
  show "unat (part_of q j :: u8) \<le> 0x44"
    using sum [OF \<open>j < 4\<close>] unfolding eq by (subst unat_add_small) simp_all
  show "unat (part_of q j :: u8) mod 16 \<le> 4"
    using swar_byte(3) [of "part_of v j"] by (simp only: pq Let_def)
qed

lemma part_of_swar_bytes:
  fixes q :: u32
  assumes small: "\<And>i. i < 4 \<Longrightarrow> unat (part_of q i :: u8) \<le> 0x44"
    and low: "\<And>i. i < 4 \<Longrightarrow> unat (part_of q i :: u8) mod 16 \<le> 4"
    and j: "j < 4"
  shows "unat (part_of ((q + drop_bit 4 q) AND 0x0F0F0F0F) j :: u8)
       = unat ((part_of q j + drop_bit 4 (part_of q j)) AND 0x0F :: u8)"
proof -
  have above: "unat (part_of q 4 :: u8) = 0"
    using unat_u32_less [of q] by (simp add: unat_part_of)
  have bound: "unat (part_of q i :: u8) + unat (part_of (drop_bit 4 q) i :: u8) < 256" if "i < 4" for i
  proof -
    have "unat (part_of q (Suc i) :: u8) mod 16 \<le> 4"
      using low [of "Suc i"] that above by (cases "i = 3") simp_all
    then show ?thesis using small [OF that] by (simp add: part_of_shift4)
  qed
  have wrap: "(B + (D + 16 * E)) mod 16 = (B + D) mod 16" for B D E :: nat
    by (simp add: add.assoc [symmetric])
  let ?b = "part_of q j :: u8"
  have "(part_of (q + drop_bit 4 q) j :: u8) = ?b + part_of (drop_bit 4 q) j"
    using bound j by (rule u32_add_parts)
  then have "unat (part_of (q + drop_bit 4 q) j :: u8) = unat ?b + unat (part_of (drop_bit 4 q) j :: u8)"
    using bound [OF j] by (simp only:) (rule unat_add_small, simp)
  then have "unat (part_of ((q + drop_bit 4 q) AND 0x0F0F0F0F) j :: u8) = (unat ?b + unat ?b div 16) mod 16"
    by (simp only: part_of_and part_of_masks [OF j] u8_and_15 part_of_shift4 wrap)
  also have "\<dots> = unat ((?b + drop_bit 4 ?b) AND 0x0F)"
    using small [OF j] unfolding u8_and_15
    by (subst unat_add_small) (simp_all add: drop_bit_eq_div unat_div)
  finally show ?thesis .
qed

lemma count_bits_word_correct:
  "count_bits_word v = of_nat (\<Sum>j < 4. byte_popcount (part_of v j))"
proof -
  define p where "p = v - (drop_bit 1 v AND 0x55555555)"
  define q where "q = (p AND 0x33333333) + (drop_bit 2 p AND 0x33333333)"
  define x where "x = (q + drop_bit 4 q) AND 0x0F0F0F0F"
  have px: "unat (part_of x j :: u8) = byte_popcount (part_of v j)" if "j < 4" for j
    unfolding x_def
    using part_of_swar_bytes [of q j] part_of_swar_fold [where v = v] swar_byte(4) [of "part_of v j"] that
    by (simp only: q_def p_def Let_def)
  have "count_bits_word v = drop_bit 24 (x * 0x01010101)"
    by (simp only: count_bits_word_def Let_def x_def q_def p_def)
  moreover have "unat (drop_bit 24 (x * 0x01010101)) = (\<Sum>j < 4. byte_popcount (part_of v j))"
    using unat_mult_sum_bytes [of x] px byte_popcount_le by simp
  ultimately show ?thesis by (metis of_nat_unat ucast_id)
qed


interpretation bits_set: byte_counter count_bits_loop byte_popcount
proof unfold_locales
  fix i and ptr :: bytes and ret
  let ?v = "join_words (take 4 ptr) :: u32"
  have "byte_popcount 255 = 8" by code_simp
  then have full: "(\<Sum>j < 4. byte_popcount (part_of ?v j)) = 32" if "?v = 0xffffffff"
    using that unfolding u32_full_parts by simp
  show "count_bits_loop (Suc i) ptr ret = count_bits_loop i (drop 4 ptr)
      (ret + of_nat (\<Sum>j < 4. byte_popcount (part_of ?v j)))"
  proof (cases "?v = 0xffffffff")
    case True
    then show ?thesis using full [OF True] by (simp only: count_bits_loop.simps Let_def) simp
  next
    case False
    then show ?thesis
      by (simp only: count_bits_loop.simps Let_def if_False count_bits_word_correct)
  qed
qed simp

section \<open>minimize\_bits\<close>

lemma minimize_bits_loop_spec:
  assumes "i \<le> n" and "n \<le> length src" and "n \<le> 8 * length dst"
  shows "\<exists>dst'. minimize_bits_loop i n dst src = Inr dst' \<and> length dst' = length dst
    \<and> (\<forall>b < length dst. \<forall>k < 8. bit (dst' ! b) k \<longleftrightarrow>
         bit (dst ! b) k \<or> i \<le> 8 * b + k \<and> 8 * b + k < n \<and> src ! (8 * b + k) \<noteq> 0)"
  using assms
proof (induction i n dst src rule: minimize_bits_loop.induct)
  case (1 i n dst src)
  show ?case
  proof (cases "i < n")
    case False
    then show ?thesis
      using "1.prems" by (subst minimize_bits_loop.simps) auto
  next
    case True
    let ?d = "if src ! i \<noteq> 0 then dst[i div 8 := dst ! (i div 8) OR push_bit (i mod 8) 1] else dst"
    have in_dst: "i div 8 < length dst"
      using True "1.prems" by (simp add: less_mult_imp_div_less mult.commute)
    have step: "minimize_bits_loop i n dst src = minimize_bits_loop (Suc i) n ?d src"
      using True "1.prems" in_dst by (simp add: minimize_bits_loop.simps [of i n dst src])
    have "\<exists>dst'. minimize_bits_loop (Suc i) n ?d src = Inr dst' \<and> length dst' = length ?d
      \<and> (\<forall>b < length ?d. \<forall>k < 8. bit (dst' ! b) k \<longleftrightarrow>
         bit (?d ! b) k \<or> Suc i \<le> 8 * b + k \<and> 8 * b + k < n \<and> src ! (8 * b + k) \<noteq> 0)"
      using True "1.prems" in_dst "1.IH" by (cases "src ! i = 0") simp_all
    moreover have "bit (?d ! b) k \<longleftrightarrow> bit (dst ! b) k \<or> i = 8 * b + k \<and> src ! i \<noteq> 0"
      if "b < length dst" "k < 8" for b k
    proof -
      have "i = 8 * b + k \<longleftrightarrow> b = i div 8 \<and> k = i mod 8"
        using that(2) by (metis add.commute div_mult_mod_eq div_mult_self4 div_less add_0
            mod_mult_self2 mod_less mult.commute zero_neq_numeral)
      then show ?thesis
        using that in_dst by (auto simp: nth_list_update bit_simps)
    qed
    ultimately show ?thesis
      using True unfolding step
      by (elim exE) (rule exI, auto simp: Suc_le_eq le_less)
  qed
qed

section \<open>The PST-FUZZ trace weight\<close>

lemma pst_weight_loop_sum:
  assumes "\<forall>t \<in> set ts. unat (bitmap_offset t) < length mem"
  shows "pst_weight_loop ts mem acc
       = Inr (acc + (\<Sum>t \<leftarrow> ts. if mem ! unat (bitmap_offset t) \<noteq> 0 then weight t else 0))"
  using assms by (induction ts arbitrary: acc) (auto simp: not_le add.assoc)

lemma pst_weight_loop_oob:
  assumes "\<exists>t \<in> set ts. length mem \<le> unat (bitmap_offset t)"
  shows "pst_weight_loop ts mem acc = Inl (Out_of_bounds ''mem'')"
  using assms by (induction ts arbitrary: acc) auto


section \<open>Properties\<close>

definition cov_demo :: afl_cov where
  "cov_demo = \<lparr>rand_seed = (7, 9, 11), rand_cnt = 5, fixed_seed = True, init_seed = 1,
     dev_urandom = sconst (0, 0, 0), out_dir = ''out'', fs = Map.empty, fs_deny = (\<lambda>_. False), fs_symlinks = True,
     trace_bits = 5 # replicate 63 0, map_size = 64, real_map_size = 64,
     virgin_bits = replicate 64 255, virgin_tmout = replicate 64 255, virgin_crash = replicate 64 255,
     bitmap_changed = False,
     bitmap_weight_array = [\<lparr>bitmap_offset = 0, weight = 10\<rparr>, \<lparr>bitmap_offset = 1, weight = 4\<rparr>],
     bitmap_weight_array_size = 2\<rparr>"

lemma cov_demo_wf: "cov_wf cov_demo"
  by (simp add: cov_wf_def cov_demo_def)

text \<open>(C1) \<open>has_new_bits\<close>: on a well-formed coverage state the result is 2 when a hit byte was still
  pristine (255) in the virgin map, 1 when only a virgin bit of an already seen byte was hit, 0 otherwise;
  the bits of the trace leave the scanned part of the virgin map and nothing else changes in it;
  \<open>bitmap_changed\<close> is raised exactly for a find in \<open>virgin_bits\<close>; the state stays well-formed.\<close>

theorem has_new_bits_contract:
  assumes "cov_wf afl"
  shows "fst (has_new_bits afl vm) =
      (if \<exists>i < scan64 afl. trace_bits afl ! i \<noteq> 0 \<and> get_virgin vm afl ! i = 255 then 2
       else if \<exists>i < scan64 afl. trace_bits afl ! i AND get_virgin vm afl ! i \<noteq> 0 then 1 else 0)
    \<and> (\<forall>i < unat (map_size afl). get_virgin vm (snd (has_new_bits afl vm)) ! i =
         (if i < scan64 afl then get_virgin vm afl ! i AND NOT (trace_bits afl ! i)
          else get_virgin vm afl ! i))
    \<and> bitmap_changed (snd (has_new_bits afl vm)) =
        (bitmap_changed afl \<or> vm = Virgin_bits \<and> fst (has_new_bits afl vm) \<noteq> 0)
    \<and> cov_wf (snd (has_new_bits afl vm))"
proof (intro conjI)
  have len: "length (trace_bits afl) = unat (map_size afl)"
    "length (get_virgin vm afl) = unat (map_size afl)"
    using cov_wf_lengths [OF assms] by simp_all
  note le = scan64_le [OF assms]
  show "fst (has_new_bits afl vm) =
      (if \<exists>i < scan64 afl. trace_bits afl ! i \<noteq> 0 \<and> get_virgin vm afl ! i = 255 then 2
       else if \<exists>i < scan64 afl. trace_bits afl ! i AND get_virgin vm afl ! i \<noteq> 0 then 1 else 0)"
    using len le by (simp add: has_new_bits_ret [OF assms] novelty_def list_ex_zip conj_assoc
        cong: conj_cong)
  show "\<forall>i < unat (map_size afl). get_virgin vm (snd (has_new_bits afl vm)) ! i =
         (if i < scan64 afl then get_virgin vm afl ! i AND NOT (trace_bits afl ! i)
          else get_virgin vm afl ! i)"
    using len le by (simp add: has_new_bits_virgin [OF assms] clear_seen_def nth_append)
  show "bitmap_changed (snd (has_new_bits afl vm)) =
        (bitmap_changed afl \<or> vm = Virgin_bits \<and> fst (has_new_bits afl vm) \<noteq> 0)"
    by (cases vm) (simp_all add: has_new_bits_eq [OF assms] Let_def)
  show "cov_wf (snd (has_new_bits afl vm))" by (rule has_new_bits_wf [OF assms])
qed

theorem has_new_bits_contract_witness:
  "fst (has_new_bits cov_demo Virgin_bits) = 2
   \<and> virgin_bits (snd (has_new_bits cov_demo Virgin_bits)) ! 0 = 250
   \<and> bitmap_changed (snd (has_new_bits cov_demo Virgin_bits))"
proof -
  note contract = has_new_bits_contract [OF cov_demo_wf, of Virgin_bits]
  have scan: "scan64 cov_demo = 64" by (simp add: cov_demo_def drop_bit_eq_div)
  have byte: "trace_bits cov_demo ! 0 = 5" "get_virgin Virgin_bits cov_demo ! 0 = 255"
    by (simp_all add: cov_demo_def)
  have "\<exists>i < 64. trace_bits cov_demo ! i \<noteq> 0 \<and> get_virgin Virgin_bits cov_demo ! i = 255"
    using byte by (intro exI [of _ 0]) simp
  then have ret: "fst (has_new_bits cov_demo Virgin_bits) = 2"
    using contract unfolding scan by (simp only: if_True)
  have "0 < unat (map_size cov_demo)" by (simp add: cov_demo_def)
  then have "get_virgin Virgin_bits (snd (has_new_bits cov_demo Virgin_bits)) ! 0 = 255 AND NOT 5"
    using contract scan byte by (metis zero_less_numeral)
  with ret contract show ?thesis by simp
qed

text \<open>The comment of \<open>has_new_bits\<close> promises that subsequent calls always return 0: a second call on the
  same trace and the same virgin map returns 0 and leaves that map as it is.\<close>

theorem has_new_bits_idempotent:
  assumes "cov_wf afl"
  shows "fst (has_new_bits (snd (has_new_bits afl vm)) vm) = 0
    \<and> get_virgin vm (snd (has_new_bits (snd (has_new_bits afl vm)) vm))
        = get_virgin vm (snd (has_new_bits afl vm))"
proof
  show "fst (has_new_bits (snd (has_new_bits afl vm)) vm) = 0"
    by (rule has_new_bits_again_aux [OF assms])
  let ?n = "scan64 afl" and ?afl' = "snd (has_new_bits afl vm)"
  let ?cur = "take ?n (trace_bits afl)" and ?vir = "take ?n (get_virgin vm afl)"
  have len: "length ?cur = ?n" "length ?vir = ?n"
    using scan64_le [OF assms] cov_wf_lengths [OF assms] by simp_all
  have "clear_seen ?cur (clear_seen ?cur ?vir) = clear_seen ?cur ?vir"
    using len by (auto simp: clear_seen_def intro!: nth_equalityI bit_word_eqI simp: bit_simps)
  then show "get_virgin vm (snd (has_new_bits ?afl' vm)) = get_virgin vm ?afl'"
    using len has_new_bits_virgin [OF has_new_bits_wf [OF assms], of vm vm]
    by (simp add: has_new_bits_frame has_new_bits_virgin [OF assms])
qed

theorem has_new_bits_idempotent_witness:
  "fst (has_new_bits (snd (has_new_bits cov_demo Virgin_crash)) Virgin_crash) = 0"
  using has_new_bits_idempotent [OF cov_demo_wf] by blast

text \<open>(C2) \<open>has_new_bits_unclassified\<close> is the promised shortcut: it returns what \<open>classify_counts\<close>
  followed by \<open>has_new_bits\<close> returns; when the fast path finds nothing the whole state, the raw trace
  included, is kept, and otherwise the state is the one of the slow path.\<close>

theorem has_new_bits_unclassified_equiv:
  assumes "cov_wf afl"
  shows "fst (has_new_bits_unclassified afl vm) = fst (has_new_bits (classify_counts afl) vm)
    \<and> snd (has_new_bits_unclassified afl vm) =
        (if \<exists>i < unat (map_size afl). class8 (trace_bits afl ! i) AND get_virgin vm afl ! i \<noteq> 0
         then snd (has_new_bits (classify_counts afl) vm) else afl)"
proof
  show "fst (has_new_bits_unclassified afl vm) = fst (has_new_bits (classify_counts afl) vm)"
    by (rule has_new_bits_unclassified_aux [OF assms])
  have "32 dvd unat (map_size afl)" using assms by (auto simp: cov_wf_def elim!: dvdE)
  then have "skim64 (get_virgin vm afl) (trace_bits afl) (unat (map_size afl)) =
      (if \<exists>i < unat (map_size afl). class8 (trace_bits afl ! i) AND get_virgin vm afl ! i \<noteq> 0
       then 1 else 0)"
    using cov_wf_lengths [OF assms]
      skim64_correct [of "unat (map_size afl)" "trace_bits afl" "get_virgin vm afl"]
    by (simp add: virgin_hit_def list_ex_zip)
  then show "snd (has_new_bits_unclassified afl vm) =
        (if \<exists>i < unat (map_size afl). class8 (trace_bits afl ! i) AND get_virgin vm afl ! i \<noteq> 0
         then snd (has_new_bits (classify_counts afl) vm) else afl)"
    by (auto simp: has_new_bits_unclassified_def)
qed

theorem has_new_bits_unclassified_equiv_witness:
  "fst (has_new_bits_unclassified cov_demo Virgin_tmout)
     = fst (has_new_bits (classify_counts cov_demo) Virgin_tmout)"
  using has_new_bits_unclassified_equiv [OF cov_demo_wf] by blast

text \<open>The 32-bit and the 64-bit build of \<open>has_new_bits\<close> are the same function whenever the real map size
  is a multiple of 8, so that both word loops scan the same bytes.\<close>

theorem has_new_bits_builds_agree:
  assumes "cov_wf afl" and "8 dvd unat (real_map_size afl)"
  shows "has_new_bits_32 afl vm = has_new_bits afl vm"
proof -
  obtain q where q: "unat (real_map_size afl) = 8 * q" using assms(2) by blast
  have "(8 * q + 3) div 4 = 2 * q" and "(8 * q + 7) div 8 = q" by presburger+
  then have "scan32 afl = 8 * q" and "scan64 afl = 8 * q"
    unfolding scan32_eq [OF assms(1)] scan64_eq [OF assms(1)] q by simp_all
  then show ?thesis
    by (simp add: has_new_bits_eq [OF assms(1)] has_new_bits_32_eq [OF assms(1)])
qed

theorem has_new_bits_builds_agree_witness:
  "has_new_bits_32 cov_demo Virgin_bits = has_new_bits cov_demo Virgin_bits"
  using has_new_bits_builds_agree [OF cov_demo_wf] by (simp add: cov_demo_def)

definition count_bucket :: "u8 \<Rightarrow> u8" where
  "count_bucket c =
     (let n = unat c in
      if n = 0 then 0 else if n = 1 then 1 else if n = 2 then 2 else if n = 3 then 4
      else if n < 8 then 8 else if n < 16 then 16 else if n < 32 then 32 else if n < 128 then 64
      else 128)"

lemma count_bucket_table:
  "list_all (\<lambda>n. class8 (word_of_int n) = count_bucket (word_of_int n)) [0..255]"
  by code_simp

lemma class8_count_bucket: "class8 c = count_bucket c"
proof -
  have "uint c < 256" using uint_lt2p [of c] by simp
  then have "uint c \<in> set [0..255]" unfolding set_upto by simp
  from count_bucket_table [unfolded list_all_iff, rule_format, OF this] show ?thesis by simp
qed

text \<open>(C25) \<open>classify_counts\<close> and \<open>simplify_trace\<close>, which work a word at a time through 8- and 16-bit tables, act on
  each byte alone: a hit count is replaced by its bucket (0, 1, 2, 3, 4-7, 8-15, 16-31, 32-127, 128-255,
  one bit each), a simplified byte is 1 or 128 for not hit or hit.\<close>

theorem classify_simplify_bytewise:
  assumes "cov_wf afl"
  shows "classify_counts afl = afl\<lparr>trace_bits := map count_bucket (trace_bits afl)\<rparr>
    \<and> simplify_trace afl (trace_bits afl) = map (\<lambda>c. if c = 0 then 1 else 128) (trace_bits afl)"
  using simplify_trace_map [OF assms cov_wf_lengths(1) [OF assms]]
  by (simp add: classify_counts_map [OF assms] class8_count_bucket simplify8_eq)

theorem classify_simplify_bytewise_witness:
  "trace_bits (classify_counts cov_demo) = 8 # replicate 63 0
   \<and> simplify_trace cov_demo (trace_bits cov_demo) = 128 # replicate 63 1"
  using classify_simplify_bytewise [OF cov_demo_wf] by (simp add: cov_demo_def count_bucket_def)

text \<open>The counting loops of the status screen: \<open>count_bits\<close> (a SWAR population count), \<open>count_bytes\<close> and
  \<open>count_non_255_bytes\<close> return, modulo \<open>2 ^ 32\<close>, the number of set bits, of non-zero bytes and of bytes
  other than 255 in the scanned part of a map.\<close>

theorem bitmap_counts:
  assumes "scan32 afl \<le> length mem"
  shows "count_bits afl mem = of_nat (\<Sum>b \<leftarrow> take (scan32 afl) mem. card {k. k < 8 \<and> bit b k})
    \<and> count_bytes afl mem = of_nat (length (filter (\<lambda>b. b \<noteq> 0) (take (scan32 afl) mem)))
    \<and> count_non_255_bytes afl mem = of_nat (length (filter (\<lambda>b. b \<noteq> 255) (take (scan32 afl) mem)))"
proof -
  have pop: "byte_popcount b = card {k. k < 8 \<and> bit b k}" for b
  proof -
    have "card (set (filter (bit b) [0..<8])) = length (filter (bit b) [0..<8])"
      by (rule distinct_card) simp
    moreover have "set (filter (bit b) [0..<8]) = {k. k < 8 \<and> bit b k}" by auto
    ultimately show ?thesis by (simp only: byte_popcount_def)
  qed
  have filt: "(\<Sum>b \<leftarrow> xs. if P b then 1 else 0) = length (filter P xs)" for P and xs :: bytes
    by (induction xs) simp_all
  show ?thesis
    using bits_set.loop_count [OF assms, of 0] bytes_set.loop_count [OF assms, of 0]
      non_255.loop_count [OF assms, of 0]
    by (simp only: count_bits_def count_bytes_def count_non_255_bytes_def pop filt) simp
qed

theorem bitmap_counts_witness:
  "count_bytes cov_demo (trace_bits cov_demo) = 1
   \<and> count_non_255_bytes cov_demo (virgin_bits cov_demo) = 0"
  using bitmap_counts [of cov_demo "trace_bits cov_demo"] bitmap_counts [of cov_demo "virgin_bits cov_demo"]
  by (simp add: cov_demo_def words32_def drop_bit_eq_div)

text \<open>\<open>minimize_bits\<close>: given a destination of at least \<open>map_size / 8\<close> bytes it stays in bounds and sets
  exactly the bits whose trace byte is non-zero, on top of what the destination held.\<close>

theorem minimize_bits_sets:
  assumes "unat (map_size afl) \<le> length src" and "unat (map_size afl) \<le> 8 * length dst"
  shows "\<exists>dst'. minimize_bits afl dst src = Inr dst' \<and> length dst' = length dst
    \<and> (\<forall>b < length dst. \<forall>k < 8. bit (dst' ! b) k \<longleftrightarrow>
         bit (dst ! b) k \<or> 8 * b + k < unat (map_size afl) \<and> src ! (8 * b + k) \<noteq> 0)"
  using minimize_bits_loop_spec [of 0 "unat (map_size afl)" src dst] assms
  by (simp add: minimize_bits_def)

theorem minimize_bits_sets_witness:
  "\<exists>dst'. minimize_bits cov_demo (replicate 8 0) (trace_bits cov_demo) = Inr dst' \<and> bit (dst' ! 0) 0"
  using minimize_bits_sets [of cov_demo "trace_bits cov_demo" "replicate 8 0"]
  by (auto simp: cov_demo_def)

text \<open>(C26) The PST-FUZZ weight of a trace, \<open>pst_fuzz_calculate_bitmap_weight\<close>: when every configured offset lies
  inside the map, the sum modulo \<open>2 ^ 32\<close> of the weights of the hit offsets; one offset at or beyond the
  end of the map makes the loop read out of bounds, since nothing checks the offsets of the weight
  file against the map size.\<close>

theorem pst_weight_total:
  assumes "length (bitmap_weight_array afl) = unat (bitmap_weight_array_size afl)"
  shows "pst_fuzz_calculate_bitmap_weight afl mem =
    (if \<forall>t \<in> set (bitmap_weight_array afl). unat (bitmap_offset t) < length mem
     then Inr (\<Sum>t \<leftarrow> bitmap_weight_array afl. if mem ! unat (bitmap_offset t) \<noteq> 0 then weight t else 0)
     else Inl (Out_of_bounds ''mem''))"
  using pst_weight_loop_sum [of "bitmap_weight_array afl" mem 0]
    pst_weight_loop_oob [of "bitmap_weight_array afl" mem 0] assms
  by (auto simp: pst_fuzz_calculate_bitmap_weight_def not_less)

theorem pst_weight_total_witness:
  "pst_fuzz_calculate_bitmap_weight cov_demo (trace_bits cov_demo) = Inr 10
   \<and> pst_fuzz_calculate_bitmap_weight cov_demo [1] = Inl (Out_of_bounds ''mem'')"
  using pst_weight_total [of cov_demo "trace_bits cov_demo"] pst_weight_total [of cov_demo "[1]"]
  by (simp add: cov_demo_def)

end
