(* ===== verification/Afl_Entry.thy ===== *)
theory Afl_Entry
  imports Afl_Bitmap
begin

text \<open>
  The data of the corpus: \<open>struct queue_entry\<close>, the power schedules and the queue fields of
  \<open>afl_state_t\<close> (\<open>include/afl-fuzz.h\<close>), with the reads and writes of entries the queue code is made of.

  Entries are never moved or freed before \<open>destroy_queue\<close> and \<open>add_to_queue\<close> stores each one at the
  index it records in \<open>id\<close>, so a \<open>struct queue_entry *\<close> is its index in \<open>queue_buf\<close>; a null pointer is
  \<open>None\<close>. The fields of the \<open>INTROSPECTION\<close> build are left out. The custom mutators are user supplied
  shared objects: only the hook the queue code calls is kept, as a function on the file store.
\<close>

section \<open>Entries\<close>

type_synonym qid = nat

record queue_entry =
  fname :: string
  len :: u32
  id_q :: u32
  colorized :: u8
  cal_failed :: u8
  trim_done :: bool
  was_fuzzed :: bool
  passed_det :: bool
  has_new_cov :: bool
  var_behavior :: bool
  favored :: bool
  fs_redundant :: bool
  is_ascii :: bool
  disabled :: bool
  bitmap_size :: u32
  fuzz_level :: u32
  n_fuzz_entry :: u32
  exec_us :: u64
  handicap :: u64
  depth :: u64
  exec_cksum :: u64
  custom :: u64
  stats_mutated :: u64
  trace_mini :: "bytes option"
  tc_ref :: u32
  perf_score :: real
  weight_q :: real
  bitmap_weight :: u32
  testcase_buf :: "bytes option"
  cmplog_colorinput :: "bytes option"
  taint :: "(u32 \<times> u32) list"
  mother :: "qid option"

text \<open>\<open>ck_alloc\<close> returns zeroed memory.\<close>

definition zero_entry :: queue_entry where
  "zero_entry = \<lparr>fname = [], len = 0, id_q = 0, colorized = 0, cal_failed = 0, trim_done = False,
     was_fuzzed = False, passed_det = False, has_new_cov = False, var_behavior = False,
     favored = False, fs_redundant = False, is_ascii = False, disabled = False, bitmap_size = 0,
     fuzz_level = 0, n_fuzz_entry = 0, exec_us = 0, handicap = 0, depth = 0, exec_cksum = 0,
     custom = 0, stats_mutated = 0, trace_mini = None, tc_ref = 0, perf_score = 0, weight_q = 0,
     bitmap_weight = 0, testcase_buf = None, cmplog_colorinput = None, taint = [], mother = None\<rparr>"

section \<open>Power schedules\<close>

datatype power_schedule = EXPLORE | MMOPT | EXPLOIT | FAST | COE | LIN | QUAD | RARE | SEEK

fun schedule_code :: "power_schedule \<Rightarrow> nat" where
  "schedule_code EXPLORE = 0"
| "schedule_code MMOPT = 1"
| "schedule_code EXPLOIT = 2"
| "schedule_code FAST = 3"
| "schedule_code COE = 4"
| "schedule_code LIN = 5"
| "schedule_code QUAD = 6"
| "schedule_code RARE = 7"
| "schedule_code SEEK = 8"

lemma schedule_code_inject: "schedule_code s = schedule_code t \<longleftrightarrow> s = t"
  by (cases s; cases t) simp_all

instantiation power_schedule :: linorder
begin

definition less_eq_power_schedule :: "power_schedule \<Rightarrow> power_schedule \<Rightarrow> bool" where
  "less_eq_power_schedule s t \<longleftrightarrow> schedule_code s \<le> schedule_code t"

definition less_power_schedule :: "power_schedule \<Rightarrow> power_schedule \<Rightarrow> bool" where
  "less_power_schedule s t \<longleftrightarrow> schedule_code s < schedule_code t"

instance
  by standard
    (auto simp: less_eq_power_schedule_def less_power_schedule_def schedule_code_inject [symmetric])

end

lemmas schedule_order = less_eq_power_schedule_def less_power_schedule_def

section \<open>State\<close>

type_synonym queue_hook = "string \<Rightarrow> string \<Rightarrow> (string \<rightharpoonup> bytes) \<Rightarrow> bool \<times> (string \<rightharpoonup> bytes)"

record afl_queue = afl_cov +
  queue_buf :: "queue_entry list"
  queue :: "qid option"
  queue_cur :: "qid option"
  queue_top :: "qid option"
  queued_items :: u32
  queued_discovered :: u32
  queued_favored :: u32
  queued_variable :: u32
  pending_not_fuzzed :: u32
  pending_favored :: u32
  active_items :: u32
  cur_depth :: u32
  max_depth :: u32
  cycles_wo_finds :: u64
  start_time :: u64
  last_find_time :: u64
  longest_find_time :: u64
  ready_for_splicing_count :: u32
  custom_mutators_count :: u32
  custom_queue_new_entry :: "queue_hook option list"
  syncing_party :: "string option"
  cmplog_mode :: bool
  schedule :: power_schedule
  n_fuzz :: "u32 list"
  top_rated :: "qid option list"
  score_changed :: bool
  non_instrumented_mode :: bool
  map_tmp_buf :: bytes
  limit_time_sig :: int
  havoc_max_mult :: u8
  total_cal_us :: u64
  total_cal_cycles :: u64
  total_bitmap_size :: u64
  total_bitmap_entries :: u64
  total_execs :: u64
  alias_table :: "u32 list"
  alias_probability :: "real list"
  reinit_table :: bool

section \<open>Reading and writing entries\<close>

text \<open>\<open>q->field\<close> through an index; a null or dangling pointer is an error value.\<close>

definition get_q :: "'a afl_queue_scheme \<Rightarrow> qid \<Rightarrow> queue_entry result" where
  "get_q afl q = (if q < length (queue_buf afl) then Inr (queue_buf afl ! q)
                  else Inl (Out_of_bounds ''queue_buf''))"

definition upd_q :: "(queue_entry \<Rightarrow> queue_entry) \<Rightarrow> qid \<Rightarrow> 'a afl_queue_scheme \<Rightarrow> 'a afl_queue_scheme" where
  "upd_q f q afl = afl\<lparr>queue_buf := (queue_buf afl)[q := f (queue_buf afl ! q)]\<rparr>"

text \<open>An array read that is checked.\<close>

definition get_at :: "string \<Rightarrow> 'b list \<Rightarrow> nat \<Rightarrow> 'b result" where
  "get_at what xs i = (if i < length xs then Inr (xs ! i) else Inl (Out_of_bounds what))"

text \<open>A \<open>for\<close> loop whose body may fail.\<close>

fun for_each :: "'b list \<Rightarrow> ('b \<Rightarrow> 's \<Rightarrow> 's result) \<Rightarrow> 's \<Rightarrow> 's result" where
  "for_each [] f s = Inr s"
| "for_each (x # xs) f s = bind_result (f x s) (for_each xs f)"

lemma for_each_append: "for_each (xs @ ys) f s = bind_result (for_each xs f s) (for_each ys f)"
proof (induction xs arbitrary: s)
  case (Cons x xs)
  then show ?case by (cases "f x s") simp_all
qed simp

text \<open>The rule for such loops: a property indexed by the number of rounds done.\<close>

lemma for_each_inv:
  assumes "for_each xs f s = Inr s'" and "P 0 s"
    and "\<And>i t t'. i < length xs \<Longrightarrow> P i t \<Longrightarrow> f (xs ! i) t = Inr t' \<Longrightarrow> P (Suc i) t'"
  shows "P (length xs) s'"
  using assms
proof (induction xs arbitrary: s P)
  case (Cons x xs)
  from Cons.prems(1) obtain t where t: "f x s = Inr t" and rest: "for_each xs f t = Inr s'"
    by (auto simp: bind_result_Inr_iff)
  have "P (Suc 0) t" using Cons.prems(3) [of 0 s t] Cons.prems(2) t by simp
  then have "P (Suc (length xs)) s'"
    using Cons.IH [of t "\<lambda>i. P (Suc i)"] rest Cons.prems(3) by fastforce
  then show ?case by simp
qed simp

text \<open>And the total form: the loop succeeds when every round does.\<close>

lemma for_each_total:
  assumes "P 0 s"
    and "\<And>i t. i < length xs \<Longrightarrow> P i t \<Longrightarrow> \<exists>t'. f (xs ! i) t = Inr t' \<and> P (Suc i) t'"
  shows "\<exists>s'. for_each xs f s = Inr s' \<and> P (length xs) s'"
  using assms
proof (induction xs arbitrary: s P)
  case (Cons x xs)
  obtain t where t: "f x s = Inr t" "P (Suc 0) t"
    using Cons.prems(2) [of 0 s] Cons.prems(1) by auto
  obtain s' where "for_each xs f t = Inr s'" "P (Suc (length xs)) s'"
    using Cons.IH [of "\<lambda>i. P (Suc i)" t] t(2) Cons.prems(2) by fastforce
  with t show ?case by simp
qed simp

lemma get_q_Inr: "get_q afl q = Inr e \<longleftrightarrow> q < length (queue_buf afl) \<and> e = queue_buf afl ! q"
  by (auto simp: get_q_def)

lemma get_at_Inr: "get_at what xs i = Inr x \<longleftrightarrow> i < length xs \<and> x = xs ! i"
  by (auto simp: get_at_def)

lemma queue_buf_upd_q [simp]:
  "queue_buf (upd_q f q afl) = (queue_buf afl)[q := f (queue_buf afl ! q)]"
  by (simp add: upd_q_def)

lemma upd_q_frame [frame, simp]:
  "top_rated (upd_q f q afl) = top_rated afl" "queued_items (upd_q f q afl) = queued_items afl"
  "trace_bits (upd_q f q afl) = trace_bits afl" "map_size (upd_q f q afl) = map_size afl"
  "map_tmp_buf (upd_q f q afl) = map_tmp_buf afl" "queued_favored (upd_q f q afl) = queued_favored afl"
  "pending_favored (upd_q f q afl) = pending_favored afl" "schedule (upd_q f q afl) = schedule afl"
  "fixed_seed (upd_q f q afl) = fixed_seed afl" "n_fuzz (upd_q f q afl) = n_fuzz afl"
  "out_dir (upd_q f q afl) = out_dir afl" "fs (upd_q f q afl) = fs afl"
  "fs_deny (upd_q f q afl) = fs_deny afl" "score_changed (upd_q f q afl) = score_changed afl"
  by (simp_all add: upd_q_def)

lemmas step_Inr = bind_result_Inr_iff get_q_Inr get_at_Inr file_op_Inr

end
