(* ===== verification/Afl_Text.thy ===== *)
theory Afl_Text
  imports Afl_Entry "HOL-Library.Signed_Division"
begin

text \<open>
  The text detection of \<open>src/afl-fuzz-queue.c\<close>: \<open>check_if_text_buf\<close>, used by the CmpLog stages on
  comparison operands, and \<open>check_if_text\<close>, used by \<open>add_to_queue\<close> on whole inputs. Both walk over the
  bytes with the same UTF-8 tests; the second also counts characters. The position is the suffix of the
  buffer that is still to be read, so \<open>len - offset\<close> is its length. \<open>isascii\<close> and \<open>isprint\<close> are those of
  the C locale.
\<close>

section \<open>Byte tests\<close>

definition text_byte :: "u8 \<Rightarrow> bool" where
  "text_byte b = (b = 0x09 \<or> b = 0x0A \<or> b = 0x0D \<or> (0x20 \<le> b \<and> b \<le> 0x7E))"

definition isascii :: "u8 \<Rightarrow> bool" where
  "isascii b = (b \<le> 0x7F)"

definition isprint :: "u8 \<Rightarrow> bool" where
  "isprint b = (0x20 \<le> b \<and> b \<le> 0x7E)"

definition utf8_2byte :: "bytes \<Rightarrow> bool" where
  "utf8_2byte s = (1 < length s \<and> ((0xC2 \<le> s ! 0 \<and> s ! 0 \<le> 0xDF) \<and> (0x80 \<le> s ! 1 \<and> s ! 1 \<le> 0xBF)))"

definition utf8_3byte :: "bytes \<Rightarrow> bool" where
  "utf8_3byte s =
     (2 < length s \<and>
      ((s ! 0 = 0xE0 \<and> (0xA0 \<le> s ! 1 \<and> s ! 1 \<le> 0xBF) \<and> (0x80 \<le> s ! 2 \<and> s ! 2 \<le> 0xBF)) \<or>
       (((0xE1 \<le> s ! 0 \<and> s ! 0 \<le> 0xEC) \<or> s ! 0 = 0xEE \<or> s ! 0 = 0xEF)
          \<and> (0x80 \<le> s ! 1 \<and> s ! 1 \<le> 0xBF) \<and> (0x80 \<le> s ! 2 \<and> s ! 2 \<le> 0xBF)) \<or>
       (s ! 0 = 0xED \<and> (0x80 \<le> s ! 1 \<and> s ! 1 \<le> 0x9F) \<and> (0x80 \<le> s ! 2 \<and> s ! 2 \<le> 0xBF))))"

definition utf8_4byte :: "bytes \<Rightarrow> bool" where
  "utf8_4byte s =
     (3 < length s \<and>
      ((s ! 0 = 0xF0 \<and> (0x90 \<le> s ! 1 \<and> s ! 1 \<le> 0xBF) \<and> (0x80 \<le> s ! 2 \<and> s ! 2 \<le> 0xBF)
          \<and> (0x80 \<le> s ! 3 \<and> s ! 3 \<le> 0xBF)) \<or>
       ((0xF1 \<le> s ! 0 \<and> s ! 0 \<le> 0xF3) \<and> (0x80 \<le> s ! 1 \<and> s ! 1 \<le> 0xBF)
          \<and> (0x80 \<le> s ! 2 \<and> s ! 2 \<le> 0xBF) \<and> (0x80 \<le> s ! 3 \<and> s ! 3 \<le> 0xBF)) \<or>
       (s ! 0 = 0xF4 \<and> (0x80 \<le> s ! 1 \<and> s ! 1 \<le> 0x8F) \<and> (0x80 \<le> s ! 2 \<and> s ! 2 \<le> 0xBF)
          \<and> (0x80 \<le> s ! 3 \<and> s ! 3 \<le> 0xBF))))"

section \<open>check\_if\_text\_buf\<close>

function check_if_text_buf_loop :: "bytes \<Rightarrow> u32 \<Rightarrow> u32 \<Rightarrow> u32 \<times> u32" where
  "check_if_text_buf_loop s ascii utf8 =
     (if s = [] then (ascii, utf8)
      else if text_byte (s ! 0) then check_if_text_buf_loop (drop 1 s) (ascii + 1) (utf8 + 1)
      else
        let ascii = (if isascii (s ! 0) \<or> isprint (s ! 0) then ascii + 1 else ascii) in
        if utf8_2byte s then check_if_text_buf_loop (drop 2 s) ascii (utf8 + 1)
        else if utf8_3byte s then check_if_text_buf_loop (drop 3 s) ascii (utf8 + 1)
        else if utf8_4byte s then check_if_text_buf_loop (drop 4 s) ascii (utf8 + 1)
        else check_if_text_buf_loop (drop 1 s) ascii utf8)"
  by pat_completeness auto
termination
  by (relation "measure (\<lambda>(s, a, u). length s)") auto

definition check_if_text_buf :: "bytes \<Rightarrow> u32 \<Rightarrow> u8 result" where
  "check_if_text_buf buf n =
     (if length buf < unat n then Inl (Out_of_bounds ''buf'')
      else case check_if_text_buf_loop (take (unat n) buf) 0 0 of
        (ascii, utf8) \<Rightarrow> Inr (ucast (if utf8 > ascii then utf8 else ascii)))"

section \<open>check\_if\_text\<close>

abbreviation AFL_TXT_MIN_LEN :: u32 where "AFL_TXT_MIN_LEN \<equiv> 12"
abbreviation AFL_TXT_MAX_LEN :: u32 where "AFL_TXT_MAX_LEN \<equiv> 65535"
abbreviation AFL_TXT_MIN_PERCENT :: u32 where "AFL_TXT_MIN_PERCENT \<equiv> 99"
abbreviation MAX_FILE :: u32 where "MAX_FILE \<equiv> 1048576"

function check_if_text_loop :: "bytes \<Rightarrow> u32 \<Rightarrow> u32 \<Rightarrow> int \<Rightarrow> u32 \<times> u32 \<times> int" where
  "check_if_text_loop s ascii utf8 ncomp =
     (if s = [] then (ascii, utf8, ncomp)
      else if text_byte (s ! 0) then check_if_text_loop (drop 1 s) (ascii + 1) (utf8 + 1) ncomp
      else
        let ascii = (if isascii (s ! 0) \<or> isprint (s ! 0) then ascii + 1 else ascii) in
        if utf8_2byte s then check_if_text_loop (drop 2 s) ascii (utf8 + 1) (ncomp - 1)
        else if utf8_3byte s then check_if_text_loop (drop 3 s) ascii (utf8 + 1) (ncomp - 2)
        else if utf8_4byte s then check_if_text_loop (drop 4 s) ascii (utf8 + 1) (ncomp - 3)
        else check_if_text_loop (drop 1 s) ascii utf8 ncomp)"
  by pat_completeness auto
termination
  by (relation "measure (\<lambda>(s, a, u, c). length s)") auto

text \<open>The integer divisions trap on a zero divisor.\<close>

definition check_if_text :: "'a afl_files_scheme \<Rightarrow> queue_entry \<Rightarrow> u8 result" where
  "check_if_text afl q =
     (if len q < AFL_TXT_MIN_LEN \<or> len q < AFL_TXT_MAX_LEN then Inr 0
      else
        let n = (if MAX_FILE \<le> len q then MAX_FILE - 1 else len q) in
        case read_file afl (fname q) of
          None \<Rightarrow> Inr 0
        | Some content \<Rightarrow>
            let buf = take (unat n) content in
            if length buf \<noteq> unat n then Inr 0
            else case check_if_text_loop buf 0 0 (int (length buf)) of (ascii, utf8, ncomp) \<Rightarrow>
              if ncomp = 0 \<or> n = 0 then Inl (Fatal ''division by zero'')
              else
                let percent_utf8 = word_of_int (uint (utf8 * 100) sdiv ncomp) :: u32;
                    percent_ascii = (ascii * 100) div n
                in if percent_utf8 \<ge> percent_ascii \<and> percent_utf8 \<ge> AFL_TXT_MIN_PERCENT then Inr 2
                   else if percent_ascii \<ge> AFL_TXT_MIN_PERCENT then Inr 1
                   else Inr 0)"

declare check_if_text_buf_loop.simps [simp del] check_if_text_loop.simps [simp del]

section \<open>The UTF-8 tests accept exactly the encodings of Unicode scalar values\<close>

text \<open>The encoding form of the Unicode standard for scalar values from 0x80 on.\<close>

definition scalar :: "nat \<Rightarrow> bool" where
  "scalar cp = (cp < 0x110000 \<and> \<not> (0xD800 \<le> cp \<and> cp < 0xE000))"

definition utf8_encode :: "nat \<Rightarrow> bytes" where
  "utf8_encode cp =
     (if cp < 0x80 then [of_nat cp]
      else if cp < 0x800 then [of_nat (0xC0 + cp div 64), of_nat (0x80 + cp mod 64)]
      else if cp < 0x10000 then
        [of_nat (0xE0 + cp div 4096), of_nat (0x80 + cp div 64 mod 64), of_nat (0x80 + cp mod 64)]
      else
        [of_nat (0xF0 + cp div 262144), of_nat (0x80 + cp div 4096 mod 64),
         of_nat (0x80 + cp div 64 mod 64), of_nat (0x80 + cp mod 64)])"

definition utf8_text :: "nat \<Rightarrow> bool" where
  "utf8_text cp = (scalar cp \<and> (cp < 0x80 \<longrightarrow> text_byte (of_nat cp)))"

lemma unat_u8_of_nat: "n < 256 \<Longrightarrow> unat (of_nat n :: u8) = n"
  by (simp add: unat_of_nat_eq)

lemmas u8_cmp = word_le_nat_alt word_unat_eq_iff unat_u8_of_nat

lemma utf8_encode_2:
  assumes "0x80 \<le> cp" and "cp < 0x800"
  shows "utf8_2byte (utf8_encode cp @ s)"
proof -
  have "2 \<le> cp div 64" "cp div 64 < 32" using assms by simp_all
  moreover have "cp mod 64 < 64" by simp
  ultimately show ?thesis
    using assms by (simp add: utf8_2byte_def utf8_encode_def u8_cmp del: of_nat_add)
qed

lemma utf8_encode_3:
  assumes "0x800 \<le> cp" and "cp < 0x10000" and "scalar cp"
  shows "utf8_3byte (utf8_encode cp @ s)"
proof -
  define a b c where "a = cp div 4096" and "b = cp div 64 mod 64" and "c = cp mod 64"
  have "a < 16" "b < 64" "c < 64" using assms by (simp_all add: a_def b_def c_def)
  moreover have "cp div 64 = 64 * a + b"
    using div_mult2_eq [of cp 64 64] by (simp add: a_def b_def)
  then have "32 \<le> b" if "a = 0" using that assms by simp
  moreover have "b < 32" if "a = 13"
  proof -
    have "cp div 64 < 896" using that \<open>cp div 64 = 64 * a + b\<close> \<open>b < 64\<close> by simp
    then have "cp < 55296" using assms(3) by (auto simp: scalar_def)
    then have "cp div 64 < 864" by simp
    then show ?thesis using that \<open>cp div 64 = 64 * a + b\<close> by simp
  qed
  ultimately show ?thesis
    using assms unfolding utf8_3byte_def utf8_encode_def
    by (simp add: u8_cmp del: of_nat_add flip: a_def b_def c_def) linarith
qed

lemma utf8_encode_4:
  assumes "0x10000 \<le> cp" and "scalar cp"
  shows "utf8_4byte (utf8_encode cp @ s)"
proof -
  define a b c d where "a = cp div 262144" and "b = cp div 4096 mod 64" and "c = cp div 64 mod 64"
    and "d = cp mod 64"
  have "a < 5" "b < 64" "c < 64" "d < 64" using assms by (simp_all add: a_def b_def c_def d_def scalar_def)
  moreover have eq: "cp div 4096 = 64 * a + b"
    using div_mult2_eq [of cp 4096 64] by (simp add: a_def b_def)
  then have "16 \<le> b" if "a = 0" using that assms by simp
  moreover have "b < 16" if "a = 4"
    using that assms eq by (auto simp: scalar_def)
  ultimately show ?thesis
    using assms unfolding utf8_4byte_def utf8_encode_def
    by (simp add: u8_cmp del: of_nat_add flip: a_def b_def c_def d_def) linarith
qed


lemma u8_of_nat_unat_diff: "k \<le> unat b \<Longrightarrow> of_nat (k + (unat b - k)) = (b :: u8)"
  by simp

lemma utf8_2byte_sound:
  assumes "utf8_2byte s"
  shows "\<exists>cp. 0x80 \<le> cp \<and> cp < 0x800 \<and> take 2 s = utf8_encode cp"
proof -
  define a b where "a = unat (s ! 0) - 0xC0" and "b = unat (s ! 1) - 0x80"
  have ab: "2 \<le> a" "a < 32" "b < 64" and bytes: "s ! 0 = of_nat (0xC0 + a)" "s ! 1 = of_nat (0x80 + b)"
    using assms unfolding utf8_2byte_def by (auto simp: a_def b_def word_le_nat_alt simp del: of_nat_add)
  have "(64 * a + b) div 64 = a" "(64 * a + b) mod 64 = b" using ab by simp_all
  then have "utf8_encode (64 * a + b) = [s ! 0, s ! 1]"
    using ab unfolding utf8_encode_def bytes by (simp del: of_nat_add)
  moreover have "take 2 s = [s ! 0, s ! 1]"
    using assms by (simp add: utf8_2byte_def list_eq_iff_nth_eq nth_Cons' less_Suc_eq numeral_2_eq_2)
  ultimately show ?thesis using ab by (intro exI [of _ "64 * a + b"]) simp
qed

lemma utf8_3byte_sound:
  assumes "utf8_3byte s"
  shows "\<exists>cp. 0x800 \<le> cp \<and> cp < 0x10000 \<and> scalar cp \<and> take 3 s = utf8_encode cp"
proof -
  define a b c where "a = unat (s ! 0) - 0xE0" and "b = unat (s ! 1) - 0x80"
    and "c = unat (s ! 2) - 0x80"
  have lead: "0xE0 \<le> unat (s ! 0)" "unat (s ! 0) \<le> 0xEF" "0x80 \<le> unat (s ! 1)" "unat (s ! 1) \<le> 0xBF"
    "0x80 \<le> unat (s ! 2)" "unat (s ! 2) \<le> 0xBF" "unat (s ! 0) = 0xE0 \<longrightarrow> 0xA0 \<le> unat (s ! 1)"
    "unat (s ! 0) = 0xED \<longrightarrow> unat (s ! 1) \<le> 0x9F"
    using assms unfolding utf8_3byte_def word_le_nat_alt word_unat_eq_iff by auto
  then have abc: "a < 16" "b < 64" "c < 64" "a = 0 \<longrightarrow> 32 \<le> b" "a = 13 \<longrightarrow> b < 32"
    by (auto simp: a_def b_def c_def)
  have bytes: "s ! 0 = of_nat (0xE0 + a)" "s ! 1 = of_nat (0x80 + b)" "s ! 2 = of_nat (0x80 + c)"
    using lead by (simp_all add: a_def b_def c_def del: of_nat_add)
  let ?cp = "4096 * a + (64 * b + c)"
  have cp: "?cp = 64 * (64 * a + b) + c" by simp
  have "64 * b + c < 4096" using abc by simp
  then have "?cp div 4096 = a" by simp
  moreover have "(64 * m + c) mod 64 = c" "(64 * m + c) div 64 = m" for m using abc by simp_all
  then have "?cp mod 64 = c" "?cp div 64 = 64 * a + b" unfolding cp by blast+
  moreover have "(64 * a + b) mod 64 = b" using abc by simp
  ultimately have d: "?cp div 4096 = a" "?cp mod 64 = c" "?cp div 64 = 64 * a + b"
    "(64 * a + b) mod 64 = b" by blast+
  have big: "0x800 \<le> ?cp" "?cp < 0x10000" "scalar ?cp"
  proof -
    have "2048 \<le> 64 * b" if "a = 0" using abc that by simp
    then show "0x800 \<le> ?cp" by (cases "a = 0") simp_all
    show "?cp < 0x10000" using abc by simp
    have "?cp < 0xD800" if "a \<le> 13" using abc that by (cases "a = 13") simp_all
    moreover have "0xE000 \<le> ?cp" if "14 \<le> a" using that by simp
    ultimately show "scalar ?cp" using \<open>?cp < 0x10000\<close> by (cases "a \<le> 13") (simp_all add: scalar_def)
  qed
  have "utf8_encode ?cp = [s ! 0, s ! 1, s ! 2]"
    using big(1,2) unfolding utf8_encode_def d bytes by (simp del: of_nat_add)
  moreover have "take 3 s = [s ! 0, s ! 1, s ! 2]"
    using assms by (simp add: utf8_3byte_def list_eq_iff_nth_eq nth_Cons' less_Suc_eq numeral_3_eq_3
        numeral_2_eq_2)
  ultimately show ?thesis using big by metis
qed

lemma utf8_4byte_sound:
  assumes "utf8_4byte s"
  shows "\<exists>cp. 0x10000 \<le> cp \<and> scalar cp \<and> take 4 s = utf8_encode cp"
proof -
  define a b c d where "a = unat (s ! 0) - 0xF0" and "b = unat (s ! 1) - 0x80"
    and "c = unat (s ! 2) - 0x80" and "d = unat (s ! 3) - 0x80"
  have lead: "0xF0 \<le> unat (s ! 0)" "unat (s ! 0) \<le> 0xF4" "0x80 \<le> unat (s ! 1)" "unat (s ! 1) \<le> 0xBF"
    "0x80 \<le> unat (s ! 2)" "unat (s ! 2) \<le> 0xBF" "0x80 \<le> unat (s ! 3)" "unat (s ! 3) \<le> 0xBF"
    "unat (s ! 0) = 0xF0 \<longrightarrow> 0x90 \<le> unat (s ! 1)" "unat (s ! 0) = 0xF4 \<longrightarrow> unat (s ! 1) \<le> 0x8F"
    using assms unfolding utf8_4byte_def word_le_nat_alt word_unat_eq_iff by auto
  then have abcd: "a < 5" "b < 64" "c < 64" "d < 64" "a = 0 \<longrightarrow> 16 \<le> b" "a = 4 \<longrightarrow> b < 16"
    by (auto simp: a_def b_def c_def d_def)
  have bytes: "s ! 0 = of_nat (0xF0 + a)" "s ! 1 = of_nat (0x80 + b)" "s ! 2 = of_nat (0x80 + c)"
    "s ! 3 = of_nat (0x80 + d)"
    using lead by (simp_all add: a_def b_def c_def d_def del: of_nat_add)
  have radix: "(64 * m + r) mod 64 = r" "(64 * m + r) div 64 = m" if "r < 64" for m r :: nat
    using that by simp_all
  define cp where "cp = 64 * (64 * (64 * a + b) + c) + d"
  have q1: "cp div 64 = 64 * (64 * a + b) + c" "cp mod 64 = d"
    unfolding cp_def using abcd radix by blast+
  have q2: "cp div 4096 = 64 * a + b"
    using div_mult2_eq [of cp 64 64] q1 abcd radix [of c "64 * a + b"] by simp
  have q3: "cp div 262144 = a"
    using div_mult2_eq [of cp 4096 64] q2 abcd radix [of b a] by simp
  have big: "0x10000 \<le> cp" "scalar cp"
  proof -
    have "1024 \<le> 64 * b" if "a = 0" using abcd that by simp
    then show "0x10000 \<le> cp" by (cases "a = 0") (simp_all add: cp_def)
    moreover have "cp < 0x110000" using abcd by (cases "a = 4") (simp_all add: cp_def)
    ultimately show "scalar cp" by (simp add: scalar_def)
  qed
  have "utf8_encode cp = [s ! 0, s ! 1, s ! 2, s ! 3]"
    using big(1) unfolding utf8_encode_def q1 q2 q3 bytes radix(1) [OF abcd(2)] radix(1) [OF abcd(3)]
    by (simp del: of_nat_add)
  moreover have "take 4 s = [s ! 0, s ! 1, s ! 2, s ! 3]"
    using assms by (simp add: utf8_4byte_def list_eq_iff_nth_eq nth_Cons' less_Suc_eq numeral_eq_Suc)
  ultimately show ?thesis using big by metis
qed

section \<open>The loops\<close>

lemma utf8_tests_exclusive:
  "utf8_2byte s \<Longrightarrow> \<not> text_byte (s ! 0) \<and> \<not> isascii (s ! 0) \<and> \<not> isprint (s ! 0)"
  "utf8_3byte s \<Longrightarrow> \<not> text_byte (s ! 0) \<and> \<not> isascii (s ! 0) \<and> \<not> isprint (s ! 0) \<and> \<not> utf8_2byte s"
  "utf8_4byte s \<Longrightarrow> \<not> text_byte (s ! 0) \<and> \<not> isascii (s ! 0) \<and> \<not> isprint (s ! 0) \<and> \<not> utf8_2byte s
     \<and> \<not> utf8_3byte s"
  by (auto simp: utf8_2byte_def utf8_3byte_def utf8_4byte_def text_byte_def isascii_def isprint_def
      word_le_nat_alt word_unat_eq_iff)

lemma text_byte_isascii: "text_byte b \<Longrightarrow> isascii b"
  by (auto simp: text_byte_def isascii_def word_le_nat_alt)

lemma isprint_isascii: "isprint b \<Longrightarrow> isascii b"
  by (auto simp: isprint_def isascii_def word_le_nat_alt)

lemma utf8_text_step:
  assumes "utf8_text cp"
  shows "check_if_text_loop (utf8_encode cp @ s) a u c = check_if_text_loop s
    (a + (if cp < 0x80 then 1 else 0)) (u + 1) (c - (int (length (utf8_encode cp)) - 1))"
proof -
  consider "cp < 0x80" | "0x80 \<le> cp" "cp < 0x800" | "0x800 \<le> cp" "cp < 0x10000" | "0x10000 \<le> cp"
    by linarith
  then show ?thesis
  proof cases
    case 1
    then show ?thesis
      using assms by (subst check_if_text_loop.simps) (simp add: utf8_text_def utf8_encode_def)
  next
    case 2
    note t = utf8_encode_2 [OF 2, of s]
    have "length (utf8_encode cp) = 2" using 2 by (simp add: utf8_encode_def)
    then show ?thesis
      using 2 t utf8_tests_exclusive(1) [OF t]
      by (subst check_if_text_loop.simps) (auto simp: Let_def)
  next
    case 3
    then have t: "utf8_3byte (utf8_encode cp @ s)"
      using assms utf8_encode_3 by (simp add: utf8_text_def)
    have "length (utf8_encode cp) = 3" using 3 by (simp add: utf8_encode_def)
    then show ?thesis
      using 3 t utf8_tests_exclusive(2) [OF t]
      by (subst check_if_text_loop.simps) (auto simp: Let_def)
  next
    case 4
    then have t: "utf8_4byte (utf8_encode cp @ s)"
      using assms utf8_encode_4 by (simp add: utf8_text_def)
    have "length (utf8_encode cp) = 4" using 4 by (simp add: utf8_encode_def)
    then show ?thesis
      using 4 t utf8_tests_exclusive(3) [OF t]
      by (subst check_if_text_loop.simps) (auto simp: Let_def)
  qed
qed

lemma utf8_text_loop:
  assumes "\<forall>cp \<in> set cps. utf8_text cp"
  shows "check_if_text_loop (concat (map utf8_encode cps)) a u c =
    (a + of_nat (length (filter (\<lambda>cp. cp < 0x80) cps)), u + of_nat (length cps),
     c - (int (length (concat (map utf8_encode cps))) - int (length cps)))"
  using assms
proof (induction cps arbitrary: a u c)
  case Nil
  then show ?case by (simp add: check_if_text_loop.simps)
next
  case (Cons cp cps)
  then show ?case by (simp add: utf8_text_step algebra_simps)
qed

text \<open>One round of either loop: it consumes \<open>d + 1\<close> bytes, \<open>d > 0\<close> only for a multi-byte sequence, counts
  one ASCII character exactly for a first byte below 0x80, and at most one UTF-8 character.\<close>

lemma text_round:
  assumes "s \<noteq> []"
  obtains d y where "Suc d \<le> length s" and "y \<le> 1"
    and "d = 0 \<and> y = 1 \<or> 0 < d \<longrightarrow> (d = 0 \<longleftrightarrow> isascii (s ! 0))"
    and "\<And>a u c. check_if_text_loop s a u c = check_if_text_loop (drop (Suc d) s)
           (a + (if isascii (s ! 0) then 1 else 0)) (u + of_nat y) (c - int d)"
    and "\<And>a u. check_if_text_buf_loop s a u = check_if_text_buf_loop (drop (Suc d) s)
           (a + (if isascii (s ! 0) then 1 else 0)) (u + of_nat y)"
proof -
  note unroll = check_if_text_loop.simps [of s] check_if_text_buf_loop.simps [of s]
  consider "text_byte (s ! 0)" | "utf8_2byte s" | "utf8_3byte s" | "utf8_4byte s"
    | "\<not> text_byte (s ! 0)" "\<not> utf8_2byte s" "\<not> utf8_3byte s" "\<not> utf8_4byte s"
    by blast
  then show thesis
  proof cases
    case 1
    then show ?thesis
      using assms by (intro that [of 0 1]) (simp_all add: Suc_le_eq unroll text_byte_isascii)
  next
    case 2
    then show ?thesis
      using assms utf8_tests_exclusive(1) [OF 2]
      by (intro that [of 1 1]) (simp_all add: unroll numeral_2_eq_2, simp add: utf8_2byte_def)
  next
    case 3
    then show ?thesis
      using assms utf8_tests_exclusive(2) [OF 3]
      by (intro that [of 2 1]) (simp_all add: unroll numeral_3_eq_3, simp add: utf8_3byte_def)
  next
    case 4
    then show ?thesis
      using assms utf8_tests_exclusive(3) [OF 4]
      by (intro that [of 3 1]) (simp_all add: unroll, simp add: utf8_4byte_def)
  next
    case 5
    then show ?thesis
      using assms isprint_isascii [of "s ! 0"]
      by (intro that [of 0 0]) (auto simp: unroll Suc_le_eq)
  qed
qed

text \<open>What holds of the counters on any bytes.\<close>

lemma check_if_text_loop_counts:
  "\<exists>ka ku kc. (\<forall>a u c. check_if_text_loop s a u c = (a + of_nat ka, u + of_nat ku, c - int kc))
     \<and> ka \<le> length s \<and> ku + kc \<le> length s \<and> (s \<noteq> [] \<longrightarrow> kc < length s)"
proof (induction s rule: length_induct)
  case (1 s)
  show ?case
  proof (cases "s = []")
    case True
    then show ?thesis by (simp add: check_if_text_loop.simps)
  next
    case False
    then obtain d y where d: "Suc d \<le> length s" "y \<le> 1"
      and eq: "\<And>a u c. check_if_text_loop s a u c = check_if_text_loop (drop (Suc d) s)
           (a + (if isascii (s ! 0) then 1 else 0)) (u + of_nat y) (c - int d)"
      using text_round by metis
    define t where "t = drop (Suc d) s"
    have lt: "length t = length s - Suc d" by (simp add: t_def)
    with d have "length t < length s" by simp
    with 1 obtain ka ku kc where k:
      "\<And>a u c. check_if_text_loop t a u c = (a + of_nat ka, u + of_nat ku, c - int kc)"
      "ka \<le> length t" "ku + kc \<le> length t"
      by blast
    show ?thesis
      by (rule exI [of _ "(if isascii (s ! 0) then 1 else 0) + ka"], rule exI [of _ "y + ku"],
          rule exI [of _ "d + kc"])
        (use k d in \<open>auto simp: eq add.assoc lt simp flip: t_def\<close>)
  qed
qed

lemma check_if_text_buf_loop_counts:
  "\<exists>ka ku. (\<forall>a u. check_if_text_buf_loop s a u = (a + of_nat ka, u + of_nat ku))
     \<and> ka \<le> length s \<and> ku \<le> length s \<and> (ka = length s \<longleftrightarrow> (\<forall>b \<in> set s. isascii b))
     \<and> (ku = length s \<longrightarrow> (\<forall>b \<in> set s. isascii b))"
proof (induction s rule: length_induct)
  case (1 s)
  show ?case
  proof (cases "s = []")
    case True
    then show ?thesis by (simp add: check_if_text_buf_loop.simps)
  next
    case False
    then obtain d y where d: "Suc d \<le> length s" "y \<le> 1"
      and cls: "d = 0 \<and> y = 1 \<or> 0 < d \<longrightarrow> (d = 0 \<longleftrightarrow> isascii (s ! 0))"
      and eq: "\<And>a u. check_if_text_buf_loop s a u = check_if_text_buf_loop (drop (Suc d) s)
           (a + (if isascii (s ! 0) then 1 else 0)) (u + of_nat y)"
      using text_round by metis
    define t where "t = drop (Suc d) s"
    have lt: "length t = length s - Suc d" by (simp add: t_def)
    with d have "length t < length s" by simp
    with 1 obtain ka ku where k: "\<And>a u. check_if_text_buf_loop t a u = (a + of_nat ka, u + of_nat ku)"
      "ka \<le> length t" "ku \<le> length t" "ka = length t \<longleftrightarrow> (\<forall>b \<in> set t. isascii b)"
      "ku = length t \<longrightarrow> (\<forall>b \<in> set t. isascii b)"
      by blast
    have split: "(\<forall>b \<in> set s. isascii b) \<longleftrightarrow> isascii (s ! 0) \<and> (\<forall>b \<in> set t. isascii b)" if "d = 0"
      using False that by (cases s) (simp_all add: t_def)
    have first: "(\<forall>b \<in> set s. isascii b) \<Longrightarrow> isascii (s ! 0)" using False by simp
    let ?ka = "(if isascii (s ! 0) then 1 else 0) + ka" and ?ku = "y + ku"
    have "?ka = length s \<longleftrightarrow> (\<forall>b \<in> set s. isascii b)"
      "?ku = length s \<longrightarrow> (\<forall>b \<in> set s. isascii b)" "?ka \<le> length s" "?ku \<le> length s"
      using split first cls d k lt by (cases "d = 0"; auto)+
    moreover have "check_if_text_buf_loop s a u = (a + of_nat ?ka, u + of_nat ?ku)" for a u
      by (simp add: eq k(1) flip: t_def)
    ultimately show ?thesis by blast
  qed
qed


lemma check_if_text_returns:
  "\<exists>r \<in> {0, 1, 2}. check_if_text afl q = Inr r \<and> (len q < AFL_TXT_MAX_LEN \<longrightarrow> r = 0)"
proof (cases "len q < AFL_TXT_MAX_LEN")
  case True
  then show ?thesis by (simp add: check_if_text_def)
next
  case False
  define n where "n = (if MAX_FILE \<le> len q then MAX_FILE - 1 else len q)"
  have n: "n \<noteq> 0" using False by (auto simp: n_def word_le_nat_alt word_less_nat_alt)
  have short: "\<not> (len q < AFL_TXT_MIN_LEN \<or> len q < AFL_TXT_MAX_LEN)"
    using False by (auto simp: word_le_nat_alt word_less_nat_alt)
  show ?thesis
  proof (cases "read_file afl (fname q)")
    case None
    then show ?thesis using short by (simp add: check_if_text_def Let_def)
  next
    case (Some content)
    let ?buf = "take (unat n) content"
    obtain ka ku kc where k: "\<And>a u c. check_if_text_loop ?buf a u c = (a + of_nat ka, u + of_nat ku, c - int kc)"
      "?buf \<noteq> [] \<longrightarrow> kc < length ?buf"
      using check_if_text_loop_counts [of ?buf] by blast
    have "unat n > 0" using n by (simp add: unat_gt_0)
    then have "int (length ?buf) - int kc \<noteq> 0" if "length ?buf = unat n"
    proof -
      have "?buf \<noteq> []" using that \<open>unat n > 0\<close> by (metis length_0_conv less_irrefl)
      with k(2) have "kc < length ?buf" by blast
      then show ?thesis by linarith
    qed
    then show ?thesis
      using short n False Some unfolding check_if_text_def n_def [symmetric] Let_def
      by (cases "length ?buf = unat n") (simp_all only: k(1) if_False option.case prod.case, auto)
  qed
qed

section \<open>Properties\<close>

text \<open>(C30) The byte tests shared by \<open>check_if_text_buf\<close> and \<open>check_if_text\<close> are right about UTF-8: the bytes at
  the current position pass one of the 2-, 3- and 4-byte tests exactly when they begin with the UTF-8 encoding of
  a Unicode scalar value from 0x80 on (no overlong forms, no surrogates, nothing above 0x10FFFF), and the
  test that passes is the one for the length of that encoding.\<close>

theorem utf8_tests_exact:
  "(utf8_2byte s \<longleftrightarrow> (\<exists>cp t. 0x80 \<le> cp \<and> scalar cp \<and> length (utf8_encode cp) = 2 \<and> s = utf8_encode cp @ t))
   \<and> (utf8_3byte s \<longleftrightarrow> (\<exists>cp t. 0x80 \<le> cp \<and> scalar cp \<and> length (utf8_encode cp) = 3 \<and> s = utf8_encode cp @ t))
   \<and> (utf8_4byte s \<longleftrightarrow> (\<exists>cp t. 0x80 \<le> cp \<and> scalar cp \<and> length (utf8_encode cp) = 4 \<and> s = utf8_encode cp @ t))"
proof -
  have len: "length (utf8_encode cp) = 2 \<longleftrightarrow> 0x80 \<le> cp \<and> cp < 0x800"
    "length (utf8_encode cp) = 3 \<longleftrightarrow> 0x800 \<le> cp \<and> cp < 0x10000"
    "length (utf8_encode cp) = 4 \<longleftrightarrow> 0x10000 \<le> cp" for cp
    by (auto simp: utf8_encode_def)
  have small: "scalar cp" if "cp < 0x800" for cp using that by (simp add: scalar_def)
  have pre: "\<exists>t. s = e @ t" if "take n s = e" for n e using that by (metis append_take_drop_id)
  have le: "0x80 \<le> cp" if "0x800 \<le> cp \<or> 0x10000 \<le> cp" for cp :: nat using that by auto
  show ?thesis
    unfolding len
    using utf8_encode_2 utf8_encode_3 utf8_encode_4 small le pre utf8_2byte_sound [of s]
      utf8_3byte_sound [of s] utf8_4byte_sound [of s]
    by (intro conjI iffI) metis+
qed

text \<open>\<open>check_if_text\<close> always returns one of 0, 1, 2: the character count it divides by never reaches zero.
  For every input shorter than \<open>AFL_TXT_MAX_LEN\<close> the answer is 0, because the length guard compares with
  less-than where \<open>config.h\<close> documents a maximum.\<close>

theorem check_if_text_total:
  "\<exists>r. check_if_text afl q = Inr r \<and> r \<in> (if len q < AFL_TXT_MAX_LEN then {0} else {0, 1, 2})"
  using check_if_text_returns [of afl q] by auto

text \<open>\<open>check_if_text\<close> recognises UTF-8 text: a readable input of at least 65535 and less than \<open>MAX_FILE\<close>
  bytes that is the UTF-8 encoding of a sequence of characters, each one printable ASCII, tab, newline or
  carriage return, or any scalar value from 0x80 on, is classified as 2.\<close>

theorem check_if_text_accepts_utf8:
  assumes "\<forall>cp \<in> set cps. utf8_text cp"
    and "read_file afl (fname q) = Some (concat (map utf8_encode cps))"
    and "unat (len q) = length (concat (map utf8_encode cps))"
    and "AFL_TXT_MAX_LEN \<le> len q" and "len q < MAX_FILE"
  shows "check_if_text afl q = Inr 2"
proof -
  let ?bs = "concat (map utf8_encode cps)" and ?na = "length (filter (\<lambda>cp. cp < 0x80) cps)"
  have lens: "65535 \<le> length ?bs" "length ?bs < 1048576"
    using assms(3-5) by (simp_all add: word_le_nat_alt word_less_nat_alt)
  have "length (utf8_encode cp) \<ge> 1" for cp by (simp add: utf8_encode_def)
  then have "length xs \<le> length (concat (map utf8_encode xs))" for xs
    by (induction xs) (simp_all, metis One_nat_def add_le_mono plus_1_eq_Suc)
  then have chars: "length cps \<le> length ?bs" .
  have pos: "0 < length cps" using lens by (cases cps) simp_all
  have na: "?na \<le> length ?bs" using chars length_filter_le le_trans by blast
  have u: "uint ((of_nat (length cps) :: u32) * 100) = int (length cps) * 100"
  proof -
    have "(of_nat (length cps) :: u32) * 100 = of_nat (length cps * 100)" by simp
    moreover have "uint (of_nat (length cps * 100) :: u32) = int (length cps * 100)"
      using chars lens by (simp only: uint_nat) (subst unat_of_nat_eq; simp)
    ultimately show ?thesis by simp
  qed
  have "unat (((of_nat ?na :: u32) * 100) div len q) = ?na * 100 div length ?bs"
  proof -
    have "(of_nat ?na :: u32) * 100 = of_nat (?na * 100)" by simp
    moreover have "unat (of_nat (?na * 100) :: u32) = ?na * 100"
      using na lens by (subst unat_of_nat_eq) simp_all
    ultimately show ?thesis using assms(3) by (simp only: unat_div)
  qed
  also have "\<dots> \<le> 100"
    using na lens div_le_mono [of "?na * 100" "length ?bs * 100" "length ?bs"]
    by (auto split: if_splits)
  finally have ascii: "((of_nat ?na :: u32) * 100) div len q \<le> 100" by (simp add: word_le_nat_alt)
  have "uint ((of_nat (length cps) :: u32) * 100) sdiv int (length cps) = 100"
    using pos unfolding u by (simp add: signed_divide_int_def sgn_mult)
  moreover have "\<not> len q < 12" "\<not> len q < AFL_TXT_MAX_LEN" "\<not> MAX_FILE \<le> len q" "len q \<noteq> 0"
    using assms(4,5) by (auto simp: word_le_nat_alt word_less_nat_alt)
  ultimately show ?thesis
    using assms(2,3) pos ascii utf8_text_loop [OF assms(1), of 0 0 "int (length ?bs)"]
    by (simp add: check_if_text_def Let_def)
qed

lemma concat_ascii: "concat (map utf8_encode (replicate n 0x41)) = replicate n 0x41"
  by (induction n) (simp_all add: utf8_encode_def)

definition text_demo :: "afl_files" where
  "text_demo = \<lparr>rand_seed = (7, 9, 11), rand_cnt = 5, fixed_seed = True, init_seed = 1,
     dev_urandom = sconst (0, 0, 0), out_dir = ''out'', fs = [''a'' \<mapsto> replicate 65535 0x41],
     fs_deny = (\<lambda>_. False), fs_symlinks = True\<rparr>"

theorem check_if_text_accepts_utf8_witness:
  "check_if_text text_demo (zero_entry\<lparr>fname := ''a'', len := 65535\<rparr>) = Inr 2"
proof (rule check_if_text_accepts_utf8 [where cps = "replicate 65535 0x41"])
  show "\<forall>cp \<in> set (replicate 65535 0x41). utf8_text cp"
    by (simp add: utf8_text_def scalar_def text_byte_def word_le_nat_alt)
  show "read_file text_demo (fname (zero_entry\<lparr>fname := ''a'', len := 65535\<rparr>))
      = Some (concat (map utf8_encode (replicate 65535 0x41)))"
    unfolding concat_ascii by (simp add: text_demo_def read_file_def)
  show "unat (len (zero_entry\<lparr>fname := ''a'', len := 65535\<rparr>))
      = length (concat (map utf8_encode (replicate 65535 0x41)))"
    unfolding concat_ascii by simp
qed simp_all

text \<open>\<open>check_if_text_buf\<close> as the CmpLog stages use it: on an operand of fewer than 256 bytes it returns the
  operand's length exactly when every byte is ASCII (below 0x80).\<close>

theorem check_if_text_buf_full:
  assumes "unat n < 256" and "unat n \<le> length buf"
  shows "check_if_text_buf buf n = Inr (ucast n) \<longleftrightarrow> (\<forall>b \<in> set (take (unat n) buf). b < 0x80)"
proof -
  let ?s = "take (unat n) buf"
  obtain ka ku where k: "\<And>a u. check_if_text_buf_loop ?s a u = (a + of_nat ka, u + of_nat ku)"
    "ka \<le> length ?s" "ku \<le> length ?s" "ka = length ?s \<longleftrightarrow> (\<forall>b \<in> set ?s. isascii b)"
    "ku = length ?s \<longrightarrow> (\<forall>b \<in> set ?s. isascii b)"
    using check_if_text_buf_loop_counts [of ?s] by blast
  have s: "length ?s = unat n" using assms by simp
  let ?m = "if (of_nat ku :: u32) > of_nat ka then of_nat ku else of_nat ka :: u32"
  have m: "unat ?m = max ku ka"
    using assms k(2,3) s by (auto simp: word_less_nat_alt unat_of_nat_eq max_def)
  have "(ucast ?m = (ucast n :: u8)) \<longleftrightarrow> unat ?m = unat n"
    using assms(1) m k(2,3) s
    by (simp add: word_unat_eq_iff unsigned_ucast_eq take_bit_nat_eq_self_iff)
      (simp add: take_bit_nat_eq_self)
  then have "check_if_text_buf buf n = Inr (ucast n) \<longleftrightarrow> max ku ka = unat n"
    using assms m by (simp add: check_if_text_buf_def k(1))
  also have "\<dots> \<longleftrightarrow> (\<forall>b \<in> set ?s. isascii b)"
    using k(2-5) s by (auto simp: max_def)
  also have "\<dots> \<longleftrightarrow> (\<forall>b \<in> set ?s. b < 0x80)"
    by (simp add: isascii_def word_le_nat_alt word_less_nat_alt less_Suc_eq_le [symmetric])
  finally show ?thesis .
qed

theorem check_if_text_buf_full_witness:
  "check_if_text_buf [0x41, 0xC3, 0xA9] 1 = Inr 1 \<and> check_if_text_buf [0x41, 0xC3, 0xA9] 3 \<noteq> Inr 3"
  using check_if_text_buf_full [of 1 "[0x41, 0xC3, 0xA9]"] check_if_text_buf_full [of 3 "[0x41, 0xC3, 0xA9]"]
  by simp

end
