(* ===== verification/Afl_Queue.thy ===== *)
theory Afl_Queue
  imports Afl_Text
begin

unbundle bit_operations_syntax

text \<open>
  The corpus operations of \<open>src/afl-fuzz-queue.c\<close>: the repository's own PST-FUZZ selection of the next
  entry, the \<open>mark_as_*\<close> functions with their state files, \<open>add_to_queue\<close>, \<open>destroy_queue\<close>, and the
  favoured-entry mechanism \<open>update_bitmap_score\<close> / \<open>cull_queue\<close> over \<open>top_rated\<close>; with
  \<open>next_pow2\<close> of \<open>include/alloc-inl.h\<close> and \<open>run_afl_custom_queue_new_entry\<close> of
  \<open>src/afl-fuzz-mutators.c\<close>. The clock is an argument.
\<close>

section \<open>Selecting the next entry\<close>

abbreviation PST_FUZZ_SELECT_RANDOM_PROB :: u32 where "PST_FUZZ_SELECT_RANDOM_PROB \<equiv> 10"

partial_function (option) pst_random_entry ::
  "'a afl_queue_scheme \<Rightarrow> (u32 \<times> 'a afl_queue_scheme) result option" where
  "pst_random_entry afl =
     (case rand_below afl (queued_items afl) of
        None \<Rightarrow> None
      | Some (randomly_selected, afl) \<Rightarrow>
          (case get_q afl (unat randomly_selected) of
             Inl e \<Rightarrow> Some (Inl e)
           | Inr q \<Rightarrow> if disabled q then pst_random_entry afl
                      else Some (Inr (randomly_selected, afl))))"

fun pst_highest_loop :: "queue_entry list \<Rightarrow> nat list \<Rightarrow> nat \<Rightarrow> nat" where
  "pst_highest_loop qs [] highest = highest"
| "pst_highest_loop qs (i # rest) highest =
     (if bitmap_weight (qs ! i) > bitmap_weight (qs ! highest)
         \<and> fuzz_level (qs ! i) \<le> fuzz_level (qs ! highest) \<and> \<not> disabled (qs ! i)
      then pst_highest_loop qs rest i
      else pst_highest_loop qs rest highest)"

text \<open>A slot behind the stored entries is a null pointer and ends the loop.\<close>

definition pst_highest :: "'a afl_queue_scheme \<Rightarrow> nat" where
  "pst_highest afl =
     pst_highest_loop (queue_buf afl) [0..<min (unat (queued_items afl)) (length (queue_buf afl))] 0"

definition pst_fuzz_select_next_queue_entry ::
  "'a afl_queue_scheme \<Rightarrow> (u32 \<times> 'a afl_queue_scheme) result option" where
  "pst_fuzz_select_next_queue_entry afl =
     (case rand_below afl 100 of
        None \<Rightarrow> None
      | Some (r, afl) \<Rightarrow>
          if r < PST_FUZZ_SELECT_RANDOM_PROB then pst_random_entry afl
          else Some (Inr (of_nat (pst_highest afl), afl)))"

definition select_next_queue_entry ::
  "'a afl_queue_scheme \<Rightarrow> (u32 \<times> 'a afl_queue_scheme) result option" where
  "select_next_queue_entry afl = pst_fuzz_select_next_queue_entry afl"

section \<open>Marking entries\<close>

definition mark_as_det_done :: "'a afl_queue_scheme \<Rightarrow> qid \<Rightarrow> 'a afl_queue_scheme result" where
  "mark_as_det_done afl q =
     bind_result (get_q afl q) (\<lambda>e.
     bind_result (basename (fname e)) (\<lambda>base.
     bind_result (creat_excl afl
         (snprintf_path (out_dir afl @ ''/queue/.state/deterministic_done/'' @ base)) []) (\<lambda>afl.
     Inr (upd_q (\<lambda>e. e\<lparr>passed_det := True\<rparr>) q afl))))"

definition mark_as_variable :: "'a afl_queue_scheme \<Rightarrow> qid \<Rightarrow> 'a afl_queue_scheme result" where
  "mark_as_variable afl q =
     bind_result (get_q afl q) (\<lambda>e.
     bind_result (basename (fname e)) (\<lambda>fn_name.
     bind_result (sprintf_path (''../../'' @ fn_name)) (\<lambda>ldest.
     bind_result (sprintf_path (out_dir afl @ ''/queue/.state/variable_behavior/'' @ fn_name)) (\<lambda>fn.
     bind_result (case symlink afl ldest fn of
                    Some afl \<Rightarrow> Inr afl
                  | None \<Rightarrow> creat_excl afl fn []) (\<lambda>afl.
     Inr (upd_q (\<lambda>e. e\<lparr>var_behavior := True\<rparr>) q afl))))))"

definition mark_as_redundant :: "'a afl_queue_scheme \<Rightarrow> qid \<Rightarrow> bool \<Rightarrow> 'a afl_queue_scheme result" where
  "mark_as_redundant afl q state =
     bind_result (get_q afl q) (\<lambda>e.
     if state = fs_redundant e then Inr afl
     else
       let afl = upd_q (\<lambda>e. e\<lparr>fs_redundant := state\<rparr>) q afl in
       bind_result (basename (fname e)) (\<lambda>base.
       bind_result (sprintf_path (out_dir afl @ ''/queue/.state/redundant_edges/'' @ base)) (\<lambda>fn.
       if state then creat_excl afl fn [] else unlink_file afl fn)))"

section \<open>Adding and destroying\<close>

fun custom_hooks :: "queue_hook option list \<Rightarrow> string \<Rightarrow> string \<Rightarrow> bool \<Rightarrow> (string \<rightharpoonup> bytes)
    \<Rightarrow> bool \<times> (string \<rightharpoonup> bytes)" where
  "custom_hooks [] fn mother_fn updated files = (updated, files)"
| "custom_hooks (None # els) fn mother_fn updated files = custom_hooks els fn mother_fn updated files"
| "custom_hooks (Some hook # els) fn mother_fn updated files =
     (case hook fn mother_fn files of (ret, files) \<Rightarrow>
        custom_hooks els fn mother_fn (if ret then True else updated) files)"

definition run_afl_custom_queue_new_entry ::
  "'a afl_queue_scheme \<Rightarrow> qid \<Rightarrow> string \<Rightarrow> string \<Rightarrow> 'a afl_queue_scheme result" where
  "run_afl_custom_queue_new_entry afl q fn mother_fn =
     (if custom_mutators_count afl = 0 then Inr afl
      else case custom_hooks (custom_queue_new_entry afl) fn mother_fn False (fs afl) of
        (updated, files) \<Rightarrow>
          let afl = afl\<lparr>fs := files\<rparr> in
          if \<not> updated then Inr afl
          else case files fn of
            None \<Rightarrow> Inl (Fatal ''File is gone'')
          | Some content \<Rightarrow>
              if content = [] then Inl (Fatal ''File became empty in custom mutator'')
              else Inr (upd_q (\<lambda>e. e\<lparr>len := of_nat (length content)\<rparr>) q afl))"

definition store_at :: "nat \<Rightarrow> 'b \<Rightarrow> 'b list \<Rightarrow> 'b list result" where
  "store_at i x xs = (if i < length xs then Inr (xs[i := x])
     else if i = length xs then Inr (xs @ [x]) else Inl (Out_of_bounds ''queue_buf''))"

definition new_longest_find_time :: "'a afl_queue_scheme \<Rightarrow> u64 \<Rightarrow> u64" where
  "new_longest_find_time afl cur_time =
     (if start_time afl \<noteq> 0 \<and> longest_find_time afl < cur_time - last_find_time afl then
        if last_find_time afl = 0 then cur_time - start_time afl
        else cur_time - last_find_time afl
      else longest_find_time afl)"

definition new_queue_entry :: "'a afl_queue_scheme \<Rightarrow> string \<Rightarrow> u32 \<Rightarrow> bool \<Rightarrow> queue_entry" where
  "new_queue_entry afl fn n det =
     zero_entry\<lparr>fname := fn, len := n, depth := ucast (cur_depth afl + 1), passed_det := det,
       trace_mini := None, testcase_buf := None, mother := queue_cur afl\<rparr>"

definition link_queue_entry :: "qid \<Rightarrow> queue_entry \<Rightarrow> 'a afl_queue_scheme \<Rightarrow> 'a afl_queue_scheme" where
  "link_queue_entry qi q afl =
     (let afl = (if depth q > ucast (max_depth afl) then afl\<lparr>max_depth := ucast (depth q)\<rparr> else afl);
          afl = (if queue_top afl \<noteq> None then afl\<lparr>queue_top := Some qi\<rparr>
                 else afl\<lparr>queue := Some qi, queue_top := Some qi\<rparr>);
          afl = (if len q > 4
                 then afl\<lparr>ready_for_splicing_count := ready_for_splicing_count afl + 1\<rparr> else afl)
      in afl\<lparr>queued_items := queued_items afl + 1, active_items := active_items afl + 1,
             pending_not_fuzzed := pending_not_fuzzed afl + 1, cycles_wo_finds := 0\<rparr>)"

definition note_find :: "u64 \<Rightarrow> 'a afl_queue_scheme \<Rightarrow> 'a afl_queue_scheme" where
  "note_find cur_time afl =
     afl\<lparr>longest_find_time := new_longest_find_time afl cur_time, last_find_time := cur_time\<rparr>"

definition notify_custom :: "qid \<Rightarrow> string \<Rightarrow> 'a afl_queue_scheme \<Rightarrow> 'a afl_queue_scheme result" where
  "notify_custom qi fn afl =
     (if custom_mutators_count afl = 0 then Inr afl
      else case queue_cur afl of
        None \<Rightarrow> Inr afl
      | Some cur \<Rightarrow>
          if syncing_party afl \<noteq> None then Inr afl
          else bind_result (get_q afl cur)
                 (\<lambda>c. run_afl_custom_queue_new_entry afl qi fn (fname c)))"

definition detect_text :: "qid \<Rightarrow> 'a afl_queue_scheme \<Rightarrow> 'a afl_queue_scheme result" where
  "detect_text qi afl =
     bind_result (get_q afl qi) (\<lambda>e.
     if cmplog_mode afl \<and> \<not> is_ascii e
     then bind_result (check_if_text afl e) (\<lambda>t. Inr (upd_q (\<lambda>e. e\<lparr>is_ascii := t \<noteq> 0\<rparr>) qi afl))
     else Inr afl)"

definition add_to_queue ::
  "'a afl_queue_scheme \<Rightarrow> string \<Rightarrow> u32 \<Rightarrow> bool \<Rightarrow> u64 \<Rightarrow> 'a afl_queue_scheme result" where
  "add_to_queue afl fn n det cur_time =
     (let qi = unat (queued_items afl + 1 - 1);
          q = new_queue_entry afl fn n det;
          afl = link_queue_entry qi q afl;
          q = q\<lparr>id_q := queued_items afl - 1\<rparr>
      in bind_result (store_at qi q (queue_buf afl)) (\<lambda>buf.
         bind_result (notify_custom qi fn (note_find cur_time (afl\<lparr>queue_buf := buf\<rparr>)))
           (detect_text qi)))"

definition destroy_queue :: "'a afl_queue_scheme \<Rightarrow> 'a afl_queue_scheme result" where
  "destroy_queue afl =
     (if length (queue_buf afl) < unat (queued_items afl) then Inl (Out_of_bounds ''queue_buf'')
      else Inr (afl\<lparr>queue_buf := drop (unat (queued_items afl)) (queue_buf afl)\<rparr>))"

section \<open>Favoured entries\<close>

definition next_pow2 :: "u64 \<Rightarrow> u64" where
  "next_pow2 n =
     (let out = n - 1;
          out = out OR drop_bit 1 out;
          out = out OR drop_bit 2 out;
          out = out OR drop_bit 4 out;
          out = out OR drop_bit 8 out;
          out = out OR drop_bit 16 out
      in out + 1)"

definition n_fuzz_of :: "'a afl_queue_scheme \<Rightarrow> queue_entry \<Rightarrow> u32 result" where
  "n_fuzz_of afl q = get_at ''n_fuzz'' (n_fuzz afl) (unat (n_fuzz_entry q))"

text \<open>The product of speed and size; \<open>q->len << 2\<close> is a 32-bit shift.\<close>

definition fav_factor :: "'a afl_queue_scheme \<Rightarrow> queue_entry \<Rightarrow> u64" where
  "fav_factor afl q =
     (if schedule afl \<ge> RARE \<or> fixed_seed afl then ucast (push_bit 2 (len q))
      else exec_us q * ucast (len q))"

definition own_fuzz_p2 :: "'a afl_queue_scheme \<Rightarrow> queue_entry \<Rightarrow> u64 result" where
  "own_fuzz_p2 afl q =
     (if schedule afl \<ge> FAST \<and> schedule afl < RARE then Inr 0
      else if schedule afl = RARE then bind_result (n_fuzz_of afl q) (\<lambda>n. Inr (next_pow2 (ucast n)))
      else Inr (ucast (fuzz_level q)))"

definition top_rated_fuzz_p2 :: "'a afl_queue_scheme \<Rightarrow> queue_entry \<Rightarrow> u64 result" where
  "top_rated_fuzz_p2 afl rated =
     (if schedule afl \<ge> FAST \<and> schedule afl \<le> RARE
      then bind_result (n_fuzz_of afl rated) (\<lambda>n. Inr (next_pow2 (ucast n)))
      else Inr (ucast (fuzz_level rated)))"

definition release_rated :: "qid \<Rightarrow> 'a afl_queue_scheme \<Rightarrow> 'a afl_queue_scheme" where
  "release_rated e afl =
     upd_q (\<lambda>t. let t = t\<lparr>tc_ref := tc_ref t - 1\<rparr>
                in if tc_ref t = 0 then t\<lparr>trace_mini := None\<rparr> else t) e afl"

definition claim_rated :: "qid \<Rightarrow> nat \<Rightarrow> 'a afl_queue_scheme \<Rightarrow> 'a afl_queue_scheme result" where
  "claim_rated q i afl =
     (let afl = upd_q (\<lambda>e. e\<lparr>tc_ref := tc_ref e + 1\<rparr>) q (afl\<lparr>top_rated := (top_rated afl)[i := Some q]\<rparr>)
      in bind_result (get_q afl q) (\<lambda>e.
         bind_result
           (case trace_mini e of
              Some tm \<Rightarrow> Inr afl
            | None \<Rightarrow> bind_result (minimize_bits afl (replicate (unat (drop_bit 3 (map_size afl))) 0)
                         (trace_bits afl))
                       (\<lambda>mini. Inr (upd_q (\<lambda>e. e\<lparr>trace_mini := Some mini\<rparr>) q afl))) (\<lambda>afl.
         Inr (afl\<lparr>score_changed := True\<rparr>))))"

definition beats_top ::
  "'a afl_queue_scheme \<Rightarrow> u64 \<Rightarrow> u64 \<Rightarrow> queue_entry \<Rightarrow> bool result" where
  "beats_top afl fuzz_p2 fav rated =
     bind_result (top_rated_fuzz_p2 afl rated) (\<lambda>top_fuzz_p2.
     let top_fav = fav_factor afl rated in
     if fuzz_p2 > top_fuzz_p2 then Inr False
     else if fuzz_p2 = top_fuzz_p2 \<and> fav > top_fav then Inr False
     else if fav > top_fav then Inr False
     else Inr True)"

definition update_bitmap_score_byte ::
  "qid \<Rightarrow> u64 \<Rightarrow> u64 \<Rightarrow> nat \<Rightarrow> 'a afl_queue_scheme \<Rightarrow> 'a afl_queue_scheme result" where
  "update_bitmap_score_byte q fuzz_p2 fav i afl =
     bind_result (get_at ''trace_bits'' (trace_bits afl) i) (\<lambda>b.
     if b = 0 then Inr afl
     else bind_result (get_at ''top_rated'' (top_rated afl) i) (\<lambda>rated.
       case rated of
         None \<Rightarrow> claim_rated q i afl
       | Some e \<Rightarrow>
           bind_result (get_q afl e) (\<lambda>t.
           bind_result (beats_top afl fuzz_p2 fav t) (\<lambda>win.
           if \<not> win then Inr afl else claim_rated q i (release_rated e afl)))))"

definition update_bitmap_score :: "'a afl_queue_scheme \<Rightarrow> qid \<Rightarrow> 'a afl_queue_scheme result" where
  "update_bitmap_score afl q =
     bind_result (get_q afl q) (\<lambda>e.
     bind_result (own_fuzz_p2 afl e) (\<lambda>fuzz_p2.
     for_each [0..<unat (map_size afl)] (update_bitmap_score_byte q fuzz_p2 (fav_factor afl e)) afl))"

definition clear_mini :: "nat \<Rightarrow> bytes \<Rightarrow> bytes \<Rightarrow> bytes" where
  "clear_mini n mini temp_v =
     map (\<lambda>j. if j < n \<and> mini ! j \<noteq> 0 then temp_v ! j AND NOT (mini ! j) else temp_v ! j)
       [0..<length temp_v]"

definition cull_byte :: "nat \<Rightarrow> 'a afl_queue_scheme \<Rightarrow> 'a afl_queue_scheme result" where
  "cull_byte i afl =
     bind_result (get_at ''top_rated'' (top_rated afl) i) (\<lambda>rated.
     case rated of
       None \<Rightarrow> Inr afl
     | Some e \<Rightarrow>
         bind_result (get_at ''temp_v'' (map_tmp_buf afl) (i div 8)) (\<lambda>v.
         if \<not> bit v (i mod 8) then Inr afl
         else
           let n = unat (drop_bit 3 (map_size afl)) in
           bind_result (get_q afl e) (\<lambda>t.
           case trace_mini t of
             None \<Rightarrow> Inl (Out_of_bounds ''trace_mini'')
           | Some mini \<Rightarrow>
               if length mini < n \<or> length (map_tmp_buf afl) < n then Inl (Out_of_bounds ''trace_mini'')
               else
                 let afl = afl\<lparr>map_tmp_buf := clear_mini n mini (map_tmp_buf afl)\<rparr> in
                 if favored t then Inr afl
                 else
                   let afl = upd_q (\<lambda>e. e\<lparr>favored := True\<rparr>) e afl;
                       afl = afl\<lparr>queued_favored := queued_favored afl + 1\<rparr>
                   in Inr (if was_fuzzed t then afl
                           else afl\<lparr>pending_favored := pending_favored afl + 1\<rparr>))))"

definition cull_mark :: "nat \<Rightarrow> 'a afl_queue_scheme \<Rightarrow> 'a afl_queue_scheme result" where
  "cull_mark i afl =
     bind_result (get_q afl i) (\<lambda>e.
     if disabled e then Inr afl else mark_as_redundant afl i (\<not> favored e))"

definition cull_queue :: "'a afl_queue_scheme \<Rightarrow> 'a afl_queue_scheme result" where
  "cull_queue afl =
     (if \<not> score_changed afl \<or> non_instrumented_mode afl then Inr afl
      else
        let n = unat (drop_bit 3 (map_size afl));
            afl = afl\<lparr>score_changed := False\<rparr>
        in if length (map_tmp_buf afl) < n then Inl (Out_of_bounds ''map_tmp_buf'')
        else
          let afl = afl\<lparr>map_tmp_buf := replicate n 255 @ drop n (map_tmp_buf afl),
                        queued_favored := 0, pending_favored := 0\<rparr>
          in bind_result
               (for_each [0..<unat (queued_items afl)]
                  (\<lambda>i afl. bind_result (get_q afl i) (\<lambda>_. Inr (upd_q (\<lambda>e. e\<lparr>favored := False\<rparr>) i afl))) afl)
               (\<lambda>afl. bind_result (for_each [0..<unat (map_size afl)] cull_byte afl)
               (\<lambda>afl. for_each [0..<unat (queued_items afl)] cull_mark afl)))"


section \<open>The reference counts of the rated entries\<close>

text \<open>
  The invariant behind \<open>top_rated\<close>: every slot points to an entry, the count of an entry is the number
  of slots it holds, and the minimised trace exists exactly while that count is not zero. The list of slots is a
  separate argument, so that the invariant can be stated between giving up a slot and taking it.
\<close>

definition rated_inv :: "qid option list \<Rightarrow> 'a afl_queue_scheme \<Rightarrow> bool" where
  "rated_inv tops afl \<longleftrightarrow>
     length tops = unat (map_size afl)
     \<and> (\<forall>e. Some e \<in> set tops \<longrightarrow> e < length (queue_buf afl))
     \<and> (\<forall>e < length (queue_buf afl).
          unat (tc_ref (queue_buf afl ! e)) = count_list tops (Some e)
          \<and> (trace_mini (queue_buf afl ! e) = None \<longleftrightarrow> tc_ref (queue_buf afl ! e) = 0)
          \<and> (\<forall>mini. trace_mini (queue_buf afl ! e) = Some mini
               \<longrightarrow> length mini = unat (drop_bit 3 (map_size afl))))"

abbreviation rated_wf :: "'a afl_queue_scheme \<Rightarrow> bool" where
  "rated_wf afl \<equiv> rated_inv (top_rated afl) afl"

lemma count_list_update:
  "i < length xs \<Longrightarrow> count_list (xs[i := x]) y + (if xs ! i = y then 1 else 0)
     = count_list xs y + (if x = y then 1 else 0)"
proof (induction xs arbitrary: i)
  case (Cons z zs)
  then show ?case by (cases i) (auto, force+)
qed simp

lemma count_list_pos: "i < length xs \<Longrightarrow> 0 < count_list xs (xs ! i)"
  by (metis count_list_0_iff nth_mem gr0I)

lemma count_list_less: "i < length xs \<Longrightarrow> xs ! i \<noteq> y \<Longrightarrow> count_list xs y < length xs"
  using count_list_update [of i xs y y] count_le_length [of "xs[i := y]" y] by simp

text \<open>Everything the rating step may not change: the entries apart from the two rating fields, and the
  rest of the state apart from the slots and the change flag.\<close>

definition strip_rating :: "queue_entry \<Rightarrow> queue_entry" where
  "strip_rating e = e\<lparr>tc_ref := 0, trace_mini := None\<rparr>"

definition unrated :: "'a afl_queue_scheme \<Rightarrow> 'a afl_queue_scheme" where
  "unrated afl = afl\<lparr>queue_buf := map strip_rating (queue_buf afl), top_rated := [], score_changed := False\<rparr>"

lemma strip_rating_simps [simp]:
  "strip_rating (e\<lparr>tc_ref := r\<rparr>) = strip_rating e" "strip_rating (e\<lparr>trace_mini := m\<rparr>) = strip_rating e"
  "len (strip_rating e) = len e" "exec_us (strip_rating e) = exec_us e"
  "fuzz_level (strip_rating e) = fuzz_level e" "n_fuzz_entry (strip_rating e) = n_fuzz_entry e"
  by (simp_all add: strip_rating_def)

lemma unrated_upd_q:
  "(\<And>e. strip_rating (f e) = strip_rating e) \<Longrightarrow> q < length (queue_buf afl) \<Longrightarrow>
     unrated (upd_q f q afl) = unrated afl"
  by (simp add: unrated_def upd_q_def map_update)
    (metis (no_types, lifting) list_update_id map_update)

lemma unrated_fields:
  assumes "unrated afl' = unrated afl"
  shows "trace_bits afl' = trace_bits afl" "map_size afl' = map_size afl" "schedule afl' = schedule afl"
    "fixed_seed afl' = fixed_seed afl" "n_fuzz afl' = n_fuzz afl"
    "length (queue_buf afl') = length (queue_buf afl)"
    "e < length (queue_buf afl) \<Longrightarrow> strip_rating (queue_buf afl' ! e) = strip_rating (queue_buf afl ! e)"
proof -
  have buf: "map strip_rating (queue_buf afl') = map strip_rating (queue_buf afl)"
    using arg_cong [OF assms, of queue_buf] by (simp add: unrated_def)
  show "trace_bits afl' = trace_bits afl" using arg_cong [OF assms, of trace_bits] by (simp add: unrated_def)
  show "map_size afl' = map_size afl" using arg_cong [OF assms, of map_size] by (simp add: unrated_def)
  show "schedule afl' = schedule afl" using arg_cong [OF assms, of schedule] by (simp add: unrated_def)
  show "fixed_seed afl' = fixed_seed afl" using arg_cong [OF assms, of fixed_seed] by (simp add: unrated_def)
  show "n_fuzz afl' = n_fuzz afl" using arg_cong [OF assms, of n_fuzz] by (simp add: unrated_def)
  show len: "length (queue_buf afl') = length (queue_buf afl)" using buf by (rule map_eq_imp_length_eq)
  show "e < length (queue_buf afl) \<Longrightarrow> strip_rating (queue_buf afl' ! e) = strip_rating (queue_buf afl ! e)"
    using buf len by (metis nth_map)
qed

lemma release_rated_unrated:
  "e < length (queue_buf afl) \<Longrightarrow> unrated (release_rated e afl) = unrated afl"
  unfolding release_rated_def by (rule unrated_upd_q) (simp_all add: Let_def)

lemma release_rated_fields [simp]:
  "top_rated (release_rated e afl) = top_rated afl" "map_size (release_rated e afl) = map_size afl"
  "trace_bits (release_rated e afl) = trace_bits afl"
  "length (queue_buf (release_rated e afl)) = length (queue_buf afl)"
  by (simp_all add: release_rated_def)

lemma release_rated_inv:
  assumes inv: "rated_inv tops afl" and i: "i < length tops" and top: "tops ! i = Some e"
  shows "rated_inv (tops[i := None]) (release_rated e afl)"
proof -
  have e: "e < length (queue_buf afl)" using inv nth_mem [OF i] top by (simp add: rated_inv_def)
  let ?t = "queue_buf afl ! e"
  have t: "unat (tc_ref ?t) = count_list tops (Some e)" using inv e by (simp add: rated_inv_def)
  then have pos: "tc_ref ?t \<noteq> 0" using count_list_pos [OF i] top by auto
  have minus: "unat (tc_ref ?t - 1) = count_list (tops[i := None]) (Some e)"
    using count_list_update [OF i, of None "Some e"] t top pos by (simp add: unat_minus_one)
  have other: "count_list (tops[i := None]) (Some d) = count_list tops (Some d)" if "d \<noteq> e" for d
    using count_list_update [OF i, of None "Some d"] top that by simp
  have "Some d \<in> set tops" if "Some d \<in> set (tops[i := None])" for d
    using that set_update_subset_insert [of tops i None] by auto
  then show ?thesis
    using inv e minus other pos
    by (auto simp: rated_inv_def release_rated_def nth_list_update Let_def)
qed

lemma claim_rated_spec:
  assumes inv: "rated_inv tops afl" and i: "i < length tops" and free: "tops ! i = None"
    and q: "q < length (queue_buf afl)" and bits: "length (trace_bits afl) = unat (map_size afl)"
    and div8: "8 dvd unat (map_size afl)"
  shows "\<exists>afl'. claim_rated q i afl = Inr afl' \<and> rated_inv (tops[i := Some q]) afl'
     \<and> unrated afl' = unrated afl \<and> top_rated afl' = (top_rated afl)[i := Some q]"
proof -
  let ?e = "queue_buf afl ! q" and ?tops = "tops[i := Some q]"
  let ?n = "unat (drop_bit 3 (map_size afl))"
  have e: "unat (tc_ref ?e) = count_list tops (Some q)"
    and mini: "trace_mini ?e = None \<longleftrightarrow> tc_ref ?e = 0"
    "\<And>m. trace_mini ?e = Some m \<Longrightarrow> length m = ?n"
    using inv q by (simp_all add: rated_inv_def)
  have "count_list tops (Some q) < 4294967295"
    using count_list_less [OF i, of "Some q"] free inv unat_u32_less [of "map_size afl"]
    by (simp add: rated_inv_def)
  then have plus: "unat (tc_ref ?e + 1) = count_list ?tops (Some q)"
    using count_list_update [OF i, of "Some q" "Some q"] free e
    by (subst unat_add_small) simp_all
  then have pos: "tc_ref ?e + 1 \<noteq> 0"
    using count_list_pos [of i ?tops] i by (metis length_list_update less_irrefl nth_list_update_eq unat_0)
  have other: "count_list ?tops (Some d) = count_list tops (Some d)" if "d \<noteq> q" for d
    using count_list_update [OF i, of "Some q" "Some d"] free that by simp
  have "Some d \<in> insert (Some q) (set tops)" if "Some d \<in> set ?tops" for d
    using that set_update_subset_insert [of tops i "Some q"] by blast
  then have idx: "d < length (queue_buf afl)" if "Some d \<in> set ?tops" for d
    using that inv q by (auto simp: rated_inv_def)
  have eight: "unat (map_size afl) = 8 * ?n"
    using div8 by (auto simp: drop_bit_eq_div unat_div elim!: dvdE)
  obtain m where m: "minimize_bits afl (replicate ?n 0) (trace_bits afl) = Inr m" "length m = ?n"
    using minimize_bits_loop_spec [of 0 "unat (map_size afl)" "trace_bits afl" "replicate ?n 0"] bits eight
    by (auto simp: minimize_bits_def)
  define afl1 where "afl1 = upd_q (\<lambda>e. e\<lparr>tc_ref := tc_ref e + 1\<rparr>) q (afl\<lparr>top_rated := (top_rated afl)[i := Some q]\<rparr>)"
  have afl1: "queue_buf afl1 = (queue_buf afl)[q := ?e\<lparr>tc_ref := tc_ref ?e + 1\<rparr>]" "map_size afl1 = map_size afl"
    "trace_bits afl1 = trace_bits afl" "top_rated afl1 = (top_rated afl)[i := Some q]"
    by (simp_all add: afl1_def)
  have un1: "unrated afl1 = unrated afl"
    unfolding afl1_def using q by (subst unrated_upd_q) (simp_all add: unrated_def)
  have mb: "minimize_bits afl1 = minimize_bits afl" by (simp add: minimize_bits_def afl1 fun_eq_iff)
  show ?thesis
  proof (cases "trace_mini ?e")
    case None
    let ?r = "(upd_q (\<lambda>e. e\<lparr>trace_mini := Some m\<rparr>) q afl1)\<lparr>score_changed := True\<rparr>"
    have "claim_rated q i afl = Inr ?r"
      using q m None unfolding claim_rated_def afl1_def [symmetric]
      by (simp add: Let_def get_q_def afl1 mb)
    moreover have "rated_inv ?tops ?r"
      using inv q plus pos other idx m(2)
      by (auto simp: rated_inv_def afl1 nth_list_update)
    moreover have "unrated ?r = unrated afl"
      using un1 unrated_upd_q [of "\<lambda>e. e\<lparr>trace_mini := Some m\<rparr>" q afl1] q
      by (simp add: unrated_def afl1)
    ultimately show ?thesis by (intro exI [of _ ?r]) (simp add: afl1)
  next
    case (Some m')
    let ?r = "afl1\<lparr>score_changed := True\<rparr>"
    have "claim_rated q i afl = Inr ?r"
      using q Some unfolding claim_rated_def afl1_def [symmetric]
      by (simp add: Let_def get_q_def afl1)
    moreover have "rated_inv ?tops ?r"
      using inv q plus pos other idx Some mini
      by (auto simp: rated_inv_def afl1 nth_list_update)
    moreover have "unrated ?r = unrated afl" using un1 by (simp add: unrated_def)
    ultimately show ?thesis by (intro exI [of _ ?r]) (simp add: afl1)
  qed
qed


text \<open>When the rating step can be run: the lookups it makes are all in range.\<close>

definition rating_ready :: "'a afl_queue_scheme \<Rightarrow> qid \<Rightarrow> bool" where
  "rating_ready afl q \<longleftrightarrow>
     rated_wf afl \<and> q < length (queue_buf afl)
     \<and> length (trace_bits afl) = unat (map_size afl) \<and> 8 dvd unat (map_size afl)
     \<and> (schedule afl \<ge> FAST \<and> schedule afl \<le> RARE \<longrightarrow>
          (\<forall>e \<in> set (queue_buf afl). unat (n_fuzz_entry e) < length (n_fuzz afl)))"

text \<open>The value the schedules compare, once the lookup is in range.\<close>

definition fuzz_p2_value :: "'a afl_queue_scheme \<Rightarrow> queue_entry \<Rightarrow> u64" where
  "fuzz_p2_value afl e =
     (if schedule afl \<ge> FAST \<and> schedule afl \<le> RARE
      then next_pow2 (ucast (n_fuzz afl ! unat (n_fuzz_entry e))) else ucast (fuzz_level e))"

definition own_p2_value :: "'a afl_queue_scheme \<Rightarrow> queue_entry \<Rightarrow> u64" where
  "own_p2_value afl e = (if schedule afl \<ge> FAST \<and> schedule afl < RARE then 0 else fuzz_p2_value afl e)"

lemma rating_lookups:
  assumes "rating_ready afl q" and "e \<in> set (queue_buf afl)"
  shows "top_rated_fuzz_p2 afl e = Inr (fuzz_p2_value afl e)"
    and "own_fuzz_p2 afl e = Inr (own_p2_value afl e)"
proof -
  have n: "n_fuzz_of afl e = Inr (n_fuzz afl ! unat (n_fuzz_entry e))"
    if "schedule afl \<ge> FAST \<and> schedule afl \<le> RARE"
    using assms that by (simp add: rating_ready_def n_fuzz_of_def get_at_def)
  show "top_rated_fuzz_p2 afl e = Inr (fuzz_p2_value afl e)"
    using n by (simp add: top_rated_fuzz_p2_def fuzz_p2_value_def)
  show "own_fuzz_p2 afl e = Inr (own_p2_value afl e)"
    using n by (cases "schedule afl")
      (simp_all add: own_fuzz_p2_def own_p2_value_def fuzz_p2_value_def schedule_order)
qed

lemma beats_top_eq:
  assumes "rating_ready afl q" and "e \<in> set (queue_buf afl)"
  shows "beats_top afl fuzz_p2 fav e = Inr (fuzz_p2 \<le> fuzz_p2_value afl e \<and> fav \<le> fav_factor afl e)"
  by (auto simp: beats_top_def rating_lookups(1) [OF assms] Let_def)

lemma strip_rating_cong:
  assumes "strip_rating d = strip_rating e"
  shows "len d = len e" "exec_us d = exec_us e" "fuzz_level d = fuzz_level e" "n_fuzz_entry d = n_fuzz_entry e"
  using strip_rating_simps(3-6) assms by metis+

lemma rating_frame:
  assumes "unrated afl' = unrated afl" and "e < length (queue_buf afl)"
  shows "fuzz_p2_value afl' (queue_buf afl' ! e) = fuzz_p2_value afl (queue_buf afl ! e)"
    and "fav_factor afl' (queue_buf afl' ! e) = fav_factor afl (queue_buf afl ! e)"
  using unrated_fields(1-5) [OF assms(1)] strip_rating_cong [OF unrated_fields(7) [OF assms]]
  by (simp_all add: fuzz_p2_value_def fav_factor_def)

lemma rating_ready_frame:
  assumes "rating_ready afl q" and "unrated afl' = unrated afl" and "rated_wf afl'"
  shows "rating_ready afl' q"
proof -
  note f = unrated_fields [OF assms(2)]
  have "unat (n_fuzz_entry e) < length (n_fuzz afl)"
    if "e \<in> set (queue_buf afl')" "schedule afl \<ge> FAST \<and> schedule afl \<le> RARE" for e
  proof -
    obtain k where k: "k < length (queue_buf afl)" "e = queue_buf afl' ! k"
      using \<open>e \<in> set (queue_buf afl')\<close> f(6) by (metis in_set_conv_nth)
    then have "n_fuzz_entry e = n_fuzz_entry (queue_buf afl ! k)"
      using strip_rating_cong(4) [OF f(7) [OF k(1)]] by simp
    then show ?thesis
      using that(2) assms(1) k(1) by (simp add: rating_ready_def)
  qed
  then have "schedule afl' \<ge> FAST \<and> schedule afl' \<le> RARE \<longrightarrow>
      (\<forall>e \<in> set (queue_buf afl'). unat (n_fuzz_entry e) < length (n_fuzz afl'))"
    unfolding f(3) f(5) by blast
  moreover have "q < length (queue_buf afl')" "length (trace_bits afl') = unat (map_size afl')"
    "8 dvd unat (map_size afl')"
    unfolding f(1) f(2) f(6) using assms(1) by (simp_all add: rating_ready_def)
  ultimately show ?thesis using assms(3) unfolding rating_ready_def by blast
qed

text \<open>Who holds a slot after the step.\<close>

definition new_top :: "'a afl_queue_scheme \<Rightarrow> qid \<Rightarrow> u64 \<Rightarrow> u64 \<Rightarrow> nat \<Rightarrow> qid option" where
  "new_top afl q fuzz_p2 fav i =
     (if trace_bits afl ! i = 0 then top_rated afl ! i
      else case top_rated afl ! i of
        None \<Rightarrow> Some q
      | Some e \<Rightarrow> if fuzz_p2 \<le> fuzz_p2_value afl (queue_buf afl ! e)
                    \<and> fav \<le> fav_factor afl (queue_buf afl ! e) then Some q else Some e)"

lemma update_bitmap_score_byte_spec:
  assumes ready: "rating_ready afl q" and i: "i < unat (map_size afl)"
  shows "\<exists>afl'. update_bitmap_score_byte q fuzz_p2 fav i afl = Inr afl' \<and> rated_wf afl'
    \<and> unrated afl' = unrated afl \<and> top_rated afl' = (top_rated afl)[i := new_top afl q fuzz_p2 fav i]"
proof -
  note r = ready [unfolded rating_ready_def]
  have it: "i < length (top_rated afl)" and ib: "i < length (trace_bits afl)"
    using r i by (simp_all add: rated_inv_def)
  show ?thesis
  proof (cases "trace_bits afl ! i = 0")
    case True
    then show ?thesis
      using r ib by (simp add: update_bitmap_score_byte_def get_at_def new_top_def)
  next
    case False
    show ?thesis
    proof (cases "top_rated afl ! i")
      case None
      then show ?thesis
        using r False it ib claim_rated_spec [of "top_rated afl" afl i q]
        by (auto simp: update_bitmap_score_byte_def get_at_def new_top_def)
    next
      case (Some e)
      have e: "e < length (queue_buf afl)" using r nth_mem [OF it] Some by (simp add: rated_inv_def)
      then have beats: "beats_top afl fuzz_p2 fav (queue_buf afl ! e) =
          Inr (fuzz_p2 \<le> fuzz_p2_value afl (queue_buf afl ! e) \<and> fav \<le> fav_factor afl (queue_buf afl ! e))"
        using beats_top_eq [OF ready] by simp
      have inv: "rated_inv ((top_rated afl)[i := None]) (release_rated e afl)"
        using r release_rated_inv [OF _ it Some] by blast
      have "\<exists>afl'. claim_rated q i (release_rated e afl) = Inr afl' \<and> rated_inv ((top_rated afl)[i := Some q]) afl'
          \<and> unrated afl' = unrated afl \<and> top_rated afl' = (top_rated afl)[i := Some q]"
        using claim_rated_spec [OF inv, of i q] r it release_rated_unrated [OF e] by simp
      moreover have "(top_rated afl)[i := Some e] = top_rated afl" using Some by (metis list_update_id)
      ultimately show ?thesis
        using False it ib Some e r beats
        by (auto simp: update_bitmap_score_byte_def get_at_def get_q_def new_top_def)
    qed
  qed
qed

lemma update_bitmap_score_spec:
  assumes ready: "rating_ready afl q"
  defines "e \<equiv> queue_buf afl ! q"
  shows "\<exists>afl'. update_bitmap_score afl q = Inr afl' \<and> rated_wf afl' \<and> unrated afl' = unrated afl
    \<and> (\<forall>i < unat (map_size afl). top_rated afl' ! i = new_top afl q (own_p2_value afl e) (fav_factor afl e) i)"
proof -
  let ?p2 = "own_p2_value afl e" and ?fav = "fav_factor afl e"
  define P where "P k s \<longleftrightarrow> rated_wf s \<and> unrated s = unrated afl \<and> (\<forall>i < unat (map_size afl).
      top_rated s ! i = (if i < k then new_top afl q ?p2 ?fav i else top_rated afl ! i))" for k s
  have q: "q < length (queue_buf afl)" and e: "e \<in> set (queue_buf afl)"
    using ready by (simp_all add: rating_ready_def e_def)
  have "P 0 afl" using ready by (simp add: P_def rating_ready_def)
  moreover have "\<exists>t'. update_bitmap_score_byte q ?p2 ?fav ([0..<unat (map_size afl)] ! k) t = Inr t' \<and> P (Suc k) t'"
    if k: "k < length [0..<unat (map_size afl)]" and P: "P k t" for k t
  proof -
    have k': "k < unat (map_size afl)" using k by simp
    have un: "unrated t = unrated afl" and wf: "rated_wf t" using P by (simp_all add: P_def)
    note f = unrated_fields [OF un]
    have top: "top_rated t ! k = top_rated afl ! k" using P k' by (simp add: P_def)
    have "new_top t q ?p2 ?fav k = new_top afl q ?p2 ?fav k"
    proof (cases "top_rated afl ! k")
      case (Some d)
      have "d < length (queue_buf t)"
        using wf k' f(2) top Some nth_mem [of k "top_rated t"] by (simp add: rated_inv_def)
      then show ?thesis
        using Some rating_frame [OF un, of d] f by (simp add: new_top_def top)
    qed (simp add: new_top_def top f)
    moreover have "length (top_rated t) = unat (map_size afl)" using wf f(2) by (simp add: rated_inv_def)
    ultimately show ?thesis
      using update_bitmap_score_byte_spec [OF rating_ready_frame [OF ready un wf], of k ?p2 ?fav] k' P f(2) un
      by (auto simp: P_def nth_list_update less_Suc_eq)
  qed
  ultimately obtain s' where "for_each [0..<unat (map_size afl)] (update_bitmap_score_byte q ?p2 ?fav) afl = Inr s'"
    "P (unat (map_size afl)) s'"
    using for_each_total [of P afl "[0..<unat (map_size afl)]" "update_bitmap_score_byte q ?p2 ?fav"] by auto
  then show ?thesis
    using q rating_lookups(2) [OF ready e]
    by (auto simp: update_bitmap_score_def get_q_def P_def simp flip: e_def)
qed


section \<open>Culling\<close>

definition clear_fav :: "queue_entry \<Rightarrow> queue_entry" where
  "clear_fav e = e\<lparr>favored := False\<rparr>"

lemma clear_fav_simps [simp]:
  "clear_fav (e\<lparr>favored := b\<rparr>) = clear_fav e" "\<not> favored (clear_fav e)"
  "trace_mini (clear_fav e) = trace_mini e" "was_fuzzed (clear_fav e) = was_fuzzed e"
  "disabled (clear_fav e) = disabled e" "clear_fav (clear_fav e) = clear_fav e"
  by (simp_all add: clear_fav_def)

definition unfav :: "'a afl_queue_scheme \<Rightarrow> 'a afl_queue_scheme" where
  "unfav afl = afl\<lparr>queue_buf := map clear_fav (queue_buf afl), map_tmp_buf := [], queued_favored := 0,
     pending_favored := 0\<rparr>"

lemma unfav_fields:
  assumes "unfav s = unfav s0"
  shows "top_rated s = top_rated s0" "map_size s = map_size s0" "queued_items s = queued_items s0"
    "length (queue_buf s) = length (queue_buf s0)"
    "e < length (queue_buf s0) \<Longrightarrow> clear_fav (queue_buf s ! e) = clear_fav (queue_buf s0 ! e)"
proof -
  have buf: "map clear_fav (queue_buf s) = map clear_fav (queue_buf s0)"
    using arg_cong [OF assms, of queue_buf] by (simp add: unfav_def)
  show "top_rated s = top_rated s0" using arg_cong [OF assms, of top_rated] by (simp add: unfav_def)
  show "map_size s = map_size s0" using arg_cong [OF assms, of map_size] by (simp add: unfav_def)
  show "queued_items s = queued_items s0" using arg_cong [OF assms, of queued_items] by (simp add: unfav_def)
  show len: "length (queue_buf s) = length (queue_buf s0)" using buf by (rule map_eq_imp_length_eq)
  show "e < length (queue_buf s0) \<Longrightarrow> clear_fav (queue_buf s ! e) = clear_fav (queue_buf s0 ! e)"
    using buf len by (metis nth_map)
qed

lemma map_prefix_step:
  assumes "k < length xs"
  shows "(map f (take k xs) @ drop k xs)[k := f (xs ! k)] = map f (take (Suc k) xs) @ drop (Suc k) xs"
    and "(map f (take k xs) @ drop k xs) ! k = xs ! k"
proof -
  have "drop k xs = xs ! k # drop (Suc k) xs" using assms by (rule Cons_nth_drop_Suc [symmetric])
  then show "(map f (take k xs) @ drop k xs)[k := f (xs ! k)] = map f (take (Suc k) xs) @ drop (Suc k) xs"
    and "(map f (take k xs) @ drop k xs) ! k = xs ! k"
    using assms by (simp_all add: list_update_append nth_append take_Suc_conv_app_nth)
qed

lemma clear_all_favored:
  assumes "n = length (queue_buf afl)"
  shows "for_each [0..<n]
     (\<lambda>i afl. bind_result (get_q afl i) (\<lambda>_. Inr (upd_q (\<lambda>e. e\<lparr>favored := False\<rparr>) i afl))) afl
   = Inr (afl\<lparr>queue_buf := map clear_fav (queue_buf afl)\<rparr>)" (is "for_each _ ?f afl = _")
proof -
  define P where "P k s \<longleftrightarrow> s = afl\<lparr>queue_buf := map clear_fav (take k (queue_buf afl)) @ drop k (queue_buf afl)\<rparr>"
    for k s
  have "P 0 afl" by (simp add: P_def)
  moreover have "\<exists>t'. ?f ([0..<n] ! k) t = Inr t' \<and> P (Suc k) t'" if "k < length [0..<n]" "P k t" for k t
  proof -
    have k: "k < length (queue_buf afl)" using that(1) assms by simp
    let ?b = "map clear_fav (take k (queue_buf afl)) @ drop k (queue_buf afl)"
    have t: "t = afl\<lparr>queue_buf := ?b\<rparr>" using that(2) by (simp only: P_def)
    have "length ?b = length (queue_buf afl)" using k by simp
    with k have "?f k t = Inr (afl\<lparr>queue_buf := ?b[k := clear_fav (?b ! k)]\<rparr>)"
      unfolding t by (simp add: get_q_def upd_q_def clear_fav_def)
    then have "?f k t = Inr (afl\<lparr>queue_buf := map clear_fav (take (Suc k) (queue_buf afl)) @ drop (Suc k) (queue_buf afl)\<rparr>)"
      by (simp only: map_prefix_step [OF k])
    moreover have "[0..<n] ! k = k" using that(1) by simp
    ultimately show ?thesis unfolding P_def by metis
  qed
  ultimately obtain s' where run: "for_each [0..<n] ?f afl = Inr s'" and fin: "P (length [0..<n]) s'"
    using for_each_total [of P afl "[0..<n]" ?f] by blast
  from fin have "s' = afl\<lparr>queue_buf := map clear_fav (queue_buf afl)\<rparr>"
    unfolding P_def assms by simp
  with run show ?thesis by (simp only:)
qed

text \<open>A map byte is served once some favoured entry's minimised trace contains it.\<close>

definition mini_hits :: "queue_entry \<Rightarrow> nat \<Rightarrow> bool" where
  "mini_hits e i \<longleftrightarrow> (\<exists>mini. trace_mini e = Some mini \<and> bit (mini ! (i div 8)) (i mod 8))"

definition served :: "'a afl_queue_scheme \<Rightarrow> nat \<Rightarrow> bool" where
  "served afl i \<longleftrightarrow> (\<exists>e \<in> set (queue_buf afl). favored e \<and> mini_hits e i)"

lemma length_filter_update:
  "i < length xs \<Longrightarrow> \<not> P (xs ! i) \<Longrightarrow>
     length (filter P (xs[i := y])) = length (filter P xs) + (if P y then 1 else 0)"
proof (induction xs arbitrary: i)
  case (Cons x xs)
  then show ?case by (cases i) auto
qed simp

lemma bit_clear_mini:
  assumes "length temp_v \<ge> n" and "i div 8 < n"
  shows "bit (clear_mini n mini temp_v ! (i div 8)) (i mod 8) \<longleftrightarrow>
    bit (temp_v ! (i div 8)) (i mod 8) \<and> \<not> bit (mini ! (i div 8)) (i mod 8)"
  using assms by (auto simp: clear_mini_def bit_simps)

text \<open>The invariant of the culling loop after \<open>k\<close> map bytes, starting from the state \<open>s0\<close>.\<close>

definition cull_inv :: "'a afl_queue_scheme \<Rightarrow> nat \<Rightarrow> 'a afl_queue_scheme \<Rightarrow> bool" where
  "cull_inv s0 k s \<longleftrightarrow>
     unfav s = unfav s0 \<and> length (map_tmp_buf s) = length (map_tmp_buf s0)
     \<and> (\<forall>i < unat (map_size s0). \<not> bit (map_tmp_buf s ! (i div 8)) (i mod 8) \<longrightarrow> served s i)
     \<and> (\<forall>i < k. \<forall>e. top_rated s0 ! i = Some e \<longrightarrow> favored (queue_buf s ! e) \<or> served s i)
     \<and> (\<forall>d < length (queue_buf s0). favored (queue_buf s ! d) \<longrightarrow> Some d \<in> set (top_rated s0))
     \<and> queued_favored s = of_nat (length (filter favored (queue_buf s)))
     \<and> pending_favored s = of_nat (length (filter (\<lambda>e. favored e \<and> \<not> was_fuzzed e) (queue_buf s)))"

text \<open>What the loop needs: the ratings are well-formed and the buffers have the sizes of the map.\<close>

definition cull_ready :: "'a afl_queue_scheme \<Rightarrow> bool" where
  "cull_ready s0 \<longleftrightarrow> rated_wf s0 \<and> 8 dvd unat (map_size s0)
     \<and> unat (drop_bit 3 (map_size s0)) \<le> length (map_tmp_buf s0)"

lemma served_mono:
  assumes "served s i" and "e < length (queue_buf s)"
    and "s' = s\<lparr>queue_buf := (queue_buf s)[e := (queue_buf s ! e)\<lparr>favored := True\<rparr>], map_tmp_buf := b,
            queued_favored := x, pending_favored := y\<rparr>"
  shows "served s' i"
proof -
  obtain k where k: "k < length (queue_buf s)" "favored (queue_buf s ! k)" "mini_hits (queue_buf s ! k) i"
    using assms(1) by (auto simp: served_def in_set_conv_nth)
  have "favored (queue_buf s' ! k) \<and> mini_hits (queue_buf s' ! k) i \<and> k < length (queue_buf s')"
    using k assms(2,3) by (cases "k = e") (simp_all add: mini_hits_def)
  then show ?thesis unfolding served_def by (metis nth_mem)
qed

lemma cull_byte_step:
  assumes ready: "cull_ready s0" and inv: "cull_inv s0 k s" and k: "k < unat (map_size s0)"
  shows "\<exists>s'. cull_byte k s = Inr s' \<and> cull_inv s0 (Suc k) s'"
proof -
  let ?n = "unat (drop_bit 3 (map_size s0))"
  have un: "unfav s = unfav s0" and lenv: "length (map_tmp_buf s) = length (map_tmp_buf s0)"
    using inv by (simp_all add: cull_inv_def)
  note f = unfav_fields [OF un]
  have wf: "rated_wf s0" and eight: "unat (map_size s0) = 8 * ?n" and nv: "?n \<le> length (map_tmp_buf s)"
    using ready lenv by (auto simp: cull_ready_def drop_bit_eq_div unat_div elim!: dvdE)
  have kt: "k < length (top_rated s)" and kn: "k div 8 < ?n" and kv: "k div 8 < length (map_tmp_buf s)"
    using wf k eight f(1) nv by (simp_all add: rated_inv_def less_mult_imp_div_less)
  show ?thesis
  proof (cases "top_rated s0 ! k")
    case None
    then have "cull_byte k s = Inr s" using kt f(1) by (simp add: cull_byte_def get_at_def)
    moreover have "cull_inv s0 (Suc k) s" using inv None by (auto simp: cull_inv_def less_Suc_eq)
    ultimately show ?thesis by blast
  next
    case (Some e)
    have in_tops: "Some e \<in> set (top_rated s0)" using nth_mem [of k "top_rated s0"] kt f(1) Some by simp
    have e0: "e < length (queue_buf s0)" using wf in_tops by (simp add: rated_inv_def)
    then have e: "e < length (queue_buf s)" using f(4) by simp
    have ce: "clear_fav (queue_buf s ! e) = clear_fav (queue_buf s0 ! e)" using f(5) e0 by simp
    then have same: "trace_mini (queue_buf s ! e) = trace_mini (queue_buf s0 ! e)"
      by (metis clear_fav_simps(3))
    show ?thesis
    proof (cases "bit (map_tmp_buf s ! (k div 8)) (k mod 8)")
      case False
      then have "cull_byte k s = Inr s" using kt kv f(1) Some by (simp add: cull_byte_def get_at_def)
      moreover have "served s k" using inv False k by (simp add: cull_inv_def)
      then have "cull_inv s0 (Suc k) s" using inv by (auto simp: cull_inv_def less_Suc_eq)
      ultimately show ?thesis by blast
    next
      case True
      have "0 < count_list (top_rated s0) (Some e)"
        using in_tops by (metis count_list_0_iff gr0I)
      then have "tc_ref (queue_buf s0 ! e) \<noteq> 0" using wf e0 by (auto simp: rated_inv_def)
      then obtain mini where mini: "trace_mini (queue_buf s0 ! e) = Some mini" "length mini = ?n"
        using wf e0 by (auto simp: rated_inv_def)
      let ?v = "clear_mini ?n mini (map_tmp_buf s)"
      let ?e = "queue_buf s ! e"
      define s' where "s' = s\<lparr>queue_buf := (queue_buf s)[e := ?e\<lparr>favored := True\<rparr>], map_tmp_buf := ?v,
          queued_favored := queued_favored s + (if favored ?e then 0 else 1),
          pending_favored := pending_favored s + (if favored ?e \<or> was_fuzzed ?e then 0 else 1)\<rparr>"
      have idem: "(queue_buf s)[e := ?e] = queue_buf s" and fav_idem: "favored ?e \<Longrightarrow> ?e\<lparr>favored := True\<rparr> = ?e"
        by simp_all
      have s': "queue_buf s' = (queue_buf s)[e := ?e\<lparr>favored := True\<rparr>]" "map_tmp_buf s' = ?v"
        "queued_favored s' = queued_favored s + (if favored ?e then 0 else 1)"
        "pending_favored s' = pending_favored s + (if favored ?e \<or> was_fuzzed ?e then 0 else 1)"
        by (simp_all add: s'_def)
      have same': "s\<lparr>map_tmp_buf := ?v\<rparr> = s'" if "favored ?e"
        unfolding s'_def fav_idem [OF that] idem using that by simp
      have step: "cull_byte k s = Inr s'"
      proof (cases "favored ?e")
        case fav: True
        then have "cull_byte k s = Inr (s\<lparr>map_tmp_buf := ?v\<rparr>)"
          using True kt kv f(1,2) Some e mini same nv
          by (simp add: cull_byte_def get_at_def get_q_def Let_def)
        then show ?thesis unfolding same' [OF fav] .
      next
        case False
        then show ?thesis
          using True kt kv f(1,2) Some e mini same nv
          by (simp add: cull_byte_def get_at_def get_q_def upd_q_def Let_def s'_def)
      qed
      have lv: "length (map_tmp_buf s') = length (map_tmp_buf s0)"
        using lenv by (simp add: s' clear_mini_def)
      have hit_e: "served s' i" if "bit (mini ! (i div 8)) (i mod 8)" for i
      proof -
        have "mini_hits (?e\<lparr>favored := True\<rparr>) i" using that mini same by (simp add: mini_hits_def)
        then show ?thesis unfolding served_def using e
          by (intro bexI [of _ "?e\<lparr>favored := True\<rparr>"]) (simp_all add: set_update_memI s')
      qed
      have mono: "served s' i" if "served s i" for i
        by (rule served_mono [OF that e s'_def])
      have cnt: "length (filter P (queue_buf s')) = length (filter P (queue_buf s))
          + (if favored ?e then 0 else if P (?e\<lparr>favored := True\<rparr>) then 1 else 0)"
        if "\<And>x. P x \<Longrightarrow> favored x" for P
      proof (cases "favored ?e")
        case fav: True
        show ?thesis unfolding s'(1) fav_idem [OF fav] idem using fav by simp
      next
        case False
        then have "\<not> P ?e" using that by blast
        then show ?thesis
          using False length_filter_update [OF e, of P "?e\<lparr>favored := True\<rparr>"] by (simp add: s'(1))
      qed
      have "unfav s' = unfav s0"
        using un by (simp add: unfav_def s'_def map_update) (metis list_update_id map_update nth_map e)
      moreover have "served s' i" if i: "i < unat (map_size s0)" and "\<not> bit (map_tmp_buf s' ! (i div 8)) (i mod 8)" for i
      proof -
        have "i div 8 < ?n" using i eight by (simp add: less_mult_imp_div_less)
        with that(2) have "\<not> bit (map_tmp_buf s ! (i div 8)) (i mod 8) \<or> bit (mini ! (i div 8)) (i mod 8)"
          using bit_clear_mini nv unfolding s' by blast
        then show ?thesis using inv i mono hit_e by (auto simp: cull_inv_def)
      qed
      moreover have "favored (queue_buf s' ! d) \<or> served s' i"
        if "i < Suc k" "top_rated s0 ! i = Some d" for i d
      proof (cases "i = k")
        case True
        then show ?thesis using that Some e by (simp add: s')
      next
        case False
        then have "favored (queue_buf s ! d) \<or> served s i" using inv that by (simp add: cull_inv_def)
        then show ?thesis using mono e by (cases "d = e") (auto simp: s')
      qed
      moreover have "Some d \<in> set (top_rated s0)"
        if "d < length (queue_buf s0)" "favored (queue_buf s' ! d)" for d
        using that inv in_tops e by (cases "d = e") (simp_all add: cull_inv_def s')
      moreover have "queued_favored s' = of_nat (length (filter favored (queue_buf s')))"
        using inv cnt [of favored] by (simp add: cull_inv_def s'(3))
      moreover have "pending_favored s' = of_nat (length (filter (\<lambda>e. favored e \<and> \<not> was_fuzzed e) (queue_buf s')))"
        using inv cnt [of "\<lambda>e. favored e \<and> \<not> was_fuzzed e"] by (simp add: cull_inv_def s'(4))
      ultimately have "cull_inv s0 (Suc k) s'"
        using lv unfolding cull_inv_def by blast
      with step show ?thesis by blast
    qed
  qed
qed


text \<open>The marking round of \<open>cull_queue\<close> writes only the redundancy flags and the state files.\<close>

definition unmarked :: "'a afl_queue_scheme \<Rightarrow> 'a afl_queue_scheme" where
  "unmarked afl = afl\<lparr>queue_buf := map (\<lambda>e. e\<lparr>fs_redundant := False\<rparr>) (queue_buf afl), fs := Map.empty\<rparr>"

definition mark_errors :: "afl_error set" where
  "mark_errors = {Fatal ''Unable to create'', Fatal ''Unable to remove'', Out_of_bounds ''strrchr'',
     Out_of_bounds ''sprintf''}"

lemma mark_as_redundant_cases:
  assumes "q < length (queue_buf afl)"
  shows "(\<exists>files. mark_as_redundant afl q b =
            Inr ((upd_q (\<lambda>e. e\<lparr>fs_redundant := b\<rparr>) q afl)\<lparr>fs := files\<rparr>))
         \<or> (\<exists>err \<in> mark_errors. mark_as_redundant afl q b = Inl err)"
proof (cases "b = fs_redundant (queue_buf afl ! q)")
  case True
  let ?e = "queue_buf afl ! q"
  have "?e\<lparr>fs_redundant := b\<rparr> = ?e" using True by simp
  then have "upd_q (\<lambda>e. e\<lparr>fs_redundant := b\<rparr>) q afl = afl\<lparr>queue_buf := queue_buf afl\<rparr>"
    unfolding upd_q_def by (simp only: list_update_id)
  then have "(upd_q (\<lambda>e. e\<lparr>fs_redundant := b\<rparr>) q afl)\<lparr>fs := fs afl\<rparr> = afl" by simp
  then show ?thesis using assms True by (auto simp: mark_as_redundant_def get_q_def intro: exI [of _ "fs afl"])
next
  case False
  then show ?thesis
    using assms
    by (cases b)
      (auto simp: mark_as_redundant_def get_q_def bind_result_def basename_def sprintf_path_def creat_excl_def
        unlink_file_def mark_errors_def Let_def upd_q_def)
qed

lemma unmarked_fields:
  assumes "unmarked s = unmarked s0"
  shows "length (queue_buf s) = length (queue_buf s0)"
    "e < length (queue_buf s0) \<Longrightarrow>
       (queue_buf s ! e)\<lparr>fs_redundant := False\<rparr> = (queue_buf s0 ! e)\<lparr>fs_redundant := False\<rparr>"
proof -
  have buf: "map (\<lambda>e. e\<lparr>fs_redundant := False\<rparr>) (queue_buf s)
      = map (\<lambda>e. e\<lparr>fs_redundant := False\<rparr>) (queue_buf s0)"
    using arg_cong [OF assms, of queue_buf] by (simp add: unmarked_def)
  show len: "length (queue_buf s) = length (queue_buf s0)" using buf by (rule map_eq_imp_length_eq)
  show "e < length (queue_buf s0) \<Longrightarrow>
       (queue_buf s ! e)\<lparr>fs_redundant := False\<rparr> = (queue_buf s0 ! e)\<lparr>fs_redundant := False\<rparr>"
    using buf len by (metis (no_types, lifting) nth_map)
qed

lemma unmarked_upd:
  assumes "q < length (queue_buf afl)"
  shows "unmarked ((upd_q (\<lambda>e. e\<lparr>fs_redundant := b\<rparr>) q afl)\<lparr>fs := files\<rparr>) = unmarked afl"
proof -
  let ?f = "\<lambda>e. e\<lparr>fs_redundant := False\<rparr> :: queue_entry"
  have "map ?f ((queue_buf afl)[q := (queue_buf afl ! q)\<lparr>fs_redundant := b\<rparr>]) = map ?f (queue_buf afl)"
    using assms by (simp add: map_update) (metis (no_types, lifting) list_update_id map_update)
  then show ?thesis by (simp add: unmarked_def upd_q_def)
qed

lemma cull_mark_all:
  assumes "n = length (queue_buf s0)"
  shows "case for_each [0..<n] cull_mark s0 of
      Inl err \<Rightarrow> err \<in> mark_errors
    | Inr s \<Rightarrow> unmarked s = unmarked s0 \<and>
        (\<forall>e < n. \<not> disabled (queue_buf s ! e) \<longrightarrow> fs_redundant (queue_buf s ! e) = (\<not> favored (queue_buf s ! e)))"
proof -
  define P where "P k s \<longleftrightarrow> unmarked s = unmarked s0 \<and>
      (\<forall>e < k. \<not> disabled (queue_buf s ! e) \<longrightarrow> fs_redundant (queue_buf s ! e) = (\<not> favored (queue_buf s ! e)))"
    for k s
  have step: "(case cull_mark k s of Inl err \<Rightarrow> err \<in> mark_errors | Inr s' \<Rightarrow> P (Suc k) s')"
    if P: "P k s" and k: "k < n" for k s
  proof -
    have kq: "k < length (queue_buf s)" using P k assms unmarked_fields(1) [of s s0] by (simp add: P_def)
    show ?thesis
    proof (cases "disabled (queue_buf s ! k)")
      case True
      then show ?thesis using P kq by (auto simp: cull_mark_def get_q_def P_def less_Suc_eq)
    next
      case False
      then have run: "cull_mark k s = mark_as_redundant s k (\<not> favored (queue_buf s ! k))"
        using kq by (simp add: cull_mark_def get_q_def)
      from mark_as_redundant_cases [OF kq, of "\<not> favored (queue_buf s ! k)"] show ?thesis
      proof
        assume "\<exists>files. mark_as_redundant s k (\<not> favored (queue_buf s ! k)) =
          Inr ((upd_q (\<lambda>e. e\<lparr>fs_redundant := \<not> favored (queue_buf s ! k)\<rparr>) k s)\<lparr>fs := files\<rparr>)"
        then obtain files where f: "cull_mark k s =
          Inr ((upd_q (\<lambda>e. e\<lparr>fs_redundant := \<not> favored (queue_buf s ! k)\<rparr>) k s)\<lparr>fs := files\<rparr>)"
          unfolding run by blast
        show ?thesis
          unfolding f using P unmarked_upd [OF kq, where files = files] kq
          by (auto simp: P_def nth_list_update less_Suc_eq)
      qed (auto simp: run)
    qed
  qed
  have "case for_each (map (\<lambda>j. j) [k..<n]) cull_mark s of Inl err \<Rightarrow> err \<in> mark_errors | Inr s' \<Rightarrow> P n s'"
    if "P k s" "k \<le> n" for k s
    using that
  proof (induction "n - k" arbitrary: k s)
    case 0
    then show ?case by simp
  next
    case (Suc d)
    then have k: "k < n" by simp
    then have "[k..<n] = k # [Suc k..<n]" by (rule upt_conv_Cons)
    then show ?case
      using step [OF Suc.prems(1) k] Suc.hyps(1) [of "Suc k"] Suc.hyps(2) k
      by (cases "cull_mark k s") simp_all
  qed
  from this [of 0 s0] show ?thesis by (auto simp: P_def split: sum.splits)
qed


text \<open>The state in which the loop over the map starts.\<close>

definition cull_start :: "'a afl_queue_scheme \<Rightarrow> 'a afl_queue_scheme" where
  "cull_start afl = afl\<lparr>score_changed := False,
     map_tmp_buf := replicate (unat (drop_bit 3 (map_size afl))) 255
       @ drop (unat (drop_bit 3 (map_size afl))) (map_tmp_buf afl),
     queued_favored := 0, pending_favored := 0, queue_buf := map clear_fav (queue_buf afl)\<rparr>"

lemma cull_queue_spec:
  assumes ready: "cull_ready afl" and items: "unat (queued_items afl) = length (queue_buf afl)"
    and go: "score_changed afl" "\<not> non_instrumented_mode afl"
  shows "case cull_queue afl of
      Inl err \<Rightarrow> err \<in> mark_errors
    | Inr afl' \<Rightarrow> \<exists>s. cull_inv (cull_start afl) (unat (map_size afl)) s \<and> unmarked afl' = unmarked s
        \<and> (\<forall>e < length (queue_buf afl). \<not> disabled (queue_buf afl' ! e) \<longrightarrow>
             fs_redundant (queue_buf afl' ! e) = (\<not> favored (queue_buf afl' ! e)))"
proof -
  let ?n = "unat (drop_bit 3 (map_size afl))"
  let ?a = "afl\<lparr>score_changed := False, map_tmp_buf := replicate ?n 255 @ drop ?n (map_tmp_buf afl),
      queued_favored := 0, pending_favored := 0\<rparr>"
  define s0 where s0: "s0 = cull_start afl"
  have s0_def: "s0 = ?a\<lparr>queue_buf := map clear_fav (queue_buf afl)\<rparr>"
    unfolding s0 cull_start_def ..
  have buf: "?n \<le> length (map_tmp_buf afl)" and wf: "rated_wf afl" and dvd: "8 dvd unat (map_size afl)"
    using ready by (simp_all add: cull_ready_def)
  have eight: "unat (map_size afl) = 8 * ?n"
    using dvd by (auto simp: drop_bit_eq_div unat_div elim!: dvdE)
  have "rated_wf s0" using wf by (simp add: s0_def rated_inv_def clear_fav_def)
  then have ready0: "cull_ready s0" using buf dvd by (simp add: cull_ready_def s0_def)
  have one: "for_each [0..<unat (queued_items afl)] (\<lambda>i afl. bind_result (get_q afl i)
      (\<lambda>_. Inr (upd_q (\<lambda>e. e\<lparr>favored := False\<rparr>) i afl))) ?a = Inr s0"
    using clear_all_favored [of "unat (queued_items afl)" ?a] items by (simp add: s0_def)
  have all_set: "bit (map_tmp_buf s0 ! (i div 8)) (i mod 8)" if "i < unat (map_size s0)" for i
  proof -
    have "i div 8 < ?n" using that eight by (simp add: s0_def less_mult_imp_div_less)
    then have "map_tmp_buf s0 ! (i div 8) = - 1" by (simp add: s0_def nth_append u8_255)
    then show ?thesis by simp
  qed
  have none: "\<not> favored (queue_buf s0 ! d)" if "d < length (queue_buf s0)" for d
    using that by (simp add: s0_def)
  then have empty: "filter (\<lambda>e. favored e \<and> Q e) (queue_buf s0) = []" for Q
    by (auto simp: filter_empty_conv in_set_conv_nth)
  have start: "cull_inv s0 0 s0"
    using all_set none empty [of "\<lambda>_. True"] empty [of "\<lambda>e. \<not> was_fuzzed e"]
    by (simp add: cull_inv_def) (simp add: s0_def)
  obtain s where two: "for_each [0..<unat (map_size afl)] cull_byte s0 = Inr s"
    and inv: "cull_inv s0 (unat (map_size afl)) s"
    using for_each_total [of "cull_inv s0" s0 "[0..<unat (map_size afl)]" cull_byte] start
      cull_byte_step [OF ready0] by (auto simp: s0_def)
  have un: "unfav s = unfav s0" using inv by (simp add: cull_inv_def)
  have items': "unat (queued_items afl) = length (queue_buf s)" and qi: "queued_items s = queued_items afl"
    and ms: "map_size s0 = map_size afl"
    using unfav_fields(3,4) [OF un] items by (simp_all add: s0_def)
  have run: "cull_queue afl = for_each [0..<unat (queued_items afl)] cull_mark s"
    using go buf one two qi ms by (simp add: cull_queue_def Let_def)
  have len: "length (queue_buf afl) = length (queue_buf s)" using items items' by simp
  show ?thesis
    using cull_mark_all [OF items'] inv unfolding run len items' s0
    by (cases "for_each [0..<length (queue_buf s)] cull_mark s") auto
qed

section \<open>Rounding up to a power of two\<close>

lemma bit_or_shift: "bit (x OR drop_bit k x) j \<longleftrightarrow> bit x j \<or> bit x (j + k)" for x :: u64
  by (simp add: bit_simps add.commute)

lemma bit_smear:
  fixes x :: u64
  defines "a \<equiv> x OR drop_bit 1 x"
  defines "b \<equiv> a OR drop_bit 2 a"
  defines "c \<equiv> b OR drop_bit 4 b"
  defines "d \<equiv> c OR drop_bit 8 c"
  shows "bit (d OR drop_bit 16 d) j \<longleftrightarrow> (\<exists>i < 32. bit x (j + i))"
proof -
  have double: "(\<exists>i < n. f (j + i)) \<or> (\<exists>i < n. f (j + n + i)) \<longleftrightarrow> (\<exists>i < n + n. f (j + i))"
    for f :: "nat \<Rightarrow> bool" and n j
  proof
    assume "\<exists>i < n + n. f (j + i)"
    then obtain i where i: "i < n + n" "f (j + i)" by blast
    show "(\<exists>i < n. f (j + i)) \<or> (\<exists>i < n. f (j + n + i))"
    proof (cases "i < n")
      case False
      then have "i - n < n" "f (j + n + (i - n))" using i by simp_all
      then show ?thesis by blast
    qed (use i in blast)
  next
    assume "(\<exists>i < n. f (j + i)) \<or> (\<exists>i < n. f (j + n + i))"
    then show "\<exists>i < n + n. f (j + i)"
      by (metis add.assoc add_less_cancel_left trans_less_add2)
  qed
  have a: "bit a j \<longleftrightarrow> (\<exists>i < 2. bit x (j + i))" for j
    using double [of 1 "bit x" j] by (simp only: a_def bit_or_shift) (simp add: numeral_2_eq_2)
  have b: "bit b j \<longleftrightarrow> (\<exists>i < 4. bit x (j + i))" for j
    using double [of 2 "bit x" j] by (simp only: b_def bit_or_shift a) simp
  have c: "bit c j \<longleftrightarrow> (\<exists>i < 8. bit x (j + i))" for j
    using double [of 4 "bit x" j] by (simp only: c_def bit_or_shift b) simp
  have d: "bit d j \<longleftrightarrow> (\<exists>i < 16. bit x (j + i))" for j
    using double [of 8 "bit x" j] by (simp only: d_def bit_or_shift c) simp
  show ?thesis
    using double [of 16 "bit x" j] by (simp only: bit_or_shift d) simp
qed

lemma next_pow2_between:
  assumes "2 ^ m < unat n" and "unat n \<le> 2 ^ Suc m" and "m < 32"
  shows "next_pow2 n = 2 ^ Suc m"
proof -
  define x where "x = n - 1"
  have "n \<noteq> 0" using assms(1) by auto
  then have ux: "unat x = unat n - 1" by (simp add: x_def unat_minus_one)
  then have lo: "2 ^ m \<le> unat x" and hi: "unat x < 2 ^ Suc m" using assms by linarith+
  have bits: "bit x j \<longleftrightarrow> bit (unat x) j" for j by (simp add: bit_unsigned_iff)
  have top: "bit x m"
  proof -
    have "unat x div 2 ^ m = 1" using lo hi by (intro div_nat_eqI) (simp_all add: mult.commute)
    then show ?thesis unfolding bits by (simp add: bit_iff_odd)
  qed
  have above: "\<not> bit x j" if "m < j" for j
  proof -
    have "(2 :: nat) ^ Suc m \<le> 2 ^ j" using that by (intro power_increasing) simp_all
    then have "unat x div 2 ^ j = 0" using hi by simp
    then show ?thesis unfolding bits by (simp add: bit_iff_odd)
  qed
  let ?s = "next_pow2 n - 1"
  have "bit ?s j \<longleftrightarrow> (\<exists>i < 32. bit x (j + i))" for j
    using bit_smear [of x j] by (simp add: next_pow2_def Let_def x_def)
  moreover have "(\<exists>i < 32. bit x (j + i)) \<longleftrightarrow> j \<le> m" for j
  proof
    assume "j \<le> m"
    then have "m - j < 32" "bit x (j + (m - j))" using assms(3) top by simp_all
    then show "\<exists>i < 32. bit x (j + i)" by blast
  qed (use above in \<open>meson le_add1 not_le order.strict_trans2\<close>)
  ultimately have "?s = mask (Suc m)"
    using assms(3) by (intro bit_word_eqI) (simp add: bit_mask_iff less_Suc_eq_le)
  then show ?thesis by (simp add: mask_eq_exp_minus_1 algebra_simps)
qed

section \<open>Selection\<close>

text \<open>The relation the selection loop maximises: more weight and no higher fuzz level.\<close>

definition dominates :: "queue_entry \<Rightarrow> queue_entry \<Rightarrow> bool" where
  "dominates a b \<longleftrightarrow> bitmap_weight a > bitmap_weight b \<and> fuzz_level a \<le> fuzz_level b"

lemma dominates_trans: "dominates a b \<Longrightarrow> dominates b c \<Longrightarrow> dominates a c"
  unfolding dominates_def by auto

lemma pst_highest_loop_Cons:
  "pst_highest_loop qs (i # ks) h =
     pst_highest_loop qs ks (if dominates (qs ! i) (qs ! h) \<and> \<not> disabled (qs ! i) then i else h)"
  by (simp add: dominates_def)

lemma pst_highest_loop_in: "pst_highest_loop qs ks h \<in> insert h (set ks)"
  by (induction ks arbitrary: h) auto

lemma pst_highest_loop_chain:
  "pst_highest_loop qs ks h = h \<or> \<not> disabled (qs ! pst_highest_loop qs ks h)
     \<and> dominates (qs ! pst_highest_loop qs ks h) (qs ! h)"
proof (induction ks arbitrary: h)
  case (Cons i ks)
  show ?case
    unfolding pst_highest_loop_Cons using Cons.IH [of h] Cons.IH [of i] dominates_trans by auto
qed simp

lemma pst_highest_loop_max:
  "k \<in> set ks \<Longrightarrow> \<not> disabled (qs ! k) \<Longrightarrow> \<not> dominates (qs ! k) (qs ! pst_highest_loop qs ks h)"
proof (induction ks arbitrary: h)
  case (Cons i ks)
  define h' where "h' = (if dominates (qs ! i) (qs ! h) \<and> \<not> disabled (qs ! i) then i else h)"
  define r where "r = pst_highest_loop qs ks h'"
  have "\<not> dominates (qs ! i) (qs ! h')" if "\<not> disabled (qs ! i)"
    using that by (auto simp: h'_def dominates_def)
  moreover have "r = h' \<or> dominates (qs ! r) (qs ! h')"
    unfolding r_def using pst_highest_loop_chain by blast
  ultimately have "\<not> dominates (qs ! i) (qs ! r)" if "\<not> disabled (qs ! i)"
    using that dominates_trans by blast
  moreover have "pst_highest_loop qs (i # ks) h = r"
    unfolding r_def h'_def by (rule pst_highest_loop_Cons)
  ultimately show ?case using Cons.prems Cons.IH [of h'] by (auto simp: r_def)
qed simp

lemma rand_below_queue:
  assumes "rand_below afl n = Some (r, afl')"
  shows "queue_buf afl' = queue_buf afl" "queued_items afl' = queued_items afl"
  using afl_rng.rb_rest [OF assms] by (cases afl; cases afl'; simp)+

lemma pst_random_entry_result:
  assumes "pst_random_entry afl = Some (Inr (r, afl'))"
  shows "unat r < length (queue_buf afl) \<and> \<not> disabled (queue_buf afl ! unat r) \<and> queue_buf afl' = queue_buf afl"
proof -
  let ?Q = "\<lambda>s p. \<forall>r s'. p = Inr (r, s') \<longrightarrow>
      unat r < length (queue_buf s) \<and> \<not> disabled (queue_buf s ! unat r) \<and> queue_buf s' = queue_buf s"
  have "?Q afl p" if "pst_random_entry afl = Some p" for p
  proof (rule pst_random_entry.raw_induct [where P = ?Q, OF _ that])
    fix f and afl :: "'a afl_queue_scheme" and p
    assume IH: "\<And>s p. f s = Some p \<Longrightarrow> ?Q s p"
      and eq: "(case rand_below afl (queued_items afl) of None \<Rightarrow> None
        | Some (x, s) \<Rightarrow> (case get_q s (unat x) of Inl e \<Rightarrow> Some (Inl e)
            | Inr q \<Rightarrow> if disabled q then f s else Some (Inr (x, s)))) = Some p"
    then obtain x s where xs: "rand_below afl (queued_items afl) = Some (x, s)"
      by (auto split: option.splits)
    note same = rand_below_queue(1) [OF xs]
    show "?Q afl p"
    proof (cases "unat x < length (queue_buf s) \<and> disabled (queue_buf s ! unat x)")
      case True
      then have "f s = Some p" using eq xs by (simp add: get_q_def)
      from IH [OF this] show ?thesis by (simp add: same)
    next
      case False
      then show ?thesis using eq xs same by (auto simp: get_q_def split: if_splits)
    qed
  qed
  from this [OF assms] show ?thesis by blast
qed

section \<open>Properties\<close>

definition queue_demo :: afl_queue where
  "queue_demo = afl_cov.extend (cov_demo\<lparr>trace_bits := [5, 1] @ replicate 62 0\<rparr>)
     \<lparr>queue_buf = [zero_entry\<lparr>fname := ''q/a'', len := 8, exec_us := 10\<rparr>,
                    zero_entry\<lparr>fname := ''q/b'', len := 4, exec_us := 10, id_q := 1, bitmap_weight := 7\<rparr>],
      queue = Some 0, queue_cur = Some 0, queue_top = Some 1, queued_items = 2, queued_discovered = 0,
      queued_favored = 0, queued_variable = 0, pending_not_fuzzed = 2, pending_favored = 0,
      active_items = 2, cur_depth = 0, max_depth = 1, cycles_wo_finds = 0, start_time = 1,
      last_find_time = 0, longest_find_time = 0, ready_for_splicing_count = 1,
      custom_mutators_count = 0, custom_queue_new_entry = [], syncing_party = None,
      cmplog_mode = False, schedule = EXPLORE, n_fuzz = [], top_rated = replicate 64 None,
      score_changed = True, non_instrumented_mode = False, map_tmp_buf = replicate 64 0,
      limit_time_sig = 0, havoc_max_mult = 64, total_cal_us = 0, total_cal_cycles = 0,
      total_bitmap_size = 0, total_bitmap_entries = 0, total_execs = 1, alias_table = [],
      alias_probability = [], reinit_table = False\<rparr>"

lemma queue_demo_fields:
  "queue_buf queue_demo = [zero_entry\<lparr>fname := ''q/a'', len := 8, exec_us := 10\<rparr>,
     zero_entry\<lparr>fname := ''q/b'', len := 4, exec_us := 10, id_q := 1, bitmap_weight := 7\<rparr>]"
  "top_rated queue_demo = replicate 64 None" "map_size queue_demo = 64"
  "trace_bits queue_demo = [5, 1] @ replicate 62 0" "schedule queue_demo = EXPLORE"
  "map_tmp_buf queue_demo = replicate 64 0" "score_changed queue_demo" "\<not> non_instrumented_mode queue_demo"
  "queued_items queue_demo = 2" "queue_cur queue_demo = Some 0" "custom_mutators_count queue_demo = 0"
  "\<not> cmplog_mode queue_demo" "queue_top queue_demo = Some 1" "max_depth queue_demo = 1" "cur_depth queue_demo = 0"
  "fixed_seed queue_demo" "pending_not_fuzzed queue_demo = 2" "active_items queue_demo = 2"
  "fs queue_demo = Map.empty" "queue queue_demo = Some 0"
  by (simp_all add: queue_demo_def afl_cov.extend_def cov_demo_def)


lemma queue_demo_ready: "rating_ready queue_demo 1" "cull_ready queue_demo"
  by (simp_all add: rating_ready_def cull_ready_def rated_inv_def queue_demo_fields zero_entry_def
      less_Suc_eq drop_bit_eq_div schedule_order count_list_0_iff)

text \<open>(C3) \<open>update_bitmap_score\<close> keeps the rating invariant: started from a state where each entry's \<open>tc_ref\<close>
  is the number of \<open>top_rated\<close> slots it holds and its \<open>trace_mini\<close> exists exactly while that number is
  not zero, it runs to the end without a bad access, re-establishes the invariant, and changes nothing but the
  ratings and \<open>score_changed\<close>.\<close>

theorem update_bitmap_score_refcounts:
  assumes "rating_ready afl q"
  shows "\<exists>afl'. update_bitmap_score afl q = Inr afl' \<and> rated_wf afl' \<and> unrated afl' = unrated afl"
  using update_bitmap_score_spec [OF assms] by blast

theorem update_bitmap_score_refcounts_witness:
  "\<exists>afl'. update_bitmap_score queue_demo 1 = Inr afl' \<and> rated_wf afl'"
  using update_bitmap_score_refcounts [OF queue_demo_ready(1)] by blast

text \<open>(C7) Who wins a slot in \<open>update_bitmap_score\<close>: for a map byte the trace hits, a free slot goes to the entry;
  a taken one goes to it exactly when neither its schedule value nor its speed-times-size factor exceeds
  the holder's; every other slot keeps its holder.\<close>

theorem update_bitmap_score_winner:
  assumes "rating_ready afl q" and "i < unat (map_size afl)"
  shows "\<exists>afl'. update_bitmap_score afl q = Inr afl' \<and>
    top_rated afl' ! i =
      (if trace_bits afl ! i = 0 then top_rated afl ! i
       else case top_rated afl ! i of
         None \<Rightarrow> Some q
       | Some e \<Rightarrow>
           if own_p2_value afl (queue_buf afl ! q) \<le> fuzz_p2_value afl (queue_buf afl ! e)
              \<and> fav_factor afl (queue_buf afl ! q) \<le> fav_factor afl (queue_buf afl ! e)
           then Some q else Some e)"
  using update_bitmap_score_spec [OF assms(1)] assms(2) unfolding new_top_def by blast

theorem update_bitmap_score_winner_witness:
  "\<exists>afl'. update_bitmap_score queue_demo 1 = Inr afl' \<and> top_rated afl' ! 0 = Some 1"
  using update_bitmap_score_winner [OF queue_demo_ready(1), of 0] by (simp add: queue_demo_fields)

text \<open>(C4) \<open>cull_queue\<close> picks a covering set of favoured entries: afterwards every map byte that has a rated
  entry is in the minimised trace of some favoured entry or its own holder is favoured; only holders of slots are
  favoured; \<open>queued_favored\<close> and \<open>pending_favored\<close> count the favoured and the favoured but not yet fuzzed
  entries; every enabled entry is marked redundant exactly when it is not favoured. A run that fails
  fails in creating or removing a state file.\<close>

theorem cull_queue_covers:
  assumes "cull_ready afl" and "unat (queued_items afl) = length (queue_buf afl)"
    and "score_changed afl" and "\<not> non_instrumented_mode afl"
  shows "case cull_queue afl of
      Inl err \<Rightarrow> err \<in> mark_errors
    | Inr afl' \<Rightarrow>
        (\<forall>i < unat (map_size afl). \<forall>e. top_rated afl ! i = Some e \<longrightarrow>
           favored (queue_buf afl' ! e)
           \<or> (\<exists>d < length (queue_buf afl). favored (queue_buf afl' ! d) \<and> mini_hits (queue_buf afl' ! d) i))
        \<and> (\<forall>d < length (queue_buf afl). favored (queue_buf afl' ! d) \<longrightarrow> Some d \<in> set (top_rated afl))
        \<and> queued_favored afl' = of_nat (length (filter favored (queue_buf afl')))
        \<and> pending_favored afl' = of_nat (length (filter (\<lambda>e. favored e \<and> \<not> was_fuzzed e) (queue_buf afl')))
        \<and> (\<forall>e < length (queue_buf afl). \<not> disabled (queue_buf afl' ! e) \<longrightarrow>
             fs_redundant (queue_buf afl' ! e) = (\<not> favored (queue_buf afl' ! e)))"
proof (cases "cull_queue afl")
  case (Inl err)
  then show ?thesis using cull_queue_spec [OF assms] by simp
next
  case (Inr afl')
  from cull_queue_spec [OF assms] Inr obtain s where
    inv: "cull_inv (cull_start afl) (unat (map_size afl)) s" and un: "unmarked afl' = unmarked s"
    and red: "\<forall>e < length (queue_buf afl). \<not> disabled (queue_buf afl' ! e) \<longrightarrow>
             fs_redundant (queue_buf afl' ! e) = (\<not> favored (queue_buf afl' ! e))"
    by auto
  have "unfav s = unfav (cull_start afl)" using inv by (simp add: cull_inv_def)
  then have len: "length (queue_buf s) = length (queue_buf afl)"
    using unfav_fields(4) [of s "cull_start afl"] by (simp add: cull_start_def)
  note len' = unmarked_fields(1) [OF un]
  have same: "favored (queue_buf afl' ! e) = favored (queue_buf s ! e)"
    "was_fuzzed (queue_buf afl' ! e) = was_fuzzed (queue_buf s ! e)"
    "trace_mini (queue_buf afl' ! e) = trace_mini (queue_buf s ! e)"
    if "e < length (queue_buf s)" for e
    using arg_cong [OF unmarked_fields(2) [OF un that], of favored]
      arg_cong [OF unmarked_fields(2) [OF un that], of was_fuzzed]
      arg_cong [OF unmarked_fields(2) [OF un that], of trace_mini] by simp_all
  have qf: "queued_favored afl' = queued_favored s" "pending_favored afl' = pending_favored s"
    using arg_cong [OF un, of queued_favored] arg_cong [OF un, of pending_favored] by (simp_all add: unmarked_def)
  have count: "length (filter favored (queue_buf afl')) = length (filter favored (queue_buf s))"
    "length (filter (\<lambda>e. favored e \<and> \<not> was_fuzzed e) (queue_buf afl'))
      = length (filter (\<lambda>e. favored e \<and> \<not> was_fuzzed e) (queue_buf s))"
    using same len' by (auto simp: length_filter_conv_card intro!: arg_cong [of _ _ card])
  have served: "\<exists>d < length (queue_buf afl). favored (queue_buf afl' ! d) \<and> mini_hits (queue_buf afl' ! d) i"
    if hit: "served s i" for i
  proof -
    obtain d where d: "d < length (queue_buf s)" "favored (queue_buf s ! d)" "mini_hits (queue_buf s ! d) i"
      using hit by (auto simp: served_def in_set_conv_nth)
    then show ?thesis
      using same [OF d(1)] len by (intro exI [of _ d]) (simp add: mini_hits_def)
  qed
  have slot: "e < length (queue_buf s)" if "i < unat (map_size afl)" "top_rated afl ! i = Some e" for i e
    using assms(1) that nth_mem [of i "top_rated afl"] len by (simp add: cull_ready_def rated_inv_def)
  have start: "top_rated (cull_start afl) = top_rated afl" "length (queue_buf (cull_start afl)) = length (queue_buf afl)"
    by (simp_all add: cull_start_def)
  have inv': "\<forall>i < unat (map_size afl). \<forall>e. top_rated afl ! i = Some e \<longrightarrow> favored (queue_buf s ! e) \<or> served s i"
    "\<forall>d < length (queue_buf afl). favored (queue_buf s ! d) \<longrightarrow> Some d \<in> set (top_rated afl)"
    "queued_favored s = of_nat (length (filter favored (queue_buf s)))"
    "pending_favored s = of_nat (length (filter (\<lambda>e. favored e \<and> \<not> was_fuzzed e) (queue_buf s)))"
    using inv by (simp_all add: cull_inv_def start)
  have "favored (queue_buf afl' ! e) \<or>
      (\<exists>d < length (queue_buf afl). favored (queue_buf afl' ! d) \<and> mini_hits (queue_buf afl' ! d) i)"
    if "i < unat (map_size afl)" "top_rated afl ! i = Some e" for i e
    using inv'(1) that served [of i] same(1) [OF slot [OF that]] by blast
  moreover have "Some d \<in> set (top_rated afl)"
    if "d < length (queue_buf afl)" "favored (queue_buf afl' ! d)" for d
    using inv'(2) that same(1) [of d] len by simp
  ultimately show ?thesis
    using inv'(3,4) red unfolding Inr sum.case qf count by blast
qed


theorem cull_queue_covers_witness:
  "case cull_queue queue_demo of Inl err \<Rightarrow> err \<in> mark_errors
   | Inr afl' \<Rightarrow> queued_favored afl' = of_nat (length (filter favored (queue_buf afl')))"
  using cull_queue_covers [OF queue_demo_ready(2)]
  by (simp add: queue_demo_fields split: sum.splits)

text \<open>(C10) The PST-FUZZ choice: without the random draw the selection returns an index inside the queue
  that no enabled entry dominates, i.e. none has both more bitmap weight and no higher fuzz level. The loop
  starts from entry 0 without looking at its \<open>disabled\<close> flag, so entry 0 is the result whenever
  no enabled entry dominates it, even when it is disabled.\<close>

theorem pst_highest_undominated:
  assumes "unat (queued_items afl) = length (queue_buf afl)" and "queue_buf afl \<noteq> []"
  shows "pst_highest afl < length (queue_buf afl)
    \<and> (\<forall>i < length (queue_buf afl). \<not> disabled (queue_buf afl ! i) \<longrightarrow>
         \<not> (bitmap_weight (queue_buf afl ! i) > bitmap_weight (queue_buf afl ! pst_highest afl)
            \<and> fuzz_level (queue_buf afl ! i) \<le> fuzz_level (queue_buf afl ! pst_highest afl)))
    \<and> (pst_highest afl = 0 \<or> \<not> disabled (queue_buf afl ! pst_highest afl))
    \<and> ((\<forall>i < length (queue_buf afl). \<not> disabled (queue_buf afl ! i) \<longrightarrow>
          \<not> (bitmap_weight (queue_buf afl ! i) > bitmap_weight (queue_buf afl ! 0)
             \<and> fuzz_level (queue_buf afl ! i) \<le> fuzz_level (queue_buf afl ! 0))) \<longrightarrow> pst_highest afl = 0)"
proof -
  let ?n = "length (queue_buf afl)" and ?h = "pst_highest afl"
  have h: "?h = pst_highest_loop (queue_buf afl) [0..<?n] 0" using assms by (simp add: pst_highest_def)
  have "?h < ?n" using pst_highest_loop_in [of "queue_buf afl" "[0..<?n]" 0] assms(2) by (auto simp: h)
  moreover have "\<not> dominates (queue_buf afl ! i) (queue_buf afl ! ?h)"
    if "i < ?n" "\<not> disabled (queue_buf afl ! i)" for i
    using pst_highest_loop_max [of i "[0..<?n]"] that by (simp add: h)
  moreover have "?h = 0 \<or> \<not> disabled (queue_buf afl ! ?h) \<and> dominates (queue_buf afl ! ?h) (queue_buf afl ! 0)"
    unfolding h by (rule pst_highest_loop_chain)
  ultimately show ?thesis unfolding dominates_def by blast
qed

theorem pst_highest_undominated_witness: "pst_highest queue_demo = 1"
proof -
  let ?h = "pst_highest queue_demo"
  have "unat (queued_items queue_demo) = length (queue_buf queue_demo)" "queue_buf queue_demo \<noteq> []"
    by (simp_all add: queue_demo_fields)
  note h = pst_highest_undominated [OF this]
  then have "?h < 2" by (simp add: queue_demo_fields)
  moreover have "?h \<noteq> 0"
  proof
    assume "?h = 0"
    then show False using spec [OF conjunct1 [OF conjunct2 [OF h]], of 1] by (simp add: queue_demo_fields zero_entry_def)
  qed
  ultimately show ?thesis by simp
qed

text \<open>\<open>select_next_queue_entry\<close>: an index it returns lies inside the queue and names an enabled entry,
  or it is 0; the queue itself is not changed by the draw.\<close>

theorem select_next_queue_entry_valid:
  assumes "select_next_queue_entry afl = Some (Inr (r, afl'))"
    and "unat (queued_items afl) = length (queue_buf afl)" and "queue_buf afl \<noteq> []"
  shows "unat r < length (queue_buf afl) \<and> (r = 0 \<or> \<not> disabled (queue_buf afl ! unat r))
    \<and> queue_buf afl' = queue_buf afl"
proof -
  obtain d s where ds: "rand_below afl 100 = Some (d, s)"
    using assms(1) by (auto simp: select_next_queue_entry_def pst_fuzz_select_next_queue_entry_def split: option.splits)
  note same = rand_below_queue [OF ds]
  show ?thesis
  proof (cases "d < PST_FUZZ_SELECT_RANDOM_PROB")
    case True
    then have "pst_random_entry s = Some (Inr (r, afl'))"
      using assms(1) ds by (simp add: select_next_queue_entry_def pst_fuzz_select_next_queue_entry_def)
    from pst_random_entry_result [OF this] show ?thesis by (simp add: same)
  next
    case False
    then have r: "r = of_nat (pst_highest s)" and s: "afl' = s"
      using assms(1) ds by (auto simp: select_next_queue_entry_def pst_fuzz_select_next_queue_entry_def)
    let ?n = "length (queue_buf afl)" and ?qs = "queue_buf afl"
    have h: "pst_highest s = pst_highest_loop ?qs [0..<?n] 0"
      using assms(2) same by (simp add: pst_highest_def)
    have lt: "pst_highest s < ?n"
      using pst_highest_loop_in [of ?qs "[0..<?n]" 0] assms(3) by (auto simp: h)
    then have "unat r = pst_highest s"
      using r assms(2) unat_u32_less [of "queued_items afl"] by (simp add: unat_of_nat_eq)
    then show ?thesis
      using lt s same pst_highest_loop_chain [of ?qs "[0..<?n]" 0] r by (auto simp: h)
  qed
qed

lemma queue_demo_select:
  "select_next_queue_entry (queue_demo\<lparr>rand_seed := (50, 9, 11)\<rparr>)
     = Some (Inr (1, queue_demo\<lparr>rand_seed := snd (romu_duo_jr (50, 9, 11)), rand_cnt := 4\<rparr>))"
proof -
  let ?d = "queue_demo\<lparr>rand_seed := (50, 9, 11)\<rparr>"
  let ?d' = "queue_demo\<lparr>rand_seed := snd (romu_duo_jr (50, 9, 11)), rand_cnt := 4\<rparr>"
  have cnt: "rand_cnt queue_demo = 5" by (simp add: queue_demo_def afl_cov.extend_def cov_demo_def)
  have draw: "rand_below ?d 100 = Some (50, ?d')"
    by (simp add: rand_below_def Let_def cnt queue_demo_fields rand_bound_def rand_unbiased_first word_le_nat_alt)
  have "pst_highest ?d' = 1"
    by (simp add: pst_highest_def queue_demo_fields upt_rec zero_entry_def word_less_nat_alt)
  then show ?thesis
    by (simp add: select_next_queue_entry_def pst_fuzz_select_next_queue_entry_def draw word_less_nat_alt)
qed

theorem select_next_queue_entry_valid_witness:
  "\<exists>afl'. select_next_queue_entry (queue_demo\<lparr>rand_seed := (50, 9, 11)\<rparr>) = Some (Inr (1, afl'))
     \<and> \<not> disabled (queue_buf queue_demo ! 1)"
  using select_next_queue_entry_valid [OF queue_demo_select] queue_demo_select
  by (auto simp: queue_demo_fields zero_entry_def)


text \<open>\<open>next_pow2\<close> (\<open>alloc-inl.h\<close>): for 1 to \<open>2 ^ 32\<close> the result is the least power of two not below the
  argument; 0 is mapped to 0. The or-shifts stop at 16, so on a 64-bit \<open>size_t\<close> larger arguments are not
  rounded: \<open>2 ^ 33 + 2\<close> gives a number that is not a power of two.\<close>

theorem next_pow2_rounds:
  "(0 < unat n \<and> unat n \<le> 2 ^ 32 \<longrightarrow> next_pow2 n = 2 ^ (LEAST k. unat n \<le> 2 ^ k))
   \<and> next_pow2 0 = 0 \<and> next_pow2 (2 ^ 33 + 2) = 2 ^ 34 - 2"
proof (intro conjI impI)
  assume n: "0 < unat n \<and> unat n \<le> 2 ^ 32"
  define k where "k = (LEAST k. unat n \<le> 2 ^ k)"
  have le: "unat n \<le> 2 ^ k" unfolding k_def using n by (intro LeastI) blast
  have k32: "k \<le> 32" unfolding k_def using n by (intro Least_le) simp
  have below: "2 ^ j < unat n" if "j < k" for j
    using that not_less_Least unfolding k_def by (meson not_le)
  show "next_pow2 n = 2 ^ (LEAST k. unat n \<le> 2 ^ k)"
  proof (cases k)
    case 0
    then have "n = 1" using le n by (simp add: word_unat_eq_iff)
    then have "next_pow2 n = 1" by (simp add: next_pow2_def)
    then show ?thesis using 0 by (simp flip: k_def)
  next
    case (Suc m)
    then show ?thesis
      using next_pow2_between [of m n] below [of m] le k32 by (simp flip: k_def)
  qed
next
  show "next_pow2 0 = 0" by (simp add: next_pow2_def Let_def)
  show "next_pow2 (2 ^ 33 + 2) = 2 ^ 34 - 2"
    by (simp add: next_pow2_def Let_def)
qed

theorem next_pow2_rounds_witness: "next_pow2 5 = 2 ^ (LEAST k. (5 :: nat) \<le> 2 ^ k)"
  using next_pow2_rounds [of 5] by simp

section \<open>Adding entries\<close>

definition queue_wf :: "'a afl_queue_scheme \<Rightarrow> bool" where
  "queue_wf afl \<longleftrightarrow>
     unat (queued_items afl) = length (queue_buf afl)
     \<and> (\<forall>i < length (queue_buf afl). unat (id_q (queue_buf afl ! i)) = i)
     \<and> queue_top afl = (if queue_buf afl = [] then None else Some (length (queue_buf afl) - 1))
     \<and> queue afl = (if queue_buf afl = [] then None else Some 0)"

text \<open>\<open>add_to_queue\<close> without custom mutators: as long as the 32-bit counter does not wrap it succeeds, appends
  exactly one entry with the given name, length and determinism flag, one level deeper than the current depth,
  with the index as its id; bumps the counters, raises \<open>max_depth\<close> when needed, and keeps the queue
  well-formed (ids are positions, \<open>queue_top\<close> is the last entry).\<close>

theorem add_to_queue_appends:
  assumes wf: "queue_wf afl" and room: "unat (queued_items afl) < 2 ^ 32 - 1"
    and nocustom: "custom_mutators_count afl = 0"
  shows "\<exists>afl' e. add_to_queue afl fn n det cur_time = Inr afl'
    \<and> queue_buf afl' = queue_buf afl @ [e] \<and> fname e = fn \<and> len e = n \<and> passed_det e = det
    \<and> depth e = ucast (cur_depth afl + 1) \<and> mother e = queue_cur afl \<and> trace_mini e = None \<and> tc_ref e = 0
    \<and> queue_wf afl' \<and> queued_items afl' = queued_items afl + 1 \<and> active_items afl' = active_items afl + 1
    \<and> pending_not_fuzzed afl' = pending_not_fuzzed afl + 1 \<and> cycles_wo_finds afl' = 0
    \<and> unat (max_depth afl') = max (unat (max_depth afl)) (unat (cur_depth afl + 1))
    \<and> last_find_time afl' = cur_time"
proof -
  let ?i = "length (queue_buf afl)"
  have len: "unat (queued_items afl) = ?i" using wf by (simp add: queue_wf_def)
  have suc: "unat (queued_items afl + 1) = Suc ?i" using len room by (subst unat_add_small) simp_all
  have qi: "unat (queued_items afl + 1 - 1) = ?i" using len by simp
  define e where "e = (new_queue_entry afl fn n det)\<lparr>id_q := queued_items afl\<rparr>"
  define a where "a = note_find cur_time ((link_queue_entry ?i (new_queue_entry afl fn n det) afl)
      \<lparr>queue_buf := queue_buf afl @ [e]\<rparr>)"
  have e: "fname e = fn" "len e = n" "passed_det e = det" "depth e = ucast (cur_depth afl + 1)"
    "mother e = queue_cur afl" "trace_mini e = None" "tc_ref e = 0" "\<not> is_ascii e" "id_q e = queued_items afl"
    by (simp_all add: e_def new_queue_entry_def zero_entry_def)
  have a: "queue_buf a = queue_buf afl @ [e]" "queued_items a = queued_items afl + 1"
    "active_items a = active_items afl + 1" "pending_not_fuzzed a = pending_not_fuzzed afl + 1"
    "cycles_wo_finds a = 0" "last_find_time a = cur_time" "custom_mutators_count a = 0"
    "queue_top a = Some ?i" "queue a = (if queue_top afl = None then Some ?i else queue afl)"
    using nocustom by (auto simp: a_def note_find_def link_queue_entry_def Let_def)
  have down_up: "(ucast (ucast x :: u64) :: u32) = x" for x
    by (rule bit_word_eqI) (simp add: bit_simps)
  have depth: "unat (max_depth a) = max (unat (max_depth afl)) (unat (cur_depth afl + 1))"
    by (simp add: a_def note_find_def link_queue_entry_def Let_def new_queue_entry_def word_less_nat_alt max_def
        down_up)
  have wfa: "queue_wf a"
    using wf suc len by (auto simp: queue_wf_def a e nth_append less_Suc_eq)
  have "queue_buf (link_queue_entry ?i (new_queue_entry afl fn n det) afl) = queue_buf afl"
    "queued_items (link_queue_entry ?i (new_queue_entry afl fn n det) afl) = queued_items afl + 1"
    by (simp_all add: link_queue_entry_def Let_def)
  then have run: "add_to_queue afl fn n det cur_time = detect_text ?i a"
    using a(7) unfolding add_to_queue_def Let_def qi
    by (simp add: store_at_def notify_custom_def flip: e_def a_def)
  show ?thesis
  proof (cases "cmplog_mode a")
    case False
    then have "add_to_queue afl fn n det cur_time = Inr a"
      using run a(1) by (simp add: detect_text_def get_q_def)
    then show ?thesis using a e depth wfa by blast
  next
    case True
    obtain t where "check_if_text a e = Inr t" using check_if_text_returns [of a e] by blast
    then have "add_to_queue afl fn n det cur_time = Inr (upd_q (\<lambda>e. e\<lparr>is_ascii := t \<noteq> 0\<rparr>) ?i a)"
      using run True a(1) e(8) by (simp add: detect_text_def get_q_def)
    moreover have "queue_buf (upd_q (\<lambda>e. e\<lparr>is_ascii := t \<noteq> 0\<rparr>) ?i a) = queue_buf afl @ [e\<lparr>is_ascii := t \<noteq> 0\<rparr>]"
      using a(1) by simp
    moreover have "queue_wf (upd_q (\<lambda>e. e\<lparr>is_ascii := t \<noteq> 0\<rparr>) ?i a)"
      using wfa by (auto simp: queue_wf_def upd_q_def a(1) nth_append less_Suc_eq split: if_splits)
    ultimately show ?thesis
      using a e depth by (intro exI [of _ "upd_q (\<lambda>e. e\<lparr>is_ascii := t \<noteq> 0\<rparr>) ?i a"]
          exI [of _ "e\<lparr>is_ascii := t \<noteq> 0\<rparr>"]) (simp add: upd_q_def)
  qed
qed

lemma queue_demo_wf: "queue_wf queue_demo"
  by (auto simp: queue_wf_def queue_demo_fields zero_entry_def less_Suc_eq)

theorem add_to_queue_appends_witness:
  "\<exists>afl' e. add_to_queue queue_demo ''q/c'' 9 False 77 = Inr afl'
     \<and> queue_buf afl' = queue_buf queue_demo @ [e] \<and> fname e = ''q/c'' \<and> queued_items afl' = 2 + 1"
proof -
  have "unat (queued_items queue_demo) < 2 ^ 32 - 1" "custom_mutators_count queue_demo = 0"
    by (simp_all add: queue_demo_fields)
  from add_to_queue_appends [OF queue_demo_wf this, of "''q/c''" 9 False 77] show ?thesis
    unfolding queue_demo_fields(9) by blast
qed

text \<open>\<open>mark_as_redundant\<close> is undone by unmarking: after an unmarked entry has been marked, which creates its
  state file, unmarking it removes the file and restores the whole state.\<close>

theorem mark_redundant_roundtrip:
  assumes "mark_as_redundant afl q True = Inr afl'" and "\<not> fs_redundant (queue_buf afl ! q)"
  shows "mark_as_redundant afl' q False = Inr afl"
proof -
  let ?e = "queue_buf afl ! q"
  have q: "q < length (queue_buf afl)"
    using assms(1) by (auto simp: mark_as_redundant_def get_q_def split: if_splits)
  from assms obtain base fn where b: "basename (fname ?e) = Inr base"
    "sprintf_path (out_dir afl @ ''/queue/.state/redundant_edges/'' @ base) = Inr fn"
    and c: "creat_excl (upd_q (\<lambda>e. e\<lparr>fs_redundant := True\<rparr>) q afl) fn [] = Inr afl'"
    using q by (auto simp: mark_as_redundant_def get_q_def bind_result_Inr_iff Let_def)
  from c have free: "\<not> fs_deny afl fn" "fs afl fn = None"
    and afl': "afl' = (upd_q (\<lambda>e. e\<lparr>fs_redundant := True\<rparr>) q afl)\<lparr>fs := (fs afl)(fn \<mapsto> [])\<rparr>"
    by (simp_all add: creat_excl_Inr)
  have e': "queue_buf afl' ! q = ?e\<lparr>fs_redundant := True\<rparr>" "q < length (queue_buf afl')"
    "out_dir afl' = out_dir afl"
    using q by (simp_all add: afl')
  have unset: "?e\<lparr>fs_redundant := False\<rparr> = ?e" using assms(2) by simp
  have removed: "((fs afl)(fn \<mapsto> []))(fn := None) = fs afl" using free(2) by (simp add: fun_upd_idem)
  have "mark_as_redundant afl' q False = unlink_file (upd_q (\<lambda>e. e\<lparr>fs_redundant := False\<rparr>) q afl') fn"
    using e' b by (simp add: mark_as_redundant_def get_q_def Let_def)
  also have "\<dots> = Inr ((upd_q (\<lambda>e. e\<lparr>fs_redundant := False\<rparr>) q afl')\<lparr>fs := ((fs afl)(fn \<mapsto> []))(fn := None)\<rparr>)"
    using free by (simp add: unlink_file_def afl' upd_q_def)
  also have "\<dots> = Inr (afl\<lparr>queue_buf := (queue_buf afl)[q := ?e\<lparr>fs_redundant := False\<rparr>], fs := fs afl\<rparr>)"
    unfolding removed using q by (simp add: afl' upd_q_def)
  finally show ?thesis unfolding unset list_update_id by simp
qed

theorem mark_redundant_roundtrip_witness:
  "\<exists>afl'. mark_as_redundant queue_demo 0 True = Inr afl' \<and> mark_as_redundant afl' 0 False = Inr queue_demo"
proof -
  have plain: "fname (queue_buf queue_demo ! 0) = ''q/a''" "\<not> fs_redundant (queue_buf queue_demo ! 0)"
    "0 < length (queue_buf queue_demo)" "out_dir queue_demo = ''out''" "fs_deny queue_demo = (\<lambda>_. False)"
    by (simp_all add: queue_demo_fields zero_entry_def)
      (simp_all add: queue_demo_def afl_cov.extend_def cov_demo_def)
  then have "\<exists>afl'. mark_as_redundant queue_demo 0 True = Inr afl'"
    by (simp add: mark_as_redundant_def get_q_def basename_def sprintf_path_def creat_excl_def Let_def
        queue_demo_fields)
  then obtain afl' where run: "mark_as_redundant queue_demo 0 True = Inr afl'" by blast
  show ?thesis using mark_redundant_roundtrip [OF run plain(2)] run by blast
qed

end
