(* ===== verification/Afl_Score.thy ===== *)
theory Afl_Score
  imports Afl_Queue
begin

text \<open>
  Energy and selection weights of \<open>src/afl-fuzz-queue.c\<close>: \<open>calculate_score\<close>, \<open>compute_weight\<close> and
  \<open>create_alias_table\<close>.

  A \<open>double\<close> is a real number and every operation on doubles is followed by the rounding function \<open>rnd\<close> of
  the format (\<open>rndl\<close> for \<open>long double\<close>), a parameter: the theorems hold for every rounding, or for exact
  arithmetic (\<open>rnd = id\<close>) where they say so. The logarithm of 0 is minus infinity, the value \<open>None\<close>.
\<close>

section \<open>Floating point helpers\<close>

definition of_u32 :: "(real \<Rightarrow> real) \<Rightarrow> u32 \<Rightarrow> real" where
  "of_u32 rnd x = rnd (real (unat x))"

definition of_u64 :: "(real \<Rightarrow> real) \<Rightarrow> u64 \<Rightarrow> real" where
  "of_u64 rnd x = rnd (real (unat x))"

text \<open>Conversion to \<open>u32\<close> cuts off the fraction; a value that does not fit is undefined.\<close>

definition to_u32 :: "real \<Rightarrow> u32 result" where
  "to_u32 x = (if - 1 < x \<and> x < 2 ^ 32 then Inr (of_nat (nat \<lfloor>x\<rfloor>)) else Inl (Not_finite ''u32''))"

definition fdiv :: "(real \<Rightarrow> real) \<Rightarrow> real \<Rightarrow> real \<Rightarrow> real result" where
  "fdiv rnd a b = (if b = 0 then Inl (Not_finite ''division'') else Inr (rnd (a / b)))"

definition flog :: "(real \<Rightarrow> real) \<Rightarrow> real \<Rightarrow> u32 \<Rightarrow> real option" where
  "flog rnd b x = (if x = 0 then None else Some (rnd (log b (real (unat x)))))"

text \<open>\<open>perf_score *= c\<close> with a floating point constant.\<close>

definition scale_u32 :: "(real \<Rightarrow> real) \<Rightarrow> real \<Rightarrow> u32 \<Rightarrow> u32 result" where
  "scale_u32 rnd c x = to_u32 (rnd (of_u32 rnd x * rnd c))"

section \<open>calculate\_score\<close>

definition score_speed :: "(real \<Rightarrow> real) \<Rightarrow> 'a afl_queue_scheme \<Rightarrow> queue_entry \<Rightarrow> u32 \<Rightarrow> u32" where
  "score_speed rnd afl q avg_exec_us =
     (let us = of_u64 rnd (exec_us q); avg = of_u32 rnd avg_exec_us in
      if schedule afl < RARE \<and> \<not> fixed_seed afl then
        if rnd (us * rnd 0.1) > avg then 10
        else if rnd (us * rnd 0.25) > avg then 25
        else if rnd (us * rnd 0.5) > avg then 50
        else if rnd (us * rnd 0.75) > avg then 75
        else if exec_us q * 4 < ucast avg_exec_us then 300
        else if exec_us q * 3 < ucast avg_exec_us then 200
        else if exec_us q * 2 < ucast avg_exec_us then 150
        else 100
      else 100)"

definition score_bitmap :: "(real \<Rightarrow> real) \<Rightarrow> queue_entry \<Rightarrow> u32 \<Rightarrow> u32 \<Rightarrow> u32 result" where
  "score_bitmap rnd q avg_bitmap_size perf =
     (let sz = of_u32 rnd (bitmap_size q); avg = of_u32 rnd avg_bitmap_size in
      if rnd (sz * rnd 0.3) > avg then Inr (perf * 3)
      else if rnd (sz * rnd 0.5) > avg then Inr (perf * 2)
      else if rnd (sz * rnd 0.75) > avg then scale_u32 rnd 1.5 perf
      else if bitmap_size q * 3 < avg_bitmap_size then scale_u32 rnd 0.25 perf
      else if bitmap_size q * 2 < avg_bitmap_size then scale_u32 rnd 0.5 perf
      else if rnd (sz * rnd 1.5) < avg then scale_u32 rnd 0.75 perf
      else Inr perf)"

definition score_handicap :: "queue_entry \<Rightarrow> u32 \<Rightarrow> u32 \<times> u64" where
  "score_handicap q perf =
     (if handicap q \<ge> 4 then (perf * 4, handicap q - 4)
      else if handicap q \<noteq> 0 then (perf * 2, handicap q - 1)
      else (perf, handicap q))"

definition score_depth :: "queue_entry \<Rightarrow> u32 \<Rightarrow> u32" where
  "score_depth q perf =
     (if depth q \<le> 3 then perf
      else if depth q \<le> 7 then perf * 2
      else if depth q \<le> 13 then perf * 3
      else if depth q \<le> 25 then perf * 4
      else perf * 5)"

abbreviation MAX_FACTOR :: real where "MAX_FACTOR \<equiv> 32"

text \<open>The sum of the logarithms in the \<open>COE\<close> case and the number of enabled entries.\<close>

fun coe_sum :: "(real \<Rightarrow> real) \<Rightarrow> (real \<Rightarrow> real) \<Rightarrow> 'a afl_queue_scheme \<Rightarrow> queue_entry list
    \<Rightarrow> real option \<Rightarrow> u32 \<Rightarrow> (real option \<times> u32) result" where
  "coe_sum rnd rndl afl [] fuzz_mu n_items = Inr (fuzz_mu, n_items)"
| "coe_sum rnd rndl afl (e # es) fuzz_mu n_items =
     (if disabled e then coe_sum rnd rndl afl es fuzz_mu n_items
      else bind_result (n_fuzz_of afl e) (\<lambda>n.
        coe_sum rnd rndl afl es
          (case (fuzz_mu, flog rnd 2 n) of (Some m, Some l) \<Rightarrow> Some (rndl (m + l)) | _ \<Rightarrow> None)
          (n_items + 1)))"

definition exceeds :: "real option \<Rightarrow> real option \<Rightarrow> bool" where
  "exceeds a b = (case (a, b) of (Some x, Some y) \<Rightarrow> x > y | (Some x, None) \<Rightarrow> True | (None, _) \<Rightarrow> False)"

definition fast_factor :: "(real \<Rightarrow> real) \<Rightarrow> 'a afl_queue_scheme \<Rightarrow> queue_entry \<Rightarrow> real result" where
  "fast_factor rnd afl q =
     (if fuzz_level q = 0 then Inr 1
      else bind_result (n_fuzz_of afl q) (\<lambda>n.
        case flog rnd 2 n of
          None \<Rightarrow> Inl (Not_finite ''u32'')
        | Some l \<Rightarrow>
            bind_result (to_u32 l) (\<lambda>k.
            let factor = (if k \<le> 1 then 4 else if k \<le> 3 then 3 else if k = 4 then 2
                          else if k = 5 then 1
                          else if k = 6 then (if favored q then 1 else rnd 0.8)
                          else if k = 7 then (if favored q then 1 else rnd 0.6)
                          else (if favored q then 1 else rnd 0.4))
            in Inr (if favored q then rnd (factor * rnd 1.15) else factor))))"

definition coe_factor ::
  "(real \<Rightarrow> real) \<Rightarrow> (real \<Rightarrow> real) \<Rightarrow> 'a afl_queue_scheme \<Rightarrow> queue_entry \<Rightarrow> real result" where
  "coe_factor rnd rndl afl q =
     (if fuzz_level q = 0 then Inr 1
      else if length (queue_buf afl) < unat (queued_items afl) then Inl (Out_of_bounds ''queue_buf'')
      else bind_result (coe_sum rnd rndl afl (take (unat (queued_items afl)) (queue_buf afl)) (Some 0) 0)
        (\<lambda>(fuzz_mu, n_items).
        if n_items = 0 then Inl (Fatal ''Queue state corrupt'')
        else
          let fuzz_mu = map_option (\<lambda>m. rndl (m / real (unat n_items))) fuzz_mu in
          bind_result (n_fuzz_of afl q) (\<lambda>n.
          if exceeds (flog rnd 2 n) fuzz_mu then Inr (if favored q then 1 else 0)
          else fast_factor rnd afl q)))"

text \<open>The divisor \<open>n_fuzz + 1\<close> is a 32-bit sum: it is 0 once the counter has saturated.\<close>

definition int_factor :: "(real \<Rightarrow> real) \<Rightarrow> u32 \<Rightarrow> 'a afl_queue_scheme \<Rightarrow> queue_entry \<Rightarrow> real result" where
  "int_factor rnd num afl q =
     (if fuzz_level q = 0 then Inr 1
      else bind_result (n_fuzz_of afl q) (\<lambda>n.
        if n + 1 = 0 then Inl (Fatal ''division by zero'')
        else Inr (of_u32 rnd (num div (n + 1)))))"

definition score_schedule ::
  "(real \<Rightarrow> real) \<Rightarrow> (real \<Rightarrow> real) \<Rightarrow> 'a afl_queue_scheme \<Rightarrow> queue_entry \<Rightarrow> u32 \<Rightarrow> (real \<times> u32) result" where
  "score_schedule rnd rndl afl q perf =
     (case schedule afl of
        EXPLORE \<Rightarrow> Inr (1, perf)
      | SEEK \<Rightarrow> Inr (1, perf)
      | EXPLOIT \<Rightarrow> Inr (MAX_FACTOR, perf)
      | COE \<Rightarrow> bind_result (coe_factor rnd rndl afl q) (\<lambda>f. Inr (f, perf))
      | FAST \<Rightarrow> bind_result (fast_factor rnd afl q) (\<lambda>f. Inr (f, perf))
      | LIN \<Rightarrow> bind_result (int_factor rnd (fuzz_level q) afl q) (\<lambda>f. Inr (f, perf))
      | QUAD \<Rightarrow> bind_result (int_factor rnd (fuzz_level q * fuzz_level q) afl q) (\<lambda>f. Inr (f, perf))
      | MMOPT \<Rightarrow> Inr (1, if ucast (max_depth afl) - depth q < 5 then perf * 2 else perf)
      | RARE \<Rightarrow>
          let perf = perf + tc_ref q * 10 in
          bind_result (n_fuzz_of afl q) (\<lambda>n.
          bind_result (fdiv rnd (of_u32 rnd n) (of_u64 rnd (total_execs afl))) (\<lambda>r.
          bind_result (scale_u32 rnd (rnd (1 - r)) perf) (\<lambda>perf. Inr (1, perf)))))"

definition score_finish ::
  "(real \<Rightarrow> real) \<Rightarrow> 'a afl_queue_scheme \<Rightarrow> queue_entry \<Rightarrow> real \<Rightarrow> u32 \<Rightarrow> u32 result" where
  "score_finish rnd afl q factor perf =
     bind_result
       (if schedule afl \<ge> EXPLOIT \<and> schedule afl \<le> QUAD
        then scale_u32 rnd (rnd ((if factor > MAX_FACTOR then MAX_FACTOR else factor) / 1)) perf
        else Inr perf) (\<lambda>perf.
     let perf = (if limit_time_sig afl \<noteq> 0 \<and> ucast (max_depth afl) - depth q < 3 then perf * 2
                 else if schedule afl \<noteq> COE \<and> perf < 1 then 1 else perf);
         limit = ucast (havoc_max_mult afl) * 100
     in Inr (if perf > limit then limit else perf))"

definition calculate_score ::
  "(real \<Rightarrow> real) \<Rightarrow> (real \<Rightarrow> real) \<Rightarrow> 'a afl_queue_scheme \<Rightarrow> qid \<Rightarrow> (u32 \<times> 'a afl_queue_scheme) result" where
  "calculate_score rnd rndl afl qi =
     bind_result (get_q afl qi) (\<lambda>q.
     let cal_cycles = ucast (total_cal_cycles afl) :: u32;
         bitmap_entries = ucast (total_bitmap_entries afl) :: u32;
         cal_cycles = (if cal_cycles = 0 then 1 else cal_cycles);
         bitmap_entries = (if bitmap_entries = 0 then 1 else bitmap_entries);
         avg_exec_us = ucast (total_cal_us afl div ucast cal_cycles) :: u32;
         avg_bitmap_size = ucast (total_bitmap_size afl div ucast bitmap_entries) :: u32;
         perf = score_speed rnd afl q avg_exec_us
     in bind_result (score_bitmap rnd q avg_bitmap_size perf) (\<lambda>perf.
        case score_handicap q perf of (perf, h) \<Rightarrow>
          let afl = upd_q (\<lambda>e. e\<lparr>handicap := h\<rparr>) qi afl;
              perf = score_depth q perf
          in bind_result (score_schedule rnd rndl afl q perf) (\<lambda>(factor, perf).
             bind_result (score_finish rnd afl q factor perf) (\<lambda>score. Inr (score, afl)))))"

section \<open>compute\_weight\<close>

definition finite_log :: "(real \<Rightarrow> real) \<Rightarrow> real \<Rightarrow> u32 \<Rightarrow> real result" where
  "finite_log rnd b x = (case flog rnd b x of None \<Rightarrow> Inl (Not_finite ''log'') | Some l \<Rightarrow> Inr l)"

definition compute_weight ::
  "(real \<Rightarrow> real) \<Rightarrow> 'a afl_queue_scheme \<Rightarrow> queue_entry \<Rightarrow> real \<Rightarrow> real \<Rightarrow> real \<Rightarrow> real result" where
  "compute_weight rnd afl q avg_exec_us avg_bitmap_size avg_top_size =
     bind_result
       (if schedule afl \<ge> FAST \<and> schedule afl \<le> RARE
        then bind_result (n_fuzz_of afl q) (\<lambda>hits.
          if hits \<noteq> 0 then bind_result (finite_log rnd 10 hits) (\<lambda>l. fdiv rnd 1 (rnd (l + 1)))
          else Inr 1)
        else Inr 1) (\<lambda>w.
     bind_result
       (if schedule afl < RARE
        then bind_result (fdiv rnd avg_exec_us (of_u64 rnd (exec_us q))) (\<lambda>r. Inr (rnd (w * r)))
        else Inr w) (\<lambda>w.
     bind_result (finite_log rnd (exp 1) (bitmap_size q)) (\<lambda>l.
     bind_result (fdiv rnd l avg_bitmap_size) (\<lambda>r.
     let w = rnd (w * r) in
     bind_result (fdiv rnd (of_u32 rnd (tc_ref q)) avg_top_size) (\<lambda>t.
     let w = rnd (w * rnd (1 + t));
         w = (if w < rnd 0.1 then rnd 0.1 else w);
         w = (if favored q then rnd (w * 5) else w);
         w = (if \<not> was_fuzzed q then rnd (w * 2) else w)
     in Inr w)))))"

section \<open>create\_alias\_table\<close>

text \<open>The averages over the enabled entries (schedules below \<open>RARE\<close>).\<close>

fun alias_totals :: "(real \<Rightarrow> real) \<Rightarrow> queue_entry list \<Rightarrow> real \<times> real \<times> real \<times> nat
    \<Rightarrow> (real \<times> real \<times> real \<times> nat) result" where
  "alias_totals rnd [] acc = Inr acc"
| "alias_totals rnd (q # qs) (us, bm, tops, active) =
     (if disabled q then alias_totals rnd qs (us, bm, tops, active)
      else bind_result (finite_log rnd (exp 1) (bitmap_size q)) (\<lambda>l.
        alias_totals rnd qs
          (rnd (us + of_u64 rnd (exec_us q)), rnd (bm + l), rnd (tops + of_u32 rnd (tc_ref q)), active + 1)))"

definition alias_weigh ::
  "(real \<Rightarrow> real) \<Rightarrow> (real \<Rightarrow> real) \<Rightarrow> real \<Rightarrow> real \<Rightarrow> real \<Rightarrow> nat \<Rightarrow> real \<times> 'a afl_queue_scheme
     \<Rightarrow> (real \<times> 'a afl_queue_scheme) result" where
  "alias_weigh rnd rndl avg_us avg_bm avg_top i st =
     (case st of (wsum, afl) \<Rightarrow>
        bind_result (get_q afl i) (\<lambda>q.
        if disabled q then Inr (wsum, afl)
        else bind_result (compute_weight rnd afl q avg_us avg_bm avg_top) (\<lambda>w.
          let afl = upd_q (\<lambda>e. e\<lparr>weight_q := w\<rparr>) i afl in
          bind_result (calculate_score rnd rndl afl i) (\<lambda>(score, afl).
          let afl = upd_q (\<lambda>e. e\<lparr>perf_score := of_u32 rnd score\<rparr>) i afl
          in Inr (rnd (wsum + w), afl)))))"

definition alias_score ::
  "(real \<Rightarrow> real) \<Rightarrow> (real \<Rightarrow> real) \<Rightarrow> nat \<Rightarrow> real \<times> 'a afl_queue_scheme \<Rightarrow> (real \<times> 'a afl_queue_scheme) result" where
  "alias_score rnd rndl i st =
     (case st of (wsum, afl) \<Rightarrow>
        bind_result (get_q afl i) (\<lambda>q.
        if disabled q then Inr (wsum, afl)
        else bind_result (calculate_score rnd rndl afl i) (\<lambda>(score, afl).
          let afl = upd_q (\<lambda>e. e\<lparr>perf_score := of_u32 rnd score\<rparr>) i afl
          in Inr (rnd (wsum + of_u32 rnd score), afl))))"

text \<open>\<open>MMOPT\<close> doubles the weight of the last discoveries after the sum has been taken.\<close>

definition alias_mmopt :: "(real \<Rightarrow> real) \<Rightarrow> u32 \<Rightarrow> 'a afl_queue_scheme \<Rightarrow> 'a afl_queue_scheme result" where
  "alias_mmopt rnd n afl =
     (if schedule afl = MMOPT \<and> queued_discovered afl \<noteq> 0 then
        let cnt = (if queued_discovered afl \<ge> 5 then 5 else queued_discovered afl) in
        for_each [unat (n - cnt)..<unat n]
          (\<lambda>i afl. bind_result (get_q afl i) (\<lambda>q.
             Inr (if disabled q then afl else upd_q (\<lambda>e. e\<lparr>weight_q := rnd (weight_q e * 2)\<rparr>) i afl))) afl
      else Inr afl)"

fun alias_shares :: "(real \<Rightarrow> real) \<Rightarrow> (queue_entry \<Rightarrow> real) \<Rightarrow> nat \<Rightarrow> real \<Rightarrow> queue_entry list \<Rightarrow> real list result" where
  "alias_shares rnd f n wsum [] = Inr []"
| "alias_shares rnd f n wsum (q # qs) =
     bind_result (if disabled q then Inr 0 else fdiv rnd (rnd (f q * real n)) wsum) (\<lambda>p.
     bind_result (alias_shares rnd f n wsum qs) (\<lambda>ps. Inr (p # ps)))"

text \<open>\<open>Small\<close> and \<open>Large\<close> are stacks of indices that grow towards each other's ends of their arrays:
  \<open>Small[nSmall++] = j\<close> and \<open>Large[nLarge--] = j\<close> push, \<open>Small[--nSmall]\<close> and \<open>Large[++nLarge]\<close> pop.
  Each list has its top first; together they never hold more than the \<open>n\<close> indices.\<close>

definition alias_split :: "real list \<Rightarrow> nat list \<times> nat list" where
  "alias_split P =
     fold (\<lambda>j (small, large). if P ! j < 1 then (j # small, large) else (small, j # large))
       (rev [0..<length P]) ([], [])"

function alias_pair :: "(real \<Rightarrow> real) \<Rightarrow> nat list \<Rightarrow> nat list \<Rightarrow> real list \<Rightarrow> real list \<Rightarrow> u32 list
    \<Rightarrow> nat list \<times> nat list \<times> real list \<times> u32 list" where
  "alias_pair rnd (small # ss) (large # ls) P prob alias =
     (let prob = prob[small := P ! small];
          alias = alias[small := of_nat large];
          P = P[large := rnd (P ! large - rnd (1 - P ! small))]
      in if P ! large < 1 then alias_pair rnd (large # ss) ls P prob alias
         else alias_pair rnd ss (large # ls) P prob alias)"
| "alias_pair rnd [] ls P prob alias = ([], ls, prob, alias)"
| "alias_pair rnd (s # ss) [] P prob alias = (s # ss, [], prob, alias)"
  by pat_completeness auto
termination
  by (relation "measure (\<lambda>(rnd, ss, ls, P, prob, alias). length ss + length ls)") (auto simp: Let_def)

definition alias_build :: "(real \<Rightarrow> real) \<Rightarrow> real list \<Rightarrow> real list \<times> u32 list" where
  "alias_build rnd P =
     (let n = length P in
      case alias_split P of (small, large) \<Rightarrow>
      case alias_pair rnd small large P (replicate n 0) (replicate n 0) of (small, large, prob, alias) \<Rightarrow>
        (fold (\<lambda>j p. p[j := 1]) large (fold (\<lambda>j p. p[j := 1]) small prob), alias))"

definition create_alias_table ::
  "(real \<Rightarrow> real) \<Rightarrow> (real \<Rightarrow> real) \<Rightarrow> 'a afl_queue_scheme \<Rightarrow> 'a afl_queue_scheme result" where
  "create_alias_table rnd rndl afl =
     (let n = queued_items afl; k = unat n in
      if length (queue_buf afl) < k then Inl (Out_of_bounds ''queue_buf'')
      else
        bind_result
          (if schedule afl < RARE then
             bind_result (alias_totals rnd (take k (queue_buf afl)) (0, 0, 0, 0)) (\<lambda>(us, bm, tops, active).
             bind_result (fdiv rnd us (real active)) (\<lambda>avg_us.
             bind_result (fdiv rnd bm (real active)) (\<lambda>avg_bm.
             bind_result (fdiv rnd tops (real active)) (\<lambda>avg_top.
             bind_result (for_each [0..<k] (alias_weigh rnd rndl avg_us avg_bm avg_top) (0, afl)) (\<lambda>(wsum, afl).
             bind_result (alias_mmopt rnd n afl) (\<lambda>afl.
             bind_result (alias_shares rnd weight_q k wsum (take k (queue_buf afl))) (\<lambda>P.
             Inr (P, afl))))))))
           else
             bind_result (for_each [0..<k] (alias_score rnd rndl) (0, afl)) (\<lambda>(wsum, afl).
             bind_result (alias_shares rnd perf_score k wsum (take k (queue_buf afl))) (\<lambda>P.
             Inr (P, afl)))) (\<lambda>(P, afl).
        case alias_build rnd P of (prob, alias) \<Rightarrow>
          Inr (afl\<lparr>alias_probability := prob, alias_table := alias, reinit_table := False\<rparr>)))"

section \<open>Bounds of the score\<close>

lemma unat_score_limit: "unat (ucast (m :: u8) * 100 :: u32) = unat m * 100"
proof -
  have "unat m * 100 < 2 ^ 32" using unat_u8_less [of m] by simp
  moreover have "unat (ucast m :: u32) = unat m"
    using unat_u8_less [of m] by (simp add: unsigned_ucast_eq take_bit_nat_eq_self)
  ultimately show ?thesis by (simp add: unat_word_ariths)
qed

lemma score_finish_clamps:
  assumes "score_finish rnd afl q factor perf = Inr score"
  obtains p where "score = (if p > ucast (havoc_max_mult afl) * 100 then ucast (havoc_max_mult afl) * 100 else p)"
    and "schedule afl \<noteq> COE \<and> limit_time_sig afl = 0 \<Longrightarrow> 1 \<le> p"
proof -
  have one: "\<not> p < 1 \<Longrightarrow> 1 \<le> p" for p :: u32 by (simp only: not_less)
  obtain x where x: "score = (let p = (if limit_time_sig afl \<noteq> 0 \<and> ucast (max_depth afl) - depth q < 3 then x * 2
                 else if schedule afl \<noteq> COE \<and> x < 1 then 1 else x)
      in if p > ucast (havoc_max_mult afl) * 100 then ucast (havoc_max_mult afl) * 100 else p)"
    using assms unfolding score_finish_def bind_result_Inr_iff by (auto simp: Let_def)
  define p where "p = (if limit_time_sig afl \<noteq> 0 \<and> ucast (max_depth afl) - depth q < 3 then x * 2
                 else if schedule afl \<noteq> COE \<and> x < 1 then 1 else x)"
  show thesis
  proof (rule that)
    show "score = (if p > ucast (havoc_max_mult afl) * 100 then ucast (havoc_max_mult afl) * 100 else p)"
      using x by (simp only: Let_def p_def)
    show "schedule afl \<noteq> COE \<and> limit_time_sig afl = 0 \<Longrightarrow> 1 \<le> p"
      using one [of x] by (auto simp: p_def)
  qed
qed

lemma score_finish_bounds:
  assumes "score_finish rnd afl q factor perf = Inr score"
  shows "unat score \<le> unat (havoc_max_mult afl) * 100"
    and "schedule afl \<noteq> COE \<Longrightarrow> limit_time_sig afl = 0 \<Longrightarrow> 0 < havoc_max_mult afl \<Longrightarrow> 1 \<le> unat score"
proof -
  obtain p where p: "score = (if p > ucast (havoc_max_mult afl) * 100 then ucast (havoc_max_mult afl) * 100 else p)"
    and lo: "schedule afl \<noteq> COE \<and> limit_time_sig afl = 0 \<Longrightarrow> 1 \<le> p"
    using score_finish_clamps [OF assms] by blast
  show "unat score \<le> unat (havoc_max_mult afl) * 100"
    unfolding p by (simp add: word_less_nat_alt unat_score_limit)
  show "1 \<le> unat score" if "schedule afl \<noteq> COE" "limit_time_sig afl = 0" "0 < havoc_max_mult afl"
    using lo that unfolding p by (simp add: word_less_nat_alt word_le_nat_alt unat_score_limit)
qed

text \<open>Exact arithmetic: the factors of the score stay in the ranges the comments give.\<close>

lemma score_speed_range:
  "unat (score_speed rnd afl q avg) \<in> {10, 25, 50, 75, 100, 150, 200, 300}"
  by (simp add: score_speed_def Let_def)

lemma scale_u32_exact:
  assumes "0 \<le> c" and "c \<le> 2" and "unat x \<le> 1000"
  shows "\<exists>y. scale_u32 id c x = Inr y \<and> unat y = nat \<lfloor>c * real (unat x)\<rfloor>"
proof -
  define r where "r = real (unat x)"
  have r: "0 \<le> r" "r \<le> 1000" using assms(3) by (simp_all add: r_def del: of_nat_unat)
  have le: "c * r \<le> 2 * 1000" using assms r by (intro mult_mono) simp_all
  have "0 \<le> c * r" using assms r by simp
  moreover have "nat \<lfloor>c * r\<rfloor> \<le> 2000" using le by linarith
  moreover have "scale_u32 id c x = to_u32 (c * r)"
    by (simp add: scale_u32_def of_u32_def r_def mult.commute)
  moreover have "unat (of_nat (nat \<lfloor>c * r\<rfloor>) :: u32) = nat \<lfloor>c * r\<rfloor>"
    using \<open>nat \<lfloor>c * r\<rfloor> \<le> 2000\<close> by (intro unat_of_nat_eq) simp
  ultimately show ?thesis
    using le unfolding r_def [symmetric] to_u32_def by (intro exI [of _ "of_nat (nat \<lfloor>c * r\<rfloor>)"]) simp
qed

lemma score_bitmap_range:
  assumes "unat perf \<in> {10, 25, 50, 75, 100, 150, 200, 300}"
  shows "\<exists>p. score_bitmap id q avg perf = Inr p \<and> 2 \<le> unat p \<and> unat p \<le> 900"
proof -
  have small: "unat perf \<le> 300" "10 \<le> unat perf" using assms by auto
  have m: "unat (perf * 3) = unat perf * 3" "unat (perf * 2) = unat perf * 2"
    using small by (simp_all add: unat_word_ariths)
  have scaled: "\<exists>p. scale_u32 id c perf = Inr p \<and> 2 \<le> unat p \<and> unat p \<le> 900"
    if "c \<in> {1.5, 0.25, 0.5, 0.75}" for c
  proof -
    have c: "0.25 \<le> c" "c \<le> 1.5" using that by auto
    obtain p where p: "scale_u32 id c perf = Inr p" "unat p = nat \<lfloor>c * real (unat perf)\<rfloor>"
      using scale_u32_exact [of c perf] c small by auto
    have r: "10 \<le> real (unat perf)" "real (unat perf) \<le> 300" using small by (simp_all del: of_nat_unat)
    have "0.25 * 10 \<le> c * real (unat perf)" using c r by (intro mult_mono) simp_all
    moreover have "c * real (unat perf) \<le> 1.5 * 300" using c r by (intro mult_mono) simp_all
    ultimately have "2 \<le> \<lfloor>c * real (unat perf)\<rfloor>" "\<lfloor>c * real (unat perf)\<rfloor> \<le> 900"
      by (simp_all only: le_floor_iff floor_le_iff) (simp_all del: of_nat_unat)
    then have "2 \<le> unat p \<and> unat p \<le> 900" unfolding p(2) by linarith
    with p(1) show ?thesis by blast
  qed
  have times: "2 \<le> unat (perf * 3)" "unat (perf * 3) \<le> 900" "2 \<le> unat (perf * 2)" "unat (perf * 2) \<le> 900"
    "2 \<le> unat perf" "unat perf \<le> 900"
    using small m by simp_all
  show ?thesis
    unfolding score_bitmap_def Let_def
    using scaled [of "1.5"] scaled [of "0.25"] scaled [of "0.5"] scaled [of "0.75"] times
    by (auto split: if_split)
qed

lemma score_handicap_range:
  assumes "score_handicap q perf = (p, h)" and "2 \<le> unat perf" and "unat perf \<le> 900"
  shows "2 \<le> unat p \<and> unat p \<le> 3600"
proof -
  have "unat (perf * 4) = unat perf * 4" "unat (perf * 2) = unat perf * 2"
    using assms(3) by (simp_all add: unat_word_ariths)
  then show ?thesis using assms by (auto simp: score_handicap_def split: if_splits)
qed

lemma score_depth_range:
  assumes "2 \<le> unat perf" and "unat perf \<le> 3600"
  shows "2 \<le> unat (score_depth q perf) \<and> unat (score_depth q perf) \<le> 18000"
proof -
  have "unat (perf * 2) = unat perf * 2" "unat (perf * 3) = unat perf * 3" "unat (perf * 4) = unat perf * 4"
    "unat (perf * 5) = unat perf * 5"
    using assms by (simp_all add: unat_word_ariths)
  then show ?thesis using assms by (simp add: score_depth_def)
qed

section \<open>The alias table is exact\<close>

lemma alias_split_spec:
  "alias_split P = (filter (\<lambda>j. P ! j < 1) [0..<length P], filter (\<lambda>j. \<not> P ! j < 1) [0..<length P])"
proof -
  have "fold (\<lambda>j (small, large). if P ! j < 1 then (j # small, large) else (small, j # large)) (rev js) ([], [])
      = (filter (\<lambda>j. P ! j < 1) js, filter (\<lambda>j. \<not> P ! j < 1) js)" for js
    by (induction js) simp_all
  then show ?thesis by (simp add: alias_split_def)
qed


text \<open>The mass an index receives from the slots that name it as their alias.\<close>

definition donated :: "real list \<Rightarrow> u32 list \<Rightarrow> nat set \<Rightarrow> nat \<Rightarrow> real" where
  "donated prob alias D i = (\<Sum>j \<in> D. if unat (alias ! j) = i then 1 - prob ! j else 0)"

text \<open>The invariant of the pairing loop for the original shares \<open>P0\<close>: the indices still on the two stacks carry
  their share in \<open>P\<close>, the finished ones in \<open>prob\<close>, in both cases up to what has been donated to them.\<close>

definition alias_inv :: "real list \<Rightarrow> nat list \<Rightarrow> nat list \<Rightarrow> real list \<Rightarrow> real list \<Rightarrow> u32 list \<Rightarrow> bool" where
  "alias_inv P0 ss ls P prob alias \<longleftrightarrow>
     (let n = length P0; R = set ss \<union> set ls; D = {..<n} - R in
      length P = n \<and> length prob = n \<and> length alias = n \<and> distinct (ss @ ls) \<and> R \<subseteq> {..<n}
      \<and> (\<forall>j \<in> set ss. 0 \<le> P ! j \<and> P ! j < 1) \<and> (\<forall>j \<in> set ls. 1 \<le> P ! j)
      \<and> (\<Sum>j \<in> R. P ! j) = real (card R)
      \<and> (\<forall>j \<in> D. 0 \<le> prob ! j \<and> prob ! j \<le> 1 \<and> unat (alias ! j) < n)
      \<and> (\<forall>i \<in> R. P ! i + donated prob alias D i = P0 ! i)
      \<and> (\<forall>i \<in> D. prob ! i + donated prob alias D i = P0 ! i))"

lemma alias_inv_step:
  assumes inv: "alias_inv P0 (s # ss) (l # ls) P prob alias" and n: "length P0 < 2 ^ 32"
  defines "prob' \<equiv> prob[s := P ! s]" and "alias' \<equiv> alias[s := of_nat l]"
    and "P' \<equiv> P[l := P ! l - (1 - P ! s)]"
  shows "P' ! l < 1 \<Longrightarrow> alias_inv P0 (l # ss) ls P' prob' alias'"
    and "\<not> P' ! l < 1 \<Longrightarrow> alias_inv P0 ss (l # ls) P' prob' alias'"
proof -
  let ?n = "length P0"
  define R where "R = set ss \<union> insert l (set ls)"
  define D where "D = {..<?n} - insert s R"
  have facts: "length P = ?n" "length prob = ?n" "length alias = ?n" "distinct (s # ss @ l # ls)"
    "insert s R \<subseteq> {..<?n}" "0 \<le> P ! s" "P ! s < 1" "1 \<le> P ! l"
    "\<forall>j \<in> set ss. 0 \<le> P ! j \<and> P ! j < 1" "\<forall>j \<in> set ls. 1 \<le> P ! j"
    "(\<Sum>j \<in> insert s R. P ! j) = real (card (insert s R))"
    "\<forall>j \<in> D. 0 \<le> prob ! j \<and> prob ! j \<le> 1 \<and> unat (alias ! j) < ?n"
    "\<forall>i \<in> insert s R. P ! i + donated prob alias D i = P0 ! i"
    "\<forall>i \<in> D. prob ! i + donated prob alias D i = P0 ! i"
    using inv unfolding alias_inv_def Let_def R_def D_def
    by (simp_all add: insert_commute)
  have fin: "finite R" "finite D" by (simp_all add: R_def D_def)
  have s: "s \<notin> R" "s \<notin> D" "s < ?n" and l: "l \<in> R" "l < ?n" "l \<noteq> s"
    using facts(4,5) by (auto simp: R_def D_def)
  have D': "{..<?n} - R = insert s D" using s facts(5) by (auto simp: D_def)
  have ul: "unat (of_nat l :: u32) = l" using l n by (simp add: unat_of_nat_eq)
  have same: "prob' ! j = prob ! j" "alias' ! j = alias ! j" if "j \<in> D" for j
  proof -
    have "s \<noteq> j" using that s(2) by blast
    then show "prob' ! j = prob ! j" "alias' ! j = alias ! j" by (simp_all add: prob'_def alias'_def)
  qed
  have at_s: "prob' ! s = P ! s" "unat (alias' ! s) = l" using s facts ul by (simp_all add: prob'_def alias'_def)
  have don: "donated prob' alias' (insert s D) i = donated prob alias D i + (if l = i then 1 - P ! s else 0)" for i
  proof -
    have "donated prob' alias' D i = donated prob alias D i"
      unfolding donated_def by (rule sum.cong) (simp_all add: same)
    then show ?thesis using fin s at_s by (simp add: donated_def)
  qed
  have P': "P' ! l = P ! l - (1 - P ! s)" "P' ! j = P ! j" if "j \<noteq> l" for j
    using l that facts(1) by (simp_all add: P'_def)
  have lP: "P' ! l = P ! l - (1 - P ! s)" using l facts(1) by (simp add: P'_def)
  have "(\<Sum>j \<in> R. P' ! j) = P' ! l + (\<Sum>j \<in> R - {l}. P ! j)"
    using fin l P'(2) by (simp add: sum.remove [of R l])
  also have "\<dots> = (\<Sum>j \<in> R. P ! j) - (1 - P ! s)"
    using fin l lP by (simp add: sum.remove [of R l])
  also have "\<dots> = real (card R)"
    using facts(11) fin s by simp
  finally have total: "(\<Sum>j \<in> R. P' ! j) = real (card R)" .
  have core: "length P' = ?n" "length prob' = ?n" "length alias' = ?n"
    "\<forall>j \<in> insert s D. 0 \<le> prob' ! j \<and> prob' ! j \<le> 1 \<and> unat (alias' ! j) < ?n"
    "\<forall>i \<in> R. P' ! i + donated prob' alias' (insert s D) i = P0 ! i"
    "\<forall>i \<in> insert s D. prob' ! i + donated prob' alias' (insert s D) i = P0 ! i"
  proof -
    show "length P' = ?n" "length prob' = ?n" "length alias' = ?n"
      using facts by (simp_all add: P'_def prob'_def alias'_def)
    show "\<forall>j \<in> insert s D. 0 \<le> prob' ! j \<and> prob' ! j \<le> 1 \<and> unat (alias' ! j) < ?n"
      using facts(6,7,12) same at_s l by auto
    show "\<forall>i \<in> R. P' ! i + donated prob' alias' (insert s D) i = P0 ! i"
    proof
      fix i assume i: "i \<in> R"
      then show "P' ! i + donated prob' alias' (insert s D) i = P0 ! i"
        using facts(13) lP P'(2) unfolding don by (cases "i = l") auto
    qed
    show "\<forall>i \<in> insert s D. prob' ! i + donated prob' alias' (insert s D) i = P0 ! i"
      using facts(13,14) same at_s l s unfolding don by (auto simp: D_def)
  qed
  have rest: "\<forall>j \<in> set ss. 0 \<le> P' ! j \<and> P' ! j < 1" "\<forall>j \<in> set ls. 1 \<le> P' ! j" "0 \<le> P' ! l"
  proof -
    have keep: "P' ! j = P ! j" if "j \<in> set ss \<union> set ls" for j
      using that facts(4) P'(2) [of j] by auto
    show "\<forall>j \<in> set ss. 0 \<le> P' ! j \<and> P' ! j < 1" "\<forall>j \<in> set ls. 1 \<le> P' ! j"
      using keep facts(9,10) by simp_all
    show "0 \<le> P' ! l" using lP facts(6,8) by simp
  qed
  have sets: "set (l # ss) \<union> set ls = R" "set ss \<union> set (l # ls) = R" by (auto simp: R_def)
  have order: "distinct ((l # ss) @ ls)" "distinct (ss @ l # ls)" "R \<subseteq> {..<?n}" using facts(4,5) by auto
  show "alias_inv P0 (l # ss) ls P' prob' alias'" if "P' ! l < 1"
  proof -
    have "\<forall>j \<in> set (l # ss). 0 \<le> P' ! j \<and> P' ! j < 1" using rest that by simp
    then show ?thesis
      unfolding alias_inv_def Let_def sets D' using core rest(2) total order by blast
  qed
  show "alias_inv P0 ss (l # ls) P' prob' alias'" if "\<not> P' ! l < 1"
  proof -
    have "\<forall>j \<in> set (l # ls). 1 \<le> P' ! j" using rest that by simp
    then show ?thesis
      unfolding alias_inv_def Let_def sets D' using core rest(1) total order by blast
  qed
qed

lemma alias_pair_inv:
  assumes "alias_inv P0 ss ls P prob alias" and "length P0 < 2 ^ 32"
    and "alias_pair id ss ls P prob alias = (ss', ls', prob', alias')"
  shows "(ss' = [] \<or> ls' = []) \<and> (\<exists>P'. alias_inv P0 ss' ls' P' prob' alias')"
  using assms
proof (induction "id :: real \<Rightarrow> real" ss ls P prob "alias" rule: alias_pair.induct)
  case (1 s ss l ls P prob al)
  let ?P = "P[l := P ! l - (1 - P ! s)]"
  note step = alias_inv_step [OF "1.prems"(1,2)]
  show ?case
  proof (cases "?P ! l < 1")
    case True
    then have "alias_pair id (l # ss) ls ?P (prob[s := P ! s]) (al[s := of_nat l]) = (ss', ls', prob', alias')"
      using "1.prems"(3) by (simp add: Let_def)
    then show ?thesis
      using "1.hyps"(1) [OF refl refl refl] step(1) True "1.prems"(2) by simp
  next
    case False
    then have "alias_pair id ss (l # ls) ?P (prob[s := P ! s]) (al[s := of_nat l]) = (ss', ls', prob', alias')"
      using "1.prems"(3) by (simp add: Let_def)
    then show ?thesis
      using "1.hyps"(2) [OF refl refl refl] step(2) False "1.prems"(2) by simp
  qed
qed auto

lemma fold_set_one:
  "length (fold (\<lambda>j p. p[j := 1]) js p) = length p"
  "i < length p \<Longrightarrow> fold (\<lambda>j p. p[j := 1]) js p ! i = (if i \<in> set js then 1 else p ! i)" for p :: "real list"
proof -
  show len: "length (fold (\<lambda>j p. p[j := 1]) js p) = length p" for p :: "real list"
    by (induction js arbitrary: p) simp_all
  show "i < length p \<Longrightarrow> fold (\<lambda>j p. p[j := 1]) js p ! i = (if i \<in> set js then 1 else p ! i)"
    by (induction js arbitrary: p) (auto simp: nth_list_update)
qed

text \<open>When one stack is empty, what is left carries mass 1 each.\<close>

lemma alias_rest_one:
  assumes inv: "alias_inv P0 ss ls P prob alias" and empty: "ss = [] \<or> ls = []"
  shows "ss = [] \<and> (\<forall>j \<in> set ls. P ! j = 1)"
proof -
  let ?R = "set ss \<union> set ls"
  have sum: "(\<Sum>j \<in> ?R. P ! j - 1) = 0"
    using inv by (simp add: alias_inv_def Let_def sum_subtractf)
  have small: "\<forall>j \<in> set ss. P ! j < 1" and large: "\<forall>j \<in> set ls. 1 \<le> P ! j"
    using inv by (simp_all add: alias_inv_def Let_def)
  from empty show ?thesis
  proof
    assume "ss = []"
    moreover from this have "\<forall>j \<in> set ls. P ! j - 1 = 0"
      using sum large sum_nonneg_eq_0_iff [of "set ls" "\<lambda>j. P ! j - 1"] by simp
    ultimately show ?thesis by simp
  next
    assume ls: "ls = []"
    have "ss = []"
    proof (rule ccontr)
      assume "ss \<noteq> []"
      then have "(\<Sum>j \<in> set ss. P ! j - 1) < (\<Sum>j \<in> set ss. 0)"
        using small by (intro sum_strict_mono) simp_all
      then show False using sum ls by simp
    qed
    with ls show ?thesis by simp
  qed
qed

lemma alias_build_exact:
  assumes nonneg: "\<forall>p \<in> set P. 0 \<le> p" and sum: "sum_list P = real (length P)" and n: "length P < 2 ^ 32"
    and build: "alias_build id P = (prob, alias)"
  shows "length prob = length P \<and> length alias = length P
    \<and> (\<forall>i < length P. 0 \<le> prob ! i \<and> prob ! i \<le> 1
         \<and> (prob ! i < 1 \<longrightarrow> unat (alias ! i) < length P)
         \<and> prob ! i + donated prob alias {..<length P} i = P ! i)"
proof -
  let ?n = "length P"
  let ?ss = "filter (\<lambda>j. P ! j < 1) [0..<?n]" and ?ls = "filter (\<lambda>j. \<not> P ! j < 1) [0..<?n]"
  obtain ss ls prob1 where pair: "alias_pair id ?ss ?ls P (replicate ?n 0) (replicate ?n 0) = (ss, ls, prob1, alias)"
    and prob: "prob = fold (\<lambda>j p. p[j := 1]) ls (fold (\<lambda>j p. p[j := 1]) ss prob1)"
    using build by (auto simp: alias_build_def alias_split_spec Let_def split: prod.splits)
  have R: "set ?ss \<union> set ?ls = {..<?n}" by auto
  have "alias_inv P ?ss ?ls P (replicate ?n 0) (replicate ?n 0)"
    using nonneg sum unfolding alias_inv_def Let_def R
    by (auto simp: donated_def sum_list_sum_nth atLeast0LessThan)
  from alias_pair_inv [OF this n pair] obtain P' where
    inv: "alias_inv P ss ls P' prob1 alias" and empty: "ss = [] \<or> ls = []"
    by blast
  from alias_rest_one [OF inv empty] have ss: "ss = []" and ones: "\<forall>j \<in> set ls. P' ! j = 1" by auto
  let ?D = "{..<?n} - set ls"
  have f: "length prob1 = ?n" "length alias = ?n" "set ls \<subseteq> {..<?n}"
    "\<forall>j \<in> ?D. 0 \<le> prob1 ! j \<and> prob1 ! j \<le> 1 \<and> unat (alias ! j) < ?n"
    "\<forall>i \<in> set ls. P' ! i + donated prob1 alias ?D i = P ! i"
    "\<forall>i \<in> ?D. prob1 ! i + donated prob1 alias ?D i = P ! i"
    using inv by (simp_all add: alias_inv_def Let_def ss)
  have at: "prob ! i = (if i \<in> set ls then 1 else prob1 ! i)" if "i < ?n" for i
    using that f(1) by (simp add: prob ss fold_set_one)
  have "donated prob alias {..<?n} i = donated prob1 alias ?D i" for i
  proof -
    have "donated prob alias {..<?n} i = donated prob alias ?D i + donated prob alias (set ls) i"
      unfolding donated_def using f(3) by (subst sum.subset_diff [of "set ls" "{..<?n}"]) simp_all
    also have "donated prob alias (set ls) i = 0"
      unfolding donated_def using at f(3) by (intro sum.neutral) auto
    also have "donated prob alias ?D i = donated prob1 alias ?D i"
      unfolding donated_def using at by (intro sum.cong) auto
    finally show ?thesis by simp
  qed
  then show ?thesis
    using f at ones by (auto simp: prob ss fold_set_one(1))
qed


lemma alias_shares_exact:
  assumes "alias_shares id f n W qs = Inr P"
  shows "length P = length qs \<and> (\<forall>i < length qs. P ! i = (if disabled (qs ! i) then 0 else f (qs ! i) * real n / W))"
  using assms
proof (induction qs arbitrary: P)
  case (Cons q qs)
  from Cons.prems obtain p ps where P: "P = p # ps" and ps: "alias_shares id f n W qs = Inr ps"
    and p: "(if disabled q then Inr 0 else fdiv id (id (f q * real n)) W) = Inr p"
    by (simp only: alias_shares.simps bind_result_Inr_iff) blast
  have "p = (if disabled q then 0 else f q * real n / W)"
    using p by (auto simp: fdiv_def split: if_splits)
  then show ?case using Cons.IH [OF ps] by (auto simp: P nth_Cons split: nat.splits)
qed simp

lemma explore_score_exact:
  assumes "qi < length (queue_buf afl)" and "schedule afl = EXPLORE" and "limit_time_sig afl = 0"
  shows "\<exists>s score afl'. calculate_score id rndl afl qi = Inr (score, afl')
    \<and> 2 \<le> s \<and> s \<le> 18000 \<and> unat score = min s (unat (havoc_max_mult afl) * 100)"
proof -
  let ?q = "queue_buf afl ! qi"
  define avg_us where "avg_us = (ucast (total_cal_us afl div ucast
      (if ucast (total_cal_cycles afl) = (0 :: u32) then 1 else ucast (total_cal_cycles afl) :: u32)) :: u32)"
  define avg_bm where "avg_bm = (ucast (total_bitmap_size afl div ucast
      (if ucast (total_bitmap_entries afl) = (0 :: u32) then 1 else ucast (total_bitmap_entries afl) :: u32)) :: u32)"
  obtain p where p: "score_bitmap id ?q avg_bm (score_speed id afl ?q avg_us) = Inr p" "2 \<le> unat p" "unat p \<le> 900"
    using score_bitmap_range [OF score_speed_range] by blast
  obtain p2 h where p2: "score_handicap ?q p = (p2, h)" by fastforce
  note r2 = score_handicap_range [OF p2 p(2,3)]
  let ?p3 = "score_depth ?q p2" and ?afl = "upd_q (\<lambda>e. e\<lparr>handicap := h\<rparr>) qi afl"
  have r3: "2 \<le> unat ?p3" "unat ?p3 \<le> 18000" using score_depth_range r2 by blast+
  have frame: "havoc_max_mult ?afl = havoc_max_mult afl" "limit_time_sig ?afl = limit_time_sig afl"
    by (simp_all add: upd_q_def)
  have "\<not> ?p3 < 1" using r3 by (auto simp: word_less_nat_alt)
  then have fin: "score_finish id ?afl ?q 1 ?p3 =
      Inr (if ?p3 > ucast (havoc_max_mult afl) * 100 then ucast (havoc_max_mult afl) * 100 else ?p3)"
    using assms by (simp add: score_finish_def frame schedule_order Let_def)
  have "calculate_score id rndl afl qi =
      Inr (if ?p3 > ucast (havoc_max_mult afl) * 100 then ucast (havoc_max_mult afl) * 100 else ?p3, ?afl)"
    using assms p(1) p2 fin
    by (simp add: calculate_score_def get_q_def Let_def score_schedule_def flip: avg_us_def avg_bm_def)
  moreover have "unat (if ?p3 > ucast (havoc_max_mult afl) * 100 then ucast (havoc_max_mult afl) * 100 else ?p3)
      = min (unat ?p3) (unat (havoc_max_mult afl) * 100)"
    by (simp add: word_less_nat_alt unat_score_limit min_def)
  ultimately show ?thesis using r3 by blast
qed

lemma demo_score_fields: "limit_time_sig queue_demo = 0" "havoc_max_mult queue_demo = 64"
  by (simp_all add: queue_demo_def afl_cov.extend_def)

section \<open>Properties\<close>

text \<open>(C12) The alias table is exact: in exact arithmetic, when the shares have been computed from non-negative values
  \<open>f\<close> of the enabled entries and their sum \<open>W > 0\<close>, drawing a slot uniformly and then taking the slot itself with
  its \<open>alias_probability\<close> or else its \<open>alias_table\<close> entry selects entry \<open>i\<close> with probability \<open>f i / W\<close>, and a
  disabled entry with probability 0.\<close>

theorem alias_table_distribution:
  assumes shares: "alias_shares id f (length qs) W qs = Inr P"
    and W: "W = (\<Sum>q \<leftarrow> qs. if disabled q then 0 else f q)" "0 < W"
    and nonneg: "\<forall>q \<in> set qs. \<not> disabled q \<longrightarrow> 0 \<le> f q"
    and n: "length qs < 2 ^ 32" and build: "alias_build id P = (prob, alias)" and i: "i < length qs"
  shows "(prob ! i + (\<Sum>j < length qs. if unat (alias ! j) = i then 1 - prob ! j else 0)) / real (length qs)
       = (if disabled (qs ! i) then 0 else f (qs ! i) / W)"
proof -
  note P = alias_shares_exact [OF shares]
  let ?n = "length qs" and ?g = "\<lambda>q. if disabled q then 0 else f q"
  have P_nth: "P ! k = ?g (qs ! k) * real ?n / W" if "k < ?n" for k using P that by simp
  have "\<forall>p \<in> set P. 0 \<le> p"
  proof
    fix p assume "p \<in> set P"
    then obtain k where k: "k < ?n" "p = P ! k" using P by (metis in_set_conv_nth)
    then have "0 \<le> ?g (qs ! k)" using nonneg by simp
    then show "0 \<le> p" using W(2) by (simp add: k P_nth)
  qed
  moreover have "sum_list P = real (length P)"
  proof -
    have "sum_list P = (\<Sum>k < ?n. ?g (qs ! k) * real ?n / W)"
      using P P_nth by (simp add: sum_list_sum_nth atLeast0LessThan)
    also have "\<dots> = (\<Sum>k < ?n. ?g (qs ! k)) * real ?n / W"
      by (simp only: sum_distrib_right sum_divide_distrib)
    also have "(\<Sum>k < ?n. ?g (qs ! k)) = W"
      unfolding W(1) by (simp add: sum_list_sum_nth atLeast0LessThan cong: if_cong)
    finally show ?thesis using W(2) P by simp
  qed
  ultimately have "prob ! i + donated prob alias {..<?n} i = P ! i"
    using alias_build_exact [OF _ _ _ build] n i P by simp
  then have "prob ! i + (\<Sum>j < ?n. if unat (alias ! j) = i then 1 - prob ! j else 0) = ?g (qs ! i) * real ?n / W"
    using P_nth [OF i] by (simp only: donated_def)
  then show ?thesis using i by (simp only:) (auto simp: field_simps)
qed

definition alias_demo :: "queue_entry list" where
  "alias_demo = [zero_entry\<lparr>weight_q := 3\<rparr>, zero_entry\<lparr>weight_q := 1\<rparr>]"

theorem alias_table_distribution_witness:
  "\<exists>prob al. alias_build id [3 / 2, 1 / 2] = (prob, al)
     \<and> (prob ! 0 + (\<Sum>j < 2. if unat (al ! j) = 0 then 1 - prob ! j else 0)) / 2 = 3 / 4"
proof -
  obtain prob al where build: "alias_build id [3 / 2, 1 / 2] = (prob, al)" by fastforce
  have "alias_shares id weight_q (length alias_demo) 4 alias_demo = Inr [3 / 2, 1 / 2]"
    by (simp add: alias_demo_def zero_entry_def fdiv_def)
  note draw = alias_table_distribution [OF this _ _ _ _ build, of 0]
  have two: "length alias_demo = 2" by (simp add: alias_demo_def)
  have "(prob ! 0 + (\<Sum>j < 2. if unat (al ! j) = 0 then 1 - prob ! j else 0)) / real 2
      = (if disabled (alias_demo ! 0) then 0 else weight_q (alias_demo ! 0) / 4)"
    using draw unfolding two by (simp add: alias_demo_def zero_entry_def)
  then show ?thesis
    using build by (simp add: alias_demo_def zero_entry_def)
qed

text \<open>(C29) \<open>calculate_score\<close>, for every rounding of the floating point operations and every schedule: a returned
  score never exceeds \<open>havoc_max_mult * 100\<close>; outside the \<open>COE\<close> schedule and MOpt mode it is at least 1; and the
  only change to the state is the entry's handicap, which drops by 4, by 1 or stays 0.\<close>

theorem calculate_score_bounds:
  assumes "calculate_score rnd rndl afl qi = Inr (score, afl')"
  shows "unat score \<le> unat (havoc_max_mult afl) * 100
    \<and> (schedule afl \<noteq> COE \<and> limit_time_sig afl = 0 \<and> 0 < havoc_max_mult afl \<longrightarrow> 1 \<le> unat score)
    \<and> (let h = handicap (queue_buf afl ! qi)
       in afl' = upd_q (\<lambda>e. e\<lparr>handicap := if h \<ge> 4 then h - 4 else if h \<noteq> 0 then h - 1 else h\<rparr>) qi afl)"
proof -
  let ?q = "queue_buf afl ! qi"
  from assms obtain perf p h factor p' where
    hand: "score_handicap ?q perf = (p, h)"
    and run: "score_finish rnd (upd_q (\<lambda>e. e\<lparr>handicap := h\<rparr>) qi afl) ?q factor p' = Inr score"
    and afl': "afl' = upd_q (\<lambda>e. e\<lparr>handicap := h\<rparr>) qi afl"
    by (auto simp: calculate_score_def step_Inr Let_def case_prod_unfold) (metis prod.collapse)
  have h: "h = (if handicap ?q \<ge> 4 then handicap ?q - 4 else if handicap ?q \<noteq> 0 then handicap ?q - 1 else handicap ?q)"
    using hand by (auto simp: score_handicap_def split: if_splits)
  have frame: "havoc_max_mult (upd_q f qi afl) = havoc_max_mult afl"
    "limit_time_sig (upd_q f qi afl) = limit_time_sig afl" for f
    by (simp_all add: upd_q_def)
  show ?thesis
    using score_finish_bounds [OF run] afl' unfolding Let_def h [symmetric] frame upd_q_frame by blast
qed

theorem calculate_score_bounds_witness:
  "\<exists>score afl'. calculate_score id id queue_demo 1 = Inr (score, afl') \<and> 1 \<le> unat score \<and> unat score \<le> 6400"
proof -
  obtain score afl' where run: "calculate_score id id queue_demo 1 = Inr (score, afl')"
    using explore_score_exact [of 1 queue_demo id] demo_score_fields by (auto simp: queue_demo_fields)
  show ?thesis
    using calculate_score_bounds [OF run] run demo_score_fields by (auto simp: queue_demo_fields)
qed

text \<open>The default schedule in exact arithmetic: \<open>EXPLORE\<close> always yields a score; before the clamp to
  \<open>havoc_max_mult * 100\<close> it lies between 2 and 18000, the product of the ranges of the four adjustments.\<close>

theorem explore_score_range:
  assumes "qi < length (queue_buf afl)" and "schedule afl = EXPLORE" and "limit_time_sig afl = 0"
  shows "\<exists>s score afl'. calculate_score id rndl afl qi = Inr (score, afl')
    \<and> 2 \<le> s \<and> s \<le> 18000 \<and> unat score = min s (unat (havoc_max_mult afl) * 100)"
  using explore_score_exact [OF assms] .

theorem explore_score_range_witness:
  "\<exists>s score afl'. calculate_score id id queue_demo 1 = Inr (score, afl') \<and> 2 \<le> s \<and> unat score = min s 6400"
  using explore_score_range [of 1 queue_demo id] demo_score_fields by (auto simp: queue_demo_fields)

end
