(* ===== verification/Afl_Testcache.thy ===== *)
theory Afl_Testcache
  imports Afl_Score
begin

text \<open>
  The test case cache at the end of \<open>src/afl-fuzz-queue.c\<close>: \<open>queue_testcase_retake\<close>,
  \<open>queue_testcase_retake_mem\<close>, \<open>queue_testcase_get\<close> with its random evictions, and
  \<open>queue_testcase_store_mem\<close>. The record \<open>afl_tc\<close> adds the cache fields of \<open>afl_state_t\<close>; the static
  variable \<open>do_once\<close> is a field too. Both loops of \<open>queue_testcase_get\<close> can fail to end (nothing left
  to evict), the value \<open>None\<close>.
\<close>

record afl_tc = afl_queue +
  q_testcase_max_cache_size :: u64
  q_testcase_max_cache_entries :: u32
  q_testcase_cache_size :: u64
  q_testcase_max_cache_count :: u32
  q_testcase_cache_count :: u32
  q_testcase_smallest_free :: u32
  q_testcase_evictions :: u32
  q_testcase_cache :: "qid option list"
  do_once :: bool

section \<open>Reloading after a trim\<close>

text \<open>\<open>open\<close>, \<open>ck_read\<close> of exactly \<open>n\<close> bytes, \<open>close\<close>.\<close>

definition load_file :: "'a afl_files_scheme \<Rightarrow> string \<Rightarrow> u32 \<Rightarrow> bytes result" where
  "load_file afl fn n =
     (case read_file afl fn of
        None \<Rightarrow> Inl (Fatal ''Unable to open'')
      | Some content \<Rightarrow>
          if length content < unat n then Inl (Fatal ''Short read'')
          else Inr (take (unat n) content))"

definition queue_testcase_retake :: "'a afl_tc_scheme \<Rightarrow> qid \<Rightarrow> u32 \<Rightarrow> 'a afl_tc_scheme result" where
  "queue_testcase_retake afl q old_len =
     bind_result (get_q afl q) (\<lambda>e.
     case testcase_buf e of
       None \<Rightarrow> Inr afl
     | Some buf \<Rightarrow>
         let n = len e;
             afl = (if n \<noteq> old_len
                    then afl\<lparr>q_testcase_cache_size := q_testcase_cache_size afl + ucast n - ucast old_len\<rparr>
                    else afl)
         in bind_result (load_file afl (fname e) n) (\<lambda>data.
            Inr (upd_q (\<lambda>e. e\<lparr>testcase_buf := Some data\<rparr>) q afl)))"

text \<open>\<open>is_same\<close> is the comparison of the pointers \<open>in\<close> and \<open>q->testcase_buf\<close>; then the buffer itself is
  resized and nothing is copied, and bytes beyond its old length are not initialised.\<close>

definition queue_testcase_retake_mem ::
  "'a afl_tc_scheme \<Rightarrow> qid \<Rightarrow> bool \<Rightarrow> bytes \<Rightarrow> u32 \<Rightarrow> u32 \<Rightarrow> 'a afl_tc_scheme result" where
  "queue_testcase_retake_mem afl q is_same mem n old_len =
     bind_result (get_q afl q) (\<lambda>e.
     case testcase_buf e of
       None \<Rightarrow> Inr afl
     | Some buf \<Rightarrow>
         let afl = (if n \<noteq> old_len
                    then afl\<lparr>q_testcase_cache_size := q_testcase_cache_size afl + ucast n - ucast old_len\<rparr>
                    else afl)
         in if is_same then
              if n = old_len then Inr afl
              else if length buf < unat n then Inl (Out_of_bounds ''testcase_buf'')
              else Inr (upd_q (\<lambda>e. e\<lparr>testcase_buf := Some (take (unat n) buf)\<rparr>) q afl)
            else if length mem < unat n then Inl (Out_of_bounds ''in'')
            else if n = old_len \<and> length buf < unat n then Inl (Out_of_bounds ''testcase_buf'')
            else Inr (upd_q (\<lambda>e. e\<lparr>testcase_buf := Some (take (unat n) mem
                        @ (if n = old_len then drop (unat n) buf else []))\<rparr>) q afl))"

section \<open>Looking up and storing\<close>

fun next_free :: "qid option list \<Rightarrow> nat \<Rightarrow> nat \<Rightarrow> nat result" where
  "next_free cache 0 tid = Inl (Out_of_bounds ''q_testcase_cache'')"
| "next_free cache (Suc k) tid =
     bind_result (get_at ''q_testcase_cache'' cache tid) (\<lambda>slot.
     if slot \<noteq> None then next_free cache k (tid + 1) else Inr tid)"

text \<open>\<open>while (cache[tid] != NULL) ++tid\<close>; after as many steps as there are slots it has left the array.\<close>

definition find_free :: "qid option list \<Rightarrow> nat \<Rightarrow> nat result" where
  "find_free cache tid = next_free cache (Suc (length cache)) tid"

definition register_testcase :: "qid \<Rightarrow> nat \<Rightarrow> bytes \<Rightarrow> u32 \<Rightarrow> 'a afl_tc_scheme \<Rightarrow> 'a afl_tc_scheme" where
  "register_testcase q tid data n afl =
     (let afl = upd_q (\<lambda>e. e\<lparr>testcase_buf := Some data\<rparr>) q afl;
          afl = afl\<lparr>q_testcase_cache := (q_testcase_cache afl)[tid := Some q],
                    q_testcase_cache_size := q_testcase_cache_size afl + ucast n,
                    q_testcase_cache_count := q_testcase_cache_count afl + 1\<rparr>
      in if of_nat tid \<ge> q_testcase_max_cache_count afl
         then afl\<lparr>q_testcase_max_cache_count := of_nat tid + 1\<rparr>
         else if of_nat tid = q_testcase_smallest_free afl
         then afl\<lparr>q_testcase_smallest_free := of_nat tid + 1\<rparr>
         else afl)"

definition cache_full :: "'a afl_tc_scheme \<Rightarrow> u32 \<Rightarrow> bool" where
  "cache_full afl n \<longleftrightarrow>
     q_testcase_cache_size afl + ucast n \<ge> q_testcase_max_cache_size afl
     \<or> q_testcase_cache_count afl \<ge> q_testcase_max_cache_entries afl - 1"

definition queue_testcase_store_mem :: "'a afl_tc_scheme \<Rightarrow> qid \<Rightarrow> bytes \<Rightarrow> 'a afl_tc_scheme result" where
  "queue_testcase_store_mem afl q mem =
     bind_result (get_q afl q) (\<lambda>e.
     let n = len e in
     if cache_full afl n then Inr afl
     else
       let tid = (if q_testcase_max_cache_count afl \<ge> q_testcase_max_cache_entries afl
                  then q_testcase_smallest_free afl else q_testcase_max_cache_count afl)
       in bind_result (find_free (q_testcase_cache afl) (unat tid)) (\<lambda>tid.
          if length mem < unat n then Inl (Out_of_bounds ''mem'')
          else Inr (register_testcase q tid (take (unat n) mem) n afl)))"

definition learn_cache_entries :: "u32 \<Rightarrow> 'a afl_tc_scheme \<Rightarrow> 'a afl_tc_scheme" where
  "learn_cache_entries n afl =
     (if q_testcase_cache_size afl + ucast n \<ge> q_testcase_max_cache_size afl
         \<and> (q_testcase_cache_count afl < q_testcase_max_cache_entries afl
            \<and> q_testcase_max_cache_count afl < q_testcase_max_cache_entries afl)
         \<and> \<not> do_once afl
      then
        let m = (if q_testcase_max_cache_count afl > q_testcase_cache_count afl
                 then q_testcase_max_cache_count afl + 1 else q_testcase_cache_count afl + 1)
        in afl\<lparr>q_testcase_max_cache_entries := m, do_once := True,
               q_testcase_cache := take (unat (m + 1)) (q_testcase_cache afl)\<rparr>
      else afl)"

partial_function (option) pick_victim ::
  "'a afl_tc_scheme \<Rightarrow> (nat \<times> qid \<times> 'a afl_tc_scheme) result option" where
  "pick_victim afl =
     (case rand_below afl (q_testcase_max_cache_count afl) of
        None \<Rightarrow> None
      | Some (tid, afl) \<Rightarrow>
          (case get_at ''q_testcase_cache'' (q_testcase_cache afl) (unat tid) of
             Inl err \<Rightarrow> Some (Inl err)
           | Inr slot \<Rightarrow>
               (case slot of
                  None \<Rightarrow> pick_victim afl
                | Some old \<Rightarrow> if queue_cur afl = Some old then pick_victim afl
                              else Some (Inr (unat tid, old, afl)))))"

definition evict_testcase :: "nat \<Rightarrow> qid \<Rightarrow> 'a afl_tc_scheme \<Rightarrow> 'a afl_tc_scheme result" where
  "evict_testcase tid old afl =
     bind_result (get_q afl old) (\<lambda>e.
     let afl = upd_q (\<lambda>e. e\<lparr>testcase_buf := None\<rparr>) old afl;
         afl = afl\<lparr>q_testcase_cache_size := q_testcase_cache_size afl - ucast (len e),
                   q_testcase_cache := (q_testcase_cache afl)[tid := None],
                   q_testcase_cache_count := q_testcase_cache_count afl - 1,
                   q_testcase_evictions := q_testcase_evictions afl + 1\<rparr>
     in Inr (if of_nat tid < q_testcase_smallest_free afl
             then afl\<lparr>q_testcase_smallest_free := of_nat tid\<rparr> else afl))"

partial_function (option) make_room ::
  "u32 \<Rightarrow> nat \<Rightarrow> 'a afl_tc_scheme \<Rightarrow> (nat \<times> 'a afl_tc_scheme) result option" where
  "make_room n tid afl =
     (if \<not> cache_full afl n then Some (Inr (tid, afl))
      else
        (case pick_victim (learn_cache_entries n afl) of
           None \<Rightarrow> None
         | Some (Inl err) \<Rightarrow> Some (Inl err)
         | Some (Inr (tid, old, afl)) \<Rightarrow>
             (case evict_testcase tid old afl of
                Inl err \<Rightarrow> Some (Inl err)
              | Inr afl \<Rightarrow> make_room n tid afl)))"

definition cache_load :: "qid \<Rightarrow> queue_entry \<Rightarrow> nat \<Rightarrow> 'a afl_tc_scheme \<Rightarrow> (bytes \<times> 'a afl_tc_scheme) result" where
  "cache_load q e tid afl =
     (let tid = (if tid \<ge> unat (q_testcase_max_cache_entries afl)
                 then unat (q_testcase_smallest_free afl) else tid)
      in bind_result (find_free (q_testcase_cache afl) tid) (\<lambda>tid.
         bind_result (load_file afl (fname e) (len e)) (\<lambda>data.
         Inr (data, register_testcase q tid data (len e) afl))))"

definition queue_testcase_get :: "'a afl_tc_scheme \<Rightarrow> qid \<Rightarrow> (bytes \<times> 'a afl_tc_scheme) result option" where
  "queue_testcase_get afl q =
     (case get_q afl q of
        Inl err \<Rightarrow> Some (Inl err)
      | Inr e \<Rightarrow>
          if q_testcase_max_cache_size afl = 0
          then Some (bind_result (load_file afl (fname e) (len e)) (\<lambda>data. Inr (data, afl)))
          else case testcase_buf e of
            Some buf \<Rightarrow> Some (Inr (buf, afl))
          | None \<Rightarrow>
              (case make_room (len e) (unat (q_testcase_max_cache_count afl)) afl of
                 None \<Rightarrow> None
               | Some (Inl err) \<Rightarrow> Some (Inl err)
               | Some (Inr (tid, afl)) \<Rightarrow> Some (cache_load q e tid afl)))"


section \<open>The cache invariant\<close>

definition slot_len :: "queue_entry list \<Rightarrow> qid option \<Rightarrow> nat" where
  "slot_len qs slot = (case slot of None \<Rightarrow> 0 | Some e \<Rightarrow> unat (len (qs ! e)))"

text \<open>
  The slots name distinct entries, exactly those with a buffer, and each buffer has the entry's length; the
  counters are the number of used slots and the sum of the cached lengths; slots from
  \<open>q_testcase_max_cache_count\<close> on are free and slots below \<open>q_testcase_smallest_free\<close> are used.
\<close>

definition tc_wf :: "'a afl_tc_scheme \<Rightarrow> bool" where
  "tc_wf afl \<longleftrightarrow>
     (let cache = q_testcase_cache afl; qs = queue_buf afl in
      (\<forall>e. Some e \<in> set cache \<longrightarrow> e < length qs)
      \<and> distinct (filter (\<lambda>s. s \<noteq> None) cache)
      \<and> (\<forall>e < length qs. (testcase_buf (qs ! e) \<noteq> None) = (Some e \<in> set cache))
      \<and> (\<forall>e < length qs. \<forall>b. testcase_buf (qs ! e) = Some b \<longrightarrow> length b = unat (len (qs ! e)))
      \<and> unat (q_testcase_cache_count afl) = length (filter (\<lambda>s. s \<noteq> None) cache)
      \<and> unat (q_testcase_cache_size afl) = (\<Sum>s \<leftarrow> cache. slot_len qs s)
      \<and> (\<forall>i < length cache. unat (q_testcase_max_cache_count afl) \<le> i \<longrightarrow> cache ! i = None)
      \<and> (\<forall>i < length cache. i < unat (q_testcase_smallest_free afl) \<longrightarrow> cache ! i \<noteq> None)
      \<and> 0 < unat (q_testcase_max_cache_entries afl)
      \<and> unat (q_testcase_max_cache_entries afl) \<le> length cache
      \<and> unat (q_testcase_max_cache_count afl) \<le> length cache
      \<and> length cache < 2 ^ 32 - 1)"

lemma tc_wfD:
  assumes "tc_wf afl"
  shows "\<And>e. Some e \<in> set (q_testcase_cache afl) \<Longrightarrow> e < length (queue_buf afl)"
    and "distinct (filter (\<lambda>s. s \<noteq> None) (q_testcase_cache afl))"
    and "\<And>e. e < length (queue_buf afl) \<Longrightarrow>
           (testcase_buf (queue_buf afl ! e) \<noteq> None) = (Some e \<in> set (q_testcase_cache afl))"
    and "\<And>e b. e < length (queue_buf afl) \<Longrightarrow> testcase_buf (queue_buf afl ! e) = Some b \<Longrightarrow>
           length b = unat (len (queue_buf afl ! e))"
    and "unat (q_testcase_cache_count afl) = length (filter (\<lambda>s. s \<noteq> None) (q_testcase_cache afl))"
    and "unat (q_testcase_cache_size afl) = (\<Sum>s \<leftarrow> q_testcase_cache afl. slot_len (queue_buf afl) s)"
    and "\<And>i. i < length (q_testcase_cache afl) \<Longrightarrow> unat (q_testcase_max_cache_count afl) \<le> i \<Longrightarrow>
           q_testcase_cache afl ! i = None"
    and "\<And>i. i < length (q_testcase_cache afl) \<Longrightarrow> i < unat (q_testcase_smallest_free afl) \<Longrightarrow>
           q_testcase_cache afl ! i \<noteq> None"
    and "0 < unat (q_testcase_max_cache_entries afl)"
    and "unat (q_testcase_max_cache_entries afl) \<le> length (q_testcase_cache afl)"
    and "unat (q_testcase_max_cache_count afl) \<le> length (q_testcase_cache afl)"
    and "length (q_testcase_cache afl) < 2 ^ 32 - 1"
  using assms unfolding tc_wf_def Let_def by simp_all

lemma sum_slots_update:
  "i < length xs \<Longrightarrow> (\<Sum>s \<leftarrow> xs[i := y]. f s) + f (xs ! i) = (\<Sum>s \<leftarrow> xs. f s) + (f y :: nat)"
proof (induction xs arbitrary: i)
  case (Cons x xs)
  show ?case
  proof (cases i)
    case (Suc k)
    then show ?thesis using Cons.IH [of k] Cons.prems by simp
  qed simp
qed simp

lemma distinct_filter_update:
  assumes "distinct (filter (\<lambda>s. s \<noteq> None) xs)" and "i < length xs" and "xs ! i = None" and "Some e \<notin> set xs"
  shows "distinct (filter (\<lambda>s. s \<noteq> None) (xs[i := Some e]))"
proof -
  have xs: "xs = take i xs @ None # drop (Suc i) xs"
    using assms(2,3) by (metis id_take_nth_drop)
  have upd: "xs[i := Some e] = take i xs @ Some e # drop (Suc i) xs"
    using assms(2) by (rule upd_conv_take_nth_drop)
  have "distinct (filter (\<lambda>s. s \<noteq> None) (take i xs @ drop (Suc i) xs))"
    using assms(1) by (subst (asm) xs) simp
  moreover have "Some e \<notin> set (take i xs) \<union> set (drop (Suc i) xs)"
    using assms(4) by (auto dest: in_set_takeD in_set_dropD)
  ultimately show ?thesis unfolding upd by auto
qed

lemma slots_total_less:
  fixes qs :: "queue_entry list"
  assumes "length cache \<le> 2 ^ 32 - 1"
  shows "(\<Sum>s \<leftarrow> cache. slot_len qs s) < 2 ^ 64"
proof -
  have "slot_len qs s \<le> 2 ^ 32 - 1" for s
    using unat_u32_less [of "len (qs ! the s)"] by (auto simp: slot_len_def split: option.split)
  then have "(\<Sum>s \<leftarrow> cache. slot_len qs s) \<le> length cache * (2 ^ 32 - 1)"
    using sum_list_mono [of cache "slot_len qs" "\<lambda>_. 2 ^ 32 - 1"] by (simp add: sum_list_triv)
  also have "\<dots> \<le> (2 ^ 32 - 1) * (2 ^ 32 - 1)" using assms by (intro mult_right_mono) simp_all
  also have "\<dots> < (2 :: nat) ^ 64" by simp
  finally show ?thesis .
qed

lemma unat_ucast_u32_64 [simp]: "unat (ucast (n :: u32) :: u64) = unat n"
  by (rule unat_ucast_u32)

lemma len_nth_update:
  assumes "\<And>e. len (f e) = len e"
  shows "len (qs[q := f (qs ! q)] ! i) = len (qs ! i)"
proof (cases "i = q")
  case True
  then show ?thesis using assms by (cases "q < length qs") (simp_all add: list_update_beyond)
qed simp

lemma slot_len_upd: "(\<And>e. len (f e) = len e) \<Longrightarrow> slot_len (qs[q := f (qs ! q)]) = slot_len qs"
  by (rule ext) (simp add: slot_len_def len_nth_update split: option.split)

lemma set_update_free:
  assumes "i < length xs" and "xs ! i = None"
  shows "Some d \<in> set (xs[i := y]) \<longleftrightarrow> y = Some d \<or> Some d \<in> set xs"
proof
  assume "y = Some d \<or> Some d \<in> set xs"
  then show "Some d \<in> set (xs[i := y])"
  proof
    assume "Some d \<in> set xs"
    then obtain k where k: "k < length xs" "xs ! k = Some d" by (auto simp: in_set_conv_nth)
    with assms have "k \<noteq> i" by auto
    then have "xs[i := y] ! k = Some d" using k by simp
    with k show ?thesis using nth_mem [of k "xs[i := y]"] by simp
  qed (use assms in \<open>simp add: set_update_memI\<close>)
qed (use set_update_subset_insert [of xs i y] in auto)

lemma register_testcase_fields:
  "q_testcase_cache (register_testcase q tid data n afl) = (q_testcase_cache afl)[tid := Some q]"
  "queue_buf (register_testcase q tid data n afl)
     = (queue_buf afl)[q := (queue_buf afl ! q)\<lparr>testcase_buf := Some data\<rparr>]"
  "q_testcase_cache_size (register_testcase q tid data n afl) = q_testcase_cache_size afl + ucast n"
  "q_testcase_cache_count (register_testcase q tid data n afl) = q_testcase_cache_count afl + 1"
  "q_testcase_max_cache_count (register_testcase q tid data n afl) =
     (if of_nat tid \<ge> q_testcase_max_cache_count afl then of_nat tid + 1 else q_testcase_max_cache_count afl)"
  "q_testcase_smallest_free (register_testcase q tid data n afl) =
     (if \<not> of_nat tid \<ge> q_testcase_max_cache_count afl \<and> of_nat tid = q_testcase_smallest_free afl
      then of_nat tid + 1 else q_testcase_smallest_free afl)"
  "q_testcase_max_cache_entries (register_testcase q tid data n afl) = q_testcase_max_cache_entries afl"
  "q_testcase_max_cache_size (register_testcase q tid data n afl) = q_testcase_max_cache_size afl"
  by (auto simp: register_testcase_def Let_def upd_q_def)

lemma register_testcase_wf:
  assumes wf: "tc_wf afl" and q: "q < length (queue_buf afl)" and new: "testcase_buf (queue_buf afl ! q) = None"
    and tid: "tid < length (q_testcase_cache afl)" and free: "q_testcase_cache afl ! tid = None"
    and data: "length data = unat (len (queue_buf afl ! q))"
  shows "tc_wf (register_testcase q tid data (len (queue_buf afl ! q)) afl)"
proof -
  let ?cache = "q_testcase_cache afl" and ?qs = "queue_buf afl" and ?e = "queue_buf afl ! q"
  let ?qs' = "?qs[q := ?e\<lparr>testcase_buf := Some data\<rparr>]" and ?cache' = "(q_testcase_cache afl)[tid := Some q]"
  note w = tc_wfD [OF wf]
  have notin: "Some q \<notin> set ?cache" using w(3) [OF q] new by simp
  have t32: "tid < 2 ^ 32 - 1" using w(12) tid by linarith
  then have ut1: "unat (of_nat tid :: u32) = tid" by (intro unat_of_nat_eq) simp
  then have ut: "unat (of_nat tid :: u32) = tid" "unat (of_nat tid + 1 :: u32) = Suc tid"
    using t32 by (simp_all only: ut1) (subst unat_add_small, simp_all only: ut1, simp_all)
  have mem: "Some d \<in> set ?cache' \<longleftrightarrow> d = q \<or> Some d \<in> set ?cache" for d
    using set_update_free [OF tid free, of d "Some q"] by auto
  have count: "length (filter (\<lambda>s. s \<noteq> None) ?cache') = Suc (length (filter (\<lambda>s. s \<noteq> None) ?cache))"
    using length_filter_update [of tid ?cache "\<lambda>s. s \<noteq> None" "Some q"] tid free by simp
  have sum: "(\<Sum>s \<leftarrow> ?cache'. slot_len ?qs s) = (\<Sum>s \<leftarrow> ?cache. slot_len ?qs s) + unat (len ?e)"
    using sum_slots_update [OF tid, of "slot_len ?qs" "Some q"] free by (simp add: slot_len_def)
  have "(\<Sum>s \<leftarrow> ?cache'. slot_len ?qs s) < 2 ^ 64"
    by (rule slots_total_less) (use w(12) in simp)
  then have size: "unat (q_testcase_cache_size afl + ucast (len ?e)) = (\<Sum>s \<leftarrow> ?cache'. slot_len ?qs s)"
    using w(6) sum by (subst unat_add_small) simp_all
  have "Suc (length (filter (\<lambda>s. s \<noteq> None) ?cache)) \<le> length ?cache"
    using length_filter_le [of "\<lambda>s. s \<noteq> None" ?cache'] unfolding count by simp
  then have cnt: "unat (q_testcase_cache_count afl + 1) = length (filter (\<lambda>s. s \<noteq> None) ?cache')"
    unfolding count using w(5,12) by (subst unat_add_small) simp_all
  have slots: "slot_len ?qs' = slot_len ?qs" by (rule slot_len_upd) simp
  have i1: "?cache' ! i = None"
    if i: "i < length ?cache'" "unat (if of_nat tid \<ge> q_testcase_max_cache_count afl then of_nat tid + 1
             else q_testcase_max_cache_count afl) \<le> i" for i
  proof -
    have "unat (q_testcase_max_cache_count afl) \<le> i \<and> i \<noteq> tid"
      using i(2) ut by (auto simp: word_le_nat_alt split: if_splits)
    then show ?thesis using w(7) [of i] i(1) by simp
  qed
  have i2: "?cache' ! i \<noteq> None"
    if i: "i < length ?cache'" "i < unat (if \<not> of_nat tid \<ge> q_testcase_max_cache_count afl
             \<and> of_nat tid = q_testcase_smallest_free afl then of_nat tid + 1
             else q_testcase_smallest_free afl)" for i
  proof -
    have "i < unat (q_testcase_smallest_free afl) \<or> i = tid"
      using i(2) ut by (auto split: if_splits)
    then show ?thesis using w(8) [of i] i(1) by (cases "i = tid") simp_all
  qed
  have i3: "unat (if of_nat tid \<ge> q_testcase_max_cache_count afl then of_nat tid + 1
             else q_testcase_max_cache_count afl) \<le> length ?cache'"
    using ut tid w(11) by simp
  show ?thesis
    unfolding tc_wf_def Let_def register_testcase_fields slots
  proof (intro conjI)
    show "\<forall>e. Some e \<in> set ?cache' \<longrightarrow> e < length ?qs'" using mem q w(1) by auto
    show "distinct (filter (\<lambda>s. s \<noteq> None) ?cache')" by (rule distinct_filter_update [OF w(2) tid free notin])
    show "\<forall>e < length ?qs'. (testcase_buf (?qs' ! e) \<noteq> None) = (Some e \<in> set ?cache')"
      using mem q w(3) by (auto simp: nth_list_update_if)
    show "\<forall>e < length ?qs'. \<forall>b. testcase_buf (?qs' ! e) = Some b \<longrightarrow> length b = unat (len (?qs' ! e))"
      using w(4) q data by (auto simp: nth_list_update_if)
  qed (use cnt size i1 i2 i3 w(9,10,12) in simp_all)
qed


text \<open>Evicting a cached entry undoes its registration; truncating the slot array drops free slots only.\<close>

lemma evict_testcase_fields:
  assumes "evict_testcase tid old afl = Inr afl'"
  shows "old < length (queue_buf afl)"
    and "queue_buf afl' = (queue_buf afl)[old := (queue_buf afl ! old)\<lparr>testcase_buf := None\<rparr>]"
    and "q_testcase_cache afl' = (q_testcase_cache afl)[tid := None]"
    and "q_testcase_cache_size afl' = q_testcase_cache_size afl - ucast (len (queue_buf afl ! old))"
    and "q_testcase_cache_count afl' = q_testcase_cache_count afl - 1"
    and "q_testcase_max_cache_count afl' = q_testcase_max_cache_count afl"
    and "q_testcase_max_cache_entries afl' = q_testcase_max_cache_entries afl"
    and "q_testcase_max_cache_size afl' = q_testcase_max_cache_size afl"
    and "q_testcase_smallest_free afl' =
           (if of_nat tid < q_testcase_smallest_free afl then of_nat tid else q_testcase_smallest_free afl)"
    and "queue_cur afl' = queue_cur afl" and "fs afl' = fs afl" and "fs_deny afl' = fs_deny afl"
  using assms by (auto simp: evict_testcase_def step_Inr Let_def upd_q_def)

lemma distinct_filter_remove:
  assumes "distinct (filter (\<lambda>s. s \<noteq> None) xs)" and i: "i < length xs" and e: "xs ! i = Some e"
  shows "distinct (filter (\<lambda>s. s \<noteq> None) (xs[i := None])) \<and> Some e \<notin> set (xs[i := None])"
proof -
  have xs: "xs = take i xs @ Some e # drop (Suc i) xs"
    using i e by (metis id_take_nth_drop)
  have upd: "xs[i := None] = take i xs @ None # drop (Suc i) xs"
    using i by (rule upd_conv_take_nth_drop)
  have "distinct (filter (\<lambda>s. s \<noteq> None) (take i xs @ Some e # drop (Suc i) xs))"
    using assms(1) by (subst (asm) xs)
  then show ?thesis unfolding upd by auto
qed

lemma evict_testcase_wf:
  assumes wf: "tc_wf afl" and tid: "tid < length (q_testcase_cache afl)"
    and slot: "q_testcase_cache afl ! tid = Some old"
  shows "\<exists>afl'. evict_testcase tid old afl = Inr afl' \<and> tc_wf afl'"
proof -
  let ?cache = "q_testcase_cache afl" and ?qs = "queue_buf afl" and ?e = "queue_buf afl ! old"
  let ?qs' = "?qs[old := ?e\<lparr>testcase_buf := None\<rparr>]" and ?cache' = "(q_testcase_cache afl)[tid := None]"
  note w = tc_wfD [OF wf]
  have old: "old < length ?qs" using w(1) slot tid nth_mem by metis
  then obtain afl' where ev: "evict_testcase tid old afl = Inr afl'"
    by (auto simp: evict_testcase_def get_q_def Let_def)
  note f = evict_testcase_fields [OF ev]
  have ut: "unat (of_nat tid :: u32) = tid" using w(12) tid by (intro unat_of_nat_eq) simp
  note dist = distinct_filter_remove [OF w(2) tid slot]
  have undo: "?cache'[tid := Some old] = ?cache" using slot by (metis list_update_id list_update_overwrite)
  have mem: "Some d \<in> set ?cache' \<longleftrightarrow> d \<noteq> old \<and> Some d \<in> set ?cache" for d
    using set_update_free [of tid ?cache' d "Some old", unfolded undo] tid dist by auto
  have count: "Suc (length (filter (\<lambda>s. s \<noteq> None) ?cache')) = length (filter (\<lambda>s. s \<noteq> None) ?cache)"
    using length_filter_update [of tid ?cache' "\<lambda>s. s \<noteq> None" "Some old", unfolded undo] tid by simp
  have sum: "(\<Sum>s \<leftarrow> ?cache'. slot_len ?qs s) + unat (len ?e) = (\<Sum>s \<leftarrow> ?cache. slot_len ?qs s)"
    using sum_slots_update [OF tid, of "slot_len ?qs" None] slot by (simp add: slot_len_def)
  have size: "unat (q_testcase_cache_size afl - ucast (len ?e)) = (\<Sum>s \<leftarrow> ?cache'. slot_len ?qs s)"
    using w(6) sum by (subst unat_sub) (simp_all add: word_le_nat_alt)
  have cnt: "unat (q_testcase_cache_count afl - 1) = length (filter (\<lambda>s. s \<noteq> None) ?cache')"
    using w(5) unfolding count [symmetric] by (subst unat_sub) (simp_all add: word_le_nat_alt)
  have slots: "slot_len ?qs' = slot_len ?qs" by (rule slot_len_upd) simp
  have i2: "?cache' ! i \<noteq> None" if i: "i < length ?cache'"
    "i < unat (if of_nat tid < q_testcase_smallest_free afl then of_nat tid
       else q_testcase_smallest_free afl)" for i
  proof -
    have "i < unat (q_testcase_smallest_free afl) \<and> i \<noteq> tid"
      using i(2) ut by (auto simp: word_less_nat_alt split: if_splits)
    then show ?thesis using w(8) [of i] i(1) by (auto simp: nth_list_update_if)
  qed
  have "tc_wf afl'"
    unfolding tc_wf_def Let_def f slots
  proof (intro conjI)
    show "\<forall>e. Some e \<in> set ?cache' \<longrightarrow> e < length ?qs'" using mem w(1) by auto
    show "distinct (filter (\<lambda>s. s \<noteq> None) ?cache')" using dist by simp
    show "\<forall>e < length ?qs'. (testcase_buf (?qs' ! e) \<noteq> None) = (Some e \<in> set ?cache')"
    proof (intro allI impI)
      fix e assume "e < length ?qs'"
      then show "(testcase_buf (?qs' ! e) \<noteq> None) = (Some e \<in> set ?cache')"
        using mem [of e] w(3) [of e] by (cases "e = old") simp_all
    qed
    show "\<forall>e < length ?qs'. \<forall>b. testcase_buf (?qs' ! e) = Some b \<longrightarrow> length b = unat (len (?qs' ! e))"
    proof (intro allI impI)
      fix e b assume "e < length ?qs'" "testcase_buf (?qs' ! e) = Some b"
      then show "length b = unat (len (?qs' ! e))" using w(4) [of e b] by (cases "e = old") simp_all
    qed
    show "\<forall>i < length ?cache'. unat (q_testcase_max_cache_count afl) \<le> i \<longrightarrow> ?cache' ! i = None"
      using w(7) by (auto simp: nth_list_update_if)
  qed (use cnt size i2 w(9-12) in simp_all)
  with ev show ?thesis by blast
qed


lemma learn_cache_entries_wf:
  assumes wf: "tc_wf afl"
  shows "tc_wf (learn_cache_entries n afl)"
proof (cases "q_testcase_cache_size afl + ucast n \<ge> q_testcase_max_cache_size afl
         \<and> (q_testcase_cache_count afl < q_testcase_max_cache_entries afl
            \<and> q_testcase_max_cache_count afl < q_testcase_max_cache_entries afl)
         \<and> \<not> do_once afl")
  case True
  let ?cache = "q_testcase_cache afl"
  define m where "m = (if q_testcase_max_cache_count afl > q_testcase_cache_count afl
    then q_testcase_max_cache_count afl + 1 else q_testcase_cache_count afl + 1)"
  note w = tc_wfD [OF wf]
  have eq: "learn_cache_entries n afl = afl\<lparr>q_testcase_max_cache_entries := m, do_once := True,
        q_testcase_cache := take (unat (m + 1)) ?cache\<rparr>"
    unfolding learn_cache_entries_def Let_def m_def by (simp only: True if_True simp_thms)
  have suc: "unat (x + 1) = Suc (unat x)" if "unat x < length ?cache" for x :: u32
    using that w(12) by (subst unat_add_small) simp_all
  have m: "0 < unat m" "unat m \<le> length ?cache" "unat (q_testcase_max_cache_count afl) < unat m"
    using True suc w(10) by (auto simp: m_def word_less_nat_alt)
  have m1: "unat (m + 1) = Suc (unat m)" using m(2) w(12) by (subst unat_add_small) simp_all
  have "drop (Suc (unat m)) ?cache = replicate (length ?cache - Suc (unat m)) None"
    using m(3) w(7) by (intro nth_equalityI) simp_all
  then obtain k where split: "?cache = take (Suc (unat m)) ?cache @ replicate k None"
    by (metis append_take_drop_id)
  let ?t = "take (Suc (unat m)) ?cache"
  have filt: "filter (\<lambda>s. s \<noteq> None) ?cache = filter (\<lambda>s. s \<noteq> None) ?t"
    by (subst split) simp
  have mem: "Some e \<in> set ?cache \<longleftrightarrow> Some e \<in> set ?t" for e by (subst split) simp
  have sums: "(\<Sum>s \<leftarrow> ?cache. slot_len (queue_buf afl) s) = (\<Sum>s \<leftarrow> ?t. slot_len (queue_buf afl) s)"
    by (subst split) (simp add: slot_len_def sum_list_replicate)
  show ?thesis
    unfolding eq tc_wf_def Let_def
    using w m by (simp add: m1 filt [symmetric] mem [symmetric] sums [symmetric] min.strict_coboundedI1 del: not_None_eq)
next
  case False
  then have "learn_cache_entries n afl = afl" unfolding learn_cache_entries_def by (rule if_not_P)
  with wf show ?thesis by simp
qed

lemma learn_cache_entries_frame [simp]:
  "queue_buf (learn_cache_entries n afl) = queue_buf afl" "queue_cur (learn_cache_entries n afl) = queue_cur afl"
  "fs (learn_cache_entries n afl) = fs afl" "fs_deny (learn_cache_entries n afl) = fs_deny afl"
  "q_testcase_max_cache_size (learn_cache_entries n afl) = q_testcase_max_cache_size afl"
  by (simp_all add: learn_cache_entries_def Let_def)

lemma rand_below_tc:
  assumes "rand_below afl n = Some (r, afl')"
  shows "queue_buf afl' = queue_buf afl" "queue_cur afl' = queue_cur afl" "fs afl' = fs afl"
    "fs_deny afl' = fs_deny afl" "q_testcase_max_cache_size afl' = q_testcase_max_cache_size afl"
    "q_testcase_cache afl' = q_testcase_cache afl" "tc_wf afl' = tc_wf afl"
  using afl_rng.rb_rest [OF assms] by (cases afl; cases afl'; simp add: tc_wf_def)+

text \<open>What a run of evictions may do to the rest of the state: drop the buffers of other entries than the
  current one.\<close>

definition kept_or_dropped :: "bool \<Rightarrow> queue_entry \<Rightarrow> queue_entry \<Rightarrow> bool" where
  "kept_or_dropped may_drop e e' \<longleftrightarrow> e' = e \<or> may_drop \<and> e' = e\<lparr>testcase_buf := None\<rparr>"

definition only_evicts :: "'a afl_tc_scheme \<Rightarrow> 'a afl_tc_scheme \<Rightarrow> bool" where
  "only_evicts afl afl' \<longleftrightarrow>
     fs afl' = fs afl \<and> fs_deny afl' = fs_deny afl \<and> queue_cur afl' = queue_cur afl
     \<and> q_testcase_max_cache_size afl' = q_testcase_max_cache_size afl
     \<and> length (queue_buf afl') = length (queue_buf afl)
     \<and> (\<forall>d < length (queue_buf afl).
          kept_or_dropped (queue_cur afl \<noteq> Some d) (queue_buf afl ! d) (queue_buf afl' ! d))"

lemma kept_or_dropped_refl [simp]: "kept_or_dropped p e e"
  by (simp add: kept_or_dropped_def)

lemma kept_or_dropped_trans:
  assumes "kept_or_dropped p e f" and "kept_or_dropped p f g"
  shows "kept_or_dropped p e g"
proof -
  have "e\<lparr>testcase_buf := None\<rparr>\<lparr>testcase_buf := None\<rparr> = e\<lparr>testcase_buf := None\<rparr>" by simp
  with assms show ?thesis unfolding kept_or_dropped_def by metis
qed

lemma only_evicts_trans: "only_evicts a b \<Longrightarrow> only_evicts b c \<Longrightarrow> only_evicts a c"
  unfolding only_evicts_def using kept_or_dropped_trans by auto


lemma kept_or_dropped_drop: "kept_or_dropped True e (e\<lparr>testcase_buf := None\<rparr>)"
  unfolding kept_or_dropped_def by blast

lemma only_evicts_cur:
  "only_evicts afl s \<Longrightarrow> queue_cur afl = Some d \<Longrightarrow> d < length (queue_buf afl) \<Longrightarrow>
     queue_buf s ! d = queue_buf afl ! d"
  unfolding only_evicts_def kept_or_dropped_def by blast

lemma evict_testcase_only_evicts:
  assumes ev: "evict_testcase tid old afl = Inr afl'" and cur: "queue_cur afl \<noteq> Some old"
  shows "only_evicts afl afl'"
proof -
  note f = evict_testcase_fields [OF ev]
  have "kept_or_dropped (queue_cur afl \<noteq> Some d) (queue_buf afl ! d) (queue_buf afl' ! d)"
    if "d < length (queue_buf afl)" for d
    using that cur f(1) kept_or_dropped_drop unfolding f(2) by (cases "d = old") simp_all
  then show ?thesis unfolding only_evicts_def using f(2,8,10-12) by simp
qed

lemma next_free_finds:
  "tid \<le> j \<Longrightarrow> j < length cache \<Longrightarrow> cache ! j = None \<Longrightarrow> j - tid < k \<Longrightarrow>
     \<exists>i. next_free cache k tid = Inr i \<and> i < length cache \<and> cache ! i = None"
proof (induction k arbitrary: tid)
  case (Suc k)
  show ?case
  proof (cases "cache ! tid = None")
    case False
    then have "tid \<noteq> j" using Suc.prems by auto
    then show ?thesis using Suc.IH [of "tid + 1"] Suc.prems False by (simp add: get_at_def)
  qed (use Suc.prems in \<open>simp add: get_at_def\<close>)
qed simp

lemma find_free_finds:
  "tid \<le> j \<Longrightarrow> j < length cache \<Longrightarrow> cache ! j = None \<Longrightarrow>
     \<exists>i. find_free cache tid = Inr i \<and> i < length cache \<and> cache ! i = None"
  unfolding find_free_def by (rule next_free_finds) (assumption | linarith)+

text \<open>The search for a slot succeeds from \<open>q_testcase_smallest_free\<close> whenever some slot is free, and one is
  free whenever the entry limit is not reached.\<close>

lemma free_slot_from_smallest:
  assumes wf: "tc_wf afl" and j: "j < length (q_testcase_cache afl)" "q_testcase_cache afl ! j = None"
  shows "\<exists>i. find_free (q_testcase_cache afl) (unat (q_testcase_smallest_free afl)) = Inr i
     \<and> i < length (q_testcase_cache afl) \<and> q_testcase_cache afl ! i = None"
proof -
  have "unat (q_testcase_smallest_free afl) \<le> j" using tc_wfD(8) [OF wf j(1)] j(2) by fastforce
  then show ?thesis by (rule find_free_finds [OF _ j])
qed

lemma free_slot_exists:
  assumes wf: "tc_wf afl" and room: "\<not> cache_full afl n"
  shows "\<exists>j < length (q_testcase_cache afl). q_testcase_cache afl ! j = None"
proof (rule ccontr)
  let ?cache = "q_testcase_cache afl"
  assume "\<not> ?thesis"
  then have "filter (\<lambda>s. s \<noteq> None) ?cache = ?cache"
    by (metis (mono_tags, lifting) filter_id_conv in_set_conv_nth)
  then have "unat (q_testcase_cache_count afl) = length ?cache" using tc_wfD(5) [OF wf] by simp
  moreover have "unat (q_testcase_cache_count afl) < unat (q_testcase_max_cache_entries afl - 1)"
    using room by (simp add: cache_full_def word_le_nat_alt not_le)
  moreover have "unat (q_testcase_max_cache_entries afl - 1) = unat (q_testcase_max_cache_entries afl) - 1"
    using tc_wfD(9) [OF wf] by (subst unat_sub) (simp_all add: word_le_nat_alt)
  ultimately show False using tc_wfD(10) [OF wf] by simp
qed

text \<open>Where the source starts its search: at \<open>tid\<close>, or at the smallest free slot once \<open>tid\<close> is beyond the
  limit.\<close>

lemma start_slot_found:
  assumes wf: "tc_wf afl" and room: "\<not> cache_full afl n"
    and tid: "tid = unat (q_testcase_max_cache_count afl)
        \<or> tid < length (q_testcase_cache afl) \<and> q_testcase_cache afl ! tid = None"
  shows "\<exists>i. find_free (q_testcase_cache afl)
       (if tid \<ge> unat (q_testcase_max_cache_entries afl) then unat (q_testcase_smallest_free afl) else tid) = Inr i
     \<and> i < length (q_testcase_cache afl) \<and> q_testcase_cache afl ! i = None"
proof (cases "tid \<ge> unat (q_testcase_max_cache_entries afl)")
  case True
  obtain j where "j < length (q_testcase_cache afl)" "q_testcase_cache afl ! j = None"
    using free_slot_exists [OF wf room] by blast
  from free_slot_from_smallest [OF wf this] True show ?thesis by simp
next
  case False
  then have "tid < length (q_testcase_cache afl)" "q_testcase_cache afl ! tid = None"
    using tid tc_wfD(7) [OF wf, of tid] tc_wfD(10) [OF wf] by auto
  from find_free_finds [OF order_refl this] False show ?thesis by simp
qed


section \<open>The eviction loops\<close>

lemma rand_below_slot:
  assumes "rand_below afl (q_testcase_max_cache_count afl) = Some (tid, afl')" and "tc_wf afl"
  shows "unat tid < length (q_testcase_cache afl')"
proof -
  have "if q_testcase_max_cache_count afl \<le> 1 then tid = 0 else tid < q_testcase_max_cache_count afl"
    using afl_rng.rb_bound [OF assms(1)] .
  then have "unat tid < length (q_testcase_cache afl)"
    using tc_wfD(9,10,11) [OF assms(2)] by (auto simp: word_less_nat_alt split: if_splits)
  then show ?thesis using rand_below_tc(6) [OF assms(1)] by simp
qed

lemma only_evicts_same:
  "queue_buf afl' = queue_buf afl \<Longrightarrow> queue_cur afl' = queue_cur afl \<Longrightarrow> fs afl' = fs afl \<Longrightarrow>
     fs_deny afl' = fs_deny afl \<Longrightarrow> q_testcase_max_cache_size afl' = q_testcase_max_cache_size afl \<Longrightarrow>
     only_evicts afl afl'"
  by (simp add: only_evicts_def)

definition victim_ok :: "'a afl_tc_scheme \<Rightarrow> (nat \<times> qid \<times> 'a afl_tc_scheme) result \<Rightarrow> bool" where
  "victim_ok afl r \<longleftrightarrow> (tc_wf afl \<longrightarrow>
     (\<exists>tid old afl'. r = Inr (tid, old, afl') \<and> tc_wf afl' \<and> only_evicts afl afl'
        \<and> tid < length (q_testcase_cache afl') \<and> q_testcase_cache afl' ! tid = Some old
        \<and> queue_cur afl' \<noteq> Some old))"

lemma pick_victim_ok: "pick_victim afl = Some r \<Longrightarrow> victim_ok afl r"
proof (rule pick_victim.raw_induct [where P = victim_ok])
  fix f and afl :: "'a afl_tc_scheme" and r
  assume IH: "\<And>s r. f s = Some r \<Longrightarrow> victim_ok s r"
    and eq: "(case rand_below afl (q_testcase_max_cache_count afl) of None \<Rightarrow> None
        | Some (tid, afl) \<Rightarrow>
            (case get_at ''q_testcase_cache'' (q_testcase_cache afl) (unat tid) of
               Inl err \<Rightarrow> Some (Inl err)
             | Inr slot \<Rightarrow> (case slot of None \<Rightarrow> f afl
                 | Some old \<Rightarrow> if queue_cur afl = Some old then f afl
                               else Some (Inr (unat tid, old, afl))))) = Some r"
  show "victim_ok afl r"
    unfolding victim_ok_def
  proof
    assume wf: "tc_wf afl"
    obtain tid s where draw: "rand_below afl (q_testcase_max_cache_count afl) = Some (tid, s)"
      using eq by (auto split: option.splits)
    note same = rand_below_tc [OF draw]
    have slot: "unat tid < length (q_testcase_cache s)" using rand_below_slot [OF draw wf] .
    have wf': "tc_wf s" and ev: "only_evicts afl s"
      using same wf by (simp_all add: only_evicts_same)
    show "\<exists>tid old afl'. r = Inr (tid, old, afl') \<and> tc_wf afl' \<and> only_evicts afl afl'
        \<and> tid < length (q_testcase_cache afl') \<and> q_testcase_cache afl' ! tid = Some old
        \<and> queue_cur afl' \<noteq> Some old"
    proof (cases "\<exists>old. q_testcase_cache s ! unat tid = Some old \<and> queue_cur s \<noteq> Some old")
      case True
      then obtain old where "q_testcase_cache s ! unat tid = Some old" "queue_cur s \<noteq> Some old" by blast
      then show ?thesis using eq draw slot wf' ev by (auto simp: get_at_def)
    next
      case False
      then have "f s = Some r"
        using eq draw slot by (auto simp: get_at_def split: option.splits if_splits)
      from IH [OF this] wf' show ?thesis
        unfolding victim_ok_def using only_evicts_trans [OF ev] by blast
    qed
  qed
qed

definition free_or_next :: "nat \<Rightarrow> 'a afl_tc_scheme \<Rightarrow> bool" where
  "free_or_next tid afl \<longleftrightarrow> tid = unat (q_testcase_max_cache_count afl)
     \<or> tid < length (q_testcase_cache afl) \<and> q_testcase_cache afl ! tid = None"

definition room_ok :: "u32 \<Rightarrow> nat \<Rightarrow> 'a afl_tc_scheme \<Rightarrow> (nat \<times> 'a afl_tc_scheme) result \<Rightarrow> bool" where
  "room_ok n tid afl r \<longleftrightarrow> (tc_wf afl \<longrightarrow> free_or_next tid afl \<longrightarrow>
     (\<exists>tid' afl'. r = Inr (tid', afl') \<and> tc_wf afl' \<and> only_evicts afl afl' \<and> \<not> cache_full afl' n
        \<and> free_or_next tid' afl'))"

lemma make_room_ok: "make_room n tid afl = Some r \<Longrightarrow> room_ok n tid afl r"
proof (rule make_room.raw_induct [where P = room_ok])
  fix f n tid and afl :: "'a afl_tc_scheme" and r
  assume IH: "\<And>n tid s r. f n tid s = Some r \<Longrightarrow> room_ok n tid s r"
    and eq: "(if \<not> cache_full afl n then Some (Inr (tid, afl))
        else (case pick_victim (learn_cache_entries n afl) of None \<Rightarrow> None
          | Some (Inl err) \<Rightarrow> Some (Inl err)
          | Some (Inr (tid, old, afl)) \<Rightarrow>
              (case evict_testcase tid old afl of Inl err \<Rightarrow> Some (Inl err)
               | Inr afl \<Rightarrow> f n tid afl))) = Some r"
  show "room_ok n tid afl r"
    unfolding room_ok_def
  proof (intro impI)
    assume wf: "tc_wf afl" and start: "free_or_next tid afl"
    show "\<exists>tid' afl'. r = Inr (tid', afl') \<and> tc_wf afl' \<and> only_evicts afl afl' \<and> \<not> cache_full afl' n
        \<and> free_or_next tid' afl'"
    proof (cases "cache_full afl n")
      case False
      then show ?thesis using eq wf start by (auto simp: only_evicts_same)
    next
      case True
      let ?l = "learn_cache_entries n afl"
      obtain v where v: "pick_victim ?l = Some v" using eq True by (auto split: option.splits)
      obtain t old s where vs: "v = Inr (t, old, s)" "tc_wf s" "only_evicts ?l s"
          "t < length (q_testcase_cache s)" "q_testcase_cache s ! t = Some old" "queue_cur s \<noteq> Some old"
        using pick_victim_ok [OF v] learn_cache_entries_wf [OF wf] unfolding victim_ok_def by blast
      obtain s' where s': "evict_testcase t old s = Inr s'" "tc_wf s'"
        using evict_testcase_wf [OF vs(2,4,5)] by blast
      have f: "f n t s' = Some r" using eq True v vs(1) s'(1) by simp
      have "free_or_next t s'"
        using evict_testcase_fields(3) [OF s'(1)] vs(4) by (simp add: free_or_next_def)
      moreover have "only_evicts afl s'"
        using only_evicts_trans [OF only_evicts_trans [OF only_evicts_same vs(3)]
            evict_testcase_only_evicts [OF s'(1) vs(6)]] by simp
      ultimately show ?thesis
        using IH [OF f] s'(2) only_evicts_trans unfolding room_ok_def by blast
    qed
  qed
qed


section \<open>Storing, loading and resizing\<close>

lemma register_testcase_get:
  assumes "q < length (queue_buf afl)" and "q_testcase_max_cache_size afl \<noteq> 0"
  shows "queue_testcase_get (register_testcase q tid data n afl) q
     = Some (Inr (data, register_testcase q tid data n afl))"
  using assms by (simp add: queue_testcase_get_def get_q_def register_testcase_fields)

lemma register_testcase_budget:
  assumes "tc_wf (register_testcase q tid data n afl)" and "\<not> cache_full afl n"
  shows "q_testcase_cache_size (register_testcase q tid data n afl)
     < q_testcase_max_cache_size (register_testcase q tid data n afl)"
  using assms(2) by (simp add: register_testcase_fields cache_full_def not_le)

lemma cache_load_ok:
  assumes wf: "tc_wf afl" and q: "q < length (queue_buf afl)" and e: "e = queue_buf afl ! q"
    and new: "testcase_buf e = None" and room: "\<not> cache_full afl (len e)" and tid: "free_or_next tid afl"
    and ondisk: "read_file afl (fname e) = Some content" "unat (len e) \<le> length content"
  shows "\<exists>i. cache_load q e tid afl
       = Inr (take (unat (len e)) content, register_testcase q i (take (unat (len e)) content) (len e) afl)
     \<and> tc_wf (register_testcase q i (take (unat (len e)) content) (len e) afl)"
proof -
  obtain i where "find_free (q_testcase_cache afl)
       (if tid \<ge> unat (q_testcase_max_cache_entries afl) then unat (q_testcase_smallest_free afl) else tid) = Inr i"
    and i: "i < length (q_testcase_cache afl)" "q_testcase_cache afl ! i = None"
    using start_slot_found [OF wf room tid [unfolded free_or_next_def]] by blast
  then have "cache_load q e tid afl
       = Inr (take (unat (len e)) content, register_testcase q i (take (unat (len e)) content) (len e) afl)"
    using ondisk by (simp add: cache_load_def load_file_def)
  moreover have "tc_wf (register_testcase q i (take (unat (len e)) content) (len e) afl)"
    unfolding e by (rule register_testcase_wf [OF wf q _ i]) (use new ondisk e in simp_all)
  ultimately show ?thesis by blast
qed

lemma store_mem_ok:
  assumes wf: "tc_wf afl" and q: "q < length (queue_buf afl)" and e: "e = queue_buf afl ! q"
    and new: "testcase_buf e = None" and room: "\<not> cache_full afl (len e)" and mem: "length mem = unat (len e)"
  shows "\<exists>i. queue_testcase_store_mem afl q mem = Inr (register_testcase q i mem (len e) afl)
     \<and> tc_wf (register_testcase q i mem (len e) afl)"
proof -
  let ?tid = "unat (q_testcase_max_cache_count afl)"
  obtain i where found: "find_free (q_testcase_cache afl)
       (if ?tid \<ge> unat (q_testcase_max_cache_entries afl) then unat (q_testcase_smallest_free afl) else ?tid) = Inr i"
    and i: "i < length (q_testcase_cache afl)" "q_testcase_cache afl ! i = None"
    using start_slot_found [OF wf room] by blast
  have "queue_testcase_store_mem afl q mem = Inr (register_testcase q i mem (len e) afl)"
    using found q room mem
    by (simp add: queue_testcase_store_mem_def get_q_def e [symmetric] Let_def word_le_nat_alt
        if_distrib [of unat])
  moreover have "tc_wf (register_testcase q i mem (len e) afl)"
    unfolding e by (rule register_testcase_wf [OF wf q _ i]) (use new mem e in simp_all)
  ultimately show ?thesis by blast
qed

text \<open>Changing one summand.\<close>

lemma sum_one_differs:
  assumes d: "distinct (filter (\<lambda>s. s \<noteq> None) xs)" and a: "Some a \<in> set xs"
    and same: "\<And>s. s \<noteq> Some a \<Longrightarrow> f s = (g s :: nat)"
  shows "(\<Sum>s \<leftarrow> xs. f s) + g (Some a) = (\<Sum>s \<leftarrow> xs. g s) + f (Some a)"
proof -
  obtain ys zs where xs: "xs = ys @ Some a # zs" using a by (auto dest: split_list)
  then have "Some a \<notin> set ys \<union> set zs" using d by auto
  then have "map f ys = map g ys" "map f zs = map g zs" using same by (metis UnI1 UnI2 map_eq_conv)+
  then show ?thesis unfolding xs map_append list.map by (simp del: map_eq_conv)
qed

lemma resize_wf:
  assumes wf: "tc_wf (upd_q (\<lambda>e. e\<lparr>len := old_len\<rparr>) q afl)" and q: "q < length (queue_buf afl)"
    and cached: "testcase_buf (queue_buf afl ! q) \<noteq> None"
    and data: "length data = unat (len (queue_buf afl ! q))"
  shows "tc_wf (upd_q (\<lambda>e. e\<lparr>testcase_buf := Some data\<rparr>) q
     (afl\<lparr>q_testcase_cache_size := q_testcase_cache_size afl + ucast (len (queue_buf afl ! q)) - ucast old_len\<rparr>))"
proof -
  let ?e = "queue_buf afl ! q" and ?cache = "q_testcase_cache afl" and ?qs = "queue_buf afl"
  let ?old = "?qs[q := ?e\<lparr>len := old_len\<rparr>]" and ?new = "?qs[q := ?e\<lparr>testcase_buf := Some data\<rparr>]"
  note w = tc_wfD [OF wf, unfolded upd_q_def, simplified]
  have dist: "distinct (filter (\<lambda>s. s \<noteq> None) ?cache)" using tc_wfD(2) [OF wf] by (simp add: upd_q_def)
  have slots: "slot_len ?new = slot_len ?qs" by (rule slot_len_upd) simp
  have "Some q \<in> set ?cache" using w(3) [of q] q cached by simp
  moreover have "slot_len ?qs s = slot_len ?old s" if "s \<noteq> Some q" for s
    using that by (cases s) (simp_all add: slot_len_def)
  ultimately have "(\<Sum>s \<leftarrow> ?cache. slot_len ?qs s) + slot_len ?old (Some q)
      = (\<Sum>s \<leftarrow> ?cache. slot_len ?old s) + slot_len ?qs (Some q)"
    using dist by (intro sum_one_differs)
  then have sums: "(\<Sum>s \<leftarrow> ?cache. slot_len ?qs s) + unat old_len
      = (\<Sum>s \<leftarrow> ?cache. slot_len ?old s) + unat (len ?e)"
    using q by (simp add: slot_len_def)
  have "(\<Sum>s \<leftarrow> ?cache. slot_len ?qs s) < 2 ^ 64" by (rule slots_total_less) (use w(12) in simp)
  then have size: "unat (q_testcase_cache_size afl + ucast (len ?e) - ucast old_len)
      = (\<Sum>s \<leftarrow> ?cache. slot_len ?qs s)"
  proof -
    have "q_testcase_cache_size afl + ucast (len ?e) = of_nat (\<Sum>s \<leftarrow> ?cache. slot_len ?qs s) + ucast old_len"
      using arg_cong [OF sums, of "of_nat :: nat \<Rightarrow> u64"] w(6) [symmetric] by simp
    then show ?thesis using \<open>_ < 2 ^ 64\<close> by (simp add: unat_of_nat_eq)
  qed
  have new_nth: "?new ! e = (if e = q then ?e\<lparr>testcase_buf := Some data\<rparr> else ?qs ! e)"
    and old_nth: "?old ! e = (if e = q then ?e\<lparr>len := old_len\<rparr> else ?qs ! e)" if "e < length ?qs" for e
    using that by (simp_all add: nth_list_update_if)
  have bufs: "(testcase_buf (?new ! e) \<noteq> None) = (Some e \<in> set ?cache)" if e: "e < length ?qs" for e
    using w(3) [OF e] cached unfolding new_nth [OF e] old_nth [OF e] by (cases "e = q") simp_all
  have lens: "length b = unat (len (?new ! e))"
    if e: "e < length ?qs" and b: "testcase_buf (?new ! e) = Some b" for e b
    using w(4) [OF e, of b] b data unfolding new_nth [OF e] old_nth [OF e] by (cases "e = q") simp_all
  show ?thesis
    unfolding tc_wf_def Let_def upd_q_def
    by (simp add: slots dist size w(1,5-12) bufs lens del: not_None_eq) (use w(8) in simp)
qed

section \<open>Properties\<close>

definition tc_demo :: "string \<Rightarrow> afl_tc" where
  "tc_demo path = afl_queue.extend
     (queue_demo\<lparr>queue_buf := [zero_entry\<lparr>fname := ''q/a'', len := 2, testcase_buf := Some [7, 9]\<rparr>,
                               zero_entry\<lparr>fname := ''q/b'', len := 3, id_q := 1\<rparr>],
                 fs := [path \<mapsto> [1, 2, 3]], fs_deny := (\<lambda>_. False)\<rparr>)
     \<lparr>q_testcase_max_cache_size = 100, q_testcase_max_cache_entries = 4, q_testcase_cache_size = 2,
      q_testcase_max_cache_count = 1, q_testcase_cache_count = 1, q_testcase_smallest_free = 0,
      q_testcase_evictions = 0, q_testcase_cache = [Some 0, None, None, None], do_once = False\<rparr>"

lemma tc_demo_fields:
  "queue_buf (tc_demo p) = [zero_entry\<lparr>fname := ''q/a'', len := 2, testcase_buf := Some [7, 9]\<rparr>,
     zero_entry\<lparr>fname := ''q/b'', len := 3, id_q := 1\<rparr>]"
  "q_testcase_cache (tc_demo p) = [Some 0, None, None, None]" "q_testcase_max_cache_size (tc_demo p) = 100"
  "q_testcase_max_cache_entries (tc_demo p) = 4" "q_testcase_cache_size (tc_demo p) = 2"
  "q_testcase_max_cache_count (tc_demo p) = 1" "q_testcase_cache_count (tc_demo p) = 1"
  "q_testcase_smallest_free (tc_demo p) = 0" "queue_cur (tc_demo p) = Some 0"
  "fs (tc_demo p) = [p \<mapsto> [1, 2, 3]]" "fs_deny (tc_demo p) = (\<lambda>_. False)"
  by (simp_all add: tc_demo_def afl_queue.extend_def queue_demo_def afl_cov.extend_def cov_demo_def)

lemma tc_demo_wf: "tc_wf (tc_demo p)" "\<not> cache_full (tc_demo p) 3"
  by (simp_all add: tc_wf_def cache_full_def tc_demo_fields zero_entry_def slot_len_def less_Suc_eq nth_Cons'
      word_le_nat_alt split: if_splits)

text \<open>(C6) \<open>queue_testcase_store_mem\<close> keeps the cache invariant and never leaves the slot array. When size or
  entry limit is reached it changes nothing; otherwise the new entry's data is cached, the byte count stays
  below the configured size, and \<open>queue_testcase_get\<close> then returns the stored data.\<close>

theorem queue_testcase_store_get:
  assumes "tc_wf afl" and "q < length (queue_buf afl)" and "testcase_buf (queue_buf afl ! q) = None"
    and "length mem = unat (len (queue_buf afl ! q))"
  shows "\<exists>afl'. queue_testcase_store_mem afl q mem = Inr afl' \<and> tc_wf afl'
    \<and> (if cache_full afl (len (queue_buf afl ! q)) then afl' = afl
       else q_testcase_cache_size afl' < q_testcase_max_cache_size afl'
          \<and> queue_testcase_get afl' q = Some (Inr (mem, afl')))"
proof (cases "cache_full afl (len (queue_buf afl ! q))")
  case True
  then show ?thesis using assms by (simp add: queue_testcase_store_mem_def get_q_def Let_def)
next
  case False
  then have "q_testcase_max_cache_size afl \<noteq> 0" by (auto simp: cache_full_def)
  then show ?thesis
    using store_mem_ok [OF assms(1,2) refl assms(3) False assms(4)] False assms(2)
      register_testcase_get register_testcase_budget by (metis (no_types, lifting))
qed

theorem queue_testcase_store_get_witness:
  "\<exists>afl'. queue_testcase_store_mem (tc_demo []) 1 [1, 2, 3] = Inr afl' \<and> tc_wf afl'
     \<and> queue_testcase_get afl' 1 = Some (Inr ([1, 2, 3], afl'))"
  using queue_testcase_store_get [OF tc_demo_wf(1) [of "[]"], of 1 "[1, 2, 3]"] tc_demo_wf(2) [of "[]"]
  by (auto simp: tc_demo_fields zero_entry_def)

text \<open>(C5) \<open>queue_testcase_get\<close> on an entry that is not cached, with its file readable and long enough: with
  room in the cache it returns, and whatever it returns, evictions included, is the file's content with no bad
  access on the way; the entry is then cached (a second call returns the same data from memory), the byte count
  is below the configured size, the invariant holds, and the entry being fuzzed still has its buffer.\<close>

theorem queue_testcase_get_safe:
  assumes "tc_wf afl" and "q < length (queue_buf afl)" and "e = queue_buf afl ! q"
    and "testcase_buf e = None" and "q_testcase_max_cache_size afl \<noteq> 0"
    and "read_file afl (fname e) = Some content" and "unat (len e) \<le> length content"
  shows "(\<not> cache_full afl (len e) \<longrightarrow> queue_testcase_get afl q \<noteq> None)
    \<and> (\<forall>r. queue_testcase_get afl q = Some r \<longrightarrow>
         (\<exists>afl'. r = Inr (take (unat (len e)) content, afl') \<and> tc_wf afl'
            \<and> queue_testcase_get afl' q = Some (Inr (take (unat (len e)) content, afl'))
            \<and> q_testcase_cache_size afl' < q_testcase_max_cache_size afl'
            \<and> (\<forall>d < length (queue_buf afl). queue_cur afl = Some d \<longrightarrow> d \<noteq> q \<longrightarrow>
                 queue_buf afl' ! d = queue_buf afl ! d)))"
proof (intro conjI impI allI)
  let ?m = "make_room (len e) (unat (q_testcase_max_cache_count afl)) afl"
  have get: "queue_testcase_get afl q = (case ?m of None \<Rightarrow> None | Some (Inl err) \<Rightarrow> Some (Inl err)
      | Some (Inr (tid, afl)) \<Rightarrow> Some (cache_load q e tid afl))"
    using assms(2,4,5) unfolding assms(3) by (simp add: queue_testcase_get_def get_q_def)
  show "queue_testcase_get afl q \<noteq> None" if "\<not> cache_full afl (len e)"
    unfolding get using that by (subst make_room.simps) simp
  fix r assume r: "queue_testcase_get afl q = Some r"
  obtain m where m: "?m = Some m" using r unfolding get by (auto split: option.splits)
  obtain tid s where s: "m = Inr (tid, s)" "tc_wf s" "only_evicts afl s" "\<not> cache_full s (len e)" "free_or_next tid s"
    using make_room_ok [OF m] assms(1) unfolding room_ok_def by (auto simp: free_or_next_def)
  have "kept_or_dropped (queue_cur afl \<noteq> Some q) e (queue_buf s ! q)"
    using s(3) assms(2) unfolding only_evicts_def assms(3) by blast
  then have e: "len (queue_buf s ! q) = len e" "fname (queue_buf s ! q) = fname e"
      "testcase_buf (queue_buf s ! q) = None"
    using assms(4) unfolding kept_or_dropped_def by (elim disjE conjE; simp)+
  note frame = s(3) [unfolded only_evicts_def]
  have disk: "read_file s (fname e) = Some content" using assms(6) frame by (simp add: read_file_def split: if_splits)
  have q': "q < length (queue_buf s)" using frame assms(2) by simp
  have same: "cache_load q e tid s = cache_load q (queue_buf s ! q) tid s" unfolding cache_load_def e ..
  obtain i where i: "cache_load q (queue_buf s ! q) tid s = Inr (take (unat (len e)) content,
        register_testcase q i (take (unat (len e)) content) (len e) s)"
      "tc_wf (register_testcase q i (take (unat (len e)) content) (len e) s)"
    using cache_load_ok [OF s(2) q' refl e(3) _ s(5), unfolded e, OF s(4) disk assms(7)] by auto
  have cur: "queue_buf (register_testcase q i (take (unat (len e)) content) (len e) s) ! d = queue_buf afl ! d"
    if "d < length (queue_buf afl)" "queue_cur afl = Some d" "d \<noteq> q" for d
    using only_evicts_cur [OF s(3)] that by (simp add: register_testcase_fields)
  show "\<exists>afl'. r = Inr (take (unat (len e)) content, afl') \<and> tc_wf afl'
            \<and> queue_testcase_get afl' q = Some (Inr (take (unat (len e)) content, afl'))
            \<and> q_testcase_cache_size afl' < q_testcase_max_cache_size afl'
            \<and> (\<forall>d < length (queue_buf afl). queue_cur afl = Some d \<longrightarrow> d \<noteq> q \<longrightarrow>
                 queue_buf afl' ! d = queue_buf afl ! d)"
    using r m s(1) i cur frame assms(5) same register_testcase_get [OF q'] register_testcase_budget [OF i(2) s(4)]
    unfolding get by (auto intro!: exI)
qed


theorem queue_testcase_get_safe_witness:
  "\<exists>afl'. queue_testcase_get (tc_demo ''q/b'') 1 = Some (Inr ([1, 2, 3], afl')) \<and> tc_wf afl'
     \<and> testcase_buf (queue_buf afl' ! 0) = Some [7, 9]"
  using queue_testcase_get_safe [OF tc_demo_wf(1) [of "''q/b''"], of 1 _ "[1, 2, 3]", OF _ refl] tc_demo_wf(2) [of "''q/b''"]
  by (force simp: tc_demo_fields zero_entry_def read_file_def)

text \<open>After a trim has set an entry's new length, \<open>queue_testcase_retake_mem\<close> with the old length
  replaces the cached bytes by the trimmed ones and corrects the byte count, so that the cache invariant holds
  again; an entry that is not cached is left alone.\<close>

theorem queue_testcase_retake_mem_resizes:
  assumes "tc_wf (upd_q (\<lambda>e. e\<lparr>len := old_len\<rparr>) q afl)" and "q < length (queue_buf afl)"
    and "n = len (queue_buf afl ! q)" and "unat n \<le> length mem"
    and "\<not> is_same \<or> unat n \<le> unat old_len \<and> testcase_buf (queue_buf afl ! q) \<in> {None, Some mem}"
  shows "\<exists>afl'. queue_testcase_retake_mem afl q is_same mem n old_len = Inr afl'
    \<and> (if testcase_buf (queue_buf afl ! q) = None then afl' = afl
       else testcase_buf (queue_buf afl' ! q) = Some (take (unat n) mem) \<and> tc_wf afl')"
proof (cases "testcase_buf (queue_buf afl ! q)")
  case None
  then show ?thesis using assms(2) by (simp add: queue_testcase_retake_mem_def get_q_def)
next
  case (Some buf)
  let ?afl = "afl\<lparr>q_testcase_cache_size := q_testcase_cache_size afl + ucast n - ucast old_len\<rparr>"
  let ?res = "upd_q (\<lambda>e. e\<lparr>testcase_buf := Some (take (unat n) mem)\<rparr>) q ?afl"
  have buf: "length buf = unat old_len"
    using tc_wfD(4) [OF assms(1), of q buf] assms(2) Some by simp
  have wf: "tc_wf ?res"
    using resize_wf [OF assms(1,2), of "take (unat n) mem"] Some assms(3,4) by simp
  have afl: "n = old_len \<Longrightarrow> ?afl = afl" by simp
  have "queue_testcase_retake_mem afl q is_same mem n old_len = Inr ?res"
  proof (cases "is_same \<and> n = old_len")
    case True
    then have "take (unat n) mem = buf" using assms(5) Some buf by auto
    then have "?res = afl" using True Some afl
      unfolding upd_q_def by (simp add: list_update_same_conv assms(2))
    then show ?thesis using True Some assms(2) by (simp add: queue_testcase_retake_mem_def get_q_def Let_def)
  next
    case False
    then show ?thesis using assms(2,4,5) Some buf
      by (auto simp: queue_testcase_retake_mem_def get_q_def Let_def)
  qed
  then show ?thesis using wf Some assms(2) by simp
qed


theorem queue_testcase_retake_mem_resizes_witness:
  "let afl = upd_q (\<lambda>e. e\<lparr>len := 1\<rparr>) 0 (tc_demo [])
   in \<exists>afl'. queue_testcase_retake_mem afl 0 False [7] 1 2 = Inr afl' \<and> tc_wf afl'"
  using queue_testcase_retake_mem_resizes [of 2 0 "upd_q (\<lambda>e. e\<lparr>len := 1\<rparr>) 0 (tc_demo [])" 1 "[7]" False]
    tc_demo_wf(1) [of "[]"]
  by (force simp: upd_q_def tc_wf_def tc_demo_fields zero_entry_def slot_len_def)

end
