(* ===== verification/Afl_Extras.thy ===== *)
theory Afl_Extras
  imports Afl_Testcache "HOL-Library.Multiset"
begin

unbundle bit_operations_syntax

text \<open>
  Dictionary tokens, \<open>src/afl-fuzz-extras.c\<close>: parsing of dictionary files, loading of token directories,
  the sorted array of user tokens with its duplicate removal and insertion, the derivation of narrow tokens from
  UTF-16 and UTF-32 ones, and the automatically collected tokens with their save files; with the
  tables of interesting integers of \<open>include/config.h\<close> and \<open>src/afl-fuzz-state.c\<close>.

  The first \<open>extras_cnt\<close> cells of the growing array \<open>extras\<close> are the list \<open>extras\<close>; \<open>a_extras\<close> is the whole
  fixed array. The field \<open>hit_cnt\<close> of \<open>struct extra_data\<close> is neither written nor read. The order \<open>qsort\<close>
  gives to elements that compare equal is not specified, so \<open>qsort\<close> is a parameter, one for each element
  type. Warnings and progress messages are left out.
\<close>

section \<open>Interesting integers\<close>

definition interesting_8 :: "int list" where
  "interesting_8 = [-128, -1, 0, 1, 16, 32, 64, 100, 127]"

definition interesting_16 :: "int list" where
  "interesting_16 = interesting_8 @ [-32768, -129, 128, 255, 256, 512, 1000, 1024, 4096, 32767]"

definition interesting_32 :: "int list" where
  "interesting_32 = interesting_16 @
     [-2147483648, -100663046, -32769, 32768, 65535, 65536, 100663045, 2147483647]"

definition SWAP16 :: "u16 \<Rightarrow> u16" where
  "SWAP16 x = push_bit 8 x OR drop_bit 8 x"

definition SWAP32 :: "u32 \<Rightarrow> u32" where
  "SWAP32 x = push_bit 24 x OR drop_bit 24 x OR (push_bit 8 x AND 0x00FF0000) OR (drop_bit 8 x AND 0x0000FF00)"

section \<open>State\<close>

record extra_data =
  ex_data :: bytes
  ex_len :: u32

record auto_extra_data =
  ae_data :: bytes
  ae_len :: u32
  ae_hit_cnt :: u32

record afl_extras = afl_tc +
  extras :: "extra_data list"
  a_extras :: "auto_extra_data list"
  a_extras_cnt :: u32
  auto_changed :: bool
  in_dir :: string

abbreviation MAX_DICT_FILE :: u32 where "MAX_DICT_FILE \<equiv> 128"
abbreviation MIN_AUTO_EXTRA :: nat where "MIN_AUTO_EXTRA \<equiv> 3"
abbreviation MAX_AUTO_EXTRA :: nat where "MAX_AUTO_EXTRA \<equiv> 32"
abbreviation USE_AUTO_EXTRAS :: nat where "USE_AUTO_EXTRAS \<equiv> 4096"
abbreviation MAX_AUTO_EXTRAS :: nat where "MAX_AUTO_EXTRAS \<equiv> USE_AUTO_EXTRAS * 8"
abbreviation MAX_LINE :: nat where "MAX_LINE \<equiv> 8192"

type_synonym 'b qsorter = "('b \<Rightarrow> 'b \<Rightarrow> int) \<Rightarrow> 'b list \<Rightarrow> 'b list"

text \<open>The unsigned differences are returned as \<open>int\<close>.\<close>

definition compare_auto_extras_len :: "auto_extra_data \<Rightarrow> auto_extra_data \<Rightarrow> int" where
  "compare_auto_extras_len ae1 ae2 = sint (ae_len ae1 - ae_len ae2)"

definition compare_auto_extras_use_d :: "auto_extra_data \<Rightarrow> auto_extra_data \<Rightarrow> int" where
  "compare_auto_extras_use_d ae1 ae2 = sint (ae_hit_cnt ae2 - ae_hit_cnt ae1)"

definition compare_extras_len :: "extra_data \<Rightarrow> extra_data \<Rightarrow> int" where
  "compare_extras_len e1 e2 = sint (ex_len e1 - ex_len e2)"

section \<open>Dictionary files\<close>

text \<open>Character classes of the C locale, and \<open>atoi\<close>: the value of \<open>strtol\<close>, which saturates at the
  range of \<open>long\<close>, cut down to \<open>int\<close>.\<close>

definition isspace :: "u8 \<Rightarrow> bool" where
  "isspace c \<longleftrightarrow> c = 0x20 \<or> (0x09 \<le> c \<and> c \<le> 0x0D)"

definition isdigit :: "u8 \<Rightarrow> bool" where
  "isdigit c \<longleftrightarrow> 0x30 \<le> c \<and> c \<le> 0x39"

definition isalnum :: "u8 \<Rightarrow> bool" where
  "isalnum c \<longleftrightarrow> isdigit c \<or> (0x41 \<le> c \<and> c \<le> 0x5A) \<or> (0x61 \<le> c \<and> c \<le> 0x7A)"

definition isxdigit :: "u8 \<Rightarrow> bool" where
  "isxdigit c \<longleftrightarrow> isdigit c \<or> (0x41 \<le> c \<and> c \<le> 0x46) \<or> (0x61 \<le> c \<and> c \<le> 0x66)"

definition tolower :: "u8 \<Rightarrow> u8" where
  "tolower c = (if 0x41 \<le> c \<and> c \<le> 0x5A then c + 0x20 else c)"

definition digits_value :: "bytes \<Rightarrow> int" where
  "digits_value s = foldl (\<lambda>v c. 10 * v + (uint c - 0x30)) 0 (takeWhile isdigit s)"

definition atoi :: "bytes \<Rightarrow> int" where
  "atoi s =
     (let s = dropWhile isspace s;
          neg = (s \<noteq> [] \<and> hd s = 0x2D);
          s = (if s \<noteq> [] \<and> (hd s = 0x2D \<or> hd s = 0x2B) then tl s else s);
          v = (if neg then - digits_value s else digits_value s)
      in signed_take_bit 31 (max (- (2 ^ 63)) (min (2 ^ 63 - 1) v)))"

text \<open>\<open>fgets(buf, MAX_LINE, f)\<close>: up to and including the next newline, at most \<open>MAX_LINE - 1\<close> bytes. The
  text is then handled as a C string, which ends at the first null byte; a pointer into it is the suffix it
  points to.\<close>

definition fgets :: "bytes \<Rightarrow> bytes" where
  "fgets s =
     (let s = take (MAX_LINE - 1) s; l = takeWhile (\<lambda>c. c \<noteq> 0x0A) s
      in if length l < length s then l @ [0x0A] else l)"

lemma fgets_nonempty: "s \<noteq> [] \<Longrightarrow> fgets s \<noteq> []"
  by (cases s) (simp_all add: fgets_def Let_def)

function fgets_lines :: "bytes \<Rightarrow> bytes list" where
  "fgets_lines s = (if s = [] then [] else fgets s # fgets_lines (drop (length (fgets s)) s))"
  by pat_completeness auto
termination
  by (relation "measure length") (use fgets_nonempty in auto)

declare fgets_lines.simps [simp del]

definition c_string :: "bytes \<Rightarrow> bytes" where
  "c_string s = takeWhile (\<lambda>c. c \<noteq> 0) s"

definition trim_line :: "bytes \<Rightarrow> bytes" where
  "trim_line s = rev (dropWhile isspace (rev (dropWhile isspace s)))"

definition starts :: "u8 \<Rightarrow> bytes \<Rightarrow> bool" where
  "starts c s \<longleftrightarrow> s \<noteq> [] \<and> hd s = c"

text \<open>From the text of a line to the text between its quotes; \<open>None\<close> is every \<open>continue\<close> on the way.\<close>

definition skip_index :: "bytes \<Rightarrow> bytes" where
  "skip_index s =
     (if starts 0x5B s
      then let s = dropWhile isdigit (tl s) in if starts 0x5D s then tl s else s
      else s)"

definition keyword_text :: "u32 \<Rightarrow> bytes \<Rightarrow> bytes option" where
  "keyword_text dict_level line =
     (let s = trim_line (c_string line) in
      if s = [] \<or> starts 0x23 s then None
      else if last s \<noteq> 0x22 then None
      else
        let s = dropWhile (\<lambda>c. isalnum c \<or> c = 0x5F) (butlast s) in
        if starts 0x40 s \<and> atoi (tl s) > sint dict_level then None
        else
          let s = (if starts 0x40 s then dropWhile isdigit (tl s) else s);
              s = dropWhile (\<lambda>c. isspace c \<or> c = 0x3D) (skip_index s)
          in if \<not> starts 0x22 s then None
             else if tl s = [] then None
             else Some (tl s))"

definition hexdigit :: "u8 \<Rightarrow> u8" where
  "hexdigit c = (if isdigit c then c - 0x30 else tolower c - 0x61 + 10)"

text \<open>The copying loop. The \<open>continue\<close> for a non-printable character does not advance \<open>lptr\<close>; the one
  for an invalid escape has already moved it past the backslash.\<close>

partial_function (option) decode_keyword :: "bytes \<Rightarrow> bytes \<Rightarrow> bytes option" where
  "decode_keyword s w =
     (case s of
        [] \<Rightarrow> Some w
      | c # t \<Rightarrow>
          if c = 0 then Some w
          else if c \<le> 31 \<or> 128 \<le> c then decode_keyword s w
          else if c = 0x5C then
            if starts 0x5C t \<or> starts 0x22 t then decode_keyword (tl t) (w @ [hd t])
            else if \<not> (starts 0x78 t \<and> 3 \<le> length t \<and> isxdigit (t ! 1) \<and> isxdigit (t ! 2))
            then decode_keyword t w
            else decode_keyword (drop 3 t) (w @ [push_bit 4 (hexdigit (t ! 1)) OR hexdigit (t ! 2)])
          else decode_keyword t (w @ [c]))"

definition load_extras_line ::
  "u32 \<Rightarrow> bytes \<Rightarrow> extra_data list \<times> u32 \<times> u32 \<Rightarrow> (extra_data list \<times> u32 \<times> u32) option" where
  "load_extras_line dict_level line st =
     (case st of (xs, min_len, max_len) \<Rightarrow>
      case keyword_text dict_level line of
        None \<Rightarrow> Some st
      | Some s \<Rightarrow>
          (case decode_keyword s [] of
             None \<Rightarrow> None
           | Some w \<Rightarrow>
               let klen = of_nat (length w) in
               if klen > MAX_DICT_FILE then Some st
               else Some (xs @ [\<lparr>ex_data = w @ replicate (length s - length w) 0, ex_len = klen\<rparr>],
                          if min_len > klen then klen else min_len,
                          if max_len < klen then klen else max_len)))"

fun load_extras_lines ::
  "u32 \<Rightarrow> bytes list \<Rightarrow> extra_data list \<times> u32 \<times> u32 \<Rightarrow> (extra_data list \<times> u32 \<times> u32) option" where
  "load_extras_lines dict_level [] st = Some st"
| "load_extras_lines dict_level (line # rest) st =
     (case load_extras_line dict_level line st of
        None \<Rightarrow> None
      | Some st \<Rightarrow> load_extras_lines dict_level rest st)"

definition load_extras_file ::
  "'a afl_extras_scheme \<Rightarrow> string \<Rightarrow> u32 \<Rightarrow> u32 \<Rightarrow> u32 \<Rightarrow> ('a afl_extras_scheme \<times> u32 \<times> u32) result option" where
  "load_extras_file afl fn min_len max_len dict_level =
     (case read_file afl fn of
        None \<Rightarrow> Some (Inl (Fatal ''Unable to open''))
      | Some content \<Rightarrow>
          (case load_extras_lines dict_level (fgets_lines content) (extras afl, min_len, max_len) of
             None \<Rightarrow> None
           | Some (xs, min_len, max_len) \<Rightarrow> Some (Inr (afl\<lparr>extras := xs\<rparr>, min_len, max_len))))"

definition extras_check_and_sort :: "extra_data qsorter \<Rightarrow> 'a afl_extras_scheme \<Rightarrow> 'a afl_extras_scheme" where
  "extras_check_and_sort qsort afl =
     (if extras afl = [] then afl else afl\<lparr>extras := qsort compare_extras_len (extras afl)\<rparr>)"

text \<open>What the operating system answers about a name: \<open>opendir\<close> yields the entries of a directory, fails with
  \<open>ENOTDIR\<close> or fails otherwise; for an entry, \<open>lstat\<close> or \<open>access\<close> fails, or it is not a regular file, or it
  is one of the given size.\<close>

datatype dir_entry = No_access | Not_regular | Regular u64
datatype dir_open = Open_dir "(string \<times> dir_entry) list" | Enotdir | Open_failed

definition load_extras_entry ::
  "string \<Rightarrow> string \<times> dir_entry \<Rightarrow> 'a afl_extras_scheme \<times> u32 \<times> u32 \<Rightarrow> ('a afl_extras_scheme \<times> u32 \<times> u32) result" where
  "load_extras_entry dir de st =
     (case st of (afl, min_len, max_len) \<Rightarrow>
        let fn = dir @ ''/'' @ fst de in
        case snd de of
          No_access \<Rightarrow> Inl (Fatal ''Unable to access'')
        | Not_regular \<Rightarrow> Inr st
        | Regular st_size \<Rightarrow>
            if st_size = 0 then Inr st
            else if st_size > ucast MAX_DICT_FILE then Inr st
            else
              let n = ucast st_size :: u32;
                  min_len = (if ucast min_len > st_size then n else min_len);
                  max_len = (if ucast max_len < st_size then n else max_len)
              in bind_result (load_file afl fn n) (\<lambda>data.
                 Inr (afl\<lparr>extras := extras afl @ [\<lparr>ex_data = data, ex_len = n\<rparr>]\<rparr>, min_len, max_len)))"

text \<open>\<open>strchr(dir, '@')\<close> splits the name; the part behind it is the dictionary level.\<close>

definition dict_path :: "string \<Rightarrow> string" where
  "dict_path dir = takeWhile (\<lambda>c. c \<noteq> CHR ''@'') dir"

definition dict_level_of :: "string \<Rightarrow> u32" where
  "dict_level_of dir =
     (if CHR ''@'' \<in> set dir
      then word_of_int (atoi (map of_char (tl (dropWhile (\<lambda>c. c \<noteq> CHR ''@'') dir)))) else 0)"

definition load_extras ::
  "extra_data qsorter \<Rightarrow> (string \<Rightarrow> dir_open) \<Rightarrow> 'a afl_extras_scheme \<Rightarrow> string \<Rightarrow> 'a afl_extras_scheme result option" where
  "load_extras qsort opendir afl dir =
     (let path = dict_path dir in
      case opendir path of
        Enotdir \<Rightarrow>
          (case load_extras_file afl path MAX_DICT_FILE 0 (dict_level_of dir) of
             None \<Rightarrow> None
           | Some r \<Rightarrow> Some (bind_result r (\<lambda>(afl, min_len, max_len). Inr (extras_check_and_sort qsort afl))))
      | Open_failed \<Rightarrow> Some (Inl (Fatal ''Unable to open''))
      | Open_dir des \<Rightarrow>
          if CHR ''@'' \<in> set dir then Some (Inl (Fatal ''Dictionary levels not supported for directories.''))
          else Some (bind_result (for_each des (load_extras_entry path) (afl, MAX_DICT_FILE, 0))
                 (\<lambda>(afl, min_len, max_len). Inr (extras_check_and_sort qsort afl))))"

section \<open>User tokens\<close>

fun memcmp_nocase :: "bytes \<Rightarrow> bytes \<Rightarrow> nat \<Rightarrow> bool result" where
  "memcmp_nocase m1 m2 0 = Inr False"
| "memcmp_nocase m1 m2 (Suc n) =
     (if m1 = [] \<or> m2 = [] then Inl (Out_of_bounds ''memcmp_nocase'')
      else if tolower (hd m1) XOR tolower (hd m2) \<noteq> 0 then Inr True
      else memcmp_nocase (tl m1) (tl m2) n)"

definition memcmp_equal :: "bytes \<Rightarrow> bytes \<Rightarrow> nat \<Rightarrow> bool result" where
  "memcmp_equal m1 m2 n =
     (if length m1 < n \<or> length m2 < n then Inl (Out_of_bounds ''memcmp'') else Inr (take n m1 = take n m2))"

definition add_extra_nocheck :: "'a afl_extras_scheme \<Rightarrow> bytes \<Rightarrow> u32 \<Rightarrow> 'a afl_extras_scheme result" where
  "add_extra_nocheck afl mem n =
     (if length mem < unat n then Inl (Out_of_bounds ''mem'')
      else Inr (afl\<lparr>extras := extras afl @ [\<lparr>ex_data = take (unat n) mem, ex_len = n\<rparr>]\<rparr>))"

text \<open>The counters of \<open>deunicode_extras\<close>: null bytes at the offsets whose remainder modulo 4 is given. A token
  has at most 64 bytes, so they and the index into \<open>buf\<close> do not wrap.\<close>

definition null_count :: "bytes \<Rightarrow> nat \<Rightarrow> nat set \<Rightarrow> nat" where
  "null_count data n rs = length (filter (\<lambda>j. j mod 4 \<in> rs \<and> data ! j = 0) [0..<n])"

definition every_nth :: "nat \<Rightarrow> nat \<Rightarrow> bytes \<Rightarrow> nat \<Rightarrow> bytes" where
  "every_nth m r data n = map (\<lambda>j. data ! j) (filter (\<lambda>j. j mod m = r) [0..<n])"

definition deunicode_one :: "nat \<Rightarrow> 'a afl_extras_scheme \<Rightarrow> 'a afl_extras_scheme result" where
  "deunicode_one i afl =
     bind_result (get_at ''extras'' (extras afl) i) (\<lambda>e.
     let n = unat (ex_len e); data = ex_data e in
     if n < 6 \<or> n > 64 \<or> n mod 2 \<noteq> 0 then Inr afl
     else if length data < n then Inl (Out_of_bounds ''data'')
     else
       let z1 = null_count data n {0, 2}; z2 = null_count data n {1, 3};
           z3 = null_count data n {2}; z4 = null_count data n {3};
           half = n div 2; quarter = half div 2
       in if (z1 < half \<and> z2 < half) \<or> z1 + z2 = n then Inr afl
          else
            bind_result
              (if n mod 4 = 0 \<and> n \<ge> 12 \<and> (z3 = quarter \<or> z4 = quarter) \<and> z1 + z2 = quarter * 3
               then let buf = every_nth 4 (if z4 < quarter then 3 else if z3 < quarter then 2
                                           else if z2 < half then 1 else 0) data n
                    in add_extra_nocheck afl buf (of_nat (length buf))
               else Inr afl) (\<lambda>afl.
            let buf = every_nth 2 (if z1 < half then 0 else 1) data n
            in add_extra_nocheck afl buf (of_nat (length buf))))"

definition deunicode_extras :: "extra_data qsorter \<Rightarrow> 'a afl_extras_scheme \<Rightarrow> 'a afl_extras_scheme result" where
  "deunicode_extras qsort afl =
     (if extras afl = [] then Inr afl
      else bind_result (for_each [0..<length (extras afl)] deunicode_one afl) (\<lambda>afl.
        Inr (afl\<lparr>extras := qsort compare_extras_len (extras afl)\<rparr>)))"

text \<open>The inner loop of \<open>dedup_extras\<close>: \<open>j\<close> stays where it is after a removal.\<close>

function dedup_inner :: "nat \<Rightarrow> nat \<Rightarrow> extra_data list \<Rightarrow> extra_data list result" where
  "dedup_inner i j xs =
     (if j \<ge> length xs \<or> ex_len (xs ! i) \<noteq> ex_len (xs ! j) then Inr xs
      else
        (case memcmp_equal (ex_data (xs ! i)) (ex_data (xs ! j)) (unat (ex_len (xs ! i))) of
           Inl err \<Rightarrow> Inl err
         | Inr same \<Rightarrow> if same then dedup_inner i j (take j xs @ drop (j + 1) xs)
                       else dedup_inner i (j + 1) xs))"
  by pat_completeness auto
termination
  by (relation "measure (\<lambda>(i, j, xs). length xs - j)") auto

lemma dedup_inner_length: "dedup_inner i j xs = Inr ys \<Longrightarrow> length ys \<le> length xs"
proof (induction i j xs rule: dedup_inner.induct)
  case (1 i j xs)
  show ?case
  proof (cases "j \<ge> length xs \<or> ex_len (xs ! i) \<noteq> ex_len (xs ! j)")
    case False
    then obtain same where same: "memcmp_equal (ex_data (xs ! i)) (ex_data (xs ! j)) (unat (ex_len (xs ! i))) = Inr same"
      using "1.prems" by (subst (asm) dedup_inner.simps) (auto split: sum.splits)
    have "length (take j xs @ drop (j + 1) xs) \<le> length xs" by simp
    then show ?thesis using "1.IH"(1) [OF False same] "1.IH"(2) [OF False same] "1.prems" False same
      by (cases same) (subst (asm) dedup_inner.simps, force)+
  qed (use "1.prems" in \<open>subst (asm) dedup_inner.simps, simp\<close>)
qed

function dedup_outer :: "nat \<Rightarrow> extra_data list \<Rightarrow> extra_data list result" where
  "dedup_outer i xs =
     (if i < length xs - 1 then
        (case dedup_inner i (i + 1) xs of Inl err \<Rightarrow> Inl err | Inr xs \<Rightarrow> dedup_outer (i + 1) xs)
      else Inr xs)"
  by pat_completeness auto
termination
proof (relation "measure (\<lambda>(i, xs). length xs - i)")
  fix i xs ys assume "i < length xs - 1" "dedup_inner i (i + 1) xs = Inr ys"
  then show "((i + 1, ys), (i, xs)) \<in> measure (\<lambda>(i, xs). length xs - i)"
    using dedup_inner_length [of i "i + 1" xs ys] by auto
qed simp

declare dedup_inner.simps [simp del] dedup_outer.simps [simp del]

definition dedup_extras :: "'a afl_extras_scheme \<Rightarrow> 'a afl_extras_scheme result" where
  "dedup_extras afl =
     (if length (extras afl) < 2 then Inr afl
      else bind_result (dedup_outer 0 (extras afl)) (\<lambda>xs. Inr (afl\<lparr>extras := xs\<rparr>)))"

text \<open>The scan of \<open>add_extra\<close>: stop at an equal token, or at the first other length behind one of this length.\<close>

fun extra_known :: "extra_data list \<Rightarrow> bytes \<Rightarrow> u32 \<Rightarrow> bool \<Rightarrow> bool result" where
  "extra_known [] mem n found = Inr False"
| "extra_known (e # es) mem n found =
     (if ex_len e = n
      then bind_result (memcmp_equal (ex_data e) mem (unat n)) (\<lambda>same.
        if same then Inr True else extra_known es mem n True)
      else if found then Inr False else extra_known es mem n found)"

definition add_extra :: "extra_data qsorter \<Rightarrow> 'a afl_extras_scheme \<Rightarrow> bytes \<Rightarrow> u32 \<Rightarrow> 'a afl_extras_scheme result" where
  "add_extra qsort afl mem n =
     bind_result (extra_known (extras afl) mem n False) (\<lambda>known.
     if known then Inr afl
     else if n > MAX_DICT_FILE then Inr afl
     else bind_result (add_extra_nocheck afl mem n) (\<lambda>afl.
       Inr (afl\<lparr>extras := qsort compare_extras_len (extras afl)\<rparr>)))"

definition destroy_extras :: "'a afl_extras_scheme \<Rightarrow> 'a afl_extras_scheme" where
  "destroy_extras afl = afl\<lparr>extras := []\<rparr>"

section \<open>Automatic tokens\<close>

text \<open>The end of the run of bytes equal to \<open>mem[0]\<close>, searched from 1.\<close>

definition run_end :: "bytes \<Rightarrow> nat \<Rightarrow> nat" where
  "run_end mem n = 1 + length (takeWhile (\<lambda>i. mem ! 0 XOR mem ! i = 0) [1..<n])"

text \<open>\<open>*((u16 *)mem) == interesting_16[i]\<close> compares after promotion to \<open>int\<close>: the left side is never negative. The
  32-bit test casts the right side to \<open>u32\<close> first.\<close>

definition builtin_16 :: "bytes \<Rightarrow> bool" where
  "builtin_16 mem =
     (let v = join_words (take 2 mem) :: u16 in
      list_ex (\<lambda>c. uint v = c \<or> v = SWAP16 (word_of_int c)) (rev interesting_16))"

definition builtin_32 :: "bytes \<Rightarrow> bool" where
  "builtin_32 mem =
     (let v = join_words (take 4 mem) :: u32 in
      list_ex (\<lambda>c. v = word_of_int c \<or> v = SWAP32 (word_of_int c)) (rev interesting_32))"

lemma builtin_16_misses_minus_128: "-128 \<in> set interesting_16 \<and> \<not> builtin_16 [0x80, 0xFF]"
  by (simp add: builtin_16_def interesting_16_def interesting_8_def SWAP16_def Let_def)

text \<open>The scan of the sorted user tokens: skip the shorter ones, then compare those of the same length.\<close>

fun same_len_match :: "extra_data list \<Rightarrow> bytes \<Rightarrow> u32 \<Rightarrow> bool result" where
  "same_len_match [] mem n = Inr False"
| "same_len_match (e # es) mem n =
     (if ex_len e \<noteq> n then Inr False
      else bind_result (memcmp_nocase (ex_data e) mem (unat n)) (\<lambda>differs.
        if \<not> differs then Inr True else same_len_match es mem n))"

definition extras_match :: "extra_data list \<Rightarrow> bytes \<Rightarrow> u32 \<Rightarrow> bool result" where
  "extras_match xs mem n = same_len_match (dropWhile (\<lambda>e. ex_len e < n) xs) mem n"

fun auto_match :: "auto_extra_data list \<Rightarrow> nat \<Rightarrow> bytes \<Rightarrow> u32 \<Rightarrow> nat option result" where
  "auto_match [] i mem n = Inr None"
| "auto_match (a # as) i mem n =
     (if ae_len a = n
      then bind_result (memcmp_nocase (ae_data a) mem (unat n)) (\<lambda>differs.
        if \<not> differs then Inr (Some i) else auto_match as (i + 1) mem n)
      else auto_match as (i + 1) mem n)"

text \<open>\<open>memcpy(a_extras[i].data, mem, len)\<close> into the array of \<open>MAX_AUTO_EXTRA\<close> bytes.\<close>

definition set_auto :: "nat \<Rightarrow> bytes \<Rightarrow> u32 \<Rightarrow> 'a afl_extras_scheme \<Rightarrow> 'a afl_extras_scheme result" where
  "set_auto i mem n afl =
     (if i \<ge> length (a_extras afl) then Inl (Out_of_bounds ''a_extras'')
      else let a = a_extras afl ! i in
        Inr (afl\<lparr>a_extras := (a_extras afl)
          [i := a\<lparr>ae_data := take (unat n) mem @ drop (unat n) (ae_data a), ae_len := n\<rparr>]\<rparr>))"

definition append_auto :: "bytes \<Rightarrow> u32 \<Rightarrow> 'a afl_extras_scheme \<Rightarrow> 'a afl_extras_scheme result" where
  "append_auto mem n afl =
     bind_result (set_auto (unat (a_extras_cnt afl)) mem n afl) (\<lambda>afl.
     Inr (afl\<lparr>a_extras_cnt := a_extras_cnt afl + 1\<rparr>))"

definition replace_auto :: "nat \<Rightarrow> bytes \<Rightarrow> u32 \<Rightarrow> 'a afl_extras_scheme \<Rightarrow> 'a afl_extras_scheme result" where
  "replace_auto i mem n afl =
     bind_result (set_auto i mem n afl) (\<lambda>afl.
     Inr (afl\<lparr>a_extras := (a_extras afl)[i := (a_extras afl ! i)\<lparr>ae_hit_cnt := 0\<rparr>]\<rparr>))"

definition sort_first :: "'b qsorter \<Rightarrow> ('b \<Rightarrow> 'b \<Rightarrow> int) \<Rightarrow> nat \<Rightarrow> 'b list \<Rightarrow> 'b list" where
  "sort_first qsort cmp n xs = qsort cmp (take n xs) @ drop n xs"

definition sort_a_extras :: "auto_extra_data qsorter \<Rightarrow> 'a afl_extras_scheme \<Rightarrow> 'a afl_extras_scheme" where
  "sort_a_extras qsort afl =
     (let cnt = unat (a_extras_cnt afl);
          as = sort_first qsort compare_auto_extras_use_d cnt (a_extras afl);
          as = sort_first qsort compare_auto_extras_len (min USE_AUTO_EXTRAS cnt) as
      in afl\<lparr>a_extras := as\<rparr>)"

definition insert_auto ::
  "bytes \<Rightarrow> u32 \<Rightarrow> 'a afl_extras_scheme \<Rightarrow> 'a afl_extras_scheme result option" where
  "insert_auto mem n afl =
     (if unat (a_extras_cnt afl) < MAX_AUTO_EXTRAS then Some (append_auto mem n afl)
      else
        (case rand_below afl (of_nat ((MAX_AUTO_EXTRAS + 1) div 2)) of
           None \<Rightarrow> None
         | Some (r, afl) \<Rightarrow> Some (replace_auto (MAX_AUTO_EXTRAS div 2 + unat r) mem n afl)))"

definition maybe_add_auto ::
  "auto_extra_data qsorter \<Rightarrow> 'a afl_extras_scheme \<Rightarrow> bytes \<Rightarrow> u32 \<Rightarrow> 'a afl_extras_scheme result option" where
  "maybe_add_auto qsort afl mem n =
     (if length mem < unat n then Some (Inl (Out_of_bounds ''mem''))
      else if run_end mem (unat n) = unat n \<or> unat n > MAX_AUTO_EXTRA then Some (Inr afl)
      else if n = 2 \<and> builtin_16 mem then Some (Inr afl)
      else if n = 4 \<and> builtin_32 mem then Some (Inr afl)
      else
        (case extras_match (extras afl) mem n of
           Inl err \<Rightarrow> Some (Inl err)
         | Inr True \<Rightarrow> Some (Inr afl)
         | Inr False \<Rightarrow>
             let afl = afl\<lparr>auto_changed := True\<rparr> in
             (case auto_match (take (unat (a_extras_cnt afl)) (a_extras afl)) 0 mem n of
                Inl err \<Rightarrow> Some (Inl err)
              | Inr (Some i) \<Rightarrow>
                  let a = a_extras afl ! i in
                  Some (Inr (sort_a_extras qsort
                    (afl\<lparr>a_extras := (a_extras afl)[i := a\<lparr>ae_hit_cnt := ae_hit_cnt a + 1\<rparr>]\<rparr>)))
              | Inr None \<Rightarrow>
                  (case insert_auto mem n afl of
                     None \<Rightarrow> None
                   | Some r \<Rightarrow> Some (bind_result r (\<lambda>afl. Inr (sort_a_extras qsort afl)))))))"

text \<open>\<open>"auto_%06u"\<close>.\<close>

fun dec_digits :: "nat \<Rightarrow> string" where
  "dec_digits n = (if n < 10 then [char_of (48 + n)] else dec_digits (n div 10) @ [char_of (48 + n mod 10)])"

definition auto_name :: "nat \<Rightarrow> string" where
  "auto_name i = ''auto_'' @ replicate (6 - length (dec_digits i)) (CHR ''0'') @ dec_digits i"

definition save_one_auto :: "nat \<Rightarrow> 'a afl_extras_scheme \<Rightarrow> 'a afl_extras_scheme result" where
  "save_one_auto i afl =
     bind_result (get_at ''a_extras'' (a_extras afl) i) (\<lambda>a.
     if length (ae_data a) < unat (ae_len a) then Inl (Out_of_bounds ''data'')
     else creat_trunc afl (out_dir afl @ ''/queue/.state/auto_extras/'' @ auto_name i)
            (take (unat (ae_len a)) (ae_data a)))"

definition save_auto :: "'a afl_extras_scheme \<Rightarrow> 'a afl_extras_scheme result" where
  "save_auto afl =
     (if \<not> auto_changed afl then Inr afl
      else for_each [0..<min USE_AUTO_EXTRAS (unat (a_extras_cnt afl))] save_one_auto
             (afl\<lparr>auto_changed := False\<rparr>))"

text \<open>\<open>open\<close> fails with \<open>ENOENT\<close> on a missing file and otherwise when it is refused; one byte more than the limit is
  read.\<close>

fun load_auto_loop ::
  "auto_extra_data qsorter \<Rightarrow> nat \<Rightarrow> nat \<Rightarrow> 'a afl_extras_scheme \<Rightarrow> 'a afl_extras_scheme result option" where
  "load_auto_loop qsort 0 i afl = Some (Inr afl)"
| "load_auto_loop qsort (Suc k) i afl =
     (let fn = in_dir afl @ ''/.state/auto_extras/'' @ auto_name i in
      if fs_deny afl fn then Some (Inl (Fatal ''Unable to open''))
      else
        (case fs afl fn of
           None \<Rightarrow> Some (Inr afl)
         | Some content \<Rightarrow>
             let tmp = take (MAX_AUTO_EXTRA + 1) content; n = length tmp in
             if MIN_AUTO_EXTRA \<le> n \<and> n \<le> MAX_AUTO_EXTRA
             then (case maybe_add_auto qsort afl tmp (of_nat n) of
                     None \<Rightarrow> None
                   | Some (Inl err) \<Rightarrow> Some (Inl err)
                   | Some (Inr afl) \<Rightarrow> load_auto_loop qsort k (i + 1) afl)
             else load_auto_loop qsort k (i + 1) afl))"

definition load_auto :: "auto_extra_data qsorter \<Rightarrow> 'a afl_extras_scheme \<Rightarrow> 'a afl_extras_scheme result option" where
  "load_auto qsort afl = load_auto_loop qsort USE_AUTO_EXTRAS 0 afl"

declare dec_digits.simps [simp del]

section \<open>Parsing: termination and round trip\<close>

definition printable :: "u8 \<Rightarrow> bool" where
  "printable c \<longleftrightarrow> 32 \<le> c \<and> c < 128"

lemma starts_simps [simp]: "starts c [] \<longleftrightarrow> False" "starts c (d # t) \<longleftrightarrow> d = c"
  by (simp_all add: starts_def)

lemma printable_alt: "printable c \<longleftrightarrow> \<not> (c \<le> 31 \<or> 128 \<le> c)"
  by (auto simp: printable_def word_le_nat_alt word_less_nat_alt)

lemma xdigit_printable: "isxdigit c \<Longrightarrow> printable c"
  by (auto simp: isxdigit_def isdigit_def printable_def word_le_nat_alt word_less_nat_alt)

lemma decode_keyword_Some:
  assumes "decode_keyword s w = Some r" and "0 \<notin> set s"
  shows "\<forall>c \<in> set s. printable c"
proof -
  have "0 \<notin> set s \<longrightarrow> (\<forall>c \<in> set s. printable c)"
  proof (rule decode_keyword.raw_induct [where P = "\<lambda>s w r. 0 \<notin> set s \<longrightarrow> (\<forall>c \<in> set s. printable c)", OF _ assms(1)])
    fix f s w r
    assume IH: "\<And>s w r. f s w = Some r \<Longrightarrow> 0 \<notin> set s \<longrightarrow> (\<forall>c \<in> set s. printable c)"
      and eq: "(case s of [] \<Rightarrow> Some w | c # t \<Rightarrow>
          if c = 0 then Some w
          else if c \<le> 31 \<or> 128 \<le> c then f s w
          else if c = 0x5C then
            if starts 0x5C t \<or> starts 0x22 t then f (tl t) (w @ [hd t])
            else if \<not> (starts 0x78 t \<and> 3 \<le> length t \<and> isxdigit (t ! 1) \<and> isxdigit (t ! 2))
            then f t w
            else f (drop 3 t) (w @ [push_bit 4 (hexdigit (t ! 1)) OR hexdigit (t ! 2)])
          else f t (w @ [c])) = Some r"
    show "0 \<notin> set s \<longrightarrow> (\<forall>c \<in> set s. printable c)"
    proof (cases s)
      case (Cons c t)
      have tail: "\<forall>c \<in> set u. printable c" if "f u v = Some r" "set u \<subseteq> set s" "0 \<notin> set s" for u v
        using IH [OF that(1)] that(2,3) by blast
      show ?thesis
      proof
        assume nz: "0 \<notin> set s"
        show "\<forall>c \<in> set s. printable c"
        proof (cases "c \<le> 31 \<or> 128 \<le> c")
          case True
          then show ?thesis using eq nz tail [of s w] Cons by simp
        next
          case c: False
          let ?hex = "starts 0x78 t \<and> 3 \<le> length t \<and> isxdigit (t ! 1) \<and> isxdigit (t ! 2)"
          have "\<forall>c \<in> set t. printable c"
          proof (cases "c = 0x5C \<and> (starts 0x5C t \<or> starts 0x22 t)")
            case True
            then obtain b t' where t: "t = b # t'" "printable b"
              by (cases t) (auto simp: printable_def word_le_nat_alt word_less_nat_alt)
            then show ?thesis using True eq c nz tail [of t' "w @ [b]"] Cons by auto
          next
            case plain: False
            show ?thesis
            proof (cases "c = 0x5C \<and> ?hex")
              case True
              then obtain x y z t' where t: "t = x # y # z # t'" by (auto simp: numeral_3_eq_3 Suc_le_length_iff)
              then show ?thesis using True eq c nz plain Cons
                  tail [of t' "w @ [push_bit 4 (hexdigit y) OR hexdigit z]"] xdigit_printable
                by (auto simp: printable_def word_le_nat_alt word_less_nat_alt)
            next
              case False
              then show ?thesis
                using eq c nz plain Cons tail [of t w] tail [of t "w @ [c]"] by (auto split: if_splits)
            qed
          qed
          with c show ?thesis using Cons by (simp add: printable_alt)
        qed
      qed
    qed simp
  qed
  with assms(2) show ?thesis by simp
qed

lemma decode_keyword_total:
  "\<forall>c \<in> set s. printable c \<Longrightarrow> \<exists>r. decode_keyword s w = Some r"
proof (induction "length s" arbitrary: s w rule: less_induct)
  case less
  show ?case
  proof (cases s)
    case (Cons c t)
    have rec: "\<exists>r. decode_keyword u v = Some r" if "length u \<le> length t" "set u \<subseteq> set t" for u v
      using less.hyps [of u v] less.prems Cons that by auto
    have sub: "length (tl t) \<le> length t" "set (tl t) \<subseteq> set t" "set (drop 3 t) \<subseteq> set t"
      by (simp_all add: list.set_sel(2) set_drop_subset subsetI) (cases t; auto)
    have "printable c" using less.prems Cons by simp
    then show ?thesis
      using rec sub Cons by (subst decode_keyword.simps) (auto simp: printable_alt)
  qed (simp add: decode_keyword.simps)
qed

lemma decode_keyword_returns:
  "0 \<notin> set s \<Longrightarrow> decode_keyword s w \<noteq> None \<longleftrightarrow> (\<forall>c \<in> set s. printable c)"
  using decode_keyword_Some decode_keyword_total by (metis not_None_eq)

lemma in_set_tlD: "x \<in> set (tl xs) \<Longrightarrow> x \<in> set xs"
  by (cases xs) auto

lemma set_trim_line: "set (trim_line s) \<subseteq> set s"
  by (auto simp: trim_line_def dest!: set_dropWhileD)

lemma set_skip_index: "set (skip_index s) \<subseteq> set s"
  by (auto simp: skip_index_def Let_def dest!: in_set_tlD set_dropWhileD split: if_splits)

lemma keyword_text_subset:
  assumes "keyword_text lvl line = Some s"
  shows "set s \<subseteq> set (c_string line)"
proof -
  define u where "u = dropWhile (\<lambda>c. isalnum c \<or> c = 0x5F) (butlast (trim_line (c_string line)))"
  define v where "v = (if starts 0x40 u then dropWhile isdigit (tl u) else u)"
  have "s = tl (dropWhile (\<lambda>c. isspace c \<or> c = 0x3D) (skip_index v))"
    using assms unfolding keyword_text_def Let_def u_def [symmetric] v_def [symmetric]
    by (auto split: if_splits)
  then have "set s \<subseteq> set v"
    using set_skip_index [of v] by (auto dest!: in_set_tlD set_dropWhileD)
  also have "\<dots> \<subseteq> set u"
    by (auto simp: v_def dest!: in_set_tlD set_dropWhileD split: if_splits)
  also have "\<dots> \<subseteq> set (c_string line)"
    using set_trim_line [of "c_string line"] unfolding u_def
    by (fastforce dest: set_dropWhileD in_set_butlastD)
  finally show ?thesis .
qed

lemma keyword_text_no_null: "keyword_text lvl line = Some s \<Longrightarrow> 0 \<notin> set s"
  using keyword_text_subset unfolding c_string_def by (fastforce dest: set_takeWhileD)

lemma load_extras_line_returns:
  "load_extras_line lvl line st \<noteq> None \<longleftrightarrow>
     (\<forall>s. keyword_text lvl line = Some s \<longrightarrow> (\<forall>c \<in> set s. printable c))"
proof (cases "keyword_text lvl line")
  case (Some s)
  obtain xs mn mx where st: "st = (xs, mn, mx)" by (cases st)
  have "load_extras_line lvl line st \<noteq> None \<longleftrightarrow> decode_keyword s [] \<noteq> None"
    unfolding load_extras_line_def st using Some by (simp add: Let_def split: option.splits)
  then show ?thesis using decode_keyword_returns [OF keyword_text_no_null [OF Some]] Some by simp
qed (simp add: load_extras_line_def split_beta)

lemma load_extras_lines_returns:
  "load_extras_lines lvl ls st \<noteq> None \<longleftrightarrow>
     (\<forall>line \<in> set ls. \<forall>s. keyword_text lvl line = Some s \<longrightarrow> (\<forall>c \<in> set s. printable c))"
proof (induction ls arbitrary: st)
  case (Cons line ls)
  then show ?case using load_extras_line_returns [of lvl line st]
    by (cases "load_extras_line lvl line st") simp_all
qed simp

text \<open>The inverse of the parser: a token as a line of a dictionary file.\<close>

definition hex_char :: "u8 \<Rightarrow> u8" where
  "hex_char n = (if n < 10 then 0x30 + n else 0x57 + n)"

definition escape_byte :: "u8 \<Rightarrow> bytes" where
  "escape_byte b =
     (if b = 0x5C \<or> b = 0x22 then [0x5C, b]
      else if printable b then [b]
      else [0x5C, 0x78, hex_char (drop_bit 4 b), hex_char (b AND 15)])"

definition dict_line :: "bytes \<Rightarrow> bytes" where
  "dict_line tok = 0x22 # concat (map escape_byte tok) @ [0x22, 0x0A]"

lemma nibble_cases:
  assumes "n < (16 :: u8)"
  shows "n \<in> {0, 1, 2, 3, 4, 5, 6, 7, 8, 9, 10, 11, 12, 13, 14, 15}"
proof -
  have "unat n < 16" using assms by (simp add: word_less_nat_alt)
  then have "unat n \<in> {0, 1, 2, 3, 4, 5, 6, 7, 8, 9, 10, 11, 12, 13, 14, 15}"
    by (simp only: insert_iff empty_iff) arith
  then have "(of_nat (unat n) :: u8) \<in> of_nat ` {0, 1, 2, 3, 4, 5, 6, 7, 8, 9, 10, 11, 12, 13, 14, 15}"
    by (rule imageI)
  then show ?thesis by simp
qed

lemma hex_char_ok:
  assumes "n < 16"
  shows "hexdigit (hex_char n) = n" "isxdigit (hex_char n)"
  using nibble_cases [OF assms]
  by (auto simp: hex_char_def hexdigit_def isxdigit_def isdigit_def tolower_def word_le_nat_alt word_less_nat_alt)

lemma nibbles: "drop_bit 4 (b :: u8) < 16" "b AND 15 < 16" "push_bit 4 (drop_bit 4 b) OR (b AND 15) = b"
proof -
  have m: "(15 :: u8) = mask 4" by (simp add: mask_eq_exp_minus_1)
  show "drop_bit 4 b < 16" using unat_u8_less [of b] by (simp add: word_less_nat_alt unat_drop_bit_eq drop_bit_nat_def)
  show "b AND 15 < 16"
    unfolding m by (simp add: word_less_nat_alt unsigned_take_bit_eq take_bit_nat_def flip: take_bit_eq_mask)
  show "push_bit 4 (drop_bit 4 b) OR (b AND 15) = b"
    unfolding m by (rule bit_word_eqI) (auto simp: bit_simps)
qed

lemma escape_byte_printable: "c \<in> set (escape_byte b) \<Longrightarrow> printable c"
  using hex_char_ok(2) [OF nibbles(1) [of b]] hex_char_ok(2) [OF nibbles(2) [of b]] xdigit_printable
  by (auto simp: escape_byte_def printable_def word_le_nat_alt word_less_nat_alt split: if_splits)

lemma decode_escape_byte:
  "decode_keyword (escape_byte b @ s) w = decode_keyword s (w @ [b])"
proof (cases "b = 0x5C \<or> b = 0x22")
  case True
  then show ?thesis by (subst decode_keyword.simps) (auto simp: escape_byte_def word_le_nat_alt)
next
  case plain: False
  show ?thesis
  proof (cases "printable b")
    case True
    then have "\<not> (b \<le> 31 \<or> 128 \<le> b)" by (simp add: printable_alt)
    moreover from this have "b \<noteq> 0" by auto
    ultimately show ?thesis using plain True by (subst decode_keyword.simps) (simp add: escape_byte_def)
  next
    case False
    then show ?thesis using plain nibbles [of b] hex_char_ok [OF nibbles(1) [of b]] hex_char_ok [OF nibbles(2) [of b]]
      by (subst decode_keyword.simps) (simp add: escape_byte_def word_le_nat_alt)
  qed
qed

lemma decode_escape: "decode_keyword (concat (map escape_byte tok)) w = Some (w @ tok)"
proof (induction tok arbitrary: w)
  case Nil
  then show ?case by (simp add: decode_keyword.simps)
next
  case (Cons b tok)
  then show ?case by (simp add: decode_escape_byte)
qed

lemma escape_printable: "c \<in> set (concat (map escape_byte tok)) \<Longrightarrow> printable c"
  using escape_byte_printable by auto

lemma length_escape: "length tok \<le> length (concat (map escape_byte tok))"
    "length (concat (map escape_byte tok)) \<le> 4 * length tok"
proof -
  have "1 \<le> length (escape_byte b) \<and> length (escape_byte b) \<le> 4" for b by (simp add: escape_byte_def)
  note b = this
  show "length tok \<le> length (concat (map escape_byte tok))"
  proof (induction tok)
    case (Cons a tok)
    then show ?case using b [of a] by simp
  qed simp
  show "length (concat (map escape_byte tok)) \<le> 4 * length tok"
  proof (induction tok)
    case (Cons a tok)
    then show ?case using b [of a] by simp
  qed simp
qed

lemma printable_simps: "\<not> printable 0" "\<not> printable 0x0A" "printable 0x22" "\<not> isspace 0x22" "isspace 0x0A"
    "\<not> isalnum 0x22"
  by (simp_all add: printable_def isspace_def isalnum_def isdigit_def word_le_nat_alt word_less_nat_alt)

lemma keyword_text_dict_line:
  assumes "tok \<noteq> []"
  shows "keyword_text lvl (dict_line tok) = Some (concat (map escape_byte tok))"
proof -
  let ?e = "concat (map escape_byte tok)"
  have "0 \<notin> set ?e" using escape_printable printable_simps(1) by blast
  then have "c_string (dict_line tok) = dict_line tok"
    unfolding c_string_def dict_line_def by (subst takeWhile_eq_all_conv) auto
  moreover have "trim_line (dict_line tok) = 0x22 # ?e @ [0x22]"
    by (simp add: trim_line_def dict_line_def printable_simps)
  moreover have "?e \<noteq> []" using length_escape(1) [of tok] assms by (metis le_zero_eq length_0_conv list.size(3))
  ultimately show ?thesis
    by (simp add: keyword_text_def printable_simps skip_index_def butlast_append)
qed

lemma fgets_dict_line:
  assumes "length tok \<le> 128"
  shows "fgets (dict_line tok @ rest) = dict_line tok"
proof -
  let ?l = "0x22 # concat (map escape_byte tok) @ [0x22]"
  have l: "\<forall>c \<in> set ?l. c \<noteq> 0x0A"
    using escape_printable [of _ tok] printable_simps by auto
  have "length ?l < MAX_LINE - 1" using length_escape(2) [of tok] assms by simp
  then have "take (MAX_LINE - 1) (?l @ 0x0A # rest) = ?l @ 0x0A # take (MAX_LINE - 2 - length ?l) rest"
    by (simp add: take_Cons' )
  moreover have "takeWhile (\<lambda>c. c \<noteq> 0x0A) (?l @ 0x0A # t) = ?l" for t
    using l by (subst takeWhile_append2) auto
  ultimately show ?thesis by (simp add: fgets_def dict_line_def Let_def)
qed

lemma fgets_dict_lines:
  "\<forall>t \<in> set toks. length t \<le> 128 \<Longrightarrow> fgets_lines (concat (map dict_line toks)) = map dict_line toks"
proof (induction toks)
  case Nil
  then show ?case by (simp add: fgets_lines.simps)
next
  case (Cons t toks)
  then show ?case
    by (subst fgets_lines.simps) (simp add: fgets_dict_line, simp add: dict_line_def)
qed

definition token :: "extra_data \<Rightarrow> bytes" where
  "token e = take (unat (ex_len e)) (ex_data e)"

lemma load_dict_line:
  assumes "tok \<noteq> []" and "length tok \<le> 128"
  shows "\<exists>e mn' mx'. load_extras_line lvl (dict_line tok) (xs, mn, mx) = Some (xs @ [e], mn', mx') \<and> token e = tok"
proof -
  let ?k = "of_nat (length tok) :: u32"
  have k: "unat ?k = length tok" using assms(2) by (intro unat_of_nat_eq) simp
  then have "\<not> ?k > MAX_DICT_FILE" using assms(2) by (simp add: word_less_nat_alt)
  then show ?thesis
    by (simp add: load_extras_line_def keyword_text_dict_line assms(1) decode_escape Let_def token_def k)
qed

lemma load_dict_lines:
  "\<forall>t \<in> set toks. t \<noteq> [] \<and> length t \<le> 128 \<Longrightarrow>
     \<exists>ys mn' mx'. load_extras_lines lvl (map dict_line toks) (xs, mn, mx) = Some (xs @ ys, mn', mx') \<and> map token ys = toks"
proof (induction toks arbitrary: xs mn mx)
  case (Cons t toks)
  obtain e mn1 mx1 where e: "load_extras_line lvl (dict_line t) (xs, mn, mx) = Some (xs @ [e], mn1, mx1)" "token e = t"
    using load_dict_line [of t lvl xs mn mx] Cons.prems by auto
  obtain ys mn2 mx2 where "load_extras_lines lvl (map dict_line toks) (xs @ [e], mn1, mx1) = Some ((xs @ [e]) @ ys, mn2, mx2)"
      "map token ys = toks"
    using Cons.IH [of "xs @ [e]" mn1 mx1] Cons.prems by auto
  with e show ?case by (intro exI [of _ "e # ys"]) simp
qed simp

section \<open>Sorted tokens\<close>

text \<open>What \<open>qsort\<close> promises: on elements on which the comparison is consistent, a permutation in ascending order.\<close>

definition cmp_consistent :: "('b \<Rightarrow> 'b \<Rightarrow> int) \<Rightarrow> 'b set \<Rightarrow> bool" where
  "cmp_consistent cmp A \<longleftrightarrow>
     (\<forall>x \<in> A. \<forall>y \<in> A. (cmp x y \<le> 0 \<or> cmp y x \<le> 0) \<and> (0 < cmp x y \<longleftrightarrow> cmp y x < 0))
     \<and> (\<forall>x \<in> A. \<forall>y \<in> A. \<forall>z \<in> A. cmp x y \<le> 0 \<longrightarrow> cmp y z \<le> 0 \<longrightarrow> cmp x z \<le> 0)"

definition qsort_spec :: "'b qsorter \<Rightarrow> bool" where
  "qsort_spec qsort \<longleftrightarrow> (\<forall>cmp xs. cmp_consistent cmp (set xs) \<longrightarrow>
     mset (qsort cmp xs) = mset xs \<and> sorted_wrt (\<lambda>x y. cmp x y \<le> 0) (qsort cmp xs))"

lemma cmp_consistent_key:
  "(\<And>x y. x \<in> A \<Longrightarrow> y \<in> A \<Longrightarrow> cmp x y = k x - (k y :: int)) \<Longrightarrow> cmp_consistent cmp A"
  unfolding cmp_consistent_def by auto

lemma qsort_key:
  assumes "qsort_spec qsort" and "\<And>x y. x \<in> set xs \<Longrightarrow> y \<in> set xs \<Longrightarrow> cmp x y = k x - (k y :: int)"
  shows "mset (qsort cmp xs) = mset xs" and "sorted (map k (qsort cmp xs))"
proof -
  have q: "mset (qsort cmp xs) = mset xs" "sorted_wrt (\<lambda>x y. cmp x y \<le> 0) (qsort cmp xs)"
    using assms(1) cmp_consistent_key [of "set xs" cmp k] assms(2) unfolding qsort_spec_def by blast+
  show "mset (qsort cmp xs) = mset xs" by (rule q)
  have "set (qsort cmp xs) = set xs" using q(1) by (rule mset_eq_setD)
  then have "sorted_wrt (\<lambda>x y. k x \<le> k y) (qsort cmp xs)"
    using sorted_wrt_mono_rel [OF _ q(2)] assms(2) by fastforce
  then show "sorted (map k (qsort cmp xs))" by (simp add: sorted_wrt_map)
qed

text \<open>A stable insertion sort meets the promise.\<close>

fun insert_by :: "('b \<Rightarrow> 'b \<Rightarrow> int) \<Rightarrow> 'b \<Rightarrow> 'b list \<Rightarrow> 'b list" where
  "insert_by cmp x [] = [x]"
| "insert_by cmp x (y # ys) = (if cmp x y \<le> 0 then x # y # ys else y # insert_by cmp x ys)"

definition insertion_sort :: "'b qsorter" where
  "insertion_sort cmp xs = foldr (insert_by cmp) xs []"

lemma mset_insert_by [simp]: "mset (insert_by cmp x xs) = add_mset x (mset xs)"
  by (induction xs) auto

lemma set_insert_by [simp]: "set (insert_by cmp x xs) = insert x (set xs)"
  by (induction xs) auto

lemma cmp_consistent_subset: "cmp_consistent cmp A \<Longrightarrow> B \<subseteq> A \<Longrightarrow> cmp_consistent cmp B"
  unfolding cmp_consistent_def by blast

lemma sorted_insert_by:
  "cmp_consistent cmp (insert x (set xs)) \<Longrightarrow> sorted_wrt (\<lambda>x y. cmp x y \<le> 0) xs \<Longrightarrow>
     sorted_wrt (\<lambda>x y. cmp x y \<le> 0) (insert_by cmp x xs)"
proof (induction xs)
  case (Cons y ys)
  have "cmp_consistent cmp (insert x (set ys))" by (rule cmp_consistent_subset [OF Cons.prems(1)]) auto
  then have IH: "sorted_wrt (\<lambda>x y. cmp x y \<le> 0) (insert_by cmp x ys)" using Cons.IH Cons.prems(2) by simp
  have total: "\<not> cmp x y \<le> 0 \<Longrightarrow> cmp y x \<le> 0"
    and trans: "\<And>z. z \<in> set ys \<Longrightarrow> cmp x y \<le> 0 \<Longrightarrow> cmp y z \<le> 0 \<Longrightarrow> cmp x z \<le> 0"
    using Cons.prems(1) unfolding cmp_consistent_def list.set by blast+
  show ?case
  proof (cases "cmp x y \<le> 0")
    case True
    then show ?thesis using Cons.prems(2) trans by simp
  next
    case False
    then show ?thesis using Cons.prems(2) IH total by simp
  qed
qed simp

lemma qsort_spec_insertion_sort: "qsort_spec insertion_sort"
  unfolding qsort_spec_def
proof (intro allI impI)
  fix cmp :: "'b \<Rightarrow> 'b \<Rightarrow> int" and xs
  assume "cmp_consistent cmp (set xs)"
  then show "mset (insertion_sort cmp xs) = mset xs \<and> sorted_wrt (\<lambda>x y. cmp x y \<le> 0) (insertion_sort cmp xs)"
  proof (induction xs)
    case (Cons x xs)
    have "cmp_consistent cmp (set xs)" by (rule cmp_consistent_subset [OF Cons.prems]) auto
    note IH = Cons.IH [OF this]
    then have "set (foldr (insert_by cmp) xs []) = set xs"
      unfolding insertion_sort_def by (metis mset_eq_setD)
    then show ?case using IH Cons.prems sorted_insert_by [of cmp x "foldr (insert_by cmp) xs []"]
      by (simp add: insertion_sort_def)
  qed (simp add: insertion_sort_def)
qed

lemma sint_diff_u32:
  fixes a b :: u32
  assumes "unat a < 2 ^ 31" and "unat b < 2 ^ 31"
  shows "sint (a - b) = int (unat a) - int (unat b)"
proof -
  have fits: "signed_take_bit 31 (int x - int y) = int x - int y" if "x < 2 ^ 31" "y < 2 ^ 31" for x y
    using that by (intro signed_take_bit_int_eq_self) auto
  have "a - b = word_of_int (int (unat a) - int (unat b))" by simp
  then have "sint (a - b) = signed_take_bit 31 (int (unat a) - int (unat b))"
    by (simp only: sint_sbintrunc') simp
  also have "\<dots> = int (unat a) - int (unat b)"
    by (rule fits [OF assms])
  finally show ?thesis .
qed

text \<open>The invariant of the user tokens: within their allocation, at most \<open>MAX_DICT_FILE\<close> long, sorted by length.\<close>

definition extras_wf :: "extra_data list \<Rightarrow> bool" where
  "extras_wf xs \<longleftrightarrow> (\<forall>e \<in> set xs. unat (ex_len e) \<le> length (ex_data e) \<and> unat (ex_len e) \<le> 128)
     \<and> sorted (map (\<lambda>e. unat (ex_len e)) xs)"

lemma qsort_extras:
  assumes "qsort_spec qsort" and "\<forall>e \<in> set xs. unat (ex_len e) \<le> length (ex_data e) \<and> unat (ex_len e) \<le> 128"
  shows "mset (qsort compare_extras_len xs) = mset xs" and "extras_wf (qsort compare_extras_len xs)"
proof -
  have "compare_extras_len x y = int (unat (ex_len x)) - int (unat (ex_len y))" if "x \<in> set xs" "y \<in> set xs" for x y
    unfolding compare_extras_len_def using assms(2) that by (intro sint_diff_u32) force+
  note q = qsort_key [where k = "\<lambda>e. int (unat (ex_len e))", OF assms(1) this]
  show perm: "mset (qsort compare_extras_len xs) = mset xs" by (rule q(1)) simp_all
  have "sorted (map (\<lambda>e. int (unat (ex_len e))) (qsort compare_extras_len xs))" by (rule q(2)) simp_all
  then have "sorted (map (\<lambda>e. unat (ex_len e)) (qsort compare_extras_len xs))"
    by (simp only: sorted_wrt_map of_nat_le_iff)
  moreover have "set (qsort compare_extras_len xs) = set xs" using perm by (rule mset_eq_setD)
  ultimately show "extras_wf (qsort compare_extras_len xs)"
    using assms(2) unfolding extras_wf_def by simp
qed

text \<open>Duplicate removal computes the list of first occurrences.\<close>

function first_tokens :: "extra_data list \<Rightarrow> extra_data list" where
  "first_tokens [] = []"
| "first_tokens (e # es) = e # first_tokens (filter (\<lambda>d. token d \<noteq> token e) es)"
  by pat_completeness auto
termination
  by (relation "measure length") (auto simp: less_Suc_eq_le)

lemma set_first_tokens: "token ` set (first_tokens xs) = token ` set xs"
  by (induction xs rule: first_tokens.induct) auto

lemma distinct_first_tokens: "distinct (map token (first_tokens xs))"
proof (induction xs rule: first_tokens.induct)
  case (2 e es)
  have "token e \<notin> token ` set (first_tokens (filter (\<lambda>d. token d \<noteq> token e) es))"
    unfolding set_first_tokens by auto
  with 2 show ?case by simp
qed simp

lemma first_tokens_short: "length xs \<le> 1 \<Longrightarrow> first_tokens xs = xs"
  by (cases xs) auto

lemma memcmp_equal_token:
  assumes "unat (ex_len d) \<le> length (ex_data d)" "unat (ex_len e) \<le> length (ex_data e)" "ex_len d = ex_len e"
  shows "memcmp_equal (ex_data d) (ex_data e) (unat (ex_len d)) = Inr (token d = token e)"
  using assms by (simp add: memcmp_equal_def token_def)

lemma token_len_differs:
  "unat (ex_len d) \<le> length (ex_data d) \<Longrightarrow> unat (ex_len e) \<le> length (ex_data e) \<Longrightarrow>
     ex_len d \<noteq> ex_len e \<Longrightarrow> token d \<noteq> token e"
  by (metis length_take min.absorb2 token_def word_unat_eq_iff)

lemma extras_wf_filter: "extras_wf (us @ vs) \<Longrightarrow> extras_wf (us @ filter P vs)"
  unfolding extras_wf_def by (auto simp: sorted_append sorted_filter)

lemma extras_wf_remove: "extras_wf (us @ v # vs) \<Longrightarrow> extras_wf (us @ vs)"
  unfolding extras_wf_def by (auto simp: sorted_append)

lemma extras_wf_nth: "extras_wf xs \<Longrightarrow> m < length xs \<Longrightarrow> unat (ex_len (xs ! m)) \<le> length (ex_data (xs ! m))"
  by (simp add: extras_wf_def)

lemma extras_wf_longer:
  assumes "extras_wf xs" and "i < j" and "j < length xs" and "ex_len (xs ! i) \<noteq> ex_len (xs ! j)"
  shows "\<forall>e \<in> set (drop j xs). token e \<noteq> token (xs ! i)"
proof
  fix e assume "e \<in> set (drop j xs)"
  then obtain m where m: "m < length (drop j xs)" "e = drop j xs ! m" unfolding in_set_conv_nth by blast
  define k where "k = j + m"
  have k: "k < length xs" "j \<le> k" "e = xs ! k" using m by (simp_all add: k_def)
  have sorted: "sorted (map (\<lambda>e. unat (ex_len e)) xs)" using assms(1) by (simp add: extras_wf_def)
  have "unat (ex_len (xs ! i)) \<le> unat (ex_len (xs ! j))" "unat (ex_len (xs ! j)) \<le> unat (ex_len (xs ! k))"
    using sorted_nth_mono [OF sorted, of i j] sorted_nth_mono [OF sorted, of j k] assms k by simp_all
  moreover have "unat (ex_len (xs ! i)) \<noteq> unat (ex_len (xs ! j))" using assms(4) by (simp add: word_unat_eq_iff)
  ultimately have "unat (ex_len (xs ! k)) \<noteq> unat (ex_len (xs ! i))" by linarith
  then have "ex_len (xs ! k) \<noteq> ex_len (xs ! i)" by metis
  then show "token e \<noteq> token (xs ! i)"
    unfolding k(3) by (rule token_len_differs [rotated 2]) (use extras_wf_nth [OF assms(1)] k assms in simp_all)
qed

lemma dedup_inner_eq:
  "extras_wf xs \<Longrightarrow> i < j \<Longrightarrow> j \<le> length xs \<Longrightarrow>
     dedup_inner i j xs = Inr (take j xs @ filter (\<lambda>e. token e \<noteq> token (xs ! i)) (drop j xs))"
proof (induction i j xs rule: dedup_inner.induct)
  case (1 i j xs)
  note wf = "1.prems"(1)
  show ?case
  proof (cases "j \<ge> length xs \<or> ex_len (xs ! i) \<noteq> ex_len (xs ! j)")
    case True
    then have "\<forall>e \<in> set (drop j xs). token e \<noteq> token (xs ! i)"
      using extras_wf_longer [OF wf "1.prems"(2)] by (cases "j < length xs") simp_all
    then have "filter (\<lambda>e. token e \<noteq> token (xs ! i)) (drop j xs) = drop j xs" by simp
    then show ?thesis using True by (subst dedup_inner.simps) simp
  next
    case False
    then have j: "j < length xs" by simp
    have drop: "drop j xs = xs ! j # drop (j + 1) xs" using j by (simp add: Cons_nth_drop_Suc)
    have cmp: "memcmp_equal (ex_data (xs ! i)) (ex_data (xs ! j)) (unat (ex_len (xs ! i)))
        = Inr (token (xs ! i) = token (xs ! j))"
      by (rule memcmp_equal_token) (use extras_wf_nth [OF wf, of i] extras_wf_nth [OF wf, of j] j "1.prems"(2) False in simp_all)
    show ?thesis
    proof (cases "token (xs ! i) = token (xs ! j)")
      case same: True
      let ?ys = "take j xs @ drop (j + 1) xs"
      have "extras_wf ?ys"
        using extras_wf_remove [of "take j xs" "xs ! j" "drop (j + 1) xs"] wf j by (simp add: id_take_nth_drop [symmetric])
      then have "dedup_inner i j ?ys = Inr (take j ?ys @ filter (\<lambda>e. token e \<noteq> token (?ys ! i)) (drop j ?ys))"
        using "1.IH"(1) [OF False cmp same] "1.prems"(2) j by simp
      also have "\<dots> = Inr (take j xs @ filter (\<lambda>e. token e \<noteq> token (xs ! i)) (drop j xs))"
        using j "1.prems"(2) same by (simp add: drop nth_append)
      finally show ?thesis using False cmp same by (subst dedup_inner.simps) simp
    next
      case diff: False
      then have "dedup_inner i (j + 1) xs = Inr (take (j + 1) xs @ filter (\<lambda>e. token e \<noteq> token (xs ! i)) (drop (j + 1) xs))"
        using "1.IH"(2) [OF False cmp diff] wf "1.prems"(2) j by simp
      also have "\<dots> = Inr (take j xs @ filter (\<lambda>e. token e \<noteq> token (xs ! i)) (drop j xs))"
        using diff j by (auto simp: drop take_Suc_conv_app_nth)
      finally show ?thesis using False cmp diff by (subst dedup_inner.simps) simp
    qed
  qed
qed

lemma dedup_outer_eq:
  "extras_wf xs \<Longrightarrow> dedup_outer i xs = Inr (take i xs @ first_tokens (drop i xs))"
proof (induction i xs rule: dedup_outer.induct)
  case (1 i xs)
  show ?case
  proof (cases "i < length xs - 1")
    case True
    let ?f = "filter (\<lambda>e. token e \<noteq> token (xs ! i)) (drop (i + 1) xs)"
    let ?ys = "take (i + 1) xs @ ?f"
    have inner: "dedup_inner i (i + 1) xs = Inr ?ys" using "1.prems" True by (intro dedup_inner_eq) simp_all
    have "extras_wf ?ys" using extras_wf_filter [of "take (i + 1) xs" "drop (i + 1) xs"] "1.prems" by simp
    then have "dedup_outer (i + 1) ?ys = Inr (take (i + 1) ?ys @ first_tokens (drop (i + 1) ?ys))"
      using "1.IH" [OF True inner] by simp
    also have "\<dots> = Inr (take i xs @ first_tokens (xs ! i # drop (i + 1) xs))"
      using True by (simp add: take_Suc_conv_app_nth)
    also have "xs ! i # drop (i + 1) xs = drop i xs" using True by (simp add: Cons_nth_drop_Suc)
    finally show ?thesis using True inner by (subst dedup_outer.simps) simp
  next
    case False
    then have "first_tokens (drop i xs) = drop i xs" by (intro first_tokens_short) simp
    then show ?thesis using False by (subst dedup_outer.simps) simp
  qed
qed

text \<open>The scan before an insertion finds an equal token wherever it is.\<close>

lemma extra_known_eq:
  assumes "extras_wf xs" and "unat n \<le> length mem"
    and "found \<longrightarrow> (\<forall>e \<in> set xs. unat n \<le> unat (ex_len e))"
  shows "extra_known xs mem n found = Inr (take (unat n) mem \<in> token ` set xs)"
  using assms
proof (induction xs arbitrary: found)
  case (Cons e es)
  let ?m = "take (unat n) mem"
  have wf: "extras_wf es" using Cons.prems(1) by (simp add: extras_wf_def)
  have e: "unat (ex_len e) \<le> length (ex_data e)" using Cons.prems(1) by (simp add: extras_wf_def)
  have longer: "\<forall>d \<in> set es. unat (ex_len e) \<le> unat (ex_len d)" using Cons.prems(1) by (simp add: extras_wf_def)
  have len: "length (token d) = unat (ex_len d)" if "d \<in> set (e # es)" for d
    using Cons.prems(1) that by (auto simp: extras_wf_def token_def)
  have m: "length ?m = unat n" using Cons.prems(2) by simp
  show ?case
  proof (cases "ex_len e = n")
    case True
    then have "memcmp_equal (ex_data e) mem (unat n) = Inr (token e = ?m)"
      using e Cons.prems(2) by (simp add: memcmp_equal_def token_def)
    moreover have "extra_known es mem n True = Inr (?m \<in> token ` set es)"
      using Cons.IH [OF wf Cons.prems(2), of True] longer True by simp
    ultimately show ?thesis using True by auto
  next
    case False
    then have ne: "unat (ex_len e) \<noteq> unat n" by (simp add: word_unat_eq_iff)
    then have "?m \<noteq> token e" using len [of e] m by (metis list.set_intros(1))
    moreover have "?m \<notin> token ` set es" if found
    proof
      assume "?m \<in> token ` set es"
      then obtain d where d: "d \<in> set es" "?m = token d" by blast
      then have "unat (ex_len d) = unat n" using len [of d] m by simp
      moreover have "unat n < unat (ex_len e)" using Cons.prems(3) that ne by simp
      ultimately show False using longer d(1) by fastforce
    qed
    ultimately show ?thesis using False Cons.IH [OF wf Cons.prems(2), of found] Cons.prems(3) by auto
  qed
qed simp

text \<open>(C31) \<open>load_extras_file\<close> returns exactly when no keyword of the file contains a raw byte outside the printable
  range 32 to 127: on such a byte the \<open>continue\<close> of the copying loop does not advance the read pointer and
  the loop never ends.\<close>

theorem load_extras_file_returns:
  assumes "read_file afl fn = Some content"
  shows "load_extras_file afl fn min_len max_len lvl \<noteq> None \<longleftrightarrow>
    (\<forall>line \<in> set (fgets_lines content). \<forall>s. keyword_text lvl line = Some s \<longrightarrow> (\<forall>c \<in> set s. 32 \<le> c \<and> c < 128))"
proof -
  have "load_extras_file afl fn min_len max_len lvl \<noteq> None \<longleftrightarrow>
      load_extras_lines lvl (fgets_lines content) (extras afl, min_len, max_len) \<noteq> None"
    using assms by (auto simp: load_extras_file_def split: option.splits)
  then show ?thesis unfolding load_extras_lines_returns printable_def .
qed

definition extras_demo :: "bytes \<Rightarrow> extra_data list \<Rightarrow> afl_extras" where
  "extras_demo content xs = afl_tc.extend (tc_demo ''q/b''\<lparr>fs := [''d'' \<mapsto> content]\<rparr>)
     \<lparr>extras = xs, a_extras = replicate MAX_AUTO_EXTRAS \<lparr>ae_data = replicate 32 0, ae_len = 0, ae_hit_cnt = 0\<rparr>,
      a_extras_cnt = 0, auto_changed = False, in_dir = ''in''\<rparr>"

lemma extras_demo_fields:
  "extras (extras_demo content xs) = xs" "fs (extras_demo content xs) = [''d'' \<mapsto> content]"
  "fs_deny (extras_demo content xs) = (\<lambda>_. False)" "a_extras_cnt (extras_demo content xs) = 0"
  "a_extras (extras_demo content xs) = replicate MAX_AUTO_EXTRAS \<lparr>ae_data = replicate 32 0, ae_len = 0, ae_hit_cnt = 0\<rparr>"
  by (simp_all add: extras_demo_def afl_tc.extend_def tc_demo_def afl_queue.extend_def queue_demo_def afl_cov.extend_def)

theorem load_extras_file_returns_witness:
  "load_extras_file (extras_demo [0x22, 1, 0x22] []) ''d'' 128 0 0 = None"
proof -
  let ?c = "[0x22, 1, 0x22] :: bytes"
  have "fgets_lines ?c = [?c]" by (subst fgets_lines.simps) (simp add: fgets_def Let_def fgets_lines.simps)
  moreover have "keyword_text 0 ?c = Some [1]"
    by (simp add: keyword_text_def c_string_def trim_line_def skip_index_def isspace_def isalnum_def isdigit_def
        word_le_nat_alt)
  ultimately show ?thesis
    using load_extras_file_returns [of "extras_demo ?c []" "''d''" ?c 128 0 0]
    by (auto simp: read_file_def extras_demo_fields word_le_nat_alt)
qed

text \<open>(C8) Round trip of dictionary files: writing any list of non-empty tokens of at most 128 arbitrary bytes, one
  quoted line each with quotes and backslashes escaped and non-printable bytes as hex escapes, and loading
  the file appends exactly these tokens, in order.\<close>

theorem load_extras_roundtrip:
  assumes "read_file afl fn = Some (concat (map dict_line toks))"
    and "\<forall>t \<in> set toks. t \<noteq> [] \<and> length t \<le> 128"
  shows "\<exists>afl' mn mx. load_extras_file afl fn min_len max_len lvl = Some (Inr (afl', mn, mx))
    \<and> map token (extras afl') = map token (extras afl) @ toks"
proof -
  have "fgets_lines (concat (map dict_line toks)) = map dict_line toks"
    using assms(2) by (intro fgets_dict_lines) blast
  then show ?thesis
    using assms load_dict_lines [OF assms(2), of lvl "extras afl" min_len max_len] by (auto simp: load_extras_file_def)
qed

theorem load_extras_roundtrip_witness:
  "\<exists>afl' mn mx. load_extras_file (extras_demo (concat (map dict_line [[0x41, 0x22], [1, 0xFF]])) []) ''d'' 128 0 0
     = Some (Inr (afl', mn, mx)) \<and> map token (extras afl') = [[0x41, 0x22], [1, 0xFF]]"
  using load_extras_roundtrip [of "extras_demo (concat (map dict_line [[0x41, 0x22], [1, 0xFF]])) []" "''d''"
      "[[0x41, 0x22], [1, 0xFF]]" 128 0 0]
  by (simp add: read_file_def extras_demo_fields)

text \<open>(C9) \<open>dedup_extras\<close> on tokens sorted by length runs without a bad access and keeps the first occurrence of each
  token, in order: it equals the reference definition \<open>first_tokens\<close>, so every token is still there, none is
  there twice, and the array is still sorted.\<close>

theorem dedup_extras_first_tokens:
  assumes "extras_wf (extras afl)"
  shows "dedup_extras afl = Inr (afl\<lparr>extras := first_tokens (extras afl)\<rparr>)
    \<and> token ` set (first_tokens (extras afl)) = token ` set (extras afl)
    \<and> distinct (map token (first_tokens (extras afl)))"
proof -
  have "dedup_extras afl = Inr (afl\<lparr>extras := first_tokens (extras afl)\<rparr>)"
  proof (cases "length (extras afl) < 2")
    case True
    then have "first_tokens (extras afl) = extras afl" by (intro first_tokens_short) simp
    then show ?thesis using True by (simp add: dedup_extras_def)
  next
    case False
    then show ?thesis using dedup_outer_eq [OF assms, of 0] by (simp add: dedup_extras_def)
  qed
  then show ?thesis using set_first_tokens distinct_first_tokens by blast
qed

definition demo_tokens :: "extra_data list" where
  "demo_tokens = [\<lparr>ex_data = [1], ex_len = 1\<rparr>, \<lparr>ex_data = [2, 3], ex_len = 2\<rparr>, \<lparr>ex_data = [2, 3, 0], ex_len = 2\<rparr>]"

lemma demo_tokens_wf: "extras_wf demo_tokens"
  by (simp add: demo_tokens_def extras_wf_def)

theorem dedup_extras_first_tokens_witness:
  "\<exists>afl'. dedup_extras (extras_demo [] demo_tokens) = Inr afl' \<and> map token (extras afl') = [[1], [2, 3]]"
proof -
  have "map token (first_tokens demo_tokens) = [[1], [2, 3]]" by (simp add: demo_tokens_def token_def)
  then show ?thesis
    using dedup_extras_first_tokens [of "extras_demo [] demo_tokens"] demo_tokens_wf by (simp add: extras_demo_fields)
qed

text \<open>\<open>add_extra\<close> inserts into a sorted set: with any \<open>qsort\<close> that meets its contract, a token that is already
  there or longer than \<open>MAX_DICT_FILE\<close> changes nothing; any other one is added once, all other tokens are
  kept, and the array stays sorted by length.\<close>

theorem add_extra_inserts:
  assumes "qsort_spec qsort" and "extras_wf (extras afl)" and "unat n \<le> length mem"
  shows "\<exists>afl'. add_extra qsort afl mem n = Inr afl' \<and> extras_wf (extras afl') \<and>
    (if take (unat n) mem \<in> token ` set (extras afl) \<or> n > MAX_DICT_FILE then afl' = afl
     else mset (map token (extras afl')) = add_mset (take (unat n) mem) (mset (map token (extras afl))))"
proof -
  let ?known = "take (unat n) mem \<in> token ` set (extras afl)"
  let ?new = "\<lparr>ex_data = take (unat n) mem, ex_len = n\<rparr>"
  have known: "extra_known (extras afl) mem n False = Inr ?known"
    by (rule extra_known_eq [OF assms(2,3)]) simp
  show ?thesis
  proof (cases "?known \<or> n > MAX_DICT_FILE")
    case True
    then have "add_extra qsort afl mem n = Inr afl" using known by (cases ?known) (simp_all add: add_extra_def)
    with True show ?thesis using assms(2) by simp
  next
    case False
    then have "unat n \<le> 128" by (simp add: word_less_nat_alt not_less)
    then have "\<forall>e \<in> set (extras afl @ [?new]). unat (ex_len e) \<le> length (ex_data e) \<and> unat (ex_len e) \<le> 128"
      using assms(2,3) by (auto simp: extras_wf_def)
    note q = qsort_extras [OF assms(1) this]
    have "add_extra qsort afl mem n = Inr (afl\<lparr>extras := qsort compare_extras_len (extras afl @ [?new])\<rparr>)"
      using known False assms(3) by (simp add: add_extra_def add_extra_nocheck_def)
    moreover have "mset (map token (qsort compare_extras_len (extras afl @ [?new])))
        = add_mset (take (unat n) mem) (mset (map token (extras afl)))"
      using q(1) by (simp add: token_def)
    ultimately show ?thesis using q(2) False by simp
  qed
qed

theorem add_extra_inserts_witness:
  "\<exists>afl'. add_extra insertion_sort (extras_demo [] demo_tokens) [9, 9] 2 = Inr afl'
     \<and> mset (map token (extras afl')) = {#[9, 9], [1], [2, 3], [2, 3]#}"
proof -
  have "[9, 9] \<notin> token ` set demo_tokens" "map token demo_tokens = [[1], [2, 3], [2, 3]]"
    by (simp_all add: demo_tokens_def token_def)
  moreover have "\<not> (2 :: u32) > MAX_DICT_FILE" by (simp add: word_less_nat_alt)
  ultimately show ?thesis
    using add_extra_inserts [OF qsort_spec_insertion_sort, of "extras_demo [] demo_tokens" 2 "[9, 9]"] demo_tokens_wf
    by (auto simp: extras_demo_fields)
qed

end
