(* ===== verification/Afl_Auto.thy ===== *)
theory Afl_Auto
  imports Afl_Extras
begin

unbundle bit_operations_syntax

text \<open>
  The automatically collected tokens of \<open>src/afl-fuzz-extras.c\<close>: what \<open>maybe_add_auto\<close> keeps of the array
  \<open>a_extras\<close>. Comparisons ignore case, so tokens are compared through \<open>folded\<close>.
\<close>

definition fold_case :: "bytes \<Rightarrow> u32 \<Rightarrow> bytes" where
  "fold_case mem n = map tolower (take (unat n) mem)"

abbreviation folded :: "auto_extra_data \<Rightarrow> bytes" where
  "folded a \<equiv> fold_case (ae_data a) (ae_len a)"

abbreviation autos :: "'a afl_extras_scheme \<Rightarrow> auto_extra_data list" where
  "autos afl \<equiv> take (unat (a_extras_cnt afl)) (a_extras afl)"

definition auto_wf :: "'a afl_extras_scheme \<Rightarrow> bool" where
  "auto_wf afl \<longleftrightarrow> length (a_extras afl) = MAX_AUTO_EXTRAS \<and> unat (a_extras_cnt afl) \<le> MAX_AUTO_EXTRAS
     \<and> (\<forall>a \<in> set (a_extras afl). length (ae_data a) = MAX_AUTO_EXTRA \<and> unat (ae_len a) \<le> MAX_AUTO_EXTRA)
     \<and> distinct (map folded (autos afl))"

section \<open>Matching\<close>

lemma xor_zero_iff: "(a :: 'a::len word) XOR b = 0 \<longleftrightarrow> a = b"
  by (metis xor.assoc xor.left_neutral xor_self_eq)

lemma memcmp_nocase_eq:
  "n \<le> length m1 \<Longrightarrow> n \<le> length m2 \<Longrightarrow>
     memcmp_nocase m1 m2 n = Inr (map tolower (take n m1) \<noteq> map tolower (take n m2))"
proof (induction n arbitrary: m1 m2)
  case (Suc n)
  then show ?case by (cases m1; cases m2) (auto simp: xor_zero_iff)
qed simp

lemma length_fold_case: "unat n \<le> length mem \<Longrightarrow> length (fold_case mem n) = unat n"
  by (simp add: fold_case_def)

lemma same_len_match_eq:
  assumes "extras_wf xs" and "\<forall>e \<in> set xs. unat n \<le> unat (ex_len e)" and "unat n \<le> length mem"
  shows "same_len_match xs mem n = Inr (fold_case mem n \<in> (\<lambda>e. fold_case (ex_data e) (ex_len e)) ` set xs)"
  using assms
proof (induction xs)
  case (Cons e es)
  have wf: "extras_wf es" and ok: "\<forall>d \<in> set (e # es). unat (ex_len d) \<le> length (ex_data d)"
    and longer: "\<forall>d \<in> set es. unat (ex_len e) \<le> unat (ex_len d)"
    using Cons.prems(1) by (simp_all add: extras_wf_def)
  show ?case
  proof (cases "ex_len e = n")
    case True
    then have cmp: "memcmp_nocase (ex_data e) mem (unat n) = Inr (fold_case (ex_data e) (ex_len e) \<noteq> fold_case mem n)"
      using ok Cons.prems(3) by (simp add: memcmp_nocase_eq fold_case_def)
    have IH: "same_len_match es mem n = Inr (fold_case mem n \<in> (\<lambda>e. fold_case (ex_data e) (ex_len e)) ` set es)"
      by (rule Cons.IH [OF wf _ Cons.prems(3)]) (use Cons.prems(2) in auto)
    show ?thesis
      by (cases "fold_case mem n = fold_case (ex_data e) (ex_len e)") (simp_all add: True cmp IH)
  next
    case False
    then have "unat (ex_len e) \<noteq> unat n" by (simp add: word_unat_eq_iff)
    then have "unat n < unat (ex_len e)" using Cons.prems(2) by simp
    then have lt: "unat n < unat (ex_len d)" if "d \<in> set (e # es)" for d using longer that by fastforce
    have "fold_case mem n \<noteq> fold_case (ex_data d) (ex_len d)" if "d \<in> set (e # es)" for d
      using lt [OF that] ok that length_fold_case [OF Cons.prems(3)] length_fold_case [of "ex_len d" "ex_data d"]
      by (metis less_irrefl)
    then show ?thesis using False by auto
  qed
qed simp

lemma extras_match_eq:
  assumes "extras_wf xs" and "unat n \<le> length mem"
  shows "extras_match xs mem n = Inr (fold_case mem n \<in> (\<lambda>e. fold_case (ex_data e) (ex_len e)) ` set xs)"
  using assms
proof (induction xs)
  case (Cons e es)
  have wf: "extras_wf es" and ok: "unat (ex_len e) \<le> length (ex_data e)"
    and longer: "\<forall>d \<in> set es. unat (ex_len e) \<le> unat (ex_len d)"
    using Cons.prems(1) by (simp_all add: extras_wf_def)
  show ?case
  proof (cases "ex_len e < n")
    case True
    then have "fold_case mem n \<noteq> fold_case (ex_data e) (ex_len e)"
      using length_fold_case [OF Cons.prems(2)] length_fold_case [OF ok]
      by (metis less_irrefl word_less_nat_alt)
    then show ?thesis using True Cons.IH [OF wf Cons.prems(2)] by (simp add: extras_match_def)
  next
    case False
    then have "unat n \<le> unat (ex_len e)" by (simp add: word_less_nat_alt not_less)
    then have "\<forall>d \<in> set (e # es). unat n \<le> unat (ex_len d)" using longer by auto
    then show ?thesis using same_len_match_eq [OF Cons.prems(1) _ Cons.prems(2)] False
      by (simp add: extras_match_def)
  qed
qed (simp add: extras_match_def)

lemma auto_match_cases:
  assumes "\<forall>a \<in> set as. unat (ae_len a) \<le> length (ae_data a)" and "unat n \<le> length mem"
  obtains "auto_match as i mem n = Inr None" "fold_case mem n \<notin> folded ` set as"
  | k where "auto_match as i mem n = Inr (Some (i + k))" "k < length as" "folded (as ! k) = fold_case mem n"
  using assms
proof (induction as arbitrary: i thesis)
  case (Cons a as)
  have ok: "unat (ae_len a) \<le> length (ae_data a)" using Cons.prems(3) by simp
  have step: thesis if neq: "fold_case mem n \<noteq> folded a"
    and eq: "auto_match (a # as) i mem n = auto_match as (i + 1) mem n"
  proof (rule Cons.IH [of "i + 1"])
    show thesis if "auto_match as (i + 1) mem n = Inr None" "fold_case mem n \<notin> folded ` set as"
      using that neq eq Cons.prems(1) by simp
    show thesis if "auto_match as (i + 1) mem n = Inr (Some (i + 1 + k))" "k < length as"
        "folded (as ! k) = fold_case mem n" for k
      using that eq Cons.prems(2) [of "Suc k"] by simp
  qed (use Cons.prems(3,4) in simp_all)
  show thesis
  proof (cases "ae_len a = n")
    case True
    then have cmp: "memcmp_nocase (ae_data a) mem (unat n) = Inr (folded a \<noteq> fold_case mem n)"
      using ok Cons.prems(4) by (simp add: memcmp_nocase_eq fold_case_def)
    show thesis
    proof (cases "folded a = fold_case mem n")
      case same: True
      then show thesis using cmp True Cons.prems(2) [of 0] by simp
    next
      case False
      then show thesis using cmp True by (intro step) auto
    qed
  next
    case False
    then have "unat (ae_len a) \<noteq> unat n" by (simp add: word_unat_eq_iff)
    then have "fold_case mem n \<noteq> folded a"
      using length_fold_case [OF ok] length_fold_case [OF Cons.prems(4)] by metis
    with False show thesis by (intro step) simp_all
  qed
qed simp

section \<open>Sorting the array\<close>

lemma sort_first_perm:
  assumes q: "qsort_spec qsort" and m: "m \<le> c"
    and key: "\<And>x y. x \<in> set (take m xs) \<Longrightarrow> y \<in> set (take m xs) \<Longrightarrow> cmp x y = k x - (k y :: int)"
  shows "mset (take c (sort_first qsort cmp m xs)) = mset (take c xs)"
    and "length (sort_first qsort cmp m xs) = length xs"
    and "set (sort_first qsort cmp m xs) = set xs"
proof -
  have p: "mset (qsort cmp (take m xs)) = mset (take m xs)" by (rule qsort_key(1) [OF q key])
  then have len: "length (qsort cmp (take m xs)) = min (length xs) m" by (metis length_take mset_eq_length)
  show "length (sort_first qsort cmp m xs) = length xs" by (simp add: sort_first_def len)
  have "mset (sort_first qsort cmp m xs) = mset xs"
    unfolding sort_first_def mset_append p by (metis append_take_drop_id mset_append)
  then show "set (sort_first qsort cmp m xs) = set xs" by (rule mset_eq_setD)
  show "mset (take c (sort_first qsort cmp m xs)) = mset (take c xs)"
  proof (cases "m \<le> length xs")
    case True
    have "take c xs = take m xs @ take (c - m) (drop m xs)"
      using m by (metis le_add_diff_inverse take_add)
    then show ?thesis using p len True m by (simp add: sort_first_def)
  qed (use p len m in \<open>simp add: sort_first_def\<close>)
qed

lemma sort_a_extras_keeps:
  assumes q: "qsort_spec qsort" and wf: "auto_wf afl"
    and hits: "\<forall>a \<in> set (a_extras afl). unat (ae_hit_cnt a) < 2 ^ 31"
  shows "auto_wf (sort_a_extras qsort afl)"
    and "folded ` set (autos (sort_a_extras qsort afl)) = folded ` set (autos afl)"
proof -
  let ?c = "unat (a_extras_cnt afl)" and ?m = "min USE_AUTO_EXTRAS (unat (a_extras_cnt afl))"
  let ?a1 = "sort_first qsort compare_auto_extras_use_d ?c (a_extras afl)"
  let ?a2 = "sort_first qsort compare_auto_extras_len ?m ?a1"
  have key1: "compare_auto_extras_use_d x y = - int (unat (ae_hit_cnt x)) - (- int (unat (ae_hit_cnt y)))"
    if "x \<in> set (take ?c (a_extras afl))" "y \<in> set (take ?c (a_extras afl))" for x y
    unfolding compare_auto_extras_use_d_def using hits that by (subst sint_diff_u32) (auto dest: in_set_takeD)
  note s1 = sort_first_perm [where k = "\<lambda>x. - int (unat (ae_hit_cnt x))", OF q order_refl key1]
  have lens: "unat (ae_len x) < 2 ^ 31" if "x \<in> set ?a1" for x
    using wf that s1(3) unfolding auto_wf_def by force
  have key2: "compare_auto_extras_len x y = int (unat (ae_len x)) - int (unat (ae_len y))"
    if "x \<in> set (take ?m ?a1)" "y \<in> set (take ?m ?a1)" for x y
    unfolding compare_auto_extras_len_def using lens that by (intro sint_diff_u32) (auto dest: in_set_takeD)
  note s2 = sort_first_perm [where k = "\<lambda>x. int (unat (ae_len x))" and c = ?c, OF q _ key2]
  have eq: "a_extras (sort_a_extras qsort afl) = ?a2" "a_extras_cnt (sort_a_extras qsort afl) = a_extras_cnt afl"
    by (simp_all add: sort_a_extras_def Let_def)
  have perm: "mset (take ?c ?a2) = mset (take ?c (a_extras afl))" using s1(1) s2(1) by simp
  have "mset (map folded (take ?c ?a2)) = mset (map folded (autos afl))" using perm by simp
  then have dist: "distinct (map folded (take ?c ?a2))"
    using wf mset_eq_imp_distinct_iff unfolding auto_wf_def by blast
  have "set ?a2 = set (a_extras afl)" "length ?a2 = length (a_extras afl)" using s1(2,3) s2(2,3) by simp_all
  then show "auto_wf (sort_a_extras qsort afl)" using wf dist unfolding auto_wf_def eq by simp
  show "folded ` set (autos (sort_a_extras qsort afl)) = folded ` set (autos afl)"
    unfolding eq using mset_eq_setD [OF perm] by simp
qed

section \<open>Adding a token\<close>

lemma fold_case_copy: "unat n \<le> length mem \<Longrightarrow> fold_case (take (unat n) mem @ rest) n = fold_case mem n"
  by (simp add: fold_case_def)

text \<open>The array after one cell has been overwritten, by a bumped count or by the new token.\<close>

lemma auto_wf_bump:
  assumes wf: "auto_wf afl" and i: "i < length (autos afl)"
  shows "auto_wf (afl\<lparr>a_extras := (a_extras afl)[i := (a_extras afl ! i)\<lparr>ae_hit_cnt := h\<rparr>]\<rparr>)"
    and "map folded (autos (afl\<lparr>a_extras := (a_extras afl)[i := (a_extras afl ! i)\<lparr>ae_hit_cnt := h\<rparr>]\<rparr>))
      = map folded (autos afl)"
proof -
  let ?as = "(a_extras afl)[i := (a_extras afl ! i)\<lparr>ae_hit_cnt := h\<rparr>]"
  have i': "i < length (a_extras afl)" using i by simp
  have "take k ?as = (take k (a_extras afl))[i := (a_extras afl ! i)\<lparr>ae_hit_cnt := h\<rparr>]" for k
    by (simp add: take_update_swap)
  then show same: "map folded (autos (afl\<lparr>a_extras := ?as\<rparr>)) = map folded (autos afl)"
    using i by (simp add: map_update list_update_same_conv)
  have "\<forall>a \<in> set ?as. length (ae_data a) = MAX_AUTO_EXTRA \<and> unat (ae_len a) \<le> MAX_AUTO_EXTRA"
    using wf set_update_subset_insert [of "a_extras afl" i] nth_mem [OF i'] unfolding auto_wf_def by fastforce
  then show "auto_wf (afl\<lparr>a_extras := ?as\<rparr>)"
    using wf same unfolding auto_wf_def by simp
qed

definition new_auto :: "bytes \<Rightarrow> u32 \<Rightarrow> u32 \<Rightarrow> auto_extra_data \<Rightarrow> auto_extra_data" where
  "new_auto mem n h a = a\<lparr>ae_data := take (unat n) mem @ drop (unat n) (ae_data a), ae_len := n, ae_hit_cnt := h\<rparr>"

lemma new_auto_fields:
  assumes "unat n \<le> length mem" and "unat n \<le> MAX_AUTO_EXTRA" and "length (ae_data a) = MAX_AUTO_EXTRA"
  shows "folded (new_auto mem n h a) = fold_case mem n" "length (ae_data (new_auto mem n h a)) = MAX_AUTO_EXTRA"
    "ae_len (new_auto mem n h a) = n" "ae_hit_cnt (new_auto mem n h a) = h"
  using assms by (simp_all add: new_auto_def fold_case_copy)

lemma auto_wf_write:
  assumes wf: "auto_wf afl" and i: "i < MAX_AUTO_EXTRAS" and mem: "unat n \<le> length mem" "unat n \<le> MAX_AUTO_EXTRA"
    and new: "fold_case mem n \<notin> folded ` set (autos afl)"
    and cnt: "c = a_extras_cnt afl \<and> i < unat c \<or> i = unat (a_extras_cnt afl) \<and> unat c = Suc i"
    and afl': "a_extras afl' = (a_extras afl)[i := new_auto mem n h (a_extras afl ! i)]" "a_extras_cnt afl' = c"
  shows "auto_wf afl'" and "fold_case mem n \<in> folded ` set (autos afl')"
proof -
  let ?a = "new_auto mem n h (a_extras afl ! i)" and ?as = "a_extras afl"
  have len: "length ?as = MAX_AUTO_EXTRAS" using wf by (simp add: auto_wf_def)
  then have "length (ae_data (?as ! i)) = MAX_AUTO_EXTRA" using wf i by (simp add: auto_wf_def)
  note a = new_auto_fields [OF mem this, of h]
  have sub: "i < unat c" "unat c \<le> MAX_AUTO_EXTRAS" using cnt wf i by (auto simp: auto_wf_def)
  have mem': "?a \<in> set (autos afl')"
    unfolding afl' using sub i len by (simp add: take_update_swap set_update_memI)
  then show "fold_case mem n \<in> folded ` set (autos afl')" using a(1) by force
  have "distinct (map folded (autos afl'))"
  proof (cases "i = unat (a_extras_cnt afl)")
    case True
    then have "unat c = Suc i" using cnt by auto
    then have "autos afl' = autos afl @ [?a]"
      unfolding afl' using True i len by (simp add: take_Suc_conv_app_nth)
    then show ?thesis using wf new a(1) by (simp add: auto_wf_def)
  next
    case False
    then have "c = a_extras_cnt afl" using cnt by auto
    then have "map folded (autos afl') = (map folded (autos afl))[i := fold_case mem n]"
      unfolding afl' by (simp add: take_update_swap map_update a(1))
    then show ?thesis using wf new by (auto simp: auto_wf_def intro: distinct_list_update)
  qed
  moreover have "\<forall>x \<in> set (a_extras afl'). length (ae_data x) = MAX_AUTO_EXTRA \<and> unat (ae_len x) \<le> MAX_AUTO_EXTRA"
    using wf set_update_subset_insert [of ?as i ?a] a(2,3) mem(2) unfolding afl' auto_wf_def by auto
  ultimately show "auto_wf afl'" using len sub(2) unfolding auto_wf_def afl' by simp
qed

definition hits_fit :: "'a afl_extras_scheme \<Rightarrow> bool" where
  "hits_fit afl \<longleftrightarrow> (\<forall>a \<in> set (a_extras afl). unat (ae_hit_cnt a) < 2 ^ 31 - 1)"

lemma set_auto_eq:
  assumes "i < length (a_extras afl)"
  shows "set_auto i mem n afl = Inr (afl\<lparr>a_extras := (a_extras afl)
     [i := new_auto mem n (ae_hit_cnt (a_extras afl ! i)) (a_extras afl ! i)]\<rparr>)"
  using assms by (cases "a_extras afl ! i") (simp add: set_auto_def new_auto_def)

lemma replace_auto_eq:
  assumes "i < length (a_extras afl)"
  shows "replace_auto i mem n afl = Inr (afl\<lparr>a_extras := (a_extras afl)[i := new_auto mem n 0 (a_extras afl ! i)]\<rparr>)"
  using assms by (simp add: replace_auto_def set_auto_eq new_auto_def)

lemma rand_below_extras:
  assumes "rand_below afl n = Some (r, afl')"
  shows "extras afl' = extras afl" "a_extras afl' = a_extras afl" "a_extras_cnt afl' = a_extras_cnt afl"
  using afl_rng.rb_rest [OF assms] by (cases afl; cases afl'; simp)+

lemma hits_fit_write:
  "hits_fit afl \<Longrightarrow> unat (ae_hit_cnt a) < 2 ^ 31 \<Longrightarrow> x \<in> set ((a_extras afl)[i := a]) \<Longrightarrow> unat (ae_hit_cnt x) < 2 ^ 31"
  using set_update_subset_insert [of "a_extras afl" i a] unfolding hits_fit_def by fastforce

lemma insert_auto_ok:
  assumes wf: "auto_wf afl" and mem: "unat n \<le> length mem" "unat n \<le> MAX_AUTO_EXTRA"
    and new: "fold_case mem n \<notin> folded ` set (autos afl)" and hits: "hits_fit afl"
    and r: "insert_auto mem n afl = Some r"
  shows "\<exists>afl'. r = Inr afl' \<and> auto_wf afl' \<and> fold_case mem n \<in> folded ` set (autos afl')
     \<and> extras afl' = extras afl \<and> (\<forall>a \<in> set (a_extras afl'). unat (ae_hit_cnt a) < 2 ^ 31)"
proof (cases "unat (a_extras_cnt afl) < MAX_AUTO_EXTRAS")
  case True
  let ?i = "unat (a_extras_cnt afl)" and ?c = "a_extras_cnt afl + 1"
  let ?a = "new_auto mem n (ae_hit_cnt (a_extras afl ! ?i)) (a_extras afl ! ?i)"
  let ?afl = "afl\<lparr>a_extras := (a_extras afl)[?i := ?a], a_extras_cnt := ?c\<rparr>"
  have len: "length (a_extras afl) = MAX_AUTO_EXTRAS" using wf by (simp add: auto_wf_def)
  have c: "unat ?c = Suc ?i" using True by (subst unat_add_small) simp_all
  have "r = Inr ?afl" using r True len by (simp add: insert_auto_def append_auto_def set_auto_eq)
  moreover have "auto_wf ?afl" "fold_case mem n \<in> folded ` set (autos ?afl)"
    by (rule auto_wf_write [OF wf True mem new, of ?c]; simp add: c)+
  moreover have "unat (ae_hit_cnt ?a) < 2 ^ 31"
    using bspec [OF hits [unfolded hits_fit_def], OF nth_mem [of ?i]] True len by (simp add: new_auto_def)
  ultimately show ?thesis using hits_fit_write [OF hits] by (intro exI [of _ ?afl]) simp
next
  case False
  then obtain x s where draw: "rand_below afl (of_nat ((MAX_AUTO_EXTRAS + 1) div 2)) = Some (x, s)"
    and rs: "r = replace_auto (MAX_AUTO_EXTRAS div 2 + unat x) mem n s"
    using r by (auto simp: insert_auto_def split: option.splits)
  note same = rand_below_extras [OF draw]
  let ?i = "MAX_AUTO_EXTRAS div 2 + unat x"
  have x: "unat x < 16384"
    using afl_rng.rb_bound [OF draw] by (auto simp: word_less_nat_alt word_le_nat_alt split: if_splits)
  have len: "length (a_extras s) = MAX_AUTO_EXTRAS" using wf same by (simp add: auto_wf_def)
  have wf': "auto_wf s" using wf same by (simp add: auto_wf_def)
  have i: "?i < MAX_AUTO_EXTRAS" using x by simp
  let ?a = "new_auto mem n 0 (a_extras s ! ?i)"
  let ?afl = "s\<lparr>a_extras := (a_extras s)[?i := ?a]\<rparr>"
  have cnt: "?i < unat (a_extras_cnt s)" using i False same by simp
  have "r = Inr ?afl" using rs len i by (simp add: replace_auto_eq)
  moreover have "auto_wf ?afl" "fold_case mem n \<in> folded ` set (autos ?afl)"
    by (rule auto_wf_write [OF wf' i mem, of "a_extras_cnt s"]; use new same cnt in simp)+
  moreover have "hits_fit s" using hits same by (simp add: hits_fit_def)
  ultimately show ?thesis
    using hits_fit_write [of s ?a] same by (intro exI [of _ ?afl]) (simp add: new_auto_def)
qed

lemma maybe_add_auto_body:
  assumes "unat n \<le> length mem" and "\<not> (run_end mem (unat n) = unat n \<or> unat n > MAX_AUTO_EXTRA)"
    and "\<not> (n = 2 \<and> builtin_16 mem)" and "\<not> (n = 4 \<and> builtin_32 mem)"
    and "extras_match (extras afl) mem n = Inr False" and afl': "afl' = afl\<lparr>auto_changed := True\<rparr>"
  shows "maybe_add_auto qsort afl mem n =
        (case auto_match (autos afl') 0 mem n of
           Inl err \<Rightarrow> Some (Inl err)
         | Inr (Some i) \<Rightarrow> Some (Inr (sort_a_extras qsort (afl'\<lparr>a_extras := (a_extras afl')
               [i := (a_extras afl' ! i)\<lparr>ae_hit_cnt := ae_hit_cnt (a_extras afl' ! i) + 1\<rparr>]\<rparr>)))
         | Inr None \<Rightarrow> (case insert_auto mem n afl' of None \<Rightarrow> None
             | Some r \<Rightarrow> Some (bind_result r (\<lambda>afl. Inr (sort_a_extras qsort afl)))))"
proof -
  have "\<not> length mem < unat n" using assms(1) by simp
  then show ?thesis
    unfolding maybe_add_auto_def by (simp only: assms(2-5) if_False sum.case bool.case Let_def afl')
qed

lemma sort_a_extras_extras [simp]: "extras (sort_a_extras qsort afl) = extras afl"
  by (simp add: sort_a_extras_def Let_def)

lemma maybe_add_auto_new:
  assumes q: "qsort_spec qsort" and wf: "auto_wf afl" and mem: "unat n \<le> length mem" "unat n \<le> MAX_AUTO_EXTRA"
    and hits: "hits_fit afl" and new: "fold_case mem n \<notin> folded ` set (autos afl)"
    and r: "insert_auto mem n afl = Some r"
  shows "\<exists>afl'. bind_result r (\<lambda>afl. Inr (sort_a_extras qsort afl)) = Inr afl' \<and> auto_wf afl'
     \<and> extras afl' = extras afl \<and> fold_case mem n \<in> folded ` set (autos afl')"
proof -
  obtain s where s: "r = Inr s" "auto_wf s" "fold_case mem n \<in> folded ` set (autos s)" "extras s = extras afl"
      "\<forall>a \<in> set (a_extras s). unat (ae_hit_cnt a) < 2 ^ 31"
    using insert_auto_ok [OF wf mem new hits r] by blast
  then show ?thesis using sort_a_extras_keeps [OF q s(2,5)] by simp
qed

lemma maybe_add_auto_bump:
  assumes q: "qsort_spec qsort" and wf: "auto_wf afl" and hits: "hits_fit afl" and k: "k < length (autos afl)"
    and h: "h = ae_hit_cnt (a_extras afl ! k) + 1"
  shows "auto_wf (sort_a_extras qsort (afl\<lparr>a_extras := (a_extras afl)[k := (a_extras afl ! k)\<lparr>ae_hit_cnt := h\<rparr>]\<rparr>))"
    and "folded ` set (autos (sort_a_extras qsort
           (afl\<lparr>a_extras := (a_extras afl)[k := (a_extras afl ! k)\<lparr>ae_hit_cnt := h\<rparr>]\<rparr>)))
      = folded ` set (autos afl)"
proof -
  let ?a = "(a_extras afl ! k)\<lparr>ae_hit_cnt := h\<rparr>"
  let ?afl = "afl\<lparr>a_extras := (a_extras afl)[k := ?a]\<rparr>"
  note bump = auto_wf_bump [OF wf k, of h]
  have "unat (ae_hit_cnt (a_extras afl ! k)) < 2 ^ 31 - 1" using hits k by (simp add: hits_fit_def)
  then have "unat (ae_hit_cnt ?a) < 2 ^ 31" unfolding h by (simp add: unat_word_ariths)
  then have fit: "\<forall>x \<in> set (a_extras ?afl). unat (ae_hit_cnt x) < 2 ^ 31"
    using hits_fit_write [OF hits, of ?a _ k] by auto
  show "auto_wf (sort_a_extras qsort ?afl)" by (rule sort_a_extras_keeps(1) [OF q bump(1) fit])
  show "folded ` set (autos (sort_a_extras qsort ?afl)) = folded ` set (autos afl)"
    unfolding sort_a_extras_keeps(2) [OF q bump(1) fit] using arg_cong [OF bump(2), of set] by simp
qed

text \<open>(C11) \<open>maybe_add_auto\<close>, with any \<open>qsort\<close> that meets its contract and use counts below \<open>2 ^ 31 - 1\<close>: it returns as long as the
  array is not full; a run ends without a bad access, keeps the user tokens and the array well-formed (at most
  \<open>MAX_AUTO_EXTRAS\<close> tokens of at most \<open>MAX_AUTO_EXTRA\<close> bytes, no two equal up to case), and either changes
  nothing or leaves the token in the array, which it only does for tokens that match no user token.\<close>

theorem maybe_add_auto_keeps:
  assumes q: "qsort_spec qsort" and wf: "auto_wf afl" and ex: "extras_wf (extras afl)"
    and mem: "unat n \<le> length mem" and hits: "hits_fit afl"
  shows "(unat (a_extras_cnt afl) < MAX_AUTO_EXTRAS \<longrightarrow> maybe_add_auto qsort afl mem n \<noteq> None)
    \<and> (\<forall>r. maybe_add_auto qsort afl mem n = Some r \<longrightarrow>
        (\<exists>afl'. r = Inr afl' \<and> auto_wf afl' \<and> extras afl' = extras afl \<and>
          (afl' = afl \<or> fold_case mem n \<in> folded ` set (autos afl')
             \<and> fold_case mem n \<notin> (\<lambda>e. fold_case (ex_data e) (ex_len e)) ` set (extras afl))))"
    (is "_ \<and> (\<forall>r. _ \<longrightarrow> ?ok r)")
proof -
  let ?user = "fold_case mem n \<in> (\<lambda>e. fold_case (ex_data e) (ex_len e)) ` set (extras afl)"
  let ?skip = "run_end mem (unat n) = unat n \<or> unat n > MAX_AUTO_EXTRA \<or> n = 2 \<and> builtin_16 mem
      \<or> n = 4 \<and> builtin_32 mem \<or> ?user"
  let ?afl = "afl\<lparr>auto_changed := True\<rparr>"
  have user: "extras_match (extras afl) mem n = Inr ?user" by (rule extras_match_eq [OF ex mem])
  have wf1: "auto_wf ?afl" "hits_fit ?afl" using wf hits by (simp_all add: auto_wf_def hits_fit_def)
  show ?thesis
  proof (cases ?skip)
    case True
    then have "maybe_add_auto qsort afl mem n = Some (Inr afl)"
      using mem user unfolding maybe_add_auto_def by (cases ?user) (auto simp: Let_def)
    then show ?thesis using wf by simp
  next
    case False
    then have short: "unat n \<le> MAX_AUTO_EXTRA" by simp
    note body = maybe_add_auto_body [OF mem _ _ _ _ refl, of afl qsort]
    have "\<forall>a \<in> set (autos ?afl). unat (ae_len a) \<le> length (ae_data a)"
      using wf1(1) by (auto simp: auto_wf_def dest: in_set_takeD)
    then show ?thesis
    proof (rule auto_match_cases [OF _ mem, where i = 0])
      assume none: "auto_match (autos ?afl) 0 mem n = Inr None" "fold_case mem n \<notin> folded ` set (autos ?afl)"
      then have eq: "maybe_add_auto qsort afl mem n = (case insert_auto mem n ?afl of None \<Rightarrow> None
          | Some r \<Rightarrow> Some (bind_result r (\<lambda>afl. Inr (sort_a_extras qsort afl))))"
        using body False user by simp
      have "?ok r" if r: "maybe_add_auto qsort afl mem n = Some r" for r
      proof -
        obtain r' where r': "insert_auto mem n ?afl = Some r'" "r = bind_result r' (\<lambda>afl. Inr (sort_a_extras qsort afl))"
          using r unfolding eq by (auto split: option.splits)
        show ?thesis using maybe_add_auto_new [OF q wf1(1) mem short wf1(2) none(2) r'(1)] r'(2) False by auto
      qed
      moreover have "maybe_add_auto qsort afl mem n \<noteq> None" if "unat (a_extras_cnt afl) < MAX_AUTO_EXTRAS"
        unfolding eq using that by (simp add: insert_auto_def)
      ultimately show ?thesis by blast
    next
      fix k assume some: "auto_match (autos ?afl) 0 mem n = Inr (Some (0 + k))" "k < length (autos ?afl)"
        "folded (autos ?afl ! k) = fold_case mem n"
      let ?h = "ae_hit_cnt (a_extras ?afl ! k) + 1"
      let ?res = "sort_a_extras qsort (?afl\<lparr>a_extras := (a_extras ?afl)[k := (a_extras ?afl ! k)\<lparr>ae_hit_cnt := ?h\<rparr>]\<rparr>)"
      have eq: "maybe_add_auto qsort afl mem n = Some (Inr ?res)"
        using body False user some(1) by simp
      note bump = maybe_add_auto_bump [OF q wf1 some(2) refl]
      have "fold_case mem n \<in> folded ` set (autos ?res)"
        unfolding bump(2) some(3) [symmetric] by (intro imageI nth_mem some(2))
      then have ok: "?ok (Inr ?res)"
        by (intro exI [of _ ?res] conjI disjI2 refl) (use bump(1) False in simp_all)
      have "?ok r" if "maybe_add_auto qsort afl mem n = Some r" for r
      proof -
        have "r = Inr ?res" using that unfolding eq by (rule option.inject [THEN iffD1, symmetric])
        with ok show ?thesis by (simp only:)
      qed
      then show ?thesis unfolding eq by blast
    qed
  qed
qed

theorem maybe_add_auto_keeps_witness:
  "\<exists>afl'. maybe_add_auto insertion_sort (extras_demo [] []) [0x41, 0x42, 0x43] 3 = Some (Inr afl') \<and> auto_wf afl'"
proof -
  let ?d = "extras_demo [] []"
  have "auto_wf ?d" "hits_fit ?d" "extras_wf (extras ?d)" "unat (a_extras_cnt ?d) < MAX_AUTO_EXTRAS"
    by (simp_all add: auto_wf_def hits_fit_def extras_wf_def extras_demo_fields)
  with maybe_add_auto_keeps [OF qsort_spec_insertion_sort, of ?d 3 "[0x41, 0x42, 0x43]"] show ?thesis by auto
qed

end
