(* ===== verification/Afl_Mutate.thy ===== *)
theory Afl_Mutate
  imports Afl_Auto
begin

unbundle bit_operations_syntax

text \<open>
  The helpers at the head of \<open>src/afl-fuzz-one.c\<close>: the choice of a MOpt operator, the choice of a block length,
  the three tests with which the deterministic stages skip values an earlier stage has produced already
  (\<open>could_be_bitflip\<close>, \<open>could_be_arith\<close>, \<open>could_be_interest\<close>), and \<open>locate_diffs\<close>, which finds the splice
  point.
\<close>

record afl_one = afl_extras +
  queue_cycle :: u64
  run_over10m :: bool
  probability_now :: "real list list"
  swarm_now :: nat

section \<open>Random choices\<close>

abbreviation operator_num :: nat where "operator_num \<equiv> 19"

fun puppet_index :: "real \<Rightarrow> real list \<Rightarrow> nat \<Rightarrow> nat" where
  "puppet_index sele [] i = i"
| "puppet_index sele (p # ps) i = (if sele < p then i else puppet_index sele ps (i + 1))"

text \<open>\<open>j_puppet\<close> is 1 when the loop was left by \<open>break\<close> at an index above 0.\<close>

definition select_algorithm ::
  "(real \<Rightarrow> real) \<Rightarrow> 'a afl_one_scheme \<Rightarrow> u32 \<Rightarrow> (nat \<times> 'a afl_one_scheme) result option" where
  "select_algorithm rnd afl max_algorithm =
     (case get_at ''probability_now'' (probability_now afl) (swarm_now afl) of
        Inl err \<Rightarrow> Some (Inl err)
      | Inr ps \<Rightarrow>
          if length ps < operator_num \<or> max_algorithm = 0 \<or> length ps < unat max_algorithm
          then Some (Inl (Out_of_bounds ''probability_now''))
          else
            (case rand_below afl 10000 of
               None \<Rightarrow> None
             | Some (r, afl) \<Rightarrow>
                 let range_sele = ps ! (unat max_algorithm - 1);
                     sele = rnd (rnd (of_u32 rnd r * rnd 0.0001) * range_sele);
                     i_puppet = puppet_index sele (take operator_num ps) 0;
                     j_puppet = (0 < i_puppet \<and> i_puppet < operator_num)
                 in if (j_puppet \<and> sele < ps ! (i_puppet - 1))
                       \<or> (i_puppet + 1 < operator_num \<and> sele > ps ! (i_puppet + 1))
                    then Some (Inl (Fatal ''error select_algorithm''))
                    else Some (Inr (i_puppet, afl))))"

abbreviation HAVOC_BLK_SMALL :: u32 where "HAVOC_BLK_SMALL \<equiv> 32"
abbreviation HAVOC_BLK_MEDIUM :: u32 where "HAVOC_BLK_MEDIUM \<equiv> 128"
abbreviation HAVOC_BLK_LARGE :: u32 where "HAVOC_BLK_LARGE \<equiv> 1500"
abbreviation HAVOC_BLK_XL :: u32 where "HAVOC_BLK_XL \<equiv> 32768"

definition block_range :: "'a afl_one_scheme \<Rightarrow> ((u32 \<times> u32) \<times> 'a afl_one_scheme) option" where
  "block_range afl =
     (let rlim = (if \<not> run_over10m afl then 1 else if queue_cycle afl < 3 then ucast (queue_cycle afl) else 3) in
      case rand_below afl rlim of
        None \<Rightarrow> None
      | Some (c, afl) \<Rightarrow>
          if c = 0 then Some ((1, HAVOC_BLK_SMALL), afl)
          else if c = 1 then Some ((HAVOC_BLK_SMALL, HAVOC_BLK_MEDIUM), afl)
          else
            (case rand_below afl 10 of
               None \<Rightarrow> None
             | Some (d, afl) \<Rightarrow>
                 if d \<noteq> 0 then Some ((HAVOC_BLK_MEDIUM, HAVOC_BLK_LARGE), afl)
                 else Some ((HAVOC_BLK_LARGE, HAVOC_BLK_XL), afl)))"

definition choose_block_len :: "'a afl_one_scheme \<Rightarrow> u32 \<Rightarrow> (u32 \<times> 'a afl_one_scheme) option" where
  "choose_block_len afl limit =
     (case block_range afl of
        None \<Rightarrow> None
      | Some ((min_value, max_value), afl) \<Rightarrow>
          let min_value = (if min_value \<ge> limit then 1 else min_value) in
          (case rand_below afl (min max_value limit - min_value + 1) of
             None \<Rightarrow> None
           | Some (r, afl) \<Rightarrow> Some (min_value + r, afl)))"

section \<open>Redundant values\<close>

text \<open>\<open>while (!(xor_val & 1))\<close>; the value is not 0 when the loop is entered.\<close>

function shift_out :: "u32 \<Rightarrow> u32 \<Rightarrow> u32 \<times> u32" where
  "shift_out x sh = (if x = 0 \<or> bit x 0 then (x, sh) else shift_out (drop_bit 1 x) (sh + 1))"
  by pat_completeness auto
termination
  by (relation "measure (\<lambda>(x, sh). unat x)") (auto simp: drop_bit_eq_div unat_div unat_gt_0)

declare shift_out.simps [simp del]

definition could_be_bitflip :: "u32 \<Rightarrow> bool" where
  "could_be_bitflip xor_val =
     (if xor_val = 0 then True
      else case shift_out xor_val 0 of (x, sh) \<Rightarrow>
        if x = 1 \<or> x = 3 \<or> x = 15 then True
        else if sh AND 7 \<noteq> 0 then False
        else x = 0xff \<or> x = 0xffff \<or> x = 0xffffffff)"

abbreviation ARITH_MAX :: nat where "ARITH_MAX \<equiv> 35"

text \<open>The two scanning loops of \<open>could_be_arith\<close>: the number of differing parts of \<open>'b\<close> bits among the first
  \<open>n\<close>, and the last differing pair.\<close>

fun diff_parts :: "u32 \<Rightarrow> u32 \<Rightarrow> nat list \<Rightarrow> nat \<times> 'b::len word \<times> 'b word \<Rightarrow> nat \<times> 'b word \<times> 'b word" where
  "diff_parts old_val new_val [] acc = acc"
| "diff_parts old_val new_val (i # is) (ndiff, ov, nv) =
     (let a = ucast (drop_bit (LENGTH('b) * i) old_val); b = ucast (drop_bit (LENGTH('b) * i) new_val)
      in diff_parts old_val new_val is (if a \<noteq> b then (ndiff + 1, a, b) else (ndiff, ov, nv)))"

definition near :: "'b::len word \<Rightarrow> 'b word \<Rightarrow> bool" where
  "near ov nv \<longleftrightarrow> unat (ov - nv) \<le> ARITH_MAX \<or> unat (nv - ov) \<le> ARITH_MAX"

definition could_be_arith :: "u32 \<Rightarrow> u32 \<Rightarrow> u8 \<Rightarrow> bool" where
  "could_be_arith old_val new_val blen =
     (if old_val = new_val then True
      else
        case diff_parts old_val new_val [0..<unat blen] (0, 0 :: u8, 0) of (ndiff, ov, nv) \<Rightarrow>
        if ndiff = 1 \<and> near ov nv then True
        else if blen = 1 then False
        else
          case diff_parts old_val new_val [0..<unat (blen div 2)] (0, 0 :: u16, 0) of (ndiff, ov, nv) \<Rightarrow>
          if ndiff = 1 \<and> (near ov nv \<or> near (SWAP16 ov) (SWAP16 nv)) then True
          else if blen = 4
          then near old_val new_val \<or> near (SWAP32 old_val) (SWAP32 new_val)
          else False)"

text \<open>\<open>(old_val & ~(mask << (i * 8))) | (v << (i * 8))\<close>.\<close>

definition overwrite :: "u32 \<Rightarrow> u32 \<Rightarrow> nat \<Rightarrow> u32 \<Rightarrow> u32" where
  "overwrite old_val msk i v = (old_val AND NOT (push_bit (8 * i) msk)) OR push_bit (8 * i) v"

text \<open>\<open>blen - 1\<close> is computed as \<open>int\<close>, so a \<open>blen\<close> of 0 leaves out the two-byte loop.\<close>

definition could_be_interest :: "u32 \<Rightarrow> u32 \<Rightarrow> u8 \<Rightarrow> bool \<Rightarrow> bool" where
  "could_be_interest old_val new_val blen check_le =
     (if old_val = new_val then True
      else if list_ex (\<lambda>i. list_ex (\<lambda>c.
          new_val = overwrite old_val 0xff i (ucast (word_of_int c :: u8))) interesting_8) [0..<unat blen]
      then True
      else if blen = 2 \<and> \<not> check_le then False
      else if list_ex (\<lambda>i. list_ex (\<lambda>c.
          new_val = overwrite old_val 0xffff i (ucast (word_of_int c :: u16))
          \<or> blen > 2 \<and> new_val = overwrite old_val 0xffff i (ucast (SWAP16 (word_of_int c)))) interesting_16)
          [0..<unat blen - 1]
      then True
      else if blen = 4 \<and> check_le
      then list_ex (\<lambda>c. new_val = word_of_int c) interesting_32
      else False)"

section \<open>Splice points\<close>

fun locate_diffs_loop :: "bytes \<Rightarrow> bytes \<Rightarrow> nat \<Rightarrow> u32 \<Rightarrow> int \<Rightarrow> int \<Rightarrow> (int \<times> int) result" where
  "locate_diffs_loop ptr1 ptr2 0 pos f_loc l_loc = Inr (f_loc, l_loc)"
| "locate_diffs_loop ptr1 ptr2 (Suc k) pos f_loc l_loc =
     (case (ptr1, ptr2) of
        (a # ptr1, b # ptr2) \<Rightarrow>
          if a \<noteq> b
          then locate_diffs_loop ptr1 ptr2 k (pos + 1) (if f_loc = - 1 then sint pos else f_loc) (sint pos)
          else locate_diffs_loop ptr1 ptr2 k (pos + 1) f_loc l_loc
      | _ \<Rightarrow> Inl (Out_of_bounds ''locate_diffs''))"

text \<open>\<open>first\<close> and \<open>last\<close>; the position is converted to \<open>s32\<close>.\<close>

definition locate_diffs :: "bytes \<Rightarrow> bytes \<Rightarrow> u32 \<Rightarrow> (int \<times> int) result" where
  "locate_diffs ptr1 ptr2 n = locate_diffs_loop ptr1 ptr2 (unat n) 0 (- 1) (- 1)"

section \<open>Bit flips\<close>

lemma shift_out_eq:
  "x \<noteq> 0 \<Longrightarrow> \<exists>y k. shift_out x sh = (y, sh + of_nat k) \<and> odd (unat y) \<and> unat x = unat y * 2 ^ k"
proof (induction x sh rule: shift_out.induct)
  case (1 x sh)
  have par: "bit (unat x) 0 \<longleftrightarrow> bit x 0" by (simp only: bit_unsigned_iff) simp
  show ?case
  proof (cases "bit x 0")
    case True
    then have "odd (unat x)" using par bit_0 by blast
    then show ?thesis using True by (subst shift_out.simps) (auto intro: exI [of _ 0])
  next
    case False
    then have ev: "even (unat x)" using par bit_0 by blast
    have half: "unat (drop_bit 1 x) = unat x div 2" by (simp add: unat_drop_bit_eq drop_bit_nat_def)
    then have "drop_bit 1 x \<noteq> 0" using ev "1.prems" by (metis dvd_div_eq_0_iff unat_0 unat_eq_zero)
    then obtain y k where yk: "shift_out (drop_bit 1 x) (sh + 1) = (y, sh + 1 + of_nat k)" "odd (unat y)"
        "unat (drop_bit 1 x) = unat y * 2 ^ k"
      using "1.IH" "1.prems" False by blast
    have "unat x = unat y * 2 ^ Suc k" using yk(3) half ev by (metis dvd_mult_div_cancel mult.left_commute power_Suc)
    moreover have "shift_out x sh = (y, sh + of_nat (Suc k))"
      using yk(1) "1.prems" False by (subst shift_out.simps) (simp add: algebra_simps)
    ultimately show ?thesis using yk(2) by blast
  qed
qed

lemma odd_part_unique:
  fixes a b :: nat
  assumes "odd a" and "odd b" and "a * 2 ^ k = b * 2 ^ l"
  shows "a = b \<and> k = l"
proof -
  have aux: "k = l" if "odd a" "odd b" "a * 2 ^ k = b * 2 ^ l" "k \<le> l" for a b k l :: nat
  proof (rule ccontr)
    assume "k \<noteq> l"
    then obtain d where "l = k + Suc d" using \<open>k \<le> l\<close> less_imp_Suc_add by fastforce
    then have "a = b * 2 ^ Suc d" using that(3) by (simp add: power_add)
    then show False using that(1) by simp
  qed
  have "k = l" using aux [of a b k l] aux [of b a l k] assms by (cases "k \<le> l") auto
  then show ?thesis using assms(3) by simp
qed

lemma and_7_zero_iff: "k < 32 \<Longrightarrow> (of_nat k :: u32) AND 7 = 0 \<longleftrightarrow> 8 dvd k"
proof -
  assume k: "k < 32"
  have m: "(7 :: u32) = mask 3" by (simp add: mask_eq_exp_minus_1)
  have "unat ((of_nat k :: u32) AND 7) = take_bit 3 (unat (of_nat k :: u32))"
    unfolding m by (simp only: unsigned_take_bit_eq flip: take_bit_eq_mask)
  also have "unat (of_nat k :: u32) = k" using k by (intro unat_of_nat_eq) simp
  finally show ?thesis by (simp add: take_bit_nat_def mod_eq_0_iff_dvd flip: unat_eq_zero)
qed

lemma odd_ones: "0 < w \<Longrightarrow> odd ((2 :: nat) ^ w - 1)"
  by simp

lemma pattern_iff:
  fixes y :: u32
  shows "y = 1 \<longleftrightarrow> unat y = 2 ^ 1 - 1" "y = 3 \<longleftrightarrow> unat y = 2 ^ 2 - 1" "y = 15 \<longleftrightarrow> unat y = 2 ^ 4 - 1"
    "y = 0xff \<longleftrightarrow> unat y = 2 ^ 8 - 1" "y = 0xffff \<longleftrightarrow> unat y = 2 ^ 16 - 1" "y = 0xffffffff \<longleftrightarrow> unat y = 2 ^ 32 - 1"
  by (simp_all add: word_unat_eq_iff)

text \<open>\<open>could_be_bitflip\<close> accepts exactly the differences whose set bits, in the value as a number, are none, 1, 2 or 4
  adjacent bits at any position, or 8, 16 or 32 adjacent bits starting at a byte boundary.\<close>

lemma could_be_bitflip_iff:
  "could_be_bitflip x \<longleftrightarrow> x = 0 \<or> (\<exists>w k. unat x = (2 ^ w - 1) * 2 ^ k
     \<and> (w \<in> {1, 2, 4} \<or> w \<in> {8, 16, 32} \<and> 8 dvd k))"
proof (cases "x = 0")
  case False
  obtain y k where yk: "shift_out x 0 = (y, of_nat k)" "odd (unat y)" "unat x = unat y * 2 ^ k"
    using shift_out_eq [OF False, of 0] by auto
  have "2 ^ k \<le> unat x" using yk(2,3) by (metis mult_le_mono1 nat_mult_1 odd_pos Suc_leI One_nat_def)
  then have "(2 :: nat) ^ k < 2 ^ 32" using unat_u32_less [of x] by simp
  then have k: "k < 32" by (simp only: power_strict_increasing_iff)
  have uniq: "unat x = (2 ^ w - 1) * 2 ^ l \<longleftrightarrow> unat y = 2 ^ w - 1 \<and> k = l" if "0 < w" for w l
    using odd_part_unique [OF yk(2) odd_ones [OF that], of k l] yk(3) by auto
  have "could_be_bitflip x \<longleftrightarrow> y \<in> {1, 3, 15} \<or> 8 dvd k \<and> y \<in> {0xff, 0xffff, 0xffffffff}"
    using False yk(1) and_7_zero_iff [OF k] by (auto simp: could_be_bitflip_def)
  also have "\<dots> \<longleftrightarrow> (\<exists>w. unat y = 2 ^ w - 1 \<and> (w \<in> {1, 2, 4} \<or> w \<in> {8, 16, 32} \<and> 8 dvd k))"
    using pattern_iff [of y] by blast
  also have "\<dots> \<longleftrightarrow> (\<exists>w k. unat x = (2 ^ w - 1) * 2 ^ k \<and> (w \<in> {1, 2, 4} \<or> w \<in> {8, 16, 32} \<and> 8 dvd k))"
    using uniq by (metis insert_iff empty_iff zero_less_numeral zero_less_one)
  finally show ?thesis using False by simp
qed (simp add: could_be_bitflip_def)

section \<open>Block lengths and splice points\<close>

lemma block_range_cases:
  assumes "block_range afl = Some ((lo, hi), afl')"
  shows "(lo, hi) \<in> {(1, 32), (32, 128), (128, 1500), (1500, 32768)}"
  using assms by (auto simp: block_range_def Let_def split: option.splits if_splits)

text \<open>\<open>choose_block_len\<close> returns a length between 1 and the limit, and never more than \<open>HAVOC_BLK_XL\<close>, for
  every positive limit; only the generator's own fields change.\<close>

theorem choose_block_len_bounds:
  assumes "choose_block_len afl limit = Some (r, afl')" and "0 < limit"
  shows "1 \<le> r \<and> r \<le> limit \<and> r \<le> HAVOC_BLK_XL \<and> afl_rand.more afl' = afl_rand.more afl"
proof -
  obtain lo hi s where br: "block_range afl = Some ((lo, hi), s)"
    using assms(1) by (auto simp: choose_block_len_def split: option.splits)
  define m where "m = (if lo \<ge> limit then 1 else lo)"
  obtain x where draw: "rand_below s (min hi limit - m + 1) = Some (x, afl')" and r: "r = m + x"
    using assms(1) br by (auto simp: choose_block_len_def m_def Let_def split: option.splits)
  note cases = block_range_cases [OF br]
  have "0 < m" "m \<le> min hi limit" "hi \<le> HAVOC_BLK_XL"
    using cases assms(2) by (auto simp: m_def word_le_nat_alt word_less_nat_alt min_def)
  then have bounds: "m \<le> r \<and> r \<le> min hi limit" unfolding r by (intro afl_rng.rb_interval [OF draw])
  have "afl_rand.more s = afl_rand.more afl"
    using br afl_rng.rb_rest by (fastforce simp: block_range_def Let_def split: option.splits if_splits)
  then have "afl_rand.more afl' = afl_rand.more afl" using afl_rng.rb_rest [OF draw] by simp
  moreover have "1 \<le> m" using \<open>0 < m\<close> by (simp add: word_le_nat_alt word_less_nat_alt)
  ultimately show ?thesis using bounds \<open>hi \<le> HAVOC_BLK_XL\<close> by (auto intro: order_trans)
qed

definition one_demo :: afl_one where
  "one_demo = afl_extras.extend (extras_demo [] [])
     \<lparr>queue_cycle = 0, run_over10m = False, probability_now = [], swarm_now = 0\<rparr>"

theorem choose_block_len_bounds_witness:
  "\<exists>r afl'. choose_block_len one_demo 1 = Some (r, afl') \<and> 1 \<le> r \<and> r \<le> 1"
proof -
  have "\<not> run_over10m one_demo" by (simp add: one_demo_def afl_extras.extend_def)
  then have "choose_block_len one_demo 1 = Some (1, one_demo)"
    by (simp add: choose_block_len_def block_range_def rand_below_def Let_def min_def word_le_nat_alt)
  from choose_block_len_bounds [OF this] this show ?thesis by auto
qed

lemma sint_small: "unat (x :: u32) < 2 ^ 31 \<Longrightarrow> sint x = int (unat x)"
  using sint_diff_u32 [of x 0] by simp

definition diff_offsets :: "bytes \<Rightarrow> bytes \<Rightarrow> nat \<Rightarrow> nat list" where
  "diff_offsets p1 p2 k = filter (\<lambda>i. p1 ! i \<noteq> p2 ! i) [0..<k]"

lemma diff_offsets_Cons:
  "diff_offsets (a # p1) (b # p2) (Suc k) = (if a \<noteq> b then [0] else []) @ map Suc (diff_offsets p1 p2 k)"
  by (simp add: diff_offsets_def upt_conv_Cons map_Suc_upt [symmetric] filter_map comp_def del: upt_Suc)

lemma sorted_hd_last: "sorted (xs :: nat list) \<Longrightarrow> x \<in> set xs \<Longrightarrow> hd xs \<le> x \<and> x \<le> last xs"
proof (induction xs)
  case (Cons a xs)
  then show ?case by (cases "xs = []") (auto simp: last_in_set)
qed simp

lemma locate_diffs_loop_eq:
  "k \<le> length p1 \<Longrightarrow> k \<le> length p2 \<Longrightarrow> unat pos + k \<le> 2 ^ 31 \<Longrightarrow>
   locate_diffs_loop p1 p2 k pos f l = Inr
    (if diff_offsets p1 p2 k = [] then (f, l)
     else (if f = - 1 then int (unat pos + hd (diff_offsets p1 p2 k)) else f, int (unat pos + last (diff_offsets p1 p2 k))))"
proof (induction k arbitrary: p1 p2 pos f l)
  case 0
  then show ?case by (simp add: diff_offsets_def)
next
  case (Suc k)
  obtain a q1 b q2 where p: "p1 = a # q1" "p2 = b # q2" using Suc.prems(1,2) by (cases p1; cases p2) auto
  let ?D = "diff_offsets q1 q2 k"
  have pos: "sint pos = int (unat pos)" using Suc.prems(3) by (intro sint_small) simp
  have pos1: "unat (pos + 1) = Suc (unat pos)" using Suc.prems(3) by (subst unat_add_small) simp_all
  have np: "uint pos \<noteq> - 1"
  proof
    assume "uint pos = - 1"
    with uint_nonnegative [of pos] show False by linarith
  qed
  note IH = Suc.IH [of q1 q2 "pos + 1"]
  show ?case
    using Suc.prems IH [of "if a \<noteq> b \<and> f = - 1 then int (unat pos) else f" "if a \<noteq> b then int (unat pos) else l"]
    by (cases "?D = []") (auto simp: p diff_offsets_Cons pos pos1 np hd_map last_map)
qed

text \<open>\<open>locate_diffs\<close> on two buffers of at least \<open>len\<close> bytes, \<open>len\<close> at most \<open>2 ^ 31\<close>: equal prefixes give -1 and -1;
  otherwise the results are the first and the last offset below \<open>len\<close> at which the buffers differ.\<close>

theorem locate_diffs_first_last:
  assumes "unat n \<le> length p1" and "unat n \<le> length p2" and "unat n \<le> 2 ^ 31"
  shows "if take (unat n) p1 = take (unat n) p2 then locate_diffs p1 p2 n = Inr (- 1, - 1)
    else \<exists>f l. locate_diffs p1 p2 n = Inr (int f, int l) \<and> f \<le> l \<and> l < unat n
      \<and> p1 ! f \<noteq> p2 ! f \<and> p1 ! l \<noteq> p2 ! l
      \<and> (\<forall>i < unat n. i < f \<or> l < i \<longrightarrow> p1 ! i = p2 ! i)"
proof -
  let ?D = "diff_offsets p1 p2 (unat n)"
  have mem: "i \<in> set ?D \<longleftrightarrow> i < unat n \<and> p1 ! i \<noteq> p2 ! i" for i by (auto simp: diff_offsets_def)
  have sorted: "sorted ?D" by (simp add: diff_offsets_def sorted_wrt_filter)
  have "take (unat n) p1 = take (unat n) p2 \<longleftrightarrow> (\<forall>i < unat n. p1 ! i = p2 ! i)"
    using assms(1,2) by (simp add: list_eq_iff_nth_eq)
  also have "\<dots> \<longleftrightarrow> ?D = []" by (auto simp: diff_offsets_def filter_empty_conv)
  finally have eq: "take (unat n) p1 = take (unat n) p2 \<longleftrightarrow> ?D = []" .
  note loop = locate_diffs_loop_eq [OF assms(1,2), of 0 "- 1" "- 1"]
  show ?thesis
  proof (cases "?D = []")
    case True
    then show ?thesis using loop assms(3) eq by (simp add: locate_diffs_def)
  next
    case False
    let ?f = "hd ?D" and ?l = "last ?D"
    have "?f \<in> set ?D" "?l \<in> set ?D" using False by simp_all
    moreover have "?f \<le> i \<and> i \<le> ?l" if "i \<in> set ?D" for i
      using sorted_hd_last [OF sorted that] .
    moreover have "locate_diffs p1 p2 n = Inr (int ?f, int ?l)"
      using loop assms(3) False by (simp add: locate_diffs_def)
    ultimately show ?thesis using eq False mem by (metis leD)
  qed
qed

theorem locate_diffs_first_last_witness:
  "\<exists>f l. locate_diffs [1, 2, 3, 4] [1, 9, 3, 9] 4 = Inr (int f, int l) \<and> f \<le> l \<and> l < 4"
  using locate_diffs_first_last [of 4 "[1, 2, 3, 4]" "[1, 9, 3, 9]"] by auto

end
