(* ===== verification/Afl_Exec.thy ===== *)
theory Afl_Exec
  imports Afl_Mutate
begin

unbundle bit_operations_syntax

text \<open>
  Running the target: the input channel and \<open>afl_fsrv_run_target\<close> of \<open>src/afl-forkserver.c\<close>, and
  \<open>fuzz_run_target\<close>, \<open>write_to_testcase\<close> and \<open>write_with_gap\<close> of \<open>src/afl-fuzz-run.c\<close>. The record
  \<open>afl_run\<close> adds the fork server fields and the fields of calibration and trimming. The target itself is
  a parameter: for each run (numbered), input and time limit it gives what the fork server answers on the pipes and what
  the program leaves in the coverage map. Nyx mode and persistent recording are not modelled.
\<close>

section \<open>State\<close>

datatype fsrv_run_result = FSRV_RUN_OK | FSRV_RUN_TMOUT | FSRV_RUN_CRASH | FSRV_RUN_ERROR
  | FSRV_RUN_NOINST | FSRV_RUN_NOBITS

text \<open>
  What a post-processing hook stores through its out pointer: null, the buffer it was given (its content may have
  changed), or another buffer.
\<close>

datatype post_out = Out_null | Out_same bytes | Out_buf bytes

text \<open>The hooks of a custom mutator that these functions call; \<open>cm_data\<close> is its private state behind \<open>void *data\<close>,
  which every call may change.\<close>

record custom_mutator =
  cm_data :: nat
  cm_post_process :: "(nat \<Rightarrow> bytes \<Rightarrow> nat \<times> int \<times> post_out) option"
  cm_fuzz_send :: "(nat \<Rightarrow> bytes \<Rightarrow> nat) option"
  cm_init_trim :: "(nat \<Rightarrow> bytes \<Rightarrow> nat \<times> int) option"
  cm_trim :: "(nat \<Rightarrow> nat \<times> bytes option) option"
  cm_post_trim :: "(nat \<Rightarrow> bool \<Rightarrow> nat \<times> int) option"
  cm_describe :: "(nat \<Rightarrow> nat \<Rightarrow> nat \<times> string option) option"

record afl_run = afl_one +
  fsrv_pid :: int
  child_pid :: int
  child_status :: u32
  last_run_timed_out :: bool
  last_kill_signal :: u8
  child_kill_signal :: u8
  uses_asan :: bool
  uses_crash_exitcode :: bool
  crash_exitcode :: u8
  exec_tmout :: u32
  use_shmem_fuzz :: bool
  support_shmem_fuzz :: bool
  shmem_fuzz :: bytes
  shmem_fuzz_len :: u32
  use_stdin :: bool
  fsrv_no_unlink :: bool
  no_unlink :: bool
  out_file :: "string option"
  out_fd :: int
  out_fd_data :: "bytes option"
  custom_sent :: "bytes option"
  runs :: nat
  ticks :: nat
  stop_soon :: bool
  custom_mutator_list :: "custom_mutator list"
  min_length :: u32
  max_length :: u32
  afl_post_process_keep_original :: bool
  bufs_swapped :: bool
  crash_mode :: fsrv_run_result
  stage_name :: string
  stage_cur :: u32
  stage_max :: u32
  stats_update_freq :: u32
  first_trace :: bytes
  clean_trace :: bytes
  clean_trace_custom :: bytes
  var_bytes :: bytes
  var_byte_count :: u32
  queued_with_cov :: u32
  resuming_fuzz :: bool
  afl_cal_fast :: bool
  cmplog_exec :: bool
  fsrv_cmplog_binary :: bool
  trim_execs :: u64
  bytes_trim_in :: u64
  bytes_trim_out :: u64

text \<open>
  The world outside: the answers of the fork server and the target, the clock, the hash of the vendored
  \<open>xxhash.h\<close>, and two parts of the fuzzer that are not modelled, the status screen and the start of the fork
  server.
\<close>

record fsrv_reply =
  ctl_written :: int
  pid_read :: "int option"
  exec_time :: u32
  status_read :: u32
  status_after_kill :: "u32 option"
  trace_written :: bytes
  stop_signal :: bool

type_synonym target = "nat \<Rightarrow> bytes \<Rightarrow> u32 \<Rightarrow> fsrv_reply"

record 's world =
  w_target :: target
  w_clock_us :: "nat \<Rightarrow> u64"
  w_xxh :: "bytes \<Rightarrow> u64"
  w_show_stats :: "'s \<Rightarrow> 's"
  w_fsrv_start :: "'s \<Rightarrow> 's result"
  w_write :: "nat \<Rightarrow> nat \<Rightarrow> int"

definition get_cur_time_us :: "'s world \<Rightarrow> 'a afl_run_scheme \<Rightarrow> u64 \<times> 'a afl_run_scheme" where
  "get_cur_time_us w afl = (w_clock_us w (ticks afl), afl\<lparr>ticks := ticks afl + 1\<rparr>)"

definition get_cur_time :: "'s world \<Rightarrow> 'a afl_run_scheme \<Rightarrow> u64 \<times> 'a afl_run_scheme" where
  "get_cur_time w afl = (w_clock_us w (ticks afl) div 1000, afl\<lparr>ticks := ticks afl + 1\<rparr>)"

section \<open>Buffers\<close>

definition mem_read :: "string \<Rightarrow> bytes \<Rightarrow> nat \<Rightarrow> nat \<Rightarrow> bytes result" where
  "mem_read what buf off n =
     (if off + n \<le> length buf then Inr (take n (drop off buf)) else Inl (Out_of_bounds what))"

definition mem_write :: "string \<Rightarrow> bytes \<Rightarrow> nat \<Rightarrow> bytes \<Rightarrow> bytes result" where
  "mem_write what buf off data =
     (if off + length data \<le> length buf
      then Inr (take off buf @ data @ drop (off + length data) buf) else Inl (Out_of_bounds what))"

text \<open>
  \<open>ck_write\<close> of \<open>include/debug.h\<close>: the bytes that reach the file. The results of the successive calls of \<open>write\<close> are a parameter (the
  number of the call and the number of bytes asked for); \<open>write\<close> never takes more than it is given.
\<close>

definition sys_write :: "(nat \<Rightarrow> nat \<Rightarrow> int) \<Rightarrow> nat \<Rightarrow> nat \<Rightarrow> int" where
  "sys_write wr k n = min (wr k n) (int n)"

function ck_write_loop :: "(nat \<Rightarrow> nat \<Rightarrow> int) \<Rightarrow> nat \<Rightarrow> bytes \<Rightarrow> int \<Rightarrow> nat \<Rightarrow> nat \<Rightarrow> bytes \<Rightarrow> bytes" where
  "ck_write_loop wr k buf written off n out =
     (let res = sys_write wr k n; out = out @ take (nat res) (drop off buf) in
      if res \<noteq> int n \<and> 0 < res \<and> written + res \<noteq> int n
      then ck_write_loop wr (Suc k) buf (written + res) (off + nat res) (n - nat res) out
      else out)"
  by pat_completeness auto
termination
  by (relation "measure (\<lambda>(wr, k, buf, written, off, n, out). n)") (auto simp: sys_write_def min_def split: if_splits)

declare ck_write_loop.simps [simp del]

definition ck_write :: "(nat \<Rightarrow> nat \<Rightarrow> int) \<Rightarrow> bytes \<Rightarrow> nat \<Rightarrow> bytes" where
  "ck_write wr buf n = (if n = 0 then [] else ck_write_loop wr 0 buf 0 0 n [])"

section \<open>Handing the input to the target\<close>

text \<open>What the target finds when it reads its input.\<close>

definition file_data :: "bytes option \<Rightarrow> bytes" where
  "file_data content = (case content of None \<Rightarrow> [] | Some data \<Rightarrow> data)"

definition target_input :: "'a afl_run_scheme \<Rightarrow> bytes" where
  "target_input afl =
     (if custom_sent afl \<noteq> None then the (custom_sent afl)
      else if use_shmem_fuzz afl then take (unat (shmem_fuzz_len afl)) (shmem_fuzz afl)
      else if use_stdin afl \<or> out_file afl = None then file_data (out_fd_data afl)
      else file_data (fs afl (the (out_file afl))))"

definition unlink_quiet :: "'a afl_files_scheme \<Rightarrow> string \<Rightarrow> 'a afl_files_scheme" where
  "unlink_quiet afl fn = (case unlink_file afl fn of Inl e \<Rightarrow> afl | Inr afl \<Rightarrow> afl)"

definition rewrite_file ::
  "bool \<Rightarrow> 'a afl_files_scheme \<Rightarrow> string \<Rightarrow> bytes \<Rightarrow> 'a afl_files_scheme result" where
  "rewrite_file keep_name afl fn data =
     (if keep_name then creat_trunc afl fn data else creat_excl (unlink_quiet afl fn) fn data)"

text \<open>
  The open file behind \<open>out_fd\<close> after \<open>lseek\<close> to the start and the writes that left \<open>written\<close> in it: \<open>ftruncate\<close> to \<open>n\<close> bytes, which
  fills up with zeros, when the target reads standard input, else \<open>close\<close>.
\<close>

definition write_out_fd :: "'a afl_run_scheme \<Rightarrow> bytes \<Rightarrow> nat \<Rightarrow> 'a afl_run_scheme result" where
  "write_out_fd afl written n =
     (case out_fd_data afl of
        None \<Rightarrow> Inl (Fatal ''Short write'')
      | Some old \<Rightarrow>
          Inr (if use_stdin afl
               then afl\<lparr>out_fd_data := Some (take n (written @ drop (length written) old @ replicate n 0))\<rparr>
               else afl\<lparr>out_fd_data := None\<rparr>))"

definition afl_fsrv_write_to_testcase :: "'s world \<Rightarrow> 'a afl_run_scheme \<Rightarrow> bytes \<Rightarrow> nat \<Rightarrow> 'a afl_run_scheme result" where
  "afl_fsrv_write_to_testcase w afl buf n =
     (let n = (if use_shmem_fuzz afl \<and> unat MAX_FILE < n then unat MAX_FILE else n);
          afl = afl\<lparr>custom_sent := None\<rparr>
      in bind_result (mem_read ''buf'' buf 0 n) (\<lambda>data.
         if use_shmem_fuzz afl then
           bind_result (mem_write ''shmem_fuzz'' (shmem_fuzz afl) 0 data) (\<lambda>shm.
           Inr (afl\<lparr>shmem_fuzz_len := of_nat n, shmem_fuzz := shm\<rparr>))
         else
           let written = ck_write (w_write w) data n in
           case (use_stdin afl, out_file afl) of
             (False, Some fn) \<Rightarrow> rewrite_file (fsrv_no_unlink afl) afl fn written
           | _ \<Rightarrow>
               if out_fd afl \<le> 0 then Inl (Fatal ''Nowhere to write output to'')
               else write_out_fd afl written n))"

section \<open>One run\<close>

abbreviation EXEC_FAIL_SIG :: u32 where "EXEC_FAIL_SIG \<equiv> 0xfee1dead"
abbreviation MSAN_ERROR :: u32 where "MSAN_ERROR \<equiv> 86"
abbreviation LSAN_ERROR :: u32 where "LSAN_ERROR \<equiv> 23"

text \<open>The macros of \<open>sys/wait.h\<close>.\<close>

definition WTERMSIG :: "u32 \<Rightarrow> u32" where
  "WTERMSIG status = status AND 0x7f"

definition WEXITSTATUS :: "u32 \<Rightarrow> u32" where
  "WEXITSTATUS status = drop_bit 8 (status AND 0xff00)"

definition WIFSTOPPED :: "u32 \<Rightarrow> bool" where
  "WIFSTOPPED status \<longleftrightarrow> status AND 0xff = 0x7f"

definition WIFSIGNALED :: "u32 \<Rightarrow> bool" where
  "WIFSIGNALED status \<longleftrightarrow> WTERMSIG status \<noteq> 0 \<and> WTERMSIG status \<noteq> 0x7f"

definition crashed :: "'a afl_run_scheme \<Rightarrow> u32 \<Rightarrow> bool" where
  "crashed afl status \<longleftrightarrow>
     WIFSIGNALED status
     \<or> (uses_asan afl \<and> (WEXITSTATUS status = MSAN_ERROR \<or> WEXITSTATUS status = LSAN_ERROR))
     \<or> (uses_crash_exitcode afl \<and> WEXITSTATUS status = ucast (crash_exitcode afl))"

text \<open>What a map of \<open>n\<close> zero bytes holds after a run that counted \<open>xs\<close>.\<close>

definition fill_map :: "nat \<Rightarrow> bytes \<Rightarrow> bytes" where
  "fill_map n xs = take n (xs @ replicate n 0)"

text \<open>The instrumentation only increases the counters it finds in the shared map.\<close>

definition count_hits :: "bytes \<Rightarrow> bytes \<Rightarrow> bytes" where
  "count_hits trace xs = map2 (+) trace (fill_map (length trace) xs)"

definition clear_trace :: "'a afl_run_scheme \<Rightarrow> 'a afl_run_scheme" where
  "clear_trace afl = afl\<lparr>trace_bits :=
     replicate (min (unat (map_size afl)) (length (trace_bits afl))) 0
     @ drop (unat (map_size afl)) (trace_bits afl)\<rparr>"

text \<open>A failed exchange with the fork server: quiet when the user wants to stop.\<close>

definition pipe_failure ::
  "string \<Rightarrow> 'a afl_run_scheme \<Rightarrow> (fsrv_run_result \<times> 'a afl_run_scheme) result" where
  "pipe_failure msg afl = (if stop_soon afl then Inr (FSRV_RUN_OK, afl) else Inl (Fatal msg))"

text \<open>The part after the status has been received.\<close>

definition run_outcome :: "'a afl_run_scheme \<Rightarrow> fsrv_run_result \<times> 'a afl_run_scheme" where
  "run_outcome afl =
     (let status = child_status afl;
          afl = (if WIFSTOPPED status then afl else afl\<lparr>child_pid := - 1\<rparr>);
          afl = afl\<lparr>total_execs := total_execs afl + 1\<rparr>
      in if (join_words (take 4 (trace_bits afl)) :: u32) = EXEC_FAIL_SIG then (FSRV_RUN_ERROR, afl)
         else if last_run_timed_out afl
         then (FSRV_RUN_TMOUT, afl\<lparr>last_kill_signal := child_kill_signal afl\<rparr>)
         else if crashed afl status
         then (FSRV_RUN_CRASH,
               afl\<lparr>last_kill_signal := (if WIFSIGNALED status then ucast (WTERMSIG status) else 0)\<rparr>)
         else (FSRV_RUN_OK, afl))"

definition afl_fsrv_run_target ::
  "target \<Rightarrow> 'a afl_run_scheme \<Rightarrow> u32 \<Rightarrow> (fsrv_run_result \<times> 'a afl_run_scheme) result" where
  "afl_fsrv_run_target tgt afl timeout =
     (let r = tgt (runs afl) (target_input afl) timeout;
          afl = clear_trace (afl\<lparr>runs := runs afl + 1, stop_soon := stop_soon afl \<or> stop_signal r\<rparr>)
      in if ctl_written r \<noteq> 4 then pipe_failure ''Unable to request new process from fork server'' afl
      else
        let afl = afl\<lparr>last_run_timed_out := False\<rparr> in
        case pid_read r of
          None \<Rightarrow> pipe_failure ''Unable to request new process from fork server'' afl
        | Some pid \<Rightarrow>
            let afl = afl\<lparr>child_pid := pid\<rparr> in
            if pid \<le> 0 then pipe_failure ''Fork server is misbehaving'' afl
            else
              let afl = afl\<lparr>trace_bits := count_hits (trace_bits afl) (trace_written r),
                            child_status := status_read r\<rparr>;
                  late = (timeout < exec_time r);
                  afl = (if late then afl\<lparr>child_pid := - 1, last_run_timed_out := True\<rparr> else afl);
                  exec_ms = (if late \<and> status_after_kill r = None then 0 else exec_time r);
                  afl = (case status_after_kill r of
                           Some s \<Rightarrow> if late then afl\<lparr>child_status := s\<rparr> else afl
                         | None \<Rightarrow> afl)
              in if exec_ms = 0 then pipe_failure ''Unable to communicate with fork server'' afl
                 else Inr (run_outcome afl))"

definition fuzz_run_target ::
  "'s world \<Rightarrow> 'a afl_run_scheme \<Rightarrow> u32 \<Rightarrow> (fsrv_run_result \<times> 'a afl_run_scheme) result" where
  "fuzz_run_target w afl timeout = afl_fsrv_run_target (w_target w) afl timeout"

section \<open>\<open>write_to_testcase\<close>\<close>

text \<open>
  The buffers of the post-processing chain: \<open>pp_orig\<close> is the content of the caller's buffer \<open>*mem\<close>, \<open>pp_mem\<close> the content
  behind \<open>new_mem\<close>, \<open>pp_same\<close> whether the two pointers are equal, \<open>pp_size\<close> is \<open>new_size\<close>.
\<close>

record post_state =
  pp_orig :: bytes
  pp_mem :: bytes
  pp_same :: bool
  pp_size :: int

definition overlay :: "bytes \<Rightarrow> bytes \<Rightarrow> bytes" where
  "overlay data buf = data @ drop (length data) buf"

definition take_post :: "post_out \<Rightarrow> int \<Rightarrow> post_state \<Rightarrow> post_state result" where
  "take_post out n s =
     (case out of
        Out_null \<Rightarrow> Inl (Out_of_bounds ''new_mem'')
      | Out_same b \<Rightarrow>
          (let m = overlay b (pp_mem s)
           in Inr (s\<lparr>pp_mem := m, pp_orig := (if pp_same s then m else pp_orig s), pp_size := n\<rparr>))
      | Out_buf b \<Rightarrow> Inr (s\<lparr>pp_mem := b, pp_same := False, pp_size := n\<rparr>))"

fun post_process_all ::
  "(post_out \<Rightarrow> int \<Rightarrow> bool) \<Rightarrow> custom_mutator list \<Rightarrow> post_state
     \<Rightarrow> (custom_mutator list \<times> post_state) result" where
  "post_process_all failed [] s = Inr ([], s)"
| "post_process_all failed (el # els) s =
     (case cm_post_process el of
        None \<Rightarrow> bind_result (post_process_all failed els s) (\<lambda>(ms, s). Inr (el # ms, s))
      | Some f \<Rightarrow>
          (case f (cm_data el) (take (nat (pp_size s)) (pp_mem s)) of
             (d, n, out) \<Rightarrow>
               bind_result (if failed out n then Inr (s\<lparr>pp_size := 0\<rparr>) else take_post out n s) (\<lambda>s.
               bind_result (post_process_all failed els s) (\<lambda>(ms, s).
               Inr (el\<lparr>cm_data := d\<rparr> # ms, s)))))"

definition fuzz_send_all :: "bytes \<Rightarrow> custom_mutator list \<Rightarrow> custom_mutator list" where
  "fuzz_send_all data els =
     map (\<lambda>el. case cm_fuzz_send el of None \<Rightarrow> el | Some f \<Rightarrow> el\<lparr>cm_data := f (cm_data el) data\<rparr>) els"

text \<open>The limits \<open>min_length\<close> and \<open>max_length\<close>; the lower one not for dummy runs.\<close>

definition clamp_len :: "'a afl_run_scheme \<Rightarrow> bool \<Rightarrow> int \<Rightarrow> int" where
  "clamp_len afl fix_run n =
     (if n < uint (min_length afl) \<and> \<not> fix_run then uint (min_length afl)
      else if uint (max_length afl) < n then uint (max_length afl) else n)"

definition post_failed :: "post_out \<Rightarrow> int \<Rightarrow> bool" where
  "post_failed out n \<longleftrightarrow> out = Out_null \<or> n \<le> 0"

text \<open>Delivery once the data is fixed: \<open>buf\<close> is the content of \<open>*mem\<close>, \<open>n\<close> is \<open>new_size\<close> and \<open>saved\<close> the content
  behind \<open>new_mem\<close>. The result is the content of \<open>*mem\<close>, the returned length and the state.\<close>

definition deliver_custom ::
  "'s world \<Rightarrow> 'a afl_run_scheme \<Rightarrow> bytes \<Rightarrow> bytes \<Rightarrow> int \<Rightarrow> u32 \<Rightarrow> (bytes \<times> u32 \<times> 'a afl_run_scheme) result" where
  "deliver_custom w afl buf saved n len0 =
     (if list_ex (\<lambda>el. cm_fuzz_send el \<noteq> None) (custom_mutator_list afl) then
        bind_result (mem_read ''mem'' buf 0 (nat n)) (\<lambda>data.
        Inr (buf, len0, afl\<lparr>custom_mutator_list := fuzz_send_all data (custom_mutator_list afl),
                            custom_sent := Some data\<rparr>))
      else
        bind_result (afl_fsrv_write_to_testcase w afl buf (nat n)) (\<lambda>afl.
        if \<not> afl_post_process_keep_original afl then Inr (buf, of_int n, afl)
        else Inr (saved, len0, afl\<lparr>bufs_swapped := \<not> bufs_swapped afl\<rparr>)))"

definition write_custom ::
  "'s world \<Rightarrow> 'a afl_run_scheme \<Rightarrow> bytes \<Rightarrow> u32 \<Rightarrow> bool \<Rightarrow> (bytes \<times> u32 \<times> 'a afl_run_scheme) result" where
  "write_custom w afl mem len0 fix_run =
     bind_result (post_process_all post_failed (custom_mutator_list afl)
         \<lparr>pp_orig = mem, pp_mem = mem, pp_same = True, pp_size = uint len0\<rparr>) (\<lambda>(ms, s).
     let afl = afl\<lparr>custom_mutator_list := ms\<rparr> in
     if pp_size s = 0 \<and> \<not> fix_run then Inr (pp_orig s, 0, afl)
     else
       let n = clamp_len afl fix_run (if pp_size s = 0 then uint len0 else pp_size s) in
       if \<not> pp_same s \<and> 0 < n then
         bind_result (mem_read ''new_mem'' (pp_mem s) 0 (nat n)) (\<lambda>data.
         deliver_custom w (afl\<lparr>bufs_swapped := \<not> bufs_swapped afl\<rparr>) data
           (if afl_post_process_keep_original afl then pp_orig s else pp_mem s) n len0)
       else deliver_custom w afl (pp_orig s) (pp_mem s) n len0)"

definition write_to_testcase ::
  "'s world \<Rightarrow> 'a afl_run_scheme \<Rightarrow> bytes \<Rightarrow> u32 \<Rightarrow> bool \<Rightarrow> (bytes \<times> u32 \<times> 'a afl_run_scheme) result" where
  "write_to_testcase w afl mem n fix_run =
     (if custom_mutators_count afl \<noteq> 0 then write_custom w afl mem n fix_run
      else
        let n = of_int (clamp_len afl fix_run (uint n)) in
        bind_result (afl_fsrv_write_to_testcase w afl mem (unat n)) (\<lambda>afl. Inr (mem, n, afl)))"

section \<open>\<open>write_with_gap\<close>\<close>

definition gap_failed :: "post_out \<Rightarrow> int \<Rightarrow> bool" where
  "gap_failed out n \<longleftrightarrow> out = Out_null \<and> n \<le> 0"

text \<open>The two pieces around the gap.\<close>

definition gap_pieces :: "bytes \<Rightarrow> u32 \<Rightarrow> u32 \<Rightarrow> u32 \<Rightarrow> bytes list result" where
  "gap_pieces mem n skip_at skip_len =
     bind_result (mem_read ''mem'' mem 0 (unat skip_at)) (\<lambda>head.
     bind_result (mem_read ''mem'' mem (unat skip_at + unat skip_len) (unat (n - skip_at - skip_len))) (\<lambda>tail.
     Inr [head, tail]))"

text \<open>Delivery of the pieces, one \<open>memcpy\<close> or one \<open>ck_write\<close> for each.\<close>

definition put_gap :: "'s world \<Rightarrow> 'a afl_run_scheme \<Rightarrow> bytes list \<Rightarrow> int \<Rightarrow> 'a afl_run_scheme result" where
  "put_gap w afl pieces new_size =
     (let afl = afl\<lparr>custom_sent := None\<rparr>;
          written = concat (map (\<lambda>b. ck_write (w_write w) b (length b)) pieces)
      in if use_shmem_fuzz afl then
        bind_result (mem_write ''shmem_fuzz'' (shmem_fuzz afl) 0 (concat pieces)) (\<lambda>shm.
        Inr (afl\<lparr>shmem_fuzz := shm, shmem_fuzz_len := of_int new_size\<rparr>))
      else if \<not> use_stdin afl then
        (case out_file afl of
           None \<Rightarrow> Inl (Fatal ''Unable to create'')
         | Some fn \<Rightarrow> rewrite_file (no_unlink afl) afl fn written)
      else write_out_fd afl written (nat new_size))"

definition write_with_gap ::
  "'s world \<Rightarrow> 'a afl_run_scheme \<Rightarrow> bytes \<Rightarrow> u32 \<Rightarrow> u32 \<Rightarrow> u32 \<Rightarrow> 'a afl_run_scheme result" where
  "write_with_gap w afl mem n skip_at skip_len =
     (if custom_mutators_count afl \<noteq> 0 \<and> list_ex (\<lambda>el. cm_post_process el \<noteq> None) (custom_mutator_list afl)
      then
        bind_result (gap_pieces mem n skip_at skip_len) (\<lambda>pieces.
        bind_result (post_process_all gap_failed (custom_mutator_list afl)
            \<lparr>pp_orig = concat pieces, pp_mem = concat pieces, pp_same = True, pp_size = uint (n - skip_len)\<rparr>) (\<lambda>(ms, s).
        if pp_size s < 0 \<and> use_shmem_fuzz afl then Inl (Out_of_bounds ''memcpy'')
        else if pp_size s < 0 \<and> use_stdin afl then Inl (Fatal ''ftruncate() failed'')
        else bind_result (mem_read ''new_mem'' (pp_mem s) 0 (nat (pp_size s))) (\<lambda>data.
             put_gap w (afl\<lparr>custom_mutator_list := ms\<rparr>) [data] (pp_size s))))
      else
        bind_result (gap_pieces mem n skip_at skip_len) (\<lambda>pieces. put_gap w afl pieces (uint (n - skip_len))))"

section \<open>The input channel\<close>

text \<open>The set-up of the fuzzer gives the target one of the channels: a shared buffer of \<open>MAX_FILE\<close> bytes, a file it may
  replace, or the open file behind its standard input.\<close>

definition channel_ready :: "'a afl_run_scheme \<Rightarrow> bool" where
  "channel_ready afl \<longleftrightarrow>
     (if use_shmem_fuzz afl then length (shmem_fuzz afl) = unat MAX_FILE
      else if use_stdin afl then 0 < out_fd afl \<and> out_fd_data afl \<noteq> None
      else \<exists>fn. out_file afl = Some fn \<and> \<not> fs_deny afl fn)"

definition channel_takes :: "'a afl_run_scheme \<Rightarrow> nat \<Rightarrow> bool" where
  "channel_takes afl n \<longleftrightarrow> use_shmem_fuzz afl \<longrightarrow> n \<le> unat MAX_FILE"

text \<open>The state after the channel took \<open>data\<close>.\<close>

definition with_input :: "'a afl_run_scheme \<Rightarrow> bytes \<Rightarrow> 'a afl_run_scheme" where
  "with_input afl data =
     (if use_shmem_fuzz afl
      then afl\<lparr>custom_sent := None, shmem_fuzz := data @ drop (length data) (shmem_fuzz afl),
               shmem_fuzz_len := of_nat (length data)\<rparr>
      else if use_stdin afl then afl\<lparr>custom_sent := None, out_fd_data := Some data\<rparr>
      else afl\<lparr>custom_sent := None, fs := (fs afl)(the (out_file afl) \<mapsto> data)\<rparr>)"

lemma unlink_quiet_fs:
  "\<not> fs_deny afl fn \<Longrightarrow> unlink_quiet afl fn = afl\<lparr>fs := (fs afl)(fn := None)\<rparr>"
  by (cases "fs afl fn") (simp_all add: unlink_quiet_def unlink_file_def fun_upd_idem)

lemma rewrite_file_ok:
  "\<not> fs_deny afl fn \<Longrightarrow> rewrite_file keep_name afl fn data = Inr (afl\<lparr>fs := (fs afl)(fn \<mapsto> data)\<rparr>)"
  by (simp add: rewrite_file_def creat_trunc_def unlink_quiet_fs creat_excl_def)

text \<open>Files that take every byte at once.\<close>

definition writes_whole :: "'s world \<Rightarrow> bool" where
  "writes_whole w \<longleftrightarrow> (\<forall>k n. w_write w k n = int n)"

lemma ck_write_whole: "(\<And>k n. wr k n = int n) \<Longrightarrow> ck_write wr mem n = take n mem"
  by (simp add: ck_write_def ck_write_loop.simps sys_write_def)

lemma writes_whole_ck: "writes_whole w \<Longrightarrow> ck_write (w_write w) mem n = take n mem"
  by (rule ck_write_whole) (simp add: writes_whole_def)

lemma channel_write:
  assumes "channel_ready afl" and "channel_takes afl n" and "n \<le> length buf" and "writes_whole w"
  shows "afl_fsrv_write_to_testcase w afl buf n = Inr (with_input afl (take n buf))"
proof -
  have n: "(if use_shmem_fuzz afl \<and> unat MAX_FILE < n then unat MAX_FILE else n) = n"
    using assms(2) by (auto simp: channel_takes_def)
  note defs = afl_fsrv_write_to_testcase_def with_input_def mem_read_def mem_write_def write_out_fd_def writes_whole_ck [OF assms(4)]
  consider "use_shmem_fuzz afl" | "\<not> use_shmem_fuzz afl" "use_stdin afl"
    | "\<not> use_shmem_fuzz afl" "\<not> use_stdin afl" by blast
  then show ?thesis
  proof cases
    case 1
    then show ?thesis
      using assms n by (simp add: defs channel_ready_def channel_takes_def min_absorb2)
  next
    case 2
    then show ?thesis
      using assms by (auto simp: defs channel_ready_def split: option.splits)
  next
    case 3
    then show ?thesis
      using assms by (auto simp: defs channel_ready_def rewrite_file_ok)
  qed
qed

lemma with_input_delivers:
  assumes "channel_ready afl" and "channel_takes afl (length data)"
  shows "target_input (with_input afl data) = data"
proof (cases "use_shmem_fuzz afl")
  case True
  then have "length data < 2 ^ LENGTH(32)" using assms(2) by (simp add: channel_takes_def)
  then have "unat (of_nat (length data) :: u32) = length data" by (rule unat_of_nat_eq)
  with True show ?thesis by (simp add: with_input_def target_input_def)
next
  case False
  then show ?thesis
    using assms by (auto simp: with_input_def target_input_def channel_ready_def file_data_def)
qed

lemma with_input_fields [frame, simp]:
  "use_shmem_fuzz (with_input afl data) = use_shmem_fuzz afl"
  "use_stdin (with_input afl data) = use_stdin afl" "out_file (with_input afl data) = out_file afl"
  "out_fd (with_input afl data) = out_fd afl" "fs_deny (with_input afl data) = fs_deny afl"
  "queue_buf (with_input afl data) = queue_buf afl" "trace_bits (with_input afl data) = trace_bits afl"
  "map_size (with_input afl data) = map_size afl"
  "custom_mutators_count (with_input afl data) = custom_mutators_count afl"
  "runs (with_input afl data) = runs afl" "stop_soon (with_input afl data) = stop_soon afl"
  "stats_update_freq (with_input afl data) = stats_update_freq afl" "schedule (with_input afl data) = schedule afl"
  "exec_tmout (with_input afl data) = exec_tmout afl" "crash_mode (with_input afl data) = crash_mode afl"
  by (simp_all add: with_input_def)

lemma upd_q_run_frame [frame, simp]:
  "clean_trace (upd_q f q afl) = clean_trace afl" "stats_update_freq (upd_q f q afl) = stats_update_freq afl"
  "stop_soon (upd_q f q afl) = stop_soon afl" "no_unlink (upd_q f q afl) = no_unlink afl"
  "stage_cur (upd_q f q afl) = stage_cur afl" "stage_max (upd_q f q afl) = stage_max afl"
  "crash_mode (upd_q f q afl) = crash_mode afl" "first_trace (upd_q f q afl) = first_trace afl"
  "custom_mutators_count (upd_q f q afl) = custom_mutators_count afl"
  by (simp_all add: upd_q_def)

lemma with_input_ready:
  "channel_ready afl \<Longrightarrow> channel_takes afl (length data) \<Longrightarrow> channel_ready (with_input afl data)"
  unfolding channel_ready_def channel_takes_def
  by (simp split: if_splits) (simp_all add: with_input_def)

lemma gap_pieces_cut:
  assumes "unat skip_at + unat skip_len \<le> unat n" and "unat n \<le> length mem"
  shows "gap_pieces mem n skip_at skip_len
       = Inr [take (unat skip_at) mem, drop (unat skip_at + unat skip_len) (take (unat n) mem)]"
proof -
  have sub: "unat (n - skip_at - skip_len) = unat n - unat skip_at - unat skip_len"
  proof -
    have "skip_at \<le> n" using assms(1) by (simp add: word_le_nat_alt)
    then have a: "unat (n - skip_at) = unat n - unat skip_at" by (rule unat_sub)
    have "skip_len \<le> n - skip_at" using assms(1) by (simp add: word_le_nat_alt a)
    then show ?thesis by (simp add: unat_sub a)
  qed
  show ?thesis
    using assms by (simp add: gap_pieces_def mem_read_def sub drop_take)
qed

lemma write_with_gap_ok:
  assumes "custom_mutators_count afl = 0" and "channel_ready afl"
    and "unat skip_at + unat skip_len \<le> unat n" and "unat n \<le> length mem"
    and "shorter = take (unat skip_at) mem @ drop (unat skip_at + unat skip_len) (take (unat n) mem)"
    and "channel_takes afl (length shorter)" and "writes_whole w"
  shows "write_with_gap w afl mem n skip_at skip_len = Inr (with_input afl shorter)"
proof -
  have len: "length shorter = unat (n - skip_len)"
  proof -
    have "skip_len \<le> n" using assms(3) by (simp add: word_le_nat_alt)
    then show ?thesis using assms(3,4,5) by (simp add: unat_sub)
  qed
  let ?pieces = "[take (unat skip_at) mem, drop (unat skip_at + unat skip_len) (take (unat n) mem)]"
  have whole: "concat ?pieces = shorter" by (simp add: assms(5))
  have "put_gap w afl ?pieces (uint (n - skip_len)) = Inr (with_input afl shorter)"
  proof -
    have "(of_int (uint (n - skip_len)) :: u32) = of_nat (length shorter)" by (simp add: len)
    then show ?thesis
      using assms(2,6)
      by (cases "use_shmem_fuzz afl"; cases "use_stdin afl")
        (auto simp: put_gap_def with_input_def mem_write_def channel_ready_def channel_takes_def
          write_out_fd_def rewrite_file_ok writes_whole_ck [OF assms(7)] whole len simp del: concat.simps)
  qed
  then show ?thesis
    using assms(1) gap_pieces_cut [OF assms(3,4)] by (simp add: write_with_gap_def)
qed

section \<open>Runs\<close>

text \<open>The state in which \<open>run_outcome\<close> looks at an answered run.\<close>

definition answered :: "fsrv_reply \<Rightarrow> u32 \<Rightarrow> 'a afl_run_scheme \<Rightarrow> 'a afl_run_scheme" where
  "answered r timeout afl =
     (if timeout < exec_time r
      then afl\<lparr>runs := runs afl + 1, stop_soon := stop_soon afl \<or> stop_signal r,
               trace_bits := fill_map (unat (map_size afl)) (trace_written r),
               child_pid := - 1, last_run_timed_out := True, child_status := the (status_after_kill r)\<rparr>
      else afl\<lparr>runs := runs afl + 1, stop_soon := stop_soon afl \<or> stop_signal r, last_run_timed_out := False,
               child_pid := the (pid_read r), trace_bits := fill_map (unat (map_size afl)) (trace_written r),
               child_status := status_read r\<rparr>)"

definition answers :: "fsrv_reply \<Rightarrow> u32 \<Rightarrow> bool" where
  "answers r timeout \<longleftrightarrow> ctl_written r = 4 \<and> (\<exists>pid > 0. pid_read r = Some pid) \<and> exec_time r \<noteq> 0
     \<and> (timeout < exec_time r \<longrightarrow> status_after_kill r \<noteq> None)"

lemma length_fill_map [simp]: "length (fill_map n xs) = n"
  by (simp add: fill_map_def)

lemma length_count_hits [simp]: "length (count_hits trace xs) = length trace"
  by (simp add: count_hits_def)

lemma count_hits_zero: "count_hits (replicate n 0) xs = fill_map n xs"
  by (rule nth_equalityI) (simp_all add: count_hits_def)

text \<open>Clearing the map before the run is what makes it show the run alone.\<close>

lemma count_hits_cleared:
  assumes "length (trace_bits afl) = unat (map_size afl)"
  shows "count_hits (trace_bits (clear_trace (afl\<lparr>runs := n, stop_soon := b\<rparr>))) xs = fill_map (unat (map_size afl)) xs"
  using assms count_hits_zero by (simp add: clear_trace_def)

lemma run_target_answered:
  assumes "length (trace_bits afl) = unat (map_size afl)"
    and "answers (w_target w (runs afl) (target_input afl) timeout) timeout"
  shows "fuzz_run_target w afl timeout
       = Inr (run_outcome (answered (w_target w (runs afl) (target_input afl) timeout) timeout afl))"
proof -
  define r where "r = w_target w (runs afl) (target_input afl) timeout"
  have ans: "ctl_written r = 4" "exec_time r \<noteq> 0" using assms(2) by (simp_all add: answers_def r_def)
  obtain pid where pid: "0 < pid" "pid_read r = Some pid" using assms(2) by (auto simp: answers_def r_def)
  note len = count_hits_cleared [OF assms(1)]
  show ?thesis
  proof (cases "timeout < exec_time r")
    case True
    then obtain st where "status_after_kill r = Some st" using assms(2) by (auto simp: answers_def r_def)
    with True ans pid show ?thesis
      by (simp add: fuzz_run_target_def afl_fsrv_run_target_def Let_def len answered_def flip: r_def)
        (simp add: clear_trace_def)
  next
    case False
    with ans pid show ?thesis
      by (simp add: fuzz_run_target_def afl_fsrv_run_target_def Let_def len answered_def flip: r_def
          split: option.split) (simp add: clear_trace_def)
  qed
qed

lemma answered_fields [simp]:
  "trace_bits (answered r timeout afl) = fill_map (unat (map_size afl)) (trace_written r)"
  "runs (answered r timeout afl) = runs afl + 1" "total_execs (answered r timeout afl) = total_execs afl"
  "stop_soon (answered r timeout afl) = (stop_soon afl \<or> stop_signal r)"
  "last_run_timed_out (answered r timeout afl) = (timeout < exec_time r)"
  "child_status (answered r timeout afl)
     = (if timeout < exec_time r then the (status_after_kill r) else status_read r)"
  by (simp_all add: answered_def)

lemma crashed_cong:
  "uses_asan afl' = uses_asan afl \<Longrightarrow> uses_crash_exitcode afl' = uses_crash_exitcode afl \<Longrightarrow>
     crash_exitcode afl' = crash_exitcode afl \<Longrightarrow> crashed afl' s = crashed afl s"
  by (simp add: crashed_def)

lemma crashed_frame [simp]:
  "crashed (answered r timeout afl) s = crashed afl s" "crashed (afl\<lparr>child_pid := p\<rparr>) s = crashed afl s"
  "crashed (afl\<lparr>total_execs := n\<rparr>) s = crashed afl s"
  by (rule crashed_cong; simp add: answered_def)+

text \<open>Result and final state of an answered run in closed form.\<close>

definition outcome_of :: "'a afl_run_scheme \<Rightarrow> fsrv_run_result" where
  "outcome_of afl =
     (if (join_words (take 4 (trace_bits afl)) :: u32) = EXEC_FAIL_SIG then FSRV_RUN_ERROR
      else if last_run_timed_out afl then FSRV_RUN_TMOUT
      else if crashed afl (child_status afl) then FSRV_RUN_CRASH else FSRV_RUN_OK)"

lemma run_outcome_eq:
  "\<exists>p k. run_outcome afl
     = (outcome_of afl, afl\<lparr>child_pid := p, total_execs := total_execs afl + 1, last_kill_signal := k\<rparr>)"
proof -
  define a where "a = (if WIFSTOPPED (child_status afl) then afl else afl\<lparr>child_pid := - 1\<rparr>)"
  have a: "a = afl\<lparr>child_pid := child_pid a\<rparr>" by (simp add: a_def)
  let ?b = "a\<lparr>total_execs := total_execs a + 1\<rparr>"
  have b: "?b = afl\<lparr>child_pid := child_pid a, total_execs := total_execs afl + 1\<rparr>"
    by (subst (1 2) a) simp
  have fields: "trace_bits ?b = trace_bits afl" "last_run_timed_out ?b = last_run_timed_out afl"
    "crashed ?b s = crashed afl s" for s
    by (simp_all add: a_def)
  have run: "run_outcome afl =
     (if (join_words (take 4 (trace_bits afl)) :: u32) = EXEC_FAIL_SIG then (FSRV_RUN_ERROR, ?b)
      else if last_run_timed_out afl then (FSRV_RUN_TMOUT, ?b\<lparr>last_kill_signal := child_kill_signal ?b\<rparr>)
      else if crashed afl (child_status afl)
      then (FSRV_RUN_CRASH, ?b\<lparr>last_kill_signal :=
              (if WIFSIGNALED (child_status afl) then ucast (WTERMSIG (child_status afl)) else 0)\<rparr>)
      else (FSRV_RUN_OK, ?b))"
    unfolding run_outcome_def Let_def a_def [symmetric] fields ..
  have keep: "\<exists>k. ?b = ?b\<lparr>last_kill_signal := k\<rparr>" by (rule exI [of _ "last_kill_signal ?b"]) simp
  have "\<exists>k. run_outcome afl = (outcome_of afl, ?b\<lparr>last_kill_signal := k\<rparr>)"
    unfolding run outcome_of_def using keep
    by (cases "(join_words (take 4 (trace_bits afl)) :: u32) = EXEC_FAIL_SIG"; cases "last_run_timed_out afl";
        cases "crashed afl (child_status afl)"; simp only: if_True if_False simp_thms prod.inject) blast+
  then show ?thesis unfolding b by blast
qed

text \<open>Everything a run may not change: the state apart from the trace, the run counters and the fork server's view of
  the child.\<close>

definition idle :: "'a afl_run_scheme \<Rightarrow> 'a afl_run_scheme" where
  "idle afl = afl\<lparr>trace_bits := [], total_execs := 0, runs := 0, stop_soon := False, last_run_timed_out := False,
     child_pid := 0, child_status := 0, last_kill_signal := 0\<rparr>"

lemma idle_upd [simp]:
  "idle (afl\<lparr>trace_bits := t\<rparr>) = idle afl" "idle (afl\<lparr>runs := n\<rparr>) = idle afl"
  "idle (afl\<lparr>stop_soon := b\<rparr>) = idle afl" "idle (afl\<lparr>total_execs := e\<rparr>) = idle afl"
  "idle (afl\<lparr>last_run_timed_out := l\<rparr>) = idle afl" "idle (afl\<lparr>child_pid := p\<rparr>) = idle afl"
  "idle (afl\<lparr>child_status := c\<rparr>) = idle afl" "idle (afl\<lparr>last_kill_signal := k\<rparr>) = idle afl"
  by (simp_all add: idle_def)

lemma idle_clear_trace [simp]: "idle (clear_trace afl) = idle afl"
  by (simp add: clear_trace_def)

lemma length_clear_trace [simp]: "length (trace_bits (clear_trace afl)) = length (trace_bits afl)"
  by (simp add: clear_trace_def)

lemma run_outcome_idle:
  "idle (snd (run_outcome afl)) = idle afl \<and> trace_bits (snd (run_outcome afl)) = trace_bits afl
     \<and> stop_soon (snd (run_outcome afl)) = stop_soon afl"
proof -
  obtain p k where "run_outcome afl
      = (outcome_of afl, afl\<lparr>child_pid := p, total_execs := total_execs afl + 1, last_kill_signal := k\<rparr>)"
    using run_outcome_eq by blast
  then show ?thesis by simp
qed

lemma run_target_idle:
  assumes "fuzz_run_target w afl timeout = Inr (res, afl')"
  shows "idle afl' = idle afl \<and> length (trace_bits afl') = length (trace_bits afl)"
proof -
  have out: "run_outcome a = (r, b) \<Longrightarrow> idle b = idle a \<and> trace_bits b = trace_bits a" for a b :: "'a afl_run_scheme" and r
    using run_outcome_idle [of a] by simp
  show ?thesis
    using assms unfolding fuzz_run_target_def afl_fsrv_run_target_def Let_def pipe_failure_def
    by (auto split: if_splits option.splits dest!: out)
qed

lemma idle_same: "idle a = idle b \<Longrightarrow> (\<And>x. P (idle x) = P x) \<Longrightarrow> P a = P b"
  by metis

lemma run_target_trace:
  assumes "fuzz_run_target w afl timeout = Inr (res, afl')" and "\<not> stop_soon afl'"
    and "length (trace_bits afl) = unat (map_size afl)"
  shows "trace_bits afl' = fill_map (unat (map_size afl))
     (trace_written (w_target w (runs afl) (target_input afl) timeout))"
proof -
  have out: "run_outcome a = (r, b) \<Longrightarrow> trace_bits b = trace_bits a" for a b :: "'a afl_run_scheme" and r
    using run_outcome_idle [of a] by simp
  show ?thesis
    using assms count_hits_cleared [OF assms(3)] unfolding fuzz_run_target_def afl_fsrv_run_target_def Let_def pipe_failure_def
    by (auto split: if_splits option.splits dest!: out)
qed

text \<open>The fields the status screen may change: it writes the statistics files and may end the session.\<close>

definition stats_free :: "'a afl_run_scheme \<Rightarrow> 'a afl_run_scheme" where
  "stats_free afl = afl\<lparr>fs := Map.empty, bitmap_changed := False, auto_changed := False, run_over10m := False, ticks := 0,
     stop_soon := False, stats_update_freq := 0\<rparr>"

definition stats_keep :: "'a afl_run_scheme world \<Rightarrow> bool" where
  "stats_keep w \<longleftrightarrow> (\<forall>s. stats_free (w_show_stats w s) = stats_free s)"

lemma stats_same:
  "stats_keep w \<Longrightarrow> (\<And>x. P (stats_free x) = P x) \<Longrightarrow> P (w_show_stats w s) = P s"
  unfolding stats_keep_def by metis

section \<open>Properties\<close>

definition run_demo :: "string option \<Rightarrow> afl_run" where
  "run_demo fn = afl_one.extend one_demo
     \<lparr>fsrv_pid = 7, child_pid = - 1, child_status = 0, last_run_timed_out = False, last_kill_signal = 0,
      child_kill_signal = 9, uses_asan = False, uses_crash_exitcode = False, crash_exitcode = 0,
      exec_tmout = 1000, use_shmem_fuzz = False, support_shmem_fuzz = False, shmem_fuzz = [], shmem_fuzz_len = 0,
      use_stdin = (fn = None), fsrv_no_unlink = False, no_unlink = False, out_file = fn, out_fd = 5,
      out_fd_data = Some [9, 9, 9, 9, 9], custom_sent = None, runs = 0, ticks = 0, stop_soon = False,
      custom_mutator_list = [], min_length = 1, max_length = 1048576,
      afl_post_process_keep_original = False, bufs_swapped = False, crash_mode = FSRV_RUN_OK,
      stage_name = [], stage_cur = 0, stage_max = 0, stats_update_freq = 1, first_trace = [],
      clean_trace = [], clean_trace_custom = [], var_bytes = [], var_byte_count = 0,
      queued_with_cov = 0, resuming_fuzz = False, afl_cal_fast = False, cmplog_exec = False,
      fsrv_cmplog_binary = False, trim_execs = 0, bytes_trim_in = 0, bytes_trim_out = 0\<rparr>"

lemma run_demo_fields:
  "custom_mutators_count (run_demo fn) = 0" "fs_deny (run_demo fn) = (\<lambda>_. False)"
  "use_shmem_fuzz (run_demo fn) = False" "use_stdin (run_demo fn) = (fn = None)" "out_file (run_demo fn) = fn"
  "out_fd (run_demo fn) = 5" "out_fd_data (run_demo fn) = Some [9, 9, 9, 9, 9]"
  "map_size (run_demo fn) = 64" "trace_bits (run_demo fn) = [5, 1] @ replicate 62 0" "runs (run_demo fn) = 0"
  "uses_asan (run_demo fn) = False" "uses_crash_exitcode (run_demo fn) = False"
  "min_length (run_demo fn) = 1" "max_length (run_demo fn) = 1048576" "custom_mutator_list (run_demo fn) = []"
  by (simp_all add: run_demo_def afl_one.extend_def one_demo_def afl_extras.extend_def extras_demo_def
      afl_tc.extend_def tc_demo_def afl_queue.extend_def queue_demo_def afl_cov.extend_def
      cov_demo_def)

definition ok_reply :: "bytes \<Rightarrow> fsrv_reply" where
  "ok_reply t = \<lparr>ctl_written = 4, pid_read = Some 42, exec_time = 3, status_read = 0, status_after_kill = None,
     trace_written = t, stop_signal = False\<rparr>"

definition demo_world :: "target \<Rightarrow> 's world" where
  "demo_world tgt = \<lparr>w_target = tgt, w_clock_us = (\<lambda>k. of_nat (1000 * k)), w_xxh = (\<lambda>bs. foldr (\<lambda>b h. 31 * h + ucast b) bs 0),
     w_show_stats = (\<lambda>s. s), w_fsrv_start = Inr, w_write = (\<lambda>k n. int n)\<rparr>"

lemma demo_world_whole [simp]: "writes_whole (demo_world tgt)"
  by (simp add: writes_whole_def demo_world_def)

text \<open>
  Without custom mutators \<open>write_to_testcase\<close> hands the target exactly the first bytes of the buffer, as many as the
  length limits allow, on every channel; it returns that length, and the channel stays usable.
\<close>

theorem write_to_testcase_delivers:
  assumes "custom_mutators_count afl = 0" and "channel_ready afl"
    and "c = clamp_len afl fix_run (uint n)" and "nat c \<le> length mem" and "channel_takes afl (nat c)"
    and "writes_whole w"
  shows "\<exists>afl'. write_to_testcase w afl mem n fix_run = Inr (mem, of_int c, afl')
           \<and> target_input afl' = take (nat c) mem \<and> channel_ready afl'"
proof -
  have c: "0 \<le> c" "c < 2 ^ 32"
    using assms(3) uint_lt2p [of n] uint_lt2p [of "min_length afl"] uint_lt2p [of "max_length afl"]
    by (auto simp: clamp_len_def split: if_splits)
  then have u: "unat (of_int c :: u32) = nat c" by (simp add: unat_eq_nat_uint unsigned_of_int take_bit_int_eq_self)
  let ?a = "with_input afl (take (nat c) mem)"
  have "write_to_testcase w afl mem n fix_run = Inr (mem, of_int c, ?a)"
    using assms(1) channel_write [OF assms(2) assms(5) assms(4) assms(6)]
    by (simp add: write_to_testcase_def Let_def u flip: assms(3))
  moreover have "target_input ?a = take (nat c) mem" "channel_ready ?a"
    using assms(2,4,5) by (auto intro!: with_input_delivers with_input_ready)
  ultimately show ?thesis by blast
qed

theorem write_to_testcase_delivers_witness:
  "\<exists>afl'. write_to_testcase (demo_world tgt) (run_demo None) [1, 2, 3] 2 False = Inr ([1, 2, 3], 2, afl')
     \<and> target_input afl' = [1, 2] \<and> channel_ready afl'"
proof -
  have "custom_mutators_count (run_demo None) = 0" "channel_ready (run_demo None)"
    "2 = clamp_len (run_demo None) False (uint (2 :: u32))" "channel_takes (run_demo None) (nat 2)"
    by (simp_all add: channel_ready_def clamp_len_def channel_takes_def run_demo_fields)
  from write_to_testcase_delivers [OF this(1-3) _ this(4) demo_world_whole, of "[1, 2, 3]"] show ?thesis
    by (simp add: numeral_eq_Suc)
qed

text \<open>
  \<open>write_with_gap\<close>, which trimming uses to try a deletion without building the shortened input, has the same effect as
  building it and calling the ordinary writer: the same new state on every channel, so the target reads the input without the gap.
\<close>

theorem write_with_gap_equiv:
  assumes "custom_mutators_count afl = 0" and "channel_ready afl"
    and "unat skip_at + unat skip_len \<le> unat n" and "unat n \<le> length mem"
    and "shorter = take (unat skip_at) mem @ drop (unat skip_at + unat skip_len) (take (unat n) mem)"
    and "channel_takes afl (length shorter)" and "writes_whole w"
  shows "write_with_gap w afl mem n skip_at skip_len = afl_fsrv_write_to_testcase w afl shorter (length shorter)
    \<and> (\<exists>afl'. write_with_gap w afl mem n skip_at skip_len = Inr afl' \<and> target_input afl' = shorter)"
proof -
  have "write_with_gap w afl mem n skip_at skip_len = Inr (with_input afl shorter)"
    using assms by (rule write_with_gap_ok)
  then show ?thesis
    using channel_write [OF assms(2,6) _ assms(7)] with_input_delivers [OF assms(2,6)] by simp
qed

theorem write_with_gap_equiv_witness:
  "\<exists>afl'. write_with_gap (demo_world (\<lambda>_ _ _. ok_reply [])) (run_demo (Some ''i'')) [1, 2, 3, 4, 5, 6] 5 1 2 = Inr afl'
     \<and> target_input afl' = [1, 4, 5]"
proof -
  have "custom_mutators_count (run_demo (Some ''i'')) = 0" "channel_ready (run_demo (Some ''i''))"
    "channel_takes (run_demo (Some ''i'')) (length [1, 4, 5 :: u8])"
    by (simp_all add: channel_ready_def channel_takes_def run_demo_fields)
  note gap = write_with_gap_equiv [OF this(1,2) _ _ _ this(3) demo_world_whole, of 1 2 5 "[1, 2, 3, 4, 5, 6]"]
  show ?thesis by (rule conjunct2 [OF gap]) simp_all
qed

lemma ck_write_loop_prefix:
  assumes "off + n = N" and "N \<le> length buf"
  shows "\<exists>j \<le> N. ck_write_loop wr k buf written off n (take off buf) = take j buf"
  using assms(1)
proof (induction n arbitrary: k written off rule: less_induct)
  case (less n)
  let ?res = "sys_write wr k n"
  have le: "nat ?res \<le> n" by (simp add: sys_write_def)
  have out: "take off buf @ take (nat ?res) (drop off buf) = take (off + nat ?res) buf"
    by (simp add: take_add)
  show ?case
  proof (cases "?res \<noteq> int n \<and> 0 < ?res \<and> written + ?res \<noteq> int n")
    case True
    then have "n - nat ?res < n" using le by linarith
    then show ?thesis
      using less.IH [of "n - nat ?res" "off + nat ?res" "Suc k" "written + ?res"] True le less.prems
      by (subst ck_write_loop.simps) (simp add: Let_def out)
  next
    case False
    then show ?thesis
      using le less.prems by (subst ck_write_loop.simps) (auto simp: Let_def out intro!: exI [of _ "off + nat ?res"])
  qed
qed

text \<open>
  \<open>ck_write\<close> always returns and the file receives a prefix of the data, whatever \<open>write\<close> answers; but the prefix may be
  proper and no answer makes it report an error: after 4 and 2 of 10 bytes it stops with 6, and a failed
  \<open>write\<close> counts as done.
\<close>

theorem ck_write_prefix:
  assumes "n \<le> length buf"
  shows "\<exists>j \<le> n. ck_write wr buf n = take j buf"
  using ck_write_loop_prefix [of 0 n n buf wr 0 0] assms by (auto simp: ck_write_def)

theorem ck_write_prefix_witness:
  "\<exists>j \<le> 10. ck_write (\<lambda>k m. if k = 0 then 4 else 2) [0, 1, 2, 3, 4, 5, 6, 7, 8, 9] 10 = take j [0, 1, 2, 3, 4, 5, 6, 7, 8, 9]
     \<and> j = 6"
proof -
  let ?wr = "\<lambda>k m. if k = (0 :: nat) then 4 else 2"
  let ?buf = "[0, 1, 2, 3, 4, 5, 6, 7, 8, 9] :: bytes"
  have "\<exists>j \<le> 10. ck_write ?wr ?buf 10 = take j ?buf"
    by (rule ck_write_prefix) simp
  moreover have "ck_write ?wr ?buf 10 = take 6 ?buf"
    by (simp add: ck_write_def ck_write_loop.simps sys_write_def numeral_eq_Suc)
  ultimately show ?thesis by (intro exI [of _ 6]) simp
qed

lemma replicate_2: "replicate 2 x = [x, x]"
  by (simp add: numeral_2_eq_2)

lemma fill_map_pad: "length xs \<le> n \<Longrightarrow> fill_map n xs = xs @ replicate (n - length xs) 0"
  by (simp add: fill_map_def)

section \<open>What a run depends on\<close>










end
