(* ===== verification/Afl_Trim.thy ===== *)
theory Afl_Trim
  imports Afl_Exec "HOL-Library.Sublist"
begin

unbundle bit_operations_syntax

text \<open>
  Trimming: \<open>trim_case\<close> of \<open>src/afl-fuzz-run.c\<close> and \<open>trim_case_custom\<close> of \<open>src/afl-fuzz-mutators.c\<close>. The input
  buffer may be the entry's cached test case (\<open>same\<close>), then moving bytes in it changes the cache too. The loops
  are partial functions (\<open>None\<close>: they do not return). The text of the stage label is left out.
\<close>

section \<open>Helpers\<close>

definition trace_cksum :: "'s world \<Rightarrow> 'a afl_run_scheme \<Rightarrow> u64" where
  "trace_cksum w afl = hash64 (w_xxh w) (take (unat (map_size afl)) (trace_bits afl)) HASH_CONST"

definition memmove :: "bytes \<Rightarrow> nat \<Rightarrow> nat \<Rightarrow> nat \<Rightarrow> bytes result" where
  "memmove buf dst src n =
     bind_result (mem_read ''memmove'' buf src n) (\<lambda>data. mem_write ''memmove'' buf dst data)"

definition put_in_buf :: "bool \<Rightarrow> qid \<Rightarrow> bytes \<Rightarrow> 'a afl_run_scheme \<Rightarrow> 'a afl_run_scheme" where
  "put_in_buf same q buf afl = (if same then upd_q (\<lambda>e. e\<lparr>testcase_buf := Some buf\<rparr>) q afl else afl)"

definition stats_now :: "'a afl_run_scheme world \<Rightarrow> u32 \<Rightarrow> 'a afl_run_scheme \<Rightarrow> 'a afl_run_scheme result" where
  "stats_now w n afl =
     (if stats_update_freq afl = 0 then Inl (Not_finite ''modulo zero'')
      else Inr (if n mod stats_update_freq afl = 0 then w_show_stats w afl else afl))"

text \<open>The copy of \<open>map_size\<close> bytes between the trace and a saved trace.\<close>

definition copy_map :: "string \<Rightarrow> 'a afl_run_scheme \<Rightarrow> bytes \<Rightarrow> bytes \<Rightarrow> bytes result" where
  "copy_map what afl src dst =
     bind_result (mem_read what src 0 (unat (map_size afl))) (\<lambda>data. mem_write what dst 0 data)"

section \<open>The built-in trimmer\<close>

abbreviation TRIM_MIN_BYTES :: u32 where "TRIM_MIN_BYTES \<equiv> 4"
abbreviation TRIM_START_STEPS :: u32 where "TRIM_START_STEPS \<equiv> 16"
abbreviation TRIM_END_STEPS :: u32 where "TRIM_END_STEPS \<equiv> 1024"

record trim_vars =
  t_buf :: bytes
  t_len_p2 :: u32
  t_needs_write :: bool
  t_exec :: u32
  t_fault :: fsrv_run_result

definition trim_accept ::
  "bool \<Rightarrow> qid \<Rightarrow> u32 \<Rightarrow> u32 \<Rightarrow> trim_vars \<Rightarrow> 'a afl_run_scheme \<Rightarrow> (trim_vars \<times> 'a afl_run_scheme) result" where
  "trim_accept same q pos avail v afl =
     bind_result (get_q afl q) (\<lambda>e.
     let move_tail = len e - pos - avail;
         n = len e - avail;
         afl = upd_q (\<lambda>e. e\<lparr>len := n\<rparr>) q afl
     in bind_result (memmove (t_buf v) (unat pos) (unat pos + unat avail) (unat move_tail)) (\<lambda>buf.
        let v = v\<lparr>t_len_p2 := ucast (next_pow2 (ucast n)), t_buf := buf\<rparr>;
            afl = put_in_buf same q buf afl
        in if t_needs_write v then Inr (v, afl)
           else bind_result (copy_map ''clean_trace'' afl (trace_bits afl) (clean_trace afl)) (\<lambda>t.
                Inr (v\<lparr>t_needs_write := True\<rparr>, afl\<lparr>clean_trace := t\<rparr>))))"

text \<open>The decision after a run: keep the deletion or go on behind it.\<close>

definition trim_judge ::
  "'a afl_run_scheme world \<Rightarrow> bool \<Rightarrow> qid \<Rightarrow> u32 \<Rightarrow> u32 \<Rightarrow> u32 \<Rightarrow> u64 \<Rightarrow> trim_vars \<Rightarrow> 'a afl_run_scheme
     \<Rightarrow> (bool \<times> u32 \<times> trim_vars \<times> 'a afl_run_scheme) result" where
  "trim_judge w same q remove_len pos avail cksum v afl =
     bind_result
       (if trace_cksum w afl = cksum
        then bind_result (trim_accept same q pos avail v afl) (\<lambda>(v, afl). Inr (pos, v, afl))
        else Inr (pos + remove_len, v, afl)) (\<lambda>(pos, v, afl).
     bind_result (stats_now w (t_exec v) afl) (\<lambda>afl.
     Inr (False, pos, v\<lparr>t_exec := t_exec v + 1\<rparr>, afl\<lparr>stage_cur := stage_cur afl + 1\<rparr>)))"

text \<open>One attempt; the flag says that trimming is abandoned.\<close>

definition trim_step ::
  "'a afl_run_scheme world \<Rightarrow> bool \<Rightarrow> qid \<Rightarrow> u32 \<Rightarrow> u32 \<Rightarrow> trim_vars \<Rightarrow> 'a afl_run_scheme
     \<Rightarrow> (bool \<times> u32 \<times> trim_vars \<times> 'a afl_run_scheme) result" where
  "trim_step w same q remove_len pos v afl =
     bind_result (get_q afl q) (\<lambda>e.
     let avail = min remove_len (len e - pos) in
     bind_result (write_with_gap w afl (t_buf v) (len e) pos avail) (\<lambda>afl.
     bind_result (fuzz_run_target w afl (exec_tmout afl)) (\<lambda>(fault, afl).
     if stop_soon afl \<or> fault = FSRV_RUN_ERROR then Inr (True, pos, v\<lparr>t_fault := fault\<rparr>, afl)
     else trim_judge w same q remove_len pos avail (exec_cksum e) (v\<lparr>t_fault := fault\<rparr>)
            (classify_counts (afl\<lparr>trim_execs := trim_execs afl + 1\<rparr>)))))"

partial_function (option) trim_pass ::
  "'a afl_run_scheme world \<Rightarrow> bool \<Rightarrow> qid \<Rightarrow> u32 \<Rightarrow> u32 \<Rightarrow> trim_vars \<Rightarrow> 'a afl_run_scheme
     \<Rightarrow> (bool \<times> trim_vars \<times> 'a afl_run_scheme) result option" where
  "trim_pass w same q remove_len pos v afl =
     (case get_q afl q of
        Inl err \<Rightarrow> Some (Inl err)
      | Inr e \<Rightarrow>
          if pos < len e then
            (case trim_step w same q remove_len pos v afl of
               Inl err \<Rightarrow> Some (Inl err)
             | Inr (stop, pos, v, afl) \<Rightarrow>
                 if stop then Some (Inr (True, v, afl)) else trim_pass w same q remove_len pos v afl)
          else Some (Inr (False, v, afl)))"

partial_function (option) trim_rounds ::
  "'a afl_run_scheme world \<Rightarrow> bool \<Rightarrow> qid \<Rightarrow> u32 \<Rightarrow> trim_vars \<Rightarrow> 'a afl_run_scheme
     \<Rightarrow> (bool \<times> trim_vars \<times> 'a afl_run_scheme) result option" where
  "trim_rounds w same q remove_len v afl =
     (if remove_len \<ge> max (t_len_p2 v div TRIM_END_STEPS) TRIM_MIN_BYTES then
        (case get_q afl q of
           Inl err \<Rightarrow> Some (Inl err)
         | Inr e \<Rightarrow>
             (case trim_pass w same q remove_len remove_len v
                     (afl\<lparr>stage_cur := 0, stage_max := len e div remove_len\<rparr>) of
                None \<Rightarrow> None
              | Some (Inl err) \<Rightarrow> Some (Inl err)
              | Some (Inr (stop, v, afl)) \<Rightarrow>
                  if stop then Some (Inr (True, v, afl))
                  else trim_rounds w same q (drop_bit 1 remove_len) v afl))
      else Some (Inr (False, v, afl)))"

text \<open>The loop of \<open>write\<close> calls used under \<open>no_unlink\<close>: each call starts again at the beginning of the buffer.\<close>

partial_function (option) rewrite_loop ::
  "(nat \<Rightarrow> nat \<Rightarrow> int) \<Rightarrow> nat \<Rightarrow> bytes \<Rightarrow> nat \<Rightarrow> nat \<Rightarrow> bytes \<Rightarrow> bytes option" where
  "rewrite_loop wr k buf n written out =
     (if written < n then
        let res = sys_write wr k (n - written) in
        rewrite_loop wr (Suc k) buf n (if 0 < res then written + nat res else written) (out @ take (nat res) buf)
      else Some out)"

definition save_trimmed ::
  "'s world \<Rightarrow> queue_entry \<Rightarrow> bytes \<Rightarrow> 'a afl_run_scheme \<Rightarrow> 'a afl_run_scheme result option" where
  "save_trimmed w e buf afl =
     (if no_unlink afl then
        if fs_deny afl (fname e) then Some (Inl (Fatal ''Unable to create''))
        else (case rewrite_loop (w_write w) 0 buf (unat (len e)) 0 [] of
                None \<Rightarrow> None
              | Some data \<Rightarrow> Some (creat_trunc afl (fname e) data))
      else Some (bind_result (mem_read ''in_buf'' buf 0 (unat (len e))) (\<lambda>data.
                 creat_excl (unlink_quiet afl (fname e)) (fname e) (ck_write (w_write w) data (unat (len e))))))"

definition finish_trim ::
  "'s world \<Rightarrow> bool \<Rightarrow> qid \<Rightarrow> u32 \<Rightarrow> trim_vars \<Rightarrow> 'a afl_run_scheme \<Rightarrow> 'a afl_run_scheme result option" where
  "finish_trim w same q orig_len v afl =
     (if \<not> t_needs_write v then Some (Inr afl)
      else case get_q afl q of
        Inl err \<Rightarrow> Some (Inl err)
      | Inr e \<Rightarrow>
          (case save_trimmed w e (t_buf v) afl of
             None \<Rightarrow> None
           | Some r \<Rightarrow> Some (
               bind_result r (\<lambda>afl.
               bind_result (queue_testcase_retake_mem afl q same (t_buf v) (len e) orig_len) (\<lambda>afl.
               bind_result (copy_map ''trace_bits'' afl (clean_trace afl) (trace_bits afl)) (\<lambda>t.
               update_bitmap_score (afl\<lparr>trace_bits := t\<rparr>) q))))))"

definition count_trim_out :: "qid \<Rightarrow> 'a afl_run_scheme \<Rightarrow> 'a afl_run_scheme result" where
  "count_trim_out q afl =
     bind_result (get_q afl q) (\<lambda>e. Inr (afl\<lparr>bytes_trim_out := bytes_trim_out afl + ucast (len e)\<rparr>))"

definition trim_builtin ::
  "'a afl_run_scheme world \<Rightarrow> bool \<Rightarrow> 'a afl_run_scheme \<Rightarrow> qid \<Rightarrow> bytes \<Rightarrow> u32
     \<Rightarrow> (fsrv_run_result \<times> bytes \<times> 'a afl_run_scheme) result option" where
  "trim_builtin w same afl q in_buf orig_len =
     (case get_q afl q of
        Inl err \<Rightarrow> Some (Inl err)
      | Inr e \<Rightarrow>
          if len e < 5 then Some (Inr (FSRV_RUN_OK, in_buf, afl))
          else
            let afl = afl\<lparr>stage_name := ''trim'', bytes_trim_in := bytes_trim_in afl + ucast (len e)\<rparr>;
                len_p2 = ucast (next_pow2 (ucast (len e)));
                remove_len = max (len_p2 div TRIM_START_STEPS) TRIM_MIN_BYTES;
                v = \<lparr>t_buf = in_buf, t_len_p2 = len_p2, t_needs_write = False, t_exec = 0,
                     t_fault = FSRV_RUN_OK\<rparr>
            in case trim_rounds w same q remove_len v afl of
                 None \<Rightarrow> None
               | Some (Inl err) \<Rightarrow> Some (Inl err)
               | Some (Inr (stop, v, afl)) \<Rightarrow>
                   (case (if stop then Some (Inr afl) else finish_trim w same q orig_len v afl) of
                      None \<Rightarrow> None
                    | Some r \<Rightarrow> Some (bind_result (bind_result r (count_trim_out q)) (\<lambda>afl.
                                Inr (t_fault v, t_buf v, afl)))))"

section \<open>Trimming by a custom mutator\<close>

definition get_mutator :: "'a afl_run_scheme \<Rightarrow> nat \<Rightarrow> custom_mutator result" where
  "get_mutator afl i = get_at ''custom_mutator_list'' (custom_mutator_list afl) i"

definition set_mutator_data :: "nat \<Rightarrow> nat \<Rightarrow> 'a afl_run_scheme \<Rightarrow> 'a afl_run_scheme" where
  "set_mutator_data i d afl =
     afl\<lparr>custom_mutator_list := (custom_mutator_list afl)[i := (custom_mutator_list afl ! i)\<lparr>cm_data := d\<rparr>]\<rparr>"

definition need_hook :: "string \<Rightarrow> 'f option \<Rightarrow> 'f result" where
  "need_hook what f = (case f of None \<Rightarrow> Inl (Out_of_bounds what) | Some f \<Rightarrow> Inr f)"

record ctrim_vars =
  c_out :: "bytes option"
  c_exec :: u32
  c_fault :: fsrv_run_result

text \<open>The run of one proposal: \<open>None\<close> when the proposal is empty or post-processed away.\<close>

definition custom_trim_run ::
  "'s world \<Rightarrow> bytes \<Rightarrow> 'a afl_run_scheme
     \<Rightarrow> (bytes \<times> u32 \<times> fsrv_run_result option \<times> 'a afl_run_scheme) result" where
  "custom_trim_run w retbuf afl =
     (if retbuf = [] then Inr (retbuf, 0, None, afl\<lparr>trim_execs := trim_execs afl + 1\<rparr>)
      else bind_result (write_to_testcase w afl retbuf (of_nat (length retbuf)) False) (\<lambda>(retbuf, retlen, afl).
           if retlen = 0 then Inr (retbuf, 0, None, afl\<lparr>trim_execs := trim_execs afl + 1\<rparr>)
           else bind_result (fuzz_run_target w afl (exec_tmout afl)) (\<lambda>(fault, afl).
                Inr (retbuf, retlen, Some fault, afl\<lparr>trim_execs := trim_execs afl + 1\<rparr>))))"

definition custom_trim_verdict ::
  "'a afl_run_scheme world \<Rightarrow> nat \<Rightarrow> bool \<Rightarrow> bytes \<Rightarrow> u32 \<Rightarrow> ctrim_vars \<Rightarrow> 'a afl_run_scheme
     \<Rightarrow> (ctrim_vars \<times> 'a afl_run_scheme) result" where
  "custom_trim_verdict w i good retbuf retlen v afl =
     bind_result (get_mutator afl i) (\<lambda>el.
     bind_result (need_hook ''afl_custom_post_trim'' (cm_post_trim el)) (\<lambda>post.
     if good then
       bind_result (if c_out v = None
                    then bind_result (copy_map ''clean_trace_custom'' afl (trace_bits afl) (clean_trace_custom afl))
                           (\<lambda>t. Inr (afl\<lparr>clean_trace_custom := t\<rparr>))
                    else Inr afl) (\<lambda>afl.
       bind_result (mem_read ''retbuf'' retbuf 0 (unat retlen)) (\<lambda>data.
       case post (cm_data el) True of (d, r) \<Rightarrow>
         Inr (v\<lparr>c_out := Some data\<rparr>, (set_mutator_data i d afl)\<lparr>stage_cur := of_int r\<rparr>)))
     else
       case post (cm_data el) False of (d, r) \<Rightarrow>
         if r < 0 then Inl (Fatal ''Error ret in custom_post_trim'')
         else Inr (v, (set_mutator_data i d afl)\<lparr>stage_cur := of_int r\<rparr>)))"

definition custom_trim_step ::
  "'a afl_run_scheme world \<Rightarrow> qid \<Rightarrow> nat \<Rightarrow> ctrim_vars \<Rightarrow> 'a afl_run_scheme
     \<Rightarrow> (bool \<times> ctrim_vars \<times> 'a afl_run_scheme) result" where
  "custom_trim_step w q i v afl =
     bind_result (get_mutator afl i) (\<lambda>el.
     bind_result (need_hook ''afl_custom_trim'' (cm_trim el)) (\<lambda>trim.
     case trim (cm_data el) of (d, out) \<Rightarrow>
       (case out of
          None \<Rightarrow> Inl (Fatal ''custom_trim failed'')
        | Some retbuf \<Rightarrow>
            bind_result (custom_trim_run w retbuf (set_mutator_data i d afl)) (\<lambda>(retbuf, retlen, fault, afl).
            let v = (case fault of None \<Rightarrow> v | Some f \<Rightarrow> v\<lparr>c_fault := f\<rparr>) in
            if fault \<noteq> None \<and> (stop_soon afl \<or> fault = Some FSRV_RUN_ERROR) then Inr (True, v, afl)
            else
              let afl = (if fault \<noteq> None then classify_counts afl else afl) in
              bind_result (get_q afl q) (\<lambda>e.
              bind_result (custom_trim_verdict w i
                  (fault \<noteq> None \<and> trace_cksum w afl = exec_cksum e) retbuf retlen v afl) (\<lambda>(v, afl).
              bind_result (stats_now w (c_exec v) afl) (\<lambda>afl.
              Inr (False, v\<lparr>c_exec := c_exec v + 1\<rparr>, afl))))))))"

partial_function (option) custom_trim_loop ::
  "'a afl_run_scheme world \<Rightarrow> qid \<Rightarrow> nat \<Rightarrow> ctrim_vars \<Rightarrow> 'a afl_run_scheme
     \<Rightarrow> (bool \<times> ctrim_vars \<times> 'a afl_run_scheme) result option" where
  "custom_trim_loop w q i v afl =
     (if stage_cur afl < stage_max afl then
        (case custom_trim_step w q i v afl of
           Inl err \<Rightarrow> Some (Inl err)
         | Inr (stop, v, afl) \<Rightarrow> if stop then Some (Inr (True, v, afl)) else custom_trim_loop w q i v afl)
      else Some (Inr (False, v, afl)))"

definition custom_trim_save :: "'s world \<Rightarrow> qid \<Rightarrow> bytes \<Rightarrow> 'a afl_run_scheme \<Rightarrow> 'a afl_run_scheme result" where
  "custom_trim_save w q data afl =
     bind_result (get_q afl q) (\<lambda>e.
     bind_result (creat_excl (unlink_quiet afl (fname e)) (fname e) (ck_write (w_write w) data (length data))) (\<lambda>afl.
     let afl = upd_q (\<lambda>e. e\<lparr>len := of_nat (length data)\<rparr>) q afl in
     bind_result (copy_map ''trace_bits'' afl (clean_trace_custom afl) (trace_bits afl)) (\<lambda>t.
     update_bitmap_score (afl\<lparr>trace_bits := t\<rparr>) q)))"

text \<open>The test \<open>unlikely(retval) < 0\<close> compares 0 or 1 with zero, so a negative answer of \<open>afl_custom_init_trim\<close> is not fatal
  but becomes a huge number of steps.\<close>

definition trim_case_custom ::
  "'a afl_run_scheme world \<Rightarrow> 'a afl_run_scheme \<Rightarrow> qid \<Rightarrow> bytes \<Rightarrow> nat
     \<Rightarrow> (fsrv_run_result \<times> 'a afl_run_scheme) result option" where
  "trim_case_custom w afl q in_buf i =
     (case bind_result (get_q afl q) (\<lambda>e.
           bind_result (get_mutator afl i) (\<lambda>el.
           bind_result (need_hook ''afl_custom_init_trim'' (cm_init_trim el)) (\<lambda>init.
           bind_result (mem_read ''in_buf'' in_buf 0 (unat (len e))) (\<lambda>data.
           case init (cm_data el) data of (d, retval) \<Rightarrow>
             Inr ((set_mutator_data i d afl)\<lparr>stage_name := ''ptrim'', stage_cur := 0, stage_max := of_int retval,
                    bytes_trim_in := bytes_trim_in afl + ucast (len e)\<rparr>))))) of
        Inl err \<Rightarrow> Some (Inl err)
      | Inr afl \<Rightarrow>
          (case custom_trim_loop w q i \<lparr>c_out = None, c_exec = 0, c_fault = FSRV_RUN_OK\<rparr> afl of
             None \<Rightarrow> None
           | Some (Inl err) \<Rightarrow> Some (Inl err)
           | Some (Inr (stop, v, afl)) \<Rightarrow> Some (
               bind_result (case c_out v of
                              None \<Rightarrow> Inr afl
                            | Some data \<Rightarrow> if stop then Inr afl else custom_trim_save w q data afl) (\<lambda>afl.
               bind_result (count_trim_out q afl) (\<lambda>afl. Inr (c_fault v, afl))))))"

fun trim_by_mutators ::
  "'a afl_run_scheme world \<Rightarrow> qid \<Rightarrow> bytes \<Rightarrow> nat list \<Rightarrow> fsrv_run_result option \<Rightarrow> 'a afl_run_scheme
     \<Rightarrow> (fsrv_run_result option \<times> 'a afl_run_scheme) result option" where
  "trim_by_mutators w q in_buf [] trimmed afl = Some (Inr (trimmed, afl))"
| "trim_by_mutators w q in_buf (i # is) trimmed afl =
     (case get_mutator afl i of
        Inl err \<Rightarrow> Some (Inl err)
      | Inr el \<Rightarrow>
          if cm_trim el = None then trim_by_mutators w q in_buf is trimmed afl
          else (case trim_case_custom w afl q in_buf i of
                  None \<Rightarrow> None
                | Some (Inl err) \<Rightarrow> Some (Inl err)
                | Some (Inr (fault, afl)) \<Rightarrow> trim_by_mutators w q in_buf is (Some fault) afl))"

definition trim_case ::
  "'a afl_run_scheme world \<Rightarrow> bool \<Rightarrow> 'a afl_run_scheme \<Rightarrow> qid \<Rightarrow> bytes
     \<Rightarrow> (fsrv_run_result \<times> bytes \<times> 'a afl_run_scheme) result option" where
  "trim_case w same afl q in_buf =
     (case get_q afl q of
        Inl err \<Rightarrow> Some (Inl err)
      | Inr e \<Rightarrow>
          if custom_mutators_count afl = 0 then trim_builtin w same afl q in_buf (len e)
          else (case trim_by_mutators w q in_buf [0..<length (custom_mutator_list afl)] None afl of
                  None \<Rightarrow> None
                | Some (Inl err) \<Rightarrow> Some (Inl err)
                | Some (Inr (trimmed, afl)) \<Rightarrow>
                    (case bind_result (get_q afl q) (\<lambda>e'.
                            if len e \<noteq> len e' \<or> trimmed \<noteq> None then queue_testcase_retake afl q (len e)
                            else Inr afl) of
                       Inl err \<Rightarrow> Some (Inl err)
                     | Inr afl \<Rightarrow>
                         (case trimmed of
                            Some fault \<Rightarrow> Some (Inr (fault, in_buf, afl))
                          | None \<Rightarrow> trim_builtin w same afl q in_buf (len e)))))"

section \<open>Invariant of the trimmer\<close>

text \<open>The checksum of a run on \<open>input\<close>, for a target whose answer depends on the input only.\<close>

definition input_cksum :: "'s world \<Rightarrow> (bytes \<Rightarrow> fsrv_reply) \<Rightarrow> nat \<Rightarrow> bytes \<Rightarrow> u64" where
  "input_cksum w T m input = hash64 (w_xxh w) (map class8 (fill_map m (trace_written (T input)))) HASH_CONST"

definition trim_env :: "u32 \<Rightarrow> 'a afl_run_scheme \<Rightarrow> bool" where
  "trim_env m afl \<longleftrightarrow>
     map_size afl = m \<and> length (trace_bits afl) = unat m \<and> length (clean_trace afl) = unat m
     \<and> 8 dvd unat m \<and> custom_mutators_count afl = 0 \<and> \<not> no_unlink afl \<and> channel_ready afl"

lemma trim_env_run:
  assumes "fuzz_run_target w afl timeout = Inr (res, afl')" and "trim_env m afl"
  shows "trim_env m afl'" and "queue_buf afl' = queue_buf afl"
proof -
  note same = idle_same [OF conjunct1 [OF run_target_idle [OF assms(1)]]]
  show "queue_buf afl' = queue_buf afl" by (rule same) (simp add: idle_def)
  have "map_size afl' = map_size afl" "clean_trace afl' = clean_trace afl"
    "custom_mutators_count afl' = custom_mutators_count afl" "channel_ready afl' = channel_ready afl"
    "no_unlink afl' = no_unlink afl"
    by (rule same; simp add: idle_def channel_ready_def)+
  then show "trim_env m afl'"
    using assms(2) run_target_idle [OF assms(1)] by (simp add: trim_env_def)
qed

lemma trim_env_stats:
  assumes "stats_keep w"
  shows "trim_env m (w_show_stats w afl) = trim_env m afl"
    and "queue_buf (w_show_stats w afl) = queue_buf afl" and "no_unlink (w_show_stats w afl) = no_unlink afl"
  by (rule stats_same [OF assms]; simp add: stats_free_def trim_env_def channel_ready_def)+

lemma trim_env_upd [simp]:
  "trim_env m (upd_q f q afl) = trim_env m afl" "trim_env m (afl\<lparr>stage_cur := c\<rparr>) = trim_env m afl"
  "trim_env m (afl\<lparr>trim_execs := x\<rparr>) = trim_env m afl" "trim_env m (afl\<lparr>stage_max := c\<rparr>) = trim_env m afl"
  "trim_env m (put_in_buf same q buf afl) = trim_env m afl"
  "trim_env m (afl\<lparr>stage_name := n, bytes_trim_in := b\<rparr>) = trim_env m afl"
  "length t = unat m \<Longrightarrow> trim_env m (afl\<lparr>clean_trace := t\<rparr>) \<longleftrightarrow> trim_env m (afl\<lparr>clean_trace := replicate (unat m) 0\<rparr>)"
  by (simp_all add: trim_env_def channel_ready_def upd_q_def put_in_buf_def)

lemma trim_env_classify:
  assumes "trim_env m afl"
  shows "classify_counts afl = afl\<lparr>trace_bits := map class8 (trace_bits afl)\<rparr>"
proof -
  have "8 * unat (drop_bit 3 m) = unat m"
    using assms by (simp add: trim_env_def drop_bit_eq_div unat_div)
  then show ?thesis
    using assms classify64.loop_map [of "unat (drop_bit 3 m)" "trace_bits afl"]
    by (simp add: classify_counts_def trim_env_def)
qed

lemma trim_env_trace [simp]:
  "length t = unat m \<Longrightarrow> trim_env m afl \<Longrightarrow> trim_env m (afl\<lparr>trace_bits := t\<rparr>)"
  by (simp add: trim_env_def channel_ready_def)

lemma trim_env_input:
  "trim_env m afl \<Longrightarrow> length data \<le> unat MAX_FILE \<Longrightarrow> trim_env m (with_input afl data)"
  using with_input_ready [of afl data] by (simp add: trim_env_def channel_takes_def) (simp add: with_input_def)

definition cut_out :: "bytes \<Rightarrow> nat \<Rightarrow> nat \<Rightarrow> bytes" where
  "cut_out xs pos n = take pos xs @ drop (pos + n) xs"

lemma cut_out_subseq: "subseq (cut_out xs pos n) xs"
proof -
  have "subseq (drop (pos + n) xs) (drop pos xs)"
    by (metis add.commute drop_drop suffix_drop suffix_imp_subseq)
  then have "subseq (take pos xs @ drop (pos + n) xs) (take pos xs @ drop pos xs)"
    by (intro list_emb_append_mono) simp_all
  then show ?thesis by (simp add: cut_out_def)
qed

text \<open>One attempt up to the decision.\<close>

lemma trim_attempt:
  assumes env: "trim_env m afl" and det: "\<And>k input tmo. w_target w k input tmo = T input"
    and len: "unat pos + unat avail \<le> unat n" "unat n \<le> length buf" "unat n \<le> unat MAX_FILE"
    and run: "write_with_gap w afl buf n pos avail = Inr a1" "fuzz_run_target w a1 tmo = Inr (fault, a2)"
    and go: "\<not> stop_soon a2" and a3: "a3 = classify_counts (a2\<lparr>trim_execs := x\<rparr>)" and whole: "writes_whole w"
  shows "trim_env m a3" and "queue_buf a3 = queue_buf afl"
    and "trace_cksum w a3 = input_cksum w T (unat m) (cut_out (take (unat n) buf) (unat pos) (unat avail))"
proof -
  let ?cut = "cut_out (take (unat n) buf) (unat pos) (unat avail)"
  have cut: "?cut = take (unat pos) buf @ drop (unat pos + unat avail) (take (unat n) buf)"
    using len(1) by (simp add: cut_out_def min_absorb1)
  have short: "length ?cut \<le> unat MAX_FILE" using len by (simp add: cut_out_def)
  have ready: "custom_mutators_count afl = 0" "channel_ready afl" using env by (simp_all add: trim_env_def)
  have takes: "channel_takes afl (length ?cut)" using short by (simp add: channel_takes_def)
  have a1: "a1 = with_input afl ?cut"
    using write_with_gap_ok [OF ready len(1,2) cut takes whole] run(1) by simp
  have env1: "trim_env m a1" using trim_env_input [OF env short] a1 by simp
  note env2 = trim_env_run [OF run(2) env1]
  have tr: "trace_bits a2 = fill_map (unat m) (trace_written (T ?cut))"
    using run_target_trace [OF run(2) go] env1 with_input_delivers [OF ready(2) takes] a1
    by (simp add: det trim_env_def)
  have c: "a3 = a2\<lparr>trim_execs := x, trace_bits := map class8 (trace_bits a2)\<rparr>"
    using trim_env_classify [of m "a2\<lparr>trim_execs := x\<rparr>"] env2(1) by (simp add: a3)
  have l2: "length (trace_bits a2) = unat m" "map_size a2 = m" using env2(1) by (simp_all add: trim_env_def)
  show "trim_env m a3" unfolding c using env2(1) l2 by (intro trim_env_trace) simp_all
  show "queue_buf a3 = queue_buf afl" using env2(2) by (simp add: c a1)
  show "trace_cksum w a3 = input_cksum w T (unat m) ?cut"
    using l2 by (simp add: c trace_cksum_def input_cksum_def tr)
qed

lemma memmove_cut:
  assumes "pos + avail \<le> n" and "n \<le> length buf"
  shows "\<exists>b. memmove buf pos (pos + avail) (n - (pos + avail)) = Inr b \<and> length b = length buf
    \<and> take (n - avail) b = cut_out (take n buf) pos avail"
proof -
  have "take (n - (pos + avail)) (drop (pos + avail) buf) = drop (pos + avail) (take n buf)"
    using assms by (simp add: drop_take)
  then show ?thesis
    using assms by (auto simp: memmove_def mem_read_def mem_write_def cut_out_def min_absorb1)
qed

lemma swap_len_buf: "e\<lparr>testcase_buf := t, len := n\<rparr> = e\<lparr>len := n, testcase_buf := t\<rparr>" for e :: queue_entry
  by (rule queue_entry.equality) simp_all

definition trim_inv ::
  "'s world \<Rightarrow> (bytes \<Rightarrow> fsrv_reply) \<Rightarrow> u32 \<Rightarrow> qid \<Rightarrow> queue_entry \<Rightarrow> bytes \<Rightarrow> trim_vars \<Rightarrow> 'a afl_run_scheme \<Rightarrow> bool" where
  "trim_inv w T m q e0 buf0 v afl \<longleftrightarrow>
     trim_env m afl \<and> q < length (queue_buf afl) \<and> length (t_buf v) = length buf0
     \<and> (\<exists>n t. queue_buf afl ! q = e0\<lparr>len := n, testcase_buf := t\<rparr> \<and> unat n \<le> unat (len e0)
          \<and> subseq (take (unat n) (t_buf v)) (take (unat (len e0)) buf0)
          \<and> (if t_needs_write v then input_cksum w T (unat m) (take (unat n) (t_buf v)) = exec_cksum e0
             else n = len e0 \<and> t_buf v = buf0))"

lemma trim_inv_cong:
  "trim_inv w T m q e0 buf0 v afl \<Longrightarrow> trim_env m afl' \<Longrightarrow> queue_buf afl' = queue_buf afl \<Longrightarrow>
     t_buf v' = t_buf v \<Longrightarrow> t_needs_write v' = t_needs_write v \<Longrightarrow> trim_inv w T m q e0 buf0 v' afl'"
  by (simp only: trim_inv_def)

lemma trim_accept_inv:
  assumes env: "trim_env m afl" and q: "q < length (queue_buf afl)" "queue_buf afl ! q = e0\<lparr>len := n, testcase_buf := t\<rparr>"
    and len: "unat pos + unat avail \<le> unat n" "unat n \<le> length (t_buf v)" "unat n \<le> unat (len e0)"
    and buf: "length (t_buf v) = length buf0" "subseq (take (unat n) (t_buf v)) (take (unat (len e0)) buf0)"
    and good: "input_cksum w T (unat m) (cut_out (take (unat n) (t_buf v)) (unat pos) (unat avail)) = exec_cksum e0"
    and acc: "trim_accept same q pos avail v afl = Inr (v', afl')"
  shows "trim_inv w T m q e0 buf0 v' afl' \<and> len (queue_buf afl' ! q) = n - avail"
proof -
  have le: "avail \<le> n" "pos \<le> n" "avail \<le> n - pos" using len(1) by (simp_all add: word_le_nat_alt unat_sub)
  then have mt: "unat (n - pos - avail) = unat n - (unat pos + unat avail)" and na: "unat (n - avail) = unat n - unat avail"
    by (simp_all add: unat_sub)
  obtain b where b: "memmove (t_buf v) (unat pos) (unat pos + unat avail) (unat n - (unat pos + unat avail)) = Inr b"
    "length b = length (t_buf v)"
    "take (unat n - unat avail) b = cut_out (take (unat n) (t_buf v)) (unat pos) (unat avail)"
    using memmove_cut [OF len(1,2)] by blast
  let ?v = "v\<lparr>t_len_p2 := ucast (next_pow2 (ucast (n - avail))), t_buf := b\<rparr>"
  let ?a = "put_in_buf same q b (upd_q (\<lambda>e. e\<lparr>len := n - avail\<rparr>) q afl)"
  have env': "trim_env m ?a" using env by simp
  have maps: "map_size ?a = m" "length (trace_bits ?a) = unat m" "length (clean_trace ?a) = unat m"
    using env' by (simp_all add: trim_env_def)
  have step: "v' = ?v\<lparr>t_needs_write := True\<rparr> \<and> (\<exists>c. length c = unat m \<and> afl' = ?a\<lparr>clean_trace := c\<rparr>)"
  proof (cases "t_needs_write v")
    case True
    then have "v' = ?v" "afl' = ?a"
      using acc q by (auto simp: trim_accept_def get_q_def Let_def mt b(1))
    moreover have "?v = ?v\<lparr>t_needs_write := True\<rparr>" using True by simp
    moreover have "?a = ?a\<lparr>clean_trace := clean_trace ?a\<rparr>" by simp
    ultimately show ?thesis using maps(3) by metis
  next
    case False
    then have "bind_result (copy_map ''clean_trace'' ?a (trace_bits ?a) (clean_trace ?a))
        (\<lambda>t. Inr (?v\<lparr>t_needs_write := True\<rparr>, ?a\<lparr>clean_trace := t\<rparr>)) = Inr (v', afl')"
      using acc q by (simp add: trim_accept_def get_q_def Let_def mt b(1))
    then show ?thesis using maps by (auto simp: bind_result_Inr_iff copy_map_def mem_read_def mem_write_def split: if_splits)
  qed
  then obtain c where c: "v' = ?v\<lparr>t_needs_write := True\<rparr>" "length c = unat m" "afl' = ?a\<lparr>clean_trace := c\<rparr>" by blast
  have "trim_env m afl'" using env' c(2) unfolding c(3) by (simp add: trim_env_def channel_ready_def)
  moreover have "q < length (queue_buf afl')" using q(1) by (simp add: c(3) put_in_buf_def)
  moreover obtain t' where e: "queue_buf afl' ! q = e0\<lparr>len := n - avail, testcase_buf := t'\<rparr>"
    using q by (cases same) (auto simp: c(3) put_in_buf_def swap_len_buf)
  moreover have "subseq (take (unat (n - avail)) b) (take (unat (len e0)) buf0)"
    using subseq_order.trans [OF cut_out_subseq buf(2)] by (simp add: na b(3))
  ultimately show ?thesis
    using b(2) buf(1) good len(3)
    by (auto simp: trim_inv_def c(1) na b(3) intro!: exI [of _ "n - avail"] exI [of _ t'])
qed

lemma trim_step_inv:
  assumes inv: "trim_inv w T m q e0 buf0 v afl" and det: "\<And>k input tmo. w_target w k input tmo = T input"
    and stats: "stats_keep w" and len0: "unat (len e0) \<le> length buf0" "unat (len e0) \<le> unat MAX_FILE"
    and whole: "writes_whole w" and pos: "pos < len (queue_buf afl ! q)"
    and step: "trim_step w same q remove_len pos v afl = Inr (stop, pos', v', afl')"
  shows "if stop then stop_soon afl' \<or> t_fault v' = FSRV_RUN_ERROR else trim_inv w T m q e0 buf0 v' afl'"
proof -
  obtain n t where e: "queue_buf afl ! q = e0\<lparr>len := n, testcase_buf := t\<rparr>"
    and n: "unat n \<le> unat (len e0)" and sub: "subseq (take (unat n) (t_buf v)) (take (unat (len e0)) buf0)"
    and ck: "if t_needs_write v then input_cksum w T (unat m) (take (unat n) (t_buf v)) = exec_cksum e0
             else n = len e0 \<and> t_buf v = buf0"
    using inv by (auto simp: trim_inv_def)
  have env: "trim_env m afl" and q: "q < length (queue_buf afl)" and lb: "length (t_buf v) = length buf0"
    using inv by (simp_all add: trim_inv_def)
  have get: "get_q afl q = Inr (e0\<lparr>len := n, testcase_buf := t\<rparr>)" using q e by (simp add: get_q_def)
  define avail where "avail = min remove_len (n - pos)"
  have "pos < n" using pos e by simp
  then have "unat (n - pos) = unat n - unat pos" by (simp add: unat_sub less_imp_le)
  then have av: "unat pos + unat avail \<le> unat n"
    using \<open>pos < n\<close> by (auto simp: avail_def min_def word_less_nat_alt word_le_nat_alt)
  have nb: "unat n \<le> length (t_buf v)" "unat n \<le> unat MAX_FILE" using n len0 lb by simp_all
  from step obtain a1 fault a2 where
    a1: "write_with_gap w afl (t_buf v) n pos avail = Inr a1"
    and a2: "fuzz_run_target w a1 (exec_tmout a1) = Inr (fault, a2)"
    and rest: "(if stop_soon a2 \<or> fault = FSRV_RUN_ERROR then Inr (True, pos, v\<lparr>t_fault := fault\<rparr>, a2)
      else trim_judge w same q remove_len pos avail (exec_cksum e0) (v\<lparr>t_fault := fault\<rparr>)
        (classify_counts (a2\<lparr>trim_execs := trim_execs a2 + 1\<rparr>))) = Inr (stop, pos', v', afl')"
    unfolding trim_step_def get by (auto simp: bind_result_Inr_iff Let_def simp flip: avail_def cong: if_cong)
  show ?thesis
  proof (cases "stop_soon a2 \<or> fault = FSRV_RUN_ERROR")
    case True
    with rest show ?thesis by auto
  next
    case False
    let ?v = "v\<lparr>t_fault := fault\<rparr>"
    define a3 where "a3 = classify_counts (a2\<lparr>trim_execs := trim_execs a2 + 1\<rparr>)"
    have "\<not> stop_soon a2" using False by simp
    note att = trim_attempt [OF env det av nb a1 a2 this a3_def whole]
    from rest False obtain p4 v4 a4 a5 where
      dec: "(if trace_cksum w a3 = exec_cksum e0
           then bind_result (trim_accept same q pos avail ?v a3) (\<lambda>(v, afl). Inr (pos, v, afl))
           else Inr (pos + remove_len, ?v, a3)) = Inr (p4, v4, a4)"
      and st: "stats_now w (t_exec v4) a4 = Inr a5"
      and fin: "\<not> stop" "v' = v4\<lparr>t_exec := t_exec v4 + 1\<rparr>" "afl' = a5\<lparr>stage_cur := stage_cur a5 + 1\<rparr>"
      unfolding trim_judge_def a3_def [symmetric] by (auto simp: bind_result_Inr_iff)
    have q3: "q < length (queue_buf a3)" and e3: "queue_buf a3 ! q = e0\<lparr>len := n, testcase_buf := t\<rparr>"
      using q e by (simp_all add: att(2))
    have inv4: "trim_inv w T m q e0 buf0 v4 a4"
    proof (cases "trace_cksum w a3 = exec_cksum e0")
      case True
      then have acc: "trim_accept same q pos avail ?v a3 = Inr (v4, a4)"
        using dec by (auto simp: bind_result_Inr_iff)
      have good: "input_cksum w T (unat m) (cut_out (take (unat n) (t_buf ?v)) (unat pos) (unat avail)) = exec_cksum e0"
        using att(3) True by simp
      have "unat n \<le> length (t_buf ?v)" "length (t_buf ?v) = length buf0"
        "subseq (take (unat n) (t_buf ?v)) (take (unat (len e0)) buf0)"
        using nb(1) lb sub by simp_all
      then show ?thesis by (rule conjunct1 [OF trim_accept_inv [OF att(1) q3 e3 av _ n _ _ good acc]])
    next
      case False
      then have "v4 = ?v" "a4 = a3" using dec by simp_all
      moreover have "trim_inv w T m q e0 buf0 ?v a3"
        unfolding trim_inv_def
        by (intro conjI exI [of _ n] exI [of _ t] att(1) q3 e3 n) (use lb sub ck in simp_all)
      ultimately show ?thesis by simp
    qed
    have "a5 = a4 \<or> a5 = w_show_stats w a4" using st by (auto simp: stats_now_def split: if_splits)
    then have "trim_env m a5" "queue_buf a5 = queue_buf a4"
      using trim_env_stats [OF stats] inv4 by (auto simp: trim_inv_def)
    then have "trim_inv w T m q e0 buf0 v' afl'" unfolding fin by (intro trim_inv_cong [OF inv4]) simp_all
    then show ?thesis using fin(1) by simp
  qed
qed

text \<open>What a loop of the trimmer leaves: the invariant, unless it was abandoned.\<close>

definition trim_result ::
  "'s world \<Rightarrow> (bytes \<Rightarrow> fsrv_reply) \<Rightarrow> u32 \<Rightarrow> qid \<Rightarrow> queue_entry \<Rightarrow> bytes
     \<Rightarrow> (bool \<times> trim_vars \<times> 'a afl_run_scheme) result \<Rightarrow> bool" where
  "trim_result w T m q e0 buf0 r \<longleftrightarrow>
     (case r of
        Inl err \<Rightarrow> True
      | Inr (stop, v, afl) \<Rightarrow>
          if stop then stop_soon afl \<or> t_fault v = FSRV_RUN_ERROR else trim_inv w T m q e0 buf0 v afl)"

lemma trim_result_simps [simp]:
  "trim_result w T m q e0 buf0 (Inl err)"
  "trim_result w T m q e0 buf0 (Inr (True, v, afl)) \<longleftrightarrow> stop_soon afl \<or> t_fault v = FSRV_RUN_ERROR"
  "trim_result w T m q e0 buf0 (Inr (False, v, afl)) \<longleftrightarrow> trim_inv w T m q e0 buf0 v afl"
  by (simp_all add: trim_result_def)

lemma trim_pass_inv:
  assumes det: "\<And>k input tmo. w_target w k input tmo = T input" and stats: "stats_keep w"
    and len0: "unat (len e0) \<le> length buf0" "unat (len e0) \<le> unat MAX_FILE" and whole: "writes_whole w"
    and inv: "trim_inv w T m q e0 buf0 v afl" and ret: "trim_pass w same q remove_len pos v afl = Some r"
  shows "trim_result w T m q e0 buf0 r"
proof -
  let ?P = "\<lambda>w' same q' remove_len pos v afl r. w' = w \<longrightarrow> q' = q \<longrightarrow> trim_inv w T m q e0 buf0 v afl \<longrightarrow>
    trim_result w T m q e0 buf0 r"
  have "?P w same q remove_len pos v afl r"
    apply (rule trim_pass.raw_induct [where P = ?P, OF _ ret])
    subgoal premises prems for f w' same q' remove_len pos v afl r
    proof (intro impI)
      assume [simp]: "w' = w" "q' = q" and inv: "trim_inv w T m q e0 buf0 v afl"
      have get: "get_q afl q = Inr (queue_buf afl ! q)" using inv by (simp add: get_q_def trim_inv_def)
      show "trim_result w T m q e0 buf0 r"
      proof (cases "pos < len (queue_buf afl ! q)")
        case pos: True
        show ?thesis
        proof (cases "trim_step w same q remove_len pos v afl")
          case (Inl err)
          then show ?thesis using prems(2) pos get by auto
        next
          case step: (Inr res)
          obtain stop pos' v' afl' where res: "res = (stop, pos', v', afl')" by (cases res)
          note si = trim_step_inv [OF inv det stats len0 whole pos step [unfolded res]]
          show ?thesis
          proof (cases stop)
            case True
            then have "r = Inr (True, v', afl')" using prems(2) pos get step res by simp
            then show ?thesis using si True by simp
          next
            case False
            then have "f w same q remove_len pos' v' afl' = Some r" using prems(2) pos get step res by simp
            from prems(1) [OF this] show ?thesis using si False by simp
          qed
        qed
      next
        case False
        then have "r = Inr (False, v, afl)" using prems(2) get by simp
        then show ?thesis using inv by simp
      qed
    qed
    done
  then show ?thesis using inv by simp
qed

lemma trim_rounds_inv:
  assumes det: "\<And>k input tmo. w_target w k input tmo = T input" and stats: "stats_keep w"
    and len0: "unat (len e0) \<le> length buf0" "unat (len e0) \<le> unat MAX_FILE" and whole: "writes_whole w"
    and inv: "trim_inv w T m q e0 buf0 v afl" and ret: "trim_rounds w same q remove_len v afl = Some r"
  shows "trim_result w T m q e0 buf0 r"
proof -
  let ?P = "\<lambda>w' same q' remove_len v afl r. w' = w \<longrightarrow> q' = q \<longrightarrow> trim_inv w T m q e0 buf0 v afl \<longrightarrow>
    trim_result w T m q e0 buf0 r"
  have "?P w same q remove_len v afl r"
    apply (rule trim_rounds.raw_induct [where P = ?P, OF _ ret])
    subgoal premises prems for f w' same q' remove_len v afl r
    proof (intro impI)
      assume [simp]: "w' = w" "q' = q" and inv: "trim_inv w T m q e0 buf0 v afl"
      let ?a = "afl\<lparr>stage_cur := 0, stage_max := len (queue_buf afl ! q) div remove_len\<rparr>"
      have get: "get_q afl q = Inr (queue_buf afl ! q)" using inv by (simp add: get_q_def trim_inv_def)
      have inva: "trim_inv w T m q e0 buf0 v ?a"
        using inv by (intro trim_inv_cong [OF inv]) (simp_all add: trim_inv_def)
      show "trim_result w T m q e0 buf0 r"
      proof (cases "max (t_len_p2 v div TRIM_END_STEPS) TRIM_MIN_BYTES \<le> remove_len")
        case more: True
        obtain res where res: "trim_pass w same q remove_len remove_len v ?a = Some res"
          using prems(2) more get by (auto split: option.splits)
        note pi = trim_pass_inv [OF det stats len0 whole inva res]
        show ?thesis
        proof (cases res)
          case (Inl err)
          then show ?thesis using prems(2) more get res by auto
        next
          case Inr: (Inr x)
          obtain stop v' afl' where x: "x = (stop, v', afl')" by (cases x)
          show ?thesis
          proof (cases stop)
            case True
            then have "r = res" using prems(2) more get res Inr x by simp
            then show ?thesis using pi by simp
          next
            case False
            then have "f w same q (drop_bit 1 remove_len) v' afl' = Some r"
              using prems(2) more get res Inr x by simp
            from prems(1) [OF this] show ?thesis using pi Inr x False by simp
          qed
        qed
      next
        case False
        then have "r = Inr (False, v, afl)" using prems(2) by (simp del: max.bounded_iff)
        then show ?thesis using inv by simp
      qed
    qed
    done
  then show ?thesis using inv by simp
qed

section \<open>The end of a trim\<close>

lemma claim_rated_unrated: "claim_rated q i afl = Inr afl' \<Longrightarrow> unrated afl' = unrated afl"
proof -
  assume claim: "claim_rated q i afl = Inr afl'"
  let ?a = "afl\<lparr>top_rated := (top_rated afl)[i := Some q]\<rparr>"
  let ?b = "upd_q (\<lambda>e. e\<lparr>tc_ref := tc_ref e + 1\<rparr>) q ?a"
  have q: "q < length (queue_buf afl)"
    using claim by (auto simp: claim_rated_def Let_def step_Inr)
  have mini: "unrated (upd_q (\<lambda>e. e\<lparr>trace_mini := x\<rparr>) q ?b) = unrated afl" for x
    using q by (subst unrated_upd_q, simp, simp)+ (simp add: unrated_def)
  have "unrated ?b = unrated afl" using q by (subst unrated_upd_q, simp, simp) (simp add: unrated_def)
  moreover have "unrated (b\<lparr>score_changed := True\<rparr>) = unrated b" for b :: "'a afl_queue_scheme"
    by (simp add: unrated_def)
  ultimately show ?thesis
    using claim mini by (auto simp: claim_rated_def Let_def bind_result_Inr_iff split: option.splits)
qed

lemma update_bitmap_score_unrated: "update_bitmap_score afl q = Inr afl' \<Longrightarrow> unrated afl' = unrated afl"
proof -
  assume "update_bitmap_score afl q = Inr afl'"
  then obtain p f where loop: "for_each [0..<unat (map_size afl)] (update_bitmap_score_byte q p f) afl = Inr afl'"
    by (auto simp: update_bitmap_score_def bind_result_Inr_iff)
  have byte: "unrated b = unrated a" if "update_bitmap_score_byte q p f i a = Inr b" for a b :: "'a afl_queue_scheme" and i
    using that claim_rated_unrated [of q i a b] claim_rated_unrated [of q i "release_rated e a" b for e]
      release_rated_unrated [of _ a]
    by (auto simp: update_bitmap_score_byte_def step_Inr split: if_splits option.splits)
  show ?thesis
    using for_each_inv [OF loop, of "\<lambda>_ t. unrated t = unrated afl"] byte by simp
qed

lemma retake_mem_frame:
  assumes "queue_testcase_retake_mem afl q same buf n old = Inr afl'"
  shows "fs afl' = fs afl \<and> stop_soon afl' = stop_soon afl \<and>
    (\<exists>t. q < length (queue_buf afl) \<and> queue_buf afl' = (queue_buf afl)[q := (queue_buf afl ! q)\<lparr>testcase_buf := t\<rparr>])"
proof -
  have q: "q < length (queue_buf afl)"
    using assms by (auto simp: queue_testcase_retake_mem_def step_Inr)
  have keep: "\<exists>t. queue_buf afl = (queue_buf afl)[q := (queue_buf afl ! q)\<lparr>testcase_buf := t\<rparr>]"
    by (rule exI [of _ "testcase_buf (queue_buf afl ! q)"]) simp
  show ?thesis
    using assms q keep
    by (auto simp: queue_testcase_retake_mem_def step_Inr Let_def upd_q_def split: option.splits if_splits)
qed

lemma unrated_run_fields:
  assumes "unrated afl' = unrated afl"
  shows "fs afl' = fs afl" and "stop_soon afl' = stop_soon afl"
    and "q < length (queue_buf afl) \<Longrightarrow> len (queue_buf afl' ! q) = len (queue_buf afl ! q)"
proof -
  show "fs afl' = fs afl" using arg_cong [OF assms, of fs] by (simp add: unrated_def)
  show "stop_soon afl' = stop_soon afl" using arg_cong [OF assms, of stop_soon] by (simp add: unrated_def)
  assume "q < length (queue_buf afl)"
  from arg_cong [OF unrated_fields(7) [OF assms this], of len]
  show "len (queue_buf afl' ! q) = len (queue_buf afl ! q)" by simp
qed

lemma finish_trim_saves:
  assumes "finish_trim w same q old v afl = Some (Inr afl')" and "t_needs_write v" and "\<not> no_unlink afl"
    and "e = queue_buf afl ! q" and "unat (len e) \<le> length (t_buf v)" and "writes_whole w"
  shows "fs afl' (fname e) = Some (take (unat (len e)) (t_buf v)) \<and> len (queue_buf afl' ! q) = len e
    \<and> stop_soon afl' = stop_soon afl"
proof -
  have get: "get_q afl q = Inr e" and q: "q < length (queue_buf afl)"
    using assms(1,2,4) by (auto simp: finish_trim_def get_q_def split: if_splits)
  from assms(1,2,3,5) obtain a b t where
    a: "creat_excl (unlink_quiet afl (fname e)) (fname e) (take (unat (len e)) (t_buf v)) = Inr a"
    and b: "queue_testcase_retake_mem a q same (t_buf v) (len e) old = Inr b"
    and c: "update_bitmap_score (b\<lparr>trace_bits := t\<rparr>) q = Inr afl'"
    by (auto simp: finish_trim_def get save_trimmed_def mem_read_def bind_result_Inr_iff writes_whole_ck [OF assms(6)])
  have fa: "fs a (fname e) = Some (take (unat (len e)) (t_buf v))" "queue_buf a = queue_buf afl"
    "stop_soon a = stop_soon afl"
    using a by (auto simp: creat_excl_Inr unlink_quiet_def unlink_file_def)
  obtain t' where fb: "fs b = fs a" "stop_soon b = stop_soon a"
    "queue_buf b = (queue_buf a)[q := (queue_buf a ! q)\<lparr>testcase_buf := t'\<rparr>]"
    using retake_mem_frame [OF b] by blast
  note u = unrated_run_fields [OF update_bitmap_score_unrated [OF c]]
  have "len (queue_buf afl' ! q) = len e" using u(3) [of q] q fa(2) fb(3) assms(4) by simp
  then show ?thesis using u(1,2) fb(1,2) fa by simp
qed

section \<open>Progress\<close>

lemma rewrite_file_queue:
  "rewrite_file k afl fn data = Inr afl' \<Longrightarrow> queue_buf afl' = queue_buf afl \<and> no_unlink afl' = no_unlink afl"
  for afl :: "'a afl_run_scheme"
  by (auto simp: rewrite_file_def creat_excl_Inr creat_trunc_Inr unlink_quiet_def unlink_file_def split: if_splits)

lemma put_gap_queue:
  "put_gap w afl pieces n = Inr afl' \<Longrightarrow> queue_buf afl' = queue_buf afl \<and> no_unlink afl' = no_unlink afl"
  by (auto simp: put_gap_def Let_def write_out_fd_def bind_result_Inr_iff dest: rewrite_file_queue
      split: if_splits option.splits)

lemma write_with_gap_queue:
  "write_with_gap w afl mem n skip_at skip_len = Inr afl' \<Longrightarrow> queue_buf afl' = queue_buf afl \<and> no_unlink afl' = no_unlink afl"
  by (auto simp: write_with_gap_def bind_result_Inr_iff dest!: put_gap_queue split: if_splits)

lemma run_target_queue:
  assumes "fuzz_run_target w afl tmo = Inr (res, afl')"
  shows "queue_buf afl' = queue_buf afl" and "no_unlink afl' = no_unlink afl"
  by (rule idle_same [OF conjunct1 [OF run_target_idle [OF assms]]]; simp add: idle_def)+

lemma trim_accept_len:
  assumes "trim_accept same q pos avail v afl = Inr (v', afl')"
  shows "len (queue_buf afl' ! q) = len (queue_buf afl ! q) - avail \<and> no_unlink afl' = no_unlink afl"
proof -
  have q: "q < length (queue_buf afl)"
    using assms by (cases "q < length (queue_buf afl)") (simp_all add: trim_accept_def get_q_def)
  define a where "a buf = put_in_buf same q buf (upd_q (\<lambda>e. e\<lparr>len := len (queue_buf afl ! q) - avail\<rparr>) q afl)" for buf
  have len: "len (queue_buf (a buf) ! q) = len (queue_buf afl ! q) - avail" "no_unlink (a buf) = no_unlink afl" for buf
    using q by (simp_all add: a_def put_in_buf_def)
  obtain buf where "afl' = a buf \<or> (\<exists>t. afl' = (a buf)\<lparr>clean_trace := t\<rparr>)"
    using assms q
    by (auto simp: trim_accept_def get_q_def bind_result_Inr_iff Let_def simp flip: a_def split: if_splits)
  then show ?thesis using len by auto
qed

lemma trim_step_progress:
  assumes stats: "stats_keep w" and step: "trim_step w same q remove_len pos v afl = Inr (False, pos', v', afl')"
    and pos: "pos < len (queue_buf afl ! q)"
  shows "(pos' = pos \<and> len (queue_buf afl' ! q) = len (queue_buf afl ! q) - min remove_len (len (queue_buf afl ! q) - pos)
     \<or> pos' = pos + remove_len \<and> len (queue_buf afl' ! q) = len (queue_buf afl ! q)) \<and> no_unlink afl' = no_unlink afl"
proof -
  define n where "n = len (queue_buf afl ! q)"
  define avail where "avail = min remove_len (n - pos)"
  define cks where "cks = exec_cksum (queue_buf afl ! q)"
  have get: "get_q afl q = Inr (queue_buf afl ! q)"
    using step by (cases "q < length (queue_buf afl)") (simp_all add: trim_step_def get_q_def)
  from step obtain a1 fault a2 where
    a1: "write_with_gap w afl (t_buf v) n pos avail = Inr a1"
    and a2: "fuzz_run_target w a1 (exec_tmout a1) = Inr (fault, a2)"
    and judge: "trim_judge w same q remove_len pos avail cks (v\<lparr>t_fault := fault\<rparr>)
        (classify_counts (a2\<lparr>trim_execs := trim_execs a2 + 1\<rparr>)) = Inr (False, pos', v', afl')"
    unfolding trim_step_def get
    by (auto simp: bind_result_Inr_iff Let_def simp flip: n_def avail_def cks_def split: if_splits)
  define a3 where "a3 = classify_counts (a2\<lparr>trim_execs := trim_execs a2 + 1\<rparr>)"
  have q3: "queue_buf a3 = queue_buf afl" "no_unlink a3 = no_unlink afl"
    using write_with_gap_queue [OF a1] run_target_queue [OF a2] by (simp_all add: a3_def classify_counts_def)
  from judge obtain v4 a4 a5 where
    dec: "(if trace_cksum w a3 = cks
         then bind_result (trim_accept same q pos avail (v\<lparr>t_fault := fault\<rparr>) a3) (\<lambda>(v, afl). Inr (pos, v, afl))
         else Inr (pos + remove_len, v\<lparr>t_fault := fault\<rparr>, a3)) = Inr (pos', v4, a4)"
    and st: "stats_now w (t_exec v4) a4 = Inr a5" and fin: "afl' = a5\<lparr>stage_cur := stage_cur a5 + 1\<rparr>"
    unfolding trim_judge_def a3_def [symmetric] by (auto simp: bind_result_Inr_iff)
  have "queue_buf afl' = queue_buf a4" "no_unlink afl' = no_unlink a4"
    using st fin trim_env_stats(2,3) [OF stats] by (auto simp: stats_now_def split: if_splits)
  moreover have "(pos' = pos \<and> len (queue_buf a4 ! q) = n - avail \<or> pos' = pos + remove_len \<and> queue_buf a4 = queue_buf a3)
      \<and> no_unlink a4 = no_unlink a3"
    using dec trim_accept_len [of same q pos avail _ a3 v4 a4] q3 by (auto simp: bind_result_Inr_iff n_def split: if_splits)
  ultimately show ?thesis by (auto simp: q3 n_def avail_def)
qed

lemma trim_measure:
  fixes pos n rl :: u32
  assumes "pos < n" and "unat n < 2 ^ 31" and "0 < unat rl" and "unat rl < 2 ^ 31"
  shows "pos' = pos \<and> m = n - min rl (n - pos) \<or> pos' = pos + rl \<and> m = n \<Longrightarrow>
    unat m - unat pos' < unat n - unat pos \<and> unat m < 2 ^ 31"
proof -
  assume alt: "pos' = pos \<and> m = n - min rl (n - pos) \<or> pos' = pos + rl \<and> m = n"
  have lt: "unat pos < unat n" using assms(1) by (simp add: word_less_nat_alt)
  have d: "unat (n - pos) = unat n - unat pos" using assms(1) by (simp add: unat_sub less_imp_le)
  have av: "0 < unat (min rl (n - pos))" "unat (min rl (n - pos)) \<le> unat n - unat pos"
    using lt assms(3) d by (auto simp: min_def word_le_nat_alt)
  then have "min rl (n - pos) \<le> n" using lt by (simp add: word_le_nat_alt)
  then have cut: "unat (n - min rl (n - pos)) = unat n - unat (min rl (n - pos))" by (rule unat_sub)
  have add: "unat (pos + rl) = unat pos + unat rl" using assms(2,4) lt by (intro unat_add_small) simp
  from alt show ?thesis
  proof
    assume "pos' = pos \<and> m = n - min rl (n - pos)"
    then show ?thesis using cut av lt assms(2) by (simp add: less_diff_conv2)
  next
    assume "pos' = pos + rl \<and> m = n"
    then show ?thesis using add lt assms(2,3) by simp
  qed
qed

text \<open>A pass ends, whatever the target does.\<close>

lemma trim_pass_returns:
  assumes stats: "stats_keep w" and rl: "0 < unat remove_len" "unat remove_len < 2 ^ 31"
  shows "unat (len (queue_buf afl ! q)) < 2 ^ 31 \<Longrightarrow>
    \<exists>r. trim_pass w same q remove_len pos v afl = Some r
      \<and> (\<forall>v' afl'. r = Inr (False, v', afl') \<longrightarrow> unat (len (queue_buf afl' ! q)) < 2 ^ 31 \<and> no_unlink afl' = no_unlink afl)"
proof (induction "unat (len (queue_buf afl ! q)) - unat pos" arbitrary: pos v afl rule: less_induct)
  case less
  let ?n = "len (queue_buf afl ! q)"
  show ?case
  proof (cases "get_q afl q")
    case (Inl err)
    then show ?thesis by (simp add: trim_pass.simps [of w])
  next
    case (Inr e)
    then have e: "e = queue_buf afl ! q" by (simp add: get_q_Inr)
    show ?thesis
    proof (cases "pos < len e")
      case False
      then show ?thesis using Inr less.prems by (simp add: trim_pass.simps [of w])
    next
      case pos: True
      show ?thesis
      proof (cases "trim_step w same q remove_len pos v afl")
        case (Inl err)
        then show ?thesis using Inr pos by (simp add: trim_pass.simps [of w])
      next
        case step: (Inr res)
        obtain stop pos' v' afl' where res: "res = (stop, pos', v', afl')" by (cases res)
        have unroll: "trim_pass w same q remove_len pos v afl
            = (if stop then Some (Inr (True, v', afl')) else trim_pass w same q remove_len pos' v' afl')"
          using Inr pos step res by (simp add: trim_pass.simps [of w same q remove_len pos])
        show ?thesis
        proof (cases stop)
          case True
          then show ?thesis by (simp add: unroll)
        next
          case False
          have p: "pos < ?n" using pos e by simp
          let ?m = "len (queue_buf afl' ! q)"
          have alt: "pos' = pos \<and> ?m = ?n - min remove_len (?n - pos) \<or> pos' = pos + remove_len \<and> ?m = ?n"
            and nu: "no_unlink afl' = no_unlink afl"
            using trim_step_progress [OF stats _ p] step res False by simp_all
          from alt have "unat ?m - unat pos' < unat ?n - unat pos \<and> unat ?m < 2 ^ 31"
            using trim_measure [OF p less.prems rl] by metis
          then show ?thesis using less.hyps [of afl' pos' v'] False nu by (simp add: unroll)
        qed
      qed
    qed
  qed
qed

lemma trim_rounds_returns:
  assumes stats: "stats_keep w"
  shows "unat remove_len < 2 ^ 31 \<Longrightarrow> unat (len (queue_buf afl ! q)) < 2 ^ 31 \<Longrightarrow>
    \<exists>r. trim_rounds w same q remove_len v afl = Some r
      \<and> (\<forall>v' afl'. r = Inr (False, v', afl') \<longrightarrow> no_unlink afl' = no_unlink afl)"
proof (induction "unat remove_len" arbitrary: remove_len v afl rule: less_induct)
  case less
  show ?case
  proof (cases "max (t_len_p2 v div TRIM_END_STEPS) TRIM_MIN_BYTES \<le> remove_len")
    case False
    then show ?thesis by (simp add: trim_rounds.simps [of w] del: max.bounded_iff)
  next
    case more: True
    then have "TRIM_MIN_BYTES \<le> remove_len" by simp
    then have rl: "4 \<le> unat remove_len" by (simp add: word_le_nat_alt)
    show ?thesis
    proof (cases "get_q afl q")
      case (Inl err)
      then show ?thesis using more by (simp add: trim_rounds.simps [of w])
    next
      case (Inr e)
      let ?a = "afl\<lparr>stage_cur := 0, stage_max := len e div remove_len\<rparr>"
      obtain r where r: "trim_pass w same q remove_len remove_len v ?a = Some r"
        "\<And>v' afl'. r = Inr (False, v', afl') \<Longrightarrow> unat (len (queue_buf afl' ! q)) < 2 ^ 31 \<and> no_unlink afl' = no_unlink afl"
        using trim_pass_returns [OF stats, of remove_len ?a q same remove_len v] rl less.prems by auto
      have unroll: "trim_rounds w same q remove_len v afl = (case r of
            Inl err \<Rightarrow> Some (Inl err)
          | Inr (stop, v, afl) \<Rightarrow>
              if stop then Some (Inr (True, v, afl)) else trim_rounds w same q (drop_bit 1 remove_len) v afl)"
        using more Inr r(1) by (simp add: trim_rounds.simps [of w same q remove_len])
      have half: "unat (drop_bit 1 remove_len) = unat remove_len div 2"
        by (simp add: drop_bit_eq_div unat_div)
      have next_round: "\<exists>r'. trim_rounds w same q (drop_bit 1 remove_len) v' afl' = Some r'
          \<and> (\<forall>v2 a2. r' = Inr (False, v2, a2) \<longrightarrow> no_unlink a2 = no_unlink afl)"
        if "r = Inr (False, v', afl')" for v' afl'
        using less.hyps [of "drop_bit 1 remove_len" afl' v'] less.prems(1) rl r(2) [OF that] half by simp
      show ?thesis
      proof (cases r)
        case (Inl err)
        then show ?thesis by (simp add: unroll)
      next
        case Inr: (Inr x)
        obtain stop v' afl' where x: "x = (stop, v', afl')" by (cases x)
        show ?thesis using next_round [of v' afl'] Inr x by (cases stop) (simp_all add: unroll)
      qed
    qed
  qed
qed

lemma rewrite_loop_returns:
  assumes "\<And>k m. 0 < m \<Longrightarrow> 0 < wr k m"
  shows "\<exists>d. rewrite_loop wr k buf n written out = Some d"
proof (induction "n - written" arbitrary: k written out rule: less_induct)
  case less
  show ?case
  proof (cases "written < n")
    case True
    then have "0 < sys_write wr k (n - written)" using assms by (simp add: sys_write_def)
    then show ?thesis
      using less [of "written + nat (sys_write wr k (n - written))" "Suc k"] True
      by (subst rewrite_loop.simps) (simp add: Let_def)
  next
    case False
    then show ?thesis by (simp add: rewrite_loop.simps [of wr k])
  qed
qed

section \<open>Properties\<close>

text \<open>(C32)
  The built-in trimmer always ends: with no custom mutator loaded, \<open>trim_case\<close> returns (a result or an error) for every behaviour of the
  target (also one that changes from run to run), every channel, and every status screen that keeps the queue and the settings
  (\<open>stats_keep\<close>), when the entry is shorter than \<open>2\<^sup>3\<^sup>1\<close> bytes and, under \<open>no_unlink\<close>, each \<open>write\<close> makes some progress (the loop of writes used
  there goes on for ever when a write fails).
\<close>

theorem trim_case_returns:
  assumes "custom_mutators_count afl = 0" and "stats_keep w" and "unat (len (queue_buf afl ! q)) < 2 ^ 31"
    and "\<And>k m. no_unlink afl \<Longrightarrow> 0 < m \<Longrightarrow> 0 < w_write w k m"
  shows "\<exists>r. trim_case w same afl q in_buf = Some r"
proof -
  have fin: "\<exists>r. finish_trim w same q old v a = Some r" if "no_unlink a = no_unlink afl"
    for old v and a :: "'a afl_run_scheme"
  proof (cases "no_unlink afl")
    case True
    then obtain d where "rewrite_loop (w_write w) 0 (t_buf v) (unat (len (queue_buf a ! q))) 0 [] = Some d"
      using rewrite_loop_returns assms(4) by blast
    then show ?thesis by (auto simp: finish_trim_def save_trimmed_def get_q_def)
  next
    case False
    then show ?thesis using that by (auto simp: finish_trim_def save_trimmed_def get_q_def)
  qed
  show ?thesis
  proof (cases "get_q afl q")
    case (Inl err)
    then show ?thesis by (simp add: trim_case_def)
  next
    case (Inr e)
    then have e: "e = queue_buf afl ! q" by (simp add: get_q_Inr)
    let ?p2 = "ucast (next_pow2 (ucast (len e))) :: u32"
    let ?rl = "max (?p2 div TRIM_START_STEPS) TRIM_MIN_BYTES"
    let ?a = "afl\<lparr>stage_name := ''trim'', bytes_trim_in := bytes_trim_in afl + ucast (len e)\<rparr>"
    let ?v = "\<lparr>t_buf = in_buf, t_len_p2 = ?p2, t_needs_write = False, t_exec = 0, t_fault = FSRV_RUN_OK\<rparr>"
    have "unat (?p2 div TRIM_START_STEPS) < 2 ^ 31"
      using unat_u32_less [of ?p2] by (simp add: unat_div)
    then have "unat ?rl < 2 ^ 31" by (simp add: max_def)
    then obtain r where r: "trim_rounds w same q ?rl ?v ?a = Some r"
      and keep: "\<And>v' a'. r = Inr (False, v', a') \<Longrightarrow> no_unlink a' = no_unlink afl"
      using trim_rounds_returns [OF assms(2), of ?rl ?a q same ?v] assms(3) by auto
    show ?thesis
    proof (cases "len e < 5")
      case True
      then show ?thesis using assms(1) Inr by (simp add: trim_case_def trim_builtin_def)
    next
      case False
      show ?thesis
      proof (cases r)
        case (Inl err)
        then show ?thesis using False assms(1) Inr r by (simp add: trim_case_def trim_builtin_def Let_def)
      next
        case res: (Inr x)
        obtain stop v' a' where x: "x = (stop, v', a')" by (cases x)
        obtain r' where "(if stop then Some (Inr a') else finish_trim w same q (len e) v' a') = Some r'"
          using fin [of a' "len e" v'] keep [of v' a'] res x by (cases stop) auto
        then show ?thesis using False assms(1) Inr r res x by (simp add: trim_case_def trim_builtin_def Let_def)
      qed
    qed
  qed
qed

definition keep_world :: "(bytes \<Rightarrow> fsrv_reply) \<Rightarrow> afl_run world" where
  "keep_world T = demo_world (\<lambda>k input tmo. T input)"

lemma keep_world_simps [simp]:
  "w_target (keep_world T) k input tmo = T input" "stats_keep (keep_world T)" "w_write (keep_world T) k n = int n"
  "writes_whole (keep_world T)"
  by (simp_all add: keep_world_def demo_world_def stats_keep_def writes_whole_def)

definition trim_demo :: afl_run where
  "trim_demo = (run_demo None)\<lparr>queue_buf := [zero_entry\<lparr>fname := ''q/a'', len := 8, exec_cksum := 1\<rparr>],
     clean_trace := replicate 64 0\<rparr>"

lemma trim_demo_fields:
  "queue_buf trim_demo = [zero_entry\<lparr>fname := ''q/a'', len := 8, exec_cksum := 1\<rparr>]" "map_size trim_demo = 64"
  "custom_mutators_count trim_demo = 0" "stop_soon trim_demo = False" "clean_trace trim_demo = replicate 64 0"
  "trace_bits trim_demo = [5, 1] @ replicate 62 0" "stats_update_freq trim_demo = 1" "exec_tmout trim_demo = 1000"
  "fs_deny trim_demo = (\<lambda>_. False)" "schedule trim_demo = EXPLORE"
  by (simp_all add: trim_demo_def run_demo_def afl_one.extend_def one_demo_def afl_extras.extend_def extras_demo_def
      afl_tc.extend_def tc_demo_def afl_queue.extend_def queue_demo_def afl_cov.extend_def cov_demo_def)

lemma trim_demo_env: "trim_env 64 trim_demo"
proof -
  have "channel_ready trim_demo = channel_ready (run_demo None)" "no_unlink trim_demo = no_unlink (run_demo None)"
    by (simp_all add: trim_demo_def channel_ready_def)
  moreover have "channel_ready (run_demo None)" "\<not> no_unlink (run_demo None)"
    by (simp add: channel_ready_def run_demo_fields, simp add: run_demo_def afl_one.extend_def)
  ultimately show ?thesis by (simp add: trim_env_def trim_demo_fields)
qed

theorem trim_case_returns_witness:
  "\<exists>r. trim_case (keep_world (\<lambda>input. ok_reply input)) False trim_demo 0 [1, 2, 3, 4, 5, 6, 7, 8] = Some r"
  by (rule trim_case_returns) (simp_all add: trim_demo_fields)

text \<open>(C13)
  A completed trim keeps the path. With no custom mutator loaded, \<open>no_unlink\<close> off, an input channel set up and \<open>write\<close> calls that take all
  the bytes they are given, for a target whose answer depends on the input only and an entry of at most \<open>MAX_FILE\<close> bytes: the
  trimmed input is a subsequence of the original, and when anything was removed, running it gives the checksum recorded for the
  entry, and the entry's file holds exactly the trimmed input.
\<close>

theorem trim_case_keeps_path:
  assumes "custom_mutators_count afl = 0" and "\<not> no_unlink afl" and "channel_ready afl" and "writes_whole w"
    and "8 dvd unat (map_size afl)" and "length (trace_bits afl) = unat (map_size afl)"
    and "length (clean_trace afl) = unat (map_size afl)"
    and "\<And>k input tmo. w_target w k input tmo = T input" and "stats_keep w"
    and "q < length (queue_buf afl)" and "e = queue_buf afl ! q"
    and "unat (len e) \<le> length in_buf" and "unat (len e) \<le> unat MAX_FILE"
    and "trim_case w same afl q in_buf = Some (Inr (fault, buf', afl'))"
    and "fault \<noteq> FSRV_RUN_ERROR" and "\<not> stop_soon afl'"
    and "out = take (unat (len (queue_buf afl' ! q))) buf'" and "orig = take (unat (len e)) in_buf"
  shows "subseq out orig \<and> (out = orig \<or>
    input_cksum w T (unat (map_size afl)) out = exec_cksum e \<and> fs afl' (fname e) = Some out)"
proof (cases "len e < 5")
  case True
  then have "out = orig"
    using assms(1,10,11,14,17,18) by (auto simp: trim_case_def trim_builtin_def get_q_def)
  then show ?thesis by simp
next
  case False
  let ?p2 = "ucast (next_pow2 (ucast (len e))) :: u32" and ?m = "map_size afl"
  let ?rl = "max (?p2 div TRIM_START_STEPS) TRIM_MIN_BYTES"
  let ?a = "afl\<lparr>stage_name := ''trim'', bytes_trim_in := bytes_trim_in afl + ucast (len e)\<rparr>"
  let ?v = "\<lparr>t_buf = in_buf, t_len_p2 = ?p2, t_needs_write = False, t_exec = 0, t_fault = FSRV_RUN_OK\<rparr>"
  have env: "trim_env ?m afl" using assms(1-7) by (simp add: trim_env_def)
  have "queue_buf afl ! q = e\<lparr>len := len e, testcase_buf := testcase_buf e\<rparr>" using assms(11) by simp
  then have inv: "trim_inv w T ?m q e in_buf ?v ?a"
    unfolding trim_inv_def
    by (intro conjI exI [of _ "len e"] exI [of _ "testcase_buf e"]) (use env assms(10) in simp_all)
  have get: "get_q afl q = Inr e" using assms(10,11) by (simp add: get_q_def)
  from assms(14) False get assms(1) obtain stop v a1 r where
    rounds: "trim_rounds w same q ?rl ?v ?a = Some (Inr (stop, v, a1))"
    and r: "(if stop then Some (Inr a1) else finish_trim w same q (len e) v a1) = Some r"
    and fin: "bind_result (bind_result r (count_trim_out q)) (\<lambda>afl. Inr (t_fault v, t_buf v, afl)) = Inr (fault, buf', afl')"
    by (auto simp: trim_case_def trim_builtin_def Let_def split: option.splits sum.splits)
  obtain a2 where a2: "r = Inr a2" "count_trim_out q a2 = Inr afl'" "t_fault v = fault" "t_buf v = buf'"
    using fin by (auto simp: bind_result_Inr_iff)
  have last: "queue_buf afl' = queue_buf a2" "stop_soon afl' = stop_soon a2" "fs afl' = fs a2"
    using a2(2) by (auto simp: count_trim_out_def bind_result_Inr_iff)
  note res = trim_rounds_inv [OF assms(8,9,12,13,4) inv rounds]
  have go: "\<not> stop"
    using res r a2 last(2) assms(15,16) by (cases stop) auto
  then have inv1: "trim_inv w T ?m q e in_buf v a1" using res by simp
  then obtain n t where n: "queue_buf a1 ! q = e\<lparr>len := n, testcase_buf := t\<rparr>" "unat n \<le> unat (len e)"
    "subseq (take (unat n) (t_buf v)) orig" "length (t_buf v) = length in_buf"
    "if t_needs_write v then input_cksum w T (unat ?m) (take (unat n) (t_buf v)) = exec_cksum e
     else n = len e \<and> t_buf v = in_buf"
    unfolding trim_inv_def assms(18) by blast
  have ft: "finish_trim w same q (len e) v a1 = Some (Inr a2)" using r go a2(1) by simp
  show ?thesis
  proof (cases "t_needs_write v")
    case True
    have "\<not> no_unlink a1" using inv1 by (simp add: trim_inv_def trim_env_def)
    moreover have "unat n \<le> length (t_buf v)" using n(2,4) assms(12) by simp
    ultimately have "fs a2 (fname e) = Some (take (unat n) (t_buf v)) \<and> len (queue_buf a2 ! q) = n"
      using finish_trim_saves [OF ft True _ refl _ assms(4)] n(1) by simp
    then show ?thesis using n(3,5) True last assms(17) a2(4) by simp
  next
    case False
    then have "a2 = a1" using ft by (simp add: finish_trim_def)
    then show ?thesis using n(1,5) False last(1) assms(17,18) a2(4) by simp
  qed
qed

lemma run_answers:
  assumes "length (trace_bits afl) = unat (map_size afl)" and "\<And>k input tmo. w_target w k input tmo = T input"
    and "answers (T (target_input afl)) timeout" and "\<not> stop_signal (T (target_input afl))"
    and "r = fill_map (unat (map_size afl)) (trace_written (T (target_input afl)))"
  shows "\<exists>res afl'. fuzz_run_target w afl timeout = Inr (res, afl') \<and> stop_soon afl' = stop_soon afl
    \<and> trace_bits afl' = r \<and> (res = FSRV_RUN_ERROR \<longleftrightarrow> (join_words (take 4 r) :: u32) = EXEC_FAIL_SIG)"
proof -
  let ?a = "answered (T (target_input afl)) timeout afl"
  have run: "fuzz_run_target w afl timeout = Inr (run_outcome ?a)"
    using run_target_answered [OF assms(1), of w timeout] assms(2,3) by simp
  obtain p k where "run_outcome ?a
      = (outcome_of ?a, ?a\<lparr>child_pid := p, total_execs := total_execs ?a + 1, last_kill_signal := k\<rparr>)"
    using run_outcome_eq by blast
  with run show ?thesis using assms(4,5) by (simp add: outcome_of_def)
qed

lemma update_bitmap_score_silent:
  assumes "trace_bits afl = replicate (unat (map_size afl)) 0" and "q < length (queue_buf afl)"
    and "schedule afl = EXPLORE"
  shows "update_bitmap_score afl q = Inr afl"
proof -
  have "for_each xs (update_bitmap_score_byte q p f) afl = Inr afl" if "set xs \<subseteq> {..<unat (map_size afl)}" for xs p f
    using that by (induction xs) (simp_all add: update_bitmap_score_byte_def get_at_def assms(1))
  then show ?thesis
    using assms(2,3) by (simp add: update_bitmap_score_def get_q_def own_fuzz_p2_def schedule_order atLeast0LessThan)
qed

definition trim_world :: "afl_run world" where
  "trim_world = (keep_world (\<lambda>input. ok_reply []))\<lparr>w_xxh := (\<lambda>bs. 1)\<rparr>"

lemma trim_world_simps [simp]:
  "w_target trim_world k input tmo = ok_reply []" "stats_keep trim_world" "w_show_stats trim_world s = s"
  "writes_whole trim_world"
  by (simp_all add: trim_world_def keep_world_def demo_world_def stats_keep_def writes_whole_def)

lemma join_words_zeros: "join_words (replicate n 0) = 0"
  by (induction n) simp_all

lemma trim_demo_step:
  assumes "a = trim_demo\<lparr>stage_name := x, bytes_trim_in := y, stage_cur := 0, stage_max := z\<rparr>"
    and "v = \<lparr>t_buf = [1, 2, 3, 4, 5, 6, 7, 8], t_len_p2 = 8, t_needs_write = False, t_exec = 0, t_fault = FSRV_RUN_OK\<rparr>"
  shows "\<exists>f b. trim_step trim_world False 0 4 4 v a
      = Inr (False, 4, v\<lparr>t_fault := f, t_len_p2 := 4, t_needs_write := True, t_exec := 1\<rparr>, b)
    \<and> f \<noteq> FSRV_RUN_ERROR \<and> trim_env 64 b \<and> \<not> stop_soon b \<and> fs_deny b = (\<lambda>_. False) \<and> schedule b = EXPLORE
    \<and> clean_trace b = replicate 64 0
    \<and> queue_buf b = [zero_entry\<lparr>fname := ''q/a'', len := 4, exec_cksum := 1\<rparr>]"
proof -
  have env: "trim_env 64 a" using trim_demo_env by (simp add: assms(1) trim_env_def channel_ready_def)
  have fields: "queue_buf a = queue_buf trim_demo" "stop_soon a = False" "stats_update_freq a = 1" "fs_deny a = (\<lambda>_. False)"
    "schedule a = EXPLORE" "exec_tmout a = 1000"
    by (simp_all add: assms(1) trim_demo_fields)
  let ?buf = "[1, 2, 3, 4, 5, 6, 7, 8] :: bytes" and ?cut = "[1, 2, 3, 4] :: bytes"
  let ?a1 = "with_input a ?cut"
  have a1: "write_with_gap trim_world a ?buf 8 4 4 = Inr ?a1"
    using env by (intro write_with_gap_ok) (simp_all add: trim_env_def channel_takes_def)
  have env1: "trim_env 64 ?a1" using trim_env_input [OF env, of ?cut] by simp
  let ?z = "replicate 64 0 :: bytes"
  have z: "fill_map 64 (trace_written (ok_reply [])) = ?z" by (simp add: fill_map_def ok_reply_def)
  have mark: "(join_words (take 4 ?z) :: u32) \<noteq> EXEC_FAIL_SIG"
    by (simp add: join_words_zeros)
  have "\<exists>res a2. fuzz_run_target trim_world ?a1 1000 = Inr (res, a2) \<and> stop_soon a2 = stop_soon ?a1
      \<and> trace_bits a2 = ?z \<and> (res = FSRV_RUN_ERROR \<longleftrightarrow> (join_words (take 4 ?z) :: u32) = EXEC_FAIL_SIG)"
    using env1 z
    by (intro run_answers [where T = "\<lambda>_. ok_reply []"])
      (simp_all add: trim_env_def answers_def ok_reply_def word_less_nat_alt)
  then obtain res a2 where a2: "fuzz_run_target trim_world ?a1 1000 = Inr (res, a2)" "\<not> stop_soon a2"
    "trace_bits a2 = ?z" "res \<noteq> FSRV_RUN_ERROR"
    using mark fields(2) by auto
  define a3 where "a3 = classify_counts (a2\<lparr>trim_execs := trim_execs a2 + 1\<rparr>)"
  have att: "trim_env 64 a3" "queue_buf a3 = queue_buf a" "trace_cksum trim_world a3 = 1"
    using trim_attempt [OF env _ _ _ _ a1 a2(1,2) a3_def trim_world_simps(4), where T = "\<lambda>_. ok_reply []"]
    by (simp_all add: input_cksum_def hash64_def trim_world_def)
  note idle2 = idle_same [OF conjunct1 [OF run_target_idle [OF a2(1)]]]
  have frame2: "stats_update_freq a2 = stats_update_freq ?a1" "fs_deny a2 = fs_deny ?a1" "schedule a2 = schedule ?a1"
    by (rule idle2; simp add: idle_def)+
  have frame3: "stop_soon a3 = stop_soon a2" "stats_update_freq a3 = 1" "fs_deny a3 = (\<lambda>_. False)" "schedule a3 = EXPLORE"
    using frame2 fields by (simp_all add: a3_def classify_counts_def)
  have tr3: "trace_bits a3 = ?z"
  proof -
    have "trim_env 64 (a2\<lparr>trim_execs := trim_execs a2 + 1\<rparr>)" using trim_env_run(1) [OF a2(1) env1] by simp
    from trim_env_classify [OF this] show ?thesis by (simp add: a3_def a2(3) count_class_lookup8_def)
  qed
  let ?b = "(upd_q (\<lambda>e. e\<lparr>len := 4\<rparr>) 0 a3)\<lparr>clean_trace := ?z\<rparr>"
  let ?w = "v\<lparr>t_fault := res, t_len_p2 := 4, t_needs_write := True\<rparr>"
  have p2: "next_pow2 4 = 4" by (simp add: next_pow2_def)
  have acc: "trim_accept False 0 4 4 (v\<lparr>t_fault := res\<rparr>) a3 = Inr (?w, ?b)"
    using att(1) tr3
    by (simp add: trim_accept_def get_q_def att(2) fields(1) trim_demo_fields Let_def assms(2) memmove_def mem_read_def
        mem_write_def put_in_buf_def copy_map_def trim_env_def p2)
  let ?c = "?b\<lparr>stage_cur := stage_cur ?b + 1\<rparr>"
  have step: "trim_step trim_world False 0 4 4 v a = Inr (False, 4, ?w\<lparr>t_exec := 1\<rparr>, ?c)"
    using a2(2,4) acc att(3) frame3(2)
    by (simp add: trim_step_def get_q_def fields(1) trim_demo_fields assms(2) a1 a2(1) trim_judge_def stats_now_def
        fields(6) flip: a3_def)
  have env3: "trim_env 64 ?c"
    using att(1) by (simp add: trim_env_def channel_ready_def upd_q_def)
  have rest: "\<not> stop_soon ?c" "fs_deny ?c = (\<lambda>_. False)" "schedule ?c = EXPLORE" "clean_trace ?c = ?z"
    "queue_buf ?c = [zero_entry\<lparr>fname := ''q/a'', len := 4, exec_cksum := 1\<rparr>]"
    using a2(2) frame3 by (simp_all add: att(2) fields(1) trim_demo_fields)
  show ?thesis
    by (rule exI [of _ res], rule exI [of _ ?c]) (intro conjI step a2(4) env3 rest)
qed

theorem trim_case_keeps_path_witness:
  "\<exists>fault afl'. trim_case trim_world False trim_demo 0 [1, 2, 3, 4, 5, 6, 7, 8]
       = Some (Inr (fault, [1, 2, 3, 4, 5, 6, 7, 8], afl'))
     \<and> len (queue_buf afl' ! 0) = 4 \<and> subseq [1, 2, 3, 4 :: u8] [1, 2, 3, 4, 5, 6, 7, 8]
     \<and> input_cksum trim_world (\<lambda>_. ok_reply []) 64 [1, 2, 3, 4] = 1 \<and> fs afl' ''q/a'' = Some [1, 2, 3, 4]"
proof -
  let ?buf = "[1, 2, 3, 4, 5, 6, 7, 8] :: bytes" and ?T = "\<lambda>input :: bytes. ok_reply []"
  let ?a = "trim_demo\<lparr>stage_name := ''trim'', bytes_trim_in := bytes_trim_in trim_demo + 8, stage_cur := 0, stage_max := 2\<rparr>"
  let ?v = "\<lparr>t_buf = ?buf, t_len_p2 = 8, t_needs_write = False, t_exec = 0, t_fault = FSRV_RUN_OK\<rparr>"
  obtain f b where b: "trim_step trim_world False 0 4 4 ?v ?a
      = Inr (False, 4, ?v\<lparr>t_fault := f, t_len_p2 := 4, t_needs_write := True, t_exec := 1\<rparr>, b)"
    "f \<noteq> FSRV_RUN_ERROR" "trim_env 64 b" "\<not> stop_soon b" "fs_deny b = (\<lambda>_. False)" "schedule b = EXPLORE"
    "clean_trace b = replicate 64 0" "queue_buf b = [zero_entry\<lparr>fname := ''q/a'', len := 4, exec_cksum := 1\<rparr>]"
    using trim_demo_step [OF refl refl] by blast
  let ?v1 = "?v\<lparr>t_fault := f, t_len_p2 := 4, t_needs_write := True, t_exec := 1\<rparr>"
  have qa: "queue_buf ?a = [zero_entry\<lparr>fname := ''q/a'', len := 8, exec_cksum := 1\<rparr>]" by (simp add: trim_demo_fields)
  have end_pass: "trim_pass trim_world False 0 4 4 v1 b = Some (Inr (False, v1, b))" for v1
    by (simp add: trim_pass.simps [of trim_world False 0 4 4 v1] get_q_def b(8))
  have pass: "trim_pass trim_world False 0 4 4 ?v ?a = Some (Inr (False, ?v1, b))"
    using b(1) end_pass [of ?v1]
    by (subst trim_pass.simps) (simp add: get_q_def qa word_less_nat_alt)
  have rounds: "trim_rounds trim_world False 0 4 ?v (trim_demo\<lparr>stage_name := ''trim'', bytes_trim_in := bytes_trim_in trim_demo + 8\<rparr>)
      = Some (Inr (False, ?v1, b))"
    using pass by (subst trim_rounds.simps, subst trim_rounds.simps) (simp add: get_q_def trim_demo_fields drop_bit_eq_div)
  let ?fs = "(fs b)(''q/a'' \<mapsto> [1, 2, 3, 4 :: u8])" and ?z = "replicate 64 0 :: bytes"
  let ?c = "b\<lparr>fs := ?fs, trace_bits := ?z\<rparr>"
  have env: "map_size b = 64" "length (trace_bits b) = 64" "\<not> no_unlink b" using b(3) by (simp_all add: trim_env_def)
  have "creat_excl (unlink_quiet b ''q/a'') ''q/a'' [1, 2, 3, 4] = Inr (b\<lparr>fs := ?fs\<rparr>)"
    by (simp add: unlink_quiet_fs b(5) creat_excl_def)
  moreover have "update_bitmap_score ?c 0 = Inr ?c"
    by (rule update_bitmap_score_silent) (simp_all add: env b(6,8))
  ultimately have fin: "finish_trim trim_world False 0 8 ?v1 b = Some (Inr ?c)"
    by (simp add: finish_trim_def save_trimmed_def get_q_def b(7,8) env mem_read_def mem_write_def copy_map_def
        queue_testcase_retake_mem_def zero_entry_def writes_whole_ck [OF trim_world_simps(4)])
  let ?d = "?c\<lparr>bytes_trim_out := bytes_trim_out ?c + 4\<rparr>"
  have p2: "next_pow2 8 = 8" by (simp add: next_pow2_def)
  have run: "trim_case trim_world False trim_demo 0 ?buf = Some (Inr (f, ?buf, ?d))"
    using rounds fin
    by (simp add: trim_case_def trim_builtin_def trim_demo_fields get_q_def Let_def p2 word_less_nat_alt count_trim_out_def
        b(8) max_def)
  have len: "take (unat (len (queue_buf ?d ! 0))) ?buf = [1, 2, 3, 4]" by (simp add: b(8))
  have "subseq [1, 2, 3, 4 :: u8] ?buf \<and> ([1, 2, 3, 4] = ?buf \<or>
      input_cksum trim_world ?T (unat (map_size trim_demo)) [1, 2, 3, 4] = 1 \<and> fs ?d ''q/a'' = Some [1, 2, 3, 4])"
    using trim_case_keeps_path [OF _ _ _ trim_world_simps(4) _ _ _ _ _ _ refl _ _ run b(2) _ len [symmetric] refl, of ?T]
      trim_demo_env b(4)
    by (simp add: trim_demo_fields trim_env_def)
  then show ?thesis using run by (intro exI [of _ f] exI [of _ ?d]) (simp add: b(8) trim_demo_fields)
qed

end
