(* ===== verification/Afl_Calibrate.thy ===== *)
theory Afl_Calibrate
  imports Afl_Trim
begin

unbundle bit_operations_syntax

text \<open>
  Calibration of a test case: \<open>calibrate_case\<close> of \<open>src/afl-fuzz-run.c\<close>. The loop bound \<open>afl->stage_max\<close> grows while the
  loop runs, so the loop is a partial function; it is shown to return. The start of the fork server is a parameter
  (\<open>w_fsrv_start\<close>), warnings are left out.
\<close>

abbreviation CAL_CYCLES_FAST :: u32 where "CAL_CYCLES_FAST \<equiv> 3"
abbreviation CAL_CYCLES :: u32 where "CAL_CYCLES \<equiv> 7"
abbreviation CAL_CYCLES_LONG :: u32 where "CAL_CYCLES_LONG \<equiv> 12"
abbreviation CAL_TMOUT_PERC :: u32 where "CAL_TMOUT_PERC \<equiv> 125"
abbreviation CAL_TMOUT_ADD :: u32 where "CAL_TMOUT_ADD \<equiv> 50"

record cal_vars =
  cv_mem :: bytes
  cv_fault :: fsrv_run_result
  cv_new_bits :: u8
  cv_var_detected :: bool

definition calibration_tmout :: "'a afl_run_scheme \<Rightarrow> bool \<Rightarrow> u32" where
  "calibration_tmout afl from_queue =
     (if \<not> from_queue \<or> resuming_fuzz afl
      then max (exec_tmout afl + CAL_TMOUT_ADD) (exec_tmout afl * CAL_TMOUT_PERC div 100)
      else exec_tmout afl)"

definition ensure_fsrv :: "'a afl_run_scheme world \<Rightarrow> 'a afl_run_scheme \<Rightarrow> 'a afl_run_scheme result" where
  "ensure_fsrv w afl =
     (if fsrv_pid afl \<noteq> 0 then Inr afl
      else if fsrv_cmplog_binary afl \<and> \<not> cmplog_exec afl
      then Inl (Fatal ''BUG in afl-fuzz detected. Cmplog mode not set correctly.'')
      else bind_result (w_fsrv_start w afl) (\<lambda>afl.
        Inr (if support_shmem_fuzz afl \<and> \<not> use_shmem_fuzz afl
             then afl\<lparr>support_shmem_fuzz := False, shmem_fuzz := []\<rparr> else afl)))"

text \<open>Write the input, run it and look at the obvious outcomes; the flag says that calibration is abandoned.\<close>

definition cal_run ::
  "'s world \<Rightarrow> qid \<Rightarrow> u32 \<Rightarrow> cal_vars \<Rightarrow> 'a afl_run_scheme \<Rightarrow> (bool \<times> cal_vars \<times> 'a afl_run_scheme) result" where
  "cal_run w q use_tmout v afl =
     bind_result (get_q afl q) (\<lambda>e.
     bind_result (write_to_testcase w afl (cv_mem v) (len e) True) (\<lambda>(mem, n, afl).
     bind_result (fuzz_run_target w afl use_tmout) (\<lambda>(fault, afl).
     let v = v\<lparr>cv_mem := mem, cv_fault := fault\<rparr> in
     if stop_soon afl \<or> fault \<noteq> crash_mode afl then Inr (True, v, afl)
     else if \<not> non_instrumented_mode afl \<and> stage_cur afl = 0 \<and> count_bytes afl (trace_bits afl) = 0
     then Inr (True, v\<lparr>cv_fault := FSRV_RUN_NOINST\<rparr>, afl)
     else Inr (False, v, afl))))"

text \<open>Bytes that differ from the first trace and are not marked yet become variable and count as discovered.\<close>

definition mark_variable_bytes :: "'a afl_run_scheme \<Rightarrow> 'a afl_run_scheme result" where
  "mark_variable_bytes afl =
     (let n = unat (map_size afl);
          fresh = (\<lambda>i. i < n \<and> var_bytes afl ! i = 0 \<and> first_trace afl ! i \<noteq> trace_bits afl ! i)
      in if length (var_bytes afl) < n \<or> length (first_trace afl) < n \<or> length (trace_bits afl) < n
            \<or> length (virgin_bits afl) < n
         then Inl (Out_of_bounds ''var_bytes'')
         else Inr (afl\<lparr>
           var_bytes := map (\<lambda>i. if fresh i then 1 else var_bytes afl ! i) [0..<length (var_bytes afl)],
           virgin_bits := map (\<lambda>i. if fresh i then 0 else virgin_bits afl ! i) [0..<length (virgin_bits afl)]\<rparr>))"

definition see_new_bits :: "cal_vars \<Rightarrow> 'a afl_run_scheme \<Rightarrow> cal_vars \<times> 'a afl_run_scheme" where
  "see_new_bits v afl =
     (case has_new_bits afl Virgin_bits of
        (hnb, afl) \<Rightarrow> (if cv_new_bits v < hnb then v\<lparr>cv_new_bits := hnb\<rparr> else v, afl))"

definition cal_compare ::
  "'s world \<Rightarrow> qid \<Rightarrow> cal_vars \<Rightarrow> 'a afl_run_scheme \<Rightarrow> (cal_vars \<times> 'a afl_run_scheme) result" where
  "cal_compare w q v afl =
     (let cksum = trace_cksum w afl in
      bind_result (get_q afl q) (\<lambda>e.
      if exec_cksum e = cksum then Inr (v, afl)
      else case see_new_bits v afl of (v, afl) \<Rightarrow>
        if exec_cksum e \<noteq> 0 then
          bind_result (mark_variable_bytes afl) (\<lambda>afl.
          Inr (v\<lparr>cv_var_detected := True\<rparr>,
               afl\<lparr>stage_max := (if afl_cal_fast afl then CAL_CYCLES else CAL_CYCLES_LONG)\<rparr>))
        else
          let afl = upd_q (\<lambda>e. e\<lparr>exec_cksum := cksum\<rparr>) q afl in
          bind_result (copy_map ''first_trace'' afl (trace_bits afl) (first_trace afl)) (\<lambda>t.
          Inr (v, afl\<lparr>first_trace := t\<rparr>))))"

definition cal_round ::
  "'s world \<Rightarrow> qid \<Rightarrow> u32 \<Rightarrow> cal_vars \<Rightarrow> 'a afl_run_scheme \<Rightarrow> (bool \<times> cal_vars \<times> 'a afl_run_scheme) result" where
  "cal_round w q use_tmout v afl =
     bind_result (cal_run w q use_tmout v afl) (\<lambda>(stop, v, afl).
     if stop then Inr (True, v, afl)
     else bind_result (cal_compare w q v (classify_counts afl)) (\<lambda>(v, afl).
          Inr (False, v, afl\<lparr>stage_cur := stage_cur afl + 1\<rparr>)))"

partial_function (option) cal_loop ::
  "'s world \<Rightarrow> qid \<Rightarrow> u32 \<Rightarrow> cal_vars \<Rightarrow> 'a afl_run_scheme
     \<Rightarrow> (bool \<times> cal_vars \<times> 'a afl_run_scheme) result option" where
  "cal_loop w q use_tmout v afl =
     (if stage_cur afl < stage_max afl then
        (case cal_round w q use_tmout v afl of
           Inl err \<Rightarrow> Some (Inl err)
         | Inr (stop, v, afl) \<Rightarrow> if stop then Some (Inr (True, v, afl)) else cal_loop w q use_tmout v afl)
      else Some (Inr (False, v, afl)))"

text \<open>The time of the runs; at least one microsecond.\<close>

definition cal_time :: "'s world \<Rightarrow> u64 \<Rightarrow> 'a afl_run_scheme \<Rightarrow> u64 \<times> 'a afl_run_scheme" where
  "cal_time w start_us afl =
     (if fixed_seed afl then (ucast (exec_tmout afl - 1) * ucast (stage_max afl), afl)
      else case get_cur_time_us w afl of
        (stop_us, afl) \<Rightarrow> (if stop_us - start_us = 0 then 1 else stop_us - start_us, afl))"

definition cal_finish ::
  "'s world \<Rightarrow> qid \<Rightarrow> u64 \<Rightarrow> u32 \<Rightarrow> 'a afl_run_scheme \<Rightarrow> 'a afl_run_scheme result" where
  "cal_finish w q start_us handicap0 afl =
     (case cal_time w start_us afl of (diff_us, afl) \<Rightarrow>
        let afl = afl\<lparr>total_cal_us := total_cal_us afl + diff_us,
                      total_cal_cycles := total_cal_cycles afl + ucast (stage_max afl)\<rparr>
        in if stage_max afl = 0 then Inl (Fatal ''BUG: stage_max should not be 0 here!'')
           else
             let n = count_bytes afl (trace_bits afl) in
             bind_result (get_q afl q) (\<lambda>e.
             bind_result (pst_fuzz_calculate_bitmap_weight afl (trace_bits afl)) (\<lambda>wt.
             let afl = upd_q (\<lambda>e. e\<lparr>exec_us := diff_us div ucast (stage_max afl), bitmap_size := n,
                                   bitmap_weight := wt, handicap := ucast handicap0, cal_failed := 0\<rparr>) q afl;
                 afl = afl\<lparr>total_bitmap_size := total_bitmap_size afl + ucast n,
                           total_bitmap_entries := total_bitmap_entries afl + 1\<rparr>
             in update_bitmap_score afl q)))"

text \<open>From the label \<open>abort_calibration\<close> on.\<close>

definition cal_abort ::
  "'a afl_run_scheme world \<Rightarrow> qid \<Rightarrow> bool \<Rightarrow> string \<times> u32 \<times> u32 \<Rightarrow> cal_vars \<Rightarrow> 'a afl_run_scheme
     \<Rightarrow> (fsrv_run_result \<times> 'a afl_run_scheme) result" where
  "cal_abort w q first_run old v afl =
     bind_result (get_q afl q) (\<lambda>e.
     let afl = (if cv_new_bits v = 2 \<and> \<not> has_new_cov e
                then (upd_q (\<lambda>e. e\<lparr>has_new_cov := True\<rparr>) q afl)\<lparr>queued_with_cov := queued_with_cov afl + 1\<rparr>
                else afl)
     in bind_result
          (if cv_var_detected v then
             let afl = afl\<lparr>var_byte_count := count_bytes afl (var_bytes afl)\<rparr> in
             if var_behavior e then Inr afl
             else bind_result (mark_as_variable afl q) (\<lambda>afl.
                  Inr (afl\<lparr>queued_variable := queued_variable afl + 1\<rparr>))
           else Inr afl) (\<lambda>afl.
        case old of (sn, sc, sm) \<Rightarrow>
          let afl = afl\<lparr>stage_name := sn, stage_cur := sc, stage_max := sm\<rparr>
          in Inr (cv_fault v, if first_run then afl else w_show_stats w afl)))"

text \<open>The part before the loop: the dummy run of the CmpLog mode and the trace of a known entry.\<close>

definition cal_prepare ::
  "'a afl_run_scheme world \<Rightarrow> qid \<Rightarrow> u32 \<Rightarrow> cal_vars \<Rightarrow> 'a afl_run_scheme
     \<Rightarrow> (bool \<times> cal_vars \<times> 'a afl_run_scheme) result" where
  "cal_prepare w q use_tmout v afl =
     bind_result (ensure_fsrv w afl) (\<lambda>afl.
     bind_result (if cmplog_mode afl then cal_run w q use_tmout v afl else Inr (False, v, afl)) (\<lambda>(stop, v, afl).
     if stop then Inr (True, v, afl)
     else
       bind_result (get_q afl q) (\<lambda>e.
       if exec_cksum e = 0 then Inr (False, v, afl)
       else bind_result (copy_map ''first_trace'' afl (trace_bits afl) (first_trace afl)) (\<lambda>t.
            case see_new_bits v (afl\<lparr>first_trace := t\<rparr>) of (v, afl) \<Rightarrow> Inr (False, v, afl)))))"

definition cal_start :: "qid \<Rightarrow> 'a afl_run_scheme \<Rightarrow> 'a afl_run_scheme" where
  "cal_start q afl =
     (let afl = (if cmplog_mode afl then upd_q (\<lambda>e. e\<lparr>exec_cksum := 0\<rparr>) q afl else afl);
          afl = upd_q (\<lambda>e. e\<lparr>cal_failed := cal_failed e + 1\<rparr>) q afl
      in afl\<lparr>stage_name := ''calibration'',
             stage_max := (if afl_cal_fast afl then CAL_CYCLES_FAST else CAL_CYCLES)\<rparr>)"

definition calibrate_case ::
  "'a afl_run_scheme world \<Rightarrow> 'a afl_run_scheme \<Rightarrow> qid \<Rightarrow> bytes \<Rightarrow> u32 \<Rightarrow> bool
     \<Rightarrow> (fsrv_run_result \<times> 'a afl_run_scheme) result option" where
  "calibrate_case w afl q use_mem handicap0 from_queue =
     (case get_q afl q of
        Inl err \<Rightarrow> Some (Inl err)
      | Inr e \<Rightarrow>
          let first_run = (exec_cksum e = 0);
              old = (stage_name afl, stage_cur afl, stage_max afl);
              use_tmout = calibration_tmout afl from_queue;
              v = \<lparr>cv_mem = use_mem, cv_fault = FSRV_RUN_OK, cv_new_bits = 0, cv_var_detected = False\<rparr>
          in case cal_prepare w q use_tmout v (cal_start q afl) of
               Inl err \<Rightarrow> Some (Inl err)
             | Inr (stop, v, afl) \<Rightarrow>
                 if stop then Some (cal_abort w q first_run old v afl)
                 else
                   (case get_cur_time_us w afl of (start_us, afl) \<Rightarrow>
                      (case cal_loop w q use_tmout v (afl\<lparr>stage_cur := 0\<rparr>) of
                         None \<Rightarrow> None
                       | Some (Inl err) \<Rightarrow> Some (Inl err)
                       | Some (Inr (stop, v, afl)) \<Rightarrow>
                           if stop then Some (cal_abort w q first_run old v afl)
                           else Some (
                             bind_result (cal_finish w q start_us handicap0 afl) (\<lambda>afl.
                             let v = (if \<not> non_instrumented_mode afl \<and> first_run \<and> cv_fault v = FSRV_RUN_OK
                                         \<and> cv_new_bits v = 0
                                      then v\<lparr>cv_fault := FSRV_RUN_NOBITS\<rparr> else v)
                             in cal_abort w q first_run old v afl)))))"

section \<open>Frames\<close>

text \<open>What handing over an input may change.\<close>

definition unsent :: "'a afl_run_scheme \<Rightarrow> 'a afl_run_scheme" where
  "unsent afl = afl\<lparr>fs := Map.empty, shmem_fuzz := [], shmem_fuzz_len := 0, out_fd_data := None, custom_sent := None,
     custom_mutator_list := [], bufs_swapped := False\<rparr>"

lemma unsent_upd [simp]:
  "unsent (afl\<lparr>fs := f\<rparr>) = unsent afl" "unsent (afl\<lparr>shmem_fuzz := b\<rparr>) = unsent afl"
  "unsent (afl\<lparr>shmem_fuzz_len := n\<rparr>) = unsent afl" "unsent (afl\<lparr>out_fd_data := d\<rparr>) = unsent afl"
  "unsent (afl\<lparr>custom_sent := c\<rparr>) = unsent afl" "unsent (afl\<lparr>custom_mutator_list := l\<rparr>) = unsent afl"
  "unsent (afl\<lparr>bufs_swapped := x\<rparr>) = unsent afl"
  by (simp_all add: unsent_def)

lemma unsent_same: "unsent a = unsent b \<Longrightarrow> (\<And>x. P (unsent x) = P x) \<Longrightarrow> P a = P b"
  by metis

lemma rewrite_file_unsent: "rewrite_file k afl fn data = Inr afl' \<Longrightarrow> unsent afl' = unsent afl"
  for afl :: "'a afl_run_scheme"
  by (auto simp: rewrite_file_def creat_excl_Inr creat_trunc_Inr unlink_quiet_def unlink_file_def split: if_splits)

lemma write_out_fd_unsent: "write_out_fd afl data n = Inr afl' \<Longrightarrow> unsent afl' = unsent afl"
  by (auto simp: write_out_fd_def split: option.splits)

lemma fsrv_write_unsent:
  assumes "afl_fsrv_write_to_testcase w afl buf n = Inr afl'"
  shows "unsent afl' = unsent afl"
  using assms rewrite_file_unsent [of "fsrv_no_unlink afl" "afl\<lparr>custom_sent := None\<rparr>" _ _ afl']
    write_out_fd_unsent [of "afl\<lparr>custom_sent := None\<rparr>" _ _ afl']
  by (auto simp: afl_fsrv_write_to_testcase_def Let_def bind_result_Inr_iff split: if_splits option.splits bool.splits)

lemma deliver_custom_unsent: "deliver_custom w afl buf saved n len0 = Inr (m, k, afl') \<Longrightarrow> unsent afl' = unsent afl"
  by (auto simp: deliver_custom_def bind_result_Inr_iff dest: fsrv_write_unsent split: if_splits)

lemma write_to_testcase_unsent:
  assumes "write_to_testcase w afl mem n fix_run = Inr (m, k, afl')"
  shows "unsent afl' = unsent afl"
proof (cases "custom_mutators_count afl = 0")
  case True
  then show ?thesis
    using assms by (auto simp: write_to_testcase_def Let_def bind_result_Inr_iff dest: fsrv_write_unsent)
next
  case False
  then have "write_custom w afl mem n fix_run = Inr (m, k, afl')" using assms by (simp add: write_to_testcase_def)
  then show ?thesis
    by (auto simp: write_custom_def Let_def bind_result_Inr_iff dest!: deliver_custom_unsent split: if_splits)
qed

text \<open>What handing over an input and running it may change.\<close>

definition rested :: "'a afl_run_scheme \<Rightarrow> 'a afl_run_scheme" where
  "rested afl = unsent (idle afl)"

lemma idle_unsent: "idle (unsent afl) = unsent (idle afl)"
  by (rule afl_run.equality) (simp_all add: idle_def unsent_def)

lemma rested_same: "rested a = rested b \<Longrightarrow> (\<And>x. P (rested x) = P x) \<Longrightarrow> P a = P b"
  by metis

lemma run_target_runs:
  assumes "fuzz_run_target w afl timeout = Inr (res, afl')"
  shows "runs afl' = Suc (runs afl)"
proof -
  have out: "run_outcome a = (r, b) \<Longrightarrow> runs b = runs a" for a b :: "'a afl_run_scheme" and r
    using run_outcome_eq [of a] by auto
  have clear: "runs (clear_trace a) = runs a" for a :: "'a afl_run_scheme" by (simp add: clear_trace_def)
  show ?thesis
    using assms unfolding fuzz_run_target_def afl_fsrv_run_target_def Let_def pipe_failure_def
    by (auto simp: clear split: if_splits option.splits dest!: out)
qed

lemma cal_run_frame:
  assumes "cal_run w q use_tmout v afl = Inr (stop, v', afl')"
  shows "rested afl' = rested afl \<and> runs afl' = Suc (runs afl) \<and> length (trace_bits afl') = length (trace_bits afl)
    \<and> cv_new_bits v' = cv_new_bits v \<and> cv_var_detected v' = cv_var_detected v"
proof -
  from assms obtain n m k a1 fault where
    wr: "write_to_testcase w afl (cv_mem v) n True = Inr (m, k, a1)"
    and run: "fuzz_run_target w a1 use_tmout = Inr (fault, afl')"
    and v': "cv_new_bits v' = cv_new_bits v" "cv_var_detected v' = cv_var_detected v"
    by (auto simp: cal_run_def bind_result_Inr_iff Let_def split: if_splits)
  have u: "unsent a1 = unsent afl" by (rule write_to_testcase_unsent [OF wr])
  have "rested afl' = rested a1" using run_target_idle [OF run] by (simp add: rested_def)
  also have "\<dots> = rested afl" using arg_cong [OF u, of idle] by (simp add: rested_def idle_unsent)
  finally have "rested afl' = rested afl" .
  moreover have "runs a1 = runs afl" "trace_bits a1 = trace_bits afl"
    by (rule unsent_same [OF u]; simp add: unsent_def)+
  ultimately show ?thesis using run_target_runs [OF run] run_target_idle [OF run] v' by simp
qed

lemma has_new_bits_run_frame [frame]:
  fixes afl :: "'a afl_run_scheme"
  shows "stage_cur (snd (has_new_bits afl vm)) = stage_cur afl" "stage_max (snd (has_new_bits afl vm)) = stage_max afl"
    "runs (snd (has_new_bits afl vm)) = runs afl" "queue_buf (snd (has_new_bits afl vm)) = queue_buf afl"
    "var_bytes (snd (has_new_bits afl vm)) = var_bytes afl" "first_trace (snd (has_new_bits afl vm)) = first_trace afl"
    "queued_variable (snd (has_new_bits afl vm)) = queued_variable afl"
    "afl_cal_fast (snd (has_new_bits afl vm)) = afl_cal_fast afl"
  by (cases vm; simp add: has_new_bits_def Let_def split: prod.split)+

lemma see_new_bits_eq:
  "see_new_bits v afl = (if cv_new_bits v < fst (has_new_bits afl Virgin_bits)
     then v\<lparr>cv_new_bits := fst (has_new_bits afl Virgin_bits)\<rparr> else v, snd (has_new_bits afl Virgin_bits))"
  by (simp add: see_new_bits_def split: prod.split)

text \<open>The three ways a comparison ends.\<close>

lemma cal_compare_cases:
  assumes "cal_compare w q v afl = Inr (v', afl')"
  obtains (same) "exec_cksum (queue_buf afl ! q) = trace_cksum w afl" "v' = v" "afl' = afl" "q < length (queue_buf afl)"
  | (unstable) a where "exec_cksum (queue_buf afl ! q) \<noteq> trace_cksum w afl" "exec_cksum (queue_buf afl ! q) \<noteq> 0"
      "mark_variable_bytes (snd (has_new_bits afl Virgin_bits)) = Inr a"
      "afl' = a\<lparr>stage_max := (if afl_cal_fast a then CAL_CYCLES else CAL_CYCLES_LONG)\<rparr>" "cv_var_detected v'"
      "q < length (queue_buf afl)"
  | (first) t where "exec_cksum (queue_buf afl ! q) = 0"
      "afl' = (upd_q (\<lambda>e. e\<lparr>exec_cksum := trace_cksum w afl\<rparr>) q (snd (has_new_bits afl Virgin_bits)))\<lparr>first_trace := t\<rparr>"
      "length t = length (first_trace afl)" "cv_var_detected v' = cv_var_detected v" "q < length (queue_buf afl)"
      "cv_mem v' = cv_mem v"
proof -
  have q: "q < length (queue_buf afl)"
    using assms by (cases "q < length (queue_buf afl)") (simp_all add: cal_compare_def get_q_def)
  show ?thesis
  proof (cases "exec_cksum (queue_buf afl ! q) = trace_cksum w afl")
    case True
    have "v' = v" "afl' = afl" using assms q True by (simp_all add: cal_compare_def get_q_def)
    from True this q show ?thesis by (rule same)
  next
    case differ: False
    let ?a = "snd (has_new_bits afl Virgin_bits)"
    show ?thesis
    proof (cases "exec_cksum (queue_buf afl ! q) = 0")
      case True
      let ?b = "upd_q (\<lambda>e. e\<lparr>exec_cksum := trace_cksum w afl\<rparr>) q ?a"
      have "\<exists>t. copy_map ''first_trace'' ?b (trace_bits ?b) (first_trace ?b) = Inr t \<and> afl' = ?b\<lparr>first_trace := t\<rparr>
          \<and> cv_var_detected v' = cv_var_detected v \<and> cv_mem v' = cv_mem v"
        using assms q differ True
        by (auto simp: cal_compare_def get_q_def see_new_bits_eq Let_def bind_result_Inr_iff)
      then obtain t where "copy_map ''first_trace'' ?b (trace_bits ?b) (first_trace ?b) = Inr t"
        "afl' = ?b\<lparr>first_trace := t\<rparr>" "cv_var_detected v' = cv_var_detected v" "cv_mem v' = cv_mem v" by blast
      moreover from this(1) have "length t = length (first_trace ?b)"
        by (auto simp: copy_map_def mem_read_def mem_write_def bind_result_Inr_iff split: if_splits)
      moreover have "first_trace ?b = first_trace afl" by (simp add: has_new_bits_run_frame)
      ultimately show ?thesis using True q by (intro first [of t]) simp_all
    next
      case False
      then have "\<exists>a. mark_variable_bytes ?a = Inr a
          \<and> afl' = a\<lparr>stage_max := (if afl_cal_fast a then CAL_CYCLES else CAL_CYCLES_LONG)\<rparr> \<and> cv_var_detected v'"
        using assms q differ
        by (auto simp: cal_compare_def get_q_def see_new_bits_eq Let_def bind_result_Inr_iff)
      then show ?thesis using unstable differ False q by blast
    qed
  qed
qed

section \<open>The loop ends\<close>

lemma upd_q_cal_frame [frame, simp]:
  fixes afl :: "'a afl_run_scheme"
  shows "runs (upd_q f q afl) = runs afl" "var_bytes (upd_q f q afl) = var_bytes afl"
    "virgin_bits (upd_q f q afl) = virgin_bits afl" "stage_name (upd_q f q afl) = stage_name afl"
    "virgin_tmout (upd_q f q afl) = virgin_tmout afl" "virgin_crash (upd_q f q afl) = virgin_crash afl"
    "real_map_size (upd_q f q afl) = real_map_size afl" "queued_variable (upd_q f q afl) = queued_variable afl"
  by (simp_all add: upd_q_def)

lemma mark_variable_bytes_frame:
  assumes "mark_variable_bytes afl = Inr afl'"
  shows "stage_cur afl' = stage_cur afl" "runs afl' = runs afl" "queue_buf afl' = queue_buf afl"
    "trace_bits afl' = trace_bits afl" "map_size afl' = map_size afl" "first_trace afl' = first_trace afl"
  using assms by (auto simp: mark_variable_bytes_def Let_def split: if_splits)

lemma cal_compare_progress:
  assumes "cal_compare w q v afl = Inr (v', afl')"
  shows "stage_cur afl' = stage_cur afl \<and> runs afl' = runs afl
    \<and> (stage_max afl' = stage_max afl \<or> stage_max afl' = CAL_CYCLES \<or> stage_max afl' = CAL_CYCLES_LONG)"
  using assms
proof (cases rule: cal_compare_cases)
  case (unstable a)
  then show ?thesis using mark_variable_bytes_frame [OF unstable(3)] by (simp add: has_new_bits_run_frame)
next
  case (first t)
  then show ?thesis by (simp add: has_new_bits_run_frame)
qed simp

lemma cal_run_progress:
  assumes "cal_run w q use_tmout v afl = Inr (stop, v', afl')"
  shows "stage_cur afl' = stage_cur afl" "stage_max afl' = stage_max afl" "runs afl' = Suc (runs afl)"
proof -
  note same = rested_same [OF conjunct1 [OF cal_run_frame [OF assms]]]
  show "stage_cur afl' = stage_cur afl" "stage_max afl' = stage_max afl"
    by (rule same; simp add: rested_def unsent_def idle_def)+
  show "runs afl' = Suc (runs afl)" using cal_run_frame [OF assms] by simp
qed

lemma cal_round_progress:
  assumes "cal_round w q use_tmout v afl = Inr (stop, v', afl')"
  shows "runs afl' = Suc (runs afl) \<and> (\<not> stop \<longrightarrow> stage_cur afl' = stage_cur afl + 1 \<and>
    (stage_max afl' = stage_max afl \<or> stage_max afl' = CAL_CYCLES \<or> stage_max afl' = CAL_CYCLES_LONG))"
proof -
  from assms obtain st v1 a1 where run: "cal_run w q use_tmout v afl = Inr (st, v1, a1)"
    and rest: "(if st then Inr (True, v1, a1)
      else bind_result (cal_compare w q v1 (classify_counts a1)) (\<lambda>(v, afl).
           Inr (False, v, afl\<lparr>stage_cur := stage_cur afl + 1\<rparr>))) = Inr (stop, v', afl')"
    by (auto simp: cal_round_def bind_result_Inr_iff)
  have cl: "stage_cur (classify_counts a1) = stage_cur a1" "stage_max (classify_counts a1) = stage_max a1"
    "runs (classify_counts a1) = runs a1" by (simp_all add: classify_counts_def)
  show ?thesis
  proof (cases st)
    case True
    then show ?thesis using rest cal_run_progress(3) [OF run] by auto
  next
    case False
    then obtain a2 where cmp: "cal_compare w q v1 (classify_counts a1) = Inr (v', a2)"
      and fin: "stop = False" "afl' = a2\<lparr>stage_cur := stage_cur a2 + 1\<rparr>"
      using rest by (auto simp: bind_result_Inr_iff)
    then show ?thesis using cal_compare_progress [OF cmp] cal_run_progress [OF run] cl by simp
  qed
qed

lemma cal_loop_returns:
  "unat (stage_max afl) \<le> 12 \<Longrightarrow> \<exists>r. cal_loop w q use_tmout v afl = Some r
     \<and> (\<forall>stop v' afl'. r = Inr (stop, v', afl') \<longrightarrow> runs afl' \<le> runs afl + (12 - unat (stage_cur afl)))"
proof (induction "12 - unat (stage_cur afl)" arbitrary: v afl rule: less_induct)
  case less
  show ?case
  proof (cases "stage_cur afl < stage_max afl")
    case False
    then show ?thesis by (subst cal_loop.simps) simp
  next
    case True
    then have lt: "unat (stage_cur afl) < 12" using less.prems by (simp add: word_less_nat_alt)
    show ?thesis
    proof (cases "cal_round w q use_tmout v afl")
      case (Inl err)
      then show ?thesis using True by (subst cal_loop.simps) simp
    next
      case (Inr res)
      obtain stop v1 a1 where res: "res = (stop, v1, a1)" by (cases res)
      note pr = cal_round_progress [OF Inr [unfolded res]]
      show ?thesis
      proof (cases stop)
        case stop: True
        have "cal_loop w q use_tmout v afl = Some (Inr (True, v1, a1))"
          using True Inr res stop by (subst cal_loop.simps) simp
        moreover have "runs a1 \<le> runs afl + (12 - unat (stage_cur afl))" using pr lt by simp
        ultimately show ?thesis by blast
      next
        case False
        have one: "unat (stage_cur a1) = Suc (unat (stage_cur afl))"
          using pr False lt by (simp add: unat_add_small)
        have max12: "unat (stage_max a1) \<le> 12" using pr False less.prems by auto
        have "12 - unat (stage_cur a1) < 12 - unat (stage_cur afl)" using one lt by linarith
        from less.hyps [OF this max12, of v1] obtain r where r: "cal_loop w q use_tmout v1 a1 = Some r"
          "\<And>stop v' afl'. r = Inr (stop, v', afl') \<Longrightarrow> runs afl' \<le> runs a1 + (12 - unat (stage_cur a1))"
          by blast
        have "cal_loop w q use_tmout v afl = Some r"
          using True Inr res False r(1) by (subst cal_loop.simps) simp
        moreover have "runs afl' \<le> runs afl + (12 - unat (stage_cur afl))" if "r = Inr (st, v', afl')" for st v' afl'
          using r(2) [OF that] pr one lt by simp
        ultimately show ?thesis by blast
      qed
    qed
  qed
qed

lemma mark_as_variable_frame:
  assumes "mark_as_variable afl q = Inr afl'"
  shows "\<exists>f. afl' = upd_q (\<lambda>e. e\<lparr>var_behavior := True\<rparr>) q (afl\<lparr>fs := f\<rparr>) \<and> q < length (queue_buf afl)"
  using assms
  by (auto simp: mark_as_variable_def step_Inr symlink_def split: option.splits if_splits)

text \<open>What the end of a calibration may touch, and that it puts the stage back.\<close>

definition names_kept :: "(queue_entry \<Rightarrow> queue_entry) \<Rightarrow> bool" where
  "names_kept f \<longleftrightarrow> (\<forall>e. fname (f e) = fname e \<and> len (f e) = len e)"

lemma cal_abort_frame:
  fixes P :: "'a afl_run_scheme \<Rightarrow> 'b"
  assumes "cal_abort w q first_run (sn, sc, sm) v afl = Inr (fault, afl')" and "stats_keep w"
    and updq: "\<And>x f. names_kept f \<Longrightarrow> P (upd_q f q x) = P x"
    and upd: "\<And>x n. P (x\<lparr>queued_with_cov := n\<rparr>) = P x" "\<And>x n. P (x\<lparr>var_byte_count := n\<rparr>) = P x" "\<And>x f. P (x\<lparr>fs := f\<rparr>) = P x"
      "\<And>x n. P (x\<lparr>queued_variable := n\<rparr>) = P x" "\<And>x. P (stats_free x) = P x"
    and put: "\<And>x y. P x = P y \<Longrightarrow>
      P (x\<lparr>stage_name := sn, stage_cur := sc, stage_max := sm\<rparr>) = P (y\<lparr>stage_name := sn, stage_cur := sc, stage_max := sm\<rparr>)"
  shows "P afl' = P (afl\<lparr>stage_name := sn, stage_cur := sc, stage_max := sm\<rparr>)"
proof -
  define a1 where "a1 = (if cv_new_bits v = 2 \<and> \<not> has_new_cov (queue_buf afl ! q)
      then (upd_q (\<lambda>e. e\<lparr>has_new_cov := True\<rparr>) q afl)\<lparr>queued_with_cov := queued_with_cov afl + 1\<rparr> else afl)"
  have q: "get_q afl q = Inr (queue_buf afl ! q)"
    using assms(1) by (auto simp: cal_abort_def bind_result_Inr_iff get_q_Inr)
  have "\<exists>a2. P a2 = P a1 \<and> afl' = (if first_run then a2\<lparr>stage_name := sn, stage_cur := sc, stage_max := sm\<rparr>
      else w_show_stats w (a2\<lparr>stage_name := sn, stage_cur := sc, stage_max := sm\<rparr>))"
  proof (cases "cv_var_detected v \<and> \<not> var_behavior (queue_buf afl ! q)")
    case True
    then obtain a2 where a2: "mark_as_variable (a1\<lparr>var_byte_count := count_bytes a1 (var_bytes a1)\<rparr>) q = Inr a2"
      "afl' = (let afl = a2\<lparr>queued_variable := queued_variable a2 + 1, stage_name := sn, stage_cur := sc, stage_max := sm\<rparr>
        in if first_run then afl else w_show_stats w afl)"
      using assms(1) q by (auto simp: cal_abort_def bind_result_Inr_iff Let_def a1_def)
    then have "P (a2\<lparr>queued_variable := queued_variable a2 + 1\<rparr>) = P a1"
      using mark_as_variable_frame [OF a2(1)] upd updq [of "\<lambda>e. e\<lparr>var_behavior := True\<rparr>"] by (auto simp: names_kept_def)
    then show ?thesis using a2(2) by (intro exI conjI) (assumption, simp add: Let_def)
  next
    case False
    let ?a = "if cv_var_detected v then a1\<lparr>var_byte_count := count_bytes a1 (var_bytes a1)\<rparr> else a1"
    have "P ?a = P a1" by (simp add: upd)
    moreover have "afl' = (if first_run then ?a\<lparr>stage_name := sn, stage_cur := sc, stage_max := sm\<rparr>
        else w_show_stats w (?a\<lparr>stage_name := sn, stage_cur := sc, stage_max := sm\<rparr>))"
      using assms(1) q False by (auto simp: cal_abort_def bind_result_Inr_iff Let_def a1_def split: if_splits)
    ultimately show ?thesis by blast
  qed
  then obtain a2 where a2: "P a2 = P a1" "afl' = (if first_run then a2\<lparr>stage_name := sn, stage_cur := sc, stage_max := sm\<rparr>
      else w_show_stats w (a2\<lparr>stage_name := sn, stage_cur := sc, stage_max := sm\<rparr>))" by blast
  have "P a1 = P afl" by (simp add: a1_def upd updq names_kept_def)
  then have "P (a2\<lparr>stage_name := sn, stage_cur := sc, stage_max := sm\<rparr>)
      = P (afl\<lparr>stage_name := sn, stage_cur := sc, stage_max := sm\<rparr>)" using a2(1) by (intro put) simp
  then show ?thesis using a2(2) stats_same [OF assms(2), of P] upd(5) by simp
qed

section \<open>The whole calibration\<close>

abbreviation cal_vars0 :: "bytes \<Rightarrow> cal_vars" where
  "cal_vars0 use_mem \<equiv> \<lparr>cv_mem = use_mem, cv_fault = FSRV_RUN_OK, cv_new_bits = 0, cv_var_detected = False\<rparr>"

text \<open>The state the loop starts from.\<close>

abbreviation cal_enter :: "'a afl_run_scheme \<Rightarrow> 'a afl_run_scheme" where
  "cal_enter afl \<equiv> afl\<lparr>ticks := ticks afl + 1, stage_cur := 0\<rparr>"

lemma calibrate_case_end:
  assumes "calibrate_case w afl q use_mem handicap0 from_queue = Some (Inr (fault, afl'))"
  obtains first_run v a where
    "cal_abort w q first_run (stage_name afl, stage_cur afl, stage_max afl) v a = Inr (fault, afl')"
    "cal_prepare w q (calibration_tmout afl from_queue) (cal_vars0 use_mem) (cal_start q afl) = Inr (True, v, a)"
  | first_run v1 a1 v a where
    "cal_abort w q first_run (stage_name afl, stage_cur afl, stage_max afl) v a = Inr (fault, afl')"
    "cal_prepare w q (calibration_tmout afl from_queue) (cal_vars0 use_mem) (cal_start q afl) = Inr (False, v1, a1)"
    "cal_loop w q (calibration_tmout afl from_queue) v1 (cal_enter a1) = Some (Inr (True, v, a))"
  | first_run v1 a1 v2 a2 start_us v a where
    "cal_abort w q first_run (stage_name afl, stage_cur afl, stage_max afl) v a = Inr (fault, afl')"
    "cal_prepare w q (calibration_tmout afl from_queue) (cal_vars0 use_mem) (cal_start q afl) = Inr (False, v1, a1)"
    "cal_loop w q (calibration_tmout afl from_queue) v1 (cal_enter a1) = Some (Inr (False, v2, a2))"
    "cal_finish w q start_us handicap0 a2 = Inr a" "cv_var_detected v = cv_var_detected v2"
proof -
  let ?old = "(stage_name afl, stage_cur afl, stage_max afl)" and ?tmo = "calibration_tmout afl from_queue"
  obtain e where e: "get_q afl q = Inr e"
    using assms by (cases "get_q afl q") (simp_all add: calibrate_case_def)
  obtain stop v1 a1 where prep: "cal_prepare w q ?tmo (cal_vars0 use_mem) (cal_start q afl) = Inr (stop, v1, a1)"
    using assms e
    by (cases "cal_prepare w q ?tmo (cal_vars0 use_mem) (cal_start q afl)") (auto simp: calibrate_case_def Let_def)
  show thesis
  proof (cases stop)
    case True
    then show thesis using that(1) [of "exec_cksum e = 0" v1 a1] assms e prep by (simp add: calibrate_case_def Let_def)
  next
    case False
    obtain stop' v2 a2 where loop: "cal_loop w q ?tmo v1 (cal_enter a1) = Some (Inr (stop', v2, a2))"
      using assms e prep False
      by (cases "cal_loop w q ?tmo v1 (cal_enter a1)")
        (auto simp: calibrate_case_def Let_def get_cur_time_us_def split: sum.splits)
    show thesis
    proof (cases stop')
      case True
      then show thesis
        using that(2) [of "exec_cksum e = 0" v2 a2 v1 a1] assms e prep False loop
        by (simp add: calibrate_case_def Let_def get_cur_time_us_def)
    next
      case go: False
      then have fin: "bind_result (cal_finish w q (w_clock_us w (ticks a1)) handicap0 a2) (\<lambda>afl'.
          let v = (if \<not> non_instrumented_mode afl' \<and> exec_cksum e = 0 \<and> cv_fault v2 = FSRV_RUN_OK \<and> cv_new_bits v2 = 0
                   then v2\<lparr>cv_fault := FSRV_RUN_NOBITS\<rparr> else v2)
          in cal_abort w q (exec_cksum e = 0) ?old v afl') = Inr (fault, afl')"
        using assms e prep False loop by (simp add: calibrate_case_def Let_def get_cur_time_us_def)
      then obtain a where a: "cal_finish w q (w_clock_us w (ticks a1)) handicap0 a2 = Inr a"
        by (auto simp: bind_result_Inr_iff)
      let ?v = "if \<not> non_instrumented_mode a \<and> exec_cksum e = 0 \<and> cv_fault v2 = FSRV_RUN_OK \<and> cv_new_bits v2 = 0
        then v2\<lparr>cv_fault := FSRV_RUN_NOBITS\<rparr> else v2"
      have "cal_abort w q (exec_cksum e = 0) ?old ?v a = Inr (fault, afl')" using fin a by (simp add: Let_def)
      then show thesis using that(3) prep False loop go a by simp
    qed
  qed
qed

text \<open>An invariant of the pieces holds at the end.\<close>

lemma cal_loop_inv:
  fixes I :: "cal_vars \<Rightarrow> 'a afl_run_scheme \<Rightarrow> bool"
  assumes round_inv: "\<And>v a stop v' a'. I v a \<Longrightarrow> cal_round w q use_tmout v a = Inr (stop, v', a') \<Longrightarrow> I v' a'"
    and init: "I v0 a0" and ret: "cal_loop w q use_tmout v0 a0 = Some r"
  shows "r = Inr (stop, v', a') \<Longrightarrow> I v' a' \<and> (stop \<or> stage_max a' \<le> stage_cur a')"
proof -
  let ?Q = "\<lambda>r. \<forall>st v' a'. r = Inr (st, v', a') \<longrightarrow> I v' a' \<and> (st \<or> stage_max a' \<le> stage_cur a')"
  let ?P = "\<lambda>w1 q1 tmo1 v a r. w1 = w \<and> q1 = q \<and> tmo1 = use_tmout \<and> I v a \<longrightarrow> ?Q r"
  have "?P w q use_tmout v0 a0 r"
    apply (rule cal_loop.raw_induct [where P = ?P, OF _ ret])
    subgoal premises prems for f w1 q1 tmo1 v a r
    proof (intro impI)
      assume h: "w1 = w \<and> q1 = q \<and> tmo1 = use_tmout \<and> I v a"
      show "?Q r"
      proof (cases "stage_cur a < stage_max a")
        case False
        then show ?thesis using prems(2) h by auto
      next
        case True
        show ?thesis
        proof (cases "cal_round w q use_tmout v a")
          case (Inl err)
          then show ?thesis using prems(2) True h by auto
        next
          case (Inr x)
          obtain st v1 a1 where x: "x = (st, v1, a1)" by (cases x)
          have i1: "I v1 a1" using round_inv [of v a st v1 a1] h Inr x by simp
          show ?thesis
          proof (cases st)
            case True
            then show ?thesis using prems(2) \<open>stage_cur a < stage_max a\<close> h Inr x i1 by auto
          next
            case False
            then have "f w q use_tmout v1 a1 = Some r"
              using prems(2) \<open>stage_cur a < stage_max a\<close> h Inr x by simp
            from prems(1) [OF this] show ?thesis using i1 by simp
          qed
        qed
      qed
    qed
    done
  then show "r = Inr (stop, v', a') \<Longrightarrow> I v' a' \<and> (stop \<or> stage_max a' \<le> stage_cur a')" using init by blast
qed

lemma cal_start_frame:
  fixes afl :: "'a afl_run_scheme"
  shows "runs (cal_start q afl) = runs afl" "var_bytes (cal_start q afl) = var_bytes afl"
    "virgin_bits (cal_start q afl) = virgin_bits afl" "fsrv_pid (cal_start q afl) = fsrv_pid afl"
    "unat (stage_max (cal_start q afl)) \<le> 12"
  by (simp_all add: cal_start_def Let_def upd_q_def)

text \<open>The part before the loop, with the fork server up.\<close>

lemma cal_prepare_end:
  assumes "cal_prepare w q use_tmout v afl = Inr (stop, v', afl')" and "fsrv_pid afl \<noteq> 0"
  obtains v1 a1 where "(v1, a1) = (v, afl) \<or> (\<exists>st. cal_run w q use_tmout v afl = Inr (st, v1, a1))"
    "(v', afl') = (v1, a1) \<or> (\<exists>t. see_new_bits v1 (a1\<lparr>first_trace := t\<rparr>) = (v', afl'))"
proof -
  obtain st v1 a1 where run: "(if cmplog_mode afl then cal_run w q use_tmout v afl else Inr (False, v, afl)) = Inr (st, v1, a1)"
    and rest: "(if st then Inr (True, v1, a1)
       else bind_result (get_q a1 q) (\<lambda>e.
         if exec_cksum e = 0 then Inr (False, v1, a1)
         else bind_result (copy_map ''first_trace'' a1 (trace_bits a1) (first_trace a1)) (\<lambda>t.
            case see_new_bits v1 (a1\<lparr>first_trace := t\<rparr>) of (v, afl) \<Rightarrow> Inr (False, v, afl)))) = Inr (stop, v', afl')"
    using assms by (auto simp: cal_prepare_def ensure_fsrv_def bind_result_Inr_iff)
  have "(v1, a1) = (v, afl) \<or> (\<exists>st. cal_run w q use_tmout v afl = Inr (st, v1, a1))"
    using run by (auto split: if_splits)
  moreover have "(v', afl') = (v1, a1) \<or> (\<exists>t. see_new_bits v1 (a1\<lparr>first_trace := t\<rparr>) = (v', afl'))"
    using rest by (auto simp: bind_result_Inr_iff split: if_splits prod.splits)
  ultimately show thesis by (rule that)
qed

lemma cal_prepare_progress:
  assumes "cal_prepare w q use_tmout v afl = Inr (stop, v', afl')" and "fsrv_pid afl \<noteq> 0"
  shows "stage_max afl' = stage_max afl \<and> runs afl' \<le> Suc (runs afl)"
proof -
  from assms obtain v1 a1 where run: "(v1, a1) = (v, afl) \<or> (\<exists>st. cal_run w q use_tmout v afl = Inr (st, v1, a1))"
    and see: "(v', afl') = (v1, a1) \<or> (\<exists>t. see_new_bits v1 (a1\<lparr>first_trace := t\<rparr>) = (v', afl'))"
    by (rule cal_prepare_end)
  have "stage_max a1 = stage_max afl" "runs a1 \<le> Suc (runs afl)"
    using run by (auto dest: cal_run_progress)
  then show ?thesis using see by (auto simp: see_new_bits_eq has_new_bits_run_frame)
qed

lemma cal_finish_frame:
  fixes P :: "'a afl_run_scheme \<Rightarrow> 'b"
  assumes "cal_finish w q start_us handicap0 afl = Inr afl'" and updq: "\<And>x f. names_kept f \<Longrightarrow> P (upd_q f q x) = P x"
    and upd: "\<And>x n. P (x\<lparr>ticks := n\<rparr>) = P x" "\<And>x n. P (x\<lparr>total_cal_us := n\<rparr>) = P x"
      "\<And>x n. P (x\<lparr>total_cal_cycles := n\<rparr>) = P x" "\<And>x n. P (x\<lparr>total_bitmap_size := n\<rparr>) = P x"
      "\<And>x n. P (x\<lparr>total_bitmap_entries := n\<rparr>) = P x"
    and rated: "\<And>x. P (unrated x) = P x"
  shows "P afl' = P afl"
proof -
  obtain d a where t: "cal_time w start_us afl = (d, a)" by (cases "cal_time w start_us afl")
  have a: "P a = P afl" using t by (auto simp: cal_time_def get_cur_time_us_def upd split: if_splits)
  obtain us bs wt x y z u where "update_bitmap_score ((upd_q (\<lambda>e. e\<lparr>exec_us := us, bitmap_size := bs, bitmap_weight := wt,
        handicap := ucast handicap0, cal_failed := 0\<rparr>) q (a\<lparr>total_cal_us := x, total_cal_cycles := y\<rparr>))
      \<lparr>total_bitmap_size := z, total_bitmap_entries := u\<rparr>) q = Inr afl'"
    using assms(1) t by (auto simp: cal_finish_def Let_def bind_result_Inr_iff split: if_splits)
  from arg_cong [OF update_bitmap_score_unrated [OF this], of P] show ?thesis by (simp add: rated upd updq names_kept_def a)
qed

lemma calibrate_case_some:
  assumes "fsrv_pid afl \<noteq> 0"
  shows "\<exists>r. calibrate_case w afl q use_mem handicap0 from_queue = Some r"
proof (cases "get_q afl q")
  case (Inl err)
  then show ?thesis by (simp add: calibrate_case_def)
next
  case (Inr e)
  let ?tmo = "calibration_tmout afl from_queue"
  show ?thesis
  proof (cases "cal_prepare w q ?tmo (cal_vars0 use_mem) (cal_start q afl)")
    case (Inl err)
    then show ?thesis using Inr by (simp add: calibrate_case_def Let_def)
  next
    case prep: (Inr x)
    obtain stop v1 a1 where x: "x = (stop, v1, a1)" by (cases x)
    have "unat (stage_max (cal_enter a1)) \<le> 12"
      using cal_prepare_progress [OF prep [unfolded x]] cal_start_frame(4,5) [of q afl] assms by simp
    from cal_loop_returns [OF this, of w q ?tmo v1] obtain r where "cal_loop w q ?tmo v1 (cal_enter a1) = Some r" by blast
    then show ?thesis
      using Inr prep x
      by (cases r) (auto simp: calibrate_case_def Let_def get_cur_time_us_def split: prod.splits if_splits)
  qed
qed

lemma cal_abort_runs:
  assumes "cal_abort w q first_run (sn, sc, sm) v afl = Inr (fault, afl')" and "stats_keep w"
  shows "runs afl' = runs afl" "stage_name afl' = sn" "stage_cur afl' = sc" "stage_max afl' = sm"
  using cal_abort_frame [OF assms, of runs] cal_abort_frame [OF assms, of stage_name]
    cal_abort_frame [OF assms, of stage_cur] cal_abort_frame [OF assms, of stage_max]
  by (simp_all add: stats_free_def)

lemma calibrate_case_effect:
  assumes cal: "calibrate_case w afl q use_mem handicap0 from_queue = Some (Inr (fault, afl'))"
    and pid: "fsrv_pid afl \<noteq> 0" and stats: "stats_keep w"
  shows "stage_name afl' = stage_name afl \<and> stage_cur afl' = stage_cur afl \<and> stage_max afl' = stage_max afl
    \<and> runs afl' \<le> runs afl + 13"
proof -
  let ?tmo = "calibration_tmout afl from_queue" and ?old = "(stage_name afl, stage_cur afl, stage_max afl)"
  note start = cal_start_frame [of q afl]
  have pid': "fsrv_pid (cal_start q afl) \<noteq> 0" using pid start by simp
  have loop: "runs a \<le> runs afl + 13"
    if prep: "cal_prepare w q ?tmo (cal_vars0 use_mem) (cal_start q afl) = Inr (st, v1, a1)"
      and lp: "cal_loop w q ?tmo v1 (cal_enter a1) = Some (Inr (stop, v, a))" for st v1 a1 stop v a
  proof -
    note pr = cal_prepare_progress [OF prep pid']
    have "unat (stage_max (cal_enter a1)) \<le> 12" using pr start by simp
    from cal_loop_returns [OF this, of w q ?tmo v1] lp have "runs a \<le> runs a1 + 12" by auto
    then show ?thesis using pr start by simp
  qed
  have "\<exists>first_run v a. cal_abort w q first_run ?old v a = Inr (fault, afl') \<and> runs a \<le> runs afl + 13"
    using cal
  proof (cases rule: calibrate_case_end)
    case (1 first_run v a)
    then have "runs a \<le> runs afl + 13" using cal_prepare_progress [OF 1(2) pid'] start by simp
    then show ?thesis using 1(1) by blast
  next
    case (2 first_run v1 a1 v a)
    then show ?thesis using loop by blast
  next
    case (3 first_run v1 a1 v2 a2 start_us v a)
    have "runs a = runs a2" by (rule cal_finish_frame [OF 3(4)]) (simp_all add: unrated_def)
    then have "runs a \<le> runs afl + 13" using loop [OF 3(2,3)] by simp
    then show ?thesis using 3(1) by blast
  qed
  then show ?thesis using cal_abort_runs [OF _ stats] by metis
qed

section \<open>Variable bytes\<close>

text \<open>A byte marked variable is no longer a virgin byte.\<close>

definition variable_silenced :: "'a afl_run_scheme \<Rightarrow> bool" where
  "variable_silenced afl \<longleftrightarrow> cov_wf afl \<and> length (var_bytes afl) = unat (map_size afl)
     \<and> (\<forall>i < unat (map_size afl). var_bytes afl ! i \<noteq> 0 \<longrightarrow> virgin_bits afl ! i = 0)"

lemma variable_silenced_cong:
  assumes "variable_silenced a" and "length (trace_bits b) = length (trace_bits a)"
    and "var_bytes b = var_bytes a" "virgin_bits b = virgin_bits a" "virgin_tmout b = virgin_tmout a"
      "virgin_crash b = virgin_crash a" "map_size b = map_size a" "real_map_size b = real_map_size a"
  shows "variable_silenced b"
  using assms by (simp add: variable_silenced_def cov_wf_def)

lemma has_new_bits_silenced:
  assumes "variable_silenced afl"
  shows "variable_silenced (snd (has_new_bits afl Virgin_bits))"
proof -
  have wf: "cov_wf afl" using assms by (simp add: variable_silenced_def)
  let ?b = "snd (has_new_bits afl Virgin_bits)"
  have v: "virgin_bits ?b = clear_seen (take (scan64 afl) (trace_bits afl)) (take (scan64 afl) (virgin_bits afl))
      @ drop (scan64 afl) (virgin_bits afl)"
    using has_new_bits_virgin [OF wf, of Virgin_bits] by simp
  have len: "length (trace_bits afl) = unat (map_size afl)" "length (virgin_bits afl) = unat (map_size afl)"
    using wf by (simp_all add: cov_wf_def)
  have "virgin_bits ?b ! i = 0" if "i < unat (map_size afl)" "virgin_bits afl ! i = 0" for i
    using that len by (simp add: v clear_seen_def nth_append)
  then show ?thesis
    using assms has_new_bits_wf [OF wf, of Virgin_bits]
    by (simp add: variable_silenced_def has_new_bits_run_frame has_new_bits_frame)
qed

lemma mark_variable_silenced:
  assumes "mark_variable_bytes afl = Inr afl'" and "variable_silenced afl"
  shows "variable_silenced afl'"
  using assms
  by (auto simp: mark_variable_bytes_def Let_def variable_silenced_def cov_wf_def split: if_splits)

lemma cal_run_silenced:
  assumes "cal_run w q use_tmout v afl = Inr (stop, v', afl')" and "variable_silenced afl"
  shows "variable_silenced afl'"
proof -
  note same = rested_same [OF conjunct1 [OF cal_run_frame [OF assms(1)]]]
  have "var_bytes afl' = var_bytes afl" "virgin_bits afl' = virgin_bits afl" "virgin_tmout afl' = virgin_tmout afl"
    "virgin_crash afl' = virgin_crash afl" "map_size afl' = map_size afl" "real_map_size afl' = real_map_size afl"
    by (rule same; simp add: rested_def unsent_def idle_def)+
  then show ?thesis using cal_run_frame [OF assms(1)] by (intro variable_silenced_cong [OF assms(2)]) simp_all
qed

lemma cal_compare_silenced:
  assumes "cal_compare w q v afl = Inr (v', afl')" and "variable_silenced afl"
  shows "variable_silenced afl'"
  using assms(1)
proof (cases rule: cal_compare_cases)
  case same
  then show ?thesis using assms(2) by simp
next
  case (unstable a)
  from mark_variable_silenced [OF unstable(3) has_new_bits_silenced [OF assms(2)]]
  show ?thesis by (rule variable_silenced_cong) (simp_all add: unstable(4))
next
  case (first t)
  from has_new_bits_silenced [OF assms(2)]
  show ?thesis by (rule variable_silenced_cong) (simp_all add: first(2) upd_q_def)
qed

lemma classify_counts_silenced:
  assumes "variable_silenced afl"
  shows "variable_silenced (classify_counts afl)"
proof -
  have "cov_wf afl" using assms by (simp add: variable_silenced_def)
  from classify_counts_wf [OF this] show ?thesis using assms by (simp add: variable_silenced_def classify_counts_def)
qed

lemma cal_round_silenced:
  assumes "cal_round w q use_tmout v afl = Inr (stop, v', afl')" and "variable_silenced afl"
  shows "variable_silenced afl'"
proof -
  from assms(1) obtain st v1 a1 where run: "cal_run w q use_tmout v afl = Inr (st, v1, a1)"
    and rest: "(if st then Inr (True, v1, a1)
      else bind_result (cal_compare w q v1 (classify_counts a1)) (\<lambda>(v, afl).
           Inr (False, v, afl\<lparr>stage_cur := stage_cur afl + 1\<rparr>))) = Inr (stop, v', afl')"
    by (auto simp: cal_round_def bind_result_Inr_iff)
  note s1 = cal_run_silenced [OF run assms(2)]
  show ?thesis
  proof (cases st)
    case True
    then show ?thesis using rest s1 by simp
  next
    case False
    then obtain a2 where cmp: "cal_compare w q v1 (classify_counts a1) = Inr (v', a2)"
      and fin: "afl' = a2\<lparr>stage_cur := stage_cur a2 + 1\<rparr>"
      using rest by (auto simp: bind_result_Inr_iff)
    from cal_compare_silenced [OF cmp classify_counts_silenced [OF s1]]
    show ?thesis by (rule variable_silenced_cong) (simp_all add: fin)
  qed
qed

lemma cal_prepare_silenced:
  assumes "cal_prepare w q use_tmout v afl = Inr (stop, v', afl')" and "fsrv_pid afl \<noteq> 0" and "variable_silenced afl"
  shows "variable_silenced afl'"
proof -
  from assms(1,2) obtain v1 a1 where run: "(v1, a1) = (v, afl) \<or> (\<exists>st. cal_run w q use_tmout v afl = Inr (st, v1, a1))"
    and see: "(v', afl') = (v1, a1) \<or> (\<exists>t. see_new_bits v1 (a1\<lparr>first_trace := t\<rparr>) = (v', afl'))"
    by (rule cal_prepare_end)
  have "variable_silenced a1" using run assms(3) cal_run_silenced by blast
  then have "variable_silenced (a1\<lparr>first_trace := t\<rparr>)" for t by (rule variable_silenced_cong) simp_all
  then show ?thesis
    using see \<open>variable_silenced a1\<close> has_new_bits_silenced by (auto simp: see_new_bits_eq)
qed

lemma cal_finish_silenced:
  "cal_finish w q start_us handicap0 afl = Inr afl' \<Longrightarrow> variable_silenced afl' = variable_silenced afl"
  by (rule cal_finish_frame [where P = variable_silenced], assumption)
    (simp_all add: variable_silenced_def cov_wf_def unrated_def)

lemma cal_abort_silenced:
  assumes "cal_abort w q first_run old v afl = Inr (fault, afl')" and "stats_keep w"
  shows "variable_silenced afl' = variable_silenced afl"
proof -
  obtain sn sc sm where old: "old = (sn, sc, sm)" by (cases old)
  have "variable_silenced afl' = variable_silenced (afl\<lparr>stage_name := sn, stage_cur := sc, stage_max := sm\<rparr>)"
    by (rule cal_abort_frame [OF assms(1) [unfolded old] assms(2), of variable_silenced])
      (simp_all add: variable_silenced_def cov_wf_def stats_free_def)
  then show ?thesis by (simp add: variable_silenced_def cov_wf_def)
qed

section \<open>Stable targets\<close>

lemma clamp_len_unat:
  assumes "c = clamp_len afl fix_run (uint (n :: u32))"
  shows "unat (of_int c :: u32) = nat c"
proof -
  have "0 \<le> c" "c < 2 ^ 32"
    using assms uint_lt2p [of n] uint_lt2p [of "min_length afl"] uint_lt2p [of "max_length afl"]
    by (auto simp: clamp_len_def split: if_splits)
  then show ?thesis by (simp add: unat_eq_nat_uint unsigned_of_int take_bit_int_eq_self)
qed

lemma calibration_input:
  assumes env: "trim_env m afl" and c: "c = clamp_len afl True (uint n)" "nat c \<le> length mem" "nat c \<le> unat MAX_FILE"
    and whole: "writes_whole w" and wr: "write_to_testcase w afl mem n True = Inr (mem', k, a1)"
  shows "a1 = with_input afl (take (nat c) mem)" and "mem' = mem"
proof -
  have ready: "custom_mutators_count afl = 0" "channel_ready afl" using env by (simp_all add: trim_env_def)
  have takes: "channel_takes afl (nat c)" using c(3) by (simp add: channel_takes_def)
  show "a1 = with_input afl (take (nat c) mem)" and "mem' = mem"
    using wr ready(1) channel_write [OF ready(2) takes c(2) whole]
    by (auto simp: write_to_testcase_def Let_def clamp_len_unat [OF c(1)] simp flip: c(1))
qed

lemma calibration_input_env:
  assumes "trim_env m afl" and "c = clamp_len afl True (uint n)" "nat c \<le> length mem" "nat c \<le> unat MAX_FILE"
    and "writes_whole w" and "write_to_testcase w afl mem n True = Inr (mem', k, a1)"
  shows "trim_env m a1"
  using trim_env_input [OF assms(1), of "take (nat c) mem"] calibration_input(1) [OF assms] assms(4) by simp

text \<open>The classified coverage of an input.\<close>

definition input_trace :: "(bytes \<Rightarrow> fsrv_reply) \<Rightarrow> nat \<Rightarrow> bytes \<Rightarrow> bytes" where
  "input_trace T m input = map class8 (fill_map m (trace_written (T input)))"

lemma calibration_run_input:
  assumes env: "trim_env m afl" and det: "\<And>k input tmo. w_target w k input tmo = T input"
    and c: "c = clamp_len afl True (uint n)" "nat c \<le> length mem" "nat c \<le> unat MAX_FILE"
    and whole: "writes_whole w" and wr: "write_to_testcase w afl mem n True = Inr (mem', k, a1)"
    and run: "fuzz_run_target w a1 tmo = Inr (fault, a2)" and go: "\<not> stop_soon a2"
  shows "trace_cksum w (classify_counts a2) = input_cksum w T (unat m) (take (nat c) mem)"
    and "trim_env m (classify_counts a2)" and "mem' = mem"
    and "trace_bits (classify_counts a2) = input_trace T (unat m) (take (nat c) mem)"
proof -
  note a1 = calibration_input [OF env c whole wr]
  show "mem' = mem" by (rule a1(2))
  have env1: "trim_env m a1" by (rule calibration_input_env [OF env c whole wr])
  have env2: "trim_env m a2" by (rule trim_env_run(1) [OF run env1])
  have "channel_ready afl" "channel_takes afl (length (take (nat c) mem))"
    using env c by (simp_all add: trim_env_def channel_takes_def min_def)
  from with_input_delivers [OF this]
  have tr: "trace_bits a2 = fill_map (unat m) (trace_written (T (take (nat c) mem)))"
    using run_target_trace [OF run go] env1 a1(1) by (simp add: det trim_env_def)
  note cl = trim_env_classify [OF env2]
  have l2: "length (trace_bits a2) = unat m" "map_size a2 = m" using env2 by (simp_all add: trim_env_def)
  show "trim_env m (classify_counts a2)" using env2 l2 by (simp add: cl)
  show "trace_bits (classify_counts a2) = input_trace T (unat m) (take (nat c) mem)"
    using l2 by (simp add: cl input_trace_def tr)
  show "trace_cksum w (classify_counts a2) = input_cksum w T (unat m) (take (nat c) mem)"
    using l2 by (simp add: cl trace_cksum_def input_cksum_def tr)
qed

text \<open>What holds while a target that always answers alike is calibrated: nothing is found variable, and the checksum of the
  entry is unset or the one of the input.\<close>

definition stable_inv ::
  "u32 \<Rightarrow> u64 \<Rightarrow> qid \<Rightarrow> bytes \<Rightarrow> 'a afl_run_scheme \<Rightarrow> u8 \<Rightarrow> cal_vars \<Rightarrow> 'a afl_run_scheme \<Rightarrow> bool" where
  "stable_inv m ck q mem afl0 failed v afl \<longleftrightarrow>
     trim_env m afl \<and> \<not> cv_var_detected v \<and> cv_mem v = mem \<and> q < length (queue_buf afl)
     \<and> len (queue_buf afl ! q) = len (queue_buf afl0 ! q)
     \<and> (exec_cksum (queue_buf afl ! q) = ck \<or> exec_cksum (queue_buf afl ! q) = 0 \<and> stage_cur afl = 0)
     \<and> cal_failed (queue_buf afl ! q) = failed
     \<and> var_bytes afl = var_bytes afl0 \<and> queued_variable afl = queued_variable afl0
     \<and> min_length afl = min_length afl0 \<and> max_length afl = max_length afl0"

lemma stable_inv_cong:
  assumes "stable_inv m ck q mem afl0 failed v a" and "trim_env m b" and "queue_buf b = queue_buf a"
    and "stage_cur b = stage_cur a" "var_bytes b = var_bytes a" "queued_variable b = queued_variable a"
      "min_length b = min_length a" "max_length b = max_length a"
    and "cv_mem v' = cv_mem v" "cv_var_detected v' = cv_var_detected v"
  shows "stable_inv m ck q mem afl0 failed v' b"
  using assms by (simp add: stable_inv_def)

lemma clamp_len_cong:
  "min_length a = min_length b \<Longrightarrow> max_length a = max_length b \<Longrightarrow> clamp_len a f n = clamp_len b f n"
  by (simp add: clamp_len_def)

lemma cal_run_stable:
  assumes inv: "stable_inv m ck q mem afl0 failed v afl" and det: "\<And>k input tmo. w_target w k input tmo = T input"
    and whole: "writes_whole w"
    and c: "c = clamp_len afl0 True (uint (len (queue_buf afl0 ! q)))" "nat c \<le> length mem" "nat c \<le> unat MAX_FILE"
    and ck: "ck = input_cksum w T (unat m) (take (nat c) mem)"
    and run: "cal_run w q use_tmout v afl = Inr (stop, v', afl')"
  shows "stable_inv m ck q mem afl0 failed v' afl'
    \<and> (\<not> stop \<longrightarrow> trace_cksum w (classify_counts afl') = ck \<and> stable_inv m ck q mem afl0 failed v' (classify_counts afl')
          \<and> trace_bits (classify_counts afl') = input_trace T (unat m) (take (nat c) mem))"
proof -
  have env: "trim_env m afl" and q: "q < length (queue_buf afl)" and mem: "cv_mem v = mem"
    and e: "len (queue_buf afl ! q) = len (queue_buf afl0 ! q)" using inv by (simp_all add: stable_inv_def)
  have cm: "custom_mutators_count afl = 0" using env by (simp add: trim_env_def)
  from run obtain mem' k a1 fault where
    wr: "write_to_testcase w afl mem (len (queue_buf afl0 ! q)) True = Inr (mem', k, a1)"
    and tgt: "fuzz_run_target w a1 use_tmout = Inr (fault, afl')"
    and v': "cv_mem v' = mem'" "cv_var_detected v' = cv_var_detected v" and go: "\<not> stop \<Longrightarrow> \<not> stop_soon afl'"
    using q e mem by (auto simp: cal_run_def get_q_def bind_result_Inr_iff Let_def split: if_splits)
  have c': "c = clamp_len afl True (uint (len (queue_buf afl0 ! q)))"
    using inv by (simp add: c(1) stable_inv_def clamp_len_def)
  have "mem' = mem" using wr cm by (auto simp: write_to_testcase_def Let_def bind_result_Inr_iff)
  note same = rested_same [OF conjunct1 [OF cal_run_frame [OF run]]]
  have f: "queue_buf afl' = queue_buf afl" "stage_cur afl' = stage_cur afl" "var_bytes afl' = var_bytes afl"
    "queued_variable afl' = queued_variable afl" "min_length afl' = min_length afl" "max_length afl' = max_length afl"
    by (rule same; simp add: rested_def unsent_def idle_def)+
  have env1: "trim_env m a1" by (rule calibration_input_env [OF env c' c(2,3) whole wr])
  have env': "trim_env m afl'" by (rule trim_env_run(1) [OF tgt env1])
  have i': "stable_inv m ck q mem afl0 failed v' afl'"
    by (rule stable_inv_cong [OF inv env']) (use f v' mem \<open>mem' = mem\<close> in simp_all)
  moreover have "trace_cksum w (classify_counts afl') = ck \<and> stable_inv m ck q mem afl0 failed v' (classify_counts afl')
      \<and> trace_bits (classify_counts afl') = input_trace T (unat m) (take (nat c) mem)"
    if "\<not> stop"
  proof -
    note r = calibration_run_input [OF env det c' c(2,3) whole wr tgt go [OF that]]
    have "stable_inv m ck q mem afl0 failed v' (classify_counts afl')"
      by (rule stable_inv_cong [OF i' r(2)]) (simp_all add: classify_counts_def)
    then show ?thesis using r(1,4) ck by simp
  qed
  ultimately show ?thesis by blast
qed

lemma trim_env_first_trace [simp]: "trim_env m (afl\<lparr>first_trace := t\<rparr>) = trim_env m afl"
  by (simp add: trim_env_def channel_ready_def)

lemma cal_compare_stable:
  assumes inv: "stable_inv m ck q mem afl0 failed v afl" and ck: "trace_cksum w afl = ck"
    and cmp: "cal_compare w q v afl = Inr (v', afl')"
  shows "stable_inv m ck q mem afl0 failed v' (afl'\<lparr>stage_cur := n\<rparr>)"
  using cmp
proof (cases rule: cal_compare_cases)
  case same
  then show ?thesis using inv ck by (simp add: stable_inv_def trim_env_def channel_ready_def)
next
  case (unstable a)
  then show ?thesis using inv ck by (simp add: stable_inv_def)
next
  case (first t)
  let ?b = "snd (has_new_bits afl Virgin_bits)"
  have old: "trim_env m afl" "\<not> cv_var_detected v" "cv_mem v = mem" "len (queue_buf afl ! q) = len (queue_buf afl0 ! q)"
    "cal_failed (queue_buf afl ! q) = failed" "var_bytes afl = var_bytes afl0" "queued_variable afl = queued_variable afl0"
    "min_length afl = min_length afl0" "max_length afl = max_length afl0"
    using inv by (simp_all add: stable_inv_def)
  have "trim_env m ?b = trim_env m afl"
    by (simp add: has_new_bits_def Let_def trim_env_def channel_ready_def split: prod.split)
  then have env: "trim_env m (afl'\<lparr>stage_cur := n\<rparr>)" using old(1) by (simp add: first(2))
  have len: "min_length ?b = min_length afl" "max_length ?b = max_length afl"
    by (simp_all add: has_new_bits_def Let_def split: prod.split)
  have qb: "queue_buf afl' = (queue_buf afl)[q := (queue_buf afl ! q)\<lparr>exec_cksum := ck\<rparr>]"
    by (simp add: first(2) upd_q_def has_new_bits_run_frame ck)
  have rest: "var_bytes afl' = var_bytes afl" "queued_variable afl' = queued_variable afl"
    "min_length afl' = min_length afl" "max_length afl' = max_length afl"
    by (simp_all add: first(2) has_new_bits_run_frame len) (simp_all add: upd_q_def len)
  show ?thesis unfolding stable_inv_def using env first(4,5,6) old rest qb by simp
qed

lemma cal_round_stable:
  assumes inv: "stable_inv m ck q mem afl0 failed v afl" and det: "\<And>k input tmo. w_target w k input tmo = T input"
    and whole: "writes_whole w"
    and c: "c = clamp_len afl0 True (uint (len (queue_buf afl0 ! q)))" "nat c \<le> length mem" "nat c \<le> unat MAX_FILE"
    and ck: "ck = input_cksum w T (unat m) (take (nat c) mem)"
    and rnd: "cal_round w q use_tmout v afl = Inr (stop, v', afl')"
  shows "stable_inv m ck q mem afl0 failed v' afl'"
proof -
  from rnd obtain st v1 a1 where run: "cal_run w q use_tmout v afl = Inr (st, v1, a1)"
    and rest: "(if st then Inr (True, v1, a1)
      else bind_result (cal_compare w q v1 (classify_counts a1)) (\<lambda>(v, afl).
           Inr (False, v, afl\<lparr>stage_cur := stage_cur afl + 1\<rparr>))) = Inr (stop, v', afl')"
    by (auto simp: cal_round_def bind_result_Inr_iff)
  note s1 = cal_run_stable [OF inv det whole c ck run]
  show ?thesis
  proof (cases st)
    case True
    then show ?thesis using rest s1 by simp
  next
    case False
    then obtain a2 where cmp: "cal_compare w q v1 (classify_counts a1) = Inr (v', a2)"
      and fin: "afl' = a2\<lparr>stage_cur := stage_cur a2 + 1\<rparr>"
      using rest by (auto simp: bind_result_Inr_iff)
    show ?thesis using s1 False cal_compare_stable [OF _ _ cmp] fin by blast
  qed
qed

lemma cal_finish_entry:
  assumes "cal_finish w q start_us handicap0 afl = Inr afl'"
  shows "stage_max afl \<noteq> 0" "q < length (queue_buf afl')"
    "exec_cksum (queue_buf afl' ! q) = exec_cksum (queue_buf afl ! q)"
proof -
  obtain d a where t: "cal_time w start_us afl = (d, a)" by (cases "cal_time w start_us afl")
  have a: "queue_buf a = queue_buf afl" "stage_max a = stage_max afl"
    using t by (auto simp: cal_time_def get_cur_time_us_def split: if_splits)
  show "stage_max afl \<noteq> 0" using assms t a by (auto simp: cal_finish_def Let_def split: if_splits)
  obtain f b where b: "update_bitmap_score b q = Inr afl'"
    and qb: "queue_buf b = (queue_buf afl)[q := f (queue_buf afl ! q)]" and q: "q < length (queue_buf afl)"
    and f: "\<And>e. exec_cksum (f e) = exec_cksum e"
  proof -
    from assms t obtain wt x y z u e where q: "get_q a q = Inr e"
      and u: "update_bitmap_score ((upd_q (\<lambda>e. e\<lparr>exec_us := d div ucast (stage_max a), bitmap_size := count_bytes
            (a\<lparr>total_cal_us := x, total_cal_cycles := y\<rparr>) (trace_bits a),
            bitmap_weight := wt, handicap := ucast handicap0, cal_failed := 0\<rparr>) q
            (a\<lparr>total_cal_us := x, total_cal_cycles := y\<rparr>))
        \<lparr>total_bitmap_size := z, total_bitmap_entries := u\<rparr>) q = Inr afl'"
      by (auto simp: cal_finish_def Let_def bind_result_Inr_iff get_q_def split: if_splits)
    let ?f = "\<lambda>e. e\<lparr>exec_us := d div ucast (stage_max a), bitmap_size := count_bytes
            (a\<lparr>total_cal_us := x, total_cal_cycles := y\<rparr>) (trace_bits a),
            bitmap_weight := wt, handicap := ucast handicap0, cal_failed := 0\<rparr>"
    show thesis using q a by (intro that [OF u, of ?f]) (simp_all add: upd_q_def get_q_Inr)
  qed
  note r = unrated_fields(6,7) [OF update_bitmap_score_unrated [OF b]]
  show "q < length (queue_buf afl')" using r(1) qb q by simp
  from arg_cong [OF r(2) [of q], of exec_cksum]
  show "exec_cksum (queue_buf afl' ! q) = exec_cksum (queue_buf afl ! q)" using qb q f by (simp add: strip_rating_def)
qed

lemma cal_abort_quiet:
  fixes P :: "'a afl_run_scheme \<Rightarrow> 'b"
  assumes "cal_abort w q first_run old v afl = Inr (fault, afl')" and "stats_keep w" and "\<not> cv_var_detected v"
    and upd: "\<And>x. P (upd_q (\<lambda>e. e\<lparr>has_new_cov := True\<rparr>) q x) = P x" "\<And>x n. P (x\<lparr>queued_with_cov := n\<rparr>) = P x"
      "\<And>x. P (stats_free x) = P x" "\<And>x a b c. P (x\<lparr>stage_name := a, stage_cur := b, stage_max := c\<rparr>) = P x"
  shows "P afl' = P afl"
proof -
  obtain sn sc sm where old: "old = (sn, sc, sm)" by (cases old)
  let ?a = "if cv_new_bits v = 2 \<and> \<not> has_new_cov (queue_buf afl ! q)
      then (upd_q (\<lambda>e. e\<lparr>has_new_cov := True\<rparr>) q afl)\<lparr>queued_with_cov := queued_with_cov afl + 1\<rparr> else afl"
  let ?b = "?a\<lparr>stage_name := sn, stage_cur := sc, stage_max := sm\<rparr>"
  have q: "get_q afl q = Inr (queue_buf afl ! q)"
    using assms(1) by (auto simp: cal_abort_def bind_result_Inr_iff get_q_Inr)
  have a: "afl' = (if first_run then ?b else w_show_stats w ?b)"
    using assms(1,3) q by (simp add: cal_abort_def Let_def old)
  have "P ?b = P afl" by (simp add: upd)
  moreover have "P (w_show_stats w ?b) = P ?b" by (rule stats_same [OF assms(2)]) (rule upd(3))
  ultimately show ?thesis unfolding a by (cases first_run) (simp_all only: if_True if_False)
qed

lemma cal_abort_keeps:
  assumes "cal_abort w q first_run old v afl = Inr (fault, afl')" and "stats_keep w" and "\<not> cv_var_detected v"
  shows "var_bytes afl' = var_bytes afl \<and> queued_variable afl' = queued_variable afl
    \<and> cal_failed (queue_buf afl' ! q) = cal_failed (queue_buf afl ! q)
    \<and> exec_cksum (queue_buf afl' ! q) = exec_cksum (queue_buf afl ! q)"
proof (intro conjI)
  have upd: "xs[q := y] ! q = (if q < length xs then y else xs ! q)" for y :: queue_entry and xs
    by (simp add: list_update_beyond)
  show "var_bytes afl' = var_bytes afl" "queued_variable afl' = queued_variable afl"
    by (rule cal_abort_quiet [OF assms]; simp add: stats_free_def)+
  show "cal_failed (queue_buf afl' ! q) = cal_failed (queue_buf afl ! q)"
    by (rule cal_abort_quiet [OF assms, of "\<lambda>x. cal_failed (queue_buf x ! q)"]; simp add: stats_free_def upd)
  show "exec_cksum (queue_buf afl' ! q) = exec_cksum (queue_buf afl ! q)"
    by (rule cal_abort_quiet [OF assms, of "\<lambda>x. exec_cksum (queue_buf x ! q)"]; simp add: stats_free_def upd)
qed

lemma trim_env_has_new_bits [simp]: "trim_env m (snd (has_new_bits afl vm)) = trim_env m afl"
  by (cases vm; simp add: has_new_bits_def Let_def trim_env_def channel_ready_def split: prod.split)

lemma has_new_bits_lengths [simp]:
  "min_length (snd (has_new_bits afl vm)) = min_length afl" "max_length (snd (has_new_bits afl vm)) = max_length afl"
  by (cases vm; simp add: has_new_bits_def Let_def split: prod.split)+

lemma cal_prepare_stable:
  assumes prep: "cal_prepare w q tmo (cal_vars0 mem) (cal_start q afl) = Inr (stop, v1, a1)"
    and "fsrv_pid afl \<noteq> 0" and "\<not> cmplog_mode afl" and env: "trim_env (map_size afl) afl" and e: "e = queue_buf afl ! q"
    and ck: "exec_cksum e = 0 \<or> exec_cksum e = ck" and q: "q < length (queue_buf afl)"
  shows "\<not> stop \<and> stable_inv (map_size afl) ck q mem afl (cal_failed e + 1) v1 (cal_enter a1)"
proof -
  let ?s = "cal_start q afl"
  have s: "queue_buf ?s = (queue_buf afl)[q := e\<lparr>cal_failed := cal_failed e + 1\<rparr>]" "\<not> cmplog_mode ?s" "fsrv_pid ?s \<noteq> 0"
    "var_bytes ?s = var_bytes afl" "queued_variable ?s = queued_variable afl"
    "min_length ?s = min_length afl" "max_length ?s = max_length afl"
    using assms(2,3) e by (simp_all add: cal_start_def Let_def upd_q_def)
  have env_s: "trim_env (map_size afl) ?s"
    using env assms(3) by (simp add: cal_start_def Let_def trim_env_def channel_ready_def upd_q_def)
  have get: "get_q ?s q = Inr (e\<lparr>cal_failed := cal_failed e + 1\<rparr>)" using s(1) q by (simp add: get_q_def)
  have enter: "trim_env m (x\<lparr>ticks := n\<rparr>) = trim_env m x" for m n and x :: "'a afl_run_scheme"
    by (simp add: trim_env_def channel_ready_def)
  show ?thesis
  proof (cases "exec_cksum e = 0")
    case True
    then have "stop = False" "v1 = cal_vars0 mem" "a1 = ?s"
      using prep s(2,3) get by (simp_all add: cal_prepare_def ensure_fsrv_def)
    then show ?thesis using True q e s env_s by (simp add: stable_inv_def enter)
  next
    case False
    then obtain t where r: "stop = False" "see_new_bits (cal_vars0 mem) (?s\<lparr>first_trace := t\<rparr>) = (v1, a1)"
      using prep s(2,3) get
      by (auto simp: cal_prepare_def ensure_fsrv_def bind_result_Inr_iff split: prod.splits)
    have v1: "cv_mem v1 = mem" "\<not> cv_var_detected v1" using r(2) by (auto simp: see_new_bits_eq split: if_splits)
    have a1: "a1 = snd (has_new_bits (?s\<lparr>first_trace := t\<rparr>) Virgin_bits)" using r(2) by (simp add: see_new_bits_eq)
    show ?thesis
      using False ck q e r(1) v1 s env_s by (simp add: stable_inv_def enter a1 has_new_bits_run_frame)
  qed
qed

lemma u8_succ_zero: "(x :: u8) + 1 = 0 \<Longrightarrow> x = 255"
  by (simp flip: eq_neg_iff_add_eq_0)

lemma cal_abort_total:
  assumes "q < length (queue_buf afl)" and "\<not> cv_var_detected v"
  shows "\<exists>fault afl'. cal_abort w q first_run old v afl = Inr (fault, afl')"
  using assms by (cases old) (simp add: cal_abort_def get_q_def Let_def)

section \<open>Well-behaved targets\<close>

text \<open>The target answers in time, does not crash, and the run has coverage.\<close>

definition well_behaved :: "(bytes \<Rightarrow> fsrv_reply) \<Rightarrow> u32 \<Rightarrow> bytes \<Rightarrow> 'a afl_run_scheme \<Rightarrow> bool" where
  "well_behaved T tmo input afl \<longleftrightarrow>
     (let r = fill_map (unat (map_size afl)) (trace_written (T input))
      in answers (T input) tmo \<and> exec_time (T input) \<le> tmo \<and> \<not> stop_signal (T input)
         \<and> \<not> crashed afl (status_read (T input)) \<and> crash_mode afl = FSRV_RUN_OK
         \<and> (join_words (take 4 r) :: u32) \<noteq> EXEC_FAIL_SIG
         \<and> (non_instrumented_mode afl \<or> count_bytes afl r \<noteq> 0))"

text \<open>What the rounds of a calibration may change.\<close>

definition calmed :: "'a afl_run_scheme \<Rightarrow> 'a afl_run_scheme" where
  "calmed afl = (rested afl)\<lparr>virgin_bits := [], bitmap_changed := False, first_trace := [], stage_cur := 0,
     queue_buf := map (\<lambda>e. e\<lparr>exec_cksum := 0\<rparr>) (queue_buf afl)\<rparr>"

lemma calmed_same: "calmed a = calmed b \<Longrightarrow> (\<And>x. P (calmed x) = P x) \<Longrightarrow> P a = P b"
  by metis

lemmas calmed_defs = calmed_def rested_def unsent_def idle_def

lemma calmed_behaved: "well_behaved T tmo input (calmed afl) = well_behaved T tmo input afl"
  by (simp add: well_behaved_def calmed_defs crashed_def count_bytes_def words32_def)

lemma calmed_rated: "rated_wf (calmed afl) = rated_wf afl"
  by (simp add: rated_inv_def calmed_defs)

lemma calmed_ready:
  "(\<forall>e \<in> set (queue_buf (calmed afl)). unat (n_fuzz_entry e) < length (n_fuzz (calmed afl)))
     = (\<forall>e \<in> set (queue_buf afl). unat (n_fuzz_entry e) < length (n_fuzz afl))"
  by (simp add: calmed_defs)

lemma run_target_behaved:
  assumes "length (trace_bits afl) = unat (map_size afl)" and "\<And>k input tmo. w_target w k input tmo = T input"
    and "well_behaved T tmo (target_input afl) afl" and "\<not> stop_soon afl"
  shows "\<exists>afl'. fuzz_run_target w afl tmo = Inr (FSRV_RUN_OK, afl') \<and> \<not> stop_soon afl'
    \<and> trace_bits afl' = fill_map (unat (map_size afl)) (trace_written (T (target_input afl)))"
proof -
  let ?r = "T (target_input afl)"
  let ?a = "answered ?r tmo afl"
  have w: "answers ?r tmo" "exec_time ?r \<le> tmo" "\<not> stop_signal ?r" "\<not> crashed afl (status_read ?r)"
    "(join_words (take 4 (fill_map (unat (map_size afl)) (trace_written ?r))) :: u32) \<noteq> EXEC_FAIL_SIG"
    using assms(3) by (simp_all add: well_behaved_def Let_def)
  have run: "fuzz_run_target w afl tmo = Inr (run_outcome ?a)"
    using run_target_answered [OF assms(1), of w tmo] assms(2) w(1) by simp
  obtain p k where out: "run_outcome ?a
      = (outcome_of ?a, ?a\<lparr>child_pid := p, total_execs := total_execs ?a + 1, last_kill_signal := k\<rparr>)"
    using run_outcome_eq by blast
  have f: "trace_bits ?a = fill_map (unat (map_size afl)) (trace_written ?r)" "\<not> last_run_timed_out ?a"
    "child_status ?a = status_read ?r" "\<not> stop_soon ?a" "crashed ?a s = crashed afl s" for s
    using leD [OF w(2)] w(3) assms(4) by (simp_all add: answered_def crashed_def)
  have "outcome_of ?a = FSRV_RUN_OK" using w(4,5) f by (simp add: outcome_of_def)
  with run out show ?thesis using f by simp
qed

lemma cal_run_behaved:
  assumes inv: "stable_inv m ck q mem afl0 failed v afl" and det: "\<And>k input tmo. w_target w k input tmo = T input"
    and whole: "writes_whole w"
    and c: "c = clamp_len afl0 True (uint (len (queue_buf afl0 ! q)))" "nat c \<le> length mem" "nat c \<le> unat MAX_FILE"
    and wb: "well_behaved T tmo (take (nat c) mem) afl" and go: "\<not> stop_soon afl"
  shows "\<exists>v' afl'. cal_run w q tmo v afl = Inr (False, v', afl') \<and> \<not> stop_soon afl'"
proof -
  let ?in = "take (nat c) mem"
  let ?a = "with_input afl ?in"
  have env: "trim_env m afl" and q: "q < length (queue_buf afl)" and mem: "cv_mem v = mem"
    and e: "len (queue_buf afl ! q) = len (queue_buf afl0 ! q)"
    and lim: "min_length afl = min_length afl0" "max_length afl = max_length afl0"
    using inv by (simp_all add: stable_inv_def)
  have cm: "custom_mutators_count afl = 0" "channel_ready afl" using env by (simp_all add: trim_env_def)
  have c': "c = clamp_len afl True (uint (len (queue_buf afl0 ! q)))" using lim by (simp add: c(1) clamp_len_def)
  have takes: "channel_takes afl (nat c)" using c(3) by (simp add: channel_takes_def)
  have wr: "write_to_testcase w afl mem (len (queue_buf afl0 ! q)) True = Inr (mem, of_int c, ?a)"
    using cm(1) channel_write [OF cm(2) takes c(2) whole] clamp_len_unat [OF c']
    by (simp add: write_to_testcase_def Let_def flip: c')
  have env1: "trim_env m ?a" using trim_env_input [OF env, of ?in] c(3) by simp
  have "channel_takes afl (length ?in)" using c by (simp add: channel_takes_def min_def)
  from with_input_delivers [OF cm(2) this] have del: "target_input ?a = ?in" .
  have u: "unsent ?a = unsent afl" by (simp add: with_input_def)
  have keep: "crash_mode ?a = crash_mode afl" "stop_soon ?a = stop_soon afl" "stage_cur ?a = stage_cur afl"
    "well_behaved T tmo ?in ?a = well_behaved T tmo ?in afl" "non_instrumented_mode ?a = non_instrumented_mode afl"
    by (rule unsent_same [OF u]; simp add: unsent_def well_behaved_def crashed_def count_bytes_def words32_def)+
  have len: "length (trace_bits ?a) = unat (map_size ?a)" using env1 by (simp add: trim_env_def)
  obtain a2 where run: "fuzz_run_target w ?a tmo = Inr (FSRV_RUN_OK, a2)" "\<not> stop_soon a2"
    "trace_bits a2 = fill_map (unat (map_size ?a)) (trace_written (T ?in))"
    using run_target_behaved [OF len, of w T tmo] det del keep wb go by auto
  note same = idle_same [OF conjunct1 [OF run_target_idle [OF run(1)]]]
  have k2: "crash_mode a2 = crash_mode ?a" "stage_cur a2 = stage_cur ?a" "non_instrumented_mode a2 = non_instrumented_mode ?a"
    "count_bytes a2 t = count_bytes ?a t" for t
    by (rule same; simp add: idle_def count_bytes_def words32_def)+
  have "crash_mode a2 = FSRV_RUN_OK" "non_instrumented_mode a2 \<or> count_bytes a2 (trace_bits a2) \<noteq> 0"
    using wb keep(4) k2 run(3) by (simp_all add: well_behaved_def Let_def)
  then show ?thesis
    using q e mem wr run(1,2) by (auto simp: cal_run_def get_q_def Let_def)
qed

lemma copy_map_ok:
  "length src = unat (map_size afl) \<Longrightarrow> length dst = unat (map_size afl) \<Longrightarrow> copy_map what afl src dst = Inr src"
  by (simp add: copy_map_def mem_read_def mem_write_def)

lemma calmed_entry:
  "calmed (afl\<lparr>queue_buf := (queue_buf afl)[q := (queue_buf afl ! q)\<lparr>exec_cksum := x\<rparr>]\<rparr>) = calmed afl"
proof -
  have "map (\<lambda>e. e\<lparr>exec_cksum := 0\<rparr>) (xs[q := (xs ! q)\<lparr>exec_cksum := x\<rparr>]) = map (\<lambda>e. e\<lparr>exec_cksum := 0\<rparr>) xs"
    for xs :: "queue_entry list"
    by (cases "q < length xs") (simp_all add: map_update list_update_same_conv list_update_beyond)
  then show ?thesis by (simp add: calmed_defs)
qed

lemma calmed_upd [simp]:
  "calmed (afl\<lparr>first_trace := t\<rparr>) = calmed afl" "calmed (afl\<lparr>stage_cur := n\<rparr>) = calmed afl"
  "calmed (afl\<lparr>trace_bits := t\<rparr>) = calmed afl"
  by (simp_all add: calmed_defs)

lemma calmed_has_new_bits: "calmed (snd (has_new_bits afl Virgin_bits)) = calmed afl"
  by (simp add: has_new_bits_def Let_def calmed_defs split: prod.split)

lemma cal_run_calmed: "cal_run w q tmo v afl = Inr (stop, v', afl') \<Longrightarrow> calmed afl' = calmed afl"
proof -
  assume "cal_run w q tmo v afl = Inr (stop, v', afl')"
  from conjunct1 [OF cal_run_frame [OF this]] have r: "rested afl' = rested afl" .
  have "queue_buf afl' = queue_buf afl" by (rule rested_same [OF r]) (simp add: rested_def unsent_def idle_def)
  with r show ?thesis by (simp add: calmed_def)
qed

lemma cal_compare_behaved:
  assumes inv: "stable_inv m ck q mem afl0 failed v afl" and ck: "trace_cksum w afl = ck"
    and ft: "length (first_trace afl) = unat m"
  shows "\<exists>v' afl'. cal_compare w q v afl = Inr (v', afl') \<and> calmed afl' = calmed afl \<and> stop_soon afl' = stop_soon afl
    \<and> length (first_trace afl') = unat m \<and> stage_cur afl' = stage_cur afl"
proof (cases "exec_cksum (queue_buf afl ! q) = ck")
  case True
  then show ?thesis using inv ck ft by (simp add: cal_compare_def get_q_def stable_inv_def)
next
  case False
  then have z: "exec_cksum (queue_buf afl ! q) = 0" and q: "q < length (queue_buf afl)" and env: "trim_env m afl"
    using inv by (auto simp: stable_inv_def)
  let ?b = "snd (has_new_bits afl Virgin_bits)"
  let ?c = "upd_q (\<lambda>e. e\<lparr>exec_cksum := ck\<rparr>) q ?b"
  have "trim_env m ?c" using env by simp
  then have len: "length (trace_bits ?c) = unat (map_size ?c)" "map_size ?c = m" by (simp_all add: trim_env_def)
  have ft': "length (first_trace ?c) = unat (map_size ?c)" using ft len(2) by (simp add: has_new_bits_run_frame)
  let ?d = "?c\<lparr>first_trace := trace_bits ?c\<rparr>"
  have "\<exists>v'. cal_compare w q v afl = Inr (v', ?d)"
    using z q False ck copy_map_ok [OF len(1) ft']
    by (simp add: cal_compare_def get_q_def see_new_bits_eq Let_def)
  moreover have "stop_soon ?b = stop_soon afl" by (simp add: has_new_bits_def Let_def split: prod.split)
  then have "stop_soon ?d = stop_soon afl" by simp
  moreover have "calmed ?c = calmed ?b" unfolding upd_q_def by (rule calmed_entry)
  then have "calmed ?d = calmed afl" by (simp add: calmed_has_new_bits)
  moreover have "length (first_trace ?d) = unat m" "stage_cur ?d = stage_cur afl"
    using len by (simp_all add: has_new_bits_run_frame)
  ultimately show ?thesis by blast
qed

text \<open>What a first calibration has learnt of new coverage: nothing before the first comparison, then what the virgin map says of the
  trace \<open>tr\<close>.\<close>

definition news_of :: "'a afl_run_scheme \<Rightarrow> bytes \<Rightarrow> u8" where
  "news_of afl tr = fst (has_new_bits (afl\<lparr>trace_bits := tr\<rparr>) Virgin_bits)"

definition news_ok :: "bytes \<Rightarrow> 'a afl_run_scheme \<Rightarrow> qid \<Rightarrow> cal_vars \<Rightarrow> 'a afl_run_scheme \<Rightarrow> bool" where
  "news_ok tr afl0 q v afl \<longleftrightarrow>
     (stage_cur afl \<noteq> 0 \<longrightarrow> trace_bits afl = tr) \<and> real_map_size afl = real_map_size afl0
     \<and> (exec_cksum (queue_buf afl0 ! q) = 0 \<longrightarrow>
          (if exec_cksum (queue_buf afl ! q) = 0 then cv_new_bits v = 0 \<and> virgin_bits afl = virgin_bits afl0
           else cv_new_bits v = news_of afl0 tr))"

lemma news_of_cong:
  "real_map_size a = real_map_size b \<Longrightarrow> virgin_bits a = virgin_bits b \<Longrightarrow> trace_bits a = tr \<Longrightarrow>
     fst (has_new_bits a Virgin_bits) = news_of b tr"
  by (simp add: news_of_def has_new_bits_def Let_def split: prod.split)

lemma cal_compare_news:
  assumes cmp: "cal_compare w q v afl = Inr (v', afl')" and "news_ok tr afl0 q v afl" and tr: "trace_bits afl = tr"
    and "exec_cksum (queue_buf afl ! q) = trace_cksum w afl \<or> exec_cksum (queue_buf afl ! q) = 0"
  shows "news_ok tr afl0 q v' (afl'\<lparr>stage_cur := n\<rparr>)"
proof (cases "exec_cksum (queue_buf afl ! q) = trace_cksum w afl")
  case True
  have "get_q afl q \<noteq> Inl err" for err using cmp by (auto simp: cal_compare_def Let_def)
  then have "v' = v \<and> afl' = afl" using cmp True by (cases "get_q afl q") (auto simp: cal_compare_def get_q_Inr Let_def)
  then show ?thesis using assms(2) tr by (simp add: news_ok_def)
next
  case False
  then have z: "exec_cksum (queue_buf afl ! q) = 0" "trace_cksum w afl \<noteq> 0" using assms(4) by auto
  obtain t where
    a: "afl' = (upd_q (\<lambda>e. e\<lparr>exec_cksum := trace_cksum w afl\<rparr>) q (snd (has_new_bits afl Virgin_bits)))\<lparr>first_trace := t\<rparr>"
    and q: "q < length (queue_buf afl)"
    using cmp
  proof (cases rule: cal_compare_cases)
    case same
    then show thesis using False by blast
  next
    case (unstable a)
    then show thesis using z(1) by blast
  next
    case (first t)
    then show thesis by (intro that [of t])
  qed
  obtain v1 b where s: "see_new_bits v afl = (v1, b)" by (cases "see_new_bits v afl")
  have v': "v' = fst (see_new_bits v afl)"
    using cmp q z by (simp add: cal_compare_def get_q_def Let_def s bind_result_Inr_iff) blast
  have "real_map_size afl' = real_map_size afl" "trace_bits afl' = trace_bits afl"
    by (simp_all add: a upd_q_def has_new_bits_def Let_def split: prod.split)
  moreover have "exec_cksum (queue_buf afl' ! q) = trace_cksum w afl" using q by (simp add: a has_new_bits_run_frame)
  moreover have "cv_new_bits v' = news_of afl0 tr" if "exec_cksum (queue_buf afl0 ! q) = 0"
  proof -
    have old: "cv_new_bits v = 0" "virgin_bits afl = virgin_bits afl0" "real_map_size afl = real_map_size afl0"
      using assms(2) z(1) that by (simp_all add: news_ok_def)
    from news_of_cong [OF old(3,2) tr] show ?thesis
      using old(1) by (auto simp: v' see_new_bits_eq word_gt_0)
  qed
  ultimately show ?thesis using assms(2) z tr by (simp add: news_ok_def)
qed

text \<open>The state of a calibration that goes on as it should.\<close>

definition live_inv ::
  "u32 \<Rightarrow> u64 \<Rightarrow> bytes \<Rightarrow> qid \<Rightarrow> bytes \<Rightarrow> 'a afl_run_scheme \<Rightarrow> u8 \<Rightarrow> 'a afl_run_scheme \<Rightarrow> cal_vars \<Rightarrow> 'a afl_run_scheme \<Rightarrow> bool" where
  "live_inv m ck tr q mem afl0 failed s v afl \<longleftrightarrow>
     stable_inv m ck q mem afl0 failed v afl \<and> calmed afl = calmed s \<and> \<not> stop_soon afl
     \<and> length (first_trace afl) = unat m \<and> cv_fault v = FSRV_RUN_OK \<and> news_ok tr afl0 q v afl"

lemma cal_compare_fault:
  assumes "cal_compare w q v afl = Inr (v', afl')"
  shows "cv_fault v' = cv_fault v"
proof -
  obtain v1 b where s: "see_new_bits v afl = (v1, b)" by (cases "see_new_bits v afl")
  have "cv_fault v1 = cv_fault v" using s by (simp add: see_new_bits_eq split: if_splits) auto
  moreover have "v' = v \<or> v' = v1 \<or> v' = v1\<lparr>cv_var_detected := True\<rparr>"
    using assms unfolding cal_compare_def s prod.case Let_def bind_result_Inr_iff
    by (elim exE conjE) (simp only: bind_result_Inr_iff prod.inject sum.inject split: if_split_asm, blast+)
  ultimately show ?thesis by auto
qed

lemma cal_run_fault:
  assumes "cal_run w q tmo v afl = Inr (False, v', afl')"
  shows "cv_fault v' = crash_mode afl"
proof -
  have "crash_mode afl' = crash_mode afl"
    by (rule rested_same [OF conjunct1 [OF cal_run_frame [OF assms]]]) (simp add: rested_def unsent_def idle_def)
  then show ?thesis using assms by (auto simp: cal_run_def bind_result_Inr_iff Let_def split: if_splits)
qed

lemma cal_round_behaved:
  assumes inv: "live_inv m ck tr q mem afl0 failed s v afl" and det: "\<And>k input tmo. w_target w k input tmo = T input"
    and whole: "writes_whole w"
    and c: "c = clamp_len afl0 True (uint (len (queue_buf afl0 ! q)))" "nat c \<le> length mem" "nat c \<le> unat MAX_FILE"
    and ck: "ck = input_cksum w T (unat m) (take (nat c) mem)" and tr: "tr = input_trace T (unat m) (take (nat c) mem)"
    and wb: "well_behaved T tmo (take (nat c) mem) s"
  shows "\<exists>v' afl'. cal_round w q tmo v afl = Inr (False, v', afl') \<and> live_inv m ck tr q mem afl0 failed s v' afl'
    \<and> stage_cur afl' = stage_cur afl + 1"
proof -
  have st: "stable_inv m ck q mem afl0 failed v afl" and cal: "calmed afl = calmed s" and go: "\<not> stop_soon afl"
    and ft: "length (first_trace afl) = unat m" and news: "news_ok tr afl0 q v afl"
    using inv by (simp_all add: live_inv_def)
  have wba: "well_behaved T tmo (take (nat c) mem) afl"
    using wb calmed_same [OF cal, of "well_behaved T tmo (take (nat c) mem)"] calmed_behaved by blast
  from cal_run_behaved [OF st det whole c this go] obtain v1 a1 where
    run: "cal_run w q tmo v afl = Inr (False, v1, a1)" "\<not> stop_soon a1" by blast
  let ?a = "classify_counts a1"
  have a: "trace_cksum w ?a = ck" "stable_inv m ck q mem afl0 failed v1 ?a" "trace_bits ?a = tr"
    using tr cal_run_stable [OF st det whole c ck run(1)] by simp_all
  note same = rested_same [OF conjunct1 [OF cal_run_frame [OF run(1)]]]
  have "virgin_bits a1 = virgin_bits afl" "real_map_size a1 = real_map_size afl" "queue_buf a1 = queue_buf afl"
    by (rule same; simp add: rested_def unsent_def idle_def)+
  then have news1: "news_ok tr afl0 q v1 ?a"
    using news a(3) cal_run_frame [OF run(1)] by (simp add: news_ok_def classify_counts_def)
  have "first_trace a1 = first_trace afl" "stage_cur a1 = stage_cur afl"
    by (rule same; simp add: rested_def unsent_def idle_def)+
  then have f: "length (first_trace ?a) = unat m" "stage_cur ?a = stage_cur afl" "calmed ?a = calmed s" "\<not> stop_soon ?a"
    using ft cal_run_calmed [OF run(1)] cal run(2) by (simp_all add: classify_counts_def)
  obtain v2 a2 where cmp: "cal_compare w q v1 ?a = Inr (v2, a2)" "calmed a2 = calmed ?a" "stop_soon a2 = stop_soon ?a"
    "length (first_trace a2) = unat m" "stage_cur a2 = stage_cur ?a"
    using cal_compare_behaved [OF a(2,1) f(1)] by blast
  let ?b = "a2\<lparr>stage_cur := stage_cur a2 + 1\<rparr>"
  have rnd: "cal_round w q tmo v afl = Inr (False, v2, ?b)" using run(1) cmp(1) by (simp add: cal_round_def)
  have "cv_fault v2 = FSRV_RUN_OK"
    using cal_compare_fault [OF cmp(1)] cal_run_fault [OF run(1)] wba by (simp add: well_behaved_def Let_def)
  moreover have "news_ok tr afl0 q v2 ?b"
    using a(1,2) by (intro cal_compare_news [OF cmp(1) news1 a(3)]) (auto simp: stable_inv_def)
  ultimately have "live_inv m ck tr q mem afl0 failed s v2 ?b"
    using cal_compare_stable [OF a(2,1) cmp(1)] cmp f by (simp add: live_inv_def)
  then show ?thesis using rnd cmp(5) f(2) by auto
qed

lemma cal_loop_behaved:
  assumes det: "\<And>k input tmo. w_target w k input tmo = T input" and whole: "writes_whole w"
    and c: "c = clamp_len afl0 True (uint (len (queue_buf afl0 ! q)))" "nat c \<le> length mem" "nat c \<le> unat MAX_FILE"
    and ck: "ck = input_cksum w T (unat m) (take (nat c) mem)" and tr: "tr = input_trace T (unat m) (take (nat c) mem)"
    and wb: "well_behaved T tmo (take (nat c) mem) s"
  shows "live_inv m ck tr q mem afl0 failed s v afl \<Longrightarrow>
    \<exists>v' afl'. cal_loop w q tmo v afl = Some (Inr (False, v', afl')) \<and> live_inv m ck tr q mem afl0 failed s v' afl'
      \<and> stage_max afl' \<le> stage_cur afl'"
proof (induction "unat (stage_max s) - unat (stage_cur afl)" arbitrary: v afl rule: less_induct)
  case less
  have sm: "stage_max x = stage_max s" if "live_inv m ck tr q mem afl0 failed s u x" for u x
    by (rule calmed_same [of x s]) (use that in \<open>simp_all add: live_inv_def calmed_defs\<close>)
  show ?case
  proof (cases "stage_cur afl < stage_max afl")
    case False
    then have "cal_loop w q tmo v afl = Some (Inr (False, v, afl))" by (subst cal_loop.simps) simp
    moreover have "stage_max afl \<le> stage_cur afl" using False by simp
    ultimately show ?thesis using less.prems by blast
  next
    case True
    obtain v1 a1 where r: "cal_round w q tmo v afl = Inr (False, v1, a1)" "live_inv m ck tr q mem afl0 failed s v1 a1"
      "stage_cur a1 = stage_cur afl + 1"
      using cal_round_behaved [OF less.prems det whole c ck tr wb] by blast
    have "unat (stage_cur a1) = Suc (unat (stage_cur afl))"
      using r(3) True unat_u32_less [of "stage_max afl"] by (simp add: unat_add_small word_less_nat_alt)
    then have "unat (stage_max s) - unat (stage_cur a1) < unat (stage_max s) - unat (stage_cur afl)"
      using True sm [OF less.prems] by (simp add: word_less_nat_alt)
    from less.hyps [OF this r(2)] show ?thesis using True r(1) by (simp add: cal_loop.simps [of w q tmo v afl])
  qed
qed

text \<open>The weights of PST-FUZZ refer to bytes of the map.\<close>

definition weights_ok :: "'a afl_cov_scheme \<Rightarrow> bool" where
  "weights_ok afl \<longleftrightarrow> length (bitmap_weight_array afl) = unat (bitmap_weight_array_size afl)
     \<and> (\<forall>t \<in> set (bitmap_weight_array afl). unat (bitmap_offset t) < unat (map_size afl))"

lemma weights_ok_total:
  assumes "weights_ok afl" and "length mem = unat (map_size afl)"
  shows "\<exists>wt. pst_fuzz_calculate_bitmap_weight afl mem = Inr wt"
  using assms pst_weight_loop_sum [of "bitmap_weight_array afl" mem 0]
  by (simp add: pst_fuzz_calculate_bitmap_weight_def weights_ok_def)

lemma rating_ready_upd_q:
  assumes "rating_ready afl q'"
    and f: "\<And>e. tc_ref (f e) = tc_ref e \<and> trace_mini (f e) = trace_mini e \<and> n_fuzz_entry (f e) = n_fuzz_entry e"
  shows "rating_ready (upd_q f q afl) q'"
proof -
  let ?qs = "queue_buf afl"
  have entry: "tc_ref (xs[q := f (xs ! q)] ! i) = tc_ref (xs ! i)" "trace_mini (xs[q := f (xs ! q)] ! i) = trace_mini (xs ! i)"
    for xs i
    using f by (cases "q < length xs"; cases "i = q"; simp add: list_update_beyond)+
  have "rated_wf (upd_q f q afl)"
    using assms(1) by (simp add: rating_ready_def rated_inv_def upd_q_def entry)
  moreover have "\<forall>e \<in> set (?qs[q := f (?qs ! q)]). unat (n_fuzz_entry e) < n"
    if "\<forall>e \<in> set ?qs. unat (n_fuzz_entry e) < n" for n
  proof (cases "q < length ?qs")
    case True
    then show ?thesis
      using that f set_update_subset_insert [of ?qs q "f (?qs ! q)"] nth_mem [OF True] by (metis insertE subsetD)
  qed (use that in \<open>simp add: list_update_beyond\<close>)
  then have "FAST \<le> schedule afl \<and> schedule afl \<le> RARE \<longrightarrow>
      (\<forall>e \<in> set (?qs[q := f (?qs ! q)]). unat (n_fuzz_entry e) < length (n_fuzz afl))"
    using assms(1) unfolding rating_ready_def by blast
  ultimately show ?thesis using assms(1) unfolding rating_ready_def by (simp add: upd_q_def)
qed

text \<open>
  What a completed calibration leaves: the entry is rated by the time \<open>us\<close> of the \<open>cycles\<close> runs and by the trace \<open>tr\<close>, the averages count it,
  and each map byte of the trace has the better of its holder and the entry as its holder.
\<close>

definition calibrated ::
  "'a afl_run_scheme \<Rightarrow> qid \<Rightarrow> bytes \<Rightarrow> u64 \<Rightarrow> u32 \<Rightarrow> u32 \<Rightarrow> 'a afl_run_scheme \<Rightarrow> bool" where
  "calibrated afl q tr us cycles handicap0 afl' \<longleftrightarrow>
     (let e = queue_buf afl' ! q in
      cal_failed e = 0 \<and> exec_us e = us div ucast cycles \<and> bitmap_size e = count_bytes afl tr
      \<and> pst_fuzz_calculate_bitmap_weight afl tr = Inr (bitmap_weight e) \<and> handicap e = ucast handicap0
      \<and> total_cal_us afl' = total_cal_us afl + us \<and> total_cal_cycles afl' = total_cal_cycles afl + ucast cycles
      \<and> total_bitmap_size afl' = total_bitmap_size afl + ucast (count_bytes afl tr)
      \<and> total_bitmap_entries afl' = total_bitmap_entries afl + 1
      \<and> (\<forall>i < unat (map_size afl). top_rated afl' ! i =
           (if tr ! i = 0 then top_rated afl ! i
            else case top_rated afl ! i of
              None \<Rightarrow> Some q
            | Some d \<Rightarrow> if own_p2_value afl e \<le> fuzz_p2_value afl (queue_buf afl' ! d)
                           \<and> fav_factor afl e \<le> fav_factor afl (queue_buf afl' ! d)
                        then Some q else Some d)))"

lemmas rating_defs = count_bytes_def words32_def pst_fuzz_calculate_bitmap_weight_def own_p2_value_def fuzz_p2_value_def
  fav_factor_def

lemma calibrated_cong:
  assumes "count_bytes a = count_bytes b" "pst_fuzz_calculate_bitmap_weight a = pst_fuzz_calculate_bitmap_weight b"
    "own_p2_value a = own_p2_value b" "fuzz_p2_value a = fuzz_p2_value b" "fav_factor a = fav_factor b"
    "map_size a = map_size b" "top_rated a = top_rated b" "total_cal_us a = total_cal_us b"
    "total_cal_cycles a = total_cal_cycles b" "total_bitmap_size a = total_bitmap_size b"
    "total_bitmap_entries a = total_bitmap_entries b"
  shows "calibrated a q tr us cycles h afl' = calibrated b q tr us cycles h afl'"
  by (simp only: calibrated_def assms)

lemma calibrated_after:
  assumes "queue_buf a = queue_buf b" "top_rated a = top_rated b" "total_cal_us a = total_cal_us b"
    "total_cal_cycles a = total_cal_cycles b" "total_bitmap_size a = total_bitmap_size b"
    "total_bitmap_entries a = total_bitmap_entries b"
  shows "calibrated afl q tr us cycles h a = calibrated afl q tr us cycles h b"
  by (simp only: calibrated_def assms)

lemma calibrated_calmed: "calibrated (calmed afl) q tr us cycles h afl' = calibrated afl q tr us cycles h afl'"
  by (rule calibrated_cong) (auto simp: fun_eq_iff calmed_defs rating_defs)

lemma calibrated_start:
  "calibrated ((cal_start q afl)\<lparr>ticks := n\<rparr>) q tr us cycles h afl' = calibrated afl q tr us cycles h afl'"
  by (cases "cmplog_mode afl"; rule calibrated_cong)
    (auto simp: fun_eq_iff cal_start_def Let_def upd_q_def rating_defs)

lemma calibrated_kept:
  assumes "cal_abort w q first_run old v afl = Inr (fault, afl')" and "stats_keep w" and "\<not> cv_var_detected v"
  shows "calibrated afl0 q tr us cycles h afl' = calibrated afl0 q tr us cycles h afl"
proof (rule cal_abort_quiet [OF assms])
  fix x :: "'a afl_run_scheme"
  define y where "y = upd_q (\<lambda>e. e\<lparr>has_new_cov := True\<rparr>) q x"
  have upd: "f (queue_buf y ! d) = f (queue_buf x ! d)" if "\<And>e. f (e\<lparr>has_new_cov := True\<rparr>) = f e"
    for f :: "queue_entry \<Rightarrow> 'c" and d
    using that unfolding y_def upd_q_def
    by (cases "q < length (queue_buf x)"; cases "d = q") (simp_all add: list_update_beyond)
  have fields: "cal_failed (queue_buf y ! d) = cal_failed (queue_buf x ! d)"
    "exec_us (queue_buf y ! d) = exec_us (queue_buf x ! d)"
    "bitmap_size (queue_buf y ! d) = bitmap_size (queue_buf x ! d)"
    "bitmap_weight (queue_buf y ! d) = bitmap_weight (queue_buf x ! d)"
    "handicap (queue_buf y ! d) = handicap (queue_buf x ! d)"
    "own_p2_value afl0 (queue_buf y ! d) = own_p2_value afl0 (queue_buf x ! d)"
    "fuzz_p2_value afl0 (queue_buf y ! d) = fuzz_p2_value afl0 (queue_buf x ! d)"
    "fav_factor afl0 (queue_buf y ! d) = fav_factor afl0 (queue_buf x ! d)" for d
    by (rule upd; simp add: rating_defs)+
  have totals: "total_cal_us y = total_cal_us x" "total_cal_cycles y = total_cal_cycles x"
    "total_bitmap_size y = total_bitmap_size x" "total_bitmap_entries y = total_bitmap_entries x" "top_rated y = top_rated x"
    by (simp_all add: y_def upd_q_def)
  show "calibrated afl0 q tr us cycles h (upd_q (\<lambda>e. e\<lparr>has_new_cov := True\<rparr>) q x) = calibrated afl0 q tr us cycles h x"
    unfolding y_def [symmetric] by (simp only: calibrated_def Let_def fields totals)
qed (rule calibrated_after; simp add: stats_free_def)+

lemma cal_finish_behaved:
  assumes ready: "rating_ready afl q" and wts: "weights_ok afl" and sm: "stage_max afl \<noteq> 0"
    and t: "cal_time w start_us afl = (d, a)"
  shows "\<exists>afl'. cal_finish w q start_us handicap0 afl = Inr afl'
    \<and> calibrated afl q (trace_bits afl) d (stage_max afl) handicap0 afl'"
proof -
  define b where "b = a\<lparr>total_cal_us := total_cal_us a + d, total_cal_cycles := total_cal_cycles a + ucast (stage_max a)\<rparr>"
  have ab: "a = afl \<or> a = afl\<lparr>ticks := ticks afl + 1\<rparr>"
    using t by (auto simp: cal_time_def get_cur_time_us_def split: if_splits)
  then have b: "queue_buf b = queue_buf afl" "stage_max b = stage_max afl" "map_size b = map_size afl"
    "trace_bits b = trace_bits afl" "weights_ok b = weights_ok afl" "top_rated b = top_rated afl"
    "schedule b = schedule afl" "n_fuzz b = n_fuzz afl" by (auto simp: b_def weights_ok_def)
  have q: "q < length (queue_buf b)" and len: "length (trace_bits b) = unat (map_size b)"
    using ready b by (simp_all add: rating_ready_def)
  obtain wt where wt: "pst_fuzz_calculate_bitmap_weight b (trace_bits b) = Inr wt"
    using weights_ok_total [of b] wts b len by auto
  let ?n = "count_bytes b (trace_bits b)"
  let ?f = "\<lambda>e. e\<lparr>exec_us := d div ucast (stage_max b), bitmap_size := ?n,
      bitmap_weight := wt, handicap := ucast handicap0, cal_failed := 0\<rparr>"
  let ?c = "(upd_q ?f q b)\<lparr>total_bitmap_size := total_bitmap_size b + ucast ?n,
      total_bitmap_entries := total_bitmap_entries b + 1\<rparr>"
  have rate: "cal_finish w q start_us handicap0 afl = update_bitmap_score ?c q"
    unfolding cal_finish_def t prod.case Let_def b_def [symmetric] using sm b(2) q wt by (simp add: get_q_def) (simp add: upd_q_def)
  have qc: "queue_buf ?c = (queue_buf afl)[q := ?f (queue_buf afl ! q)]" by (simp add: upd_q_def b)
  have "rating_ready b q" using ready b by (simp add: rating_ready_def rated_inv_def)
  then have "rating_ready (upd_q ?f q b) q" by (intro rating_ready_upd_q) simp_all
  then have ready_c: "rating_ready ?c q" by (simp add: rating_ready_def rated_inv_def)
  from update_bitmap_score_spec [OF this] obtain afl' where
    fin: "update_bitmap_score ?c q = Inr afl'" "unrated afl' = unrated ?c"
    and top: "\<And>i. i < unat (map_size ?c) \<Longrightarrow>
      top_rated afl' ! i = new_top ?c q (own_p2_value ?c (queue_buf ?c ! q)) (fav_factor ?c (queue_buf ?c ! q)) i"
    by blast
  have strip: "strip_rating (queue_buf afl' ! j) = strip_rating (queue_buf ?c ! j)" if "j < length (queue_buf ?c)" for j
    using unrated_fields(7) [OF fin(2) that] .
  have same: "g (queue_buf afl' ! j) = g (queue_buf ?c ! j)"
    if "j < length (queue_buf ?c)" "\<And>e. g (strip_rating e) = g e" for g :: "queue_entry \<Rightarrow> 'c" and j
    using arg_cong [OF strip [OF that(1)], of g] that(2) by simp
  have qlen: "q < length (queue_buf ?c)" using q b(1) qc by simp
  have vals: "own_p2_value afl (queue_buf afl' ! j) = own_p2_value ?c (queue_buf ?c ! j)"
    "fuzz_p2_value afl (queue_buf afl' ! j) = fuzz_p2_value ?c (queue_buf ?c ! j)"
    "fav_factor afl (queue_buf afl' ! j) = fav_factor ?c (queue_buf ?c ! j)"
    if "j < length (queue_buf ?c)" for j
  proof -
    have cfg: "own_p2_value ?c = own_p2_value afl" "fuzz_p2_value ?c = fuzz_p2_value afl" "fav_factor ?c = fav_factor afl"
      using ab b by (auto simp: rating_defs upd_q_def b_def fun_eq_iff)
    show "own_p2_value afl (queue_buf afl' ! j) = own_p2_value ?c (queue_buf ?c ! j)"
      "fuzz_p2_value afl (queue_buf afl' ! j) = fuzz_p2_value ?c (queue_buf ?c ! j)"
      "fav_factor afl (queue_buf afl' ! j) = fav_factor ?c (queue_buf ?c ! j)"
      unfolding cfg by (rule same [OF that]; simp add: rating_defs strip_rating_def)+
  qed
  have holders: "top_rated afl' ! i = (if trace_bits afl ! i = 0 then top_rated afl ! i
      else case top_rated afl ! i of
        None \<Rightarrow> Some q
      | Some d \<Rightarrow> if own_p2_value afl (queue_buf afl' ! q) \<le> fuzz_p2_value afl (queue_buf afl' ! d)
                     \<and> fav_factor afl (queue_buf afl' ! q) \<le> fav_factor afl (queue_buf afl' ! d)
                  then Some q else Some d)" if i: "i < unat (map_size afl)" for i
  proof -
    have ic: "i < unat (map_size ?c)" "top_rated ?c ! i = top_rated afl ! i" "trace_bits ?c = trace_bits afl"
      using i b by (simp_all add: upd_q_def)
    have "d < length (queue_buf ?c)" if "top_rated afl ! i = Some d" for d
      using ready_c ic that nth_mem [of i "top_rated ?c"] unfolding rating_ready_def rated_inv_def by force
    then show ?thesis
      unfolding top [OF ic(1)] new_top_def ic(2,3) using vals qlen by (simp split: option.split)
  qed
  have entry: "exec_us (queue_buf afl' ! q) = d div ucast (stage_max afl)" "bitmap_size (queue_buf afl' ! q) = ?n"
    "bitmap_weight (queue_buf afl' ! q) = wt" "handicap (queue_buf afl' ! q) = ucast handicap0"
    "cal_failed (queue_buf afl' ! q) = 0"
    using same [OF qlen, of exec_us] same [OF qlen, of bitmap_size] same [OF qlen, of bitmap_weight]
      same [OF qlen, of handicap] same [OF qlen, of cal_failed] q b qc
    by (simp_all add: strip_rating_def)
  have cfg: "?n = count_bytes afl (trace_bits afl)" "pst_fuzz_calculate_bitmap_weight afl (trace_bits afl) = Inr wt"
    using ab wt by (auto simp: b_def rating_defs)
  have totals: "total_cal_us afl' = total_cal_us afl + d" "total_cal_cycles afl' = total_cal_cycles afl + ucast (stage_max afl)"
    "total_bitmap_size afl' = total_bitmap_size afl + ucast ?n" "total_bitmap_entries afl' = total_bitmap_entries afl + 1"
    using arg_cong [OF fin(2), of total_cal_us] arg_cong [OF fin(2), of total_cal_cycles]
      arg_cong [OF fin(2), of total_bitmap_size] arg_cong [OF fin(2), of total_bitmap_entries] ab
    by (auto simp: unrated_def upd_q_def b_def)
  show ?thesis
    using rate fin(1) entry totals holders unfolding calibrated_def Let_def by (auto simp: cfg)
qed

lemma calmed_ticks: "calmed (afl\<lparr>ticks := n\<rparr>) = (calmed afl)\<lparr>ticks := n\<rparr>"
  by (simp add: calmed_defs)

lemma calmed_rating_ready:
  assumes "calmed a = calmed b" and "rating_ready b q" and "trim_env m a"
  shows "rating_ready a q"
proof -
  have "rated_wf a = rated_wf b" by (rule calmed_same [OF assms(1)]) (rule calmed_rated)
  moreover have "(\<forall>e \<in> set (queue_buf a). unat (n_fuzz_entry e) < length (n_fuzz a))
      = (\<forall>e \<in> set (queue_buf b). unat (n_fuzz_entry e) < length (n_fuzz b))"
    by (rule calmed_same [OF assms(1)]) (rule calmed_ready)
  moreover have "length (queue_buf a) = length (queue_buf b)" "schedule a = schedule b"
    by (rule calmed_same [OF assms(1)]; simp add: calmed_defs)+
  ultimately show ?thesis using assms(2,3) unfolding rating_ready_def trim_env_def by simp
qed

text \<open>The state the loop starts from, for an entry that is not yet rated or has the checksum of its input.\<close>

lemma cal_start_ready: "rating_ready afl q \<Longrightarrow> rating_ready ((cal_start q afl)\<lparr>ticks := n\<rparr>) q"
proof -
  assume ready: "rating_ready afl q"
  have keep: "rating_ready (x\<lparr>stage_name := a, stage_max := b, ticks := n\<rparr>) q = rating_ready x q" for a b and x :: "'a afl_run_scheme"
    by (simp add: rating_ready_def rated_inv_def)
  show ?thesis using ready by (simp add: cal_start_def Let_def keep rating_ready_upd_q)
qed

lemma cal_prepare_behaved:
  assumes "fsrv_pid afl \<noteq> 0" and "\<not> cmplog_mode afl" and env: "trim_env (map_size afl) afl" and "\<not> stop_soon afl"
    and e: "e = queue_buf afl ! q" and ck: "exec_cksum e = 0 \<or> exec_cksum e = ck" and q: "q < length (queue_buf afl)"
    and ft: "length (first_trace afl) = unat (map_size afl)"
  shows "\<exists>v1 a1. cal_prepare w q tmo (cal_vars0 mem) (cal_start q afl) = Inr (False, v1, a1)
    \<and> ticks a1 = ticks afl \<and> live_inv (map_size afl) ck tr q mem afl (cal_failed e + 1)
        ((cal_start q afl)\<lparr>ticks := ticks afl + 1\<rparr>) v1 (cal_enter a1)"
proof -
  let ?s = "cal_start q afl"
  have s: "queue_buf ?s = (queue_buf afl)[q := e\<lparr>cal_failed := cal_failed e + 1\<rparr>]" "\<not> cmplog_mode ?s" "fsrv_pid ?s \<noteq> 0"
    "first_trace ?s = first_trace afl" "trace_bits ?s = trace_bits afl" "map_size ?s = map_size afl"
    "\<not> stop_soon ?s" "ticks ?s = ticks afl"
    using assms(1,2,4) e by (simp_all add: cal_start_def Let_def upd_q_def)
  have get: "get_q ?s q = Inr (e\<lparr>cal_failed := cal_failed e + 1\<rparr>)" using s(1) q by (simp add: get_q_def)
  have len: "length (trace_bits ?s) = unat (map_size ?s)" "length (first_trace ?s) = unat (map_size ?s)"
    using env ft s by (simp_all add: trim_env_def)
  have rms: "real_map_size ?s = real_map_size afl" "virgin_bits ?s = virgin_bits afl" by (simp_all add: cal_start_def Let_def)
  have "\<exists>v1 a1. cal_prepare w q tmo (cal_vars0 mem) ?s = Inr (False, v1, a1) \<and> calmed a1 = calmed ?s
      \<and> stop_soon a1 = stop_soon ?s \<and> length (first_trace a1) = unat (map_size afl) \<and> ticks a1 = ticks ?s
      \<and> cv_fault v1 = FSRV_RUN_OK \<and> news_ok tr afl q v1 (cal_enter a1)"
  proof (cases "exec_cksum e = 0")
    case True
    then show ?thesis using s get len rms e q by (simp add: cal_prepare_def ensure_fsrv_def news_ok_def)
  next
    case False
    let ?b = "?s\<lparr>first_trace := trace_bits ?s\<rparr>"
    have "cal_prepare w q tmo (cal_vars0 mem) ?s
        = Inr (False, fst (see_new_bits (cal_vars0 mem) ?b), snd (has_new_bits ?b Virgin_bits))"
      using False s(2,3) get copy_map_ok [OF len] by (simp add: cal_prepare_def ensure_fsrv_def see_new_bits_eq)
    moreover have "stop_soon (snd (has_new_bits ?b Virgin_bits)) = stop_soon ?s"
      "ticks (snd (has_new_bits ?b Virgin_bits)) = ticks ?s"
      "real_map_size (snd (has_new_bits ?b Virgin_bits)) = real_map_size ?s"
      by (simp_all add: has_new_bits_def Let_def split: prod.split)
    ultimately show ?thesis using len(1) s(6) rms(1) False e
      by (simp add: calmed_has_new_bits has_new_bits_run_frame see_new_bits_eq news_ok_def)
  qed
  then obtain v1 a1 where p: "cal_prepare w q tmo (cal_vars0 mem) ?s = Inr (False, v1, a1)" "calmed a1 = calmed ?s"
    "stop_soon a1 = stop_soon ?s" "length (first_trace a1) = unat (map_size afl)" "ticks a1 = ticks ?s"
    "cv_fault v1 = FSRV_RUN_OK" "news_ok tr afl q v1 (cal_enter a1)" by blast
  have "stable_inv (map_size afl) ck q mem afl (cal_failed e + 1) v1 (cal_enter a1)"
    using cal_prepare_stable [OF p(1) assms(1,2) env e ck q] by simp
  moreover have "calmed (cal_enter a1) = calmed (?s\<lparr>ticks := ticks afl + 1\<rparr>)"
    using p(2,5) s(8) by (simp add: calmed_ticks)
  ultimately show ?thesis using p s(7,8) by (auto simp: live_inv_def)
qed

text \<open>The whole calibration of a well-behaved target.\<close>

lemma calibrate_case_goes:
  assumes "fsrv_pid afl \<noteq> 0" and "\<not> cmplog_mode afl" and "stats_keep w" and "trim_env (map_size afl) afl"
    and "\<not> stop_soon afl" and "\<And>k input tmo. w_target w k input tmo = T input" and "e = queue_buf afl ! q"
    and "c = clamp_len afl True (uint (len e))" and "nat c \<le> length use_mem" and "nat c \<le> unat MAX_FILE"
    and "ck = input_cksum w T (unat (map_size afl)) (take (nat c) use_mem)"
    and "exec_cksum e = 0 \<or> exec_cksum e = ck" and "length (first_trace afl) = unat (map_size afl)"
    and "rating_ready afl q" and "weights_ok afl"
    and "well_behaved T (calibration_tmout afl from_queue) (take (nat c) use_mem) afl" and "writes_whole w"
    and tr: "tr = input_trace T (unat (map_size afl)) (take (nat c) use_mem)"
    and cycles: "cycles = (if afl_cal_fast afl then CAL_CYCLES_FAST else CAL_CYCLES)"
    and us: "us = (if fixed_seed afl then ucast (exec_tmout afl - 1) * ucast cycles
      else max 1 (w_clock_us w (ticks afl + 1) - w_clock_us w (ticks afl)))"
  shows "\<exists>fault afl'. calibrate_case w afl q use_mem handicap0 from_queue = Some (Inr (fault, afl'))
    \<and> fault = (if \<not> non_instrumented_mode afl \<and> exec_cksum e = 0 \<and> (ck = 0 \<or> news_of afl tr = 0)
               then FSRV_RUN_NOBITS else FSRV_RUN_OK)
    \<and> exec_cksum (queue_buf afl' ! q) = ck \<and> calibrated afl q tr us cycles handicap0 afl'"
proof -
  let ?tmo = "calibration_tmout afl from_queue" and ?in = "take (nat c) use_mem"
  let ?s = "(cal_start q afl)\<lparr>ticks := ticks afl + 1\<rparr>"
  let ?inv = "live_inv (map_size afl) ck tr q use_mem afl (cal_failed e + 1) ?s"
  have q: "q < length (queue_buf afl)" using assms(14) by (simp add: rating_ready_def)
  have c: "c = clamp_len afl True (uint (len (queue_buf afl ! q)))" using assms(7,8) by simp
  obtain v1 a1 where prep: "cal_prepare w q ?tmo (cal_vars0 use_mem) (cal_start q afl) = Inr (False, v1, a1)"
    "?inv v1 (cal_enter a1)" "ticks a1 = ticks afl"
    using cal_prepare_behaved [OF assms(1,2,4,5,7,12) q assms(13)] by blast
  have wb: "well_behaved T ?tmo ?in ?s"
    using assms(16)
    by (simp add: cal_start_def Let_def well_behaved_def crashed_def upd_q_def count_bytes_def words32_def)
  obtain v2 a2 where loop: "cal_loop w q ?tmo v1 (cal_enter a1) = Some (Inr (False, v2, a2))" "?inv v2 a2"
    "stage_max a2 \<le> stage_cur a2"
    using cal_loop_behaved [OF assms(6,17) c assms(9,10,11) tr wb prep(2)] by blast
  have cal: "calmed a2 = calmed ?s" and st: "stable_inv (map_size afl) ck q use_mem afl (cal_failed e + 1) v2 a2"
    and news: "news_ok tr afl q v2 a2"
    using loop(2) by (simp_all add: live_inv_def)
  have "trim_env (map_size afl) a2" using st by (simp add: stable_inv_def)
  then have ready: "rating_ready a2 q"
    by (rule calmed_rating_ready [OF cal cal_start_ready [OF assms(14)]])
  have "weights_ok a2 = weights_ok ?s" "stage_max a2 = stage_max ?s" "fixed_seed a2 = fixed_seed ?s"
    "exec_tmout a2 = exec_tmout ?s" "ticks a2 = ticks ?s" "non_instrumented_mode a2 = non_instrumented_mode ?s"
    by (rule calmed_same [OF cal]; simp add: calmed_defs weights_ok_def)+
  then have wts: "weights_ok a2" and sm: "stage_max a2 = cycles" and nim: "non_instrumented_mode a2 = non_instrumented_mode afl"
    and tf: "fixed_seed a2 = fixed_seed afl" "exec_tmout a2 = exec_tmout afl" "ticks a2 = ticks afl + 1"
    using assms(15) by (simp_all add: cal_start_def Let_def weights_ok_def upd_q_def cycles)
  have sm0: "stage_max a2 \<noteq> 0" by (simp add: sm cycles)
  have "fst (cal_time w (w_clock_us w (ticks a1)) a2) = us"
    by (auto simp: cal_time_def get_cur_time_us_def tf sm us prep(3) max_def word_le_nat_alt unat_eq_zero
        simp flip: unat_0_iff)
  then obtain a where time: "cal_time w (w_clock_us w (ticks a1)) a2 = (us, a)"
    by (cases "cal_time w (w_clock_us w (ticks a1)) a2") simp
  from cal_finish_behaved [OF ready wts sm0 time] obtain a3 where
    fin: "cal_finish w q (w_clock_us w (ticks a1)) handicap0 a2 = Inr a3"
    "calibrated a2 q (trace_bits a2) us (stage_max a2) handicap0 a3" by blast
  note entry = cal_finish_entry [OF fin(1)]
  have cur: "stage_cur a2 \<noteq> 0" using loop(3) sm0 by auto
  then have ck2: "exec_cksum (queue_buf a2 ! q) = ck" using st by (simp add: stable_inv_def)
  have "trace_bits a2 = tr" using news cur by (simp add: news_ok_def)
  then have "calibrated a2 q tr us cycles handicap0 a3" using fin(2) sm by simp
  moreover have "calibrated a2 q tr us cycles handicap0 a3 = calibrated ?s q tr us cycles handicap0 a3"
    by (rule calmed_same [OF cal]) (rule calibrated_calmed)
  ultimately have good: "calibrated afl q tr us cycles handicap0 a3" by (simp add: calibrated_start)
  have "non_instrumented_mode a3 = non_instrumented_mode a2"
    by (rule cal_finish_frame [OF fin(1)]) (simp_all add: unrated_def upd_q_def)
  then have nim3: "non_instrumented_mode a3 = non_instrumented_mode afl" using nim by simp
  let ?v = "if \<not> non_instrumented_mode a3 \<and> exec_cksum e = 0 \<and> cv_fault v2 = FSRV_RUN_OK \<and> cv_new_bits v2 = 0
      then v2\<lparr>cv_fault := FSRV_RUN_NOBITS\<rparr> else v2"
  let ?old = "(stage_name afl, stage_cur afl, stage_max afl)"
  have quiet: "\<not> cv_var_detected ?v" using st by (simp add: stable_inv_def)
  obtain fault afl' where ab: "cal_abort w q (exec_cksum e = 0) ?old ?v a3 = Inr (fault, afl')"
    using cal_abort_total [OF entry(2) quiet] by blast
  have "calibrate_case w afl q use_mem handicap0 from_queue = Some (Inr (fault, afl'))"
    using q assms(7) prep(1) loop(1) fin(1) ab
    by (simp add: calibrate_case_def get_q_def Let_def get_cur_time_us_def del: if_split cong: if_cong)
  moreover have "fault = cv_fault ?v"
    using ab by (auto simp: cal_abort_def bind_result_Inr_iff Let_def simp del: if_split)
  moreover have "cv_new_bits v2 = 0 \<longleftrightarrow> ck = 0 \<or> news_of afl tr = 0" if "exec_cksum e = 0"
    using news that ck2 assms(7) by (auto simp: news_ok_def split: if_splits)
  moreover have "cv_fault v2 = FSRV_RUN_OK" using loop(2) by (simp add: live_inv_def)
  moreover have "exec_cksum (queue_buf afl' ! q) = ck"
    using cal_abort_keeps [OF ab assms(3) quiet] entry(3) ck2 by simp
  moreover have "calibrated afl q tr us cycles handicap0 afl'"
    using calibrated_kept [OF ab assms(3) quiet] good by simp
  ultimately show ?thesis by (auto simp: nim3)
qed

lemma calibrate_case_silenced:
  assumes "calibrate_case w afl q use_mem handicap0 from_queue = Some (Inr (fault, afl'))"
    and "fsrv_pid afl \<noteq> 0" and "stats_keep w" and "variable_silenced afl"
  shows "variable_silenced afl'"
proof -
  have pid: "fsrv_pid (cal_start q afl) \<noteq> 0" using assms(2) by (simp add: cal_start_frame)
  have s0: "variable_silenced (cal_start q afl)"
    by (rule variable_silenced_cong [OF assms(4)]) (simp_all add: cal_start_def Let_def)
  note prep = cal_prepare_silenced [OF _ pid s0]
  have enter: "variable_silenced (cal_enter a)" if "variable_silenced a" for a :: "'a afl_run_scheme"
    using that by (rule variable_silenced_cong) simp_all
  have loop: "variable_silenced a" if "cal_loop w q tmo v1 a1 = Some (Inr (st, v, a))" "variable_silenced a1" for tmo v1 a1 st v a
    using cal_loop_inv [where I = "\<lambda>_. variable_silenced", OF _ that(2,1) refl] cal_round_silenced by blast
  show ?thesis
    using assms(1)
  proof (cases rule: calibrate_case_end)
    case (1 first_run v a)
    then show ?thesis using cal_abort_silenced [OF 1(1) assms(3)] prep by blast
  next
    case (2 first_run v1 a1 v a)
    then show ?thesis using cal_abort_silenced [OF 2(1) assms(3)] loop [OF 2(3)] enter prep by blast
  next
    case (3 first_run v1 a1 v2 a2 start_us v a)
    then show ?thesis
      using cal_abort_silenced [OF 3(1) assms(3)] cal_finish_silenced [OF 3(4)] loop [OF 3(3)] enter prep by blast
  qed
qed

section \<open>Properties\<close>

text \<open>(C35)
  A calibration always ends, however the target behaves: it returns after at most thirteen runs (the bound of the loop
  grows while it runs, but never beyond twelve), and puts back the stage that was interrupted.
\<close>

theorem calibrate_case_returns:
  assumes "fsrv_pid afl \<noteq> 0" and "stats_keep w"
  shows "\<exists>r. calibrate_case w afl q use_mem handicap0 from_queue = Some r \<and>
    (\<forall>fault afl'. r = Inr (fault, afl') \<longrightarrow> stage_name afl' = stage_name afl \<and> stage_cur afl' = stage_cur afl
       \<and> stage_max afl' = stage_max afl \<and> runs afl' \<le> runs afl + 13)"
proof -
  obtain r where "calibrate_case w afl q use_mem handicap0 from_queue = Some r"
    using calibrate_case_some [OF assms(1)] by blast
  then show ?thesis using calibrate_case_effect [OF _ assms] by blast
qed

lemma trim_demo_pid: "fsrv_pid trim_demo \<noteq> 0"
  by (simp add: trim_demo_def run_demo_def afl_one.extend_def)

theorem calibrate_case_returns_witness:
  "\<exists>r. calibrate_case (keep_world (\<lambda>input. ok_reply input)) trim_demo 0 [1, 2, 3, 4, 5, 6, 7, 8] 0 False = Some r"
  using calibrate_case_returns [OF trim_demo_pid keep_world_simps(2)] by blast

text \<open>(C34)
  A byte of the map that was found to vary between runs of one input never counts as new coverage again: calibration
  keeps that every byte marked in \<open>var_bytes\<close> is cleared in \<open>virgin_bits\<close>, for every behaviour of the target.
\<close>

theorem calibrate_case_silences:
  assumes "calibrate_case w afl q use_mem handicap0 from_queue = Some (Inr (fault, afl'))"
    and "fsrv_pid afl \<noteq> 0" and "stats_keep w" and "variable_silenced afl"
  shows "variable_silenced afl'"
  by (rule calibrate_case_silenced [OF assms])

text \<open>
  A target whose coverage depends on the input only is never reported as unstable: when the entry has no checksum yet or
  the one of its input, calibration marks no byte variable and counts no variable entry; and when it completes (it resets
  \<open>cal_failed\<close>), the entry has the checksum of the classified coverage of its input.
\<close>

theorem calibrate_case_stable:
  assumes "calibrate_case w afl q use_mem handicap0 from_queue = Some (Inr (fault, afl'))"
    and "fsrv_pid afl \<noteq> 0" and "\<not> cmplog_mode afl" and "stats_keep w" and "trim_env (map_size afl) afl"
    and "\<And>k input tmo. w_target w k input tmo = T input" and "e = queue_buf afl ! q"
    and "c = clamp_len afl True (uint (len e))" and "nat c \<le> length use_mem" and "nat c \<le> unat MAX_FILE"
    and "ck = input_cksum w T (unat (map_size afl)) (take (nat c) use_mem)"
    and "exec_cksum e = 0 \<or> exec_cksum e = ck" and "cal_failed e \<noteq> 255" and "writes_whole w"
  shows "var_bytes afl' = var_bytes afl \<and> queued_variable afl' = queued_variable afl
    \<and> (cal_failed (queue_buf afl' ! q) = 0 \<longrightarrow> exec_cksum (queue_buf afl' ! q) = ck)"
proof -
  let ?m = "map_size afl" and ?tmo = "calibration_tmout afl from_queue"
  let ?inv = "stable_inv ?m ck q use_mem afl (cal_failed e + 1)"
  have q: "q < length (queue_buf afl)"
    using assms(1) by (cases "q < length (queue_buf afl)") (simp_all add: calibrate_case_def get_q_def)
  have c: "c = clamp_len afl True (uint (len (queue_buf afl ! q)))" using assms(7,8) by simp
  have failed: "cal_failed e + 1 \<noteq> 0" using assms(13) u8_succ_zero by blast
  have enter: "\<not> stop \<and> ?inv v1 (cal_enter a1)"
    if prep: "cal_prepare w q ?tmo (cal_vars0 use_mem) (cal_start q afl) = Inr (stop, v1, a1)" for stop v1 a1
    using cal_prepare_stable [OF prep assms(2,3,5,7,12)] q by blast
  have loop: "?inv v a \<and> (st \<or> stage_max a \<le> stage_cur a)"
    if "cal_prepare w q ?tmo (cal_vars0 use_mem) (cal_start q afl) = Inr (stop, v1, a1)"
      "cal_loop w q ?tmo v1 (cal_enter a1) = Some (Inr (st, v, a))" for stop v1 a1 st v a
    using cal_loop_inv [where I = ?inv, OF _ conjunct2 [OF enter [OF that(1)]] that(2) refl]
      cal_round_stable [OF _ assms(6,14) c assms(9,10,11)] by blast
  have quiet: "var_bytes afl' = var_bytes a \<and> queued_variable afl' = queued_variable a
      \<and> cal_failed (queue_buf afl' ! q) = cal_failed (queue_buf a ! q)
      \<and> exec_cksum (queue_buf afl' ! q) = exec_cksum (queue_buf a ! q)"
    if "cal_abort w q f old v a = Inr (fault, afl')" "\<not> cv_var_detected v" for f old v and a :: "'a afl_run_scheme"
    using cal_abort_keeps [OF that(1) assms(4) that(2)] by blast
  show ?thesis
    using assms(1)
  proof (cases rule: calibrate_case_end)
    case (1 first_run v a)
    then show ?thesis using enter by blast
  next
    case (2 first_run v1 a1 v a)
    have "?inv v a" using loop [OF 2(2,3)] by blast
    then show ?thesis using quiet [OF 2(1)] failed by (simp add: stable_inv_def)
  next
    case (3 first_run v1 a1 v2 a2 start_us v a)
    have inv: "?inv v2 a2" "stage_max a2 \<le> stage_cur a2" using loop [OF 3(2,3)] by blast+
    note fin = cal_finish_entry [OF 3(4)]
    have "stage_cur a2 \<noteq> 0" using inv(2) fin(1) by auto
    then have "exec_cksum (queue_buf a ! q) = ck" using inv(1) fin(3) by (simp add: stable_inv_def)
    moreover have "var_bytes a = var_bytes a2" "queued_variable a = queued_variable a2"
      by (rule cal_finish_frame [OF 3(4)]; simp add: unrated_def)+
    moreover have "\<not> cv_var_detected v" using inv(1) 3(5) by (simp add: stable_inv_def)
    ultimately show ?thesis using quiet [OF 3(1)] inv(1) by (simp add: stable_inv_def)
  qed
qed

text \<open>(C14)
  Calibration rates the entry of a well-behaved target. With no custom mutator loaded, \<open>no_unlink\<close> and CmpLog off, \<open>write\<close> calls that take all
  bytes, the fork server running, the tables of the fuzzer in order, and a target whose answer depends on the input only, which answers in
  time, does not crash and covers something: \<open>calibrate_case\<close> returns, its result is \<open>FSRV_RUN_OK\<close>, except that the first calibration of an entry
  whose trace shows nothing new reports \<open>FSRV_RUN_NOBITS\<close>; the entry has the checksum of the classified coverage of its input, its execution
  time is the time of the runs over their number, its map size and PST-FUZZ weight are those of the trace, its handicap is
  the given one, it is no longer marked as failed; the averages count the runs and the entry; and every map byte of the trace is held by
  the entry exactly when it was free or the entry beats its holder (\<open>calibrated\<close>).
\<close>

theorem calibrate_case_completes:
  assumes "custom_mutators_count afl = 0" and "\<not> no_unlink afl" and "channel_ready afl" and "writes_whole w"
    and "8 dvd unat (map_size afl)" and "length (trace_bits afl) = unat (map_size afl)"
    and "length (clean_trace afl) = unat (map_size afl)" and "length (first_trace afl) = unat (map_size afl)"
    and "fsrv_pid afl \<noteq> 0" and "\<not> cmplog_mode afl" and "stats_keep w" and "\<not> stop_soon afl"
    and "rating_ready afl q" and "weights_ok afl"
    and "\<And>k input tmo. w_target w k input tmo = T input" and "e = queue_buf afl ! q"
    and "c = clamp_len afl True (uint (len e))" and "nat c \<le> length use_mem" and "nat c \<le> unat MAX_FILE"
    and "well_behaved T (calibration_tmout afl from_queue) (take (nat c) use_mem) afl"
    and "tr = input_trace T (unat (map_size afl)) (take (nat c) use_mem)"
    and "ck = input_cksum w T (unat (map_size afl)) (take (nat c) use_mem)" and "exec_cksum e = 0 \<or> exec_cksum e = ck"
    and "cycles = (if afl_cal_fast afl then CAL_CYCLES_FAST else CAL_CYCLES)"
    and "us = (if fixed_seed afl then ucast (exec_tmout afl - 1) * ucast cycles
      else max 1 (w_clock_us w (ticks afl + 1) - w_clock_us w (ticks afl)))"
  shows "\<exists>fault afl'. calibrate_case w afl q use_mem handicap0 from_queue = Some (Inr (fault, afl'))
    \<and> fault = (if \<not> non_instrumented_mode afl \<and> exec_cksum e = 0 \<and> (ck = 0 \<or> news_of afl tr = 0)
               then FSRV_RUN_NOBITS else FSRV_RUN_OK)
    \<and> exec_cksum (queue_buf afl' ! q) = ck \<and> calibrated afl q tr us cycles handicap0 afl'"
proof -
  have "trim_env (map_size afl) afl" using assms(1-3,5-7) by (simp add: trim_env_def)
  from calibrate_case_goes [OF assms(9-11) this assms(12,15-19,22,23,8,13,14,20,4,21,24,25)] show ?thesis .
qed

definition cal_demo :: afl_run where
  "cal_demo = (run_demo None)\<lparr>queue_buf := queue_buf queue_demo, first_trace := replicate 64 0, clean_trace := replicate 64 0, var_bytes := replicate 64 0\<rparr>"

lemma cal_demo_fields:
  "queue_buf cal_demo = queue_buf queue_demo" "map_size cal_demo = 64" "trace_bits cal_demo = [5, 1] @ replicate 62 0"
  "\<not> cmplog_mode cal_demo" "\<not> stop_soon cal_demo" "fsrv_pid cal_demo \<noteq> 0" "first_trace cal_demo = replicate 64 0"
  "var_bytes cal_demo = replicate 64 0" "queued_variable cal_demo = 0" "real_map_size cal_demo = 64"
  "crash_mode cal_demo = FSRV_RUN_OK" "\<not> resuming_fuzz cal_demo" "exec_tmout cal_demo = 1000"
  "min_length cal_demo = 1" "max_length cal_demo = 1048576" "uses_asan cal_demo = False" "uses_crash_exitcode cal_demo = False"
  "schedule cal_demo = EXPLORE" "top_rated cal_demo = replicate 64 None"
  "bitmap_weight_array cal_demo = bitmap_weight_array cov_demo" "bitmap_weight_array_size cal_demo = 2"
  "virgin_bits cal_demo = replicate 64 255" "virgin_tmout cal_demo = replicate 64 255" "virgin_crash cal_demo = replicate 64 255"
  by (simp_all add: cal_demo_def run_demo_def afl_one.extend_def one_demo_def afl_extras.extend_def extras_demo_def
      afl_tc.extend_def tc_demo_def afl_queue.extend_def queue_demo_def afl_cov.extend_def cov_demo_def)

lemma cal_demo_env: "trim_env 64 cal_demo"
proof -
  have "channel_ready cal_demo = channel_ready (run_demo None)" "no_unlink cal_demo = no_unlink (run_demo None)"
    "custom_mutators_count cal_demo = custom_mutators_count (run_demo None)" "clean_trace cal_demo = replicate 64 0"
    by (simp_all add: cal_demo_def channel_ready_def)
  moreover have "channel_ready (run_demo None)" "\<not> no_unlink (run_demo None)"
    by (simp add: channel_ready_def run_demo_fields, simp add: run_demo_def afl_one.extend_def)
  ultimately show ?thesis by (simp add: trim_env_def cal_demo_fields run_demo_fields)
qed

lemma cal_demo_ready: "rating_ready cal_demo 1" "weights_ok cal_demo"
proof -
  have "rating_ready queue_demo 1" by (rule queue_demo_ready)
  then show "rating_ready cal_demo 1"
    by (simp add: rating_ready_def rated_inv_def cal_demo_fields queue_demo_fields schedule_order)
  show "weights_ok cal_demo" by (simp add: weights_ok_def cal_demo_fields cov_demo_def)
qed

lemma cal_demo_trace:
  "fill_map 64 (trace_written (ok_reply [1, 2])) = 1 # 2 # replicate 62 0"
  "input_trace (\<lambda>_. ok_reply [1, 2]) 64 input = 1 # 2 # replicate 62 0"
  by (simp_all add: input_trace_def fill_map_def ok_reply_def count_class_lookup8_def)

lemma cal_demo_words:
  "count_bytes cal_demo (1 # 2 # replicate 62 0) = 2"
  "(join_words (take 4 (1 # 2 # replicate 62 (0 :: u8))) :: u32) \<noteq> EXEC_FAIL_SIG"
proof -
  have z: "count_bytes_loop n (replicate k 0) r = r" for n k r
    by (induction n arbitrary: k) (simp_all add: join_words_zeros min_def)
  have first: "take 4 (1 # 2 # replicate 62 (0 :: u8)) = [1, 2, 0, 0]" "drop 4 (1 # 2 # replicate 62 (0 :: u8)) = replicate 60 0"
    by (simp_all add: numeral_eq_Suc)
  have word: "(join_words [1, 2, 0, 0 :: u8] :: u32) = 0x201" by code_simp
  have "words32 cal_demo = Suc 15" by (simp add: words32_def cal_demo_fields drop_bit_eq_div)
  then show "count_bytes cal_demo (1 # 2 # replicate 62 0) = 2"
    unfolding count_bytes_def by (simp only: count_bytes_loop.simps first word z Let_def) simp
  show "(join_words (take 4 (1 # 2 # replicate 62 (0 :: u8))) :: u32) \<noteq> EXEC_FAIL_SIG"
    unfolding first word by simp
qed

lemma cal_demo_behaved:
  "well_behaved (\<lambda>_. ok_reply [1, 2]) (calibration_tmout cal_demo from_queue) input cal_demo"
proof -
  have "3 \<le> calibration_tmout cal_demo from_queue"
    by (simp add: calibration_tmout_def cal_demo_fields max_def)
  then show ?thesis
    unfolding well_behaved_def cal_demo_fields
    using cal_demo_words
    by (simp add: Let_def cal_demo_trace cal_demo_fields) (simp add: answers_def ok_reply_def crashed_def cal_demo_fields WIFSIGNALED_def WTERMSIG_def not_less)
qed

lemma cal_demo_len: "uint (len (queue_buf cal_demo ! 1)) = 4" "exec_cksum (queue_buf cal_demo ! 1) = 0"
  "cal_failed (queue_buf cal_demo ! 1) = 0" "clamp_len cal_demo True 4 = 4"
  by (simp_all add: cal_demo_fields queue_demo_fields zero_entry_def clamp_len_def)

lemma cal_demo_parts:
  "custom_mutators_count cal_demo = 0" "\<not> no_unlink cal_demo" "channel_ready cal_demo" "8 dvd unat (map_size cal_demo)"
  "length (trace_bits cal_demo) = unat (map_size cal_demo)" "length (clean_trace cal_demo) = unat (map_size cal_demo)"
  "length (first_trace cal_demo) = unat (map_size cal_demo)"
  using cal_demo_env by (simp_all add: trim_env_def cal_demo_fields)

theorem calibrate_case_completes_witness:
  "\<exists>fault afl'. calibrate_case (keep_world (\<lambda>_. ok_reply [1, 2])) cal_demo 1 [1, 2, 3, 4] 0 False = Some (Inr (fault, afl'))
     \<and> cal_failed (queue_buf afl' ! 1) = 0 \<and> bitmap_size (queue_buf afl' ! 1) = 2 \<and> top_rated afl' ! 0 = Some 1"
proof -
  let ?T = "\<lambda>_ :: bytes. ok_reply [1, 2]"
  let ?w = "keep_world ?T" and ?in = "take (nat 4) [1, 2, 3, 4] :: bytes"
  have len: "4 = clamp_len cal_demo True (uint (len (queue_buf cal_demo ! 1)))" "exec_cksum (queue_buf cal_demo ! 1) = 0 \<or> x"
    "nat 4 \<le> length [1, 2, 3, 4 :: u8]" "nat 4 \<le> unat MAX_FILE" for x
    by (simp_all add: cal_demo_len del: One_nat_def)
  obtain fault afl' where run: "calibrate_case ?w cal_demo 1 [1, 2, 3, 4] 0 False = Some (Inr (fault, afl'))"
    and "\<exists>us cycles. calibrated cal_demo 1 (input_trace ?T (unat (map_size cal_demo)) ?in) us cycles 0 afl'"
    using calibrate_case_completes [OF cal_demo_parts(1-3) keep_world_simps(4) cal_demo_parts(4-7) cal_demo_fields(6,4) keep_world_simps(2)
        cal_demo_fields(5) cal_demo_ready keep_world_simps(1) refl len(1,3,4) cal_demo_behaved refl refl len(2) refl refl, of 0 False]
    by blast
  then obtain us cycles where "calibrated cal_demo 1 (1 # 2 # replicate 62 0) us cycles 0 afl'"
    by (auto simp: cal_demo_trace cal_demo_fields(2))
  then have "cal_failed (queue_buf afl' ! 1) = 0 \<and> bitmap_size (queue_buf afl' ! 1) = 2 \<and> top_rated afl' ! 0 = Some 1"
    by (auto simp: calibrated_def Let_def cal_demo_words(1) cal_demo_fields dest: spec [of _ "0 :: nat"])
  then show ?thesis using run by blast
qed

lemma cal_demo_run:
  "\<exists>fault afl'. calibrate_case (keep_world (\<lambda>_. ok_reply [1, 2])) cal_demo 1 [1, 2, 3, 4] 0 False = Some (Inr (fault, afl'))
     \<and> cal_failed (queue_buf afl' ! 1) = 0"
proof -
  let ?T = "\<lambda>_ :: bytes. ok_reply [1, 2]"
  have len: "4 = clamp_len cal_demo True (uint (len (queue_buf cal_demo ! 1)))" "exec_cksum (queue_buf cal_demo ! 1) = 0 \<or> x"
    "nat 4 \<le> length [1, 2, 3, 4 :: u8]" "nat 4 \<le> unat MAX_FILE" for x
    by (simp_all add: cal_demo_len del: One_nat_def)
  have env: "trim_env (map_size cal_demo) cal_demo" using cal_demo_env by (simp add: cal_demo_fields)
  show ?thesis
    using calibrate_case_goes [OF cal_demo_fields(6,4) keep_world_simps(2) env cal_demo_fields(5) keep_world_simps(1) refl len(1,3,4) refl
        len(2) cal_demo_parts(7) cal_demo_ready cal_demo_behaved keep_world_simps(4) refl refl refl, of 0 False]
    by (auto simp: calibrated_def Let_def)
qed

theorem calibrate_case_silences_witness:
  "\<exists>fault afl'. calibrate_case (keep_world (\<lambda>_. ok_reply [1, 2])) cal_demo 1 [1, 2, 3, 4] 0 False = Some (Inr (fault, afl'))
     \<and> variable_silenced afl'"
proof -
  obtain fault afl' where run: "calibrate_case (keep_world (\<lambda>_. ok_reply [1, 2])) cal_demo 1 [1, 2, 3, 4] 0 False
      = Some (Inr (fault, afl'))"
    using cal_demo_run by blast
  have "variable_silenced cal_demo" by (simp add: variable_silenced_def cov_wf_def cal_demo_fields)
  from calibrate_case_silences [OF run cal_demo_fields(6) keep_world_simps(2) this] run show ?thesis by blast
qed

theorem calibrate_case_stable_witness:
  "\<exists>fault afl'. calibrate_case (keep_world (\<lambda>_. ok_reply [1, 2])) cal_demo 1 [1, 2, 3, 4] 0 False = Some (Inr (fault, afl'))
     \<and> var_bytes afl' = replicate 64 0 \<and> exec_cksum (queue_buf afl' ! 1)
          = input_cksum (keep_world (\<lambda>_. ok_reply [1, 2])) (\<lambda>_. ok_reply [1, 2]) 64 [1, 2, 3, 4]"
proof -
  obtain fault afl' where run: "calibrate_case (keep_world (\<lambda>_. ok_reply [1, 2])) cal_demo 1 [1, 2, 3, 4] 0 False
      = Some (Inr (fault, afl'))" "cal_failed (queue_buf afl' ! 1) = 0"
    using cal_demo_run by blast
  have "var_bytes afl' = var_bytes cal_demo \<and> queued_variable afl' = queued_variable cal_demo
      \<and> (cal_failed (queue_buf afl' ! 1) = 0 \<longrightarrow> exec_cksum (queue_buf afl' ! 1)
          = input_cksum (keep_world (\<lambda>_. ok_reply [1, 2])) (\<lambda>_. ok_reply [1, 2]) (unat (map_size cal_demo)) (take (nat 4) [1, 2, 3, 4]))"
    by (rule calibrate_case_stable [OF run(1) cal_demo_fields(6,4) keep_world_simps(2) _ _ refl _ _ _ refl])
      (simp_all add: cal_demo_env cal_demo_fields(2) cal_demo_len del: One_nat_def)
  then show ?thesis using run by (auto simp: cal_demo_fields)
qed

end
