(* ===== verification/Afl_Common.thy ===== *)
theory Afl_Common
  imports Afl_Extras Afl_Score
begin

text \<open>
  The text helpers of \<open>src/afl-common.c\<close>: \<open>afl_memmem\<close>, the Levenshtein distance used for misspelt environment
  variables, and the \<open>stringify_*\<close> family with its unchecked twins. Doubles are real numbers with the rounding as a
  parameter, as in the scores; what \<open>printf\<close> does with a double is exact decimal rounding of its value.
\<close>

section \<open>Searching\<close>

text \<open>\<open>None\<close> is the null pointer. The index of the loop has 32 bits, which is enough for a haystack below 4 GB.\<close>

function memmem_loop :: "bytes \<Rightarrow> bytes \<Rightarrow> nat \<Rightarrow> nat option" where
  "memmem_loop haystack needle i =
     (if i + length needle \<le> length haystack
      then if take (length needle) (drop i haystack) = needle then Some i else memmem_loop haystack needle (i + 1)
      else None)"
  by pat_completeness auto
termination
  by (relation "measure (\<lambda>(haystack, needle, i). Suc (length haystack) - i)") auto

declare memmem_loop.simps [simp del]

definition afl_memmem :: "bytes \<Rightarrow> bytes \<Rightarrow> nat option" where
  "afl_memmem haystack needle = (if length haystack < length needle then None else memmem_loop haystack needle 0)"

section \<open>Edit distance\<close>

definition helper_min3 :: "nat \<Rightarrow> nat \<Rightarrow> nat \<Rightarrow> nat" where
  "helper_min3 a b c = (if a < b then if a < c then a else c else if b < c then b else c)"

text \<open>The inner loop, from \<open>y = Suc i\<close> on: the rest of \<open>s1\<close>, \<open>column[y - 1]\<close> (already new), \<open>lastdiag\<close>, and the
  rest of the old column; the result is the rest of the new column.\<close>

fun lev_inner :: "char \<Rightarrow> string \<Rightarrow> nat \<Rightarrow> nat \<Rightarrow> nat list \<Rightarrow> nat list" where
  "lev_inner c (a # s1) left lastdiag (olddiag # column) =
     (let v = helper_min3 (olddiag + 1) (left + 1) (lastdiag + (if a = c then 0 else 1))
      in v # lev_inner c s1 v olddiag column)"
| "lev_inner c s1 left lastdiag column = []"

fun lev_outer :: "string \<Rightarrow> string \<Rightarrow> nat \<Rightarrow> nat list \<Rightarrow> nat list" where
  "lev_outer s1 [] x column = column"
| "lev_outer s1 (c # s2) x column = lev_outer s1 s2 (x + 1) (x # lev_inner c s1 x (x - 1) (tl column))"

text \<open>\<open>column[0]\<close> is uninitialised before the outer loop, unless it is \<open>column[s1len]\<close>.\<close>

definition string_distance_levenshtein :: "string \<Rightarrow> string \<Rightarrow> nat" where
  "string_distance_levenshtein s1 s2 =
     (let column = (if s1 = [] then 1 else 0) # [1..<Suc (length s1)]
      in last (lev_outer s1 s2 1 column))"

section \<open>Numbers as text\<close>

definition dec_pad :: "nat \<Rightarrow> nat \<Rightarrow> string" where
  "dec_pad k n = replicate (k - length (dec_digits n)) (CHR ''0'') @ dec_digits n"

definition dec_int :: "int \<Rightarrow> string" where
  "dec_int i = (if i < 0 then CHR ''-'' # dec_digits (nat (- i)) else dec_digits (nat i))"

definition round_half_even :: "real \<Rightarrow> int" where
  "round_half_even x =
     (let f = \<lfloor>x\<rfloor>; d = x - of_int f
      in if d < 1 / 2 then f else if 1 / 2 < d then f + 1 else if even f then f else f + 1)"

text \<open>\<open>%0.0pf\<close>.\<close>

definition fmt_fixed :: "nat \<Rightarrow> real \<Rightarrow> string" where
  "fmt_fixed p x =
     (let k = nat (round_half_even (\<bar>x\<bar> * 10 ^ p))
      in (if x < 0 then ''-'' else []) @ dec_digits (k div 10 ^ p) @ ''.'' @ dec_pad p (k mod 10 ^ p))"

text \<open>One use of \<open>CHK_FORMAT\<close>: with an integer limit the value is divided as \<open>u64\<close>, with a fractional one as double.\<close>

datatype fmt_row = Int_row nat nat string | Fix_row nat real nat string

primrec chk_format :: "(real \<Rightarrow> real) \<Rightarrow> u64 \<Rightarrow> fmt_row \<Rightarrow> string option" where
  "chk_format rnd val (Int_row d m suffix) =
     (if unat val < d * m then Some (dec_digits (unat val div d) @ suffix) else None)"
| "chk_format rnd val (Fix_row d m p suffix) =
     (if of_u64 rnd val < rnd (real d * rnd m) then Some (fmt_fixed p (rnd (of_u64 rnd val / real d)) @ suffix) else None)"

primrec first_format :: "(real \<Rightarrow> real) \<Rightarrow> u64 \<Rightarrow> fmt_row list \<Rightarrow> string" where
  "first_format rnd val [] = ''infty''"
| "first_format rnd val (r # rs) = (case chk_format rnd val r of Some s \<Rightarrow> s | None \<Rightarrow> first_format rnd val rs)"

definition int_rows :: "fmt_row list" where
  "int_rows =
     [Int_row 1 10000 [], Fix_row 1000 99.95 1 ''k'', Int_row 1000 1000 ''k'',
      Fix_row 1000000 9.995 2 ''M'', Fix_row 1000000 99.95 1 ''M'', Int_row 1000000 1000 ''M'',
      Fix_row 1000000000 9.995 2 ''G'', Fix_row 1000000000 99.95 1 ''G'', Int_row 1000000000 1000 ''G'',
      Fix_row 1000000000000 9.995 2 ''T'', Fix_row 1000000000000 99.95 1 ''T'']"

definition mem_rows :: "fmt_row list" where
  "mem_rows =
     [Int_row 1 10000 '' B'', Fix_row 1024 99.95 1 '' kB'', Int_row 1024 1000 '' kB'',
      Fix_row 1048576 9.995 2 '' MB'', Fix_row 1048576 99.95 1 '' MB'', Int_row 1048576 1000 '' MB'',
      Fix_row 1073741824 9.995 2 '' GB'', Fix_row 1073741824 99.95 1 '' GB'', Int_row 1073741824 1000 '' GB'',
      Fix_row 1099511627776 9.995 2 '' TB'', Fix_row 1099511627776 99.95 1 '' TB'']"

text \<open>The checked variants cut the text off at the size of the buffer (at least 1).\<close>

definition u_stringify_int :: "(real \<Rightarrow> real) \<Rightarrow> u64 \<Rightarrow> string" where
  "u_stringify_int rnd val = first_format rnd val int_rows"

definition stringify_int :: "(real \<Rightarrow> real) \<Rightarrow> nat \<Rightarrow> u64 \<Rightarrow> string" where
  "stringify_int rnd n val = take (n - 1) (first_format rnd val int_rows)"

definition u_stringify_mem_size :: "(real \<Rightarrow> real) \<Rightarrow> u64 \<Rightarrow> string" where
  "u_stringify_mem_size rnd val = first_format rnd val mem_rows"

definition stringify_mem_size :: "(real \<Rightarrow> real) \<Rightarrow> nat \<Rightarrow> u64 \<Rightarrow> string" where
  "stringify_mem_size rnd n val = take (n - 1) (first_format rnd val mem_rows)"

definition to_u64_text :: "real \<Rightarrow> u64 result" where
  "to_u64_text x = (if - 1 < x \<and> x < 2 ^ 64 then Inr (of_int (if x < 0 then 0 else \<lfloor>x\<rfloor>)) else Inl (Not_finite ''u64''))"

definition stringify_float :: "(real \<Rightarrow> real) \<Rightarrow> nat \<Rightarrow> real \<Rightarrow> string result" where
  "stringify_float rnd n val =
     (if val < rnd 99.995 then Inr (take (n - 1) (fmt_fixed 2 val))
      else if val < rnd 999.95 then Inr (take (n - 1) (fmt_fixed 1 val))
      else bind_result (to_u64_text val) (\<lambda>v. Inr (stringify_int rnd n v)))"

definition u_stringify_float :: "(real \<Rightarrow> real) \<Rightarrow> real \<Rightarrow> string result" where
  "u_stringify_float rnd val =
     (if val < rnd 99.995 then Inr (fmt_fixed 2 val)
      else if val < rnd 999.95 then Inr (fmt_fixed 1 val)
      else bind_result (to_u64_text val) (\<lambda>v. Inr (u_stringify_int rnd v)))"

abbreviation STRINGIFY_VAL_SIZE_MAX :: nat where "STRINGIFY_VAL_SIZE_MAX \<equiv> 16"

text \<open>\<open>t_d\<close> is an \<open>s32\<close>; the call of \<open>stringify_int\<close> turns it into a \<open>u64\<close>.\<close>

definition time_text :: "string \<Rightarrow> u64 \<Rightarrow> string" where
  "time_text days delta =
     days @ '' days, '' @ dec_digits (unat (delta div 1000 div 60 div 60 mod 24)) @ '' hrs, ''
     @ dec_digits (unat (delta div 1000 div 60 mod 60)) @ '' min, ''
     @ dec_digits (unat (delta div 1000 mod 60)) @ '' sec''"

definition days_of :: "u64 \<Rightarrow> u64" where
  "days_of delta = scast (ucast (delta div 1000 div 60 div 60 div 24) :: u32)"

definition stringify_time_diff :: "(real \<Rightarrow> real) \<Rightarrow> nat \<Rightarrow> u64 \<Rightarrow> u64 \<Rightarrow> string" where
  "stringify_time_diff rnd n cur_ms event_ms =
     take (n - 1)
       (if event_ms = 0 then ''none seen yet''
        else time_text (stringify_int rnd STRINGIFY_VAL_SIZE_MAX (days_of (cur_ms - event_ms))) (cur_ms - event_ms))"

definition u_stringify_time_diff :: "(real \<Rightarrow> real) \<Rightarrow> u64 \<Rightarrow> u64 \<Rightarrow> string" where
  "u_stringify_time_diff rnd cur_ms event_ms =
     (if event_ms = 0 then ''none seen yet''
      else time_text (u_stringify_int rnd (days_of (cur_ms - event_ms))) (cur_ms - event_ms))"

section \<open>Facts about searching\<close>

lemma memmem_loop_spec:
  "case memmem_loop haystack needle i of
     Some j \<Rightarrow> i \<le> j \<and> j + length needle \<le> length haystack \<and> take (length needle) (drop j haystack) = needle
       \<and> (\<forall>k. i \<le> k \<and> k < j \<longrightarrow> take (length needle) (drop k haystack) \<noteq> needle)
   | None \<Rightarrow> \<forall>k \<ge> i. k + length needle \<le> length haystack \<longrightarrow> take (length needle) (drop k haystack) \<noteq> needle"
proof (induction haystack needle i rule: memmem_loop.induct)
  case (1 haystack needle i)
  have step: "i \<le> k \<longleftrightarrow> k = i \<or> i + 1 \<le> k" for k by auto
  show ?case
  proof (cases "i + length needle \<le> length haystack \<and> take (length needle) (drop i haystack) \<noteq> needle")
    case True
    then show ?thesis
      using 1 by (subst memmem_loop.simps) (auto simp: step split: option.splits)
  next
    case False
    then show ?thesis by (subst memmem_loop.simps) auto
  qed
qed

section \<open>Facts about the edit distance\<close>

text \<open>The textbook recursion, and the edit scripts it minimises.\<close>

fun edit :: "'a list \<Rightarrow> 'a list \<Rightarrow> nat" where
  "edit [] ys = length ys"
| "edit (x # xs) [] = length (x # xs)"
| "edit (x # xs) (y # ys) =
     min (min (edit (x # xs) ys + 1) (edit xs (y # ys) + 1)) (edit xs ys + (if x = y then 0 else 1))"

inductive edits :: "nat \<Rightarrow> 'a list \<Rightarrow> 'a list \<Rightarrow> bool" where
  Done: "edits 0 [] []"
| Keep: "edits n xs ys \<Longrightarrow> edits n (x # xs) (x # ys)"
| Delete: "edits n xs ys \<Longrightarrow> edits (Suc n) (x # xs) ys"
| Insert: "edits n xs ys \<Longrightarrow> edits (Suc n) xs (y # ys)"
| Replace: "edits n xs ys \<Longrightarrow> edits (Suc n) (x # xs) (y # ys)"

lemma edit_Nil2 [simp]: "edit xs [] = length xs"
  by (cases xs) simp_all

lemma edit_delete: "edit (x # xs) ys \<le> Suc (edit xs ys)"
  by (cases ys) simp_all

lemma edit_insert: "edit xs (y # ys) \<le> Suc (edit xs ys)"
  by (cases xs) simp_all

lemma edit_least: "edits n xs ys \<Longrightarrow> edit xs ys \<le> n"
proof (induction rule: edits.induct)
  case (Delete n xs ys x)
  then show ?case using edit_delete [of x xs ys] by simp
next
  case (Insert n xs ys y)
  then show ?case using edit_insert [of xs y ys] by simp
qed auto

lemma edits_Nil1: "edits (length ys) [] ys"
  by (induction ys) (auto intro: edits.intros)

lemma edits_Nil2: "edits (length xs) xs []"
  by (induction xs) (auto intro: edits.intros)

lemma edits_edit: "edits (edit xs ys) xs ys"
proof (induction xs ys rule: edit.induct)
  case (3 x xs y ys)
  let ?l = "edit (x # xs) ys + 1" and ?u = "edit xs (y # ys) + 1" and ?d = "edit xs ys + (if x = y then 0 else 1)"
  have "edits ?l (x # xs) (y # ys)" "edits ?u (x # xs) (y # ys)" "edits ?d (x # xs) (y # ys)"
    using 3 by (auto intro: edits.intros)
  moreover have "edit (x # xs) (y # ys) \<in> {?l, ?u, ?d}" by (simp only: edit.simps) (auto simp: min_def)
  ultimately show ?case by auto
next
  case (2 x xs)
  then show ?case using edits_Nil2 [of "x # xs"] by simp
qed (simp add: edits_Nil1)

lemma edits_append: "edits m xs ys \<Longrightarrow> edits n us vs \<Longrightarrow> edits (m + n) (xs @ us) (ys @ vs)"
  by (induction rule: edits.induct) (auto intro: edits.intros)

lemma edits_rev: "edits n xs ys \<Longrightarrow> edits n (rev xs) (rev ys)"
proof (induction rule: edits.induct)
  case Done
  then show ?case by (simp add: edits.Done)
next
  case (Keep n xs ys x)
  then show ?case using edits_append [OF Keep.IH, of 0 "[x]" "[x]"] by (auto intro: edits.intros)
next
  case (Delete n xs ys x)
  then show ?case using edits_append [OF Delete.IH, of 1 "[x]" "[]"] by (auto intro: edits.intros)
next
  case (Insert n xs ys y)
  then show ?case using edits_append [OF Insert.IH, of 1 "[]" "[y]"] by (auto intro: edits.intros)
next
  case (Replace n xs ys x y)
  then show ?case using edits_append [OF Replace.IH, of 1 "[x]" "[y]"] by (auto intro: edits.intros)
qed

lemma edit_Least: "edit (rev xs) (rev ys) = (LEAST n. edits n xs ys)"
proof (rule Least_equality [symmetric])
  show "edits (edit (rev xs) (rev ys)) xs ys"
    using edits_rev [OF edits_edit [of "rev xs" "rev ys"]] by simp
  show "edit (rev xs) (rev ys) \<le> n" if "edits n xs ys" for n
    using edit_least [OF edits_rev [OF that]] .
qed

text \<open>A column of the table: the distances of the prefixes of \<open>s1\<close>, kept reversed.\<close>

fun edit_row :: "'a list \<Rightarrow> 'a list \<Rightarrow> 'a list \<Rightarrow> nat list" where
  "edit_row [] rp rq = []"
| "edit_row (a # s) rp rq = edit (a # rp) rq # edit_row s (a # rp) rq"

lemma helper_min3_min: "helper_min3 a b c = min (min a b) c"
  by (simp add: helper_min3_def)

lemma lev_inner_row:
  "lev_inner c s1 (edit rp (c # rq)) (edit rp rq) (edit_row s1 rp rq) = edit_row s1 rp (c # rq)"
proof (induction s1 arbitrary: rp)
  case (Cons a s1)
  have "helper_min3 (edit (a # rp) rq + 1) (edit rp (c # rq) + 1) (edit rp rq + (if a = c then 0 else 1)) = edit (a # rp) (c # rq)"
    by (simp only: edit.simps helper_min3_min)
  then show ?case using Cons [of "a # rp"] by (simp only: edit_row.simps lev_inner.simps Let_def)
qed simp

lemma lev_outer_row:
  "lev_outer s1 s2 (Suc (length rq)) (h # edit_row s1 [] rq)
     = (if s2 = [] then h else length rq + length s2) # edit_row s1 [] (rev s2 @ rq)"
proof (induction s2 arbitrary: rq h)
  case (Cons c s2)
  have "lev_inner c s1 (Suc (length rq)) (length rq) (edit_row s1 [] rq) = edit_row s1 [] (c # rq)"
    using lev_inner_row [of c s1 "[]" rq] by simp
  then show ?case using Cons [of "c # rq"] by simp
qed simp

lemma edit_row_start: "edit_row s1 rp [] = [Suc (length rp)..<Suc (length rp + length s1)]"
  by (induction s1 arbitrary: rp) (simp_all add: upt_rec)

lemma last_edit_row: "s1 \<noteq> [] \<Longrightarrow> last (edit_row s1 rp rq) = edit (rev s1 @ rp) rq"
  by (induction s1 arbitrary: rp rule: list_nonempty_induct) (auto simp: neq_Nil_conv)

lemma edit_row_Nil [simp]: "edit_row s1 rp rq = [] \<longleftrightarrow> s1 = []"
  by (cases s1) simp_all

lemma levenshtein_edit:
  "string_distance_levenshtein s1 s2 = (if s1 = [] \<and> s2 = [] then 1 else edit (rev s1) (rev s2))"
proof -
  let ?h = "if s1 = [] then 1 else 0"
  have start: "[1..<Suc (length s1)] = edit_row s1 [] []" by (simp add: edit_row_start)
  have "string_distance_levenshtein s1 s2 = last (lev_outer s1 s2 (Suc (length ([] :: string))) (?h # edit_row s1 [] []))"
    unfolding string_distance_levenshtein_def Let_def start by simp
  also have "\<dots> = last ((if s2 = [] then ?h else length s2) # edit_row s1 [] (rev s2))"
    by (subst lev_outer_row) simp
  also have "\<dots> = (if s1 = [] \<and> s2 = [] then 1 else edit (rev s1) (rev s2))"
    using last_edit_row [of s1 "[]" "rev s2"] by (cases "s1 = []") simp_all
  finally show ?thesis .
qed

section \<open>Lengths of texts\<close>

lemma dec_digits_length: "n < 10 ^ Suc k \<Longrightarrow> length (dec_digits n) \<le> Suc k"
proof (induction k arbitrary: n)
  case 0
  then show ?case by (simp add: dec_digits.simps)
next
  case (Suc k)
  have "n div 10 < 10 ^ Suc k" using Suc.prems by (simp add: less_mult_imp_div_less)
  from Suc.IH [OF this] show ?case by (simp add: dec_digits.simps [of n])
qed

lemma dec_pad_length: "n < 10 ^ Suc k \<Longrightarrow> length (dec_pad (Suc k) n) = Suc k"
  using dec_digits_length [of n k] by (simp add: dec_pad_def)

lemma round_half_even_le: "of_int (round_half_even x) \<le> x + 1 / 2"
  by (auto simp: round_half_even_def Let_def) (use of_int_floor_le [of x] in linarith)

lemma fmt_fixed_length:
  assumes "0 \<le> x" and "x * 10 ^ p < 1050" and "p = 1 \<or> p = 2"
  shows "length (fmt_fixed p x) \<le> 5"
proof -
  define k where "k = nat (round_half_even (\<bar>x\<bar> * 10 ^ p))"
  have "real_of_int (round_half_even (x * 10 ^ p)) < 1051" using round_half_even_le [of "x * 10 ^ p"] assms(2) by linarith
  then have k: "k < 1051" using assms(1) by (simp add: k_def)
  have shape: "fmt_fixed p x = dec_digits (k div 10 ^ p) @ ''.'' @ dec_pad p (k mod 10 ^ p)"
    using assms(1) by (simp add: fmt_fixed_def Let_def k_def)
  from assms(3) show ?thesis
  proof
    assume p: "p = 1"
    have "k div 10 < 10 ^ Suc 2" using k by simp
    from dec_digits_length [OF this] have "length (dec_digits (k div 10)) \<le> 3" by simp
    moreover have "length (dec_pad 1 (k mod 10)) = 1" using dec_pad_length [of "k mod 10" 0] by simp
    ultimately show ?thesis using shape by (simp add: p)
  next
    assume p: "p = 2"
    have "k div 100 < 10 ^ Suc 1" using k by simp
    from dec_digits_length [OF this] have "length (dec_digits (k div 100)) \<le> 2" by simp
    moreover have "length (dec_pad 2 (k mod 100)) = 2" using dec_pad_length [of "k mod 100" 1] by (simp add: numeral_2_eq_2)
    ultimately show ?thesis using shape by (simp add: p)
  qed
qed

text \<open>What is relied on of the rounding of doubles: it keeps the sign and its relative error is small.\<close>

definition rounds_well :: "(real \<Rightarrow> real) \<Rightarrow> bool" where
  "rounds_well rnd \<longleftrightarrow> (\<forall>x. 0 \<le> x \<and> x \<le> 2 ^ 65 \<longrightarrow> 0 \<le> rnd x \<and> \<bar>rnd x - x\<bar> \<le> x / 2 ^ 52 + 1 / 2 ^ 1000)"

lemma rounds_wellD:
  assumes "rounds_well rnd" and "0 \<le> x" and "x \<le> 2 ^ 65"
  shows "0 \<le> rnd x" and "rnd x \<le> x * 1.0001 + 0.0001" and "x * 0.9999 - 0.0001 \<le> rnd x"
proof -
  have "0 \<le> rnd x" and err: "\<bar>rnd x - x\<bar> \<le> x / 2 ^ 52 + 1 / 2 ^ 1000" using assms by (simp_all add: rounds_well_def)
  then show "0 \<le> rnd x" by simp
  have "(1 / 2 ^ 1000 :: real) \<le> 1 / 2 ^ 20" by (intro divide_left_mono power_increasing) simp_all
  moreover have "x / 2 ^ 52 \<le> x / 2 ^ 20" using assms(2) by (intro divide_left_mono) simp_all
  ultimately have "\<bar>rnd x - x\<bar> \<le> x / 2 ^ 20 + 1 / 2 ^ 20" using err by linarith
  then have "rnd x - x \<le> x / 2 ^ 20 + 1 / 2 ^ 20" "x - rnd x \<le> x / 2 ^ 20 + 1 / 2 ^ 20" by linarith+
  then show "rnd x \<le> x * 1.0001 + 0.0001" "x * 0.9999 - 0.0001 \<le> rnd x" using assms(2) by (simp_all add: field_simps)
qed

lemma fix_row_length:
  assumes rnd: "rounds_well rnd" and row: "chk_format rnd val (Fix_row d m p suffix) = Some s"
    and m: "p = 2 \<and> m = 9.995 \<or> p = 1 \<and> m = 99.95" and d: "1000 \<le> d" "d \<le> 2 ^ 40"
  shows "length s \<le> 5 + length suffix"
proof -
  let ?v = "of_u64 rnd val" and ?q = "rnd (of_u64 rnd val / real d)"
  have s: "s = fmt_fixed p ?q @ suffix" and lim: "?v < rnd (real d * rnd m)" using row by (auto split: if_splits)
  have "real (unat val) < real (2 ^ 64)" unfolding of_nat_less_iff using unat_lt2p [of val] by simp
  then have val: "real (unat val) \<le> 2 ^ 65" by simp
  have v0: "0 \<le> ?v" unfolding of_u64_def by (rule rounds_wellD(1) [OF rnd of_nat_0_le_iff val])
  have rm: "rnd m \<le> m * 1.0001 + 0.0001" "0 \<le> rnd m" using rounds_wellD [OF rnd, of m] m by auto
  then have rm': "rnd m \<le> m * 1.001" using m by auto
  have dm: "real d * rnd m \<le> real d * (m * 1.001)" using rm' by (intro mult_left_mono) simp_all
  have "real d \<le> real (2 ^ 40)" unfolding of_nat_le_iff by (rule d(2))
  then have "real d * (m * 1.001) \<le> 2 ^ 40 * 101" using m by (intro mult_mono) auto
  then have big: "real d * rnd m \<le> 2 ^ 65" using dm by simp
  have nn: "0 \<le> real d * rnd m" using rm(2) by simp
  have "?v \<le> real d * rnd m * 1.0001 + 0.0001" using lim rounds_wellD(2) [OF rnd nn big] by simp
  also have "\<dots> \<le> real d * (m * 1.001) * 1.0001 + 0.0001" by (intro add_right_mono mult_right_mono dm) simp
  also have "\<dots> \<le> real d * (m * 1.002)"
  proof -
    define y where "y = real d * m"
    have "1000 * 1 \<le> y" unfolding y_def using d(1) m by (intro mult_mono) auto
    moreover have "real d * (m * 1.001) = y * 1.001" "real d * (m * 1.002) = y * 1.002" by (simp_all add: y_def)
    moreover have "y * 1.001 * 1.0001 + 0.0001 \<le> y * 1.002" using calculation(1) by simp
    ultimately show ?thesis by (simp only:)
  qed
  finally have "?v / real d \<le> m * 1.002" using d(1) by (simp add: field_simps)
  moreover have q0: "0 \<le> ?v / real d" using v0 by simp
  ultimately have "?q \<le> m * 1.002 * 1.0001 + 0.0001" and "0 \<le> ?q"
    using rounds_wellD [OF rnd q0] m by auto
  then have "length (fmt_fixed p ?q) \<le> 5" using m by (intro fmt_fixed_length) auto
  then show ?thesis by (simp add: s)
qed

lemma int_row_length:
  assumes "chk_format rnd val (Int_row d m suffix) = Some s" and "0 < d" and "m \<le> 10000"
  shows "length s \<le> 4 + length suffix"
proof -
  have s: "s = dec_digits (unat val div d) @ suffix" and "unat val < d * m" using assms(1) by (auto split: if_splits)
  then have "unat val div d < m" using assms(2) by (simp add: less_mult_imp_div_less mult.commute)
  then have "unat val div d < 10 ^ Suc 3" using assms(3) by simp
  from dec_digits_length [OF this] show ?thesis by (simp add: s)
qed

primrec row_ok :: "nat \<Rightarrow> fmt_row \<Rightarrow> bool" where
  "row_ok k (Int_row d m suffix) \<longleftrightarrow> 0 < d \<and> m \<le> 10000 \<and> length suffix \<le> k"
| "row_ok k (Fix_row d m p suffix) \<longleftrightarrow>
     (p = 2 \<and> m = 9.995 \<or> p = 1 \<and> m = 99.95) \<and> 1000 \<le> d \<and> d \<le> 2 ^ 40 \<and> length suffix \<le> k"

lemma row_length:
  assumes "rounds_well rnd" and "row_ok k r" and "chk_format rnd val r = Some s"
  shows "length s \<le> 5 + k"
proof (cases r)
  case (Int_row d m suffix)
  then show ?thesis using int_row_length [of rnd val d m suffix s] assms(2,3) by simp
next
  case (Fix_row d m p suffix)
  then show ?thesis using fix_row_length [OF assms(1), of val d m p suffix s] assms(2,3) by simp
qed

lemma first_format_length:
  assumes "rounds_well rnd"
  shows "list_all (row_ok k) rows \<Longrightarrow> length (first_format rnd val rows) \<le> 5 + k"
  by (induction rows) (auto split: option.splits dest: row_length [OF assms])

lemma rows_ok: "list_all (row_ok 1) int_rows" "list_all (row_ok 3) mem_rows"
  by (simp_all add: int_rows_def mem_rows_def)

text \<open>A time difference, on the other hand, never fits.\<close>

lemma time_diff_too_long:
  assumes "event_ms \<noteq> 0"
  shows "STRINGIFY_VAL_SIZE_MAX < length (u_stringify_time_diff rnd cur_ms event_ms)"
  using assms by (simp add: u_stringify_time_diff_def time_text_def)

section \<open>Properties\<close>

text \<open>(C37)
  \<open>string_distance_levenshtein\<close>, one column updated in place, computes the least number of insertions, deletions and
  replacements that turn one string into the other; except for two empty strings, where it answers 1.
\<close>

theorem levenshtein_minimal:
  "string_distance_levenshtein s1 s2 = (if s1 = [] \<and> s2 = [] then 1 else LEAST n. edits n s1 s2)"
  by (simp add: levenshtein_edit edit_Least)

text \<open>
  \<open>afl_memmem\<close> returns the position of the first occurrence of the needle, and null only when there is none.
\<close>

theorem afl_memmem_first:
  "case afl_memmem haystack needle of
     Some i \<Rightarrow> (\<exists>us vs. haystack = us @ needle @ vs \<and> length us = i)
       \<and> (\<forall>us vs. haystack = us @ needle @ vs \<longrightarrow> i \<le> length us)
   | None \<Rightarrow> \<nexists>us vs. haystack = us @ needle @ vs"
proof -
  have occ: "(\<exists>vs. haystack = us @ needle @ vs) \<longleftrightarrow> length us + length needle \<le> length haystack
      \<and> us = take (length us) haystack \<and> take (length needle) (drop (length us) haystack) = needle" for us
  proof
    assume "length us + length needle \<le> length haystack
      \<and> us = take (length us) haystack \<and> take (length needle) (drop (length us) haystack) = needle"
    then have "haystack = us @ needle @ drop (length us + length needle) haystack"
      by (metis append_take_drop_id drop_drop add.commute)
    then show "\<exists>vs. haystack = us @ needle @ vs" by blast
  qed auto
  have none: "memmem_loop haystack needle 0 = None" if "length haystack < length needle"
    using that by (subst memmem_loop.simps) simp
  have m: "afl_memmem haystack needle = memmem_loop haystack needle 0" by (simp add: afl_memmem_def none)
  show ?thesis
  proof (cases "memmem_loop haystack needle 0")
    case None
    then have miss: "\<forall>k. k + length needle \<le> length haystack \<longrightarrow> take (length needle) (drop k haystack) \<noteq> needle"
      using memmem_loop_spec [where haystack = haystack and needle = needle and i = 0] by simp
    have "\<nexists>us vs. haystack = us @ needle @ vs" using miss occ by blast
    then show ?thesis unfolding m None by simp
  next
    case (Some i)
    then have i: "i + length needle \<le> length haystack" "take (length needle) (drop i haystack) = needle"
      "\<And>k. k < i \<Longrightarrow> take (length needle) (drop k haystack) \<noteq> needle"
      using memmem_loop_spec [where haystack = haystack and needle = needle and i = 0] by auto
    have "haystack = take i haystack @ needle @ drop (length needle) (drop i haystack)"
      using i(2) append_take_drop_id [of i haystack] append_take_drop_id [of "length needle" "drop i haystack"] by simp
    moreover have "length (take i haystack) = i" using i(1) by simp
    ultimately have ex: "\<exists>us vs. haystack = us @ needle @ vs \<and> length us = i" by blast
    have least: "i \<le> length us" if "haystack = us @ needle @ vs" for us vs
    proof -
      have "take (length needle) (drop (length us) haystack) = needle" using that occ [of us] by blast
      then show ?thesis using i(3) [of "length us"] not_le by blast
    qed
    show ?thesis unfolding m Some option.case using ex least by blast
  qed
qed

theorem afl_memmem_first_witness:
  "afl_memmem [1, 2, 3, 2, 3] [2, 3] = Some 1 \<and> (\<exists>us vs. [1, 2, 3, 2, 3] = us @ [2, 3 :: u8] @ vs \<and> length us = 1)"
proof -
  have "afl_memmem [1, 2, 3, 2, 3] [2, 3] = Some 1" by (simp add: afl_memmem_def memmem_loop.simps)
  then show ?thesis using afl_memmem_first [of "[1, 2, 3, 2, 3]" "[2, 3]"] by simp
qed

text \<open>
  The texts of \<open>stringify_int\<close> and \<open>stringify_mem_size\<close> fit into \<open>STRINGIFY_VAL_SIZE_MAX\<close> bytes for every value, so the
  checked variants never cut anything off and the unchecked ones write the same text without an overflow.
\<close>

theorem stringify_fits:
  assumes "rounds_well rnd"
  shows "stringify_int rnd STRINGIFY_VAL_SIZE_MAX val = u_stringify_int rnd val \<and> length (u_stringify_int rnd val) \<le> 6
    \<and> stringify_mem_size rnd STRINGIFY_VAL_SIZE_MAX val = u_stringify_mem_size rnd val
    \<and> length (u_stringify_mem_size rnd val) \<le> 8"
  using first_format_length [OF assms rows_ok(1), of val] first_format_length [OF assms rows_ok(2), of val]
  by (simp add: stringify_int_def u_stringify_int_def stringify_mem_size_def u_stringify_mem_size_def)

theorem stringify_fits_witness:
  "stringify_int id STRINGIFY_VAL_SIZE_MAX 12345 = u_stringify_int id 12345 \<and> length (u_stringify_mem_size id 12345) \<le> 8"
proof -
  have "rounds_well id" by (simp add: rounds_well_def)
  from stringify_fits [OF this] show ?thesis by blast
qed

end
