(* ===== verification/Afl_Save.thy ===== *)
theory Afl_Save
  imports Afl_Calibrate Afl_Common
begin

unbundle bit_operations_syntax

text \<open>
  Saving interesting inputs: \<open>describe_op\<close>, \<open>write_crash_readme\<close> and \<open>save_if_interesting\<close> of
  \<open>src/afl-fuzz-bitmap.c\<close> and \<open>common_fuzz_stuff\<close> of \<open>src/afl-fuzz-run.c\<close>, built without \<open>SIMPLE_FILES\<close> and
  \<open>INTROSPECTION\<close> and without the Nyx mode. The command \<open>afl->infoexec\<close> that is run on a new crash is left out. The
  jump back to \<open>save_to_queue\<close> is a loop (a partial function).
\<close>

datatype stage_val = STAGE_VAL_NONE | STAGE_VAL_LE | STAGE_VAL_BE

record afl_save = afl_run +
  total_crashes :: u64
  saved_crashes :: u64
  total_tmouts :: u64
  saved_tmouts :: u64
  saved_hangs :: u64
  last_crash_time :: u64
  last_crash_execs :: u64
  last_hang_time :: u64
  hang_tmout :: u32
  afl_ignore_timeouts :: bool
  afl_keep_timeouts :: bool
  afl_no_crash_readme :: u8
  prev_run_time :: u64
  syncing_case :: u32
  current_entry :: u32
  splicing_with :: int
  stage_short :: string
  stage_cur_byte :: int
  stage_cur_val :: int
  stage_val_type :: stage_val
  current_custom_fuzz :: "nat option"
  orig_cmdline :: string
  mem_limit :: u64
  subseq_tmouts :: u32
  cur_skipped_items :: u32
  skip_requested :: bool

abbreviation NAME_MAX :: nat where "NAME_MAX \<equiv> 255"
abbreviation KEEP_UNIQUE_HANG :: u64 where "KEEP_UNIQUE_HANG \<equiv> 500"
abbreviation KEEP_UNIQUE_CRASH :: u64 where "KEEP_UNIQUE_CRASH \<equiv> 10000"
abbreviation TMOUT_LIMIT :: u32 where "TMOUT_LIMIT \<equiv> 250"
abbreviation N_FUZZ_SIZE :: u64 where "N_FUZZ_SIZE \<equiv> 2097152"

section \<open>Names\<close>

text \<open>\<open>%+d\<close>.\<close>

definition dec_signed :: "int \<Rightarrow> string" where
  "dec_signed i = (if i < 0 then dec_int i else CHR ''+'' # dec_int i)"

text \<open>Appending to \<open>describe_op_buf_256\<close>, the final null byte included.\<close>

definition put_op :: "string \<Rightarrow> string \<Rightarrow> string result" where
  "put_op ret s = (if length ret + length s < 256 then Inr (ret @ s) else Inl (Out_of_bounds ''describe_op_buf_256''))"

definition describe_custom ::
  "nat \<Rightarrow> bool \<Rightarrow> string \<Rightarrow> nat \<Rightarrow> custom_mutator \<Rightarrow> (nat \<Rightarrow> nat \<Rightarrow> nat \<times> string option) \<Rightarrow> 'a afl_save_scheme
     \<Rightarrow> (string \<times> 'a afl_save_scheme) result" where
  "describe_custom max_len is_timeout ret i el describe afl =
     bind_result (put_op ret '','') (\<lambda>ret.
     let size_left = int (min max_len 256) - int (length ret) - 5 - 2 - (if is_timeout then 6 else 0) in
     if size_left \<le> 0 then Inl (Fatal ''filename got too long'')
     else case describe (cm_data el) (nat size_left) of (d, text) \<Rightarrow>
       let afl = afl\<lparr>custom_mutator_list := (custom_mutator_list afl)[i := el\<lparr>cm_data := d\<rparr>]\<rparr> in
       bind_result (case text of
           None \<Rightarrow> put_op ret (''op:'' @ stage_short afl)
         | Some t \<Rightarrow> if t = [] then put_op ret (''op:'' @ stage_short afl) else put_op ret (take (nat size_left) t))
         (\<lambda>ret. Inr (ret, afl)))"

definition describe_stage :: "string \<Rightarrow> 'a afl_save_scheme \<Rightarrow> string result" where
  "describe_stage ret afl =
     bind_result (put_op ret ('',op:'' @ stage_short afl)) (\<lambda>ret.
     if 0 \<le> stage_cur_byte afl then
       bind_result (put_op ret ('',pos:'' @ dec_int (stage_cur_byte afl))) (\<lambda>ret.
       if stage_val_type afl \<noteq> STAGE_VAL_NONE
       then put_op ret ('',val:'' @ (if stage_val_type afl = STAGE_VAL_BE then ''be:'' else [])
                        @ dec_signed (stage_cur_val afl))
       else Inr ret)
     else put_op ret ('',rep:'' @ dec_int (stage_cur_val afl)))"

text \<open>The mutator in charge, when it can describe what it did.\<close>

definition custom_describer ::
  "'a afl_save_scheme \<Rightarrow> (nat \<times> custom_mutator \<times> (nat \<Rightarrow> nat \<Rightarrow> nat \<times> string option)) option result" where
  "custom_describer afl =
     (case current_custom_fuzz afl of
        None \<Rightarrow> Inr None
      | Some i \<Rightarrow> bind_result (get_at ''custom_mutator_list'' (custom_mutator_list afl) i) (\<lambda>el.
          Inr (map_option (\<lambda>f. (i, el, f)) (cm_describe el))))"

definition describe_source ::
  "'s world \<Rightarrow> nat \<Rightarrow> bool \<Rightarrow> 'a afl_save_scheme \<Rightarrow> (string \<times> 'a afl_save_scheme) result" where
  "describe_source w max_len is_timeout afl =
     bind_result (put_op [] (''src:'' @ dec_pad 6 (unat (current_entry afl)))) (\<lambda>ret.
     bind_result (if 0 \<le> splicing_with afl then put_op ret (''+'' @ dec_pad 6 (nat (splicing_with afl))) else Inr ret) (\<lambda>ret.
     case get_cur_time w afl of (now, afl) \<Rightarrow>
     bind_result (put_op ret ('',time:'' @ dec_digits (unat (now + prev_run_time afl - start_time afl))
                              @ '',execs:'' @ dec_digits (unat (total_execs afl)))) (\<lambda>ret.
     bind_result (custom_describer afl) (\<lambda>c. case c of
         Some (i, el, f) \<Rightarrow> describe_custom max_len is_timeout ret i el f afl
       | None \<Rightarrow> bind_result (describe_stage ret afl) (\<lambda>ret. Inr (ret, afl))))))"

definition describe_op ::
  "'s world \<Rightarrow> 'a afl_save_scheme \<Rightarrow> u8 \<Rightarrow> nat \<Rightarrow> (string \<times> 'a afl_save_scheme) result" where
  "describe_op w afl new_bits max_description_len =
     (let is_timeout = (new_bits AND 0xf0 \<noteq> 0);
          new_bits = (if is_timeout then new_bits - 0x80 else new_bits)
      in bind_result (case syncing_party afl of
           Some party \<Rightarrow> bind_result (put_op [] (''sync:'' @ party @ '',src:'' @ dec_pad 6 (unat (syncing_case afl))))
                           (\<lambda>ret. Inr (ret, afl))
         | None \<Rightarrow> describe_source w max_description_len is_timeout afl) (\<lambda>(ret, afl).
       bind_result (if is_timeout then put_op ret '',+tout'' else Inr ret) (\<lambda>ret.
       bind_result (if new_bits = 2 then put_op ret '',+cov'' else Inr ret) (\<lambda>ret.
       if max_description_len \<le> length ret then Inl (Fatal ''describe string is too long'')
       else Inr (ret, afl)))))"

section \<open>The queue entry of a new input\<close>

record save_vars =
  sv_mem :: bytes
  sv_len :: u32
  sv_fault :: fsrv_run_result
  sv_new_bits :: u8
  sv_keeping :: bool
  sv_classified :: bool
  sv_is_timeout :: u8
  sv_need_hash :: bool
  sv_cksum :: u64

text \<open>\<open>open\<close> with \<open>O_EXCL\<close>, \<open>ck_write\<close>, \<open>close\<close>.\<close>

definition save_file ::
  "'s world \<Rightarrow> 'a afl_save_scheme \<Rightarrow> string \<Rightarrow> bytes \<Rightarrow> u32 \<Rightarrow> 'a afl_save_scheme result" where
  "save_file w afl fn mem n =
     (if fs_deny afl fn \<or> fs afl fn \<noteq> None then Inl (Fatal ''Unable to create'')
      else if length mem < unat n then Inl (Out_of_bounds ''mem'')
      else creat_excl afl fn (ck_write (w_write w) mem (unat n)))"

definition bump_n_fuzz :: "u64 \<Rightarrow> 'a afl_save_scheme \<Rightarrow> 'a afl_save_scheme result" where
  "bump_n_fuzz cksum afl =
     (let i = unat (cksum mod N_FUZZ_SIZE) in
      bind_result (get_at ''n_fuzz'' (n_fuzz afl) i) (\<lambda>n.
      Inr (if n < 0xFFFFFFFF then afl\<lparr>n_fuzz := (n_fuzz afl)[i := n + 1]\<rparr> else afl)))"

definition rate_new_entry :: "'s world \<Rightarrow> qid \<Rightarrow> save_vars \<Rightarrow> 'a afl_save_scheme \<Rightarrow> (save_vars \<times> 'a afl_save_scheme) result" where
  "rate_new_entry w q v afl =
     (let afl = (if sv_new_bits v = 2
                 then (upd_q (\<lambda>e. e\<lparr>has_new_cov := True\<rparr>) q afl)\<lparr>queued_with_cov := queued_with_cov afl + 1\<rparr>
                 else afl);
          hash = (sv_need_hash v \<and> sv_new_bits v \<noteq> 0);
          afl = (if hash then upd_q (\<lambda>e. e\<lparr>exec_cksum := trace_cksum w afl\<rparr>) q afl else afl);
          v = (if hash then v\<lparr>sv_need_hash := False\<rparr> else v);
          i = sv_cksum v mod N_FUZZ_SIZE
      in if sv_cksum v = 0 then Inr (v, afl)
         else bind_result (get_at ''n_fuzz'' (n_fuzz afl) (unat i)) (\<lambda>_.
              Inr (v, (upd_q (\<lambda>e. e\<lparr>n_fuzz_entry := ucast i\<rparr>) q afl)\<lparr>n_fuzz := (n_fuzz afl)[unat i := 1]\<rparr>)))"

definition queue_name :: "string \<Rightarrow> u32 \<Rightarrow> string \<Rightarrow> string" where
  "queue_name dir n desc = dir @ ''/queue/id:'' @ dec_pad 6 (unat n) @ '','' @ desc"

text \<open>From the label \<open>save_to_queue\<close> up to the \<open>switch\<close>.\<close>

definition save_to_queue ::
  "'a afl_save_scheme world \<Rightarrow> save_vars \<Rightarrow> 'a afl_save_scheme \<Rightarrow> (save_vars \<times> 'a afl_save_scheme) result option" where
  "save_to_queue w v afl =
     (case describe_op w afl (sv_new_bits v + sv_is_timeout v) (NAME_MAX - 10) of
        Inl err \<Rightarrow> Some (Inl err)
      | Inr (desc, afl) \<Rightarrow>
          let queue_fn = queue_name (out_dir afl) (queued_items afl) desc in
          (case save_file w afl queue_fn (sv_mem v) (sv_len v) of
             Inl err \<Rightarrow> Some (Inl err)
           | Inr afl \<Rightarrow>
               (case get_cur_time w afl of (now, afl) \<Rightarrow>
                (case bind_result (add_to_queue afl queue_fn (sv_len v) False now) (\<lambda>afl.
                      bind_result (case queue_top afl of Some q \<Rightarrow> Inr q | None \<Rightarrow> Inl (Out_of_bounds ''queue_top'')) (\<lambda>q.
                      bind_result (rate_new_entry w q v afl) (\<lambda>(v, afl). Inr (q, v, afl)))) of
                   Inl err \<Rightarrow> Some (Inl err)
                 | Inr (q, v, afl) \<Rightarrow>
                     (case calibrate_case w afl q (sv_mem v) (ucast (queue_cycle afl - 1)) False of
                        None \<Rightarrow> None
                      | Some (Inl err) \<Rightarrow> Some (Inl err)
                      | Some (Inr (res, afl)) \<Rightarrow>
                          Some (if res = FSRV_RUN_ERROR then Inl (Fatal ''Unable to execute target application'')
                                else bind_result (if q_testcase_max_cache_size afl \<noteq> 0
                                                  then queue_testcase_store_mem afl q (sv_mem v) else Inr afl) (\<lambda>afl.
                                     Inr (v\<lparr>sv_keeping := True\<rparr>, afl))))))))"

section \<open>Hangs and crashes\<close>

text \<open>What happens after the \<open>switch\<close>: the function returns, the jump back to \<open>save_to_queue\<close>, or the input is written
  to the file named.\<close>

datatype save_next = Sv_return | Sv_again | Sv_file string

text \<open>Classify the trace once, reduce it to hit or not hit and compare it with a virgin map.\<close>

definition seen_before :: "virgin_map \<Rightarrow> save_vars \<Rightarrow> 'a afl_save_scheme \<Rightarrow> bool \<times> save_vars \<times> 'a afl_save_scheme" where
  "seen_before vm v afl =
     (if non_instrumented_mode afl then (False, v, afl)
      else
        let afl = (if sv_classified v then afl else classify_counts afl);
            v = v\<lparr>sv_classified := True\<rparr>;
            afl = afl\<lparr>trace_bits := simplify_trace afl (trace_bits afl)\<rparr>
        in case has_new_bits afl vm of (hnb, afl) \<Rightarrow> (hnb = 0, v, afl))"

definition crash_readme :: "(real \<Rightarrow> real) \<Rightarrow> 'a afl_save_scheme \<Rightarrow> string" where
  "crash_readme rnd afl =
     ''Command line used to find this crash:'' @ [CHR 0x0A, CHR 0x0A] @ orig_cmdline afl @ [CHR 0x0A, CHR 0x0A]
     @ ''If you can'' @ [CHR 0x27] @ ''t reproduce a bug outside of afl-fuzz, be sure to set the same'' @ [CHR 0x0A]
     @ ''memory limit. The limit used for this fuzzing session was ''
     @ stringify_mem_size rnd STRINGIFY_VAL_SIZE_MAX (push_bit 20 (mem_limit afl)) @ ''.'' @ [CHR 0x0A, CHR 0x0A]
     @ ''Need a tool to minimize test cases before investigating the crashes or sending'' @ [CHR 0x0A]
     @ ''them to a vendor? Check out the afl-tmin that comes with the fuzzer!'' @ [CHR 0x0A, CHR 0x0A]
     @ ''Found any cool bugs in open-source tools using afl-fuzz? If yes, please post'' @ [CHR 0x0A]
     @ ''to https://github.com/AFLplusplus/AFLplusplus/issues/286 once the issues'' @ [CHR 0x0A]
     @ '' are fixed :)'' @ [CHR 0x0A, CHR 0x0A]"

definition write_crash_readme :: "(real \<Rightarrow> real) \<Rightarrow> 'a afl_save_scheme \<Rightarrow> 'a afl_save_scheme result" where
  "write_crash_readme rnd afl =
     bind_result (sprintf_path (out_dir afl @ ''/crashes/README.txt'')) (\<lambda>fn.
     case creat_excl afl fn (map of_char (crash_readme rnd afl)) of
       Inl _ \<Rightarrow> Inr afl
     | Inr afl \<Rightarrow> Inr afl)"

text \<open>From the label \<open>keep_as_crash\<close> to the \<open>break\<close>.\<close>

definition keep_as_crash ::
  "(real \<Rightarrow> real) \<Rightarrow> 's world \<Rightarrow> save_vars \<Rightarrow> 'a afl_save_scheme \<Rightarrow> (save_next \<times> save_vars \<times> 'a afl_save_scheme) result" where
  "keep_as_crash rnd w v afl =
     (let afl = afl\<lparr>total_crashes := total_crashes afl + 1\<rparr> in
      if KEEP_UNIQUE_CRASH \<le> saved_crashes afl then Inr (Sv_return, v, afl)
      else case seen_before Virgin_crash v afl of (seen, v, afl) \<Rightarrow>
        if seen then Inr (Sv_return, v, afl)
        else
          bind_result (if saved_crashes afl = 0 \<and> afl_no_crash_readme afl \<noteq> 1 then write_crash_readme rnd afl else Inr afl) (\<lambda>afl.
          bind_result (describe_op w afl 0 (NAME_MAX - 17)) (\<lambda>(desc, afl).
          let fn = snprintf_path (out_dir afl @ ''/crashes/id:'' @ dec_pad 6 (unat (saved_crashes afl)) @ '',sig:''
                     @ dec_pad 2 (unat (last_kill_signal afl)) @ '','' @ desc);
              afl = afl\<lparr>saved_crashes := saved_crashes afl + 1\<rparr>
          in case get_cur_time w afl of (now, afl) \<Rightarrow>
               Inr (Sv_file fn, v, afl\<lparr>last_crash_time := now, last_crash_execs := total_execs afl\<rparr>))))"

text \<open>The second run of a hang with the longer time limit.\<close>

definition rerun_hang ::
  "'s world \<Rightarrow> save_vars \<Rightarrow> 'a afl_save_scheme \<Rightarrow> (fsrv_run_result \<times> save_vars \<times> 'a afl_save_scheme) result" where
  "rerun_hang w v afl =
     bind_result (write_to_testcase w afl (sv_mem v) (sv_len v) False) (\<lambda>(mem, tmp_len, afl).
     bind_result (if tmp_len \<noteq> 0 then Inr (mem, tmp_len, afl) else write_to_testcase w afl mem (sv_len v) True) (\<lambda>(mem, n, afl).
     bind_result (fuzz_run_target w afl (hang_tmout afl)) (\<lambda>(new_fault, afl).
     Inr (new_fault, v\<lparr>sv_mem := mem, sv_len := n\<rparr>, classify_counts afl))))"

definition name_hang ::
  "'s world \<Rightarrow> save_vars \<Rightarrow> 'a afl_save_scheme \<Rightarrow> (save_next \<times> save_vars \<times> 'a afl_save_scheme) result" where
  "name_hang w v afl =
     bind_result (describe_op w afl 0 (NAME_MAX - 10)) (\<lambda>(desc, afl).
     let fn = snprintf_path (out_dir afl @ ''/hangs/id:'' @ dec_pad 6 (unat (saved_hangs afl)) @ '','' @ desc);
         afl = afl\<lparr>saved_hangs := saved_hangs afl + 1\<rparr>
     in case get_cur_time w afl of (now, afl) \<Rightarrow> Inr (Sv_file fn, v, afl\<lparr>last_hang_time := now\<rparr>))"

definition keep_as_hang ::
  "(real \<Rightarrow> real) \<Rightarrow> 's world \<Rightarrow> save_vars \<Rightarrow> 'a afl_save_scheme \<Rightarrow> (save_next \<times> save_vars \<times> 'a afl_save_scheme) result" where
  "keep_as_hang rnd w v afl =
     (let afl = afl\<lparr>total_tmouts := total_tmouts afl + 1\<rparr> in
      if KEEP_UNIQUE_HANG \<le> saved_hangs afl then Inr (Sv_return, v, afl)
      else case seen_before Virgin_tmout v afl of (seen, v, afl) \<Rightarrow>
        if seen then Inr (Sv_return, v, afl)
        else
          let v = v\<lparr>sv_is_timeout := 0x80\<rparr> in
          if exec_tmout afl < hang_tmout afl then
            bind_result (rerun_hang w v afl) (\<lambda>(new_fault, v, afl).
            if \<not> stop_soon afl \<and> new_fault = FSRV_RUN_CRASH then keep_as_crash rnd w v afl
            else if stop_soon afl \<or> new_fault \<noteq> FSRV_RUN_TMOUT then
              Inr (if afl_keep_timeouts afl then (Sv_again, v, afl\<lparr>saved_tmouts := saved_tmouts afl + 1\<rparr>)
                   else (Sv_return, v, afl))
            else name_hang w v afl)
          else name_hang w v afl)"

text \<open>The \<open>switch\<close>.\<close>

definition handle_fault ::
  "(real \<Rightarrow> real) \<Rightarrow> 's world \<Rightarrow> save_vars \<Rightarrow> 'a afl_save_scheme \<Rightarrow> (save_next \<times> save_vars \<times> 'a afl_save_scheme) result" where
  "handle_fault rnd w v afl =
     (case sv_fault v of
        FSRV_RUN_TMOUT \<Rightarrow> keep_as_hang rnd w v afl
      | FSRV_RUN_CRASH \<Rightarrow> keep_as_crash rnd w v afl
      | FSRV_RUN_ERROR \<Rightarrow> Inl (Fatal ''Unable to execute target application'')
      | _ \<Rightarrow> Inr (Sv_return, v, afl))"

section \<open>\<open>save_if_interesting\<close>\<close>

text \<open>The flag says whether control is at \<open>save_to_queue\<close> or at the \<open>switch\<close>.\<close>

partial_function (option) save_loop ::
  "(real \<Rightarrow> real) \<Rightarrow> 'a afl_save_scheme world \<Rightarrow> bool \<Rightarrow> save_vars \<Rightarrow> 'a afl_save_scheme
     \<Rightarrow> (bool \<times> 'a afl_save_scheme) result option" where
  "save_loop rnd w queue_it v afl =
     (case (if queue_it then save_to_queue w v afl else Some (Inr (v, afl))) of
        None \<Rightarrow> None
      | Some (Inl err) \<Rightarrow> Some (Inl err)
      | Some (Inr (v, afl)) \<Rightarrow>
          (case handle_fault rnd w v afl of
             Inl err \<Rightarrow> Some (Inl err)
           | Inr (next, v, afl) \<Rightarrow>
               (case next of
                  Sv_return \<Rightarrow> Some (Inr (sv_keeping v, afl))
                | Sv_again \<Rightarrow> save_loop rnd w True v afl
                | Sv_file fn \<Rightarrow>
                    (case save_file w afl fn (sv_mem v) (sv_len v) of
                       Inl err \<Rightarrow> Some (Inl err)
                     | Inr afl \<Rightarrow> Some (Inr (sv_keeping v, afl))))))"

text \<open>The path frequency of the power schedules.\<close>

definition count_path :: "'s world \<Rightarrow> save_vars \<Rightarrow> 'a afl_save_scheme \<Rightarrow> (save_vars \<times> 'a afl_save_scheme) result" where
  "count_path w v afl =
     (if schedule afl \<ge> FAST \<and> schedule afl \<le> RARE then
        let afl = classify_counts afl;
            cksum = trace_cksum w afl
        in bind_result (bump_n_fuzz cksum afl) (\<lambda>afl.
           Inr (v\<lparr>sv_classified := True, sv_need_hash := False, sv_cksum := cksum\<rparr>, afl))
      else Inr (v, afl))"

definition look_for_new_bits :: "save_vars \<Rightarrow> 'a afl_save_scheme \<Rightarrow> save_vars \<times> 'a afl_save_scheme" where
  "look_for_new_bits v afl =
     (if sv_classified v then case has_new_bits afl Virgin_bits of (nb, afl) \<Rightarrow> (v\<lparr>sv_new_bits := nb\<rparr>, afl)
      else case has_new_bits_unclassified afl Virgin_bits of
             (nb, afl) \<Rightarrow> (v\<lparr>sv_new_bits := nb, sv_classified := nb \<noteq> 0\<rparr>, afl))"

definition save_if_interesting ::
  "(real \<Rightarrow> real) \<Rightarrow> 'a afl_save_scheme world \<Rightarrow> 'a afl_save_scheme \<Rightarrow> bytes \<Rightarrow> u32 \<Rightarrow> fsrv_run_result
     \<Rightarrow> (bool \<times> 'a afl_save_scheme) result option" where
  "save_if_interesting rnd w afl mem n fault =
     (if n = 0 then Some (Inr (False, afl))
      else if fault = FSRV_RUN_TMOUT \<and> afl_ignore_timeouts afl then Some (Inr (False, afl))
      else
        case count_path w \<lparr>sv_mem = mem, sv_len = n, sv_fault = fault, sv_new_bits = 0, sv_keeping = False,
               sv_classified = False, sv_is_timeout = 0, sv_need_hash = True, sv_cksum = 0\<rparr> afl of
          Inl err \<Rightarrow> Some (Inl err)
        | Inr (v, afl) \<Rightarrow>
            if fault = crash_mode afl then
              (case look_for_new_bits v afl of (v, afl) \<Rightarrow>
                 if sv_new_bits v = 0
                 then Some (Inr (False, if crash_mode afl \<noteq> FSRV_RUN_OK
                                        then afl\<lparr>total_crashes := total_crashes afl + 1\<rparr> else afl))
                 else save_loop rnd w True v afl)
            else save_loop rnd w False v afl)"

section \<open>\<open>common_fuzz_stuff\<close>\<close>

definition common_fuzz_stuff ::
  "(real \<Rightarrow> real) \<Rightarrow> 'a afl_save_scheme world \<Rightarrow> 'a afl_save_scheme \<Rightarrow> bytes \<Rightarrow> u32
     \<Rightarrow> (bool \<times> 'a afl_save_scheme) result option" where
  "common_fuzz_stuff rnd w afl out_buf n =
     (case write_to_testcase w afl out_buf n False of
        Inl err \<Rightarrow> Some (Inl err)
      | Inr (out_buf, n, afl) \<Rightarrow>
          if n = 0 then Some (Inr (False, afl))
          else
            (case fuzz_run_target w afl (exec_tmout afl) of
               Inl err \<Rightarrow> Some (Inl err)
             | Inr (fault, afl) \<Rightarrow>
                 if stop_soon afl then Some (Inr (True, afl))
                 else
                   let tmouts = subseq_tmouts afl;
                       afl = afl\<lparr>subseq_tmouts := (if fault = FSRV_RUN_TMOUT then tmouts + 1 else 0)\<rparr>
                   in if fault = FSRV_RUN_TMOUT \<and> TMOUT_LIMIT < tmouts
                      then Some (Inr (True, afl\<lparr>cur_skipped_items := cur_skipped_items afl + 1\<rparr>))
                      else if skip_requested afl
                      then Some (Inr (True, afl\<lparr>skip_requested := False, cur_skipped_items := cur_skipped_items afl + 1\<rparr>))
                      else
                        (case save_if_interesting rnd w afl out_buf n fault of
                           None \<Rightarrow> None
                         | Some (Inl err) \<Rightarrow> Some (Inl err)
                         | Some (Inr (kept, afl)) \<Rightarrow>
                             let afl = afl\<lparr>queued_discovered := queued_discovered afl + (if kept then 1 else 0)\<rparr>
                             in if stats_update_freq afl = 0 then Some (Inl (Not_finite ''modulo zero''))
                                else Some (Inr (False,
                                  if stage_cur afl mod stats_update_freq afl = 0 \<or> stage_cur afl + 1 = stage_max afl
                                  then w_show_stats w afl else afl)))))"

section \<open>What a calibration leaves alone\<close>

definition uncal :: "'a afl_run_scheme \<Rightarrow> 'a afl_run_scheme" where
  "uncal afl = (stats_free (rested afl))\<lparr>virgin_bits := [], var_bytes := [], first_trace := [], stage_name := [],
     stage_cur := 0, stage_max := 0, total_cal_us := 0, total_cal_cycles := 0, total_bitmap_size := 0,
     total_bitmap_entries := 0, queued_with_cov := 0, var_byte_count := 0, queued_variable := 0, top_rated := [],
     score_changed := False, queue_buf := map (\<lambda>e. zero_entry\<lparr>fname := fname e, len := len e\<rparr>) (queue_buf afl)\<rparr>"

lemmas uncal_defs = uncal_def stats_free_def rested_def unsent_def idle_def

lemma uncal_same: "uncal a = uncal b \<Longrightarrow> (\<And>x. P (uncal x) = P x) \<Longrightarrow> P a = P b"
  by metis

lemma uncal_upd [simp]:
  "uncal (afl\<lparr>virgin_bits := vb\<rparr>) = uncal afl" "uncal (afl\<lparr>bitmap_changed := bc\<rparr>) = uncal afl"
  "uncal (afl\<lparr>var_bytes := vs\<rparr>) = uncal afl" "uncal (afl\<lparr>first_trace := ft\<rparr>) = uncal afl"
  "uncal (afl\<lparr>stage_name := sn\<rparr>) = uncal afl" "uncal (afl\<lparr>stage_cur := sc\<rparr>) = uncal afl"
  "uncal (afl\<lparr>stage_max := sm\<rparr>) = uncal afl" "uncal (afl\<lparr>ticks := tk\<rparr>) = uncal afl"
  "uncal (afl\<lparr>trace_bits := tb\<rparr>) = uncal afl"
  by (simp_all add: uncal_defs)

lemma uncal_upd_q:
  assumes "\<And>e. fname (f e) = fname e \<and> len (f e) = len e"
  shows "uncal (upd_q f q afl) = uncal afl"
proof -
  have "map (\<lambda>e. zero_entry\<lparr>fname := fname e, len := len e\<rparr>) (xs[q := f (xs ! q)])
      = map (\<lambda>e. zero_entry\<lparr>fname := fname e, len := len e\<rparr>) xs" for xs
    using assms by (cases "q < length xs") (simp_all add: map_update list_update_same_conv list_update_beyond)
  then show ?thesis by (simp add: uncal_defs upd_q_def)
qed

lemma uncal_finish:
  "uncal (afl\<lparr>total_cal_us := n1\<rparr>) = uncal afl" "uncal (afl\<lparr>total_cal_cycles := n1\<rparr>) = uncal afl"
  "uncal (afl\<lparr>total_bitmap_size := n1\<rparr>) = uncal afl" "uncal (afl\<lparr>total_bitmap_entries := n1\<rparr>) = uncal afl"
  "uncal (afl\<lparr>queued_with_cov := n2\<rparr>) = uncal afl" "uncal (afl\<lparr>var_byte_count := n2\<rparr>) = uncal afl"
  "uncal (afl\<lparr>queued_variable := n2\<rparr>) = uncal afl" "uncal (afl\<lparr>fs := f\<rparr>) = uncal afl"
  "uncal (unrated afl) = uncal afl"
  by (simp_all add: uncal_defs unrated_def strip_rating_def)

lemma uncal_stats_free: "uncal (stats_free afl) = uncal afl"
  by (simp add: uncal_defs)

lemma cal_run_uncal: "cal_run w q tmo v afl = Inr (stop, v', afl') \<Longrightarrow> uncal afl' = uncal afl"
proof -
  assume "cal_run w q tmo v afl = Inr (stop, v', afl')"
  from conjunct1 [OF cal_run_frame [OF this]] have r: "rested afl' = rested afl" .
  have "queue_buf afl' = queue_buf afl" by (rule rested_same [OF r]) (simp add: rested_def unsent_def idle_def)
  with r show ?thesis by (simp add: uncal_def)
qed

lemma has_new_bits_uncal: "uncal (snd (has_new_bits afl Virgin_bits)) = uncal afl"
  by (simp add: has_new_bits_def Let_def uncal_defs split: prod.split)

lemma cal_compare_uncal:
  assumes "cal_compare w q v afl = Inr (v', afl')"
  shows "uncal afl' = uncal afl"
  using assms
proof (cases rule: cal_compare_cases)
  case (unstable a)
  have "uncal a = uncal (snd (has_new_bits afl Virgin_bits))"
    using unstable(3) by (auto simp: mark_variable_bytes_def Let_def split: if_splits)
  then show ?thesis by (simp add: unstable(4) has_new_bits_uncal)
next
  case (first t)
  have "uncal (upd_q (\<lambda>e. e\<lparr>exec_cksum := x\<rparr>) q b) = uncal b" for x and b :: "'b afl_run_scheme"
    by (rule uncal_upd_q) simp
  then show ?thesis by (simp add: first(2) has_new_bits_uncal uncal_upd_q)
qed simp

lemma cal_round_uncal:
  assumes "cal_round w q tmo v afl = Inr (stop, v', afl')"
  shows "uncal afl' = uncal afl"
proof -
  from assms obtain st v1 a1 where run: "cal_run w q tmo v afl = Inr (st, v1, a1)"
    and rest: "(if st then Inr (True, v1, a1)
      else bind_result (cal_compare w q v1 (classify_counts a1)) (\<lambda>(v, afl).
           Inr (False, v, afl\<lparr>stage_cur := stage_cur afl + 1\<rparr>))) = Inr (stop, v', afl')"
    by (auto simp: cal_round_def bind_result_Inr_iff)
  have "uncal (classify_counts a1) = uncal afl" using cal_run_uncal [OF run] by (simp add: classify_counts_def)
  then show ?thesis
    using rest cal_run_uncal [OF run] by (cases st) (auto simp: bind_result_Inr_iff dest: cal_compare_uncal)
qed

lemma calibrate_case_uncal:
  assumes "calibrate_case w afl q use_mem handicap0 from_queue = Some (Inr (fault, afl'))"
    and "fsrv_pid afl \<noteq> 0" and "stats_keep w"
  shows "uncal afl' = uncal afl"
proof -
  have upd: "uncal (upd_q (\<lambda>e. e\<lparr>exec_cksum := 0\<rparr>) q x) = uncal x" "uncal (upd_q (\<lambda>e. e\<lparr>cal_failed := cal_failed e + 1\<rparr>) q x) = uncal x"
    for x :: "'a afl_run_scheme" by (rule uncal_upd_q; simp)+
  have pid: "fsrv_pid (cal_start q afl) \<noteq> 0" using assms(2) by (simp add: cal_start_frame)
  have s0: "uncal (cal_start q afl) = uncal afl" by (simp add: cal_start_def Let_def upd)
  have prep: "uncal a = uncal afl" if "cal_prepare w q tmo v (cal_start q afl) = Inr (st, v', a)" for tmo v st v' a
    using that pid
  proof (rule cal_prepare_end)
    fix v1 a1 assume run: "(v1, a1) = (v, cal_start q afl) \<or> (\<exists>st. cal_run w q tmo v (cal_start q afl) = Inr (st, v1, a1))"
      and see: "(v', a) = (v1, a1) \<or> (\<exists>t. see_new_bits v1 (a1\<lparr>first_trace := t\<rparr>) = (v', a))"
    have "uncal a1 = uncal afl" using run s0 cal_run_uncal [of w q tmo v "cal_start q afl"] by auto
    then show ?thesis using see by (auto simp: see_new_bits_eq has_new_bits_uncal)
  qed
  have loop: "uncal a = uncal a1" if "cal_loop w q tmo v1 (cal_enter a1) = Some (Inr (st, v, a))" for tmo v1 a1 st v a
    using cal_loop_inv [where I = "\<lambda>_ x. uncal x = uncal a1", OF _ _ that refl] cal_round_uncal [of w q tmo]
    by (metis uncal_upd(6,8))
  have fin: "uncal a = uncal a2" if "cal_finish w q u h a2 = Inr a" for u h a2 a
    by (rule cal_finish_frame [OF that]) (simp_all add: names_kept_def uncal_upd_q uncal_finish)
  have ab: "uncal afl' = uncal a" if "cal_abort w q f old v a = Inr (fault, afl')" for f old v a
  proof -
    obtain sn sc sm where old: "old = (sn, sc, sm)" by (cases old)
    have "uncal afl' = uncal (a\<lparr>stage_name := sn, stage_cur := sc, stage_max := sm\<rparr>)"
      by (rule cal_abort_frame [OF that [unfolded old] assms(3)])
        (simp_all add: names_kept_def uncal_upd_q uncal_finish uncal_stats_free)
    then show ?thesis by simp
  qed
  show ?thesis
    using assms(1)
  proof (cases rule: calibrate_case_end)
    case (1 first_run v a)
    then show ?thesis using ab [OF 1(1)] prep [OF 1(2)] by simp
  next
    case (2 first_run v1 a1 v a)
    then show ?thesis using ab [OF 2(1)] loop [OF 2(3)] prep [OF 2(2)] by simp
  next
    case (3 first_run v1 a1 v2 a2 start_us v a)
    then show ?thesis using ab [OF 3(1)] fin [OF 3(4)] loop [OF 3(3)] prep [OF 3(2)] by simp
  qed
qed

section \<open>Inputs without new coverage\<close>

lemma novelty_0_clear:
  assumes "novelty cur vir = 0" and "length cur = length vir"
  shows "clear_seen cur vir = vir"
proof (rule nth_equalityI)
  show "length (clear_seen cur vir) = length vir" using assms(2) by (simp add: clear_seen_def)
  fix i assume "i < length (clear_seen cur vir)"
  then have i: "i < length vir" using assms(2) by (simp add: clear_seen_def)
  have "\<not> list_ex (\<lambda>(c, v). c AND v \<noteq> 0) (zip cur vir)" using assms(1) by (auto simp: novelty_def split: if_splits)
  then have "cur ! i AND vir ! i = 0" using i assms(2) by (auto simp: list_ex_zip)
  then have "vir ! i AND NOT (cur ! i) = vir ! i"
    by (metis (no_types) and.commute and.left_idem bit.conj_disj_distrib bit.disj_cancel_right bit.conj_one_right or.left_neutral)
  then show "clear_seen cur vir ! i = vir ! i" using i assms(2) by (simp add: clear_seen_def)
qed

lemma has_new_bits_0:
  assumes "cov_wf afl" and "fst (has_new_bits afl vm) = 0"
  shows "snd (has_new_bits afl vm) = afl"
proof -
  let ?cur = "take (scan64 afl) (trace_bits afl)" and ?vir = "take (scan64 afl) (get_virgin vm afl)"
  have "novelty ?cur ?vir = 0" using assms by (simp add: has_new_bits_ret)
  moreover have "length ?cur = length ?vir" using cov_wf_lengths [OF assms(1)] by simp
  ultimately have "clear_seen ?cur ?vir = ?vir" by (rule novelty_0_clear)
  then show ?thesis using \<open>novelty ?cur ?vir = 0\<close> by (cases vm) (simp_all add: has_new_bits_eq [OF assms(1)] Let_def)
qed

lemma unclassified_0:
  assumes "cov_wf afl" and "fst (has_new_bits_unclassified afl vm) = 0"
  shows "\<exists>t. snd (has_new_bits_unclassified afl vm) = afl\<lparr>trace_bits := t\<rparr>"
proof (cases "skim64 (get_virgin vm afl) (trace_bits afl) (unat (map_size afl)) = 0")
  case True
  then show ?thesis by (intro exI [of _ "trace_bits afl"]) (simp add: has_new_bits_unclassified_def)
next
  case False
  then have "fst (has_new_bits (classify_counts afl) vm) = 0" using assms(2) by (simp add: has_new_bits_unclassified_def)
  from has_new_bits_0 [OF classify_counts_wf [OF assms(1)] this] False show ?thesis
    by (intro exI [of _ "trace_bits (classify_counts afl)"]) (simp add: has_new_bits_unclassified_def classify_counts_def)
qed

lemma rate_new_entry_vars:
  assumes "rate_new_entry w q v afl = Inr (v', afl')"
  shows "v' = v \<or> v' = v\<lparr>sv_need_hash := False\<rparr>"
  using assms by (auto simp: rate_new_entry_def Let_def bind_result_Inr_iff split: if_splits)

text \<open>The steps of a successful save.\<close>

lemma save_to_queue_steps:
  assumes "save_to_queue w v afl = Some (Inr (v', afl'))"
  obtains desc a0 a1 now a2 a3 q v1 a4 res a5 where
    "describe_op w afl (sv_new_bits v + sv_is_timeout v) 245 = Inr (desc, a0)"
    "save_file w a0 (queue_name (out_dir a0) (queued_items a0) desc) (sv_mem v) (sv_len v) = Inr a1"
    "get_cur_time w a1 = (now, a2)"
    "add_to_queue a2 (queue_name (out_dir a0) (queued_items a0) desc) (sv_len v) False now = Inr a3" "queue_top a3 = Some q"
    "rate_new_entry w q v a3 = Inr (v1, a4)"
    "calibrate_case w a4 q (sv_mem v1) (ucast (queue_cycle a4 - 1)) False = Some (Inr (res, a5))"
    "res \<noteq> FSRV_RUN_ERROR" "afl' = a5 \<or> queue_testcase_store_mem a5 q (sv_mem v1) = Inr afl'" "v' = v1\<lparr>sv_keeping := True\<rparr>"
proof -
  obtain desc a0 where d: "describe_op w afl (sv_new_bits v + sv_is_timeout v) 245 = Inr (desc, a0)"
    using assms by (auto simp: save_to_queue_def split: sum.splits)
  let ?fn = "queue_name (out_dir a0) (queued_items a0) desc"
  obtain a1 where f: "save_file w a0 ?fn (sv_mem v) (sv_len v) = Inr a1"
    using assms d by (auto simp: save_to_queue_def Let_def split: sum.splits option.splits)
  obtain now a2 where t: "get_cur_time w a1 = (now, a2)" by (cases "get_cur_time w a1")
  obtain a3 q v1 a4 where q: "add_to_queue a2 ?fn (sv_len v) False now = Inr a3" "queue_top a3 = Some q"
    "rate_new_entry w q v a3 = Inr (v1, a4)"
    using assms d f t
    by (auto simp: save_to_queue_def Let_def bind_result_Inr_iff split: sum.splits option.splits)
  obtain res a5 where c: "calibrate_case w a4 q (sv_mem v1) (ucast (queue_cycle a4 - 1)) False = Some (Inr (res, a5))"
    "res \<noteq> FSRV_RUN_ERROR"
    using assms d f t q by (auto simp: save_to_queue_def Let_def split: sum.splits option.splits if_splits)
  have "afl' = a5 \<or> queue_testcase_store_mem a5 q (sv_mem v1) = Inr afl'" "v' = v1\<lparr>sv_keeping := True\<rparr>"
    using assms d f t q c by (auto simp: save_to_queue_def Let_def bind_result_Inr_iff split: if_splits)
  with d f t q c show thesis by (rule that)
qed

lemma save_to_queue_vars:
  assumes "save_to_queue w v afl = Some (Inr (v', afl'))"
  shows "\<exists>h. v' = v\<lparr>sv_need_hash := h, sv_keeping := True\<rparr>"
  using assms
proof (rule save_to_queue_steps)
  fix q v1 a3 a4 assume "rate_new_entry w q v a3 = Inr (v1, a4)" and v': "v' = v1\<lparr>sv_keeping := True\<rparr>"
  then consider "v1 = v" | "v1 = v\<lparr>sv_need_hash := False\<rparr>" using rate_new_entry_vars by blast
  then show ?thesis
  proof cases
    case 1
    then show ?thesis using v' by (intro exI [of _ "sv_need_hash v"]) simp
  next
    case 2
    then show ?thesis using v' by blast
  qed
qed

lemma handle_ok: "sv_fault v = FSRV_RUN_OK \<Longrightarrow> handle_fault rnd w v afl = Inr (Sv_return, v, afl)"
  by (simp add: handle_fault_def)

lemma save_loop_ok:
  assumes "sv_fault v = FSRV_RUN_OK" and "save_loop rnd w True v afl = Some (Inr (kept, afl'))"
  shows "kept \<and> (\<exists>v'. save_to_queue w v afl = Some (Inr (v', afl')))"
proof -
  obtain v1 a1 where q: "save_to_queue w v afl = Some (Inr (v1, a1))"
    using assms(2) by (subst (asm) save_loop.simps) (auto split: option.splits sum.splits)
  obtain h where v1: "v1 = v\<lparr>sv_need_hash := h, sv_keeping := True\<rparr>" using save_to_queue_vars [OF q] by blast
  then have "handle_fault rnd w v1 a1 = Inr (Sv_return, v1, a1)" using assms(1) by (intro handle_ok) simp
  then show ?thesis using assms(2) q v1 by (subst (asm) save_loop.simps) auto
qed

abbreviation save_vars0 :: "bytes \<Rightarrow> u32 \<Rightarrow> fsrv_run_result \<Rightarrow> save_vars" where
  "save_vars0 mem n fault \<equiv> \<lparr>sv_mem = mem, sv_len = n, sv_fault = fault, sv_new_bits = 0, sv_keeping = False,
     sv_classified = False, sv_is_timeout = 0, sv_need_hash = True, sv_cksum = 0\<rparr>"

text \<open>The schedules that count paths have a table to count them in.\<close>

definition paths_ok :: "'a afl_save_scheme \<Rightarrow> bool" where
  "paths_ok afl \<longleftrightarrow> (schedule afl \<ge> FAST \<and> schedule afl \<le> RARE \<longrightarrow> unat N_FUZZ_SIZE \<le> length (n_fuzz afl))"

lemma count_path_eq:
  assumes "paths_ok afl"
  shows "\<exists>v nf. count_path w (save_vars0 mem n fault) afl = Inr (v, if sv_classified v
        then (classify_counts afl)\<lparr>n_fuzz := nf\<rparr> else afl)
     \<and> sv_mem v = mem \<and> sv_len v = n \<and> sv_fault v = fault \<and> sv_keeping v = False \<and> sv_new_bits v = 0 \<and> sv_is_timeout v = 0"
proof (cases "schedule afl \<ge> FAST \<and> schedule afl \<le> RARE")
  case False
  then show ?thesis by (auto simp: count_path_def)
next
  case True
  let ?a = "classify_counts afl"
  let ?c = "trace_cksum w ?a"
  let ?i = "unat (?c mod N_FUZZ_SIZE)"
  have "?i < unat N_FUZZ_SIZE" unfolding unat_mod by (rule mod_less_divisor) simp
  then have i: "?i < length (n_fuzz ?a)" using assms True by (simp add: paths_ok_def classify_counts_def)
  let ?n = "n_fuzz ?a ! ?i"
  have "bump_n_fuzz ?c ?a = Inr (?a\<lparr>n_fuzz := if ?n < 0xFFFFFFFF then (n_fuzz ?a)[?i := ?n + 1] else n_fuzz ?a\<rparr>)"
    unfolding bump_n_fuzz_def Let_def get_at_def using i by (cases "?n < 0xFFFFFFFF") simp_all
  then obtain nf where nf: "bump_n_fuzz ?c ?a = Inr (?a\<lparr>n_fuzz := nf\<rparr>)" by blast
  show ?thesis
    by (rule exI [of _ "(save_vars0 mem n fault)\<lparr>sv_classified := True, sv_need_hash := False, sv_cksum := ?c\<rparr>"], rule exI [of _ nf])
      (use True nf in \<open>simp add: count_path_def Let_def\<close>)
qed

lemma cov_wf_n_fuzz [simp]: "cov_wf (afl\<lparr>n_fuzz := nf\<rparr>) = cov_wf (afl :: 'a afl_queue_scheme)"
  by (simp add: cov_wf_def)

lemma has_new_bits_n_fuzz:
  "fst (has_new_bits (afl\<lparr>n_fuzz := nf\<rparr>) vm) = fst (has_new_bits (afl :: 'a afl_queue_scheme) vm)"
  by (cases vm) (simp_all add: has_new_bits_def Let_def split: prod.splits)

text \<open>What the search for new bits finds, in whichever way it is done.\<close>

lemma look_for_new_bits_spec:
  fixes afl :: "'a afl_save_scheme"
  assumes "cov_wf afl" and "look_for_new_bits v (if sv_classified v then (classify_counts afl)\<lparr>n_fuzz := nf\<rparr> else afl) = (v', a)"
  shows "sv_new_bits v' = fst (has_new_bits (classify_counts afl) Virgin_bits)"
    and "sv_new_bits v' = 0 \<Longrightarrow> \<exists>t nf. a = afl\<lparr>trace_bits := t, n_fuzz := nf\<rparr>"
    and "sv_fault v' = sv_fault v" "sv_mem v' = sv_mem v" "sv_len v' = sv_len v"
proof -
  let ?c = "(classify_counts afl)\<lparr>n_fuzz := nf\<rparr>"
  have wf: "cov_wf ?c" using classify_counts_wf [OF assms(1)] by simp
  show "sv_new_bits v' = fst (has_new_bits (classify_counts afl) Virgin_bits)"
    using assms(2) has_new_bits_unclassified_aux [OF assms(1), of Virgin_bits] has_new_bits_n_fuzz [where nf = nf and afl = "classify_counts afl" and vm = Virgin_bits]
    by (auto simp: look_for_new_bits_def split: if_splits prod.splits)
  show "\<exists>t nf. a = afl\<lparr>trace_bits := t, n_fuzz := nf\<rparr>" if zero: "sv_new_bits v' = 0"
  proof (cases "sv_classified v")
    case True
    then have "fst (has_new_bits ?c Virgin_bits) = 0" and a: "a = snd (has_new_bits ?c Virgin_bits)"
      using assms(2) zero by (auto simp: look_for_new_bits_def split: prod.splits)
    then have "a = ?c" using has_new_bits_0 [OF wf] by simp
    then show ?thesis by (auto simp: classify_counts_def)
  next
    case False
    then have "fst (has_new_bits_unclassified afl Virgin_bits) = 0" and a: "a = snd (has_new_bits_unclassified afl Virgin_bits)"
      using assms(2) zero by (auto simp: look_for_new_bits_def split: prod.splits)
    then obtain t where "a = afl\<lparr>trace_bits := t\<rparr>" using unclassified_0 [OF assms(1)] by blast
    then have "a = afl\<lparr>trace_bits := t, n_fuzz := n_fuzz afl\<rparr>" by simp
    then show ?thesis by blast
  qed
  show "sv_fault v' = sv_fault v" "sv_mem v' = sv_mem v" "sv_len v' = sv_len v"
    using assms(2) by (auto simp: look_for_new_bits_def split: if_splits prod.splits)
qed

section \<open>Files\<close>

text \<open>Handing over an input touches no file but \<open>out_file\<close>.\<close>

lemma rewrite_file_fs:
  "rewrite_file k afl fn data = Inr afl' \<Longrightarrow> fn \<noteq> f \<Longrightarrow> fs afl' f = fs afl f" for afl :: "'a afl_run_scheme"
  by (auto simp: rewrite_file_def creat_excl_Inr creat_trunc_Inr unlink_quiet_def unlink_file_def split: if_splits)

lemma write_out_fd_fs: "write_out_fd afl data n = Inr afl' \<Longrightarrow> fs afl' = fs afl"
  by (auto simp: write_out_fd_def split: option.splits)

lemma fsrv_write_fs:
  assumes "afl_fsrv_write_to_testcase w afl buf n = Inr afl'" and "out_file afl \<noteq> Some f"
  shows "fs afl' f = fs afl f"
  using assms rewrite_file_fs [of "fsrv_no_unlink afl" "afl\<lparr>custom_sent := None\<rparr>" _ _ afl' f]
    write_out_fd_fs [of "afl\<lparr>custom_sent := None\<rparr>" _ _ afl']
  by (auto simp: afl_fsrv_write_to_testcase_def Let_def bind_result_Inr_iff split: if_splits option.splits bool.splits)

lemma deliver_custom_fs:
  "deliver_custom w afl buf saved n len0 = Inr (m, k, afl') \<Longrightarrow> out_file afl \<noteq> Some f \<Longrightarrow> fs afl' f = fs afl f"
  by (auto simp: deliver_custom_def bind_result_Inr_iff dest!: fsrv_write_fs [where f = f] split: if_splits)

lemma write_to_testcase_fs:
  assumes "write_to_testcase w afl mem n fix_run = Inr (m, k, afl')" and "out_file afl \<noteq> Some f"
  shows "fs afl' f = fs afl f"
proof (cases "custom_mutators_count afl = 0")
  case True
  then show ?thesis
    using assms by (auto simp: write_to_testcase_def Let_def bind_result_Inr_iff dest: fsrv_write_fs [where f = f])
next
  case False
  then have "write_custom w afl mem n fix_run = Inr (m, k, afl')" using assms by (simp add: write_to_testcase_def)
  then show ?thesis
    using assms(2)
    by (auto simp: write_custom_def Let_def bind_result_Inr_iff dest!: deliver_custom_fs [where f = f] split: if_splits)
qed

text \<open>A file that calibration does not write to stays as it is.\<close>

definition has_file :: "string \<Rightarrow> bytes \<Rightarrow> 'a afl_run_scheme \<Rightarrow> bool" where
  "has_file f d afl \<longleftrightarrow> fs afl f = Some d \<and> out_file afl \<noteq> Some f"

definition stats_spare :: "string \<Rightarrow> 'a afl_run_scheme world \<Rightarrow> bool" where
  "stats_spare f w \<longleftrightarrow> (\<forall>s. fs (w_show_stats w s) f = fs s f)"

lemma has_file_upd [simp]:
  "has_file f d (afl\<lparr>stage_max := n\<rparr>) = has_file f d afl" "has_file f d (afl\<lparr>stage_cur := n\<rparr>) = has_file f d afl"
  "has_file f d (afl\<lparr>stage_name := sn\<rparr>) = has_file f d afl" "has_file f d (afl\<lparr>first_trace := t\<rparr>) = has_file f d afl"
  "has_file f d (afl\<lparr>trace_bits := t\<rparr>) = has_file f d afl" "has_file f d (afl\<lparr>ticks := tk\<rparr>) = has_file f d afl"
  "has_file f d (upd_q g q afl) = has_file f d afl"
  by (simp_all add: has_file_def upd_q_def)

lemma cal_run_file:
  assumes "cal_run w q tmo v afl = Inr (stop, v', afl')" and "has_file f d afl"
  shows "has_file f d afl'"
proof -
  from assms obtain n m k a1 fault where
    wr: "write_to_testcase w afl (cv_mem v) n True = Inr (m, k, a1)" and run: "fuzz_run_target w a1 tmo = Inr (fault, afl')"
    by (auto simp: cal_run_def bind_result_Inr_iff Let_def split: if_splits)
  have "out_file a1 = out_file afl" by (rule unsent_same [OF write_to_testcase_unsent [OF wr]]) (simp add: unsent_def)
  moreover have "fs a1 f = fs afl f" using write_to_testcase_fs [OF wr] assms(2) by (simp add: has_file_def)
  moreover have "fs afl' = fs a1" "out_file afl' = out_file a1"
    by (rule idle_same [OF conjunct1 [OF run_target_idle [OF run]]]; simp add: idle_def)+
  ultimately show ?thesis using assms(2) by (simp add: has_file_def)
qed

lemma has_new_bits_file: "has_file f d (snd (has_new_bits afl vm)) = has_file f d afl"
  by (cases vm) (auto simp: has_file_def has_new_bits_def Let_def split: prod.split)

lemma cal_compare_file:
  assumes "cal_compare w q v afl = Inr (v', afl')"
  shows "has_file f d afl' = has_file f d afl"
  using assms
proof (cases rule: cal_compare_cases)
  case (unstable a)
  have "has_file f d a = has_file f d (snd (has_new_bits afl Virgin_bits))"
    using unstable(3) by (auto simp: mark_variable_bytes_def Let_def has_file_def split: if_splits)
  then show ?thesis by (simp add: unstable(4) has_new_bits_file)
next
  case (first t)
  then show ?thesis by (simp add: has_new_bits_file)
qed simp

lemma cal_round_file:
  assumes "cal_round w q tmo v afl = Inr (stop, v', afl')" and "has_file f d afl"
  shows "has_file f d afl'"
proof -
  from assms(1) obtain st v1 a1 where run: "cal_run w q tmo v afl = Inr (st, v1, a1)"
    and rest: "(if st then Inr (True, v1, a1)
      else bind_result (cal_compare w q v1 (classify_counts a1)) (\<lambda>(v, afl).
           Inr (False, v, afl\<lparr>stage_cur := stage_cur afl + 1\<rparr>))) = Inr (stop, v', afl')"
    by (auto simp: cal_round_def bind_result_Inr_iff)
  have a1: "has_file f d a1" "has_file f d (classify_counts a1)"
    using cal_run_file [OF run assms(2)] by (simp_all add: classify_counts_def)
  show ?thesis
  proof (cases st)
    case True
    then show ?thesis using rest a1 by simp
  next
    case False
    then obtain a2 where cmp: "cal_compare w q v1 (classify_counts a1) = Inr (v', a2)"
      and fin: "afl' = a2\<lparr>stage_cur := stage_cur a2 + 1\<rparr>"
      using rest by (auto simp: bind_result_Inr_iff)
    then show ?thesis using cal_compare_file [OF cmp] a1 by simp
  qed
qed

lemma cal_abort_file:
  assumes "cal_abort w q first_run old v afl = Inr (fault, afl')" and "has_file f d afl" and "stats_keep w" and "stats_spare f w"
  shows "has_file f d afl'"
proof -
  obtain sn sc sm where old: "old = (sn, sc, sm)" by (cases old)
  have of: "out_file afl' = out_file afl"
  proof -
    have "out_file afl' = out_file (afl\<lparr>stage_name := sn, stage_cur := sc, stage_max := sm\<rparr>)"
      by (rule cal_abort_frame [OF assms(1) [unfolded old] assms(3)]) (simp_all add: upd_q_def stats_free_def)
    then show ?thesis by simp
  qed
  define a1 where "a1 = (if cv_new_bits v = 2 \<and> \<not> has_new_cov (queue_buf afl ! q)
      then (upd_q (\<lambda>e. e\<lparr>has_new_cov := True\<rparr>) q afl)\<lparr>queued_with_cov := queued_with_cov afl + 1\<rparr> else afl)"
  have a1: "fs a1 = fs afl" by (simp add: a1_def upd_q_def)
  have mark: "fs b f = Some d" if "mark_as_variable a q = Inr b" "fs a f = Some d" for a b :: "'a afl_run_scheme"
    using that by (auto simp: mark_as_variable_def step_Inr symlink_def creat_excl_Inr upd_q_def split: option.splits if_splits)
  obtain a2 where a2: "fs a2 f = Some d" "afl' = (if first_run then a2 else w_show_stats w a2)"
  proof (cases "cv_var_detected v \<and> \<not> var_behavior (queue_buf afl ! q)")
    case True
    then obtain b where b: "mark_as_variable (a1\<lparr>var_byte_count := count_bytes a1 (var_bytes a1)\<rparr>) q = Inr b"
      "afl' = (let afl = b\<lparr>queued_variable := queued_variable b + 1, stage_name := sn, stage_cur := sc, stage_max := sm\<rparr>
        in if first_run then afl else w_show_stats w afl)"
      using assms(1) by (auto simp: cal_abort_def bind_result_Inr_iff get_q_Inr Let_def a1_def old)
    have "fs b f = Some d" using mark [OF b(1)] a1 assms(2) by (simp add: has_file_def)
    then show ?thesis using b(2) that [of "b\<lparr>queued_variable := queued_variable b + 1, stage_name := sn, stage_cur := sc, stage_max := sm\<rparr>"]
      by (simp add: Let_def)
  next
    case False
    let ?a = "if cv_var_detected v then a1\<lparr>var_byte_count := count_bytes a1 (var_bytes a1)\<rparr> else a1"
    have "afl' = (if first_run then ?a\<lparr>stage_name := sn, stage_cur := sc, stage_max := sm\<rparr>
        else w_show_stats w (?a\<lparr>stage_name := sn, stage_cur := sc, stage_max := sm\<rparr>))"
      using assms(1) False by (auto simp: cal_abort_def bind_result_Inr_iff get_q_Inr Let_def a1_def old split: if_splits)
    moreover have "fs (?a\<lparr>stage_name := sn, stage_cur := sc, stage_max := sm\<rparr>) f = Some d"
      using a1 assms(2) by (simp add: has_file_def)
    ultimately show ?thesis using that by blast
  qed
  then show ?thesis using of assms(2,4) by (auto simp: has_file_def stats_spare_def)
qed

lemma calibrate_case_file:
  assumes "calibrate_case w afl q use_mem handicap0 from_queue = Some (Inr (fault, afl'))"
    and "fsrv_pid afl \<noteq> 0" and "has_file f d afl" and "stats_keep w" and "stats_spare f w"
  shows "has_file f d afl'"
proof -
  have pid: "fsrv_pid (cal_start q afl) \<noteq> 0" using assms(2) by (simp add: cal_start_frame)
  have s0: "has_file f d (cal_start q afl)" using assms(3) by (simp add: cal_start_def Let_def)
  have prep: "has_file f d a" if "cal_prepare w q tmo v (cal_start q afl) = Inr (st, v', a)" for tmo v st v' a
    using that pid
  proof (rule cal_prepare_end)
    fix v1 a1 assume run: "(v1, a1) = (v, cal_start q afl) \<or> (\<exists>st. cal_run w q tmo v (cal_start q afl) = Inr (st, v1, a1))"
      and see: "(v', a) = (v1, a1) \<or> (\<exists>t. see_new_bits v1 (a1\<lparr>first_trace := t\<rparr>) = (v', a))"
    have "has_file f d a1" using run s0 cal_run_file by blast
    then show ?thesis using see by (auto simp: see_new_bits_eq has_new_bits_file)
  qed
  have loop: "has_file f d a"
    if "cal_loop w q tmo v1 (cal_enter a1) = Some (Inr (st, v, a))" "has_file f d a1" for tmo v1 a1 st v a
  proof -
    have "has_file f d (cal_enter a1)" using that(2) by simp
    from cal_loop_inv [where I = "\<lambda>_. has_file f d", OF _ this that(1) refl]
    show ?thesis using cal_round_file by blast
  qed
  have fin: "has_file f d a = has_file f d a2" if "cal_finish w q u h a2 = Inr a" for u h a2 a
    by (rule cal_finish_frame [OF that]) (simp_all add: has_file_def unrated_def upd_q_def)
  note ab = cal_abort_file [OF _ _ assms(4,5)]
  show ?thesis
    using assms(1)
  proof (cases rule: calibrate_case_end)
    case (1 first_run v a)
    then show ?thesis using ab prep by blast
  next
    case (2 first_run v1 a1 v a)
    then show ?thesis using ab loop prep by blast
  next
    case (3 first_run v1 a1 v2 a2 start_us v a)
    then have "has_file f d a" using fin [OF 3(4)] loop [OF 3(3) prep [OF 3(2)]] by blast
    then show ?thesis using ab [OF 3(1)] by blast
  qed
qed

section \<open>The entry of a new find\<close>

definition names :: "'a afl_queue_scheme \<Rightarrow> (string \<times> u32) list" where
  "names afl = map (\<lambda>e. (fname e, len e)) (queue_buf afl)"

lemma names_upd [simp]:
  "names (afl\<lparr>queued_with_cov := k\<rparr>) = names (afl :: 'a afl_run_scheme)" "names (afl'\<lparr>n_fuzz := nf\<rparr>) = names afl'"
  by (simp_all add: names_def)

lemma names_upd_q:
  assumes "\<And>e. fname (f e) = fname e \<and> len (f e) = len e"
  shows "names (upd_q f q afl) = names afl"
proof -
  have "map (\<lambda>e. (fname e, len e)) (xs[q := f (xs ! q)]) = map (\<lambda>e. (fname e, len e)) xs" for xs
    using assms by (cases "q < length xs") (simp_all add: map_update list_update_same_conv list_update_beyond)
  then show ?thesis by (simp add: upd_q_def names_def)
qed

lemma add_to_queue_names:
  fixes afl :: "'a afl_run_scheme"
  assumes "add_to_queue afl fn n det now = Inr afl'" and "custom_mutators_count afl = 0"
    and "unat (queued_items afl) = length (queue_buf afl)"
  shows "names afl' = names afl @ [(fn, n)] \<and> fs afl' = fs afl \<and> out_file afl' = out_file afl
    \<and> fsrv_pid afl' = fsrv_pid afl \<and> queue_top afl' = Some (length (queue_buf afl))"
proof -
  let ?qi = "length (queue_buf afl)"
  let ?q = "new_queue_entry afl fn n det"
  let ?l = "link_queue_entry ?qi ?q afl"
  define a where "a = note_find now (?l\<lparr>queue_buf := queue_buf afl @ [?q\<lparr>id_q := queued_items ?l - 1\<rparr>]\<rparr>)"
  have l: "queue_buf ?l = queue_buf afl" "fs ?l = fs afl" "out_file ?l = out_file afl" "fsrv_pid ?l = fsrv_pid afl"
    "queue_top ?l = Some ?qi" "custom_mutators_count ?l = 0"
    using assms(2) by (simp_all add: link_queue_entry_def Let_def)
  have a: "names a = names afl @ [(fn, n)]" "fs a = fs afl" "out_file a = out_file afl" "fsrv_pid a = fsrv_pid afl"
    "queue_top a = Some ?qi" "custom_mutators_count a = 0"
    using l by (simp_all add: a_def note_find_def new_queue_entry_def names_def)
  have "detect_text ?qi a = Inr afl'"
    using assms l(1) a(6) unfolding add_to_queue_def Let_def
    by (simp add: store_at_def bind_result_Inr_iff notify_custom_def flip: a_def)
  then obtain t where "afl' = a \<or> afl' = upd_q (\<lambda>e. e\<lparr>is_ascii := t\<rparr>) ?qi a"
    by (auto simp: detect_text_def bind_result_Inr_iff split: if_splits)
  moreover have "names (upd_q (\<lambda>e. e\<lparr>is_ascii := t\<rparr>) ?qi a) = names a" by (rule names_upd_q) simp
  ultimately show ?thesis using a by (auto simp: upd_q_def)
qed

lemma rate_new_entry_names:
  assumes "rate_new_entry w q v afl = Inr (v', afl')"
  shows "names afl' = names afl \<and> fs afl' = fs afl \<and> out_file afl' = out_file afl \<and> fsrv_pid afl' = fsrv_pid afl"
proof -
  have n: "names (upd_q (\<lambda>e. e\<lparr>has_new_cov := True\<rparr>) q x) = names x" "names (upd_q (\<lambda>e. e\<lparr>exec_cksum := c\<rparr>) q x) = names x"
    "names (upd_q (\<lambda>e. e\<lparr>n_fuzz_entry := i\<rparr>) q x) = names x" for c i and x :: "'a afl_save_scheme"
    by (rule names_upd_q; simp)+
  have u: "fs (upd_q f q x) = fs x" "out_file (upd_q f q x) = out_file x" "fsrv_pid (upd_q f q x) = fsrv_pid x"
    for f and x :: "'a afl_save_scheme" by (simp_all add: upd_q_def)
  show ?thesis
    using assms by (auto simp: rate_new_entry_def Let_def bind_result_Inr_iff n u split: if_splits)
qed

lemma describe_op_state:
  assumes "describe_op w afl nb k = Inr (desc, afl')"
  shows "\<exists>t l. afl' = afl\<lparr>ticks := t, custom_mutator_list := l\<rparr>"
proof -
  have keep: "afl = afl\<lparr>ticks := ticks afl, custom_mutator_list := custom_mutator_list afl\<rparr>" by simp
  show ?thesis
  proof (cases "syncing_party afl")
    case (Some p)
    then have "afl' = afl"
      using assms by (auto simp: describe_op_def Let_def bind_result_Inr_iff split: if_splits)
    then show ?thesis using keep by metis
  next
    case None
    then obtain r tm where src: "describe_source w k tm afl = Inr (r, afl')"
      using assms by (auto simp: describe_op_def Let_def bind_result_Inr_iff split: if_splits)
    let ?a = "afl\<lparr>ticks := ticks afl + 1\<rparr>"
    have "(\<exists>r i el f. describe_custom k tm r i el f ?a = Inr (r', afl')) \<or> afl' = ?a" if "r' = r" for r'
      using src that
      by (auto simp: describe_source_def get_cur_time_def bind_result_Inr_iff split: option.splits prod.splits if_splits) blast+
    then consider "\<exists>r0 i el f. describe_custom k tm r0 i el f ?a = Inr (r, afl')" | "afl' = ?a" by blast
    then show ?thesis
    proof cases
      case 1
      then obtain l where "afl' = ?a\<lparr>custom_mutator_list := l\<rparr>"
        by (auto simp: describe_custom_def Let_def bind_result_Inr_iff split: if_splits prod.splits)
      then show ?thesis by auto
    next
      case 2
      then have "afl' = afl\<lparr>ticks := ticks afl + 1, custom_mutator_list := custom_mutator_list afl\<rparr>" by simp
      then show ?thesis by blast
    qed
  qed
qed

lemma save_file_state:
  assumes "save_file w afl fn mem n = Inr afl'"
  shows "fs afl fn = None \<and> afl' = afl\<lparr>fs := (fs afl)(fn \<mapsto> ck_write (w_write w) mem (unat n))\<rparr> \<and> unat n \<le> length mem"
  using assms by (auto simp: save_file_def creat_excl_Inr split: if_splits)

lemma store_mem_names:
  fixes afl :: "'a afl_run_scheme"
  assumes "queue_testcase_store_mem afl q mem = Inr afl'"
  shows "names afl' = names afl \<and> fs afl' = fs afl"
proof -
  have n: "names (upd_q (\<lambda>e. e\<lparr>testcase_buf := b\<rparr>) q x) = names x" for b and x :: "'a afl_run_scheme"
    by (rule names_upd_q) simp
  have reg: "names (register_testcase q tid b k x) = names x \<and> fs (register_testcase q tid b k x) = fs x"
    for tid b k and x :: "'a afl_run_scheme"
  proof -
    have "names (register_testcase q tid b k x) = names (upd_q (\<lambda>e. e\<lparr>testcase_buf := Some b\<rparr>) q x)"
      by (simp add: register_testcase_def Let_def names_def)
    then have "names (register_testcase q tid b k x) = names x" using n by metis
    moreover have "fs (register_testcase q tid b k x) = fs x" by (simp add: register_testcase_def Let_def upd_q_def)
    ultimately show ?thesis by blast
  qed
  show ?thesis
    using assms reg by (auto simp: queue_testcase_store_mem_def Let_def bind_result_Inr_iff split: if_splits)
qed

lemma uncal_names: "uncal a = uncal b \<Longrightarrow> names a = names b"
  by (rule uncal_same [where P = names]) (simp_all add: names_def uncal_defs o_def)

lemma save_to_queue_entry:
  assumes save: "save_to_queue w v afl = Some (Inr (v', afl'))" and cm: "custom_mutators_count afl = 0"
    and items: "unat (queued_items afl) = length (queue_buf afl)" and pid: "fsrv_pid afl \<noteq> 0" and stats: "stats_keep w"
  shows "\<exists>desc data. names afl' = names afl @ [(queue_name (out_dir afl) (queued_items afl) desc, sv_len v)]
    \<and> fs afl (queue_name (out_dir afl) (queued_items afl) desc) = None
    \<and> data = ck_write (w_write w) (sv_mem v) (unat (sv_len v))
    \<and> (out_file afl \<noteq> Some (queue_name (out_dir afl) (queued_items afl) desc)
        \<and> stats_spare (queue_name (out_dir afl) (queued_items afl) desc) w
        \<longrightarrow> fs afl' (queue_name (out_dir afl) (queued_items afl) desc) = Some data)"
  using save
proof (rule save_to_queue_steps)
  fix desc a0 a1 now a2 a3 q v1 a4 res a5
  assume d: "describe_op w afl (sv_new_bits v + sv_is_timeout v) 245 = Inr (desc, a0)"
    and f: "save_file w a0 (queue_name (out_dir a0) (queued_items a0) desc) (sv_mem v) (sv_len v) = Inr a1"
    and t: "get_cur_time w a1 = (now, a2)"
    and add: "add_to_queue a2 (queue_name (out_dir a0) (queued_items a0) desc) (sv_len v) False now = Inr a3"
    and r: "rate_new_entry w q v a3 = Inr (v1, a4)"
    and c: "calibrate_case w a4 q (sv_mem v1) (ucast (queue_cycle a4 - 1)) False = Some (Inr (res, a5))"
    and fin: "afl' = a5 \<or> queue_testcase_store_mem a5 q (sv_mem v1) = Inr afl'"
  have a0: "out_dir a0 = out_dir afl" "queued_items a0 = queued_items afl" "queue_buf a0 = queue_buf afl" "fs a0 = fs afl"
    "out_file a0 = out_file afl" "fsrv_pid a0 = fsrv_pid afl" "custom_mutators_count a0 = 0"
    using describe_op_state [OF d] cm by auto
  define fn where "fn = queue_name (out_dir afl) (queued_items afl) desc"
  obtain data where a1: "data = ck_write (w_write w) (sv_mem v) (unat (sv_len v))" "fs a0 fn = None"
    "a1 = a0\<lparr>fs := (fs a0)(fn \<mapsto> data)\<rparr>"
    using save_file_state [OF f] a0 by (auto simp: fn_def)
  have a2: "a2 = a1\<lparr>ticks := ticks a1 + 1\<rparr>" using t by (simp add: get_cur_time_def)
  have "names a3 = names a2 @ [(fn, sv_len v)] \<and> fs a3 = fs a2 \<and> out_file a3 = out_file a2 \<and> fsrv_pid a3 = fsrv_pid a2
      \<and> queue_top a3 = Some (length (queue_buf a2))"
    by (rule add_to_queue_names [OF add [unfolded a0 fn_def [symmetric]]]) (use a0 items in \<open>simp_all add: a1(3) a2\<close>)
  moreover have "names a2 = names afl" by (simp add: a2 a1(3) a0 names_def)
  ultimately have a4: "names a4 = names afl @ [(fn, sv_len v)]" "fs a4 fn = Some data" "out_file a4 = out_file afl" "fsrv_pid a4 \<noteq> 0"
    using rate_new_entry_names [OF r] a0 pid by (simp_all add: a2 a1(3))
  have "names a5 = names a4" by (rule uncal_names [OF calibrate_case_uncal [OF c a4(4) stats]])
  then have n: "names afl' = names afl @ [(fn, sv_len v)]" and fs: "fs afl' = fs a5"
    using fin a4(1) store_mem_names [of a5 q "sv_mem v1" afl'] by auto
  have "fs afl' fn = Some data" if "out_file afl \<noteq> Some fn" "stats_spare fn w"
    using calibrate_case_file [OF c a4(4) _ stats that(2), of data] a4 that(1) fs by (simp add: has_file_def)
  then show ?thesis using n a1(1,2) a0(4) unfolding fn_def by metis
qed

section \<open>Lengths of names\<close>

lemma put_op_Inr: "length ret + length s < 256 \<Longrightarrow> put_op ret s = Inr (ret @ s)"
  by (simp add: put_op_def)

lemma dec_pad_length_le: "length (dec_digits n) \<le> m \<Longrightarrow> k \<le> m \<Longrightarrow> length (dec_pad k n) \<le> m"
  by (simp add: dec_pad_def)

lemma digits_u64: "length (dec_digits (unat (x :: u64))) \<le> 20"
proof -
  have "unat x < 10 ^ Suc 19" using unsigned_less [of x, where 'a = nat] by simp
  then show ?thesis using dec_digits_length [of "unat x" 19] by simp
qed

lemma digits_u32: "length (dec_pad 6 (unat (x :: u32))) \<le> 10"
proof -
  have "unat x < 10 ^ Suc 9" using unsigned_less [of x, where 'a = nat] by simp
  then show ?thesis using dec_digits_length [of "unat x" 9] by (intro dec_pad_length_le) simp_all
qed

definition s32_range :: "int \<Rightarrow> bool" where
  "s32_range i \<longleftrightarrow> - (2 ^ 31) \<le> i \<and> i < 2 ^ 31"

lemma digits_s32: "s32_range i \<Longrightarrow> length (dec_digits (nat \<bar>i\<bar>)) \<le> 10"
  using dec_digits_length [of "nat \<bar>i\<bar>" 9] by (simp add: s32_range_def nat_less_iff abs_if split: if_splits)

lemma dec_int_s32: "s32_range i \<Longrightarrow> length (dec_int i) \<le> 11" "s32_range i \<Longrightarrow> length (dec_signed i) \<le> 11"
  using digits_s32 [of i] by (auto simp: dec_int_def dec_signed_def)

lemma describe_stage_fits:
  assumes "length (stage_short afl) \<le> 100" and "s32_range (stage_cur_byte afl)" and "s32_range (stage_cur_val afl)"
    and "length ret \<le> 78"
  shows "\<exists>s. describe_stage ret afl = Inr s \<and> length s \<le> 217"
proof -
  note d = dec_int_s32 [OF assms(2)] dec_int_s32 [OF assms(3)]
  show ?thesis using assms(1,4) d by (auto simp: describe_stage_def put_op_Inr)
qed

lemma describe_source_fits:
  assumes "length (stage_short afl) \<le> 100" and "s32_range (stage_cur_byte afl)" and "s32_range (stage_cur_val afl)"
    and "s32_range (splicing_with afl)" and "current_custom_fuzz afl = None"
  shows "\<exists>s. describe_source w k tm afl = Inr (s, afl\<lparr>ticks := ticks afl + 1\<rparr>) \<and> length s \<le> 217"
proof -
  let ?a = "afl\<lparr>ticks := ticks afl + 1\<rparr>"
  define r1 where "r1 = ''src:'' @ dec_pad 6 (unat (current_entry afl))"
  define r2 where "r2 = (if 0 \<le> splicing_with afl then r1 @ ''+'' @ dec_pad 6 (nat (splicing_with afl)) else r1)"
  define r3 where "r3 = r2 @ '',time:'' @ dec_digits (unat (w_clock_us w (ticks afl) div 1000 + prev_run_time afl - start_time afl))
    @ '',execs:'' @ dec_digits (unat (total_execs afl))"
  have l1: "length r1 \<le> 14" using digits_u32 [of "current_entry afl"] by (simp add: r1_def)
  have l2: "length r2 \<le> 25"
    using l1 dec_pad_length_le [OF digits_s32 [OF assms(4)], of 6] by (cases "0 \<le> splicing_with afl") (simp_all add: r2_def)
  have l3: "length r3 \<le> 78"
    using l2 digits_u64 [of "w_clock_us w (ticks afl) div 1000 + prev_run_time afl - start_time afl"]
      digits_u64 [of "total_execs afl"] by (simp add: r3_def)
  obtain s where s: "describe_stage r3 ?a = Inr s" "length s \<le> 217"
    using describe_stage_fits [of ?a r3] assms l3 by auto
  have "put_op [] (''src:'' @ dec_pad 6 (unat (current_entry afl))) = Inr r1"
    using l1 by (simp add: put_op_def r1_def)
  moreover have "(if 0 \<le> splicing_with afl then put_op r1 (''+'' @ dec_pad 6 (nat (splicing_with afl))) else Inr r1) = Inr r2"
    using l2 by (cases "0 \<le> splicing_with afl") (simp_all add: put_op_def r2_def)
  moreover have "put_op r2 ('',time:'' @ dec_digits (unat (w_clock_us w (ticks afl) div 1000 + prev_run_time afl - start_time afl))
      @ '',execs:'' @ dec_digits (unat (total_execs afl))) = Inr r3"
    using l3 by (simp add: put_op_def r3_def)
  ultimately show ?thesis
    using s assms(5) unfolding describe_source_def get_cur_time_def by (simp add: custom_describer_def)
qed

lemma describe_op_ok:
  assumes "length (stage_short afl) \<le> 100" and "s32_range (stage_cur_byte afl)" and "s32_range (stage_cur_val afl)"
    and "s32_range (splicing_with afl)" and "current_custom_fuzz afl = None" and "syncing_party afl = None" and "228 < k"
  shows "\<exists>desc. describe_op w afl new_bits k = Inr (desc, afl\<lparr>ticks := ticks afl + 1\<rparr>) \<and> length desc \<le> 228"
proof -
  let ?t = "new_bits AND 0xf0 \<noteq> 0"
  obtain s where s: "describe_source w k ?t afl = Inr (s, afl\<lparr>ticks := ticks afl + 1\<rparr>)" "length s \<le> 217"
    using describe_source_fits [OF assms(1-5)] by blast
  define s1 where "s1 = (if ?t then s @ '',+tout'' else s)"
  have l1: "length s1 \<le> 223" using s(2) by (simp add: s1_def)
  have "(if ?t then put_op s '',+tout'' else Inr s) = Inr s1" using s(2) by (simp add: put_op_def s1_def)
  then show ?thesis
    using s l1 assms(6,7) by (cases ?t) (auto simp: describe_op_def Let_def put_op_def)
qed

section \<open>Properties\<close>

text \<open>(C15)
  An ordinary run is kept exactly when its classified coverage shows something new in \<open>virgin_bits\<close>: otherwise
  \<open>save_if_interesting\<close> returns 0 at once and changes nothing but the trace buffer and, for the schedules that count paths,
  \<open>n_fuzz\<close>.
\<close>

theorem save_only_new_coverage:
  assumes "cov_wf afl" and "paths_ok afl" and "n \<noteq> 0" and "crash_mode afl = FSRV_RUN_OK"
  shows "(fst (has_new_bits (classify_counts afl) Virgin_bits) = 0 \<longrightarrow>
      (\<exists>t nf. save_if_interesting rnd w afl mem n FSRV_RUN_OK = Some (Inr (False, afl\<lparr>trace_bits := t, n_fuzz := nf\<rparr>))))
    \<and> (fst (has_new_bits (classify_counts afl) Virgin_bits) \<noteq> 0 \<longrightarrow>
      (\<forall>kept afl'. save_if_interesting rnd w afl mem n FSRV_RUN_OK = Some (Inr (kept, afl')) \<longrightarrow> kept))"
proof -
  obtain v nf where v: "count_path w (save_vars0 mem n FSRV_RUN_OK) afl
      = Inr (v, if sv_classified v then (classify_counts afl)\<lparr>n_fuzz := nf\<rparr> else afl)" "sv_fault v = FSRV_RUN_OK"
    using count_path_eq [OF assms(2)] by metis
  let ?a = "if sv_classified v then (classify_counts afl)\<lparr>n_fuzz := nf\<rparr> else afl"
  obtain v' a where look: "look_for_new_bits v ?a = (v', a)" by (cases "look_for_new_bits v ?a")
  note l = look_for_new_bits_spec [OF assms(1) look]
  have cm: "crash_mode ?a = FSRV_RUN_OK" using assms(4) by (simp add: classify_counts_def)
  have run: "save_if_interesting rnd w afl mem n FSRV_RUN_OK
      = (if sv_new_bits v' = 0 then Some (Inr (False, if crash_mode a \<noteq> FSRV_RUN_OK
                                        then a\<lparr>total_crashes := total_crashes a + 1\<rparr> else a))
         else save_loop rnd w True v' a)"
    using assms(3) v(1) cm look by (simp add: save_if_interesting_def del: if_split)
  show ?thesis
  proof (intro conjI impI allI)
    assume "fst (has_new_bits (classify_counts afl) Virgin_bits) = 0"
    then have z: "sv_new_bits v' = 0" using l(1) by simp
    obtain t nf' where a: "a = afl\<lparr>trace_bits := t, n_fuzz := nf'\<rparr>" using l(2) [OF z] by blast
    show "\<exists>t nf. save_if_interesting rnd w afl mem n FSRV_RUN_OK = Some (Inr (False, afl\<lparr>trace_bits := t, n_fuzz := nf\<rparr>))"
      using z assms(4) by (intro exI [of _ t] exI [of _ nf']) (simp add: run a)
  next
    fix kept afl'
    assume "fst (has_new_bits (classify_counts afl) Virgin_bits) \<noteq> 0"
      and "save_if_interesting rnd w afl mem n FSRV_RUN_OK = Some (Inr (kept, afl'))"
    then show kept using save_loop_ok [of v' rnd w a kept afl'] l(1,3) v(2) run by simp
  qed
qed

text \<open>
  The name of a find made locally always fits: with no custom description and a short stage name, \<open>describe_op\<close> neither
  writes past its buffer of 256 bytes nor aborts, for every value of the counters and both flags, whichever of the two
  limits it is called with.
\<close>

theorem describe_op_fits:
  assumes "length (stage_short afl) \<le> 100" and "s32_range (stage_cur_byte afl)" and "s32_range (stage_cur_val afl)"
    and "s32_range (splicing_with afl)" and "current_custom_fuzz afl = None" and "syncing_party afl = None"
    and "k = NAME_MAX - 10 \<or> k = NAME_MAX - 17"
  shows "\<exists>desc. describe_op w afl new_bits k = Inr (desc, afl\<lparr>ticks := ticks afl + 1\<rparr>) \<and> length desc \<le> 228"
  using assms(7) by (intro describe_op_ok [OF assms(1-6)]) auto

text \<open>(C36)
  The name of a case taken over from another fuzzer is limited too late: the directory name of the other fuzzer is copied
  without a bound, so a name of 240 characters or more, which a file system allows, is written past the end of
  \<open>describe_op_buf_256\<close> before the length is looked at.
\<close>

theorem describe_op_sync_overflow:
  assumes "syncing_party afl = Some party" and "240 \<le> length party"
  shows "describe_op w afl new_bits k = Inl (Out_of_bounds ''describe_op_buf_256'')"
proof -
  have "6 \<le> length (dec_pad 6 (unat (syncing_case afl)))" by (simp add: dec_pad_def)
  then have "put_op [] (''sync:'' @ party @ '',src:'' @ dec_pad 6 (unat (syncing_case afl))) = Inl (Out_of_bounds ''describe_op_buf_256'')"
    using assms(2) by (simp add: put_op_def)
  then show ?thesis by (simp add: describe_op_def Let_def assms(1))
qed

definition save_demo :: afl_save where
  "save_demo = afl_run.extend cal_demo
     \<lparr>total_crashes = 0, saved_crashes = 0, total_tmouts = 0, saved_tmouts = 0, saved_hangs = 0, last_crash_time = 0,
      last_crash_execs = 0, last_hang_time = 0, hang_tmout = 2000, afl_ignore_timeouts = False, afl_keep_timeouts = False,
      afl_no_crash_readme = 0, prev_run_time = 0, syncing_case = 0, current_entry = 3, splicing_with = - 1,
      stage_short = ''havoc'', stage_cur_byte = - 1, stage_cur_val = 4, stage_val_type = STAGE_VAL_NONE,
      current_custom_fuzz = None, orig_cmdline = ''./afl-fuzz'', mem_limit = 0, subseq_tmouts = 0, cur_skipped_items = 0,
      skip_requested = False\<rparr>"

lemma save_demo_fields:
  "map_size save_demo = 64" "trace_bits save_demo = [5, 1] @ replicate 62 0" "real_map_size save_demo = 64"
  "fsrv_pid save_demo = 7" "crash_mode save_demo = FSRV_RUN_OK" "virgin_bits save_demo = replicate 64 255"
  "virgin_crash save_demo = replicate 64 255" "virgin_tmout save_demo = replicate 64 255" "var_bytes save_demo = replicate 64 0"
  "schedule save_demo = EXPLORE" "exec_tmout save_demo = 1000" "hang_tmout save_demo = 2000" "saved_hangs save_demo = 0"
  "saved_crashes save_demo = 0" "\<not> afl_ignore_timeouts save_demo" "non_instrumented_mode save_demo = False"
  by (simp_all add: save_demo_def afl_run.extend_def cal_demo_fields)
    (simp_all add: cal_demo_def run_demo_def afl_one.extend_def one_demo_def afl_extras.extend_def extras_demo_def
      afl_tc.extend_def tc_demo_def afl_queue.extend_def queue_demo_def afl_cov.extend_def cov_demo_def)

lemma save_demo_names:
  "length (stage_short save_demo) \<le> 100" "s32_range (stage_cur_byte save_demo)" "s32_range (stage_cur_val save_demo)"
  "s32_range (splicing_with save_demo)" "current_custom_fuzz save_demo = None" "syncing_party save_demo = None"
  by (simp_all add: save_demo_def afl_run.extend_def s32_range_def)
    (simp add: cal_demo_def run_demo_def afl_one.extend_def one_demo_def afl_extras.extend_def extras_demo_def
      afl_tc.extend_def tc_demo_def afl_queue.extend_def queue_demo_def afl_cov.extend_def cov_demo_def)

theorem describe_op_fits_witness:
  "\<exists>desc. describe_op (demo_world (\<lambda>_ _ _. ok_reply [1, 2])) save_demo 2 (NAME_MAX - 10)
     = Inr (desc, save_demo\<lparr>ticks := ticks save_demo + 1\<rparr>) \<and> length desc \<le> 228"
  by (rule describe_op_fits [OF save_demo_names]) simp

theorem describe_op_sync_overflow_witness:
  "describe_op (demo_world (\<lambda>_ _ _. ok_reply [1, 2])) (save_demo\<lparr>syncing_party := Some (replicate 240 (CHR ''a''))\<rparr>) 0 245
     = Inl (Out_of_bounds ''describe_op_buf_256'')"
  by (rule describe_op_sync_overflow [where party = "replicate 240 (CHR ''a'')"]) simp_all

lemma save_demo_paths: "paths_ok (save_demo\<lparr>virgin_bits := v\<rparr>)"
  by (simp add: paths_ok_def save_demo_fields schedule_order)

lemma novelty_spent: "novelty cur (replicate k 0) = 0"
proof -
  have "v = 0" if "(c, v) \<in> set (zip cur (replicate k (0 :: u8)))" for c v using set_zip_rightD [OF that] by simp
  then show ?thesis by (force simp: novelty_def list_ex_iff)
qed

theorem save_only_new_coverage_witness:
  "\<exists>t nf. save_if_interesting (\<lambda>x. x) (demo_world (\<lambda>_ _ _. ok_reply [1, 2])) (save_demo\<lparr>virgin_bits := replicate 64 0\<rparr>)
       [1, 2, 3] 3 FSRV_RUN_OK
     = Some (Inr (False, save_demo\<lparr>virgin_bits := replicate 64 0, trace_bits := t, n_fuzz := nf\<rparr>))"
proof -
  let ?a = "save_demo\<lparr>virgin_bits := replicate 64 0\<rparr>"
  have wf: "cov_wf ?a" by (simp add: cov_wf_def save_demo_fields)
  have "fst (has_new_bits (classify_counts ?a) Virgin_bits) = 0"
    unfolding has_new_bits_ret [OF classify_counts_wf [OF wf]] by (simp add: novelty_spent classify_counts_def)
  then show ?thesis
    using save_only_new_coverage [OF wf save_demo_paths, of 3 "\<lambda>x. x" "demo_world (\<lambda>_ _ _. ok_reply [1, 2])" "[1, 2, 3]"]
    by (simp add: save_demo_fields)
qed

end
