(* ===== verification/Afl_Hangs.thy ===== *)
theory Afl_Hangs
  imports Afl_Save
begin

unbundle bit_operations_syntax

text \<open>
  The loop of \<open>save_if_interesting\<close>: what one pass from \<open>save_to_queue\<close> to the \<open>switch\<close> leaves alone, why the loop ends
  in an instrumented session, why it does not in a non-instrumented one with \<open>AFL_KEEP_TIMEOUTS\<close>, and that a crash is saved
  once.
\<close>

section \<open>What a pass leaves alone\<close>

text \<open>First the new queue entry alone, then with its calibration.\<close>

definition unadded :: "'a afl_save_scheme \<Rightarrow> 'a afl_save_scheme" where
  "unadded afl = afl\<lparr>queue_buf := [], queue := None, queue_top := None, queued_items := 0, active_items := 0,
     pending_not_fuzzed := 0, cycles_wo_finds := 0, max_depth := 0, ready_for_splicing_count := 0, longest_find_time := 0,
     last_find_time := 0, n_fuzz := [], q_testcase_cache := [], q_testcase_cache_size := 0, q_testcase_cache_count := 0,
     q_testcase_max_cache_count := 0, q_testcase_smallest_free := 0, fs := Map.empty, ticks := 0, custom_mutator_list := [],
     queued_with_cov := 0\<rparr>"

definition unsaved :: "'a afl_save_scheme \<Rightarrow> 'a afl_save_scheme" where
  "unsaved afl = uncal (unadded afl)"

lemmas unsaved_defs = unsaved_def unadded_def uncal_defs

lemma unadded_same: "unadded a = unadded b \<Longrightarrow> (\<And>x. P (unadded x) = P x) \<Longrightarrow> P a = P b"
  by metis

lemma unsaved_same: "unsaved a = unsaved b \<Longrightarrow> (\<And>x. P (unsaved x) = P x) \<Longrightarrow> P a = P b"
  by metis

lemma unadded_upd [simp]:
  "unadded (afl\<lparr>fs := f\<rparr>) = unadded afl" "unadded (afl\<lparr>ticks := t\<rparr>) = unadded afl"
  "unadded (afl\<lparr>custom_mutator_list := l\<rparr>) = unadded afl" "unadded (afl\<lparr>n_fuzz := nf\<rparr>) = unadded afl"
  "unadded (afl\<lparr>queued_with_cov := c\<rparr>) = unadded afl" "unadded (afl\<lparr>queue_buf := qs\<rparr>) = unadded afl"
  by (simp_all add: unadded_def)

lemma unadded_upd_q [simp]: "unadded (upd_q f q afl) = unadded afl"
  by (simp add: upd_q_def)

lemma notify_custom_unadded:
  fixes afl :: "'a afl_save_scheme"
  assumes "notify_custom qi fn afl = Inr afl'"
  shows "unadded afl' = unadded afl"
proof -
  have run: "unadded b = unadded a" if "run_afl_custom_queue_new_entry a q fn m = Inr b" for q m and a b :: "'a afl_save_scheme"
  proof -
    obtain u files where "custom_hooks (custom_queue_new_entry a) fn m False (fs a) = (u, files)"
      by (cases "custom_hooks (custom_queue_new_entry a) fn m False (fs a)")
    then show ?thesis
      using that by (auto simp: run_afl_custom_queue_new_entry_def Let_def split: if_splits option.splits)
  qed
  show ?thesis
    using assms by (auto simp: notify_custom_def bind_result_Inr_iff dest: run split: if_splits option.splits)
qed

lemma add_to_queue_unadded:
  fixes afl :: "'a afl_save_scheme"
  assumes "add_to_queue afl fn n det now = Inr afl'"
  shows "unadded afl' = unadded afl"
proof -
  let ?qi = "unat (queued_items afl + 1 - 1)"
  let ?q = "new_queue_entry afl fn n det"
  let ?l = "link_queue_entry ?qi ?q afl"
  have l: "unadded ?l = unadded afl" by (simp add: link_queue_entry_def Let_def unadded_def)
  obtain buf a where a: "notify_custom ?qi fn (note_find now (?l\<lparr>queue_buf := buf\<rparr>)) = Inr a" "detect_text ?qi a = Inr afl'"
    using assms by (auto simp: add_to_queue_def Let_def bind_result_Inr_iff)
  have nf: "unadded (note_find now (?l\<lparr>queue_buf := buf\<rparr>)) = unadded ?l" by (simp add: note_find_def unadded_def)
  have "unadded a = unadded (note_find now (?l\<lparr>queue_buf := buf\<rparr>))"
    by (rule notify_custom_unadded [OF a(1)])
  moreover have "unadded afl' = unadded a"
    using a(2) by (auto simp: detect_text_def bind_result_Inr_iff split: if_splits)
  ultimately show ?thesis using l nf by simp
qed

lemma rate_new_entry_unadded: "rate_new_entry w q v afl = Inr (v', afl') \<Longrightarrow> unadded afl' = unadded afl"
  by (auto simp: rate_new_entry_def Let_def bind_result_Inr_iff split: if_splits)

lemma store_mem_unadded:
  fixes afl :: "'a afl_save_scheme"
  assumes "queue_testcase_store_mem afl q mem = Inr afl'"
  shows "unadded afl' = unadded afl"
proof -
  have "unadded (register_testcase q tid b k x) = unadded (upd_q (\<lambda>e. e\<lparr>testcase_buf := Some b\<rparr>) q x)" for tid b k and x :: "'a afl_save_scheme"
    by (simp add: register_testcase_def Let_def unadded_def)
  then show ?thesis
    using assms by (auto simp: queue_testcase_store_mem_def Let_def bind_result_Inr_iff split: if_splits)
qed

lemma unadded_unsaved: "unadded a = unadded b \<Longrightarrow> unsaved a = unsaved b"
  by (simp add: unsaved_def)

lemma uncal_unsaved:
  assumes "uncal a = uncal (b :: 'a afl_save_scheme)"
  shows "unsaved a = unsaved b"
proof -
  have "unsaved x = unsaved (uncal x)" for x :: "'a afl_save_scheme" by (simp add: unsaved_defs)
  then show ?thesis using assms by metis
qed

text \<open>A save splits into the steps before the calibration, the calibration, and a step after it.\<close>

lemma save_to_queue_split:
  assumes "save_to_queue w v afl = Some (Inr (v', afl'))"
  obtains a q mem h res b where "unadded a = unadded afl" "calibrate_case w a q mem h False = Some (Inr (res, b))"
    "unadded afl' = unadded b"
  using assms
proof (rule save_to_queue_steps)
  fix desc a0 a1 now a2 a3 q v1 a4 res a5
  assume d: "describe_op w afl (sv_new_bits v + sv_is_timeout v) 245 = Inr (desc, a0)"
    and f: "save_file w a0 (queue_name (out_dir a0) (queued_items a0) desc) (sv_mem v) (sv_len v) = Inr a1"
    and t: "get_cur_time w a1 = (now, a2)"
    and add: "add_to_queue a2 (queue_name (out_dir a0) (queued_items a0) desc) (sv_len v) False now = Inr a3"
    and r: "rate_new_entry w q v a3 = Inr (v1, a4)"
    and c: "calibrate_case w a4 q (sv_mem v1) (ucast (queue_cycle a4 - 1)) False = Some (Inr (res, a5))"
    and fin: "afl' = a5 \<or> queue_testcase_store_mem a5 q (sv_mem v1) = Inr afl'"
  have "unadded a0 = unadded afl" using describe_op_state [OF d] by auto
  moreover have "unadded a1 = unadded a0" using save_file_state [OF f] by auto
  moreover have "unadded a2 = unadded a1" using t by (auto simp: get_cur_time_def)
  ultimately have a4: "unadded a4 = unadded afl"
    using add_to_queue_unadded [OF add] rate_new_entry_unadded [OF r] by simp
  have "unadded afl' = unadded a5" using fin store_mem_unadded [of a5 q "sv_mem v1" afl'] by auto
  with a4 c show thesis by (rule that)
qed

lemma save_to_queue_unsaved:
  assumes save: "save_to_queue w v afl = Some (Inr (v', afl'))" and pid: "fsrv_pid afl \<noteq> 0" and stats: "stats_keep w"
  shows "unsaved afl' = unsaved afl"
  using save
proof (rule save_to_queue_split)
  fix a q mem h res b assume a: "unadded a = unadded afl" and c: "calibrate_case w a q mem h False = Some (Inr (res, b))"
    and fin: "unadded afl' = unadded b"
  have "fsrv_pid a = fsrv_pid afl" by (rule unadded_same [OF a]) (simp add: unadded_def)
  then have "unsaved b = unsaved a" using calibrate_case_uncal [OF c _ stats] pid by (intro uncal_unsaved) simp
  then show ?thesis using unadded_unsaved [OF a] unadded_unsaved [OF fin] by simp
qed

lemma rested_unsaved:
  assumes "rested a = rested (b :: 'a afl_save_scheme)"
  shows "unsaved a = unsaved b"
proof -
  have "unsaved x = unsaved (rested x)" for x :: "'a afl_save_scheme" by (simp add: unsaved_defs)
  then show ?thesis using assms by metis
qed

lemma write_rested:
  assumes "write_to_testcase w afl mem n fr = Inr (m, k, afl')"
  shows "rested afl' = rested afl"
  using arg_cong [OF write_to_testcase_unsent [OF assms], of idle] by (simp add: rested_def idle_unsent)

lemma write_trace:
  assumes "write_to_testcase w afl mem n fr = Inr (m, k, afl')"
  shows "trace_bits afl' = trace_bits afl"
  by (rule unsent_same [OF write_to_testcase_unsent [OF assms]]) (simp add: unsent_def)

lemma run_rested:
  assumes "fuzz_run_target w afl tmo = Inr (r, afl')"
  shows "rested afl' = rested afl" and "length (trace_bits afl') = length (trace_bits afl)"
  using run_target_idle [OF assms] by (simp_all add: rested_def)

lemma rerun_hang_steps:
  assumes "rerun_hang w v afl = Inr (r, v', afl')"
  obtains a1 a2 where "fuzz_run_target w a1 (hang_tmout a1) = Inr (r, a2)" "rested a1 = rested afl"
    "trace_bits a1 = trace_bits afl" "afl' = classify_counts a2" "\<exists>m n. v' = v\<lparr>sv_mem := m, sv_len := n\<rparr>"
proof -
  obtain m1 k1 b1 m k a1 a2 where w1: "write_to_testcase w afl (sv_mem v) (sv_len v) False = Inr (m1, k1, b1)"
    and w2: "(if k1 \<noteq> 0 then Inr (m1, k1, b1) else write_to_testcase w b1 m1 (sv_len v) True) = Inr (m, k, a1)"
    and run: "fuzz_run_target w a1 (hang_tmout a1) = Inr (r, a2)"
    and res: "afl' = classify_counts a2" "v' = v\<lparr>sv_mem := m, sv_len := k\<rparr>"
    using assms by (auto simp: rerun_hang_def bind_result_Inr_iff)
  have "rested a1 = rested afl" "trace_bits a1 = trace_bits afl"
    using w2 write_rested [OF w1] write_trace [OF w1] write_rested [of w b1 m1 "sv_len v" True m k a1]
      write_trace [of w b1 m1 "sv_len v" True m k a1]
    by (auto split: if_splits)
  with run res show thesis by (intro that [of a1 a2]) auto
qed

lemma rerun_hang_unsaved:
  assumes "rerun_hang w v afl = Inr (r, v', afl')"
  shows "unsaved afl' = unsaved afl"
  using assms
proof (rule rerun_hang_steps)
  fix a1 a2 assume run: "fuzz_run_target w a1 (hang_tmout a1) = Inr (r, a2)" and r: "rested a1 = rested afl"
    and a: "afl' = classify_counts a2"
  have "unsaved a2 = unsaved afl" using run_rested(1) [OF run] r by (intro rested_unsaved) simp
  moreover have "unsaved (x\<lparr>trace_bits := t\<rparr>) = unsaved x" for t and x :: "'a afl_save_scheme" by (simp add: unsaved_defs)
  ultimately show ?thesis by (simp add: a classify_counts_def)
qed

section \<open>A session that never gets out\<close>

text \<open>A non-instrumented session with \<open>AFL_KEEP_TIMEOUTS\<close> and an input that the short limit cuts off.\<close>

definition keeps_slow_inputs :: "u32 \<Rightarrow> 'a afl_save_scheme \<Rightarrow> bool" where
  "keeps_slow_inputs h afl \<longleftrightarrow> non_instrumented_mode afl \<and> afl_keep_timeouts afl \<and> hang_tmout afl = h \<and> exec_tmout afl < h
     \<and> saved_hangs afl < KEEP_UNIQUE_HANG \<and> fsrv_pid afl \<noteq> 0"

text \<open>The target needs at most the long limit and does not crash.\<close>

definition slow_but_fine :: "u32 \<Rightarrow> target \<Rightarrow> 'a afl_save_scheme \<Rightarrow> bool" where
  "slow_but_fine h tgt afl \<longleftrightarrow> (\<forall>k input. exec_time (tgt k input h) \<le> h \<and> \<not> crashed afl (status_read (tgt k input h)))"

lemma unsaved_slow:
  "keeps_slow_inputs h (unsaved afl) = keeps_slow_inputs h afl" "slow_but_fine h tgt (unsaved afl) = slow_but_fine h tgt afl"
  by (simp_all add: keeps_slow_inputs_def slow_but_fine_def crashed_def unsaved_defs)

lemma slow_run:
  assumes "fuzz_run_target w afl h = Inr (r, afl')" and "slow_but_fine h (w_target w) afl"
  shows "r \<noteq> FSRV_RUN_TMOUT \<and> r \<noteq> FSRV_RUN_CRASH"
proof -
  have fine: "\<not> h < exec_time (w_target w k i h)" "\<not> crashed afl (status_read (w_target w k i h))" for k i
    using assms(2) by (auto simp: slow_but_fine_def not_less)
  have out: "r \<noteq> FSRV_RUN_TMOUT \<and> r \<noteq> FSRV_RUN_CRASH"
    if "run_outcome a = (r, b)" "\<not> last_run_timed_out a" "\<not> crashed a (child_status a)" for a b :: "'a afl_save_scheme" and r
    using that run_outcome_eq [of a] by (auto simp: outcome_of_def split: if_splits)
  show ?thesis
    using assms(1) fine unfolding fuzz_run_target_def afl_fsrv_run_target_def Let_def pipe_failure_def
    by (auto simp: crashed_def clear_trace_def split: if_splits option.splits dest!: out)
qed

lemma slow_upd [simp]:
  "keeps_slow_inputs h (afl\<lparr>total_tmouts := a\<rparr>) = keeps_slow_inputs h afl"
  "keeps_slow_inputs h (afl\<lparr>saved_tmouts := a\<rparr>) = keeps_slow_inputs h afl"
  "slow_but_fine h tgt (afl\<lparr>total_tmouts := a\<rparr>) = slow_but_fine h tgt afl"
  "slow_but_fine h tgt (afl\<lparr>saved_tmouts := a\<rparr>) = slow_but_fine h tgt afl"
  by (simp_all add: keeps_slow_inputs_def slow_but_fine_def crashed_def)

lemma slow_pass:
  assumes slow: "keeps_slow_inputs h afl" "slow_but_fine h (w_target w) afl" and v: "sv_fault v = FSRV_RUN_TMOUT"
    and pass: "handle_fault rnd w v afl = Inr (next, v', afl')"
  shows "next = Sv_again \<and> sv_fault v' = FSRV_RUN_TMOUT \<and> keeps_slow_inputs h afl' \<and> slow_but_fine h (w_target w) afl'"
proof -
  let ?a = "afl\<lparr>total_tmouts := total_tmouts afl + 1\<rparr>" and ?v = "v\<lparr>sv_is_timeout := 0x80\<rparr>"
  have f: "non_instrumented_mode afl" "\<not> KEEP_UNIQUE_HANG \<le> saved_hangs afl" "exec_tmout afl < hang_tmout afl"
    "hang_tmout afl = h"
    using slow(1) by (simp_all add: keeps_slow_inputs_def not_le)
  from pass obtain r v1 a1 where rerun: "rerun_hang w ?v ?a = Inr (r, v1, a1)"
    and rest: "(if \<not> stop_soon a1 \<and> r = FSRV_RUN_CRASH then keep_as_crash rnd w v1 a1
            else if stop_soon a1 \<or> r \<noteq> FSRV_RUN_TMOUT then
              Inr (if afl_keep_timeouts a1 then (Sv_again, v1, a1\<lparr>saved_tmouts := saved_tmouts a1 + 1\<rparr>)
                   else (Sv_return, v1, a1))
            else name_hang w v1 a1) = Inr (next, v', afl')"
    using v f(1,2,3) by (auto simp: handle_fault_def keep_as_hang_def Let_def seen_before_def bind_result_Inr_iff)
  have u: "unsaved a1 = unsaved ?a" by (rule rerun_hang_unsaved [OF rerun])
  have a1: "keeps_slow_inputs h a1 = keeps_slow_inputs h ?a" "slow_but_fine h (w_target w) a1 = slow_but_fine h (w_target w) ?a"
    by (rule unsaved_same [OF u]; rule unsaved_slow)+
  have r: "r \<noteq> FSRV_RUN_TMOUT \<and> r \<noteq> FSRV_RUN_CRASH" and v1: "sv_fault v1 = FSRV_RUN_TMOUT"
    using rerun
  proof (atomize (full), rule rerun_hang_steps)
    fix b1 b2 assume run: "fuzz_run_target w b1 (hang_tmout b1) = Inr (r, b2)" and rb: "rested b1 = rested ?a"
      and vv: "\<exists>m n. v1 = ?v\<lparr>sv_mem := m, sv_len := n\<rparr>"
    note ub = rested_unsaved [OF rb]
    have b1: "hang_tmout b1 = hang_tmout ?a" "slow_but_fine h (w_target w) b1 = slow_but_fine h (w_target w) ?a"
      by (rule unsaved_same [OF ub]; simp add: unsaved_defs slow_but_fine_def crashed_def)+
    have "r \<noteq> FSRV_RUN_TMOUT \<and> r \<noteq> FSRV_RUN_CRASH"
      by (rule slow_run [of w b1 h r b2]) (use run b1 f(4) slow(2) in simp_all)
    then show "(r \<noteq> FSRV_RUN_TMOUT \<and> r \<noteq> FSRV_RUN_CRASH) \<and> sv_fault v1 = FSRV_RUN_TMOUT" using vv v by auto
  qed
  have "afl_keep_timeouts a1" using a1(1) slow(1) by (simp add: keeps_slow_inputs_def)
  then have "next = Sv_again" "v' = v1" "afl' = a1\<lparr>saved_tmouts := saved_tmouts a1 + 1\<rparr>" using rest r by auto
  then show ?thesis using a1 slow v1 by simp
qed

lemma slow_loop:
  assumes "save_loop rnd w queue_it v afl = Some r" and "stats_keep w"
  shows "keeps_slow_inputs h afl \<and> slow_but_fine h (w_target w) afl \<and> sv_fault v = FSRV_RUN_TMOUT \<Longrightarrow> r \<noteq> Inr x"
proof -
  let ?E = "\<lambda>v a. keeps_slow_inputs h a \<and> slow_but_fine h (w_target w) a \<and> sv_fault v = FSRV_RUN_TMOUT"
  let ?P = "\<lambda>rnd1 w1 qi v a r. rnd1 = rnd \<and> w1 = w \<and> ?E v a \<longrightarrow> (\<forall>x. r \<noteq> Inr x)"
  have "?P rnd w queue_it v afl r"
    apply (rule save_loop.raw_induct [where P = ?P, OF _ assms(1)])
    subgoal premises prems for f rnd1 w1 qi v a r
    proof (intro impI)
      assume h: "rnd1 = rnd \<and> w1 = w \<and> ?E v a"
      then have eqs: "rnd1 = rnd" "w1 = w" by auto
      note step = prems(2) [unfolded eqs]
      let ?q = "if qi then save_to_queue w v a else Some (Inr (v, a))"
      show "\<forall>x. r \<noteq> Inr x"
      proof (cases "\<exists>v1 a1. ?q = Some (Inr (v1, a1))")
        case False
        then show ?thesis using step by (auto split: option.splits sum.splits prod.splits simp del: if_split)
      next
        case True
        then obtain v1 a1 where q: "?q = Some (Inr (v1, a1))" by blast
        have e1: "?E v1 a1"
        proof (cases qi)
          case True
          then have sq: "save_to_queue w v a = Some (Inr (v1, a1))" using q by simp
          have "fsrv_pid a \<noteq> 0" using h by (simp add: keeps_slow_inputs_def)
          note u = save_to_queue_unsaved [OF sq this assms(2)]
          have "keeps_slow_inputs h a1 = keeps_slow_inputs h a" "slow_but_fine h (w_target w) a1 = slow_but_fine h (w_target w) a"
            by (rule unsaved_same [OF u]; rule unsaved_slow)+
          then show ?thesis using h save_to_queue_vars [OF sq] by auto
        qed (use q h in simp)
        show ?thesis
        proof (cases "handle_fault rnd w v1 a1")
          case (Inl err)
          then show ?thesis using step q by (auto simp del: if_split)
        next
          case (Inr y)
          obtain nxt v2 a2 where y: "y = (nxt, v2, a2)" by (cases y)
          have p: "nxt = Sv_again" "?E v2 a2" using slow_pass [of h a1 w v1 rnd nxt v2 a2] e1 Inr y by simp_all
          have "f rnd w True v2 a2 = Some r" using step q Inr y p(1) by (simp del: if_split)
          from prems(1) [OF this] show ?thesis using p(2) by blast
        qed
      qed
    qed
    done
  then show "?E v afl \<Longrightarrow> r \<noteq> Inr x" by blast
qed

section \<open>Termination\<close>

text \<open>The number of bits a virgin map has left.\<close>

definition virgin_left :: "bytes \<Rightarrow> nat" where
  "virgin_left vs = (\<Sum>v \<leftarrow> vs. byte_popcount v)"

lemma byte_popcount_card: "byte_popcount b = card {i. i < 8 \<and> bit b i}"
proof -
  have "byte_popcount b = card (set (filter (bit b) [0..<8]))"
    unfolding byte_popcount_def by (rule distinct_card [symmetric]) simp
  then show ?thesis by (simp add: conj_commute)
qed

lemma popcount_clear:
  "byte_popcount (v AND NOT c) \<le> byte_popcount v" "c AND v \<noteq> 0 \<Longrightarrow> byte_popcount (v AND NOT c) < byte_popcount v"
proof -
  have sub: "{i. i < 8 \<and> bit (v AND NOT c) i} \<subseteq> {i. i < 8 \<and> bit v i}" by (auto simp: bit_simps)
  show "byte_popcount (v AND NOT c) \<le> byte_popcount v"
    unfolding byte_popcount_card by (rule card_mono [OF _ sub]) simp
  assume "c AND v \<noteq> 0"
  then obtain i where i: "bit (c AND v) i" using bit_eq_iff [of "c AND v" 0] by auto
  then have "i < 8" using bit_imp_le_length [OF i] by simp
  with i have "i \<in> {i. i < 8 \<and> bit v i} - {i. i < 8 \<and> bit (v AND NOT c) i}" by (auto simp: bit_simps)
  with sub have "{i. i < 8 \<and> bit (v AND NOT c) i} \<subset> {i. i < 8 \<and> bit v i}" by blast
  then show "byte_popcount (v AND NOT c) < byte_popcount v"
    unfolding byte_popcount_card by (rule psubset_card_mono [rotated]) simp
qed

lemma clear_seen_left:
  assumes "length cur = length vir"
  shows "virgin_left (clear_seen cur vir) \<le> virgin_left vir
    \<and> (list_ex (\<lambda>(c, v). c AND v \<noteq> 0) (zip cur vir) \<longrightarrow> virgin_left (clear_seen cur vir) < virgin_left vir)"
  using assms
proof (induction rule: list_induct2)
  case (Cons c cs v vs)
  then show ?case using popcount_clear(1) [of v c] popcount_clear(2) [of c v] by (auto simp: virgin_left_def clear_seen_def)
qed (simp add: virgin_left_def clear_seen_def)

lemma has_new_bits_left:
  assumes "cov_wf afl" and "fst (has_new_bits afl vm) \<noteq> 0"
  shows "virgin_left (get_virgin vm (snd (has_new_bits afl vm))) < virgin_left (get_virgin vm afl)"
proof -
  let ?k = "scan64 afl"
  let ?cur = "take ?k (trace_bits afl)" and ?vir = "take ?k (get_virgin vm afl)"
  have len: "length ?cur = length ?vir" using cov_wf_lengths [OF assms(1)] by simp
  have "novelty ?cur ?vir \<noteq> 0" using assms by (simp add: has_new_bits_ret)
  then have "list_ex (\<lambda>(c, v). c \<noteq> 0 \<and> v = 255) (zip ?cur ?vir) \<or> list_ex (\<lambda>(c, v). c AND v \<noteq> 0) (zip ?cur ?vir)"
    by (auto simp: novelty_def split: if_splits)
  then have "list_ex (\<lambda>(c, v). c AND v \<noteq> 0) (zip ?cur ?vir)"
  proof
    assume "list_ex (\<lambda>(c, v). c \<noteq> 0 \<and> v = 255) (zip ?cur ?vir)"
    then show ?thesis by (auto simp: list_ex_iff) force
  qed
  then have "virgin_left (clear_seen ?cur ?vir) < virgin_left ?vir" using clear_seen_left [OF len] by blast
  moreover have "virgin_left (get_virgin vm afl) = virgin_left ?vir + virgin_left (drop ?k (get_virgin vm afl))"
    by (simp add: virgin_left_def flip: sum_list_append map_append)
  ultimately show ?thesis by (simp add: has_new_bits_virgin [OF assms(1)] virgin_left_def)
qed

lemma save_to_queue_returns:
  assumes pid: "fsrv_pid afl \<noteq> 0"
  shows "\<exists>r. save_to_queue w v afl = Some r"
proof (cases "describe_op w afl (sv_new_bits v + sv_is_timeout v) (NAME_MAX - 10)")
  case (Inl err)
  then show ?thesis by (simp add: save_to_queue_def)
next
  case (Inr x)
  obtain desc a0 where x: "x = (desc, a0)" by (cases x)
  let ?fn = "queue_name (out_dir a0) (queued_items a0) desc"
  obtain r where f: "save_file w a0 ?fn (sv_mem v) (sv_len v) = r" by blast
  show ?thesis
  proof (cases r)
    case (Inl err)
    then show ?thesis using Inr x f by (simp add: save_to_queue_def Let_def)
  next
    case a1: (Inr a1)
    let ?a2 = "snd (get_cur_time w a1)" and ?now = "fst (get_cur_time w a1)"
    let ?add = "bind_result (add_to_queue ?a2 ?fn (sv_len v) False ?now) (\<lambda>afl.
        bind_result (case queue_top afl of Some q \<Rightarrow> Inr q | None \<Rightarrow> Inl (Out_of_bounds ''queue_top'')) (\<lambda>q.
        bind_result (rate_new_entry w q v afl) (\<lambda>(v, afl). Inr (q, v, afl))))"
    show ?thesis
    proof (cases ?add)
      case (Inl err)
      then show ?thesis using Inr x f a1 by (simp add: save_to_queue_def Let_def case_prod_beta)
    next
      case r: (Inr y)
      obtain q v1 a4 where y: "y = (q, v1, a4)" by (cases y)
      obtain a3 where a3: "add_to_queue ?a2 ?fn (sv_len v) False ?now = Inr a3" "rate_new_entry w q v a3 = Inr (v1, a4)"
        using r y by (auto simp: bind_result_Inr_iff)
      have "unadded a0 = unadded afl" using describe_op_state [OF Inr [unfolded x]] by auto
      moreover have "unadded a1 = unadded a0" using save_file_state [of w a0 ?fn "sv_mem v" "sv_len v" a1] f a1 by auto
      ultimately have u: "unadded a4 = unadded afl"
        using add_to_queue_unadded [OF a3(1)] rate_new_entry_unadded [OF a3(2)] by (simp add: get_cur_time_def)
      have "fsrv_pid a4 = fsrv_pid afl" by (rule unadded_same [OF u]) (simp add: unadded_def)
      then obtain rc where "calibrate_case w a4 q (sv_mem v1) (ucast (queue_cycle a4 - 1)) False = Some rc"
        using calibrate_case_some [of a4 w q "sv_mem v1"] pid by metis
      then show ?thesis
        using Inr x f a1 r y by (cases rc) (auto simp: save_to_queue_def Let_def case_prod_beta)
    qed
  qed
qed

text \<open>A pass from \<open>save_to_queue\<close> to the \<open>switch\<close> and back.\<close>

definition loop_ready :: "'a afl_save_scheme \<Rightarrow> bool" where
  "loop_ready afl \<longleftrightarrow> variable_silenced afl \<and> \<not> non_instrumented_mode afl \<and> fsrv_pid afl \<noteq> 0"

lemma save_to_queue_ready:
  assumes save: "save_to_queue w v afl = Some (Inr (v', afl'))" and ready: "loop_ready afl" and stats: "stats_keep w"
  shows "loop_ready afl' \<and> virgin_tmout afl' = virgin_tmout afl"
proof -
  have pid: "fsrv_pid afl \<noteq> 0" using ready by (simp add: loop_ready_def)
  note u = save_to_queue_unsaved [OF save pid stats]
  have f: "fsrv_pid afl' = fsrv_pid afl" "non_instrumented_mode afl' = non_instrumented_mode afl" "virgin_tmout afl' = virgin_tmout afl"
    by (rule unsaved_same [OF u]; simp add: unsaved_defs)+
  have "variable_silenced afl'"
    using save
  proof (rule save_to_queue_split)
    fix a q mem h res b assume a: "unadded a = unadded afl" and c: "calibrate_case w a q mem h False = Some (Inr (res, b))"
      and fin: "unadded afl' = unadded b"
    have s: "variable_silenced (unadded x) = variable_silenced x" for x :: "'a afl_save_scheme"
      by (simp add: variable_silenced_def cov_wf_def unadded_def)
    have "fsrv_pid a = fsrv_pid afl" by (rule unadded_same [OF a]) (simp add: unadded_def)
    moreover have "variable_silenced a" using a s ready by (metis loop_ready_def)
    ultimately have "variable_silenced b" using calibrate_case_silenced [OF c _ stats] pid by simp
    then show ?thesis using fin s by metis
  qed
  then show ?thesis using f ready by (simp add: loop_ready_def)
qed

lemma simplify_silenced:
  assumes "variable_silenced afl"
  shows "variable_silenced (afl\<lparr>trace_bits := simplify_trace afl (trace_bits afl)\<rparr>)"
proof -
  have wf: "cov_wf afl" using assms by (simp add: variable_silenced_def)
  have "length (simplify_trace afl (trace_bits afl)) = length (trace_bits afl)"
    using simplify_trace_map [OF wf cov_wf_lengths(1) [OF wf]] by simp
  then show ?thesis by (intro variable_silenced_cong [OF assms]) simp_all
qed

lemma has_new_bits_other_silenced:
  fixes afl :: "'a afl_save_scheme"
  assumes "variable_silenced afl" and "vm \<noteq> Virgin_bits"
  shows "variable_silenced (snd (has_new_bits afl vm))"
proof -
  have wf: "cov_wf afl" using assms(1) by (simp add: variable_silenced_def)
  have "virgin_bits (snd (has_new_bits afl vm)) = virgin_bits afl"
    using assms(2) by (cases vm) (simp_all add: has_new_bits_def Let_def split: prod.split)
  then show ?thesis
    using assms(1) has_new_bits_wf [OF wf, of vm] by (simp add: variable_silenced_def has_new_bits_run_frame has_new_bits_frame)
qed

lemma keep_as_crash_next: "keep_as_crash rnd w v afl = Inr (next, v', afl') \<Longrightarrow> next \<noteq> Sv_again"
  by (auto simp: keep_as_crash_def Let_def bind_result_Inr_iff get_cur_time_def split: if_splits prod.splits)

lemma name_hang_next: "name_hang w v afl = Inr (next, v', afl') \<Longrightarrow> next \<noteq> Sv_again"
  by (auto simp: name_hang_def Let_def bind_result_Inr_iff get_cur_time_def split: prod.splits)

lemma rerun_hang_silenced:
  assumes "rerun_hang w v afl = Inr (r, v', afl')" and "variable_silenced afl"
  shows "variable_silenced afl'"
  using assms(1)
proof (rule rerun_hang_steps)
  fix a1 a2 assume run: "fuzz_run_target w a1 (hang_tmout a1) = Inr (r, a2)" and ra: "rested a1 = rested afl"
    and tr: "trace_bits a1 = trace_bits afl" and a: "afl' = classify_counts a2"
  have r2: "rested a2 = rested afl" using run_rested(1) [OF run] ra by simp
  have "var_bytes a2 = var_bytes afl" "virgin_bits a2 = virgin_bits afl" "virgin_tmout a2 = virgin_tmout afl"
    "virgin_crash a2 = virgin_crash afl" "map_size a2 = map_size afl" "real_map_size a2 = real_map_size afl"
    by (rule rested_same [OF r2]; simp add: rested_def unsent_def idle_def)+
  moreover have "length (trace_bits a2) = length (trace_bits afl)" using run_rested(2) [OF run] tr by simp
  ultimately have "variable_silenced a2" by (intro variable_silenced_cong [OF assms(2)]) simp_all
  then show ?thesis unfolding a by (rule classify_counts_silenced)
qed

lemma again_progress:
  assumes pass: "handle_fault rnd w v afl = Inr (Sv_again, v', afl')" and ready: "loop_ready afl"
  shows "loop_ready afl' \<and> virgin_left (virgin_tmout afl') < virgin_left (virgin_tmout afl)"
proof -
  have v: "sv_fault v = FSRV_RUN_TMOUT"
    using pass by (auto simp: handle_fault_def split: fsrv_run_result.splits dest: keep_as_crash_next)
  let ?a = "afl\<lparr>total_tmouts := total_tmouts afl + 1\<rparr>"
  let ?c = "if sv_classified v then ?a else classify_counts ?a"
  let ?s = "?c\<lparr>trace_bits := simplify_trace ?c (trace_bits ?c)\<rparr>"
  let ?b = "snd (has_new_bits ?s Virgin_tmout)" and ?v = "v\<lparr>sv_classified := True, sv_is_timeout := 0x80\<rparr>"
  have ni: "\<not> non_instrumented_mode afl" and sil: "variable_silenced ?a"
    using ready by (simp_all add: loop_ready_def variable_silenced_def cov_wf_def)
  from pass v ni obtain r v1 a1 where new: "fst (has_new_bits ?s Virgin_tmout) \<noteq> 0"
    and rerun: "rerun_hang w ?v ?b = Inr (r, v1, a1)" and afl': "afl' = a1\<lparr>saved_tmouts := saved_tmouts a1 + 1\<rparr>"
    by (auto simp: handle_fault_def keep_as_hang_def Let_def seen_before_def bind_result_Inr_iff
        split: if_splits prod.splits dest!: keep_as_crash_next name_hang_next)
  have "variable_silenced ?c" using sil classify_counts_silenced [OF sil] by simp
  then have sil_s: "variable_silenced ?s" by (rule simplify_silenced)
  then have wf: "cov_wf ?s" by (simp add: variable_silenced_def)
  have sil_b: "variable_silenced ?b" by (rule has_new_bits_other_silenced [OF sil_s]) simp
  have b: "non_instrumented_mode ?b = non_instrumented_mode afl" "fsrv_pid ?b = fsrv_pid afl"
    by (simp_all add: has_new_bits_def classify_counts_def Let_def split: prod.split)
  have "virgin_tmout ?s = virgin_tmout afl" by (simp add: classify_counts_def)
  then have left: "virgin_left (virgin_tmout ?b) < virgin_left (virgin_tmout afl)"
    using has_new_bits_left [OF wf new] by simp
  have u: "unsaved a1 = unsaved ?b" by (rule rerun_hang_unsaved [OF rerun])
  have "virgin_tmout a1 = virgin_tmout ?b" "non_instrumented_mode a1 = non_instrumented_mode ?b" "fsrv_pid a1 = fsrv_pid ?b"
    by (rule unsaved_same [OF u]; simp add: unsaved_defs)+
  moreover have "variable_silenced afl'"
    using rerun_hang_silenced [OF rerun sil_b] by (simp add: afl' variable_silenced_def cov_wf_def)
  ultimately show ?thesis using left b ready by (simp add: loop_ready_def afl')
qed

lemma save_loop_returns:
  assumes stats: "stats_keep w"
  shows "loop_ready afl \<Longrightarrow> \<exists>r. save_loop rnd w queue_it v afl = Some r"
proof (induction "virgin_left (virgin_tmout afl)" arbitrary: queue_it v afl rule: less_induct)
  case less
  have pid: "fsrv_pid afl \<noteq> 0" using less.prems by (simp add: loop_ready_def)
  let ?q = "if queue_it then save_to_queue w v afl else Some (Inr (v, afl))"
  obtain rq where rq: "?q = Some rq" using save_to_queue_returns [OF pid, of w v] by (cases queue_it) auto
  show ?case
  proof (cases rq)
    case (Inl err)
    then show ?thesis using rq by (subst save_loop.simps) (simp del: if_split)
  next
    case (Inr x)
    obtain v1 a1 where x: "x = (v1, a1)" by (cases x)
    have a1: "loop_ready a1 \<and> virgin_tmout a1 = virgin_tmout afl"
      using rq Inr x less.prems save_to_queue_ready [of w v afl v1 a1] stats by (cases queue_it) auto
    show ?thesis
    proof (cases "handle_fault rnd w v1 a1")
      case (Inl err)
      then show ?thesis using rq Inr x by (subst save_loop.simps) (simp del: if_split)
    next
      case h: (Inr y)
      obtain nxt v2 a2 where y: "y = (nxt, v2, a2)" by (cases y)
      have unroll: "save_loop rnd w queue_it v afl = (case nxt of
            Sv_return \<Rightarrow> Some (Inr (sv_keeping v2, a2))
          | Sv_again \<Rightarrow> save_loop rnd w True v2 a2
          | Sv_file fn \<Rightarrow> (case save_file w a2 fn (sv_mem v2) (sv_len v2) of
                Inl err \<Rightarrow> Some (Inl err) | Inr afl \<Rightarrow> Some (Inr (sv_keeping v2, afl))))"
        using rq Inr x h y by (subst save_loop.simps) (simp del: if_split)
      show ?thesis
      proof (cases nxt)
        case Sv_again
        have "loop_ready a2 \<and> virgin_left (virgin_tmout a2) < virgin_left (virgin_tmout afl)"
          using again_progress [of rnd w v1 a1 v2 a2] h y Sv_again a1 by simp
        then show ?thesis using less.hyps [of a2 True v2] by (simp add: unroll Sv_again)
      next
        case (Sv_file fn)
        then show ?thesis by (cases "save_file w a2 fn (sv_mem v2) (sv_len v2)") (simp_all add: unroll)
      qed (simp add: unroll)
    qed
  qed
qed

section \<open>Crashes\<close>

text \<open>The view of a trace that crashes and hangs are compared by.\<close>

definition hit_view :: "'a afl_save_scheme \<Rightarrow> 'a afl_save_scheme" where
  "hit_view afl = (let afl = classify_counts afl in afl\<lparr>trace_bits := simplify_trace afl (trace_bits afl)\<rparr>)"

lemma hit_view_eq:
  assumes "cov_wf afl"
  shows "hit_view afl = afl\<lparr>trace_bits := map (simplify8 \<circ> class8) (trace_bits afl)\<rparr>" and "cov_wf (hit_view afl)"
proof -
  have wf: "cov_wf (classify_counts afl)" by (rule classify_counts_wf [OF assms])
  show "hit_view afl = afl\<lparr>trace_bits := map (simplify8 \<circ> class8) (trace_bits afl)\<rparr>"
    using simplify_trace_map [OF wf cov_wf_lengths(1) [OF wf]]
    by (simp add: hit_view_def Let_def classify_counts_map [OF assms])
  then show "cov_wf (hit_view afl)" using assms by (simp add: cov_wf_def)
qed

lemma has_new_bits_view:
  fixes afl :: "'a afl_save_scheme"
  assumes "cov_wf afl" and "cov_wf b" and "trace_bits b = trace_bits afl" "get_virgin vm b = get_virgin vm afl"
    "real_map_size b = real_map_size afl"
  shows "fst (has_new_bits b vm) = fst (has_new_bits afl vm)"
    and "get_virgin vm (snd (has_new_bits b vm)) = get_virgin vm (snd (has_new_bits afl vm))"
  using assms by (simp_all add: has_new_bits_ret has_new_bits_virgin)

text \<open>Once the bits of a trace are cleared, an equal trace has nothing new.\<close>

lemma has_new_bits_twice:
  fixes afl b :: "'a afl_save_scheme"
  assumes wf: "cov_wf afl" "cov_wf b" and tr: "trace_bits b = trace_bits afl" "real_map_size b = real_map_size afl"
    and vir: "get_virgin vm b = get_virgin vm (snd (has_new_bits afl vm))"
  shows "fst (has_new_bits b vm) = 0"
proof -
  let ?k = "scan64 afl"
  let ?cur = "take ?k (trace_bits afl)" and ?vir = "take ?k (get_virgin vm afl)"
  have len: "length ?cur = length ?vir" "length (clear_seen ?cur ?vir) = ?k"
    using scan64_le [OF wf(1)] cov_wf_lengths [OF wf(1)] by (simp_all add: clear_seen_def min_def)
  have "fst (has_new_bits b vm) = novelty ?cur (clear_seen ?cur ?vir)"
    using len by (simp add: has_new_bits_ret [OF wf(2)] tr vir has_new_bits_virgin [OF wf(1)])
  then show ?thesis by (simp add: novelty_clear_seen [OF len(1)])
qed

lemma seen_before_view:
  fixes afl :: "'a afl_save_scheme"
  assumes wf: "cov_wf afl" and ni: "\<not> non_instrumented_mode afl"
    and a: "a = (if sv_classified v then (classify_counts afl)\<lparr>n_fuzz := nf\<rparr> else afl)\<lparr>total_crashes := x\<rparr>"
  shows "\<exists>b. seen_before vm v a = (fst (has_new_bits b vm) = 0, v\<lparr>sv_classified := True\<rparr>, snd (has_new_bits b vm))
    \<and> cov_wf b \<and> trace_bits b = trace_bits (hit_view afl) \<and> real_map_size b = real_map_size afl \<and> get_virgin vm b = get_virgin vm afl
    \<and> (\<exists>t. b = a\<lparr>trace_bits := t\<rparr>)"
proof -
  let ?c = "if sv_classified v then a else classify_counts a"
  let ?b = "?c\<lparr>trace_bits := simplify_trace ?c (trace_bits ?c)\<rparr>"
  have wfa: "cov_wf a" using wf classify_counts_wf [OF wf] by (simp add: a cov_wf_def)
  have tr: "trace_bits ?c = map class8 (trace_bits afl)"
  proof (cases "sv_classified v")
    case True
    then show ?thesis by (simp add: a classify_counts_map [OF wf])
  next
    case False
    then show ?thesis using arg_cong [OF classify_counts_map [OF wfa], of trace_bits] by (simp add: a)
  qed
  have wfc: "cov_wf ?c" using wfa classify_counts_wf [OF wfa] by simp
  have "trace_bits ?b = map (simplify8 \<circ> class8) (trace_bits afl)"
    using simplify_trace_map [OF wfc cov_wf_lengths(1) [OF wfc]] by (simp add: tr)
  then have hv: "trace_bits ?b = trace_bits (hit_view afl)" using hit_view_eq(1) [OF wf] by simp
  have "length (trace_bits ?b) = length (trace_bits ?c)"
    using simplify_trace_map [OF wfc cov_wf_lengths(1) [OF wfc]] by simp
  then have wfb: "cov_wf ?b" using wfc by (simp add: cov_wf_def)
  have "get_virgin vm ?b = get_virgin vm afl" "real_map_size ?b = real_map_size afl"
    by (cases vm; simp add: a classify_counts_def)+
  moreover have "seen_before vm v a = (fst (has_new_bits ?b vm) = 0, v\<lparr>sv_classified := True\<rparr>, snd (has_new_bits ?b vm))"
    using ni by (simp add: seen_before_def Let_def a classify_counts_def split: prod.split)
  moreover have "\<exists>t. ?b = a\<lparr>trace_bits := t\<rparr>" by (cases "sv_classified v") (auto simp: classify_counts_def)
  ultimately show ?thesis using hv wfb by blast
qed

lemma write_crash_readme_virgin:
  fixes afl :: "'a afl_save_scheme"
  assumes "write_crash_readme rnd afl = Inr afl'"
  shows "virgin_crash afl' = virgin_crash afl"
proof -
  obtain fn where "(case creat_excl afl fn (map of_char (crash_readme rnd afl)) of Inl _ \<Rightarrow> Inr afl | Inr b \<Rightarrow> Inr b)
      = (Inr afl' :: 'a afl_save_scheme result)"
    using assms unfolding write_crash_readme_def bind_result_Inr_iff by blast
  then show ?thesis
    by (cases "creat_excl afl fn (map of_char (crash_readme rnd afl))") (simp_all add: creat_excl_Inr)
qed

lemma keep_as_crash_virgin:
  assumes "keep_as_crash rnd w v afl = Inr (next, v', afl')" and "saved_crashes afl < KEEP_UNIQUE_CRASH"
    and "seen_before Virgin_crash v (afl\<lparr>total_crashes := total_crashes afl + 1\<rparr>) = (seen, v1, a1)"
  shows "virgin_crash afl' = virgin_crash a1"
proof (cases seen)
  case True
  then show ?thesis using assms by (simp add: keep_as_crash_def not_le [symmetric])
next
  case False
  obtain a2 where a2: "(if saved_crashes a1 = 0 \<and> afl_no_crash_readme a1 \<noteq> 1 then write_crash_readme rnd a1 else Inr a1) = Inr a2"
    and rest: "bind_result (describe_op w a2 0 (NAME_MAX - 17)) (\<lambda>(desc, afl).
          let fn = snprintf_path (out_dir afl @ ''/crashes/id:'' @ dec_pad 6 (unat (saved_crashes afl)) @ '',sig:''
                     @ dec_pad 2 (unat (last_kill_signal afl)) @ '','' @ desc);
              afl = afl\<lparr>saved_crashes := saved_crashes afl + 1\<rparr>
          in case get_cur_time w afl of (now, afl) \<Rightarrow>
               Inr (Sv_file fn, v1, afl\<lparr>last_crash_time := now, last_crash_execs := total_execs afl\<rparr>)) = Inr (next, v', afl')"
    using assms False by (auto simp: keep_as_crash_def Let_def not_le [symmetric] bind_result_Inr_iff)
  have "virgin_crash a2 = virgin_crash a1" using a2 write_crash_readme_virgin [of rnd a1 a2] by (simp split: if_splits)
  moreover obtain desc a3 where d: "describe_op w a2 0 238 = Inr (desc, a3)" and "virgin_crash afl' = virgin_crash a3"
    using rest by (auto simp: bind_result_Inr_iff Let_def get_cur_time_def)
  moreover have "virgin_crash a3 = virgin_crash a2" using describe_op_state [OF d] by auto
  ultimately show ?thesis by simp
qed

lemma count_path_frame:
  assumes "count_path w v afl = Inr (v', afl')"
  shows "afl' = afl \<or> unadded afl' = unadded (classify_counts afl)" and "sv_fault v' = sv_fault v"
proof -
  let ?c = "classify_counts afl"
  have bump: "unadded b = unadded ?c" if "bump_n_fuzz k ?c = Inr b" for k b
    using that by (auto simp: bump_n_fuzz_def Let_def bind_result_Inr_iff split: if_splits)
  have "(v', afl') = (v, afl) \<or> (\<exists>k b. bump_n_fuzz k ?c = Inr b
      \<and> (v', afl') = (v\<lparr>sv_classified := True, sv_need_hash := False, sv_cksum := k\<rparr>, b))"
    using assms unfolding count_path_def Let_def by (simp split: if_split_asm) (simp only: bind_result_Inr_iff sum.inject prod.inject, blast)
  then consider "v' = v" "afl' = afl" | k b where "bump_n_fuzz k ?c = Inr b"
      "v' = v\<lparr>sv_classified := True, sv_need_hash := False, sv_cksum := k\<rparr>" "afl' = b" by blast
  then show "afl' = afl \<or> unadded afl' = unadded ?c" "sv_fault v' = sv_fault v"
    by (cases, simp, use bump in simp)+
qed

section \<open>A crash seen twice\<close>

lemma crash_entry:
  assumes "paths_ok afl" and "n \<noteq> 0" and "crash_mode afl \<noteq> FSRV_RUN_CRASH"
  shows "\<exists>v nf. save_if_interesting rnd w afl mem n FSRV_RUN_CRASH
      = save_loop rnd w False v (if sv_classified v then (classify_counts afl)\<lparr>n_fuzz := nf\<rparr> else afl)
    \<and> sv_fault v = FSRV_RUN_CRASH \<and> \<not> sv_keeping v"
proof -
  obtain v nf where v: "count_path w (save_vars0 mem n FSRV_RUN_CRASH) afl
      = Inr (v, if sv_classified v then (classify_counts afl)\<lparr>n_fuzz := nf\<rparr> else afl)" "sv_fault v = FSRV_RUN_CRASH" "\<not> sv_keeping v"
    using count_path_eq [OF assms(1)] by metis
  have "crash_mode (if sv_classified v then (classify_counts afl)\<lparr>n_fuzz := nf\<rparr> else afl) = crash_mode afl"
    by (simp add: classify_counts_def)
  then have "save_if_interesting rnd w afl mem n FSRV_RUN_CRASH
      = save_loop rnd w False v (if sv_classified v then (classify_counts afl)\<lparr>n_fuzz := nf\<rparr> else afl)"
    using assms(2,3) v(1) by (simp add: save_if_interesting_def del: if_split)
  then show ?thesis using v by blast
qed

text \<open>What the first crash leaves in \<open>virgin_crash\<close>.\<close>

lemma crash_loop_virgin:
  fixes afl :: "'a afl_save_scheme"
  assumes wf: "cov_wf afl" and ni: "\<not> non_instrumented_mode afl" and few: "saved_crashes afl < KEEP_UNIQUE_CRASH"
    and v: "sv_fault v = FSRV_RUN_CRASH"
    and loop: "save_loop rnd w False v (if sv_classified v then (classify_counts afl)\<lparr>n_fuzz := nf\<rparr> else afl) = Some (Inr (kept, afl'))"
  shows "\<exists>b :: 'a afl_save_scheme. cov_wf b \<and> trace_bits b = trace_bits (hit_view afl) \<and> real_map_size b = real_map_size afl
    \<and> virgin_crash afl' = get_virgin Virgin_crash (snd (has_new_bits b Virgin_crash))"
proof -
  let ?a = "if sv_classified v then (classify_counts afl)\<lparr>n_fuzz := nf\<rparr> else afl"
  obtain nxt v2 a2 where k: "keep_as_crash rnd w v ?a = Inr (nxt, v2, a2)"
    and fin: "afl' = a2 \<or> (\<exists>fn. save_file w a2 fn (sv_mem v2) (sv_len v2) = Inr afl')"
  proof (cases "handle_fault rnd w v ?a")
    case (Inl err)
    then show ?thesis using loop by (subst (asm) save_loop.simps) (simp del: if_split)
  next
    case (Inr y)
    obtain nxt v2 a2 where y: "y = (nxt, v2, a2)" by (cases y)
    have k: "keep_as_crash rnd w v ?a = Inr (nxt, v2, a2)" using Inr y v by (simp add: handle_fault_def del: if_split)
    show ?thesis
      using that [OF k] loop Inr y keep_as_crash_next [OF k]
      by (subst (asm) save_loop.simps) (cases nxt; simp del: if_split split: option.splits sum.splits; blast)
  qed
  have few': "saved_crashes ?a < KEEP_UNIQUE_CRASH" using few by (simp add: classify_counts_def)
  obtain b where b: "seen_before Virgin_crash v (?a\<lparr>total_crashes := total_crashes ?a + 1\<rparr>)
      = (fst (has_new_bits b Virgin_crash) = 0, v\<lparr>sv_classified := True\<rparr>, snd (has_new_bits b Virgin_crash))"
    "cov_wf b" "trace_bits b = trace_bits (hit_view afl)" "real_map_size b = real_map_size afl"
    using seen_before_view [where vm = Virgin_crash and v = v and nf = nf and x = "total_crashes ?a + 1", OF wf ni refl] by blast
  have "virgin_crash a2 = virgin_crash (snd (has_new_bits b Virgin_crash))" by (rule keep_as_crash_virgin [OF k few' b(1)])
  moreover have "virgin_crash afl' = virgin_crash a2"
    using fin by (auto dest: save_file_state)
  ultimately show ?thesis using b(2-4) by auto
qed

text \<open>A crash without new bits is only counted.\<close>

lemma crash_loop_known:
  fixes afl :: "'a afl_save_scheme"
  assumes wf: "cov_wf afl" and ni: "\<not> non_instrumented_mode afl" and v: "sv_fault v = FSRV_RUN_CRASH" "\<not> sv_keeping v"
    and known: "\<And>b. cov_wf b \<Longrightarrow> trace_bits b = trace_bits (hit_view afl) \<Longrightarrow> real_map_size b = real_map_size afl
      \<Longrightarrow> get_virgin Virgin_crash b = virgin_crash afl \<Longrightarrow> fst (has_new_bits (b :: 'a afl_save_scheme) Virgin_crash) = 0"
  shows "\<exists>t nf'. save_loop rnd w False v (if sv_classified v then (classify_counts afl)\<lparr>n_fuzz := nf\<rparr> else afl)
    = Some (Inr (False, afl\<lparr>total_crashes := total_crashes afl + 1, trace_bits := t, n_fuzz := nf'\<rparr>))"
proof -
  let ?a = "if sv_classified v then (classify_counts afl)\<lparr>n_fuzz := nf\<rparr> else afl"
  obtain t nf' where a: "?a = afl\<lparr>trace_bits := t, n_fuzz := nf'\<rparr>"
  proof (cases "sv_classified v")
    case True
    then show ?thesis using that [of nf] by (simp add: classify_counts_def)
  next
    case False
    then show ?thesis using that [of "n_fuzz afl" "trace_bits afl"] by simp
  qed
  let ?x = "?a\<lparr>total_crashes := total_crashes ?a + 1\<rparr>"
  obtain b t' where b: "seen_before Virgin_crash v ?x
      = (fst (has_new_bits b Virgin_crash) = 0, v\<lparr>sv_classified := True\<rparr>, snd (has_new_bits b Virgin_crash))"
    "cov_wf b" "trace_bits b = trace_bits (hit_view afl)" "real_map_size b = real_map_size afl"
    "get_virgin Virgin_crash b = get_virgin Virgin_crash afl" "b = ?x\<lparr>trace_bits := t'\<rparr>"
    using seen_before_view [where vm = Virgin_crash and v = v and nf = nf and x = "total_crashes ?a + 1", OF wf ni refl] by blast
  have z: "fst (has_new_bits b Virgin_crash) = 0" by (rule known [OF b(2-4)]) (use b(5) in simp)
  have "snd (has_new_bits b Virgin_crash) = b" by (rule has_new_bits_0 [OF b(2) z])
  then have "keep_as_crash rnd w v ?a = Inr (Sv_return, v, ?x) \<or> keep_as_crash rnd w v ?a = Inr (Sv_return, v\<lparr>sv_classified := True\<rparr>, b)"
    unfolding keep_as_crash_def Let_def b(1) z by simp
  then obtain u c t'' where k: "handle_fault rnd w v ?a = Inr (Sv_return, u, c)" "\<not> sv_keeping u"
    "c = afl\<lparr>total_crashes := total_crashes afl + 1, trace_bits := t'', n_fuzz := nf'\<rparr>"
  proof (elim disjE)
    assume "keep_as_crash rnd w v ?a = Inr (Sv_return, v, ?x)"
    then show ?thesis using that [of v ?x t] v unfolding a by (simp add: handle_fault_def)
  next
    assume "keep_as_crash rnd w v ?a = Inr (Sv_return, v\<lparr>sv_classified := True\<rparr>, b)"
    then show ?thesis using that [of "v\<lparr>sv_classified := True\<rparr>" b t'] v b(6) unfolding a by (simp add: handle_fault_def)
  qed
  have "save_loop rnd w False v ?a = Some (Inr (False, c))" using k(1,2) by (subst save_loop.simps) (simp del: if_split)
  then show ?thesis using k(3) by metis
qed

section \<open>Properties\<close>

text \<open>(C17)
  In an instrumented session \<open>save_if_interesting\<close> always returns: each jump back to \<open>save_to_queue\<close> is paid for by a bit
  cleared in \<open>virgin_tmout\<close>.
\<close>

theorem save_if_interesting_returns:
  assumes "variable_silenced afl" and "\<not> non_instrumented_mode afl" and "fsrv_pid afl \<noteq> 0" and "stats_keep w"
  shows "\<exists>r. save_if_interesting rnd w afl mem n fault = Some r"
proof -
  have ready: "loop_ready a" if "count_path w (save_vars0 mem n fault) afl = Inr (v, a)" for v a
  proof -
    note count_path_frame(1) [OF that]
    moreover have "loop_ready afl" using assms(1-3) by (simp add: loop_ready_def)
    moreover have "loop_ready (classify_counts afl)"
      using assms(2,3) classify_counts_silenced [OF assms(1)] by (simp add: loop_ready_def classify_counts_def)
    moreover have "loop_ready a = loop_ready b" if "unadded a = unadded b" for b :: "'a afl_save_scheme"
      by (rule unadded_same [OF that]) (simp add: loop_ready_def variable_silenced_def cov_wf_def unadded_def)
    ultimately show ?thesis by blast
  qed
  have look: "loop_ready b" if "look_for_new_bits v a = (v', b)" "loop_ready a" for v v' and a b :: "'a afl_save_scheme"
  proof -
    have sil: "variable_silenced a" using that(2) by (simp add: loop_ready_def)
    have "b = a \<or> b = snd (has_new_bits a Virgin_bits) \<or> b = snd (has_new_bits (classify_counts a) Virgin_bits)"
      using that(1) unfolding look_for_new_bits_def has_new_bits_unclassified_def
      by (simp add: case_prod_beta' split: if_splits)
    moreover have "loop_ready (snd (has_new_bits x Virgin_bits))" if "loop_ready x" for x :: "'a afl_save_scheme"
      using that has_new_bits_silenced [of x] by (simp add: loop_ready_def) (simp add: has_new_bits_def Let_def split: prod.split)
    moreover have "loop_ready (classify_counts a)"
      using that(2) classify_counts_silenced [OF sil] by (simp add: loop_ready_def classify_counts_def)
    ultimately show ?thesis using that(2) by blast
  qed
  note loop = save_loop_returns [OF assms(4)]
  show ?thesis
  proof (cases "count_path w (save_vars0 mem n fault) afl")
    case (Inl err)
    then show ?thesis by (simp add: save_if_interesting_def)
  next
    case (Inr x)
    obtain v a where x: "x = (v, a)" by (cases x)
    obtain v' b where l: "look_for_new_bits v a = (v', b)" by (cases "look_for_new_bits v a")
    have "loop_ready a" using ready Inr x by blast
    then obtain r1 r2 where "save_loop rnd w False v a = Some r1" "save_loop rnd w True v' b = Some r2"
      using loop look [OF l] by metis
    then show ?thesis using Inr x l by (simp add: save_if_interesting_def)
  qed
qed

lemma save_demo_ready: "variable_silenced save_demo"
  by (simp add: variable_silenced_def cov_wf_def save_demo_fields)

lemma demo_world_keeps: "stats_keep (demo_world tgt)" "w_write (demo_world tgt) k m = int m" "w_target (demo_world tgt) = tgt"
  by (simp_all add: demo_world_def stats_keep_def)

theorem save_if_interesting_returns_witness:
  "\<exists>r. save_if_interesting (\<lambda>x. x) (demo_world (\<lambda>_ _ _. ok_reply [1, 2])) save_demo [1, 2, 3] 3 FSRV_RUN_TMOUT = Some r"
  by (rule save_if_interesting_returns [OF save_demo_ready]) (simp_all add: save_demo_fields demo_world_keeps)

text \<open>
  In a non-instrumented session with \<open>AFL_KEEP_TIMEOUTS\<close>, an input that the short time limit cuts off and the long one
  does not is never done with: \<open>save_if_interesting\<close> has no normal result. It saves the input under a new number, runs it again
  and jumps back, until some operation fails; a request to stop does not end this either.
\<close>

theorem slow_input_never_returns:
  assumes "keeps_slow_inputs h afl" and "slow_but_fine h (w_target w) afl" and "stats_keep w"
    and "n \<noteq> 0" and "\<not> afl_ignore_timeouts afl" and "crash_mode afl \<noteq> FSRV_RUN_TMOUT"
  shows "save_if_interesting rnd w afl mem n FSRV_RUN_TMOUT \<noteq> Some (Inr x)"
proof (cases "count_path w (save_vars0 mem n FSRV_RUN_TMOUT) afl")
  case (Inl err)
  then show ?thesis using assms(4,5) by (simp add: save_if_interesting_def)
next
  case (Inr y)
  obtain v a where y: "y = (v, a)" by (cases y)
  have a: "a = afl \<or> unadded a = unadded (classify_counts afl)" and v: "sv_fault v = FSRV_RUN_TMOUT"
    using count_path_frame [of w "save_vars0 mem n FSRV_RUN_TMOUT" afl v a] Inr y by simp_all
  have slow: "keeps_slow_inputs h a \<and> slow_but_fine h (w_target w) a \<and> crash_mode a \<noteq> FSRV_RUN_TMOUT"
  proof (cases "a = afl")
    case False
    then have u: "unadded a = unadded (classify_counts afl)" using a by simp
    have "keeps_slow_inputs h a = keeps_slow_inputs h (classify_counts afl)" "crash_mode a = crash_mode (classify_counts afl)"
      "slow_but_fine h (w_target w) a = slow_but_fine h (w_target w) (classify_counts afl)"
      by (rule unadded_same [OF u]; simp add: keeps_slow_inputs_def slow_but_fine_def crashed_def unadded_def)+
    then show ?thesis
      using assms(1,2,6) by (simp add: keeps_slow_inputs_def slow_but_fine_def crashed_def classify_counts_def)
  qed (use assms(1,2,6) in simp)
  have "save_if_interesting rnd w afl mem n FSRV_RUN_TMOUT = save_loop rnd w False v a"
    using assms(4,5) slow Inr y by (auto simp: save_if_interesting_def)
  then show ?thesis using slow_loop [of rnd w False v a "Inr x" h x] assms(3) slow v by metis
qed

theorem slow_input_never_returns_witness:
  "save_if_interesting (\<lambda>x. x) (demo_world (\<lambda>_ _ _. (ok_reply [1, 2])\<lparr>exec_time := 1500\<rparr>))
     (save_demo\<lparr>non_instrumented_mode := True, afl_keep_timeouts := True\<rparr>) [1, 2, 3] 3 FSRV_RUN_TMOUT \<noteq> Some (Inr (False, save_demo))"
proof (rule slow_input_never_returns [where h = 2000])
  have asan: "uses_asan save_demo = False" "uses_crash_exitcode save_demo = False"
    by (simp_all add: save_demo_def afl_run.extend_def cal_demo_fields)
  show "slow_but_fine 2000 (w_target (demo_world (\<lambda>_ _ _. (ok_reply [1, 2])\<lparr>exec_time := 1500\<rparr>)))
     (save_demo\<lparr>non_instrumented_mode := True, afl_keep_timeouts := True\<rparr>)"
    by (simp add: slow_but_fine_def demo_world_keeps ok_reply_def crashed_def asan WIFSIGNALED_def WTERMSIG_def)
qed (simp_all add: keeps_slow_inputs_def save_demo_fields demo_world_keeps)

text \<open>(C16)
  A crash is saved once: when a crash with the same trace comes back while \<open>virgin_crash\<close> is as the first one left it,
  \<open>save_if_interesting\<close> only counts it; no file is written and the queue does not grow.
\<close>

theorem crash_saved_once:
  fixes afl b :: "'a afl_save_scheme"
  assumes "cov_wf afl" "\<not> non_instrumented_mode afl" "paths_ok afl" "crash_mode afl \<noteq> FSRV_RUN_CRASH" "n \<noteq> 0"
    and "saved_crashes afl < KEEP_UNIQUE_CRASH"
    and "save_if_interesting rnd w afl mem n FSRV_RUN_CRASH = Some (Inr (kept, afl'))"
    and "cov_wf b" "\<not> non_instrumented_mode b" "paths_ok b" "crash_mode b \<noteq> FSRV_RUN_CRASH" "m \<noteq> 0"
    and "trace_bits b = trace_bits afl" "real_map_size b = real_map_size afl" "virgin_crash b = virgin_crash afl'"
  shows "\<exists>t nf. save_if_interesting rnd w b mem' m FSRV_RUN_CRASH
    = Some (Inr (False, b\<lparr>total_crashes := total_crashes b + 1, trace_bits := t, n_fuzz := nf\<rparr>))"
proof -
  obtain v nf where first: "save_loop rnd w False v (if sv_classified v then (classify_counts afl)\<lparr>n_fuzz := nf\<rparr> else afl)
      = Some (Inr (kept, afl'))" "sv_fault v = FSRV_RUN_CRASH"
    using crash_entry [OF assms(3,5,4), of rnd w mem] assms(7) by metis
  obtain c :: "'a afl_save_scheme" where c: "cov_wf c" "trace_bits c = trace_bits (hit_view afl)" "real_map_size c = real_map_size afl"
    "virgin_crash afl' = get_virgin Virgin_crash (snd (has_new_bits c Virgin_crash))"
    using crash_loop_virgin [OF assms(1,2,6) first(2,1)] by blast
  have view: "trace_bits (hit_view b) = trace_bits (hit_view afl)"
    using hit_view_eq(1) [OF assms(1)] hit_view_eq(1) [OF assms(8)] assms(13) by simp
  have known: "fst (has_new_bits d Virgin_crash) = 0" if "cov_wf d" "trace_bits d = trace_bits (hit_view b)"
      "real_map_size d = real_map_size b" "get_virgin Virgin_crash d = virgin_crash b" for d :: "'a afl_save_scheme"
    by (rule has_new_bits_twice [OF c(1) that(1)]) (simp_all only: that view c assms)
  obtain u nf' where second: "save_if_interesting rnd w b mem' m FSRV_RUN_CRASH
      = save_loop rnd w False u (if sv_classified u then (classify_counts b)\<lparr>n_fuzz := nf'\<rparr> else b)"
    "sv_fault u = FSRV_RUN_CRASH" "\<not> sv_keeping u"
    using crash_entry [OF assms(10,12,11), of rnd w mem'] by blast
  show ?thesis unfolding second(1) by (rule crash_loop_known [OF assms(8,9) second(2,3) known])
qed

text \<open>The first crash of the example session, with the readme switched off.\<close>

lemma demo_save_file:
  assumes "fs afl fn = None" and "\<not> fs_deny afl fn" and "unat n \<le> length mem"
  shows "save_file (demo_world tgt) afl fn mem n = Inr (afl\<lparr>fs := (fs afl)(fn \<mapsto> take (unat n) mem)\<rparr>)"
  using assms by (simp add: save_file_def creat_excl_def ck_write_whole demo_world_def)

lemma save_demo_files: "fs save_demo = [''d'' \<mapsto> []]" "\<not> fs_deny save_demo fn" "out_dir save_demo = ''out''"
  by (simp_all add: save_demo_def afl_run.extend_def cal_demo_def run_demo_def afl_one.extend_def one_demo_def afl_extras.extend_def
      extras_demo_def afl_tc.extend_def tc_demo_def afl_queue.extend_def queue_demo_def afl_cov.extend_def cov_demo_def)

lemma save_demo_crash_kept:
  fixes w :: "afl_save world"
  assumes "c = save_demo\<lparr>afl_no_crash_readme := 1, total_crashes := k, trace_bits := t, virgin_crash := vc\<rparr>"
  shows "\<exists>fn v' afl'. bind_result (describe_op w c 0 238) (\<lambda>(desc, afl).
      let fn = snprintf_path (out_dir afl @ ''/crashes/id:'' @ dec_pad 6 (unat (saved_crashes afl)) @ '',sig:''
                 @ dec_pad 2 (unat (last_kill_signal afl)) @ '','' @ desc);
          afl = afl\<lparr>saved_crashes := saved_crashes afl + 1\<rparr>
      in case get_cur_time w afl of (now, afl) \<Rightarrow>
           Inr (Sv_file fn, v, afl\<lparr>last_crash_time := now, last_crash_execs := total_execs afl\<rparr>)) = Inr (Sv_file fn, v, afl')
    \<and> fs afl' fn = None \<and> \<not> fs_deny afl' fn \<and> virgin_crash afl' = vc"
proof -
  obtain desc where d: "describe_op w c 0 238 = Inr (desc, c\<lparr>ticks := ticks c + 1\<rparr>)"
    using describe_op_ok [of c 238 w 0] save_demo_names by (auto simp: assms)
  have "snprintf_path (''out'' @ s) \<noteq> ''d''" for s by (simp add: snprintf_path_def)
  then show ?thesis unfolding d by (simp add: get_cur_time_def assms save_demo_files)
qed

lemma save_demo_crash:
  "\<exists>kept afl'. save_if_interesting (\<lambda>x. x) (demo_world (\<lambda>_ _ _. ok_reply [1, 2])) (save_demo\<lparr>afl_no_crash_readme := 1\<rparr>)
     [1, 2, 3] 3 FSRV_RUN_CRASH = Some (Inr (kept, afl')) \<and> length (virgin_crash afl') = 64"
proof -
  let ?w = "demo_world (\<lambda>_ _ _. ok_reply [1, 2]) :: afl_save world" and ?a = "save_demo\<lparr>afl_no_crash_readme := 1\<rparr>"
  let ?v = "save_vars0 [1, 2, 3] 3 FSRV_RUN_CRASH"
  let ?t = "?a\<lparr>total_crashes := total_crashes ?a + 1\<rparr>"
  have wf: "cov_wf ?a" by (simp add: cov_wf_def save_demo_fields)
  have x: "?t = (if sv_classified ?v then (classify_counts ?a)\<lparr>n_fuzz := []\<rparr> else ?a)\<lparr>total_crashes := total_crashes ?a + 1\<rparr>" by simp
  obtain b t where b: "seen_before Virgin_crash ?v ?t
      = (fst (has_new_bits b Virgin_crash) = 0, ?v\<lparr>sv_classified := True\<rparr>, snd (has_new_bits b Virgin_crash))"
    "cov_wf b" "b = ?t\<lparr>trace_bits := t\<rparr>"
    using seen_before_view [OF wf _ x, of Virgin_crash] by (auto simp: save_demo_fields)
  let ?c = "snd (has_new_bits b Virgin_crash)"
  have c: "?c = ?t\<lparr>trace_bits := t, virgin_crash := virgin_crash ?c\<rparr>" 
    by (simp add: has_new_bits_def Let_def b(3) split: prod.split)
  have len: "length (virgin_crash ?c) = 64"
    using cov_wf_lengths(2) [OF has_new_bits_wf [OF b(2)], of Virgin_crash Virgin_crash] b(3)
    by (simp add: has_new_bits_frame save_demo_fields)
  have "schedule ?a = EXPLORE" "crash_mode ?a = FSRV_RUN_OK" by (simp_all add: save_demo_fields)
  then have go: "save_if_interesting (\<lambda>x. x) ?w ?a [1, 2, 3] 3 FSRV_RUN_CRASH = save_loop (\<lambda>x. x) ?w False ?v ?a"
    by (simp add: save_if_interesting_def count_path_def schedule_order)
  have k: "keep_as_crash (\<lambda>x. x) ?w ?v ?a = Inr (Sv_return, ?v\<lparr>sv_classified := True\<rparr>, ?c)
      \<or> (\<exists>fn afl'. keep_as_crash (\<lambda>x. x) ?w ?v ?a = Inr (Sv_file fn, ?v\<lparr>sv_classified := True\<rparr>, afl')
           \<and> fs afl' fn = None \<and> \<not> fs_deny afl' fn \<and> virgin_crash afl' = virgin_crash ?c)"
  proof (cases "fst (has_new_bits b Virgin_crash) = 0")
    case True
    then show ?thesis unfolding keep_as_crash_def Let_def b(1) by (simp add: save_demo_fields)
  next
    case False
    have no: "afl_no_crash_readme ?c = 1" by (subst c) simp
    have "keep_as_crash (\<lambda>x. x) ?w ?v ?a = bind_result (describe_op ?w ?c 0 238) (\<lambda>(desc, afl).
      let fn = snprintf_path (out_dir afl @ ''/crashes/id:'' @ dec_pad 6 (unat (saved_crashes afl)) @ '',sig:''
                 @ dec_pad 2 (unat (last_kill_signal afl)) @ '','' @ desc);
          afl = afl\<lparr>saved_crashes := saved_crashes afl + 1\<rparr>
      in case get_cur_time ?w afl of (now, afl) \<Rightarrow>
           Inr (Sv_file fn, ?v\<lparr>sv_classified := True\<rparr>, afl\<lparr>last_crash_time := now, last_crash_execs := total_execs afl\<rparr>))"
      using False no unfolding keep_as_crash_def Let_def b(1) by (simp add: save_demo_fields)
    then show ?thesis
      using save_demo_crash_kept [OF c [unfolded b(3)], of ?w "?v\<lparr>sv_classified := True\<rparr>"] b(3) by auto
  qed
  show ?thesis
    using k
  proof (elim disjE exE conjE)
    assume "keep_as_crash (\<lambda>x. x) ?w ?v ?a = Inr (Sv_return, ?v\<lparr>sv_classified := True\<rparr>, ?c)"
    then show ?thesis using len unfolding go by (subst save_loop.simps) (simp add: handle_fault_def ex_bool_eq)
  next
    fix fn afl' assume f: "keep_as_crash (\<lambda>x. x) ?w ?v ?a = Inr (Sv_file fn, ?v\<lparr>sv_classified := True\<rparr>, afl')"
      "fs afl' fn = None" "\<not> fs_deny afl' fn" "virgin_crash afl' = virgin_crash ?c"
    have "save_file ?w afl' fn [1, 2, 3] 3 = Inr (afl'\<lparr>fs := (fs afl')(fn \<mapsto> [1, 2, 3])\<rparr>)"
      using f(2,3) by (simp add: demo_save_file)
    with f show ?thesis using len unfolding go by (subst save_loop.simps) (simp add: handle_fault_def ex_bool_eq)
  qed
qed

theorem crash_saved_once_witness:
  "\<exists>(b :: afl_save) t nf. save_if_interesting (\<lambda>x. x) (demo_world (\<lambda>_ _ _. ok_reply [1, 2])) b [4, 5] 2 FSRV_RUN_CRASH
     = Some (Inr (False, b\<lparr>total_crashes := 1, trace_bits := t, n_fuzz := nf\<rparr>))"
proof -
  obtain kept afl' where first: "save_if_interesting (\<lambda>x. x) (demo_world (\<lambda>_ _ _. ok_reply [1, 2]))
      (save_demo\<lparr>afl_no_crash_readme := 1\<rparr>) [1, 2, 3] 3 FSRV_RUN_CRASH = Some (Inr (kept, afl'))" "length (virgin_crash afl') = 64"
    using save_demo_crash by blast
  let ?b = "save_demo\<lparr>virgin_crash := virgin_crash afl'\<rparr>"
  have "\<exists>t nf. save_if_interesting (\<lambda>x. x) (demo_world (\<lambda>_ _ _. ok_reply [1, 2])) ?b [4, 5] 2 FSRV_RUN_CRASH
      = Some (Inr (False, ?b\<lparr>total_crashes := total_crashes ?b + 1, trace_bits := t, n_fuzz := nf\<rparr>))"
    by (rule crash_saved_once [OF _ _ _ _ _ _ first(1)])
      (simp_all add: cov_wf_def paths_ok_def save_demo_fields first(2) schedule_order)
  moreover have "total_crashes ?b = 0" by (simp add: save_demo_def afl_run.extend_def)
  ultimately have "\<exists>t nf. save_if_interesting (\<lambda>x. x) (demo_world (\<lambda>_ _ _. ok_reply [1, 2])) ?b [4, 5] 2 FSRV_RUN_CRASH
      = Some (Inr (False, ?b\<lparr>total_crashes := 1, trace_bits := t, n_fuzz := nf\<rparr>))" by simp
  then show ?thesis by (rule exI)
qed

end
