(* ===== verification/Afl_Det.thy ===== *)
theory Afl_Det
  imports Afl_Save
begin

unbundle bit_operations_syntax

text \<open>
  The deterministic stages of \<open>fuzz_one_original\<close> (\<open>src/afl-fuzz-one.c\<close>): the walking bit and byte flips with the
  collection of tokens and the effector map, the arithmetic and the interesting values in three widths, and the dictionary
  stages. \<open>common_fuzz_stuff\<close> is an argument of the definitions; a post-processor that writes into the buffer it is given
  is left out, so a run does not change \<open>out_buf\<close>.
\<close>

record afl_det = afl_save +
  stage_finds :: "u64 list"
  stage_cycles :: "u64 list"
  blocks_eff_total :: u64
  blocks_eff_select :: u64
  no_arith :: bool
  max_det_extras :: u32

text \<open>The local variables, and the byte behind the input (\<open>dv_behind\<close>), which is copied once and never used. Of \<open>a_collect\<close> and
  \<open>ex_tmp\<close> only bytes that were written are read.\<close>

record det_vars =
  dv_out :: bytes
  dv_eff :: bytes
  dv_eff_cnt :: u32
  dv_prev_cksum :: u64
  dv_clean_cksum :: u64
  dv_a_collect :: bytes
  dv_a_len :: u32
  dv_orig_hit :: u64
  dv_new_hit :: u64
  dv_ex_tmp :: bytes
  dv_behind :: u8

section \<open>Steps\<close>

text \<open>The flag of an outcome says that the entry is abandoned.\<close>

type_synonym 's det_out = "(bool \<times> det_vars \<times> 's) result option"
type_synonym 's det_step = "det_vars \<Rightarrow> 's \<Rightarrow> 's det_out"
type_synonym 's fuzzer = "'s \<Rightarrow> bytes \<Rightarrow> u32 \<Rightarrow> (bool \<times> 's) result option"

definition det_ok :: "'s det_step" where
  "det_ok v afl = Some (Inr (False, v, afl))"

definition det_bind :: "'s det_out \<Rightarrow> 's det_step \<Rightarrow> 's det_out" where
  "det_bind r f =
     (case r of
        None \<Rightarrow> None
      | Some (Inl err) \<Rightarrow> Some (Inl err)
      | Some (Inr (stop, v, afl)) \<Rightarrow> if stop then Some (Inr (True, v, afl)) else f v afl)"

definition det_try :: "'b result \<Rightarrow> ('b \<Rightarrow> 's det_out) \<Rightarrow> 's det_out" where
  "det_try r f = (case r of Inl err \<Rightarrow> Some (Inl err) | Inr x \<Rightarrow> f x)"

text \<open>\<open>if (common_fuzz_stuff(afl, out_buf, len)) { goto abandon_entry; }\<close>, with the buffer as it is now.\<close>

definition det_run :: "'s fuzzer \<Rightarrow> u32 \<Rightarrow> bytes \<Rightarrow> 's det_step" where
  "det_run cfs n out v afl =
     (case cfs afl out n of
        None \<Rightarrow> None
      | Some (Inl err) \<Rightarrow> Some (Inl err)
      | Some (Inr (stop, afl)) \<Rightarrow> Some (Inr (stop, v\<lparr>dv_out := out\<rparr>, afl)))"

primrec det_for :: "('i \<Rightarrow> 's det_step) \<Rightarrow> 'i list \<Rightarrow> 's det_step" where
  "det_for body [] v afl = det_ok v afl"
| "det_for body (i # is) v afl = det_bind (body i v afl) (det_for body is)"

text \<open>\<open>for (; afl->stage_cur < afl->stage_max; ++afl->stage_cur)\<close>.\<close>

partial_function (option) stage_loop :: "'a afl_det_scheme det_step \<Rightarrow> 'a afl_det_scheme det_step" where
  "stage_loop body v afl =
     (if stage_cur afl < stage_max afl
      then (case body v afl of
              None \<Rightarrow> None
            | Some (Inl err) \<Rightarrow> Some (Inl err)
            | Some (Inr (stop, v, afl)) \<Rightarrow>
                if stop then Some (Inr (True, v, afl))
                else stage_loop body v (afl\<lparr>stage_cur := stage_cur afl + 1\<rparr>))
      else Some (Inr (False, v, afl)))"

definition hit_count :: "'a afl_det_scheme \<Rightarrow> u64" where
  "hit_count afl = ucast (queued_items afl) + saved_crashes afl"

definition begin_stage :: "string \<Rightarrow> string \<Rightarrow> u32 \<Rightarrow> 'a afl_det_scheme \<Rightarrow> 'a afl_det_scheme" where
  "begin_stage name short smax afl = afl\<lparr>stage_name := name, stage_short := short, stage_cur := 0, stage_max := smax\<rparr>"

text \<open>The counters after a stage; the next one starts counting from here.\<close>

definition end_stage :: "nat \<Rightarrow> 'a afl_det_scheme det_step" where
  "end_stage k v afl =
     (let new_hit = hit_count afl in
      det_try (get_at ''stage_finds'' (stage_finds afl) k) (\<lambda>f.
      det_try (get_at ''stage_cycles'' (stage_cycles afl) k) (\<lambda>c.
      det_ok (v\<lparr>dv_new_hit := new_hit, dv_orig_hit := new_hit\<rparr>)
        (afl\<lparr>stage_finds := (stage_finds afl)[k := f + (new_hit - dv_orig_hit v)],
             stage_cycles := (stage_cycles afl)[k := c + ucast (stage_max afl)]\<rparr>))))"

section \<open>Walking bits\<close>

definition FLIP_BIT :: "bytes \<Rightarrow> u32 \<Rightarrow> bytes result" where
  "FLIP_BIT ar b =
     (let i = unat (drop_bit 3 b) in
      if i < length ar then Inr (ar[i := ar ! i XOR drop_bit (unat (b AND 7)) 128])
      else Inl (Out_of_bounds ''out_buf''))"

fun flip_bits :: "bytes \<Rightarrow> u32 list \<Rightarrow> bytes result" where
  "flip_bits ar [] = Inr ar"
| "flip_bits ar (b # bs) = bind_result (FLIP_BIT ar b) (\<lambda>ar. flip_bits ar bs)"

text \<open>The body of the three loops; they differ in the bits flipped, and only the first has something to do at the end.\<close>

definition walk_body ::
  "'a afl_det_scheme fuzzer \<Rightarrow> u32 \<Rightarrow> u32 list \<Rightarrow> 'a afl_det_scheme det_step \<Rightarrow> 'a afl_det_scheme det_step" where
  "walk_body cfs n offs after v afl =
     (let afl = afl\<lparr>stage_cur_byte := uint (drop_bit 3 (stage_cur afl))\<rparr> in
      det_try (flip_bits (dv_out v) (map (\<lambda>d. stage_cur afl + d) offs)) (\<lambda>out.
      det_bind (det_run cfs n out v afl) (\<lambda>v afl.
      det_try (flip_bits (dv_out v) (map (\<lambda>d. stage_cur afl + d) offs)) (\<lambda>out.
      after (v\<lparr>dv_out := out\<rparr>) afl))))"

definition walk_bits ::
  "'a afl_det_scheme fuzzer \<Rightarrow> u32 \<Rightarrow> u32 list \<Rightarrow> 'a afl_det_scheme det_step \<Rightarrow> 'a afl_det_scheme det_step" where
  "walk_bits cfs n offs after = stage_loop (walk_body cfs n offs after)"

definition collect_byte :: "u8 \<Rightarrow> det_vars \<Rightarrow> det_vars" where
  "collect_byte b v =
     (let v = (if dv_a_len v < of_nat MAX_AUTO_EXTRA
               then v\<lparr>dv_a_collect := (dv_a_collect v)[unat (dv_a_len v) := b]\<rparr> else v)
      in v\<lparr>dv_a_len := dv_a_len v + 1\<rparr>)"

definition flush_token :: "auto_extra_data qsorter \<Rightarrow> 'a afl_det_scheme det_step" where
  "flush_token qsort v afl =
     (if of_nat MIN_AUTO_EXTRA \<le> dv_a_len v \<and> dv_a_len v \<le> of_nat MAX_AUTO_EXTRA
      then (case maybe_add_auto qsort afl (dv_a_collect v) (dv_a_len v) of
              None \<Rightarrow> None
            | Some r \<Rightarrow> det_try r (det_ok v))
      else det_ok v afl)"

text \<open>The token collection while the least significant bit of a byte is flipped.\<close>

definition collect_token :: "auto_extra_data qsorter \<Rightarrow> 's world \<Rightarrow> 'a afl_det_scheme det_step" where
  "collect_token qsort w v afl =
     (if \<not> non_instrumented_mode afl \<and> stage_cur afl AND 7 = 7 then
        let cksum = trace_cksum w afl in
        det_try (get_at ''out_buf'' (dv_out v) (unat (drop_bit 3 (stage_cur afl)))) (\<lambda>b.
        det_bind
          (if stage_cur afl = stage_max afl - 1 \<and> cksum = dv_prev_cksum v then flush_token qsort (collect_byte b v) afl
           else if cksum \<noteq> dv_prev_cksum v
           then det_bind (flush_token qsort v afl) (\<lambda>v. det_ok (v\<lparr>dv_a_len := 0, dv_prev_cksum := cksum\<rparr>))
           else det_ok v afl) (\<lambda>v afl.
        det_ok (if cksum \<noteq> dv_clean_cksum v then collect_byte b v else v) afl))
      else det_ok v afl)"

definition flip1_stage ::
  "auto_extra_data qsorter \<Rightarrow> 'a afl_det_scheme fuzzer \<Rightarrow> 's world \<Rightarrow> u32 \<Rightarrow> 'a afl_det_scheme det_step" where
  "flip1_stage qsort cfs w n v afl =
     (let afl = afl\<lparr>stage_short := ''flip1'', stage_max := push_bit 3 n, stage_name := ''bitflip 1/1'',
                    stage_val_type := STAGE_VAL_NONE\<rparr>;
          v = v\<lparr>dv_orig_hit := hit_count afl\<rparr>
      in det_bind (det_run cfs n (dv_out v) v afl) (\<lambda>v afl.
         let ck = trace_cksum w afl in
         det_bind (walk_bits cfs n [0] (collect_token qsort w)
                     (v\<lparr>dv_prev_cksum := ck, dv_clean_cksum := ck\<rparr>) (afl\<lparr>stage_cur := 0\<rparr>)) (end_stage 0)))"

definition flip2_stage :: "'a afl_det_scheme fuzzer \<Rightarrow> u32 \<Rightarrow> 'a afl_det_scheme det_step" where
  "flip2_stage cfs n v afl =
     det_bind (walk_bits cfs n [0, 1] det_ok v (begin_stage ''bitflip 2/1'' ''flip2'' (push_bit 3 n - 1) afl)) (end_stage 1)"

definition flip4_stage :: "'a afl_det_scheme fuzzer \<Rightarrow> u32 \<Rightarrow> 'a afl_det_scheme det_step" where
  "flip4_stage cfs n v afl =
     det_bind (walk_bits cfs n [0, 1, 2, 3] det_ok v (begin_stage ''bitflip 4/1'' ''flip4'' (push_bit 3 n - 3) afl)) (end_stage 2)"

section \<open>Walking bytes and the effector map\<close>

abbreviation EFF_MIN_LEN :: u32 where "EFF_MIN_LEN \<equiv> 128"
abbreviation EFF_MAX_PERC :: u32 where "EFF_MAX_PERC \<equiv> 90"

definition EFF_APOS :: "u32 \<Rightarrow> u32" where
  "EFF_APOS p = drop_bit 3 p"

definition EFF_ALEN :: "u32 \<Rightarrow> u32" where
  "EFF_ALEN l = EFF_APOS l + (if l AND 7 \<noteq> 0 then 1 else 0)"

definition EFF_SPAN_ALEN :: "u32 \<Rightarrow> u32 \<Rightarrow> u32" where
  "EFF_SPAN_ALEN p l = EFF_APOS (p + l - 1) - EFF_APOS p + 1"

definition eff_at :: "det_vars \<Rightarrow> u32 \<Rightarrow> u8 result" where
  "eff_at v p = get_at ''eff_map'' (dv_eff v) (unat (EFF_APOS p))"

text \<open>The map before the walking bytes; the first and the last byte count as effective.\<close>

definition eff_setup :: "u32 \<Rightarrow> 'a afl_det_scheme det_step" where
  "eff_setup n v afl =
     (let eff = replicate (unat (EFF_ALEN n)) 0; l = unat (EFF_APOS (n - 1)) in
      det_try (get_at ''eff_map'' eff 0) (\<lambda>_.
      if l \<noteq> 0
      then det_try (get_at ''eff_map'' eff l) (\<lambda>_.
           det_ok (v\<lparr>dv_eff := eff[0 := 1, l := 1], dv_eff_cnt := dv_eff_cnt v + 1\<rparr>) afl)
      else det_ok (v\<lparr>dv_eff := eff[0 := 1]\<rparr>) afl))"

definition xor_bytes :: "nat \<Rightarrow> bytes \<Rightarrow> nat \<Rightarrow> bytes result" where
  "xor_bytes k ar i =
     (if i + k \<le> length ar then Inr (take i ar @ map (\<lambda>b. b XOR 0xFF) (take k (drop i ar)) @ drop (i + k) ar)
      else Inl (Out_of_bounds ''out_buf''))"

definition flag_effect :: "'s world \<Rightarrow> u32 \<Rightarrow> 'a afl_det_scheme det_step" where
  "flag_effect w n v afl =
     det_try (eff_at v (stage_cur afl)) (\<lambda>e.
     let cksum = (if \<not> non_instrumented_mode afl \<and> EFF_MIN_LEN \<le> n then trace_cksum w afl else NOT (dv_prev_cksum v)) in
     if e = 0 \<and> cksum \<noteq> dv_prev_cksum v
     then det_ok (v\<lparr>dv_eff := (dv_eff v)[unat (EFF_APOS (stage_cur afl)) := 1], dv_eff_cnt := dv_eff_cnt v + 1\<rparr>) afl
     else det_ok v afl)"

definition flip8_body :: "'a afl_det_scheme fuzzer \<Rightarrow> 's world \<Rightarrow> u32 \<Rightarrow> 'a afl_det_scheme det_step" where
  "flip8_body cfs w n v afl =
     (let afl = afl\<lparr>stage_cur_byte := sint (stage_cur afl)\<rparr> in
      det_try (xor_bytes 1 (dv_out v) (unat (stage_cur afl))) (\<lambda>out.
      det_bind (det_run cfs n out v afl) (\<lambda>v afl.
      det_bind (flag_effect w n v afl) (\<lambda>v afl.
      det_try (xor_bytes 1 (dv_out v) (unat (stage_cur afl))) (\<lambda>out.
      det_ok (v\<lparr>dv_out := out\<rparr>) afl)))))"

text \<open>A map that is nearly full is filled.\<close>

definition eff_finish :: "u32 \<Rightarrow> 'a afl_det_scheme det_step" where
  "eff_finish n v afl =
     (let alen = EFF_ALEN n; afl' = afl\<lparr>blocks_eff_total := blocks_eff_total afl + ucast alen\<rparr> in
      if dv_eff_cnt v \<noteq> alen \<and> EFF_MAX_PERC < dv_eff_cnt v * 100 div alen
      then det_ok (v\<lparr>dv_eff := replicate (unat alen) 1\<rparr>) (afl'\<lparr>blocks_eff_select := blocks_eff_select afl + ucast alen\<rparr>)
      else det_ok v (afl'\<lparr>blocks_eff_select := blocks_eff_select afl + ucast (dv_eff_cnt v)\<rparr>))"

definition flip8_stage :: "'a afl_det_scheme fuzzer \<Rightarrow> 's world \<Rightarrow> u32 \<Rightarrow> 'a afl_det_scheme det_step" where
  "flip8_stage cfs w n v afl =
     det_bind (stage_loop (flip8_body cfs w n) (v\<lparr>dv_prev_cksum := dv_clean_cksum v\<rparr>)
                 (begin_stage ''bitflip 8/8'' ''flip8'' n afl)) (\<lambda>v afl.
     det_bind (eff_finish n v afl) (end_stage 3))"

text \<open>Whether all of \<open>k\<close> bytes are without effect.\<close>

fun eff_none :: "det_vars \<Rightarrow> u32 \<Rightarrow> nat \<Rightarrow> bool result" where
  "eff_none v p 0 = Inr True"
| "eff_none v p (Suc k) = bind_result (eff_at v p) (\<lambda>e. if e \<noteq> 0 then Inr False else eff_none v (p + 1) k)"

definition flip_word_at :: "'a afl_det_scheme fuzzer \<Rightarrow> u32 \<Rightarrow> nat \<Rightarrow> nat \<Rightarrow> 'a afl_det_scheme det_step" where
  "flip_word_at cfs n k i v afl =
     det_try (eff_none v (of_nat i) k) (\<lambda>skip.
     if skip then det_ok v (afl\<lparr>stage_max := stage_max afl - 1\<rparr>)
     else
       let afl = afl\<lparr>stage_cur_byte := int i\<rparr> in
       det_try (xor_bytes k (dv_out v) i) (\<lambda>out.
       det_bind (det_run cfs n out v afl) (\<lambda>v afl.
       det_try (xor_bytes k (dv_out v) i) (\<lambda>out.
       det_ok (v\<lparr>dv_out := out\<rparr>) (afl\<lparr>stage_cur := stage_cur afl + 1\<rparr>)))))"

definition flip16_stage :: "'a afl_det_scheme fuzzer \<Rightarrow> u32 \<Rightarrow> 'a afl_det_scheme det_step" where
  "flip16_stage cfs n v afl =
     det_bind (det_for (flip_word_at cfs n 2) [0..<unat (n - 1)] v (begin_stage ''bitflip 16/8'' ''flip16'' (n - 1) afl)) (end_stage 4)"

definition flip32_stage :: "'a afl_det_scheme fuzzer \<Rightarrow> u32 \<Rightarrow> 'a afl_det_scheme det_step" where
  "flip32_stage cfs n v afl =
     det_bind (det_for (flip_word_at cfs n 4) [0..<unat (n - 3)] v (begin_stage ''bitflip 32/8'' ''flip32'' (n - 3) afl)) (end_stage 5)"

section \<open>Arithmetic\<close>

definition put_at :: "bytes \<Rightarrow> nat \<Rightarrow> u8 \<Rightarrow> bytes result" where
  "put_at ar i b = (if i < length ar then Inr (ar[i := b]) else Inl (Out_of_bounds ''out_buf''))"

text \<open>Access through a cast pointer to a word of \<open>k\<close> bytes.\<close>

definition read_at :: "nat \<Rightarrow> bytes \<Rightarrow> nat \<Rightarrow> 'w::len word result" where
  "read_at k ar i = (if i + k \<le> length ar then Inr (join_words (take k (drop i ar))) else Inl (Out_of_bounds ''out_buf''))"

definition write_at :: "nat \<Rightarrow> 'w::len word \<Rightarrow> bytes \<Rightarrow> nat \<Rightarrow> bytes result" where
  "write_at k x ar i =
     (if i + k \<le> length ar then Inr (take i ar @ split_word k x @ drop (i + k) ar) else Inl (Out_of_bounds ''out_buf''))"

text \<open>One value: it is tried when an earlier stage cannot have produced it, and otherwise taken off \<open>stage_max\<close>.\<close>

definition try_value ::
  "'a afl_det_scheme fuzzer \<Rightarrow> u32 \<Rightarrow> bool \<Rightarrow> ('a afl_det_scheme \<Rightarrow> 'a afl_det_scheme) \<Rightarrow> bytes result \<Rightarrow> 'a afl_det_scheme det_step"
  where
  "try_value cfs n fresh pre out v afl =
     (if fresh
      then det_try out (\<lambda>out. det_bind (det_run cfs n out v (pre afl)) (\<lambda>v afl.
           det_ok v (afl\<lparr>stage_cur := stage_cur afl + 1\<rparr>)))
      else det_ok v (afl\<lparr>stage_max := stage_max afl - 1\<rparr>))"

abbreviation set_val :: "int \<Rightarrow> 'a afl_det_scheme \<Rightarrow> 'a afl_det_scheme" where
  "set_val x afl \<equiv> afl\<lparr>stage_cur_val := x\<rparr>"

definition arith8_try :: "'a afl_det_scheme fuzzer \<Rightarrow> u32 \<Rightarrow> nat \<Rightarrow> u8 \<Rightarrow> nat \<Rightarrow> 'a afl_det_scheme det_step" where
  "arith8_try cfs n i orig j v afl =
     (let up = orig + of_nat j; down = orig - of_nat j in
      det_bind (try_value cfs n (\<not> could_be_bitflip (ucast (orig XOR up))) (set_val (int j)) (put_at (dv_out v) i up) v afl) (\<lambda>v afl.
      det_bind (try_value cfs n (\<not> could_be_bitflip (ucast (orig XOR down))) (set_val (- int j)) (put_at (dv_out v) i down) v afl) (\<lambda>v afl.
      det_try (put_at (dv_out v) i orig) (\<lambda>out. det_ok (v\<lparr>dv_out := out\<rparr>) afl))))"

definition arith8_at :: "'a afl_det_scheme fuzzer \<Rightarrow> u32 \<Rightarrow> nat \<Rightarrow> 'a afl_det_scheme det_step" where
  "arith8_at cfs n i v afl =
     det_try (get_at ''out_buf'' (dv_out v) i) (\<lambda>orig.
     det_try (eff_none v (of_nat i) 1) (\<lambda>skip.
     if skip then det_ok v (afl\<lparr>stage_max := stage_max afl - of_nat (2 * ARITH_MAX)\<rparr>)
     else det_for (arith8_try cfs n i orig) [1..<Suc ARITH_MAX] v (afl\<lparr>stage_cur_byte := int i\<rparr>)))"

definition arith8_stage :: "'a afl_det_scheme fuzzer \<Rightarrow> u32 \<Rightarrow> 'a afl_det_scheme det_step" where
  "arith8_stage cfs n v afl =
     (let afl = (begin_stage ''arith 8/8'' ''arith8'' (2 * n * of_nat ARITH_MAX) afl)\<lparr>stage_val_type := STAGE_VAL_LE\<rparr> in
      det_bind (det_for (arith8_at cfs n) [0..<unat n] v afl) (end_stage 6))"

text \<open>A change is left to the narrower stage unless it carries into the upper half.\<close>

definition arith16_try :: "'a afl_det_scheme fuzzer \<Rightarrow> u32 \<Rightarrow> nat \<Rightarrow> u16 \<Rightarrow> nat \<Rightarrow> 'a afl_det_scheme det_step" where
  "arith16_try cfs n i orig j v afl =
     (let up = orig + of_nat j; down = orig - of_nat j;
          up_be = SWAP16 (SWAP16 orig + of_nat j); down_be = SWAP16 (SWAP16 orig - of_nat j);
          fresh = (\<lambda>x. \<not> could_be_bitflip (ucast (orig XOR x)));
          le = (\<lambda>x afl. afl\<lparr>stage_cur_val := x, stage_val_type := STAGE_VAL_LE\<rparr>);
          be = (\<lambda>x afl. afl\<lparr>stage_cur_val := x, stage_val_type := STAGE_VAL_BE\<rparr>)
      in det_bind (try_value cfs n (0xff < unat (orig AND 0xff) + j \<and> fresh up) (le (int j)) (write_at 2 up (dv_out v) i)
                     v (afl\<lparr>stage_val_type := STAGE_VAL_LE\<rparr>)) (\<lambda>v afl.
         det_bind (try_value cfs n (unat (orig AND 0xff) < j \<and> fresh down) (le (- int j)) (write_at 2 down (dv_out v) i) v afl) (\<lambda>v afl.
         det_bind (try_value cfs n (0xff < unat (drop_bit 8 orig) + j \<and> fresh up_be) (be (int j)) (write_at 2 up_be (dv_out v) i)
                     v (afl\<lparr>stage_val_type := STAGE_VAL_BE\<rparr>)) (\<lambda>v afl.
         det_bind (try_value cfs n (unat (drop_bit 8 orig) < j \<and> fresh down_be) (be (- int j)) (write_at 2 down_be (dv_out v) i) v afl) (\<lambda>v afl.
         det_try (write_at 2 orig (dv_out v) i) (\<lambda>out. det_ok (v\<lparr>dv_out := out\<rparr>) afl))))))"

definition arith16_at :: "'a afl_det_scheme fuzzer \<Rightarrow> u32 \<Rightarrow> nat \<Rightarrow> 'a afl_det_scheme det_step" where
  "arith16_at cfs n i v afl =
     det_try (read_at 2 (dv_out v) i) (\<lambda>orig.
     det_try (eff_none v (of_nat i) 2) (\<lambda>skip.
     if skip then det_ok v (afl\<lparr>stage_max := stage_max afl - of_nat (4 * ARITH_MAX)\<rparr>)
     else det_for (arith16_try cfs n i orig) [1..<Suc ARITH_MAX] v (afl\<lparr>stage_cur_byte := int i\<rparr>)))"

definition arith16_stage :: "'a afl_det_scheme fuzzer \<Rightarrow> u32 \<Rightarrow> 'a afl_det_scheme det_step" where
  "arith16_stage cfs n v afl =
     det_bind (det_for (arith16_at cfs n) [0..<unat (n - 1)] v
                 (begin_stage ''arith 16/8'' ''arith16'' (4 * (n - 1) * of_nat ARITH_MAX) afl)) (end_stage 7)"

definition arith32_try :: "'a afl_det_scheme fuzzer \<Rightarrow> u32 \<Rightarrow> nat \<Rightarrow> u32 \<Rightarrow> nat \<Rightarrow> 'a afl_det_scheme det_step" where
  "arith32_try cfs n i orig j v afl =
     (let up = orig + of_nat j; down = orig - of_nat j;
          up_be = SWAP32 (SWAP32 orig + of_nat j); down_be = SWAP32 (SWAP32 orig - of_nat j);
          fresh = (\<lambda>x. \<not> could_be_bitflip (orig XOR x));
          le = (\<lambda>x afl. afl\<lparr>stage_cur_val := x, stage_val_type := STAGE_VAL_LE\<rparr>);
          be = (\<lambda>x afl. afl\<lparr>stage_cur_val := x, stage_val_type := STAGE_VAL_BE\<rparr>)
      in det_bind (try_value cfs n (0xffff < unat (orig AND 0xffff) + j \<and> fresh up) (le (int j)) (write_at 4 up (dv_out v) i)
                     v (afl\<lparr>stage_val_type := STAGE_VAL_LE\<rparr>)) (\<lambda>v afl.
         det_bind (try_value cfs n (unat (orig AND 0xffff) < j \<and> fresh down) (le (- int j)) (write_at 4 down (dv_out v) i) v afl) (\<lambda>v afl.
         det_bind (try_value cfs n (0xffff < unat (SWAP32 orig AND 0xffff) + j \<and> fresh up_be) (be (int j)) (write_at 4 up_be (dv_out v) i)
                     v (afl\<lparr>stage_val_type := STAGE_VAL_BE\<rparr>)) (\<lambda>v afl.
         det_bind (try_value cfs n (unat (SWAP32 orig AND 0xffff) < j \<and> fresh down_be) (be (- int j)) (write_at 4 down_be (dv_out v) i) v afl) (\<lambda>v afl.
         det_try (write_at 4 orig (dv_out v) i) (\<lambda>out. det_ok (v\<lparr>dv_out := out\<rparr>) afl))))))"

definition arith32_at :: "'a afl_det_scheme fuzzer \<Rightarrow> u32 \<Rightarrow> nat \<Rightarrow> 'a afl_det_scheme det_step" where
  "arith32_at cfs n i v afl =
     det_try (read_at 4 (dv_out v) i) (\<lambda>orig.
     det_try (eff_none v (of_nat i) 4) (\<lambda>skip.
     if skip then det_ok v (afl\<lparr>stage_max := stage_max afl - of_nat (4 * ARITH_MAX)\<rparr>)
     else det_for (arith32_try cfs n i orig) [1..<Suc ARITH_MAX] v (afl\<lparr>stage_cur_byte := int i\<rparr>)))"

definition arith32_stage :: "'a afl_det_scheme fuzzer \<Rightarrow> u32 \<Rightarrow> 'a afl_det_scheme det_step" where
  "arith32_stage cfs n v afl =
     det_bind (det_for (arith32_at cfs n) [0..<unat (n - 3)] v
                 (begin_stage ''arith 32/8'' ''arith32'' (4 * (n - 3) * of_nat ARITH_MAX) afl)) (end_stage 8)"

section \<open>Interesting values\<close>

definition interest8_try :: "'a afl_det_scheme fuzzer \<Rightarrow> u32 \<Rightarrow> nat \<Rightarrow> u8 \<Rightarrow> int \<Rightarrow> 'a afl_det_scheme det_step" where
  "interest8_try cfs n i orig c v afl =
     (let x = word_of_int c :: u8 in
      if could_be_bitflip (ucast (orig XOR x)) \<or> could_be_arith (ucast orig) (ucast x) 1
      then det_ok v (afl\<lparr>stage_max := stage_max afl - 1\<rparr>)
      else det_try (put_at (dv_out v) i x) (\<lambda>out.
           det_bind (det_run cfs n out v (set_val c afl)) (\<lambda>v afl.
           det_try (put_at (dv_out v) i orig) (\<lambda>out.
           det_ok (v\<lparr>dv_out := out\<rparr>) (afl\<lparr>stage_cur := stage_cur afl + 1\<rparr>)))))"

definition interest8_at :: "'a afl_det_scheme fuzzer \<Rightarrow> u32 \<Rightarrow> nat \<Rightarrow> 'a afl_det_scheme det_step" where
  "interest8_at cfs n i v afl =
     det_try (get_at ''out_buf'' (dv_out v) i) (\<lambda>orig.
     det_try (eff_none v (of_nat i) 1) (\<lambda>skip.
     if skip then det_ok v (afl\<lparr>stage_max := stage_max afl - of_nat (length interesting_8)\<rparr>)
     else det_for (interest8_try cfs n i orig) interesting_8 v (afl\<lparr>stage_cur_byte := int i\<rparr>)))"

definition interest8_stage :: "'a afl_det_scheme fuzzer \<Rightarrow> u32 \<Rightarrow> 'a afl_det_scheme det_step" where
  "interest8_stage cfs n v afl =
     (let afl = (begin_stage ''interest 8/8'' ''int8'' (n * of_nat (length interesting_8)) afl)\<lparr>stage_val_type := STAGE_VAL_LE\<rparr> in
      det_bind (det_for (interest8_at cfs n) [0..<unat n] v afl) (end_stage 9))"

text \<open>\<open>stage_cur_val\<close> is set before the tests.\<close>

definition interest16_try :: "'a afl_det_scheme fuzzer \<Rightarrow> u32 \<Rightarrow> nat \<Rightarrow> u16 \<Rightarrow> int \<Rightarrow> 'a afl_det_scheme det_step" where
  "interest16_try cfs n i orig c v afl =
     (let x = word_of_int c :: u16; y = SWAP16 x;
          fresh = (\<lambda>z be. \<not> could_be_bitflip (ucast (orig XOR z)) \<and> \<not> could_be_arith (ucast orig) (ucast z) 2
                    \<and> \<not> could_be_interest (ucast orig) (ucast z) 2 be)
      in det_bind (try_value cfs n (fresh x False) (\<lambda>afl. afl\<lparr>stage_val_type := STAGE_VAL_LE\<rparr>) (write_at 2 x (dv_out v) i) v (set_val c afl)) (\<lambda>v afl.
         try_value cfs n (x \<noteq> y \<and> fresh y True) (\<lambda>afl. afl\<lparr>stage_val_type := STAGE_VAL_BE\<rparr>) (write_at 2 y (dv_out v) i) v afl))"

definition interest16_at :: "'a afl_det_scheme fuzzer \<Rightarrow> u32 \<Rightarrow> nat \<Rightarrow> 'a afl_det_scheme det_step" where
  "interest16_at cfs n i v afl =
     det_try (read_at 2 (dv_out v) i) (\<lambda>orig.
     det_try (eff_none v (of_nat i) 2) (\<lambda>skip.
     if skip then det_ok v (afl\<lparr>stage_max := stage_max afl - of_nat (2 * length interesting_16)\<rparr>)
     else det_bind (det_for (interest16_try cfs n i orig) interesting_16 v (afl\<lparr>stage_cur_byte := int i\<rparr>)) (\<lambda>v afl.
          det_try (write_at 2 orig (dv_out v) i) (\<lambda>out. det_ok (v\<lparr>dv_out := out\<rparr>) afl))))"

definition interest16_stage :: "'a afl_det_scheme fuzzer \<Rightarrow> u32 \<Rightarrow> 'a afl_det_scheme det_step" where
  "interest16_stage cfs n v afl =
     det_bind (det_for (interest16_at cfs n) [0..<unat (n - 1)] v
                 (begin_stage ''interest 16/8'' ''int16'' (2 * (n - 1) * of_nat (length interesting_16)) afl)) (end_stage 10)"

definition interest32_try :: "'a afl_det_scheme fuzzer \<Rightarrow> u32 \<Rightarrow> nat \<Rightarrow> u32 \<Rightarrow> int \<Rightarrow> 'a afl_det_scheme det_step" where
  "interest32_try cfs n i orig c v afl =
     (let x = word_of_int c :: u32; y = SWAP32 x;
          fresh = (\<lambda>z be. \<not> could_be_bitflip (orig XOR z) \<and> \<not> could_be_arith orig z 4 \<and> \<not> could_be_interest orig z 4 be)
      in det_bind (try_value cfs n (fresh x False) (\<lambda>afl. afl\<lparr>stage_val_type := STAGE_VAL_LE\<rparr>) (write_at 4 x (dv_out v) i) v (set_val c afl)) (\<lambda>v afl.
         try_value cfs n (x \<noteq> y \<and> fresh y True) (\<lambda>afl. afl\<lparr>stage_val_type := STAGE_VAL_BE\<rparr>) (write_at 4 y (dv_out v) i) v afl))"

definition interest32_at :: "'a afl_det_scheme fuzzer \<Rightarrow> u32 \<Rightarrow> nat \<Rightarrow> 'a afl_det_scheme det_step" where
  "interest32_at cfs n i v afl =
     det_try (read_at 4 (dv_out v) i) (\<lambda>orig.
     det_try (eff_none v (of_nat i) 4) (\<lambda>skip.
     if skip then det_ok v (afl\<lparr>stage_max := stage_max afl - of_nat (2 * length interesting_32)\<rparr>)
     else det_bind (det_for (interest32_try cfs n i orig) interesting_32 v (afl\<lparr>stage_cur_byte := int i\<rparr>)) (\<lambda>v afl.
          det_try (write_at 4 orig (dv_out v) i) (\<lambda>out. det_ok (v\<lparr>dv_out := out\<rparr>) afl))))"

definition interest32_stage :: "'a afl_det_scheme fuzzer \<Rightarrow> u32 \<Rightarrow> 'a afl_det_scheme det_step" where
  "interest32_stage cfs n v afl =
     det_bind (det_for (interest32_at cfs n) [0..<unat (n - 3)] v
                 (begin_stage ''interest 32/8'' ''int32'' (2 * (n - 3) * of_nat (length interesting_32)) afl)) (end_stage 11)"

section \<open>Dictionaries\<close>

text \<open>A token as the loops see it: the buffer and the length.\<close>

definition put_token :: "bytes \<Rightarrow> u32 \<Rightarrow> bytes \<Rightarrow> nat \<Rightarrow> bytes result" where
  "put_token data k ar i =
     (if length data < unat k then Inl (Out_of_bounds ''extras'')
      else if length ar < i + unat k then Inl (Out_of_bounds ''out_buf'')
      else Inr (take i ar @ take (unat k) data @ drop (i + unat k) ar))"

text \<open>No room, no change, or no effective byte.\<close>

definition token_useless :: "u32 \<Rightarrow> nat \<Rightarrow> bytes \<Rightarrow> u32 \<Rightarrow> det_vars \<Rightarrow> bool result" where
  "token_useless n i data k v =
     (if n - of_nat i < k then Inr True
      else if length data < unat k then Inl (Out_of_bounds ''extras'')
      else if length (dv_out v) < i + unat k then Inl (Out_of_bounds ''out_buf'')
      else if take (unat k) data = take (unat k) (drop i (dv_out v)) then Inr True
      else let a = unat (EFF_APOS (of_nat i)); s = unat (EFF_SPAN_ALEN (of_nat i) k) in
           if length (dv_eff v) < a + s then Inl (Out_of_bounds ''eff_map'')
           else Inr (1 \<notin> set (take s (drop a (dv_eff v)))))"

text \<open>The state carries \<open>last_len\<close> beside the variables: a token is laid over the bytes of the one before.\<close>

fun overwrite_tokens ::
  "'a afl_det_scheme fuzzer \<Rightarrow> u32 \<Rightarrow> nat \<Rightarrow> ('a afl_det_scheme \<Rightarrow> (bool \<times> 'a afl_det_scheme) option) \<Rightarrow> (bytes \<times> u32) list \<Rightarrow> u32
     \<Rightarrow> det_vars \<Rightarrow> 'a afl_det_scheme \<Rightarrow> (bool \<times> u32 \<times> det_vars \<times> 'a afl_det_scheme) result option" where
  "overwrite_tokens cfs n i skips [] last_len v afl = Some (Inr (False, last_len, v, afl))"
| "overwrite_tokens cfs n i skips ((data, k) # ts) last_len v afl =
     (case skips afl of
        None \<Rightarrow> None
      | Some (skip, afl) \<Rightarrow>
          (case (if skip then Inr True else token_useless n i data k v) of
             Inl err \<Rightarrow> Some (Inl err)
           | Inr True \<Rightarrow> overwrite_tokens cfs n i skips ts last_len v (afl\<lparr>stage_max := stage_max afl - 1\<rparr>)
           | Inr False \<Rightarrow>
               (case put_token data k (dv_out v) i of
                  Inl err \<Rightarrow> Some (Inl err)
                | Inr out \<Rightarrow>
                    (case det_run cfs n out v afl of
                       None \<Rightarrow> None
                     | Some (Inl err) \<Rightarrow> Some (Inl err)
                     | Some (Inr (stop, v, afl)) \<Rightarrow>
                         if stop then Some (Inr (True, k, v, afl))
                         else overwrite_tokens cfs n i skips ts k v (afl\<lparr>stage_cur := stage_cur afl + 1\<rparr>)))))"

text \<open>Restoring \<open>last_len\<close> bytes from the input.\<close>

definition overwrite_at ::
  "'a afl_det_scheme fuzzer \<Rightarrow> u32 \<Rightarrow> bytes \<Rightarrow> ('a afl_det_scheme \<Rightarrow> (bool \<times> 'a afl_det_scheme) option) \<Rightarrow> ('a afl_det_scheme \<Rightarrow> (bytes \<times> u32) list)
     \<Rightarrow> nat \<Rightarrow> 'a afl_det_scheme det_step" where
  "overwrite_at cfs n in_buf skips tokens i v afl =
     (case overwrite_tokens cfs n i skips (tokens afl) 0 v (afl\<lparr>stage_cur_byte := int i\<rparr>) of
        None \<Rightarrow> None
      | Some (Inl err) \<Rightarrow> Some (Inl err)
      | Some (Inr (stop, last_len, v, afl)) \<Rightarrow>
          if stop then Some (Inr (True, v, afl))
          else det_try (put_token (drop i in_buf) last_len (dv_out v) i) (\<lambda>out. det_ok (v\<lparr>dv_out := out\<rparr>) afl))"

definition user_tokens :: "'a afl_det_scheme \<Rightarrow> (bytes \<times> u32) list" where
  "user_tokens afl = map (\<lambda>e. (ex_data e, ex_len e)) (extras afl)"

definition auto_tokens :: "nat \<Rightarrow> 'a afl_det_scheme \<Rightarrow> (bytes \<times> u32) list" where
  "auto_tokens k afl = map (\<lambda>e. (ae_data e, ae_len e)) (take k (a_extras afl))"

abbreviation extras_cnt :: "'a afl_extras_scheme \<Rightarrow> u32" where
  "extras_cnt afl \<equiv> of_nat (length (extras afl))"

text \<open>With many tokens some are skipped at random.\<close>

definition skip_extra :: "'a afl_det_scheme \<Rightarrow> (bool \<times> 'a afl_det_scheme) option" where
  "skip_extra afl =
     (if max_det_extras afl < extras_cnt afl
      then map_option (\<lambda>(r, afl). (max_det_extras afl \<le> r, afl)) (rand_below afl (extras_cnt afl))
      else Some (False, afl))"

definition extras_over_stage :: "'a afl_det_scheme fuzzer \<Rightarrow> u32 \<Rightarrow> bytes \<Rightarrow> 'a afl_det_scheme det_step" where
  "extras_over_stage cfs n in_buf v afl =
     (let afl = (begin_stage ''user extras (over)'' ''ext_UO'' (extras_cnt afl * n) afl)\<lparr>stage_val_type := STAGE_VAL_NONE\<rparr> in
      det_bind (det_for (overwrite_at cfs n in_buf skip_extra user_tokens) [0..<unat n] v afl) (end_stage 12))"

text \<open>\<open>ex_tmp\<close> holds the first \<open>i\<close> bytes of the input; the token and the tail are put behind them.\<close>

definition insert_token ::
  "'a afl_det_scheme fuzzer \<Rightarrow> u32 \<Rightarrow> nat \<Rightarrow> bytes \<times> u32 \<Rightarrow> 'a afl_det_scheme det_step" where
  "insert_token cfs n i t v afl =
     (case t of (data, k) \<Rightarrow>
        if MAX_FILE < n + k then det_ok v (afl\<lparr>stage_max := stage_max afl - 1\<rparr>)
        else if length data < unat k then Some (Inl (Out_of_bounds ''extras''))
        else if length (dv_ex_tmp v) < unat n + unat k then Some (Inl (Out_of_bounds ''ex_tmp''))
        else
          let ex = take i (dv_ex_tmp v) @ take (unat k) data @ drop i (dv_out v) @ drop (unat n + unat k) (dv_ex_tmp v) in
          (case cfs afl ex (n + k) of
             None \<Rightarrow> None
           | Some (Inl err) \<Rightarrow> Some (Inl err)
           | Some (Inr (stop, afl)) \<Rightarrow>
               Some (Inr (stop, v\<lparr>dv_ex_tmp := ex\<rparr>, if stop then afl else afl\<lparr>stage_cur := stage_cur afl + 1\<rparr>))))"

text \<open>At the end of the last round the source copies the byte behind the input (\<open>dv_behind\<close>), whatever it is.\<close>

definition insert_at ::
  "'a afl_det_scheme fuzzer \<Rightarrow> u32 \<Rightarrow> ('a afl_det_scheme \<Rightarrow> (bytes \<times> u32) list) \<Rightarrow> nat \<Rightarrow> 'a afl_det_scheme det_step" where
  "insert_at cfs n tokens i v afl =
     det_bind (det_for (insert_token cfs n i) (tokens afl) v (afl\<lparr>stage_cur_byte := int i\<rparr>)) (\<lambda>v afl.
     det_try (get_at ''out_buf'' (dv_out v @ [dv_behind v]) i) (\<lambda>b.
     if i < length (dv_ex_tmp v) then det_ok (v\<lparr>dv_ex_tmp := (dv_ex_tmp v)[i := b]\<rparr>) afl
     else Some (Inl (Out_of_bounds ''ex_tmp''))))"

definition extras_insert_stage :: "'a afl_det_scheme fuzzer \<Rightarrow> u32 \<Rightarrow> 'a afl_det_scheme det_step" where
  "extras_insert_stage cfs n v afl =
     det_bind (det_for (insert_at cfs n user_tokens) [0..<Suc (unat n)] (v\<lparr>dv_ex_tmp := replicate (unat (n + MAX_DICT_FILE)) 0\<rparr>)
                 (begin_stage ''user extras (insert)'' ''ext_UI'' (extras_cnt afl * (n + 1)) afl)) (end_stage 13)"

definition auto_over_stage :: "'a afl_det_scheme fuzzer \<Rightarrow> u32 \<Rightarrow> bytes \<Rightarrow> 'a afl_det_scheme det_step" where
  "auto_over_stage cfs n in_buf v afl =
     (let k = min (a_extras_cnt afl) (of_nat USE_AUTO_EXTRAS);
          afl = (begin_stage ''auto extras (over)'' ''ext_AO'' (k * n) afl)\<lparr>stage_val_type := STAGE_VAL_NONE\<rparr>
      in det_bind (det_for (overwrite_at cfs n in_buf (\<lambda>afl. Some (False, afl))
                              (\<lambda>afl. auto_tokens (unat (min (a_extras_cnt afl) (of_nat USE_AUTO_EXTRAS))) afl)) [0..<unat n] v afl)
           (end_stage 14))"

definition auto_insert_stage :: "'a afl_det_scheme fuzzer \<Rightarrow> u32 \<Rightarrow> 'a afl_det_scheme det_step" where
  "auto_insert_stage cfs n v afl =
     det_bind (det_for (insert_at cfs n (\<lambda>afl. auto_tokens (unat (a_extras_cnt afl)) afl)) [0..<Suc (unat n)]
                 (v\<lparr>dv_ex_tmp := replicate (unat (n + MAX_DICT_FILE)) 0\<rparr>)
                 (begin_stage ''auto extras (insert)'' ''ext_AI'' (a_extras_cnt afl * (n + 1)) afl)) (end_stage 15)"

section \<open>All stages\<close>

definition wider_flips :: "'a afl_det_scheme fuzzer \<Rightarrow> 's world \<Rightarrow> u32 \<Rightarrow> 'a afl_det_scheme det_step" where
  "wider_flips cfs w n v afl =
     det_bind (flip2_stage cfs n v afl) (\<lambda>v afl.
     det_bind (flip4_stage cfs n v afl) (\<lambda>v afl.
     det_bind (eff_setup n v afl) (\<lambda>v afl.
     det_bind (flip8_stage cfs w n v afl) (\<lambda>v afl.
     if n < 2 then det_ok v afl
     else det_bind (flip16_stage cfs n v afl) (\<lambda>v afl.
          if n < 4 then det_ok v afl else flip32_stage cfs n v afl)))))"

definition bitflips ::
  "auto_extra_data qsorter \<Rightarrow> 'a afl_det_scheme fuzzer \<Rightarrow> 's world \<Rightarrow> u32 \<Rightarrow> 'a afl_det_scheme det_step" where
  "bitflips qsort cfs w n v afl = det_bind (flip1_stage qsort cfs w n v afl) (wider_flips cfs w n)"

definition ariths :: "'a afl_det_scheme fuzzer \<Rightarrow> u32 \<Rightarrow> 'a afl_det_scheme det_step" where
  "ariths cfs n v afl =
     (if no_arith afl then det_ok v afl
      else det_bind (arith8_stage cfs n v afl) (\<lambda>v afl.
           if n < 2 then det_ok v afl
           else det_bind (arith16_stage cfs n v afl) (\<lambda>v afl.
                if n < 4 then det_ok v afl else arith32_stage cfs n v afl)))"

definition interests :: "'a afl_det_scheme fuzzer \<Rightarrow> u32 \<Rightarrow> 'a afl_det_scheme det_step" where
  "interests cfs n v afl =
     det_bind (interest8_stage cfs n v afl) (\<lambda>v afl.
     if no_arith afl \<or> n < 2 then det_ok v afl
     else det_bind (interest16_stage cfs n v afl) (\<lambda>v afl.
          if n < 4 then det_ok v afl else interest32_stage cfs n v afl))"

definition dictionaries :: "'a afl_det_scheme fuzzer \<Rightarrow> u32 \<Rightarrow> bytes \<Rightarrow> 'a afl_det_scheme det_step" where
  "dictionaries cfs n in_buf v afl =
     det_bind (if extras_cnt afl = 0 then det_ok v afl
               else det_bind (extras_over_stage cfs n in_buf v afl) (extras_insert_stage cfs n)) (\<lambda>v afl.
     if a_extras_cnt afl = 0 then det_ok v afl
     else det_bind (auto_over_stage cfs n in_buf v afl) (auto_insert_stage cfs n))"

text \<open>From \<open>doing_det = 1\<close> to \<open>custom_mutator_stage\<close>.\<close>

definition det_vars0 :: "bytes \<Rightarrow> det_vars" where
  "det_vars0 out = \<lparr>dv_out = out, dv_eff = [], dv_eff_cnt = 1, dv_prev_cksum = 0, dv_clean_cksum = 0,
     dv_a_collect = replicate MAX_AUTO_EXTRA 0, dv_a_len = 0, dv_orig_hit = 0, dv_new_hit = 0, dv_ex_tmp = [],
     dv_behind = 0\<rparr>"

definition det_stages ::
  "auto_extra_data qsorter \<Rightarrow> 'a afl_det_scheme fuzzer \<Rightarrow> 's world \<Rightarrow> u32 \<Rightarrow> bytes \<Rightarrow> qid \<Rightarrow> bytes \<Rightarrow> 'a afl_det_scheme
     \<Rightarrow> 'a afl_det_scheme det_out" where
  "det_stages qsort cfs w n in_buf cur out afl =
     det_bind (bitflips qsort cfs w n (det_vars0 out) afl) (\<lambda>v afl.
     det_bind (ariths cfs n v afl) (\<lambda>v afl.
     det_bind (interests cfs n v afl) (\<lambda>v afl.
     det_bind (dictionaries cfs n in_buf v afl) (\<lambda>v afl.
     det_try (get_q afl cur) (\<lambda>e.
     if passed_det e then det_ok v afl
     else det_try (mark_as_det_done afl cur) (det_ok v))))))"

end
