(* ===== verification/Afl_Restore.thy ===== *)
theory Afl_Restore
  imports Afl_Det
begin

unbundle bit_operations_syntax

text \<open>
  Reasoning about the deterministic stages: what a step establishes when it ends, and when it ends; how each kind of change
  is undone; and, stage by stage, that the buffer is put back, that no access leaves a buffer and that the loops end.
\<close>

section \<open>Reasoning about steps\<close>

text \<open>
  \<open>Q\<close> holds when a step ends without abandoning the entry; with the flag set, it also ends, and without a bad access.
\<close>

fun det_returns :: "'s det_out \<Rightarrow> bool" where
  "det_returns (Some (Inr x)) = True"
| "det_returns r = False"

definition ends_in :: "bool \<Rightarrow> (det_vars \<Rightarrow> 's \<Rightarrow> bool) \<Rightarrow> 's det_out \<Rightarrow> bool" where
  "ends_in t Q r \<longleftrightarrow> (\<forall>v afl. r = Some (Inr (False, v, afl)) \<longrightarrow> Q v afl) \<and> (t \<longrightarrow> det_returns r)"

lemma ends_in_ok: "Q v afl \<Longrightarrow> ends_in t Q (det_ok v afl)"
  by (simp add: ends_in_def det_ok_def)

lemma ends_in_err: "ends_in False Q (Some (Inl err))"
  by (simp add: ends_in_def)

lemma ends_in_bind:
  assumes "ends_in t P r" and "\<And>v afl. P v afl \<Longrightarrow> ends_in t Q (f v afl)"
  shows "ends_in t Q (det_bind r f)"
proof (cases r)
  case (Some x)
  show ?thesis
  proof (cases x)
    case (Inr y)
    obtain stop v afl where "y = (stop, v, afl)" by (cases y)
    then show ?thesis using assms(1) assms(2) [of v afl] Some Inr by (cases stop) (auto simp: ends_in_def det_bind_def)
  qed (use assms Some in \<open>simp add: ends_in_def det_bind_def\<close>)
qed (use assms in \<open>simp add: ends_in_def det_bind_def\<close>)

lemma ends_in_try:
  assumes "\<And>x. r = Inr x \<Longrightarrow> ends_in t Q (f x)" and "t \<Longrightarrow> \<exists>x. r = Inr x"
  shows "ends_in t Q (det_try r f)"
  using assms by (cases r) (auto simp: ends_in_def det_try_def)

lemma ends_in_weaken: "ends_in t P r \<Longrightarrow> (\<And>v afl. P v afl \<Longrightarrow> Q v afl) \<Longrightarrow> ends_in t Q r"
  by (simp add: ends_in_def)

lemma ends_in_for:
  assumes "\<And>i v afl. i \<in> set is \<Longrightarrow> I v afl \<Longrightarrow> ends_in t I (body i v afl)" and "I v afl"
  shows "ends_in t I (det_for body is v afl)"
  using assms
proof (induction "is" arbitrary: v afl)
  case Nil
  then show ?case by (simp add: ends_in_ok)
next
  case (Cons i "is")
  show ?case unfolding det_for.simps
    by (rule ends_in_bind [where P = I]) (use Cons in simp_all)
qed

text \<open>A loop over \<open>stage_cur\<close> ends when its body leaves the two counters alone.\<close>

lemma ends_in_loop:
  fixes afl :: "'a afl_det_scheme"
  assumes body: "\<And>v afl. I v afl \<Longrightarrow> stage_cur afl < stage_max afl \<Longrightarrow>
      ends_in t (\<lambda>v' afl'. I v' (afl'\<lparr>stage_cur := stage_cur afl + 1\<rparr>) \<and> stage_cur afl' = stage_cur afl \<and> stage_max afl' = stage_max afl)
        (body v afl)"
    and start: "I v afl"
  shows "ends_in t (\<lambda>v afl. I v afl \<and> stage_max afl \<le> stage_cur afl) (stage_loop body v afl)" (is "ends_in t ?I _")
  using start
proof (induction "unat (stage_max afl) - unat (stage_cur afl)" arbitrary: v afl rule: less_induct)
  case less
  show ?case
  proof (cases "stage_cur afl < stage_max afl")
    case False
    then show ?thesis using less.prems by (subst stage_loop.simps) (simp add: ends_in_def)
  next
    case True
    let ?Q = "\<lambda>v' afl'. I v' (afl'\<lparr>stage_cur := stage_cur afl + 1\<rparr>) \<and> stage_cur afl' = stage_cur afl \<and> stage_max afl' = stage_max afl"
    have "stage_loop body v afl = det_bind (body v afl) (\<lambda>v afl. stage_loop body v (afl\<lparr>stage_cur := stage_cur afl + 1\<rparr>))"
      using True by (subst stage_loop.simps) (simp add: det_bind_def)
    moreover have "ends_in t ?I (det_bind (body v afl) (\<lambda>v afl. stage_loop body v (afl\<lparr>stage_cur := stage_cur afl + 1\<rparr>)))"
    proof (rule ends_in_bind [where P = ?Q])
      show "ends_in t ?Q (body v afl)" by (rule body [OF less.prems True])
      fix u and b :: "'a afl_det_scheme" assume b: "?Q u b"
      have "unat (stage_cur afl + 1) = Suc (unat (stage_cur afl))"
        using True unat_lt2p [of "stage_max afl"] by (subst unat_add_small) (simp_all add: word_less_nat_alt)
      then show "ends_in t ?I (stage_loop body u (b\<lparr>stage_cur := stage_cur b + 1\<rparr>))"
        using b True by (intro less.hyps) (simp_all add: word_less_nat_alt)
    qed
    ultimately show ?thesis by simp
  qed
qed

text \<open>What a run must leave alone: the position of the stage, its counters and the tokens.\<close>

definition same_tokens :: "'a afl_det_scheme \<Rightarrow> 'a afl_det_scheme \<Rightarrow> bool" where
  "same_tokens a b \<longleftrightarrow> extras a = extras b \<and> a_extras a = a_extras b \<and> a_extras_cnt a = a_extras_cnt b"

definition same_stage :: "'a afl_det_scheme \<Rightarrow> 'a afl_det_scheme \<Rightarrow> bool" where
  "same_stage a b \<longleftrightarrow> stage_cur a = stage_cur b \<and> stage_max a = stage_max b \<and> length (stage_finds a) = length (stage_finds b)
     \<and> length (stage_cycles a) = length (stage_cycles b)"

definition calm :: "bool \<Rightarrow> 'a afl_det_scheme fuzzer \<Rightarrow> bool" where
  "calm t cfs \<longleftrightarrow> (\<forall>afl out n. fsrv_pid afl \<noteq> 0 \<longrightarrow>
     (\<forall>stop afl'. cfs afl out n = Some (Inr (stop, afl')) \<longrightarrow> fsrv_pid afl' \<noteq> 0 \<and> same_stage afl' afl \<and> same_tokens afl' afl)
     \<and> (t \<longrightarrow> unat n \<le> length out \<longrightarrow> (\<exists>x. cfs afl out n = Some (Inr x))))"

lemma ends_in_run:
  assumes "calm t cfs" and "fsrv_pid afl \<noteq> 0" and "t \<Longrightarrow> unat n \<le> length out"
    and "\<And>afl'. fsrv_pid afl' \<noteq> 0 \<Longrightarrow> same_stage afl' afl \<Longrightarrow> same_tokens afl' afl \<Longrightarrow> Q (v\<lparr>dv_out := out\<rparr>) afl'"
  shows "ends_in t Q (det_run cfs n out v afl)"
proof -
  have "\<exists>x. cfs afl out n = Some (Inr x)" if t using assms(1-3) that by (simp add: calm_def)
  moreover have "Q (v\<lparr>dv_out := out\<rparr>) b" if "cfs afl out n = Some (Inr (stop, b))" for stop b
    using assms(1,2,4) that unfolding calm_def by blast
  ultimately show ?thesis by (auto simp: ends_in_def det_run_def split: option.splits sum.splits prod.splits)
qed

section \<open>Undoing changes\<close>

definition flip_one :: "bytes \<Rightarrow> u32 \<Rightarrow> bytes" where
  "flip_one ar b = ar[unat (drop_bit 3 b) := ar ! unat (drop_bit 3 b) XOR drop_bit (unat (b AND 7)) 128]"

lemma flip_one_length [simp]: "length (flip_one ar b) = length ar"
  by (simp add: flip_one_def)

lemma flip_one_twice: "flip_one (flip_one ar b) b = ar"
  by (cases "unat (drop_bit 3 b) < length ar")
    (simp_all add: flip_one_def xor.assoc list_update_same_conv list_update_beyond)

lemma flip_one_commute: "flip_one (flip_one ar a) b = flip_one (flip_one ar b) a"
proof (cases "unat (drop_bit 3 a) = unat (drop_bit 3 b)")
  case True
  then show ?thesis
    by (cases "unat (drop_bit 3 b) < length ar") (simp_all add: flip_one_def xor.assoc xor.commute xor.left_commute list_update_beyond)
next
  case False
  then show ?thesis by (simp add: flip_one_def list_update_swap)
qed

lemma flip_bits_eq:
  "flip_bits ar bs = (if \<forall>b \<in> set bs. unat (drop_bit 3 b) < length ar then Inr (foldl flip_one ar bs)
     else Inl (Out_of_bounds ''out_buf''))"
proof (induction bs arbitrary: ar)
  case (Cons b bs)
  show ?case
  proof (cases "unat (drop_bit 3 b) < length ar")
    case True
    then have "FLIP_BIT ar b = Inr (flip_one ar b)" by (simp add: FLIP_BIT_def flip_one_def Let_def)
    then show ?thesis using Cons.IH [of "flip_one ar b"] True by simp
  qed (simp add: FLIP_BIT_def Let_def)
qed simp

lemma foldl_flip_length [simp]: "length (foldl flip_one ar bs) = length ar"
  by (induction bs arbitrary: ar) simp_all

lemma foldl_flip_push: "flip_one (foldl flip_one ar bs) b = foldl flip_one (flip_one ar b) bs"
  by (induction bs arbitrary: ar) (simp_all add: flip_one_commute)

lemma foldl_flip_twice: "foldl flip_one (foldl flip_one ar bs) bs = ar"
proof (induction bs arbitrary: ar)
  case (Cons b bs)
  have "foldl flip_one (foldl flip_one ar (b # bs)) (b # bs) = foldl flip_one (foldl flip_one (flip_one (flip_one ar b) b) bs) bs"
    by (simp add: foldl_flip_push)
  then show ?case using Cons.IH by (simp add: flip_one_twice)
qed simp

lemma flip_bits_undo: "flip_bits ar bs = Inr ar' \<Longrightarrow> flip_bits ar' bs = Inr ar"
  by (auto simp: flip_bits_eq foldl_flip_twice split: if_splits)

lemma xor_bytes_undo: "xor_bytes k ar i = Inr ar' \<Longrightarrow> xor_bytes k ar' i = Inr ar"
proof -
  assume a: "xor_bytes k ar i = Inr ar'"
  then have le: "i + k \<le> length ar" and ar': "ar' = take i ar @ map (\<lambda>b. b XOR 0xFF) (take k (drop i ar)) @ drop (i + k) ar"
    by (auto simp: xor_bytes_def split: if_splits)
  have "map (\<lambda>b. b XOR 0xFF) (map (\<lambda>b. b XOR 0xFF) xs) = (xs :: bytes)" for xs by (simp add: xor.assoc o_def)
  moreover have "take i ar' = take i ar" "take k (drop i ar') = map (\<lambda>b. b XOR 0xFF) (take k (drop i ar))"
    "drop (i + k) ar' = drop (i + k) ar" "length ar' = length ar"
    using le by (auto simp: ar' min_def)
  moreover have "take i ar @ take k (drop i ar) @ drop (i + k) ar = ar"
    by (metis append_assoc append_take_drop_id take_add)
  ultimately show ?thesis using le by (simp add: xor_bytes_def)
qed

text \<open>Equal except for \<open>k\<close> bytes at \<open>i\<close>.\<close>

definition same_but :: "nat \<Rightarrow> nat \<Rightarrow> bytes \<Rightarrow> bytes \<Rightarrow> bool" where
  "same_but i k buf ar \<longleftrightarrow> length ar = length buf \<and> take i ar = take i buf \<and> drop (i + k) ar = drop (i + k) buf"

lemma same_but_refl [simp]: "same_but i k buf buf"
  by (simp add: same_but_def)

lemma write_at_same_but:
  assumes "same_but i k buf ar" and "write_at k x ar i = Inr ar'"
  shows "same_but i k buf ar'"
  using assms by (auto simp: same_but_def write_at_def min_def split: if_splits)

lemma take_drop_id: "take i ar @ take k (drop i ar) @ drop (i + k) ar = ar"
  by (metis append_assoc append_take_drop_id take_add)

lemma write_at_restore:
  fixes orig :: "'w::len word"
  assumes "read_at k buf i = Inr orig" and "8 * k = LENGTH('w)" and "same_but i k buf ar"
  shows "write_at k orig ar i = Inr buf"
proof -
  have le: "i + k \<le> length buf" and o: "orig = join_words (take k (drop i buf))"
    using assms(1) by (auto simp: read_at_def split: if_splits)
  have "split_word k orig = take k (drop i buf)"
    unfolding o using le assms(2) by (intro split_word_join_words) simp_all
  then show ?thesis using assms(3) le take_drop_id [of i buf k] by (simp add: write_at_def same_but_def)
qed

lemma put_at_same_but:
  assumes "same_but i 1 buf ar" and "put_at ar i x = Inr ar'"
  shows "same_but i 1 buf ar'"
  using assms by (auto simp: same_but_def put_at_def split: if_splits)

lemma put_at_restore:
  assumes "get_at what buf i = Inr orig" and "same_but i 1 buf ar"
  shows "put_at ar i orig = Inr buf"
proof -
  have i: "i < length buf" and o: "orig = buf ! i" using assms(1) by (auto simp: get_at_def split: if_splits)
  have s: "length ar = length buf" "take i ar = take i buf" "drop (Suc i) ar = drop (Suc i) buf"
    using assms(2) by (simp_all add: same_but_def)
  have "ar[i := orig] = take i buf @ orig # drop (Suc i) buf" using i s by (simp add: upd_conv_take_nth_drop)
  also have "\<dots> = buf" using i o by (simp add: id_take_nth_drop [symmetric])
  finally show ?thesis using i s by (simp add: put_at_def)
qed

section \<open>Every stage restores the buffer\<close>

text \<open>Between two rounds: the buffer is the input, and the arrays have their sizes when the flag asks for it.\<close>

definition whole :: "bool \<Rightarrow> u32 \<Rightarrow> bytes \<Rightarrow> det_vars \<Rightarrow> 'a afl_det_scheme \<Rightarrow> bool" where
  "whole t n buf v afl \<longleftrightarrow> dv_out v = buf \<and> fsrv_pid afl \<noteq> 0
     \<and> (t \<longrightarrow> length buf = unat n \<and> 16 \<le> length (stage_finds afl) \<and> 16 \<le> length (stage_cycles afl))"

lemma whole_upd [simp]:
  "whole t n buf v (afl\<lparr>stage_cur := c\<rparr>) = whole t n buf v afl" "whole t n buf v (afl\<lparr>stage_max := m\<rparr>) = whole t n buf v afl"
  "whole t n buf v (afl\<lparr>stage_cur_byte := b\<rparr>) = whole t n buf v afl" "whole t n buf v (afl\<lparr>stage_val_type := y\<rparr>) = whole t n buf v afl"
  "whole t n buf v (afl\<lparr>stage_cur_val := x\<rparr>) = whole t n buf v afl" "whole t n buf v (begin_stage nm sh mx afl) = whole t n buf v afl"
  "whole t n buf (v\<lparr>dv_prev_cksum := p\<rparr>) afl = whole t n buf v afl" "whole t n buf (v\<lparr>dv_a_len := k\<rparr>) afl = whole t n buf v afl"
  "whole t n buf (v\<lparr>dv_ex_tmp := ex\<rparr>) afl = whole t n buf v afl" "whole t n buf (v\<lparr>dv_eff := eff\<rparr>) afl = whole t n buf v afl"
  "whole t n buf (v\<lparr>dv_eff_cnt := ec\<rparr>) afl = whole t n buf v afl" "whole t n buf (v\<lparr>dv_clean_cksum := cc\<rparr>) afl = whole t n buf v afl"
  by (simp_all add: whole_def begin_stage_def)

lemma begin_stage_max [simp]: "stage_max (begin_stage nm sh mx afl) = mx"
  by (simp add: begin_stage_def)

lemma end_stage_keeps:
  assumes "k < 16" and "whole t n buf v afl"
  shows "ends_in t (\<lambda>v' afl'. whole t n buf v' afl' \<and> dv_eff v' = dv_eff v) (end_stage k v afl)"
  unfolding end_stage_def Let_def
  by (intro ends_in_try ends_in_ok) (use assms in \<open>auto simp: whole_def get_at_def\<close>)

lemma stage_whole:
  assumes "ends_in t (whole t n buf) r" and "k < 16"
  shows "ends_in t (whole t n buf) (det_bind r (end_stage k))"
  by (rule ends_in_bind [OF assms(1)]) (blast intro: ends_in_weaken end_stage_keeps assms(2))

text \<open>A run with some other buffer of the same length.\<close>

lemma run_whole:
  assumes "calm t cfs" and "whole t n buf v afl" and "length out = length buf"
  shows "ends_in t (\<lambda>v' afl'. whole t n out v' afl' \<and> dv_eff v' = dv_eff v \<and> same_stage afl' afl) (det_run cfs n out v afl)"
  by (rule ends_in_run [OF assms(1)]) (use assms(2,3) in \<open>auto simp: whole_def same_stage_def\<close>)

text \<open>The bits of one round, as positions within the buffer.\<close>

definition bits_within :: "u32 \<Rightarrow> u32 list \<Rightarrow> 'a afl_det_scheme \<Rightarrow> bool" where
  "bits_within n offs afl \<longleftrightarrow> (\<forall>d \<in> set offs. unat (drop_bit 3 (stage_cur afl + d)) < unat n)"

lemma flip_bits_length: "flip_bits ar bs = Inr ar' \<Longrightarrow> length ar' = length ar"
  by (auto simp: flip_bits_eq split: if_splits)

lemma walk_body_whole:
  fixes afl :: "'a afl_det_scheme"
  assumes cfs: "calm t cfs" and inv: "whole t n buf v afl" and within: "t \<Longrightarrow> bits_within n offs afl"
    and after: "\<And>v afl. whole t n buf v afl \<Longrightarrow> ends_in t (\<lambda>v' afl'. whole t n buf v' afl' \<and> same_stage afl' afl) (after v afl)"
  shows "ends_in t (\<lambda>v' afl'. whole t n buf v' afl' \<and> stage_cur afl' = stage_cur afl \<and> stage_max afl' = stage_max afl)
    (walk_body cfs n offs after v afl)" (is "ends_in t ?Q _")
proof -
  let ?a = "afl\<lparr>stage_cur_byte := uint (drop_bit 3 (stage_cur afl))\<rparr>"
  have inv': "whole t n buf v ?a" and buf: "dv_out v = buf" using inv by (simp_all add: whole_def)
  have fits: "\<exists>out. flip_bits (dv_out u) (map (\<lambda>d. stage_cur b + d) offs) = Inr out"
    if t "length (dv_out u) = length buf" "stage_cur b = stage_cur afl" for u and b :: "'a afl_det_scheme"
    using that within inv by (simp add: flip_bits_eq bits_within_def whole_def)
  show ?thesis
    unfolding walk_body_def Let_def
  proof (rule ends_in_try)
    fix out assume out: "flip_bits (dv_out v) (map (\<lambda>d. stage_cur ?a + d) offs) = Inr out"
    have len: "length out = length buf" using flip_bits_length [OF out] buf by simp
    show "ends_in t ?Q (det_bind (det_run cfs n out v ?a)
        (\<lambda>v afl. det_try (flip_bits (dv_out v) (map (\<lambda>d. stage_cur afl + d) offs)) (\<lambda>out. after (v\<lparr>dv_out := out\<rparr>) afl)))"
    proof (rule ends_in_bind [OF run_whole [OF cfs inv' len]], rule ends_in_try)
      fix u and b :: "'a afl_det_scheme" and out' assume b: "whole t n out u b \<and> dv_eff u = dv_eff v \<and> same_stage b ?a"
        and "flip_bits (dv_out u) (map (\<lambda>d. stage_cur b + d) offs) = Inr out'"
      then have "out' = buf" using flip_bits_undo [OF out] buf by (simp add: whole_def same_stage_def)
      then have "whole t n buf (u\<lparr>dv_out := out'\<rparr>) b" using b len by (simp add: whole_def)
      from after [OF this] show "ends_in t ?Q (after (u\<lparr>dv_out := out'\<rparr>) b)"
        by (rule ends_in_weaken) (use b in \<open>auto simp: same_stage_def\<close>)
    next
      fix u and b :: "'a afl_det_scheme" assume t and b: "whole t n out u b \<and> dv_eff u = dv_eff v \<and> same_stage b ?a"
      then show "\<exists>x. flip_bits (dv_out u) (map (\<lambda>d. stage_cur b + d) offs) = Inr x"
        using len by (intro fits) (simp_all add: whole_def same_stage_def)
    qed
  qed (rule fits; simp add: buf)
qed

lemma walk_bits_whole:
  fixes afl :: "'a afl_det_scheme"
  assumes "calm t cfs" and inv: "whole t n buf v afl" and within: "\<And>b :: 'a afl_det_scheme. t \<Longrightarrow> stage_cur b < m \<Longrightarrow> bits_within n offs b" and m: "stage_max afl = m"
    and "\<And>v afl. whole t n buf v afl \<Longrightarrow> ends_in t (\<lambda>v' afl'. whole t n buf v' afl' \<and> same_stage afl' afl) (after v afl)"
  shows "ends_in t (whole t n buf) (walk_bits cfs n offs after v afl)"
proof -
  let ?I = "\<lambda>v afl. whole t n buf v afl \<and> stage_max afl = m"
  have "ends_in t (\<lambda>v afl. ?I v afl \<and> stage_max afl \<le> stage_cur afl) (walk_bits cfs n offs after v afl)"
    unfolding walk_bits_def
  proof (rule ends_in_loop)
    fix u and b :: "'a afl_det_scheme" assume b: "?I u b" and less: "stage_cur b < stage_max b"
    show "ends_in t (\<lambda>v' afl'. ?I v' (afl'\<lparr>stage_cur := stage_cur b + 1\<rparr>) \<and> stage_cur afl' = stage_cur b \<and> stage_max afl' = stage_max b) (walk_body cfs n offs after u b)"
      by (rule ends_in_weaken [OF walk_body_whole [OF assms(1) _ _ assms(5)]]) (use b less within in auto)
  qed (use inv m in auto)
  then show ?thesis by (rule ends_in_weaken) simp
qed

lemma more_pid: "afl_rand.more a = afl_rand.more b \<Longrightarrow> fsrv_pid (a :: 'a afl_det_scheme) = fsrv_pid b \<and> same_stage a b"
  by (cases a, cases b) (simp add: same_stage_def)

lemma same_stage_refl [simp]: "same_stage a a"
  by (simp add: same_stage_def)

lemma insert_auto_pid:
  fixes afl :: "'a afl_det_scheme"
  assumes "insert_auto mem n afl = Some (Inr afl')"
  shows "fsrv_pid afl' = fsrv_pid afl \<and> same_stage afl' afl"
  using assms
  by (auto simp: insert_auto_def append_auto_def replace_auto_def set_auto_def Let_def bind_result_Inr_iff same_stage_def
      split: if_splits option.splits prod.splits dest!: afl_rng.rb_rest more_pid)

lemma maybe_add_auto_pid:
  fixes afl :: "'a afl_det_scheme"
  assumes "maybe_add_auto qsort afl mem n = Some (Inr afl')"
  shows "fsrv_pid afl' = fsrv_pid afl \<and> same_stage afl' afl"
proof -
  have s: "fsrv_pid (sort_a_extras qsort a) = fsrv_pid a \<and> same_stage (sort_a_extras qsort a) a" for a :: "'a afl_det_scheme"
    by (simp add: sort_a_extras_def Let_def same_stage_def)
  show ?thesis
    using assms
    by (auto simp: maybe_add_auto_def Let_def s bind_result_Inr_iff same_stage_def s [unfolded same_stage_def]
        split: if_splits sum.splits bool.splits option.splits dest!: insert_auto_pid)
qed

lemma flush_token_whole:
  "whole False n buf v afl \<Longrightarrow> ends_in False (\<lambda>v' afl'. whole False n buf v' afl' \<and> same_stage afl' afl) (flush_token qsort v afl)"
  by (auto simp: flush_token_def ends_in_def det_try_def det_ok_def whole_def
      split: if_splits option.splits sum.splits dest: maybe_add_auto_pid)

lemma collect_token_whole:
  fixes afl :: "'a afl_det_scheme"
  assumes "whole False n buf v afl"
  shows "ends_in False (\<lambda>v' afl'. whole False n buf v' afl' \<and> same_stage afl' afl) (collect_token qsort w v afl)" (is "ends_in _ ?Q _")
proof -
  have c: "whole False n buf (collect_byte b v) afl = whole False n buf v afl" for b v and afl :: "'a afl_det_scheme"
    by (simp add: whole_def collect_byte_def Let_def)
  have f: "ends_in False ?Q (flush_token qsort u afl)" if "whole False n buf u afl" for u
    by (rule flush_token_whole [OF that])
  show ?thesis
    unfolding collect_token_def Let_def
    by (auto intro!: ends_in_try ends_in_bind [where P = ?Q] ends_in_ok f simp: c assms)
qed

lemma flip1_whole:
  fixes afl :: "'a afl_det_scheme"
  assumes cfs: "calm False cfs" and inv: "whole False n buf v afl"
  shows "ends_in False (whole False n buf) (flip1_stage qsort cfs w n v afl)"
proof -
  let ?a = "afl\<lparr>stage_short := ''flip1'', stage_max := push_bit 3 n, stage_name := ''bitflip 1/1'', stage_val_type := STAGE_VAL_NONE\<rparr>"
  let ?v = "v\<lparr>dv_orig_hit := hit_count ?a\<rparr>"
  have a: "whole False n buf ?v ?a" and buf: "dv_out ?v = buf" using inv by (simp_all add: whole_def)
  show ?thesis
    unfolding flip1_stage_def Let_def
    by (rule ends_in_bind [OF run_whole [OF cfs a]], simp add: buf, rule stage_whole, rule walk_bits_whole [OF cfs _ _ refl])
      (use buf in \<open>auto intro: collect_token_whole\<close>)
qed

lemma bits_within_below:
  assumes "n \<le> MAX_FILE" and d: "\<forall>d \<in> set offs. unat d \<le> k" and less: "stage_cur afl < push_bit 3 n - of_nat k"
    and k: "k \<le> 8 * unat n"
  shows "bits_within n offs afl"
  unfolding bits_within_def
proof
  fix d assume "d \<in> set offs"
  have n: "unat n \<le> 2 ^ 20" using assms(1) by (simp add: word_le_nat_alt)
  then have p: "unat (push_bit 3 n) = 8 * unat n" by (simp add: push_bit_eq_mult unat_word_ariths)
  have kk: "unat (of_nat k :: u32) = k" using k n by (simp add: unat_of_nat)
  have "unat (push_bit 3 n - of_nat k :: u32) = 8 * unat n - k" using k kk p by (simp add: unat_sub word_le_nat_alt)
  then have c: "unat (stage_cur afl) + k < 8 * unat n" using less by (simp add: word_less_nat_alt)
  then have "unat (stage_cur afl + d) = unat (stage_cur afl) + unat d"
    using d n \<open>d \<in> set offs\<close> by (intro unat_add_small) (auto dest!: bspec)
  then have "unat (stage_cur afl + d) < 8 * unat n" using c d \<open>d \<in> set offs\<close> by force
  then show "unat (drop_bit 3 (stage_cur afl + d)) < unat n" 
    by (simp add: drop_bit_eq_div unat_div less_mult_imp_div_less mult.commute)
qed

lemma flip24_whole:
  fixes afl :: "'a afl_det_scheme"
  assumes "calm t cfs" and "whole t n buf v afl" and "t \<Longrightarrow> n \<noteq> 0 \<and> n \<le> MAX_FILE"
  shows "ends_in t (whole t n buf) (flip2_stage cfs n v afl)" and "ends_in t (whole t n buf) (flip4_stage cfs n v afl)"
proof -
  have n: "1 \<le> 8 * unat n" "3 \<le> 8 * unat n" if t
  proof -
    have "0 < unat n" using assms(3) that by (simp add: unat_gt_0)
    then show "1 \<le> 8 * unat n" "3 \<le> 8 * unat n" by linarith+
  qed
  have two: "bits_within n [0, 1] b" if t "stage_cur b < push_bit 3 n - 1" for b :: "'a afl_det_scheme"
    by (rule bits_within_below [where k = 1]) (use that assms(3) n in simp_all)
  have four: "bits_within n [0, 1, 2, 3] b" if t "stage_cur b < push_bit 3 n - 3" for b :: "'a afl_det_scheme"
    by (rule bits_within_below [where k = 3]) (use that assms(3) n in simp_all)
  show "ends_in t (whole t n buf) (flip2_stage cfs n v afl)"
    unfolding flip2_stage_def
    by (rule stage_whole, rule walk_bits_whole [OF assms(1), where m = "push_bit 3 n - 1"])
      (use assms(2) two in \<open>auto intro: ends_in_ok\<close>)
  show "ends_in t (whole t n buf) (flip4_stage cfs n v afl)"
    unfolding flip4_stage_def
    by (rule stage_whole, rule walk_bits_whole [OF assms(1), where m = "push_bit 3 n - 3"])
      (use assms(2) four in \<open>auto intro: ends_in_ok\<close>)
qed

text \<open>From here on the effector map has its size.\<close>

definition ready :: "bool \<Rightarrow> u32 \<Rightarrow> bytes \<Rightarrow> det_vars \<Rightarrow> 'a afl_det_scheme \<Rightarrow> bool" where
  "ready t n buf v afl \<longleftrightarrow> whole t n buf v afl \<and> (t \<longrightarrow> length (dv_eff v) = unat (EFF_ALEN n))"

lemma ready_upd [simp]:
  "ready t n buf v (afl\<lparr>stage_cur := c\<rparr>) = ready t n buf v afl" "ready t n buf v (afl\<lparr>stage_max := m\<rparr>) = ready t n buf v afl"
  "ready t n buf v (afl\<lparr>stage_cur_byte := b\<rparr>) = ready t n buf v afl" "ready t n buf v (afl\<lparr>stage_val_type := y\<rparr>) = ready t n buf v afl"
  "ready t n buf v (afl\<lparr>stage_cur_val := x\<rparr>) = ready t n buf v afl" "ready t n buf v (begin_stage nm sh mx afl) = ready t n buf v afl"
  "ready t n buf (v\<lparr>dv_prev_cksum := p\<rparr>) afl = ready t n buf v afl"
  by (simp_all add: ready_def)

lemma stage_ready:
  assumes "ends_in t (ready t n buf) r" and "k < 16"
  shows "ends_in t (ready t n buf) (det_bind r (end_stage k))"
proof (rule ends_in_bind [OF assms(1)])
  fix v and afl :: "'a afl_det_scheme" assume r: "ready t n buf v afl"
  then have "whole t n buf v afl" by (simp add: ready_def)
  from end_stage_keeps [OF assms(2) this] show "ends_in t (ready t n buf) (end_stage k v afl)"
    by (rule ends_in_weaken) (use r in \<open>simp add: ready_def\<close>)
qed

lemma run_ready:
  assumes "calm t cfs" and "ready t n buf v afl" and "length out = length buf"
  shows "ends_in t (\<lambda>v' afl'. ready t n out v' afl' \<and> same_stage afl' afl) (det_run cfs n out v afl)"
  by (rule ends_in_weaken [OF run_whole [OF assms(1) _ assms(3)]]) (use assms(2) in \<open>auto simp: ready_def\<close>)

lemma EFF_ALEN_nat: "unat (EFF_ALEN n) = (unat n + 7) div 8"
proof -
  have "n AND 7 = take_bit 3 n" using take_bit_eq_mask [of 3 n] by (simp add: mask_eq_exp_minus_1)
  then have m: "unat (n AND 7) = unat n mod 8" by (simp add: take_bit_eq_mod unat_mod)
  have d: "unat (drop_bit 3 n) = unat n div 8" by (simp add: drop_bit_eq_div unat_div)
  have "unat n div 8 + 1 < 2 ^ 32" using unat_lt2p [of n] by simp
  then have "unat (drop_bit 3 n + 1) = unat n div 8 + 1" using d by (subst unat_add_small) simp_all
  then show ?thesis using m d by (auto simp: EFF_ALEN_def EFF_APOS_def unat_eq_0 [symmetric]; presburger)
qed

lemma EFF_APOS_less: "p < n \<Longrightarrow> unat (EFF_APOS p) < unat (EFF_ALEN n)"
  by (simp add: EFF_ALEN_nat EFF_APOS_def drop_bit_eq_div unat_div word_less_nat_alt)

lemma eff_at_ok:
  assumes "length (dv_eff v) = unat (EFF_ALEN n)" and "p < n"
  shows "\<exists>e. eff_at v p = Inr e"
  using EFF_APOS_less [OF assms(2)] assms(1) by (simp add: eff_at_def get_at_def)

lemma eff_none_ok:
  assumes "length (dv_eff v) = unat (EFF_ALEN n)" and "unat p + k \<le> unat n"
  shows "\<exists>s. eff_none v p k = Inr s"
  using assms(2)
proof (induction k arbitrary: p)
  case (Suc k)
  then have "p < n" by (simp add: word_less_nat_alt)
  then obtain e where e: "eff_at v p = Inr e" using eff_at_ok [OF assms(1)] by blast
  show ?case
  proof (cases "k = 0")
    case True
    then show ?thesis by (cases "e = 0") (auto simp: e)
  next
    case False
    then have "unat (p + 1) = Suc (unat p)" using Suc.prems unat_lt2p [of n] by (subst unat_add_small) simp_all
    then show ?thesis using Suc.IH [of "p + 1"] Suc.prems by (cases "e = 0") (auto simp: e)
  qed
qed auto

lemma eff_none_at:
  assumes "ready t n buf v afl" and t and "i + k \<le> unat n"
  shows "\<exists>s. eff_none v (of_nat i) k = Inr s"
proof -
  have "unat (of_nat i :: u32) = i" using assms(3) unat_lt2p [of n] by (simp add: unat_of_nat)
  then show ?thesis using eff_none_ok [of v n "of_nat i" k] assms by (simp add: ready_def)
qed

lemma eff_setup_ready:
  assumes "whole t n buf v afl" and n: "t \<Longrightarrow> n \<noteq> 0"
  shows "ends_in t (ready t n buf) (eff_setup n v afl)"
proof -
  have n0: "0 < unat (EFF_ALEN n)" "unat (EFF_APOS (n - 1)) < unat (EFF_ALEN n)" if t
  proof -
    show "0 < unat (EFF_ALEN n)" using n that unat_gt_0 [of n] by (simp add: EFF_ALEN_nat)
    have "n - 1 < n" using n that by (simp add: word_less_nat_alt unat_minus_one unat_gt_0)
    then show "unat (EFF_APOS (n - 1)) < unat (EFF_ALEN n)" by (rule EFF_APOS_less)
  qed
  show ?thesis
    unfolding eff_setup_def Let_def using assms(1) n0
    by (auto intro!: ends_in_try ends_in_ok simp: ready_def get_at_def)
qed

text \<open>Changing \<open>k\<close> bytes, running, and changing them back.\<close>

lemma det_bind_ok [simp]: "det_bind (det_ok v afl) f = f v afl"
  by (simp add: det_bind_def det_ok_def)

lemma xor_bytes_ok: "i + k \<le> length ar \<Longrightarrow> \<exists>ar'. xor_bytes k ar i = Inr ar'"
  by (simp add: xor_bytes_def)

lemma xor_bytes_length: "xor_bytes k ar i = Inr ar' \<Longrightarrow> length ar' = length ar"
  by (auto simp: xor_bytes_def split: if_splits)

lemma xor_run_ready:
  fixes afl :: "'a afl_det_scheme"
  assumes cfs: "calm t cfs" and inv: "ready t n buf v afl" and fits: "t \<Longrightarrow> pos afl + k \<le> unat n"
    and fin: "\<And>u b. ready t n buf u b \<Longrightarrow> same_stage b afl \<Longrightarrow> ends_in t Q (fin u b)"
    and mid: "\<And>out u b. ready t n out u b \<Longrightarrow> same_stage b afl \<Longrightarrow> ends_in t (\<lambda>v' b'. ready t n out v' b' \<and> same_stage b' afl) (mid u b)"
    and pos: "\<And>b. same_stage b afl \<Longrightarrow> pos b = pos afl"
  shows "ends_in t Q (det_try (xor_bytes k (dv_out v) (pos afl)) (\<lambda>out.
     det_bind (det_run cfs n out v afl) (\<lambda>v afl.
     det_bind (mid v afl) (\<lambda>v afl.
     det_try (xor_bytes k (dv_out v) (pos afl)) (\<lambda>out. fin (v\<lparr>dv_out := out\<rparr>) afl)))))"
proof (rule ends_in_try)
  fix out assume out: "xor_bytes k (dv_out v) (pos afl) = Inr out"
  have buf: "dv_out v = buf" using inv by (simp add: ready_def whole_def)
  have len: "length out = length buf" using xor_bytes_length [OF out] buf by simp
  let ?at = "\<lambda>v' b. ready t n out v' b \<and> same_stage b afl"
  have undo: "ends_in t Q (det_try (xor_bytes k (dv_out u) (pos b)) (\<lambda>out. fin (u\<lparr>dv_out := out\<rparr>) b))"
    if b: "?at u b" for u b
  proof -
    have "pos b = pos afl" "dv_out u = out" using b by (auto intro: pos simp: ready_def whole_def)
    then have "xor_bytes k (dv_out u) (pos b) = Inr buf" using xor_bytes_undo [OF out] buf by simp
    moreover have "ready t n buf (u\<lparr>dv_out := buf\<rparr>) b" using b len by (simp add: ready_def whole_def)
    ultimately show ?thesis using fin b by (simp add: det_try_def)
  qed
  show "ends_in t Q (det_bind (det_run cfs n out v afl) (\<lambda>v afl. det_bind (mid v afl) (\<lambda>v afl.
     det_try (xor_bytes k (dv_out v) (pos afl)) (\<lambda>out. fin (v\<lparr>dv_out := out\<rparr>) afl))))"
    by (auto intro!: ends_in_bind [OF run_ready [OF cfs inv len]] ends_in_bind [where P = ?at and r = "mid u b" for u b] undo mid)
qed (rule xor_bytes_ok, use fits inv in \<open>simp add: ready_def whole_def\<close>)

lemma flag_effect_ready:
  assumes "ready t n out v b" and "t \<Longrightarrow> stage_cur b < n"
  shows "ends_in t (\<lambda>v' b'. ready t n out v' b' \<and> b' = b) (flag_effect w n v b)"
  unfolding flag_effect_def Let_def
  by (rule ends_in_try) (use assms in \<open>auto intro!: ends_in_ok eff_at_ok simp: ready_def\<close>)

lemma flip8_body_ready:
  assumes "calm t cfs" and inv: "ready t n buf v afl" and less: "t \<Longrightarrow> stage_cur afl < n"
  shows "ends_in t (\<lambda>v' afl'. ready t n buf v' afl' \<and> same_stage afl' afl) (flip8_body cfs w n v afl)"
  unfolding flip8_body_def Let_def
proof (rule xor_run_ready [where pos = "\<lambda>b. unat (stage_cur b)", OF assms(1)])
  let ?a = "afl\<lparr>stage_cur_byte := sint (stage_cur afl)\<rparr>"
  show "ready t n buf v ?a" using inv by simp
  show "unat (stage_cur ?a) + 1 \<le> unat n" if t using less that by (simp add: word_less_nat_alt)
  fix u b assume b: "same_stage b ?a"
  then have b': "same_stage b afl" by (simp add: same_stage_def)
  then show "ends_in t (\<lambda>v' afl'. ready t n buf v' afl' \<and> same_stage afl' afl) (det_ok u b)" if "ready t n buf u b"
    using that by (intro ends_in_ok) simp
  show "ends_in t (\<lambda>v' b'. ready t n out v' b' \<and> same_stage b' ?a) (flag_effect w n u b)" if "ready t n out u b" for out
    by (rule ends_in_weaken [OF flag_effect_ready [OF that]]) (use less b in \<open>auto simp: same_stage_def\<close>)
qed (simp add: same_stage_def)

lemma eff_finish_ready: "ready t n buf v afl \<Longrightarrow> ends_in t (ready t n buf) (eff_finish n v afl)"
  by (auto simp: eff_finish_def Let_def ready_def whole_def intro!: ends_in_ok)

lemma flip8_ready:
  fixes afl :: "'a afl_det_scheme"
  assumes "calm t cfs" and inv: "ready t n buf v afl"
  shows "ends_in t (ready t n buf) (flip8_stage cfs w n v afl)"
  unfolding flip8_stage_def
proof (rule ends_in_bind)
  let ?I = "\<lambda>v afl. ready t n buf v afl \<and> stage_max afl = n"
  show "ends_in t (\<lambda>v afl. ?I v afl \<and> stage_max afl \<le> stage_cur afl)
      (stage_loop (flip8_body cfs w n) (v\<lparr>dv_prev_cksum := dv_clean_cksum v\<rparr>) (begin_stage ''bitflip 8/8'' ''flip8'' n afl))"
  proof (rule ends_in_loop)
    fix u and b :: "'a afl_det_scheme" assume b: "?I u b" and less: "stage_cur b < stage_max b"
    show "ends_in t (\<lambda>v' afl'. ?I v' (afl'\<lparr>stage_cur := stage_cur b + 1\<rparr>) \<and> stage_cur afl' = stage_cur b \<and> stage_max afl' = stage_max b) (flip8_body cfs w n u b)"
      by (rule ends_in_weaken [OF flip8_body_ready [OF assms(1)]]) (use b less in \<open>auto simp: same_stage_def\<close>)
  qed (use inv in auto)
qed (auto intro: stage_ready eff_finish_ready)

lemma flip_word_ready:
  fixes afl :: "'a afl_det_scheme"
  assumes "calm t cfs" and inv: "ready t n buf v afl" and i: "t \<Longrightarrow> i + k \<le> unat n"
  shows "ends_in t (ready t n buf) (flip_word_at cfs n k i v afl)"
proof -
  let ?a = "afl\<lparr>stage_cur_byte := int i\<rparr>"
  have run: "ends_in t (ready t n buf) (det_try (xor_bytes k (dv_out v) i) (\<lambda>out. det_bind (det_run cfs n out v ?a)
      (\<lambda>v afl. det_bind (det_ok v afl) (\<lambda>v afl. det_try (xor_bytes k (dv_out v) i)
        (\<lambda>out. det_ok (v\<lparr>dv_out := out\<rparr>) (afl\<lparr>stage_cur := stage_cur afl + 1\<rparr>))))))"
    by (rule xor_run_ready [where pos = "\<lambda>_. i" and fin = "\<lambda>v b. det_ok v (b\<lparr>stage_cur := stage_cur b + 1\<rparr>)", OF assms(1)])
      (use inv i in \<open>auto intro: ends_in_ok\<close>)
  show ?thesis unfolding flip_word_at_def Let_def
    by (rule ends_in_try) (use run inv eff_none_at [OF inv _ i] in \<open>auto intro: ends_in_ok\<close>)
qed

text \<open>The three loops over positions.\<close>

lemma below_minus:
  assumes "i \<in> set [0..<unat (n - of_nat k)]" and "of_nat k \<le> n" and "k < 2 ^ 32"
  shows "i + Suc k \<le> unat (n :: u32)"
proof -
  have "unat (of_nat k :: u32) = k" using assms(3) by (simp add: unat_of_nat)
  then have "unat (n - of_nat k) = unat n - k" using assms(2) by (simp add: unat_sub)
  then show ?thesis using assms(1) by simp
qed

lemma bytes_ready:
  assumes "ready t n buf v afl" and "k < 16" and "\<And>i u b. i < unat n \<Longrightarrow> ready t n buf u b \<Longrightarrow> ends_in t (ready t n buf) (body i u b)"
  shows "ends_in t (ready t n buf) (det_bind (det_for body [0..<unat n] v afl) (end_stage k))"
  by (intro stage_ready ends_in_for) (use assms in auto)

lemma words_ready:
  assumes "ready t n buf v afl" and "k < 16" and n: "2 \<le> n"
    and body: "\<And>i u b. i + 2 \<le> unat n \<Longrightarrow> ready t n buf u b \<Longrightarrow> ends_in t (ready t n buf) (body i u b)"
  shows "ends_in t (ready t n buf) (det_bind (det_for body [0..<unat (n - 1)] v afl) (end_stage k))"
proof -
  have "1 \<le> n" using n by (rule order_trans [rotated]) simp
  then have "i + 2 \<le> unat n" if "i \<in> set [0..<unat (n - 1)]" for i
    using below_minus [of i n 1] that by simp
  then show ?thesis by (intro stage_ready ends_in_for body) (use assms in auto)
qed

lemma dwords_ready:
  assumes "ready t n buf v afl" and "k < 16" and n: "4 \<le> n"
    and body: "\<And>i u b. i + 4 \<le> unat n \<Longrightarrow> ready t n buf u b \<Longrightarrow> ends_in t (ready t n buf) (body i u b)"
  shows "ends_in t (ready t n buf) (det_bind (det_for body [0..<unat (n - 3)] v afl) (end_stage k))"
proof -
  have "3 \<le> n" using n by (rule order_trans [rotated]) simp
  then have "i + 4 \<le> unat n" if "i \<in> set [0..<unat (n - 3)]" for i
    using below_minus [of i n 3] that by simp
  then show ?thesis by (intro stage_ready ends_in_for body) (use assms in auto)
qed

lemma flip_words_ready:
  assumes "calm t cfs" and "ready t n buf v afl"
  shows "2 \<le> n \<Longrightarrow> ends_in t (ready t n buf) (flip16_stage cfs n v afl)"
    and "4 \<le> n \<Longrightarrow> ends_in t (ready t n buf) (flip32_stage cfs n v afl)"
  unfolding flip16_stage_def flip32_stage_def
  using assms(2) by (auto intro!: words_ready dwords_ready flip_word_ready [OF assms(1)])

lemma wider_flips_ready:
  assumes "calm t cfs" and "whole t n buf v afl" and n: "t \<Longrightarrow> n \<noteq> 0 \<and> n \<le> MAX_FILE"
  shows "ends_in t (ready t n buf) (wider_flips cfs w n v afl)"
  unfolding wider_flips_def
  by (rule ends_in_bind [where P = "whole t n buf"], rule flip24_whole [OF assms(1,2) n], assumption,
      rule ends_in_bind [where P = "whole t n buf"], rule flip24_whole [OF assms(1) _ n], assumption, assumption,
      rule ends_in_bind [where P = "ready t n buf"], erule eff_setup_ready, use n in blast,
      rule ends_in_bind [where P = "ready t n buf"], erule flip8_ready [OF assms(1)])
    (auto intro!: ends_in_ok ends_in_bind [where P = "ready t n buf"] flip_words_ready [OF assms(1)] simp: not_less)

text \<open>While the values of one position are tried, only the bytes there may differ.\<close>

definition partial :: "nat \<Rightarrow> nat \<Rightarrow> bool \<Rightarrow> u32 \<Rightarrow> bytes \<Rightarrow> det_vars \<Rightarrow> 'a afl_det_scheme \<Rightarrow> bool" where
  "partial i k t n buf v afl \<longleftrightarrow> same_but i k buf (dv_out v) \<and> ready t n buf (v\<lparr>dv_out := buf\<rparr>) afl"

lemma partial_upd [simp]:
  "partial i k t n buf v (afl\<lparr>stage_cur := c\<rparr>) = partial i k t n buf v afl"
  "partial i k t n buf v (afl\<lparr>stage_max := m\<rparr>) = partial i k t n buf v afl"
  "partial i k t n buf v (afl\<lparr>stage_cur_byte := b\<rparr>) = partial i k t n buf v afl"
  "partial i k t n buf v (afl\<lparr>stage_val_type := y\<rparr>) = partial i k t n buf v afl"
  "partial i k t n buf v (afl\<lparr>stage_cur_val := x\<rparr>) = partial i k t n buf v afl"
  by (simp_all add: partial_def)

lemma ready_partial: "ready t n buf v afl \<Longrightarrow> partial i k t n buf v afl"
  by (auto simp: partial_def ready_def whole_def)

lemma partial_length: "partial i k t n buf v afl \<Longrightarrow> length (dv_out v) = length buf \<and> (t \<longrightarrow> length buf = unat n)"
  by (simp add: partial_def same_but_def ready_def whole_def)

lemma try_value_partial:
  assumes cfs: "calm t cfs" and inv: "partial i k t n buf v afl"
    and pre: "fsrv_pid (pre afl) = fsrv_pid afl \<and> stage_finds (pre afl) = stage_finds afl \<and> stage_cycles (pre afl) = stage_cycles afl"
    and out: "\<And>out'. same_but i k buf (dv_out v) \<Longrightarrow> out = Inr out' \<Longrightarrow> same_but i k buf out'" and fits: "t \<Longrightarrow> \<exists>out'. out = Inr out'"
  shows "ends_in t (partial i k t n buf) (try_value cfs n fresh pre out v afl)"
proof (cases fresh)
  case True
  have "ends_in t (partial i k t n buf) (det_run cfs n out' v (pre afl))" if "out = Inr out'" for out'
  proof -
    have s: "same_but i k buf out'" using inv out that by (simp add: partial_def)
    show ?thesis
      by (rule ends_in_run [OF cfs]) (use inv pre s in \<open>auto simp: partial_def ready_def whole_def same_stage_def same_but_def\<close>)
  qed
  then show ?thesis using True fits by (auto simp: try_value_def intro!: ends_in_try ends_in_bind ends_in_ok)
next
  case False
  then show ?thesis using inv by (simp add: try_value_def ends_in_ok)
qed

text \<open>A state update before a run that only names the value.\<close>

definition labels :: "('a afl_det_scheme \<Rightarrow> 'a afl_det_scheme) \<Rightarrow> bool" where
  "labels pre \<longleftrightarrow> (\<forall>afl. fsrv_pid (pre afl) = fsrv_pid afl \<and> stage_finds (pre afl) = stage_finds afl \<and> stage_cycles (pre afl) = stage_cycles afl)"

lemma labels_simps [simp]:
  "labels (\<lambda>afl. afl\<lparr>stage_cur_val := x\<rparr>)" "labels (\<lambda>afl. afl\<lparr>stage_val_type := y\<rparr>)"
  "labels (\<lambda>afl. afl\<lparr>stage_cur_val := x, stage_val_type := y\<rparr>)"
  by (simp_all add: labels_def)

lemma try_put:
  assumes "calm t cfs" and inv: "partial i 1 t n buf v afl" and "labels pre" and i: "t \<Longrightarrow> i < unat n"
  shows "ends_in t (partial i 1 t n buf) (try_value cfs n fresh pre (put_at (dv_out v) i x) v afl)"
  by (rule try_value_partial [OF assms(1,2)], use assms(3) in \<open>simp add: labels_def\<close>, erule put_at_same_but, assumption)
    (use partial_length [OF inv] i in \<open>simp add: put_at_def\<close>)

lemma try_write:
  assumes "calm t cfs" and inv: "partial i k t n buf v afl" and "labels pre" and i: "t \<Longrightarrow> i + k \<le> unat n"
  shows "ends_in t (partial i k t n buf) (try_value cfs n fresh pre (write_at k x (dv_out v) i) v afl)"
  by (rule try_value_partial [OF assms(1,2)], use assms(3) in \<open>simp add: labels_def\<close>, erule write_at_same_but, assumption)
    (use partial_length [OF inv] i in \<open>simp add: write_at_def\<close>)

lemma restore_byte:
  assumes "partial i 1 t n buf v afl" and "get_at what buf i = Inr orig"
  shows "ends_in t (ready t n buf) (det_try (put_at (dv_out v) i orig) (\<lambda>out. det_ok (v\<lparr>dv_out := out\<rparr>) afl))"
  using put_at_restore [OF assms(2)] assms(1) by (simp add: det_try_def partial_def ends_in_ok)

lemma restore_word:
  fixes orig :: "'w::len word"
  assumes "partial i k t n buf v afl" and "read_at k buf i = Inr orig" and "8 * k = LENGTH('w)"
  shows "ends_in t (ready t n buf) (det_try (write_at k orig (dv_out v) i) (\<lambda>out. det_ok (v\<lparr>dv_out := out\<rparr>) afl))"
  using write_at_restore [OF assms(2,3)] assms(1) by (simp add: det_try_def partial_def ends_in_ok)

text \<open>Every loop over positions reads the original value and asks the effector map first.\<close>

lemma byte_loop_ready:
  assumes inv: "ready t n buf v afl" and i: "t \<Longrightarrow> i < unat n"
    and tries: "\<And>orig. get_at ''out_buf'' buf i = Inr orig \<Longrightarrow> ends_in t (ready t n buf) (tries orig)"
  shows "ends_in t (ready t n buf) (det_try (get_at ''out_buf'' (dv_out v) i) (\<lambda>orig.
     det_try (eff_none v (of_nat i) 1) (\<lambda>skip. if skip then det_ok v (afl\<lparr>stage_max := m\<rparr>) else tries orig)))"
proof -
  have b: "dv_out v = buf" "t \<Longrightarrow> length buf = unat n" using inv by (simp_all add: ready_def whole_def)
  have e: "\<exists>s. eff_none v (of_nat i) 1 = Inr s" if t by (rule eff_none_at [OF inv that]) (use i that in simp)
  show ?thesis unfolding b(1)
    by (rule ends_in_try, rule ends_in_try, use inv tries e in \<open>auto intro: ends_in_ok simp del: eff_none.simps\<close>)
      (use b(2) i in \<open>simp add: get_at_def\<close>)
qed

lemma word_loop_ready:
  assumes inv: "ready t n buf v afl" and i: "t \<Longrightarrow> i + k \<le> unat n"
    and tries: "\<And>orig. read_at k buf i = Inr orig \<Longrightarrow> ends_in t (ready t n buf) (tries orig)"
  shows "ends_in t (ready t n buf) (det_try (read_at k (dv_out v) i) (\<lambda>orig.
     det_try (eff_none v (of_nat i) k) (\<lambda>skip. if skip then det_ok v (afl\<lparr>stage_max := m\<rparr>) else tries orig)))"
proof -
  have b: "dv_out v = buf" "t \<Longrightarrow> length buf = unat n" using inv by (simp_all add: ready_def whole_def)
  have e: "\<exists>s. eff_none v (of_nat i) k = Inr s" if t by (rule eff_none_at [OF inv that]) (use i that in simp)
  show ?thesis unfolding b(1)
    by (rule ends_in_try, rule ends_in_try, use inv tries e in \<open>auto intro: ends_in_ok simp del: eff_none.simps\<close>)
      (use b(2) i in \<open>simp add: read_at_def\<close>)
qed

lemma arith8_try_ready:
  assumes "calm t cfs" and "ready t n buf v afl" and o: "get_at what buf i = Inr orig" and i: "t \<Longrightarrow> i < unat n"
  shows "ends_in t (ready t n buf) (arith8_try cfs n i orig j v afl)"
  unfolding arith8_try_def Let_def
  by (rule ends_in_bind [where P = "partial i 1 t n buf"], rule try_put [OF assms(1) ready_partial [OF assms(2)] _ i], simp, assumption,
      rule ends_in_bind [where P = "partial i 1 t n buf"], rule try_put [OF assms(1) _ _ i], assumption, simp, assumption,
      rule restore_byte [OF _ o])

lemma arith8_at_ready:
  assumes "calm t cfs" and "ready t n buf v afl" and i: "t \<Longrightarrow> i < unat n"
  shows "ends_in t (ready t n buf) (arith8_at cfs n i v afl)"
  unfolding arith8_at_def
  by (rule byte_loop_ready [OF assms(2) i], assumption, rule ends_in_for, rule arith8_try_ready [OF assms(1) _ _ i])
    (use assms(2) in auto)

text \<open>Four values of a word, and the word put back.\<close>

lemma four_tries_ready:
  fixes orig :: "'w::len word"
  assumes cfs: "calm t cfs" and inv: "ready t n buf v afl" and r: "read_at k buf i = Inr orig" "8 * k = LENGTH('w)"
    and pre: "\<And>x. labels (le x)" "\<And>x. labels (be x)" and i: "t \<Longrightarrow> i + k \<le> unat n"
  shows "ends_in t (ready t n buf) (det_bind (try_value cfs n f1 (le s1) (write_at k x1 (dv_out v) i) v (afl\<lparr>stage_val_type := t1\<rparr>)) (\<lambda>v afl.
         det_bind (try_value cfs n f2 (le s2) (write_at k x2 (dv_out v) i) v afl) (\<lambda>v afl.
         det_bind (try_value cfs n f3 (be s3) (write_at k x3 (dv_out v) i) v (afl\<lparr>stage_val_type := t2\<rparr>)) (\<lambda>v afl.
         det_bind (try_value cfs n f4 (be s4) (write_at k x4 (dv_out v) i) v afl) (\<lambda>v afl.
         det_try (write_at k orig (dv_out v) i) (\<lambda>out. det_ok (v\<lparr>dv_out := out\<rparr>) afl))))))"
  by (rule ends_in_bind [where P = "partial i k t n buf"], rule try_write [OF cfs _ pre(1) i],
      use inv in \<open>simp add: ready_partial\<close>, assumption,
      rule ends_in_bind [where P = "partial i k t n buf"], rule try_write [OF cfs _ pre(1) i], assumption, assumption,
      rule ends_in_bind [where P = "partial i k t n buf"], rule try_write [OF cfs _ pre(2) i], simp, assumption,
      rule ends_in_bind [where P = "partial i k t n buf"], rule try_write [OF cfs _ pre(2) i], assumption, assumption,
      rule restore_word [OF _ r])

lemma arith_words_ready:
  assumes "calm t cfs" and "ready t n buf v afl"
  shows "(t \<Longrightarrow> i + 2 \<le> unat n) \<Longrightarrow> ends_in t (ready t n buf) (arith16_at cfs n i v afl)"
    and "(t \<Longrightarrow> i + 4 \<le> unat n) \<Longrightarrow> ends_in t (ready t n buf) (arith32_at cfs n i v afl)"
proof -
  assume i: "t \<Longrightarrow> i + 2 \<le> unat n"
  have "ends_in t (ready t n buf) (arith16_try cfs n i orig j u a)" if "ready t n buf u a" "read_at 2 buf i = Inr orig" for orig j u a
    unfolding arith16_try_def Let_def by (rule four_tries_ready [OF assms(1) that _ _ _ i]) simp_all
  then show "ends_in t (ready t n buf) (arith16_at cfs n i v afl)"
    unfolding arith16_at_def
    by (intro word_loop_ready [OF assms(2) i] ends_in_for) (use assms(2) in auto)
next
  assume i: "t \<Longrightarrow> i + 4 \<le> unat n"
  have "ends_in t (ready t n buf) (arith32_try cfs n i orig j u a)" if "ready t n buf u a" "read_at 4 buf i = Inr orig" for orig j u a
    unfolding arith32_try_def Let_def by (rule four_tries_ready [OF assms(1) that _ _ _ i]) simp_all
  then show "ends_in t (ready t n buf) (arith32_at cfs n i v afl)"
    unfolding arith32_at_def
    by (intro word_loop_ready [OF assms(2) i] ends_in_for) (use assms(2) in auto)
qed

lemma ariths_ready:
  assumes "calm t cfs" and "ready t n buf v afl"
  shows "ends_in t (ready t n buf) (ariths cfs n v afl)"
  unfolding ariths_def arith8_stage_def arith16_stage_def arith32_stage_def Let_def
  by (auto intro!: ends_in_bind [where P = "ready t n buf" and f = "\<lambda>v afl. if c then p v afl else q v afl" for c p q] ends_in_ok
      bytes_ready words_ready dwords_ready arith8_at_ready arith_words_ready simp: assms not_less)

lemma interest8_at_ready:
  fixes afl :: "'a afl_det_scheme"
  assumes "calm t cfs" and "ready t n buf v afl" and i: "t \<Longrightarrow> i < unat n"
  shows "ends_in t (ready t n buf) (interest8_at cfs n i v afl)"
proof -
  have "ends_in t (ready t n buf) (interest8_try cfs n i orig c u a)"
    if u: "ready t n buf u a" and o: "get_at ''out_buf'' buf i = Inr orig" for orig c u and a :: "'a afl_det_scheme"
  proof (cases "could_be_bitflip (ucast (orig XOR word_of_int c)) \<or> could_be_arith (ucast orig) (ucast (word_of_int c :: u8)) 1")
    case True
    then show ?thesis using u by (simp add: interest8_try_def ends_in_ok)
  next
    case False
    have b: "dv_out u = buf" using u by (simp add: ready_def whole_def)
    have run: "ends_in t (partial i 1 t n buf) (det_run cfs n out u (set_val c a))" if "put_at buf i x = Inr out" for x out
    proof -
      have "same_but i 1 buf out" by (rule put_at_same_but [OF same_but_refl that])
      then show ?thesis
        by (intro ends_in_run [OF assms(1)]) (use u in \<open>auto simp: ready_def whole_def partial_def same_but_def same_stage_def\<close>)
    qed
    have "i < length buf" using o by (auto simp: get_at_def split: if_splits)
    then have put: "put_at buf i x = Inr (buf[i := x])" for x by (simp add: put_at_def)
    have fin: "ends_in t (ready t n buf) (det_try (put_at (dv_out u') i orig) (\<lambda>out. det_ok (u'\<lparr>dv_out := out\<rparr>) (b\<lparr>stage_cur := stage_cur b + 1\<rparr>)))"
      if "partial i 1 t n buf u' b" for u' and b :: "'a afl_det_scheme"
      by (rule restore_byte [OF _ o]) (use that in simp)
    show ?thesis unfolding interest8_try_def Let_def b
      using False by (auto simp: put det_try_def [of "Inr x" for x] intro!: ends_in_bind [OF run [OF put] fin])
  qed
  then show ?thesis unfolding interest8_at_def
    by (intro byte_loop_ready [OF assms(2) i] ends_in_for) (use assms(2) in auto)
qed

text \<open>The wider stages put the word back only after all values.\<close>

lemma interest_words_ready:
  fixes orig :: "'w::len word"
  assumes inv: "ready t n buf v afl" and r: "read_at k buf i = Inr orig" "8 * k = LENGTH('w)"
    and tries: "\<And>c v afl. partial i k t n buf v afl \<Longrightarrow> ends_in t (partial i k t n buf) (tries c v afl)"
  shows "ends_in t (ready t n buf) (det_bind (det_for tries cs v (afl\<lparr>stage_cur_byte := int i\<rparr>)) (\<lambda>v afl.
          det_try (write_at k orig (dv_out v) i) (\<lambda>out. det_ok (v\<lparr>dv_out := out\<rparr>) afl)))"
proof (rule ends_in_bind)
  show "ends_in t (partial i k t n buf) (det_for tries cs v (afl\<lparr>stage_cur_byte := int i\<rparr>))"
    by (rule ends_in_for) (use inv tries in \<open>auto simp: ready_partial\<close>)
qed (rule restore_word [OF _ r])

lemma two_tries_partial:
  assumes cfs: "calm t cfs" and inv: "partial i k t n buf v afl" and pre: "labels le" "labels be" and i: "t \<Longrightarrow> i + k \<le> unat n"
  shows "ends_in t (partial i k t n buf) (det_bind (try_value cfs n f1 le (write_at k x1 (dv_out v) i) v (afl\<lparr>stage_cur_val := c\<rparr>)) (\<lambda>v afl.
     try_value cfs n f2 be (write_at k x2 (dv_out v) i) v afl))"
  by (rule ends_in_bind [where P = "partial i k t n buf"], rule try_write [OF cfs _ pre(1) i], use inv in simp, assumption,
      rule try_write [OF cfs _ pre(2) i])

lemma interest_at_ready:
  assumes "calm t cfs" and "ready t n buf v afl"
  shows "(t \<Longrightarrow> i + 2 \<le> unat n) \<Longrightarrow> ends_in t (ready t n buf) (interest16_at cfs n i v afl)"
    and "(t \<Longrightarrow> i + 4 \<le> unat n) \<Longrightarrow> ends_in t (ready t n buf) (interest32_at cfs n i v afl)"
proof -
  assume i: "t \<Longrightarrow> i + 2 \<le> unat n"
  have "ends_in t (partial i 2 t n buf) (interest16_try cfs n i orig c u a)" if "partial i 2 t n buf u a" for orig c u a
    unfolding interest16_try_def Let_def by (rule two_tries_partial [OF assms(1) that _ _ i]) simp_all
  then show "ends_in t (ready t n buf) (interest16_at cfs n i v afl)" unfolding interest16_at_def
    by (intro word_loop_ready [OF assms(2) i] interest_words_ready [OF assms(2)]) auto
next
  assume i: "t \<Longrightarrow> i + 4 \<le> unat n"
  have "ends_in t (partial i 4 t n buf) (interest32_try cfs n i orig c u a)" if "partial i 4 t n buf u a" for orig c u a
    unfolding interest32_try_def Let_def by (rule two_tries_partial [OF assms(1) that _ _ i]) simp_all
  then show "ends_in t (ready t n buf) (interest32_at cfs n i v afl)" unfolding interest32_at_def
    by (intro word_loop_ready [OF assms(2) i] interest_words_ready [OF assms(2)]) auto
qed

lemma interests_ready:
  assumes "calm t cfs" and "ready t n buf v afl"
  shows "ends_in t (ready t n buf) (interests cfs n v afl)"
  unfolding interests_def interest8_stage_def interest16_stage_def interest32_stage_def Let_def
  by (auto intro!: ends_in_bind [where P = "ready t n buf" and f = "\<lambda>v afl. if c afl then p v afl else q v afl" for c p q] ends_in_ok
      bytes_ready words_ready dwords_ready interest8_at_ready interest_at_ready simp: assms not_less)

text \<open>Dictionary tokens of ascending length are laid over each other, and the last one is the longest.\<close>

definition tokens_sorted :: "'a afl_det_scheme \<Rightarrow> bool" where
  "tokens_sorted afl \<longleftrightarrow> sorted (map (\<lambda>t. unat (snd t)) (user_tokens afl))
     \<and> sorted (map (\<lambda>t. unat (snd t)) (auto_tokens (unat (min (a_extras_cnt afl) (of_nat USE_AUTO_EXTRAS))) afl))"

lemma same_tokens_sorted: "same_tokens a b \<Longrightarrow> tokens_sorted a = tokens_sorted b"
  by (simp add: same_tokens_def tokens_sorted_def user_tokens_def auto_tokens_def)

lemma same_tokens_refl [simp]: "same_tokens a a"
  by (simp add: same_tokens_def)

lemma same_tokens_trans: "same_tokens a b \<Longrightarrow> same_tokens b c \<Longrightarrow> same_tokens a c"
  by (simp add: same_tokens_def)

lemma same_tokens_upd [simp]:
  "same_tokens (a\<lparr>stage_cur := c\<rparr>) b = same_tokens a b" "same_tokens (a\<lparr>stage_max := m\<rparr>) b = same_tokens a b"
  "same_tokens (a\<lparr>stage_cur_byte := i\<rparr>) b = same_tokens a b" "same_tokens a (b\<lparr>stage_max := m\<rparr>) = same_tokens a b"
  "same_tokens a (b\<lparr>stage_cur := c\<rparr>) = same_tokens a b" "same_tokens a (b\<lparr>stage_cur_byte := i\<rparr>) = same_tokens a b"
  by (simp_all add: same_tokens_def)

definition quiet_skips :: "('a afl_det_scheme \<Rightarrow> (bool \<times> 'a afl_det_scheme) option) \<Rightarrow> bool" where
  "quiet_skips skips \<longleftrightarrow> (\<forall>a s b. skips a = Some (s, b) \<longrightarrow> fsrv_pid b = fsrv_pid a \<and> same_tokens b a)"

lemma more_tokens: "afl_rand.more a = afl_rand.more b \<Longrightarrow> same_tokens (a :: 'a afl_det_scheme) b"
  by (cases a, cases b) (simp add: same_tokens_def)

lemma skip_extra_quiet: "quiet_skips skip_extra" "quiet_skips (\<lambda>afl. Some (False, afl))"
  by (auto simp: quiet_skips_def skip_extra_def split: if_splits dest!: afl_rng.rb_rest dest: more_tokens more_pid)

lemma put_token_same_but:
  assumes "same_but i l buf ar" and "put_token data k ar i = Inr ar'" and "l \<le> unat k"
  shows "same_but i (unat k) buf ar'"
proof -
  have "drop (i + unat k) ar = drop (unat k - l) (drop (i + l) ar)" using assms(3) by (simp add: add.commute)
  also have "\<dots> = drop (i + unat k) buf" using assms(1,3) by (simp add: same_but_def add.commute)
  finally show ?thesis using assms(1,2) by (auto simp: same_but_def put_token_def min_def split: if_splits)
qed

lemma put_token_restore:
  assumes "same_but i (unat k) buf ar" and "put_token (drop i buf) k ar i = Inr ar'"
  shows "ar' = buf"
  using assms take_drop_id [of i buf "unat k"] by (auto simp: same_but_def put_token_def split: if_splits)

definition laid :: "nat \<Rightarrow> nat \<Rightarrow> bytes \<Rightarrow> det_vars \<Rightarrow> 'a afl_det_scheme \<Rightarrow> bool" where
  "laid i k buf v afl \<longleftrightarrow> same_but i k buf (dv_out v) \<and> fsrv_pid afl \<noteq> 0"

lemma overwrite_tokens_laid:
  fixes afl :: "'a afl_det_scheme"
  assumes cfs: "calm False cfs" and sk: "quiet_skips skips"
    and "overwrite_tokens cfs n i skips ts last_len v afl = Some (Inr (False, last', v', afl'))"
    and "laid i (unat last_len) buf v afl" and "sorted (map (\<lambda>t. unat (snd t)) ts)" and "\<forall>t \<in> set ts. unat last_len \<le> unat (snd t)"
  shows "laid i (unat last') buf v' afl' \<and> same_tokens afl' afl"
  using assms(3-)
proof (induction ts arbitrary: last_len v afl)
  case (Cons t ts)
  obtain data k where t: "t = (data, k)" by (cases t)
  obtain s b where b: "skips afl = Some (s, b)" using Cons.prems(1) t by (cases "skips afl") auto
  have k: "fsrv_pid b = fsrv_pid afl" "same_tokens b afl" using sk b by (auto simp: quiet_skips_def)
  consider (skip) "overwrite_tokens cfs n i skips ts last_len v (b\<lparr>stage_max := stage_max b - 1\<rparr>) = Some (Inr (False, last', v', afl'))"
    | (run) out u c where "put_token data k (dv_out v) i = Inr out" "det_run cfs n out v b = Some (Inr (False, u, c))"
        "overwrite_tokens cfs n i skips ts k u (c\<lparr>stage_cur := stage_cur c + 1\<rparr>) = Some (Inr (False, last', v', afl'))"
    using Cons.prems(1) b unfolding t by (auto split: sum.splits bool.splits option.splits prod.splits if_splits)
  then show ?case
  proof cases
    case skip
    then show ?thesis using Cons.IH [OF skip] Cons.prems(2-4) k same_tokens_trans by (auto simp: laid_def)
  next
    case run
    have pid: "fsrv_pid b \<noteq> 0" using Cons.prems(2) k by (simp add: laid_def)
    have "ends_in False (\<lambda>u c. laid i (unat k) buf u c \<and> same_tokens c b) (det_run cfs n out v b)"
      by (rule ends_in_run [OF cfs pid])
        (use put_token_same_but [OF _ run(1)] Cons.prems(2,4) in \<open>auto simp: laid_def t\<close>)
    then have "laid i (unat k) buf u c" "same_tokens c afl"
      using run(2) same_tokens_trans [OF _ k(2)] by (simp_all add: ends_in_def)
    then show ?thesis using Cons.IH [OF run(3)] Cons.prems(3) same_tokens_trans by (auto simp: t laid_def)
  qed
qed simp

definition dict_ready :: "bytes \<Rightarrow> det_vars \<Rightarrow> 'a afl_det_scheme \<Rightarrow> bool" where
  "dict_ready buf v afl \<longleftrightarrow> dv_out v = buf \<and> fsrv_pid afl \<noteq> 0 \<and> tokens_sorted afl"

lemma overwrite_at_ready:
  fixes afl :: "'a afl_det_scheme"
  assumes cfs: "calm False cfs" and sk: "quiet_skips skips" and inv: "dict_ready buf v afl"
    and s: "sorted (map (\<lambda>t. unat (snd t)) (tokens afl))"
  shows "ends_in False (dict_ready buf) (overwrite_at cfs n buf skips tokens i v afl)"
  unfolding ends_in_def
proof (intro conjI allI impI)
  fix u and b :: "'a afl_det_scheme" assume "overwrite_at cfs n buf skips tokens i v afl = Some (Inr (False, u, b))"
  then obtain l v' out where o: "overwrite_tokens cfs n i skips (tokens afl) 0 v (afl\<lparr>stage_cur_byte := int i\<rparr>) = Some (Inr (False, l, v', b))"
    and p: "put_token (drop i buf) l (dv_out v') i = Inr out" "u = v'\<lparr>dv_out := out\<rparr>"
    by (auto simp: overwrite_at_def det_try_def det_ok_def split: option.splits sum.splits prod.splits if_splits)
  have "laid i (unat l) buf v' b \<and> same_tokens b (afl\<lparr>stage_cur_byte := int i\<rparr>)"
    by (rule overwrite_tokens_laid [OF cfs sk o]) (use inv s in \<open>auto simp: dict_ready_def laid_def\<close>)
  then show "dict_ready buf u b"
    using put_token_restore [OF _ p(1)] p(2) inv same_tokens_sorted by (auto simp: dict_ready_def laid_def)
qed simp

lemma dict_ready_sorted:
  assumes "dict_ready buf v afl"
  shows "sorted (map (\<lambda>t. unat (snd t)) (user_tokens afl))"
    and "sorted (map (\<lambda>t. unat (snd t)) (auto_tokens (unat (min (a_extras_cnt afl) (of_nat USE_AUTO_EXTRAS))) afl))"
  using assms by (simp_all add: dict_ready_def tokens_sorted_def)

lemma insert_token_ready:
  fixes afl :: "'a afl_det_scheme"
  assumes "calm False cfs" and "dict_ready buf v afl"
  shows "ends_in False (dict_ready buf) (insert_token cfs n i t v afl)"
proof -
  have "dict_ready buf (v\<lparr>dv_ex_tmp := ex\<rparr>) (b\<lparr>stage_cur := c\<rparr>)" if "cfs afl ex m = Some (Inr (False, b))" for ex m b c
    using assms that same_tokens_sorted [of b afl] same_tokens_sorted [of "b\<lparr>stage_cur := c\<rparr>" b]
    by (auto simp: calm_def dict_ready_def)
  then show ?thesis using assms(2)
    by (auto simp: insert_token_def Let_def ends_in_def det_ok_def dict_ready_def tokens_sorted_def user_tokens_def auto_tokens_def
        split: if_splits prod.splits option.splits sum.splits)
qed

lemma dict_ready_upd [simp]:
  "dict_ready buf v (afl\<lparr>stage_cur_byte := i\<rparr>) = dict_ready buf v afl" "dict_ready buf (v\<lparr>dv_ex_tmp := ex\<rparr>) afl = dict_ready buf v afl"
  "dict_ready buf v (begin_stage nm sh mx afl) = dict_ready buf v afl" "dict_ready buf v (afl\<lparr>stage_val_type := t\<rparr>) = dict_ready buf v afl"
  by (simp_all add: dict_ready_def begin_stage_def tokens_sorted_def user_tokens_def auto_tokens_def)

lemma insert_at_ready:
  assumes "calm False cfs" and "dict_ready buf v afl"
  shows "ends_in False (dict_ready buf) (insert_at cfs n tokens i v afl)"
  unfolding insert_at_def
  by (rule ends_in_bind [where P = "dict_ready buf"], rule ends_in_for)
    (use assms in \<open>auto intro!: insert_token_ready ends_in_try ends_in_ok ends_in_err\<close>)

lemma end_stage_ready: "ends_in False (dict_ready buf) r \<Longrightarrow> ends_in False (dict_ready buf) (det_bind r (end_stage k))"
  by (rule ends_in_bind, assumption)
    (auto simp: end_stage_def Let_def dict_ready_def tokens_sorted_def user_tokens_def auto_tokens_def intro!: ends_in_try ends_in_ok)

lemma dictionaries_ready:
  assumes "calm False cfs" and "dict_ready buf v afl"
  shows "ends_in False (dict_ready buf) (dictionaries cfs n buf v afl)"
proof -
  have over: "ends_in False (dict_ready buf) (extras_over_stage cfs n buf u a)" "ends_in False (dict_ready buf) (auto_over_stage cfs n buf u a)"
    if "dict_ready buf u a" for u a
    unfolding extras_over_stage_def auto_over_stage_def Let_def
    by (rule end_stage_ready, rule ends_in_for, rule overwrite_at_ready [OF assms(1) skip_extra_quiet(1)],
        assumption, erule dict_ready_sorted, use that in simp)
      (rule end_stage_ready, rule ends_in_for, rule overwrite_at_ready [OF assms(1) skip_extra_quiet(2)],
        assumption, erule dict_ready_sorted, use that in simp)
  have ins: "ends_in False (dict_ready buf) (extras_insert_stage cfs n u a)" "ends_in False (dict_ready buf) (auto_insert_stage cfs n u a)"
    if "dict_ready buf u a" for u a
    unfolding extras_insert_stage_def auto_insert_stage_def
    by (rule end_stage_ready, rule ends_in_for, use that in \<open>auto intro: insert_at_ready [OF assms(1)]\<close>)+
  show ?thesis
    unfolding dictionaries_def using assms(2)
    by (auto intro!: ends_in_bind [where P = "dict_ready buf"] ends_in_ok over ins)
qed


end
