(* ===== verification/Afl_Stages.thy ===== *)
theory Afl_Stages
  imports Afl_Hangs Afl_Restore
begin

unbundle bit_operations_syntax

text \<open>
  The deterministic stages run with \<open>common_fuzz_stuff\<close> itself: a run leaves the position of the stage and the tokens
  alone, so every stage puts \<open>out_buf\<close> back. Run with a recorder, the stages show which inputs they try.
\<close>

section \<open>A run leaves the stage alone\<close>

definition still :: "'a afl_save_scheme \<Rightarrow> int \<times> u32 \<times> u32 \<times> extra_data list \<times> auto_extra_data list \<times> u32 \<times> 'a" where
  "still afl = (fsrv_pid afl, stage_cur afl, stage_max afl, extras afl, a_extras afl, a_extras_cnt afl, afl_save.more afl)"

lemma still_upd [simp]:
  "still (afl\<lparr>trace_bits := t\<rparr>) = still afl" "still (afl\<lparr>total_crashes := c\<rparr>) = still afl" "still (afl\<lparr>total_tmouts := c\<rparr>) = still afl"
  "still (afl\<lparr>saved_crashes := c\<rparr>) = still afl" "still (afl\<lparr>saved_hangs := c\<rparr>) = still afl" "still (afl\<lparr>saved_tmouts := c\<rparr>) = still afl"
  "still (afl\<lparr>last_crash_time := x\<rparr>) = still afl" "still (afl\<lparr>last_hang_time := x\<rparr>) = still afl"
  "still (afl\<lparr>last_crash_execs := x\<rparr>) = still afl" "still (afl\<lparr>ticks := k\<rparr>) = still afl" "still (afl\<lparr>fs := f\<rparr>) = still afl"
  "still (afl\<lparr>custom_mutator_list := l\<rparr>) = still afl" "still (afl\<lparr>queued_discovered := d\<rparr>) = still afl"
  "still (afl\<lparr>subseq_tmouts := j\<rparr>) = still afl" "still (afl\<lparr>cur_skipped_items := i\<rparr>) = still afl"
  "still (afl\<lparr>skip_requested := b\<rparr>) = still afl" "still (classify_counts afl) = still afl"
  by (simp_all add: still_def classify_counts_def)

lemma has_new_bits_still: "has_new_bits afl vm = (r, afl') \<Longrightarrow> still afl' = still afl"
  by (cases vm) (auto simp: has_new_bits_def still_def Let_def split: prod.splits if_split_asm)

lemma unadded_still: "unadded a = unadded b \<Longrightarrow> still a = still b"
  by (rule unadded_same [of a b "\<lambda>x. still x = still b", simplified]) (simp_all add: still_def unadded_def)

lemma rested_still:
  assumes "rested a = rested (b :: 'a afl_save_scheme)"
  shows "still a = still b"
proof -
  have "still x = still (rested x)" for x :: "'a afl_save_scheme" by (simp add: still_def rested_def unsent_def idle_def)
  then show ?thesis using assms by metis
qed

lemma save_to_queue_still:
  assumes save: "save_to_queue w v afl = Some (Inr (v', afl'))" and pid: "fsrv_pid afl \<noteq> 0" and stats: "stats_keep w"
  shows "still afl' = still afl"
  using save
proof (rule save_to_queue_split)
  fix a q mem h res b assume a: "unadded a = unadded afl" and c: "calibrate_case w a q mem h False = Some (Inr (res, b))"
    and fin: "unadded afl' = unadded b"
  have pid': "fsrv_pid a \<noteq> 0" using unadded_still [OF a] pid by (simp add: still_def)
  have u: "unsaved b = unsaved a" using calibrate_case_uncal [OF c pid' stats] by (rule uncal_unsaved)
  have "fsrv_pid b = fsrv_pid a" "extras b = extras a" "a_extras b = a_extras a" "a_extras_cnt b = a_extras_cnt a" "afl_save.more b = afl_save.more a"
    by (rule unsaved_same [OF u]; simp add: unsaved_defs)+
  moreover have "stage_cur b = stage_cur a" "stage_max b = stage_max a" using calibrate_case_effect [OF c pid' stats] by simp_all
  ultimately have "still b = still a" by (simp add: still_def)
  then show ?thesis using unadded_still [OF a] unadded_still [OF fin] by simp
qed

lemma seen_before_still: "seen_before vm v afl = (seen, v', afl') \<Longrightarrow> still afl' = still afl"
  by (auto simp: seen_before_def Let_def split: if_splits prod.splits dest!: has_new_bits_still)

lemma write_crash_readme_still:
  fixes afl :: "'a afl_save_scheme"
  assumes "write_crash_readme rnd afl = Inr afl'"
  shows "still afl' = still afl"
proof -
  obtain fn where "(case creat_excl afl fn (map of_char (crash_readme rnd afl)) of Inl _ \<Rightarrow> Inr afl | Inr b \<Rightarrow> Inr b)
      = (Inr afl' :: 'a afl_save_scheme result)"
    using assms unfolding write_crash_readme_def bind_result_Inr_iff by blast
  then show ?thesis
    by (cases "creat_excl afl fn (map of_char (crash_readme rnd afl))") (simp_all add: creat_excl_Inr)
qed

lemma describe_op_still: "describe_op w afl nb k = Inr (desc, afl') \<Longrightarrow> still afl' = still afl"
  by (auto dest!: describe_op_state)

lemma keep_as_crash_still:
  assumes "keep_as_crash rnd w v afl = Inr (next, v', afl')"
  shows "still afl' = still afl"
proof -
  obtain seen v1 a1 where s: "seen_before Virgin_crash v (afl\<lparr>total_crashes := total_crashes afl + 1\<rparr>) = (seen, v1, a1)"
    by (cases "seen_before Virgin_crash v (afl\<lparr>total_crashes := total_crashes afl + 1\<rparr>)")
  have a1: "still a1 = still afl" using seen_before_still [OF s] by simp
  have readme: "still a2 = still a1"
    if "(if c then write_crash_readme rnd a1 else Inr a1) = Inr a2" for c a2
    using that write_crash_readme_still [of rnd a1 a2] by (simp split: if_splits)
  show ?thesis
    using assms s a1
    by (auto simp: keep_as_crash_def Let_def get_cur_time_def bind_result_Inr_iff split: if_split_asm prod.splits
        dest!: readme describe_op_still write_crash_readme_still)
qed

lemma name_hang_still: "name_hang w v afl = Inr (next, v', afl') \<Longrightarrow> still afl' = still afl"
  by (auto simp: name_hang_def Let_def get_cur_time_def bind_result_Inr_iff dest!: describe_op_still)

lemma rerun_hang_still:
  assumes "rerun_hang w v afl = Inr (r, v', afl')"
  shows "still afl' = still afl"
  using assms
proof (rule rerun_hang_steps)
  fix a1 a2 assume "fuzz_run_target w a1 (hang_tmout a1) = Inr (r, a2)" "rested a1 = rested afl" "afl' = classify_counts a2"
  then show ?thesis using run_rested(1) [of w a1 "hang_tmout a1" r a2] rested_still [of a2 afl] by simp
qed

lemma keep_as_hang_still:
  assumes "keep_as_hang rnd w v afl = Inr (next, v', afl')"
  shows "still afl' = still afl"
proof -
  obtain seen v1 a1 where s: "seen_before Virgin_tmout v (afl\<lparr>total_tmouts := total_tmouts afl + 1\<rparr>) = (seen, v1, a1)"
    by (cases "seen_before Virgin_tmout v (afl\<lparr>total_tmouts := total_tmouts afl + 1\<rparr>)")
  have "still a1 = still afl" using seen_before_still [OF s] by simp
  then show ?thesis
    using assms s
    by (auto simp: keep_as_hang_def Let_def bind_result_Inr_iff split: if_split_asm
        dest!: keep_as_crash_still name_hang_still rerun_hang_still)
qed

lemma handle_fault_still: "handle_fault rnd w v afl = Inr (next, v', afl') \<Longrightarrow> still afl' = still afl"
  by (auto simp: handle_fault_def split: fsrv_run_result.splits dest: keep_as_hang_still keep_as_crash_still)

lemma save_loop_still:
  fixes afl :: "'a afl_save_scheme"
  assumes stats: "stats_keep w" and loop: "save_loop rnd w queue_it v afl = Some (Inr (kept, afl'))" and pid: "fsrv_pid afl \<noteq> 0"
  shows "still afl' = still afl"
proof -
  have "w1 = w \<longrightarrow> fsrv_pid a1 \<noteq> 0 \<longrightarrow> (\<forall>kept afl'. r = Inr (kept, afl') \<longrightarrow> still afl' = still a1)"
    if "save_loop rnd1 w1 q1 v1 a1 = Some r" for rnd1 w1 q1 v1 r and a1 :: "'a afl_save_scheme"
    apply (rule save_loop.raw_induct [where P = "\<lambda>rnd1 w1 q1 v1 a1 r. w1 = w \<longrightarrow> fsrv_pid a1 \<noteq> 0 \<longrightarrow>
        (\<forall>kept afl'. r = Inr (kept, afl') \<longrightarrow> still afl' = still (a1 :: 'a afl_save_scheme))", OF _ that])
    subgoal premises prems for f rnd1 w1 q1 v1 a1 r
    proof (intro impI allI)
      fix kept and afl' :: "'a afl_save_scheme" assume w: "w1 = w" and pid: "fsrv_pid a1 \<noteq> 0" and r: "r = Inr (kept, afl')"
      obtain v2 a2 where q: "(if q1 then save_to_queue w1 v1 a1 else Some (Inr (v1, a1))) = Some (Inr (v2, a2))"
        using prems(2) r by (cases "if q1 then save_to_queue w1 v1 a1 else Some (Inr (v1, a1))"; auto split: sum.splits)
      have a2: "still a2 = still a1"
        using q save_to_queue_still [of w1 v1 a1 v2 a2] pid stats w by (simp split: if_splits)
      obtain nxt v3 a3 where h: "handle_fault rnd1 w1 v2 a2 = Inr (nxt, v3, a3)"
        using prems(2) r unfolding q by (cases "handle_fault rnd1 w1 v2 a2") (auto)
      have a3: "still a3 = still a1" using handle_fault_still [OF h] a2 by simp
      show "still afl' = still a1"
      proof (cases nxt)
        case Sv_again
        then have "f rnd1 w1 True v3 a3 = Some r" using prems(2) r unfolding q by (simp add: h)
        from prems(1) [OF this] show ?thesis using w pid a3 r by (simp add: still_def)
      next
        case Sv_return
        then show ?thesis using prems(2) r a3 unfolding q by (simp add: h)
      next
        case (Sv_file fn)
        then have "save_file w1 a3 fn (sv_mem v3) (sv_len v3) = Inr afl'"
          using prems(2) r unfolding q by (simp add: h split: option.splits sum.splits)
        then show ?thesis using a3 by (auto dest!: save_file_state)
      qed
    qed
    done
  then show ?thesis using loop pid by blast
qed

lemma count_path_still:
  assumes "count_path w v afl = Inr (v', afl')"
  shows "still afl' = still afl"
  using count_path_frame(1) [OF assms] unadded_still [of afl' "classify_counts afl"] by auto

lemma look_for_new_bits_still: "look_for_new_bits v afl = (v', afl') \<Longrightarrow> still afl' = still afl"
  by (auto simp: look_for_new_bits_def has_new_bits_unclassified_def split: if_splits prod.splits dest!: has_new_bits_still)

lemma save_if_interesting_still:
  assumes stats: "stats_keep w" and "save_if_interesting rnd w afl mem n fault = Some (Inr (kept, afl'))" and pid: "fsrv_pid afl \<noteq> 0"
  shows "still afl' = still afl"
proof -
  have loop: "still afl' = still afl" if "save_loop rnd w queue_it v1 a1 = Some (Inr (kept, afl'))" "still a1 = still afl" for queue_it v1 a1
    using save_loop_still [OF stats that(1)] that(2) pid by (simp add: still_def)
  show ?thesis
    using assms(2) unfolding save_if_interesting_def
    by (auto split: if_split_asm sum.splits prod.splits dest!: count_path_still look_for_new_bits_still dest: loop)
qed

lemma more_counters:
  "afl_save.more a = afl_save.more b \<Longrightarrow> stage_finds (a :: 'a afl_det_scheme) = stage_finds b \<and> stage_cycles a = stage_cycles b"
  by (cases a, cases b) simp

lemma still_calm:
  "still a = still (b :: 'a afl_det_scheme) \<Longrightarrow> fsrv_pid b \<noteq> 0 \<Longrightarrow> fsrv_pid a \<noteq> 0 \<and> same_stage a b \<and> same_tokens a b"
  using more_counters [of a b] by (simp add: still_def same_tokens_def same_stage_def)

lemma common_fuzz_stuff_still:
  assumes stats: "stats_keep w" and cfs: "common_fuzz_stuff rnd w afl out n = Some (Inr (stop, afl'))" and pid: "fsrv_pid afl \<noteq> 0"
  shows "still afl' = still afl"
proof -
  obtain m k a where wr: "write_to_testcase w afl out n False = Inr (m, k, a)"
    using cfs by (auto simp: common_fuzz_stuff_def split: sum.splits)
  have a: "still a = still afl" by (rule rested_still [OF write_rested [OF wr]])
  show ?thesis
  proof (cases "k = 0")
    case True
    then show ?thesis using cfs wr a by (simp add: common_fuzz_stuff_def)
  next
    case False
    then obtain fault b where run: "fuzz_run_target w a (exec_tmout a) = Inr (fault, b)"
      using cfs wr by (auto simp: common_fuzz_stuff_def split: sum.splits)
    have b: "still b = still afl" using rested_still [OF run_rested(1) [OF run]] a by simp
    let ?b = "b\<lparr>subseq_tmouts := (if fault = FSRV_RUN_TMOUT then subseq_tmouts b + 1 else 0)\<rparr>"
    have show_stats: "still (w_show_stats w x) = still x" for x
      using stats_same [OF stats, where P = "\<lambda>y. still y = still x" and s = x] by (simp add: still_def stats_free_def)
    consider "still afl' = still ?b" | c kept where "save_if_interesting rnd w ?b m k fault = Some (Inr (kept, c))" "still afl' = still c"
      using cfs wr run False show_stats
      by (auto simp: common_fuzz_stuff_def Let_def split: if_split_asm option.splits sum.splits prod.splits)
    then show ?thesis
    proof cases
      case (2 c kept)
      have "fsrv_pid ?b \<noteq> 0" using b pid by (simp add: still_def)
      from save_if_interesting_still [OF stats 2(1) this] 2(2) b show ?thesis by simp
    qed (use b in simp)
  qed
qed

lemma common_fuzz_stuff_calm: "stats_keep w \<Longrightarrow> calm False (common_fuzz_stuff rnd w)"
  unfolding calm_def by (blast dest: common_fuzz_stuff_still still_calm)

section \<open>Recording the inputs\<close>

text \<open>A session that only notes the inputs it is given.\<close>

record afl_log = afl_det +
  ran :: "bytes list"

definition recorder :: "afl_log fuzzer" where
  "recorder afl out n = Some (Inr (False, afl\<lparr>ran := ran afl @ [out]\<rparr>))"

lemma recorder_calm: "calm t recorder"
  by (auto simp: calm_def recorder_def same_stage_def same_tokens_def)

definition det_demo :: afl_log where
  "det_demo = afl_save.extend save_demo
     \<lparr>stage_finds = replicate 32 0, stage_cycles = replicate 32 0, blocks_eff_total = 0, blocks_eff_select = 0, no_arith = False,
      max_det_extras = 200, ran = []\<rparr>"

lemma det_demo_fields [simp]:
  "fsrv_pid det_demo \<noteq> 0" "length (stage_finds det_demo) = 32" "length (stage_cycles det_demo) = 32"
  "extras det_demo = extras save_demo" "a_extras_cnt det_demo = a_extras_cnt save_demo" "a_extras det_demo = a_extras save_demo"
  "ran det_demo = []"
  by (simp_all add: det_demo_def afl_save.extend_def save_demo_fields)

section \<open>The inputs of the bit flips\<close>

definition walk_inputs :: "u32 list \<Rightarrow> nat \<Rightarrow> bytes \<Rightarrow> bytes list" where
  "walk_inputs offs m buf = map (\<lambda>b. foldl flip_one buf (map (\<lambda>d. of_nat b + d) offs)) [0..<m]"

definition flip_inputs :: "bytes \<Rightarrow> bytes result list" where
  "flip_inputs buf = map Inr (walk_inputs [0] (8 * length buf) buf @ walk_inputs [0, 1] (8 * length buf - 1) buf
       @ walk_inputs [0, 1, 2, 3] (8 * length buf - 3) buf)
     @ map (xor_bytes 1 buf) [0..<length buf] @ map (xor_bytes 2 buf) [0..<length buf - 1] @ map (xor_bytes 4 buf) [0..<length buf - 3]"

lemma recorder_run [simp]: "det_run recorder n out v afl = Some (Inr (False, v\<lparr>dv_out := out\<rparr>, afl\<lparr>ran := ran afl @ [out]\<rparr>))"
  by (simp add: det_run_def recorder_def)

lemma det_bind_some [simp]: "det_bind (Some (Inr (False, v, afl))) f = f v afl"
  by (simp add: det_bind_def)

lemma det_try_Inr [simp]: "det_try (Inr x) f = f x"
  by (simp add: det_try_def)

lemma walk_body_log:
  assumes "dv_out v = buf" and "\<forall>d \<in> set offs. unat (drop_bit 3 (stage_cur afl + d)) < length buf"
  shows "\<exists>cb. walk_body recorder n offs det_ok v afl
    = Some (Inr (False, v, afl\<lparr>stage_cur_byte := cb, ran := ran afl @ [foldl flip_one buf (map (\<lambda>d. stage_cur afl + d) offs)]\<rparr>))"
  using assms by (auto simp: walk_body_def Let_def flip_bits_eq det_ok_def foldl_flip_twice)

lemma walk_bits_log:
  assumes out: "dv_out v = buf" and len: "length buf = unat n" and within: "\<And>b :: afl_log. stage_cur b < m \<Longrightarrow> bits_within n offs b"
    and "stage_max afl = m"
  shows "\<exists>afl'. walk_bits recorder n offs det_ok v afl = Some (Inr (False, v, afl'))
    \<and> ran afl' = ran afl @ map (\<lambda>b. foldl flip_one buf (map (\<lambda>d. of_nat b + d) offs)) [unat (stage_cur afl)..<unat m]
    \<and> stage_finds afl' = stage_finds afl \<and> stage_cycles afl' = stage_cycles afl"
  using assms(4)
proof (induction "unat m - unat (stage_cur afl)" arbitrary: afl rule: less_induct)
  case less
  show ?case
  proof (cases "stage_cur afl < m")
    case False
    then have "unat m \<le> unat (stage_cur afl)" by (simp add: word_less_nat_alt)
    then show ?thesis using False less.prems unfolding walk_bits_def by (subst stage_loop.simps) simp
  next
    case True
    let ?out = "foldl flip_one buf (map (\<lambda>d. stage_cur afl + d) offs)"
    obtain cb where w: "walk_body recorder n offs det_ok v afl = Some (Inr (False, v, afl\<lparr>stage_cur_byte := cb, ran := ran afl @ [?out]\<rparr>))"
      using walk_body_log [of v buf offs afl n] out True within [of afl] len by (auto simp: bits_within_def)
    let ?a = "afl\<lparr>stage_cur_byte := cb, ran := ran afl @ [?out], stage_cur := stage_cur afl + 1\<rparr>"
    have step: "walk_bits recorder n offs det_ok v afl = walk_bits recorder n offs det_ok v ?a"
      using True less.prems w unfolding walk_bits_def by (subst stage_loop.simps) simp
    have lt: "unat (stage_cur afl) < unat m" using True by (simp add: word_less_nat_alt)
    have suc: "unat (stage_cur ?a) = Suc (unat (stage_cur afl))"
      using lt unat_lt2p [of m] by (simp, subst unat_add_small) simp_all
    have dec: "unat m - unat (stage_cur ?a) < unat m - unat (stage_cur afl)" using suc lt by linarith
    have "stage_max ?a = m" using less.prems by simp
    from less.hyps [OF dec this, unfolded suc] obtain a where "walk_bits recorder n offs det_ok v ?a = Some (Inr (False, v, a))"
      "ran a = ran ?a @ map (\<lambda>b. foldl flip_one buf (map (\<lambda>d. of_nat b + d) offs)) [Suc (unat (stage_cur afl))..<unat m]"
      "stage_finds a = stage_finds afl" "stage_cycles a = stage_cycles afl"
      by (elim exE conjE) simp
    moreover have "[unat (stage_cur afl)..<unat m] = unat (stage_cur afl) # [Suc (unat (stage_cur afl))..<unat m]"
      using lt by (rule upt_conv_Cons)
    ultimately show ?thesis unfolding step by simp
  qed
qed

lemma end_stage_log:
  assumes "k < length (stage_finds afl)" and "k < length (stage_cycles afl)"
  shows "\<exists>v' afl'. end_stage k v afl = Some (Inr (False, v', afl')) \<and> dv_out v' = dv_out v \<and> ran afl' = ran (afl :: afl_log)
    \<and> length (stage_finds afl') = length (stage_finds afl) \<and> length (stage_cycles afl') = length (stage_cycles afl)"
  using assms by (simp add: end_stage_def Let_def get_at_def det_ok_def)

text \<open>A stage that walks over the bits, with \<open>k\<close> the greatest offset.\<close>

lemma walking_stage_log:
  fixes afl :: afl_log
  assumes out: "dv_out v = buf" and len: "length buf = unat n" and n: "n \<noteq> 0" "n \<le> MAX_FILE" and offs: "\<forall>d \<in> set offs. unat d \<le> k" and k: "k \<le> 3"
    and st: "st < length (stage_finds afl)" "st < length (stage_cycles afl)"
  shows "\<exists>v' afl'. det_bind (walk_bits recorder n offs det_ok v (begin_stage nm sh (push_bit 3 n - of_nat k) afl)) (end_stage st)
      = Some (Inr (False, v', afl')) \<and> dv_out v' = buf \<and> ran afl' = ran afl @ walk_inputs offs (8 * length buf - k) buf
    \<and> length (stage_finds afl') = length (stage_finds afl) \<and> length (stage_cycles afl') = length (stage_cycles afl)"
proof -
  let ?m = "push_bit 3 n - of_nat k :: u32" and ?b = "begin_stage nm sh (push_bit 3 n - of_nat k) afl"
  have n20: "unat n \<le> 2 ^ 20" using n(2) by (simp add: word_le_nat_alt)
  have p: "unat (push_bit 3 n) = 8 * unat n" using n20 by (simp add: push_bit_eq_mult unat_word_ariths)
  have k8: "k \<le> 8 * unat n" using n(1) k unat_gt_0 [of n] by linarith
  have "unat (of_nat k :: u32) = k" using k by (simp add: unat_of_nat)
  then have m: "unat ?m = 8 * length buf - k" using k8 p len by (simp add: unat_sub word_le_nat_alt)
  have w: "bits_within n offs b" if "stage_cur b < ?m" for b :: afl_log by (rule bits_within_below [OF n(2) offs that k8])
  have b: "unat (stage_cur ?b) = 0" "ran ?b = ran afl" "stage_finds ?b = stage_finds afl" "stage_cycles ?b = stage_cycles afl"
    by (simp_all add: begin_stage_def)
  obtain a where a: "walk_bits recorder n offs det_ok v ?b = Some (Inr (False, v, a))" "ran a = ran afl @ walk_inputs offs (8 * length buf - k) buf"
    "stage_finds a = stage_finds afl" "stage_cycles a = stage_cycles afl"
    using walk_bits_log [where m = ?m and afl = ?b, OF out len w begin_stage_max] unfolding b m walk_inputs_def by blast
  then show ?thesis using end_stage_log [of st a v] st out by auto
qed

section \<open>The inputs of the byte arithmetic\<close>

definition arith8_inputs :: "nat \<Rightarrow> bytes \<Rightarrow> nat \<Rightarrow> bytes list" where
  "arith8_inputs i buf j =
     map (\<lambda>x. buf[i := x]) (filter (\<lambda>x. \<not> could_be_bitflip (ucast (buf ! i XOR x))) [buf ! i + of_nat j, buf ! i - of_nat j])"

lemma try_put_log:
  assumes "dv_out v = buf[i := y]" and "i < length buf"
  shows "\<exists>y' afl'. try_value recorder n fresh (set_val c) (put_at (dv_out v) i x) v afl = Some (Inr (False, v\<lparr>dv_out := buf[i := y']\<rparr>, afl'))
    \<and> ran afl' = ran afl @ (if fresh then [buf[i := x]] else [])"
proof (cases fresh)
  case False
  have "v = v\<lparr>dv_out := buf[i := y]\<rparr>" using assms(1) by (metis det_vars.surjective det_vars.update_convs(1))
  then show ?thesis using False by (auto simp: try_value_def det_ok_def intro!: exI [of _ y])
qed (use assms in \<open>auto simp: try_value_def det_ok_def put_at_def\<close>)

lemma det_vars_out: "dv_out (v\<lparr>dv_out := out\<rparr>) = out"
  by simp

lemma arith8_try_log:
  assumes "dv_out v = buf" and "i < length buf"
  shows "\<exists>afl'. arith8_try recorder n i (buf ! i) j v afl = Some (Inr (False, v, afl')) \<and> ran afl' = ran afl @ arith8_inputs i buf j"
proof -
  let ?up = "buf ! i + of_nat j" and ?down = "buf ! i - of_nat j"
  have v: "dv_out v = buf[i := buf ! i]" "v\<lparr>dv_out := buf\<rparr> = v" using assms(1) by simp_all
  obtain y1 a1 where t1: "try_value recorder n (\<not> could_be_bitflip (ucast (buf ! i XOR ?up))) (set_val (int j)) (put_at (dv_out v) i ?up) v afl
      = Some (Inr (False, v\<lparr>dv_out := buf[i := y1]\<rparr>, a1))" and r1: "ran a1 = ran afl @ (if \<not> could_be_bitflip (ucast (buf ! i XOR ?up)) then [buf[i := ?up]] else [])"
    using try_put_log [OF v(1) assms(2)] by blast
  let ?v1 = "v\<lparr>dv_out := buf[i := y1]\<rparr>"
  obtain y2 a2 where t2: "try_value recorder n (\<not> could_be_bitflip (ucast (buf ! i XOR ?down))) (set_val (- int j)) (put_at (dv_out ?v1) i ?down) ?v1 a1
      = Some (Inr (False, ?v1\<lparr>dv_out := buf[i := y2]\<rparr>, a2))" and r2: "ran a2 = ran a1 @ (if \<not> could_be_bitflip (ucast (buf ! i XOR ?down)) then [buf[i := ?down]] else [])"
    using try_put_log [where v = ?v1, OF det_vars_out assms(2)] by blast
  have "put_at (buf[i := y2]) i (buf ! i) = Inr buf" using assms(2) by (simp add: put_at_def)
  then show ?thesis
    unfolding arith8_try_def Let_def t1 det_bind_some t2
    using r1 r2 v(2) by (auto simp: det_ok_def arith8_inputs_def)
qed

lemma det_for_log:
  assumes "\<And>j afl. \<exists>afl'. body j v afl = Some (Inr (False, v, afl')) \<and> ran afl' = ran (afl :: afl_log) @ g j"
  shows "\<exists>afl'. det_for body js v afl = Some (Inr (False, v, afl')) \<and> ran afl' = ran afl @ concat (map g js)"
proof (induction js arbitrary: afl)
  case (Cons j js)
  obtain a where a: "body j v afl = Some (Inr (False, v, a))" "ran a = ran afl @ g j" using assms by blast
  then show ?case using Cons.IH [of a] by simp
qed (simp add: det_ok_def)

lemma arith8_at_log:
  assumes "dv_out v = buf" and "i < length buf" and "eff_at v (of_nat i) = Inr e" and "e \<noteq> 0"
  shows "\<exists>afl'. arith8_at recorder n i v afl = Some (Inr (False, v, afl'))
    \<and> ran afl' = ran afl @ concat (map (arith8_inputs i buf) [1..<Suc ARITH_MAX])"
proof -
  obtain a where "det_for (arith8_try recorder n i (buf ! i)) [1..<Suc ARITH_MAX] v (afl\<lparr>stage_cur_byte := int i\<rparr>) = Some (Inr (False, v, a))"
    "ran a = ran afl @ concat (map (arith8_inputs i buf) [1..<Suc ARITH_MAX])"
    using det_for_log [where body = "arith8_try recorder n i (buf ! i)" and g = "arith8_inputs i buf" and js = "[1..<Suc ARITH_MAX]"
        and afl = "afl\<lparr>stage_cur_byte := int i\<rparr>", OF arith8_try_log [OF assms(1,2)]] by (auto simp del: upt_Suc)
  moreover have "eff_none v (of_nat i) 1 = Inr False" using assms(3,4) by simp
  ultimately show ?thesis using assms(1,2) by (simp add: arith8_at_def get_at_def del: eff_none.simps upt_Suc)
qed

text \<open>In one byte the test is exact: a difference it accepts is one of the patterns of the flips.\<close>

lemma could_be_bitflip_byte:
  fixes d :: u8
  assumes "could_be_bitflip (ucast d)" and "d \<noteq> 0"
  shows "d = 0xFF \<or> (\<exists>b < 8. d = drop_bit b 128) \<or> (\<exists>b < 7. d = drop_bit b 128 XOR drop_bit (b + 1) 128)
    \<or> (\<exists>b < 5. d = drop_bit b 128 XOR drop_bit (b + 1) 128 XOR drop_bit (b + 2) 128 XOR drop_bit (b + 3) 128)"
proof -
  have lt: "unat d < 2 ^ 8" using unat_lt2p [of d] by simp
  then have u: "unat (ucast d :: u32) = unat d" by (simp add: unsigned_ucast_eq take_bit_nat_eq_self_iff)
  have nz: "(ucast d :: u32) \<noteq> 0" using assms(2) u by (metis unat_eq_0 word_of_nat_eq_0_iff unsigned_0)
  obtain w k where wk: "unat d = (2 ^ w - 1) * 2 ^ k" "w \<in> {1, 2, 4} \<or> w \<in> {8, 16, 32} \<and> 8 dvd k"
    using assms(1) nz unfolding could_be_bitflip_iff u by blast
  have d: "d = of_nat ((2 ^ w - 1) * 2 ^ k)" unfolding wk(1) [symmetric] by simp
  have "2 ^ k \<le> unat d" using wk(2) unfolding wk(1) by auto
  then have "(2 :: nat) ^ k < 2 ^ 8" using lt by linarith
  then have "k < 8" by (simp only: power_strict_increasing_iff)
  then have k: "k \<in> {0, 1, 2, 3, 4, 5, 6, 7}" by auto
  consider "w = 1" | "w = 2" | "w = 4" | "w \<in> {8, 16, 32}" "k = 0" using wk(2) \<open>k < 8\<close> by (auto dest: dvd_imp_le)
  then show ?thesis
  proof cases
    case 1
    then have "d = drop_bit (7 - k) 128" using k d by auto
    then show ?thesis using \<open>k < 8\<close> by (intro disjI2 disjI1 exI [of _ "7 - k"]) simp
  next
    case 2
    then have "k < 7" using lt wk(1) k by auto
    then have "d = drop_bit (6 - k) 128 XOR drop_bit (6 - k + 1) 128" using 2 k d by auto
    moreover have "6 - k < 7" by simp
    ultimately show ?thesis by blast
  next
    case 3
    then have "k < 5" using lt wk(1) k by auto
    then have "d = drop_bit (4 - k) 128 XOR drop_bit (4 - k + 1) 128 XOR drop_bit (4 - k + 2) 128 XOR drop_bit (4 - k + 3) 128"
      using 3 k d by auto
    then show ?thesis using \<open>k < 5\<close> by (intro disjI2 exI [of _ "4 - k"]) simp
  next
    case 4
    then show ?thesis using lt wk(1) d by auto
  qed
qed

lemma flip_one_at:
  assumes "b < 8" and "8 * i + 8 \<le> 2 ^ 32"
  shows "flip_one ar (of_nat (8 * i + b)) = ar[i := ar ! i XOR drop_bit b 128]"
proof -
  let ?p = "of_nat (8 * i + b) :: u32"
  have p: "unat ?p = 8 * i + b" using assms by (simp only: unat_of_nat) simp
  have "unat (drop_bit 3 ?p) = i" using p assms(1) by (simp only: drop_bit_eq_div) (simp add: unat_div)
  moreover have "?p AND 7 = take_bit 3 ?p" using take_bit_eq_mask [of 3 ?p] by (simp only: mask_eq_exp_minus_1) simp
  then have "unat (?p AND 7) = b" using p assms(1) by (simp only: take_bit_eq_mod) (simp add: unat_mod)
  ultimately show ?thesis by (simp add: flip_one_def)
qed

lemma flips_reach:
  assumes "could_be_bitflip (ucast (buf ! i XOR x))" and "x \<noteq> buf ! i" and "i < length buf" and "8 * length buf \<le> 2 ^ 32"
  shows "Inr (buf[i := x]) \<in> set (flip_inputs buf)"
proof -
  let ?d = "buf ! i XOR x"
  have i8: "8 * i + 8 \<le> 8 * length buf" using assms(3) by simp
  then have i32: "8 * i + 8 \<le> 2 ^ 32" using assms(4) by simp
  have upd: "buf[i := buf ! i XOR ?d] = buf[i := x]" by (simp flip: xor.assoc)
  have nz: "?d \<noteq> 0" using assms(2) by (metis xor_zero_iff)
  have pos: "of_nat (8 * i + b) + 0 = (of_nat (8 * i + b) :: u32)" "of_nat (8 * i + b) + 1 = (of_nat (8 * i + (b + 1)) :: u32)"
    "of_nat (8 * i + b) + 2 = (of_nat (8 * i + (b + 2)) :: u32)" "of_nat (8 * i + b) + 3 = (of_nat (8 * i + (b + 3)) :: u32)" for b
    by simp_all
  have walk: "foldl flip_one buf (map (\<lambda>d. of_nat (8 * i + b) + d) offs) \<in> set (walk_inputs offs m buf)" if "8 * i + b < m" for b offs m
    using that by (force simp: walk_inputs_def)
  have f: "flip_one ar (of_nat (8 * i + c)) = ar[i := ar ! i XOR drop_bit c 128]" if "c < 8" for ar c
    by (rule flip_one_at [OF that i32])
  consider "?d = 0xFF" | b where "b < 8" "?d = drop_bit b 128" | b where "b < 7" "?d = drop_bit b 128 XOR drop_bit (b + 1) 128"
    | b where "b < 5" "?d = drop_bit b 128 XOR drop_bit (b + 1) 128 XOR drop_bit (b + 2) 128 XOR drop_bit (b + 3) 128"
    using could_be_bitflip_byte [OF assms(1) nz] by blast
  then show ?thesis
  proof cases
    case 1
    have "xor_bytes 1 buf i = Inr (buf[i := buf ! i XOR 0xFF])"
      using assms(3) by (simp add: xor_bytes_def upd_conv_take_nth_drop take_Suc_conv_app_nth Cons_nth_drop_Suc [symmetric])
    then have "xor_bytes 1 buf i = Inr (buf[i := x])" using upd 1 by simp
    then have "Inr (buf[i := x]) = xor_bytes 1 buf i" by (rule sym)
    then have "Inr (buf[i := x]) \<in> set (map (xor_bytes 1 buf) [0..<length buf])" unfolding set_map
      by (rule image_eqI) (use assms(3) in simp)
    then show ?thesis unfolding flip_inputs_def set_append by blast
  next
    case (2 b)
    have "foldl flip_one buf (map (\<lambda>d. of_nat (8 * i + b) + d) [0]) = buf[i := x]"
      using flip_one_at [OF 2(1) i32] 2(2) upd by (simp only: list.map foldl.simps pos)
    then show ?thesis using walk [of b "8 * length buf" "[0]"] 2(1) i8 by (simp add: flip_inputs_def del: list.map foldl.simps)
  next
    case (3 b)
    have "foldl flip_one buf (map (\<lambda>d. of_nat (8 * i + b) + d) [0, 1]) = flip_one (flip_one buf (of_nat (8 * i + b))) (of_nat (8 * i + (b + 1)))"
      by (simp only: list.map foldl.simps pos)
    also have "\<dots> = buf[i := buf ! i XOR ?d]"
      using 3(1) assms(3) by (subst f, simp)+ (simp only: 3(2) nth_list_update_eq list_update_overwrite xor.assoc)
    finally have "foldl flip_one buf (map (\<lambda>d. of_nat (8 * i + b) + d) [0, 1]) = buf[i := x]" unfolding upd .
    then show ?thesis using walk [of b "8 * length buf - 1" "[0, 1]"] 3(1) i8 by (simp add: flip_inputs_def del: list.map foldl.simps)
  next
    case (4 b)
    have "foldl flip_one buf (map (\<lambda>d. of_nat (8 * i + b) + d) [0, 1, 2, 3])
        = flip_one (flip_one (flip_one (flip_one buf (of_nat (8 * i + b))) (of_nat (8 * i + (b + 1)))) (of_nat (8 * i + (b + 2)))) (of_nat (8 * i + (b + 3)))"
      by (simp only: list.map foldl.simps pos)
    also have "\<dots> = buf[i := buf ! i XOR ?d]"
      using 4(1) assms(3) by (subst f, simp)+ (simp only: 4(2) nth_list_update_eq list_update_overwrite length_list_update xor.assoc)
    finally have "foldl flip_one buf (map (\<lambda>d. of_nat (8 * i + b) + d) [0, 1, 2, 3]) = buf[i := x]" unfolding upd .
    then show ?thesis using walk [of b "8 * length buf - 3" "[0, 1, 2, 3]"] 4(1) i8 by (simp add: flip_inputs_def del: list.map foldl.simps)
  qed
qed

section \<open>Properties\<close>

text \<open>(C19)
  The value stages of \<open>fuzz_one_original\<close>, from \<open>bitflip 1/1\<close> to \<open>interest 32/8\<close>, leave \<open>out_buf\<close> as they found it unless they
  abandon the entry: with \<open>common_fuzz_stuff\<close> as it is, for every target, every effector map and every set of tokens collected on the way.
\<close>

theorem value_stages_restore:
  assumes "stats_keep w" and "fsrv_pid afl \<noteq> 0"
  shows "ends_in False (\<lambda>v afl'. dv_out v = out \<and> fsrv_pid afl' \<noteq> 0)
    (det_bind (bitflips qsort (common_fuzz_stuff rnd w) w n (det_vars0 out) afl) (\<lambda>v afl.
     det_bind (ariths (common_fuzz_stuff rnd w) n v afl) (interests (common_fuzz_stuff rnd w) n)))"
proof -
  note cfs = common_fuzz_stuff_calm [OF assms(1), of rnd]
  have start: "whole False n out (det_vars0 out) afl" using assms(2) by (simp add: whole_def det_vars0_def)
  have "ends_in False (ready False n out)
    (det_bind (bitflips qsort (common_fuzz_stuff rnd w) w n (det_vars0 out) afl) (\<lambda>v afl.
     det_bind (ariths (common_fuzz_stuff rnd w) n v afl) (interests (common_fuzz_stuff rnd w) n)))"
    unfolding bitflips_def
    by (intro ends_in_bind [OF ends_in_bind [OF flip1_whole [OF cfs start] wider_flips_ready [OF cfs]]]
        ends_in_bind [OF ariths_ready [OF cfs] interests_ready [OF cfs]]) simp_all
  then show ?thesis by (rule ends_in_weaken) (simp add: ready_def whole_def)
qed

theorem value_stages_restore_witness:
  "ends_in False (\<lambda>v afl'. dv_out v = [65, 66, 67] \<and> fsrv_pid afl' \<noteq> 0)
    (det_bind (bitflips insertion_sort (common_fuzz_stuff (\<lambda>x. x) (demo_world (\<lambda>_ _ _. ok_reply [1, 2])))
       (demo_world (\<lambda>_ _ _. ok_reply [1, 2]) :: afl_log world) 3 (det_vars0 [65, 66, 67]) det_demo) (\<lambda>v afl.
     det_bind (ariths (common_fuzz_stuff (\<lambda>x. x) (demo_world (\<lambda>_ _ _. ok_reply [1, 2]))) 3 v afl)
       (interests (common_fuzz_stuff (\<lambda>x. x) (demo_world (\<lambda>_ _ _. ok_reply [1, 2]))) 3)))"
  by (rule value_stages_restore) (simp_all add: demo_world_keeps)

text \<open>(C21)
  The dictionary stages restore \<open>out_buf\<close> although a token is laid over the one before and only the length of the last one is
  remembered: the tokens are sorted by length, so the last one tried at a position covers all others.
\<close>

theorem dictionaries_restore:
  assumes "stats_keep w" and "fsrv_pid afl \<noteq> 0" and "tokens_sorted afl" and "dv_out v = in_buf"
  shows "ends_in False (\<lambda>v' afl'. dv_out v' = in_buf) (dictionaries (common_fuzz_stuff rnd w) n in_buf v afl)"
  by (rule ends_in_weaken [OF dictionaries_ready [OF common_fuzz_stuff_calm [OF assms(1)]]])
    (use assms in \<open>auto simp: dict_ready_def\<close>)

definition token_demo :: afl_log where
  "token_demo = det_demo\<lparr>extras := [\<lparr>ex_data = [1], ex_len = 1\<rparr>, \<lparr>ex_data = [1, 2], ex_len = 2\<rparr>], a_extras_cnt := 0\<rparr>"

theorem dictionaries_restore_witness:
  "ends_in False (\<lambda>v' afl'. dv_out v' = [65, 66, 67])
    (dictionaries (common_fuzz_stuff (\<lambda>x. x) (demo_world (\<lambda>_ _ _. ok_reply [1, 2]))) 3 [65, 66, 67] (det_vars0 [65, 66, 67]) token_demo)"
  by (rule dictionaries_restore)
    (simp_all add: demo_world_keeps token_demo_def tokens_sorted_def user_tokens_def auto_tokens_def det_vars0_def)

text \<open>(C20)
  After \<open>bitflip 1/1\<close> the value stages end and make no access outside \<open>out_buf\<close> or the effector map, for every input of 1 to
  \<open>MAX_FILE\<close> bytes and every routine in place of \<open>common_fuzz_stuff\<close> that returns and leaves the stage alone.
\<close>

theorem value_stages_return:
  assumes "calm True cfs" and "fsrv_pid afl \<noteq> 0" and "dv_out v = out" and "length out = unat n" and "n \<noteq> 0" and "n \<le> MAX_FILE"
    and "16 \<le> length (stage_finds afl)" and "16 \<le> length (stage_cycles afl)"
  shows "\<exists>stop v' afl'. det_bind (wider_flips cfs w n v afl) (\<lambda>v afl. det_bind (ariths cfs n v afl) (interests cfs n))
    = Some (Inr (stop, v', afl')) \<and> (stop \<or> dv_out v' = out)"
proof -
  have start: "whole True n out v afl" using assms by (simp add: whole_def)
  have "ends_in True (ready True n out) (det_bind (wider_flips cfs w n v afl) (\<lambda>v afl. det_bind (ariths cfs n v afl) (interests cfs n)))"
    by (intro ends_in_bind [OF wider_flips_ready [OF assms(1) start]] ends_in_bind [OF ariths_ready [OF assms(1)] interests_ready [OF assms(1)]])
      (use assms in auto)
  then show ?thesis by (auto simp: ends_in_def ready_def whole_def elim!: det_returns.elims)
qed

theorem value_stages_return_witness:
  "\<exists>stop v' afl'. det_bind (wider_flips recorder (demo_world (\<lambda>_ _ _. ok_reply [1, 2]) :: afl_log world) 3 (det_vars0 [65, 66, 67]) det_demo)
     (\<lambda>v afl. det_bind (ariths recorder 3 v afl) (interests recorder 3)) = Some (Inr (stop, v', afl')) \<and> (stop \<or> dv_out v' = [65, 66, 67])"
  by (rule value_stages_return [OF recorder_calm]) (simp_all add: det_vars0_def)

text \<open>(C38)
  The stages \<open>bitflip 2/1\<close> and \<open>bitflip 4/1\<close> try the input with every two and every four adjacent bits flipped, once each and from
  the first bit to the last, and nothing else.
\<close>

theorem walking_bits_inputs:
  assumes "dv_out v = buf" and "length buf = unat n" and "n \<noteq> 0" and "n \<le> MAX_FILE"
    and "16 \<le> length (stage_finds afl)" and "16 \<le> length (stage_cycles afl)"
  shows "\<exists>v' afl'. det_bind (flip2_stage recorder n v afl) (flip4_stage recorder n) = Some (Inr (False, v', afl')) \<and> dv_out v' = buf
    \<and> ran afl' = ran afl @ walk_inputs [0, 1] (8 * length buf - 1) buf @ walk_inputs [0, 1, 2, 3] (8 * length buf - 3) buf"
proof -
  have f: "\<exists>v' afl'. flip2_stage recorder n u a = Some (Inr (False, v', afl')) \<and> dv_out v' = buf
      \<and> ran afl' = ran a @ walk_inputs [0, 1] (8 * length buf - 1) buf
      \<and> length (stage_finds afl') = length (stage_finds a) \<and> length (stage_cycles afl') = length (stage_cycles a)"
    "\<exists>v' afl'. flip4_stage recorder n u a = Some (Inr (False, v', afl')) \<and> dv_out v' = buf
      \<and> ran afl' = ran a @ walk_inputs [0, 1, 2, 3] (8 * length buf - 3) buf
      \<and> length (stage_finds afl') = length (stage_finds a) \<and> length (stage_cycles afl') = length (stage_cycles a)"
    if "dv_out u = buf" "16 \<le> length (stage_finds a)" "16 \<le> length (stage_cycles a)" for u a
    using walking_stage_log [OF that(1) assms(2-4), of "[0, 1]" 1 1 a] walking_stage_log [OF that(1) assms(2-4), of "[0, 1, 2, 3]" 3 2 a] that(2,3)
    by (simp_all add: flip2_stage_def flip4_stage_def)
  obtain v1 a1 where 1: "flip2_stage recorder n v afl = Some (Inr (False, v1, a1))" "dv_out v1 = buf"
    "ran a1 = ran afl @ walk_inputs [0, 1] (8 * length buf - 1) buf" "16 \<le> length (stage_finds a1)" "16 \<le> length (stage_cycles a1)"
    using f(1) [OF assms(1,5,6)] assms(5,6) by auto
  then show ?thesis using f(2) [OF 1(2,4,5)] by auto
qed

theorem walking_bits_inputs_witness:
  "\<exists>v' afl'. det_bind (flip2_stage recorder 1 (det_vars0 [0]) det_demo) (flip4_stage recorder 1) = Some (Inr (False, v', afl'))
    \<and> ran afl' = [[0xC0], [0x60], [0x30], [0x18], [0x0C], [0x06], [0x03], [0xF0], [0x78], [0x3C], [0x1E], [0x0F]]"
proof -
  have "walk_inputs [0, 1] 7 [0] = [[0xC0], [0x60], [0x30], [0x18], [0x0C], [0x06], [0x03]]"
    "walk_inputs [0, 1, 2, 3] 5 [0] = [[0xF0], [0x78], [0x3C], [0x1E], [0x0F]]" by code_simp+
  then show ?thesis using walking_bits_inputs [of "det_vars0 [0]" "[0]" 1 det_demo] by (auto simp: det_vars0_def)
qed

text \<open>(C39)
  No change of \<open>arith 8/8\<close> is lost by its test against the bit flips: at a byte that the effector map marks, each sum and each difference
  with 1 to \<open>ARITH_MAX\<close> is tried there or is an input of the bit flip stages.
\<close>

theorem arith8_nothing_lost:
  assumes "dv_out v = buf" and "i < length buf" and "8 * length buf \<le> 2 ^ 32" and "eff_at v (of_nat i) = Inr e" and "e \<noteq> 0"
    and j: "1 \<le> j" "j \<le> ARITH_MAX" and x: "x = buf ! i + of_nat j \<or> x = buf ! i - of_nat j"
  shows "\<exists>v' afl'. arith8_at recorder n i v afl = Some (Inr (False, v', afl'))
    \<and> (buf[i := x] \<in> set (ran afl') \<or> Inr (buf[i := x]) \<in> set (flip_inputs buf))"
proof -
  obtain a where a: "arith8_at recorder n i v afl = Some (Inr (False, v, a))"
    "ran a = ran afl @ concat (map (arith8_inputs i buf) [1..<Suc ARITH_MAX])"
    using arith8_at_log [OF assms(1,2,4,5)] by blast
  have "buf[i := x] \<in> set (ran a) \<or> Inr (buf[i := x]) \<in> set (flip_inputs buf)"
  proof (cases "could_be_bitflip (ucast (buf ! i XOR x))")
    case True
    have "unat (of_nat j :: u8) = j" using j by (simp add: unat_of_nat)
    then have "(of_nat j :: u8) \<noteq> 0" using j(1) by (metis not_one_le_zero unsigned_0)
    then have "x \<noteq> buf ! i" using x by auto
    then show ?thesis using flips_reach [OF True _ assms(2,3)] by blast
  next
    case False
    then have "buf[i := x] \<in> set (arith8_inputs i buf j)" using x by (auto simp: arith8_inputs_def)
    moreover have "j \<in> set [1..<Suc ARITH_MAX]" using j by auto
    ultimately show ?thesis unfolding a(2) set_append set_concat set_map by blast
  qed
  with a(1) show ?thesis by blast
qed

theorem arith8_nothing_lost_witness:
  "\<exists>v' afl'. arith8_at recorder 1 0 ((det_vars0 [0xE0])\<lparr>dv_eff := [1]\<rparr>) det_demo = Some (Inr (False, v', afl'))
    \<and> ([0xE0 + 32] \<in> set (ran afl') \<or> Inr [0xE0 + 32] \<in> set (flip_inputs [0xE0]))"
proof -
  have "eff_at ((det_vars0 [0xE0])\<lparr>dv_eff := [1]\<rparr>) (of_nat 0) = Inr 1" by (simp add: eff_at_def EFF_APOS_def get_at_def)
  from arith8_nothing_lost [OF _ _ _ this, of "[0xE0]" 32 "0xE0 + 32" 1 det_demo] show ?thesis by (simp add: det_vars0_def)
qed

text \<open>
  The same test is too broad for \<open>arith 16/8\<close>: on the input \<open>E0 00\<close> adding 32 to the little-endian word gives \<open>00 01\<close>, a difference of four
  adjacent bits of the word, so the sum is not tried; but the walking bits go through each byte from its highest bit, so those four bits are not
  adjacent in the file and no bit flip stage tries \<open>00 01\<close> either.
\<close>

theorem arith16_loses_a_value:
  "read_at 2 [0xE0, 0x00] 0 = Inr (0xE0 :: u16) \<and> write_at 2 (0xE0 + 32 :: u16) [0xE0, 0x00] 0 = Inr [0x00, 0x01]
   \<and> (\<exists>v' afl'. arith16_try recorder 2 0 0xE0 32 (det_vars0 [0xE0, 0x00]) det_demo = Some (Inr (False, v', afl')) \<and> ran afl' = [[0xDF, 0xE0]])
   \<and> Inr [0x00, 0x01] \<notin> set (flip_inputs [0xE0, 0x00])"
proof (intro conjI)
  show "read_at 2 [0xE0, 0x00] 0 = Inr (0xE0 :: u16)" by code_simp
  show "write_at 2 (0xE0 + 32 :: u16) [0xE0, 0x00] 0 = Inr [0x00, 0x01]" by code_simp
  show "Inr [0x00, 0x01] \<notin> set (flip_inputs [0xE0, 0x00])" by code_simp
  have c: "could_be_bitflip (ucast ((0xE0 :: u16) XOR (0xE0 + 32)))" "\<not> could_be_bitflip (ucast ((0xE0 :: u16) XOR SWAP16 (SWAP16 0xE0 - 32)))"
    by code_simp+
  have w: "write_at 2 (SWAP16 (SWAP16 0xE0 - 32) :: u16) [0xE0, 0x00] 0 = Inr [0xDF, 0xE0]" "write_at 2 (0xE0 :: u16) [0xDF, 0xE0] 0 = Inr [0xE0, 0x00]"
    by code_simp+
  show "\<exists>v' afl'. arith16_try recorder 2 0 0xE0 32 (det_vars0 [0xE0, 0x00]) det_demo = Some (Inr (False, v', afl')) \<and> ran afl' = [[0xDF, 0xE0]]"
    using c w by (simp add: arith16_try_def Let_def try_value_def det_ok_def det_vars0_def)
qed

end
