(* ===== verification/Afl_Havoc.thy ===== *)
theory Afl_Havoc
  imports Afl_Restore
begin

unbundle bit_operations_syntax

text \<open>
  The random stages of \<open>fuzz_one_original\<close> (\<open>src/afl-fuzz-one.c\<close>): the havoc mutations, stacked at random, and splicing, for
  sessions without custom mutators. The buffer is the list of its \<open>temp_len\<close> bytes, so an access behind them counts as out of bounds
  even where the allocation is larger. Where C leaves the order of two draws in one assignment open, the position is drawn
  first.
\<close>

record afl_havoc = afl_det +
  havoc_div :: u32
  havoc_stack_pow2 :: u8
  expand_havoc :: bool
  use_splicing :: bool
  custom_only :: bool
  cmplog_binary :: bool

section \<open>Steps\<close>

type_synonym ('b, 's) hv_out = "('b \<times> 's) result option"

definition hv_ok :: "'b \<Rightarrow> 's \<Rightarrow> ('b, 's) hv_out" where
  "hv_ok x afl = Some (Inr (x, afl))"

definition hv_bind :: "('b, 's) hv_out \<Rightarrow> ('b \<Rightarrow> 's \<Rightarrow> ('c, 's) hv_out) \<Rightarrow> ('c, 's) hv_out" where
  "hv_bind r f = (case r of None \<Rightarrow> None | Some (Inl err) \<Rightarrow> Some (Inl err) | Some (Inr (x, afl)) \<Rightarrow> f x afl)"

definition hv_lift :: "'b result \<Rightarrow> 's \<Rightarrow> ('b, 's) hv_out" where
  "hv_lift r afl = (case r of Inl err \<Rightarrow> Some (Inl err) | Inr x \<Rightarrow> Some (Inr (x, afl)))"

definition hv_draw :: "('b \<times> 's) option \<Rightarrow> ('b, 's) hv_out" where
  "hv_draw d = map_option Inr d"

abbreviation temp_len :: "bytes \<Rightarrow> u32" where
  "temp_len out \<equiv> of_nat (length out)"

abbreviation hv_below :: "'a afl_rand_scheme \<Rightarrow> u32 \<Rightarrow> (u32, 'a afl_rand_scheme) hv_out" where
  "hv_below afl limit \<equiv> hv_draw (rand_below afl limit)"

abbreviation hv_block :: "'a afl_one_scheme \<Rightarrow> u32 \<Rightarrow> (u32, 'a afl_one_scheme) hv_out" where
  "hv_block afl limit \<equiv> hv_draw (choose_block_len afl limit)"

type_synonym 'a mutation = "bytes \<Rightarrow> 'a afl_havoc_scheme \<Rightarrow> (bytes, 'a afl_havoc_scheme) hv_out"

section \<open>Values\<close>

definition hv_flip_bit :: "'a mutation" where
  "hv_flip_bit out afl = hv_bind (hv_below afl (push_bit 3 (temp_len out))) (\<lambda>b. hv_lift (FLIP_BIT out b))"

definition hv_interest8 :: "'a mutation" where
  "hv_interest8 out afl =
     hv_bind (hv_below afl (temp_len out)) (\<lambda>i afl.
     hv_bind (hv_below afl (of_nat (length interesting_8))) (\<lambda>j.
     hv_lift (bind_result (get_at ''interesting_8'' interesting_8 (unat j)) (\<lambda>c. put_at out (unat i) (word_of_int c)))))"

definition hv_interest16 :: "bool \<Rightarrow> 'a mutation" where
  "hv_interest16 be out afl =
     (if temp_len out < 2 then hv_ok out afl
      else hv_bind (hv_below afl (temp_len out - 1)) (\<lambda>i afl.
           hv_bind (hv_below afl (of_nat (length interesting_16))) (\<lambda>j.
           hv_lift (bind_result (get_at ''interesting_16'' interesting_16 (unat j)) (\<lambda>c.
             let x = word_of_int c :: u16 in write_at 2 (if be then SWAP16 x else x) out (unat i))))))"

definition hv_interest32 :: "bool \<Rightarrow> 'a mutation" where
  "hv_interest32 be out afl =
     (if temp_len out < 4 then hv_ok out afl
      else hv_bind (hv_below afl (temp_len out - 3)) (\<lambda>i afl.
           hv_bind (hv_below afl (of_nat (length interesting_32))) (\<lambda>j.
           hv_lift (bind_result (get_at ''interesting_32'' interesting_32 (unat j)) (\<lambda>c.
             let x = word_of_int c :: u32 in write_at 4 (if be then SWAP32 x else x) out (unat i))))))"

text \<open>\<open>out_buf[pos] = f(out_buf[pos])\<close>.\<close>

definition hv_byte :: "(u8 \<Rightarrow> u8) \<Rightarrow> u32 \<Rightarrow> bytes \<Rightarrow> bytes result" where
  "hv_byte f i out = bind_result (get_at ''out_buf'' out (unat i)) (\<lambda>x. put_at out (unat i) (f x))"

definition hv_arith8 :: "(u8 \<Rightarrow> u8 \<Rightarrow> u8) \<Rightarrow> 'a mutation" where
  "hv_arith8 f out afl =
     hv_bind (hv_below afl (temp_len out)) (\<lambda>i afl.
     hv_bind (hv_below afl (of_nat ARITH_MAX)) (\<lambda>r. hv_lift (hv_byte (\<lambda>x. f x (ucast (1 + r))) i out)))"

definition hv_arith16 :: "bool \<Rightarrow> (u16 \<Rightarrow> u16 \<Rightarrow> u16) \<Rightarrow> 'a mutation" where
  "hv_arith16 be f out afl =
     (if temp_len out < 2 then hv_ok out afl
      else hv_bind (hv_below afl (temp_len out - 1)) (\<lambda>pos afl.
           hv_bind (hv_below afl (of_nat ARITH_MAX)) (\<lambda>r.
           hv_lift (bind_result (read_at 2 out (unat pos)) (\<lambda>x.
             write_at 2 (if be then SWAP16 (f (SWAP16 x) (ucast (1 + r))) else f x (ucast (1 + r))) out (unat pos))))))"

definition hv_arith32 :: "bool \<Rightarrow> (u32 \<Rightarrow> u32 \<Rightarrow> u32) \<Rightarrow> 'a mutation" where
  "hv_arith32 be f out afl =
     (if temp_len out < 4 then hv_ok out afl
      else hv_bind (hv_below afl (temp_len out - 3)) (\<lambda>pos afl.
           hv_bind (hv_below afl (of_nat ARITH_MAX)) (\<lambda>r.
           hv_lift (bind_result (read_at 4 out (unat pos)) (\<lambda>x.
             write_at 4 (if be then SWAP32 (f (SWAP32 x) (1 + r)) else f x (1 + r)) out (unat pos))))))"

definition hv_random8 :: "'a mutation" where
  "hv_random8 out afl =
     hv_bind (hv_below afl (temp_len out)) (\<lambda>i afl.
     hv_bind (hv_below afl 255) (\<lambda>r. hv_lift (hv_byte (\<lambda>x. x XOR ucast (1 + r)) i out)))"

text \<open>The three cases that change one byte in a fixed way.\<close>

definition hv_one_byte :: "(u8 \<Rightarrow> u8) \<Rightarrow> 'a mutation" where
  "hv_one_byte f out afl = hv_bind (hv_below afl (temp_len out)) (\<lambda>i. hv_lift (hv_byte f i out))"

section \<open>Blocks\<close>

definition block_at :: "string \<Rightarrow> bytes \<Rightarrow> u32 \<Rightarrow> u32 \<Rightarrow> bytes result" where
  "block_at what ar from k =
     (if unat from + unat k \<le> length ar then Inr (take (unat k) (drop (unat from) ar)) else Inl (Out_of_bounds what))"

definition lay :: "bytes \<Rightarrow> u32 \<Rightarrow> bytes \<Rightarrow> bytes result" where
  "lay data to ar =
     (if unat to + length data \<le> length ar then Inr (take (unat to) ar @ data @ drop (unat to + length data) ar)
      else Inl (Out_of_bounds ''out_buf''))"

definition insert_block :: "bytes \<Rightarrow> u32 \<Rightarrow> bytes \<Rightarrow> bytes result" where
  "insert_block data to ar =
     (if unat to \<le> length ar then Inr (take (unat to) ar @ data @ drop (unat to) ar) else Inl (Out_of_bounds ''out_buf''))"

definition hv_clone :: "'a mutation" where
  "hv_clone out afl =
     (if temp_len out + HAVOC_BLK_XL < MAX_FILE
      then hv_bind (hv_block afl (temp_len out)) (\<lambda>clone_len afl.
           hv_bind (hv_below afl (temp_len out - clone_len + 1)) (\<lambda>clone_from afl.
           hv_bind (hv_below afl (temp_len out)) (\<lambda>clone_to.
           hv_lift (bind_result (block_at ''out_buf'' out clone_from clone_len) (\<lambda>b. insert_block b clone_to out)))))
      else hv_ok out afl)"

text \<open>\<open>rand_below(afl, 2) ? rand_below(afl, 256) : out_buf[rand_below(afl, temp_len)]\<close>.\<close>

definition hv_fill :: "bytes \<Rightarrow> 'a afl_havoc_scheme \<Rightarrow> (u8, 'a afl_havoc_scheme) hv_out" where
  "hv_fill out afl =
     hv_bind (hv_below afl 2) (\<lambda>c afl.
     if c \<noteq> 0 then hv_bind (hv_below afl 256) (\<lambda>x. hv_ok (ucast x))
     else hv_bind (hv_below afl (temp_len out)) (\<lambda>i. hv_lift (get_at ''out_buf'' out (unat i))))"

definition hv_insert_fixed :: "'a mutation" where
  "hv_insert_fixed out afl =
     (if temp_len out + HAVOC_BLK_XL < MAX_FILE
      then hv_bind (hv_block afl HAVOC_BLK_XL) (\<lambda>clone_len afl.
           hv_bind (hv_below afl (temp_len out)) (\<lambda>clone_to afl.
           hv_bind (hv_fill out afl) (\<lambda>x. hv_lift (insert_block (replicate (unat clone_len) x) clone_to out))))
      else hv_ok out afl)"

definition hv_overwrite :: "'a mutation" where
  "hv_overwrite out afl =
     (if temp_len out < 2 then hv_ok out afl
      else hv_bind (hv_block afl (temp_len out - 1)) (\<lambda>copy_len afl.
           hv_bind (hv_below afl (temp_len out - copy_len + 1)) (\<lambda>copy_from afl.
           hv_bind (hv_below afl (temp_len out - copy_len + 1)) (\<lambda>copy_to afl.
           if copy_from \<noteq> copy_to
           then hv_lift (bind_result (block_at ''out_buf'' out copy_from copy_len) (\<lambda>b. lay b copy_to out)) afl
           else hv_ok out afl))))"

definition hv_overwrite_fixed :: "'a mutation" where
  "hv_overwrite_fixed out afl =
     (if temp_len out < 2 then hv_ok out afl
      else hv_bind (hv_block afl (temp_len out - 1)) (\<lambda>copy_len afl.
           hv_bind (hv_below afl (temp_len out - copy_len + 1)) (\<lambda>copy_to afl.
           hv_bind (hv_fill out afl) (\<lambda>x. hv_lift (lay (replicate (unat copy_len) x) copy_to out)))))"

text \<open>\<open>do { switch_to = rand_below(afl, temp_len); } while (switch_from == switch_to);\<close>\<close>

partial_function (option) draw_other :: "u32 \<Rightarrow> u32 \<Rightarrow> 'a afl_rand_scheme \<Rightarrow> (u32 \<times> 'a afl_rand_scheme) option" where
  "draw_other from n afl =
     (case rand_below afl n of
        None \<Rightarrow> None
      | Some (to, afl) \<Rightarrow> if to = from then draw_other from n afl else Some (to, afl))"

definition switch_blocks :: "u32 \<Rightarrow> u32 \<Rightarrow> u32 \<Rightarrow> bytes \<Rightarrow> bytes result" where
  "switch_blocks from to k out =
     bind_result (block_at ''out_buf'' out from k) (\<lambda>backup.
     bind_result (block_at ''out_buf'' out to k) (\<lambda>b.
     bind_result (lay b from out) (\<lambda>out. lay backup to out)))"

definition hv_switch :: "'a mutation" where
  "hv_switch out afl =
     (if temp_len out < 4 then hv_ok out afl
      else hv_bind (hv_below afl (temp_len out)) (\<lambda>from afl.
           hv_bind (hv_draw (draw_other from (temp_len out) afl)) (\<lambda>to afl.
           let switch_len = (if from < to then to - from else from - to);
               to_end = (if from < to then temp_len out - to else temp_len out - from)
           in hv_bind (hv_block afl (min switch_len to_end)) (\<lambda>k. hv_lift (switch_blocks from to k out)))))"

definition hv_delete :: "'a mutation" where
  "hv_delete out afl =
     (if temp_len out < 2 then hv_ok out afl
      else hv_bind (hv_block afl (temp_len out - 1)) (\<lambda>del_len afl.
           hv_bind (hv_below afl (temp_len out - del_len + 1)) (\<lambda>del_from.
           hv_lift (if unat del_from + unat del_len \<le> length out
                    then Inr (take (unat del_from) out @ drop (unat del_from + unat del_len) out)
                    else Inl (Out_of_bounds ''out_buf'')))))"

section \<open>Tokens and other test cases\<close>

definition hv_token_over :: "u32 \<Rightarrow> (bytes \<times> u32) list \<Rightarrow> 'a mutation" where
  "hv_token_over cnt tokens out afl =
     hv_bind (hv_below afl cnt) (\<lambda>use afl.
     hv_bind (hv_lift (get_at ''extras'' tokens (unat use)) afl) (\<lambda>(data, k) afl.
     if temp_len out < k then hv_ok out afl
     else hv_bind (hv_below afl (temp_len out - k + 1)) (\<lambda>to.
          hv_lift (bind_result (block_at ''extras'' data 0 k) (\<lambda>b. lay b to out)))))"

definition hv_token_insert :: "u32 \<Rightarrow> (bytes \<times> u32) list \<Rightarrow> 'a mutation" where
  "hv_token_insert cnt tokens out afl =
     hv_bind (hv_below afl cnt) (\<lambda>use afl.
     hv_bind (hv_lift (get_at ''extras'' tokens (unat use)) afl) (\<lambda>(data, k) afl.
     if MAX_FILE \<le> temp_len out + k then hv_ok out afl
     else hv_bind (hv_below afl (temp_len out + 1)) (\<lambda>to.
          hv_lift (bind_result (block_at ''extras'' data 0 k) (\<lambda>b. insert_block b to out)))))"

text \<open>A queue entry other than the current one, and not too short; the loop ends only when there is one.\<close>

partial_function (option) pick_splice :: "'a afl_save_scheme \<Rightarrow> (nat \<times> 'a afl_save_scheme) result option" where
  "pick_splice afl =
     (case rand_below afl (queued_items afl) of
        None \<Rightarrow> None
      | Some (tid, afl) \<Rightarrow>
          if tid = current_entry afl then pick_splice afl
          else (case get_q afl (unat tid) of
                  Inl err \<Rightarrow> Some (Inl err)
                | Inr e \<Rightarrow> if len e < 4 then pick_splice afl else Some (Inr (unat tid, afl))))"

definition hv_splice :: "u32 \<Rightarrow> 'a mutation" where
  "hv_splice r out afl =
     hv_bind (pick_splice afl) (\<lambda>tid afl.
     hv_bind (hv_lift (get_q afl tid) afl) (\<lambda>target afl.
     let new_len = len target in
     hv_bind (queue_testcase_get afl tid) (\<lambda>new_buf afl.
     if 2 \<le> temp_len out \<and> r mod 2 \<noteq> 0 \<or> MAX_FILE \<le> temp_len out + HAVOC_BLK_XL
     then hv_bind (hv_block afl (new_len - 1)) (\<lambda>copy_len afl.
          let copy_len = (if temp_len out < copy_len then temp_len out else copy_len) in
          hv_bind (hv_below afl (new_len - copy_len + 1)) (\<lambda>copy_from afl.
          hv_bind (hv_below afl (temp_len out - copy_len + 1)) (\<lambda>copy_to.
          hv_lift (bind_result (block_at ''new_buf'' new_buf copy_from copy_len) (\<lambda>b. lay b copy_to out)))))
     else hv_bind (hv_block afl new_len) (\<lambda>clone_len afl.
          hv_bind (hv_below afl (new_len - clone_len + 1)) (\<lambda>clone_from afl.
          hv_bind (hv_below afl (temp_len out + 1)) (\<lambda>clone_to.
          hv_lift (bind_result (block_at ''new_buf'' new_buf clone_from clone_len) (\<lambda>b. insert_block b clone_to out))))))))"

section \<open>One mutation\<close>

abbreviation MAX_HAVOC_ENTRY :: u32 where "MAX_HAVOC_ENTRY \<equiv> 64"
abbreviation MUTATE_ASCII_DICT :: u32 where "MUTATE_ASCII_DICT \<equiv> 64"

text \<open>The default branch: tokens of the user, automatic tokens, or a piece of another test case.\<close>

definition hv_auto :: "bool \<Rightarrow> u32 \<Rightarrow> 'a mutation" where
  "hv_auto ascii r out afl =
     (let r_cmp = (if ascii then MUTATE_ASCII_DICT div 2 else 2);
          tokens = auto_tokens (unat (a_extras_cnt afl)) afl
      in if a_extras_cnt afl = 0 then hv_splice r out afl
         else if r < r_cmp then hv_token_over (a_extras_cnt afl) tokens out afl
         else if r < 2 * r_cmp then hv_token_insert (a_extras_cnt afl) tokens out afl
         else hv_splice (r - 2 * r_cmp) out afl)"

definition hv_default :: "bool \<Rightarrow> u32 \<Rightarrow> 'a mutation" where
  "hv_default ascii r out afl =
     (if extras_cnt afl = 0 then hv_auto ascii r out afl
      else if r < 2 then hv_token_over (extras_cnt afl) (user_tokens afl) out afl
      else if r < 4 then hv_token_insert (extras_cnt afl) (user_tokens afl) out afl
      else hv_auto ascii (r - 4) out afl)"

definition havoc_mutation :: "bool \<Rightarrow> u32 \<Rightarrow> 'a mutation" where
  "havoc_mutation ascii r =
     (if r \<le> 3 then hv_flip_bit
      else if r \<le> 7 then hv_interest8
      else if r \<le> 9 then hv_interest16 False
      else if r \<le> 11 then hv_interest16 True
      else if r \<le> 13 then hv_interest32 False
      else if r \<le> 15 then hv_interest32 True
      else if r \<le> 19 then hv_arith8 (-)
      else if r \<le> 23 then hv_arith8 (+)
      else if r \<le> 25 then hv_arith16 False (-)
      else if r \<le> 27 then hv_arith16 True (-)
      else if r \<le> 29 then hv_arith16 False (+)
      else if r \<le> 31 then hv_arith16 True (+)
      else if r \<le> 33 then hv_arith32 False (-)
      else if r \<le> 35 then hv_arith32 True (-)
      else if r \<le> 37 then hv_arith32 False (+)
      else if r \<le> 39 then hv_arith32 True (+)
      else if r \<le> 43 then hv_random8
      else if r \<le> 46 then hv_clone
      else if r \<le> 47 then hv_insert_fixed
      else if r \<le> 50 then hv_overwrite
      else if r \<le> 51 then hv_overwrite_fixed
      else if r \<le> 52 then hv_one_byte (\<lambda>x. x + 1)
      else if r \<le> 53 then hv_one_byte (\<lambda>x. x - 1)
      else if r \<le> 54 then hv_one_byte (\<lambda>x. x XOR 0xff)
      else if r \<le> 56 then hv_switch
      else if r \<le> MAX_HAVOC_ENTRY then hv_delete
      else hv_default ascii (r - (MAX_HAVOC_ENTRY + 1)))"

primrec havoc_stack :: "nat \<Rightarrow> bool \<Rightarrow> u32 \<Rightarrow> 'a mutation" where
  "havoc_stack 0 ascii r_max out afl = hv_ok out afl"
| "havoc_stack (Suc k) ascii r_max out afl =
     hv_bind (hv_below afl r_max) (\<lambda>r afl.
     hv_bind (havoc_mutation ascii r out afl) (havoc_stack k ascii r_max))"

section \<open>The havoc stage\<close>

abbreviation HAVOC_MIN :: u32 where "HAVOC_MIN \<equiv> 12"
abbreviation SPLICE_CYCLES :: nat where "SPLICE_CYCLES \<equiv> 15"

text \<open>The local variables the loop changes, with the buffer and the number of queued items seen last.\<close>

record hv_vars =
  hv_buf :: bytes
  hv_perf :: u32
  hv_queued :: u32

text \<open>The start of the stage; \<open>splice_cycle\<close> is 0 for plain havoc.\<close>

definition havoc_begin :: "bool \<Rightarrow> nat \<Rightarrow> u32 \<Rightarrow> u32 \<Rightarrow> 'a afl_havoc_scheme \<Rightarrow> (u32, 'a afl_havoc_scheme) hv_out" where
  "havoc_begin doing_det splice_cycle perf orig_perf afl =
     (if havoc_div afl = 0 then Some (Inl (Not_finite ''division by zero''))
      else
        let perf = (if splice_cycle = 0 then perf else orig_perf);
            cycles = (if splice_cycle \<noteq> 0 then 32 else if doing_det then 1024 else 256);
            smax = drop_bit 8 (cycles * perf div havoc_div afl)
        in hv_ok perf (afl\<lparr>stage_cur_byte := - 1,
             stage_name := (if splice_cycle = 0 then ''havoc'' else ''splice '' @ dec_digits splice_cycle),
             stage_short := (if splice_cycle = 0 then ''havoc'' else ''splice''),
             stage_max := (if smax < HAVOC_MIN then HAVOC_MIN else smax)\<rparr>))"

text \<open>The number of cases of the switch, and whether automatic tokens get more of them.\<close>

definition havoc_r_max :: "'s world \<Rightarrow> qid \<Rightarrow> 'a afl_havoc_scheme \<Rightarrow> (bool \<times> u32, 'a afl_havoc_scheme) hv_out" where
  "havoc_r_max w cur afl =
     hv_bind (hv_lift (get_q afl cur) afl) (\<lambda>e afl.
     let ascii = cmplog_binary afl \<and> is_ascii e;
         splice = ready_for_splicing_count afl > 1;
         r_max = MAX_HAVOC_ENTRY + 1 + (if extras_cnt afl \<noteq> 0 then 4 else 0)
                 + (if a_extras_cnt afl = 0 then 0 else if ascii then MUTATE_ASCII_DICT else 4)
                 + (if expand_havoc afl \<and> splice then 4 else 0)
     in case get_cur_time w afl of (now, afl) \<Rightarrow>
          hv_ok (ascii, r_max + (if now - last_find_time afl > 5000 \<and> splice then 4 else 0)) afl)"

text \<open>More finds make the stage longer, within limits.\<close>

definition havoc_extend :: "hv_vars \<Rightarrow> 'a afl_havoc_scheme \<Rightarrow> hv_vars \<times> 'a afl_havoc_scheme" where
  "havoc_extend v afl =
     (if queued_items afl = hv_queued v then (v, afl)
      else
        let v' = v\<lparr>hv_queued := queued_items afl\<rparr> in
        if hv_perf v \<le> ucast (havoc_max_mult afl) * 100
        then (v'\<lparr>hv_perf := hv_perf v * 2\<rparr>, afl\<lparr>stage_max := stage_max afl * 2\<rparr>)
        else (v', afl))"

text \<open>One round: a stack of mutations, a run, and the buffer as it was. The flag says that the entry is abandoned.\<close>

definition havoc_round ::
  "'a afl_havoc_scheme fuzzer \<Rightarrow> bool \<Rightarrow> u32 \<Rightarrow> bytes \<Rightarrow> hv_vars \<Rightarrow> 'a afl_havoc_scheme \<Rightarrow> (bool \<times> hv_vars, 'a afl_havoc_scheme) hv_out"
  where
  "havoc_round cfs ascii r_max in_buf v afl =
     hv_bind (hv_below afl (ucast (havoc_stack_pow2 afl))) (\<lambda>r afl.
     let use_stacking = push_bit (unat (1 + r)) 1 :: u32 in
     hv_bind (havoc_stack (unat use_stacking) ascii r_max (hv_buf v) (afl\<lparr>stage_cur_val := sint use_stacking\<rparr>)) (\<lambda>out afl.
     hv_bind (cfs afl out (temp_len out)) (\<lambda>stop afl.
     if stop then hv_ok (True, v) afl
     else case havoc_extend (v\<lparr>hv_buf := in_buf\<rparr>) afl of (v, afl) \<Rightarrow> hv_ok (False, v) afl)))"

partial_function (option) havoc_loop ::
  "'a afl_havoc_scheme fuzzer \<Rightarrow> bool \<Rightarrow> u32 \<Rightarrow> bytes \<Rightarrow> hv_vars \<Rightarrow> 'a afl_havoc_scheme \<Rightarrow> (bool \<times> hv_vars, 'a afl_havoc_scheme) hv_out"
  where
  "havoc_loop cfs ascii r_max in_buf v afl =
     (if stage_cur afl < stage_max afl
      then (case havoc_round cfs ascii r_max in_buf v afl of
              None \<Rightarrow> None
            | Some (Inl err) \<Rightarrow> Some (Inl err)
            | Some (Inr ((stop, v), afl)) \<Rightarrow>
                if stop then Some (Inr ((True, v), afl))
                else havoc_loop cfs ascii r_max in_buf v (afl\<lparr>stage_cur := stage_cur afl + 1\<rparr>))
      else Some (Inr ((False, v), afl)))"

text \<open>From \<open>havoc_stage\<close> to the counters; with \<open>custom_only\<close> the entry is abandoned at once, as a success.\<close>

definition havoc_stage ::
  "'a afl_havoc_scheme fuzzer \<Rightarrow> 'a afl_havoc_scheme world \<Rightarrow> qid \<Rightarrow> bool \<Rightarrow> nat \<Rightarrow> u32 \<Rightarrow> bytes \<Rightarrow> bytes \<Rightarrow> u32 \<Rightarrow> 'a afl_havoc_scheme
     \<Rightarrow> (u8 option \<times> u32, 'a afl_havoc_scheme) hv_out" where
  "havoc_stage cfs w cur doing_det splice_cycle orig_perf in_buf out perf afl =
     (if custom_only afl then hv_ok (Some 0, perf) (w_show_stats w afl)
      else
        hv_bind (havoc_begin doing_det splice_cycle perf orig_perf afl) (\<lambda>perf afl.
        let orig_hit = hit_count afl; queued = queued_items afl in
        hv_bind (havoc_r_max w cur afl) (\<lambda>(ascii, r_max) afl.
        hv_bind (havoc_loop cfs ascii r_max in_buf \<lparr>hv_buf = out, hv_perf = perf, hv_queued = queued\<rparr> (afl\<lparr>stage_cur := 0\<rparr>))
          (\<lambda>(stop, v) afl.
        if stop then hv_ok (Some 1, hv_perf v) afl
        else
          let k = (if splice_cycle = 0 then 16 else 17) in
          hv_bind (hv_lift (get_at ''stage_finds'' (stage_finds afl) k) afl) (\<lambda>f afl.
          hv_bind (hv_lift (get_at ''stage_cycles'' (stage_cycles afl) k) afl) (\<lambda>c afl.
          hv_ok (None, hv_perf v)
            (afl\<lparr>stage_finds := (stage_finds afl)[k := f + (hit_count afl - orig_hit)],
                 stage_cycles := (stage_cycles afl)[k := c + ucast (stage_max afl)]\<rparr>)))))))"

section \<open>Splicing\<close>

text \<open>The head of the input and, behind the split, the beginning of the other test case.\<close>

definition splice_at :: "u32 \<Rightarrow> bytes \<Rightarrow> bytes \<Rightarrow> u32 \<Rightarrow> bytes result" where
  "splice_at split_at in_buf new_buf n =
     bind_result (block_at ''in_buf'' in_buf 0 split_at) (\<lambda>head.
     bind_result (block_at ''new_buf'' new_buf 0 (n - split_at)) (\<lambda>tail. Inr (head @ tail)))"

text \<open>\<open>retry_splicing\<close>, with as many cycles left as the first argument says; the result holds the new input and the cycles left.\<close>

primrec find_splice ::
  "nat \<Rightarrow> qid \<Rightarrow> bytes \<Rightarrow> 'a afl_havoc_scheme \<Rightarrow> ((bytes \<times> nat) option, 'a afl_havoc_scheme) hv_out" where
  "find_splice 0 cur orig_in afl = hv_ok None afl"
| "find_splice (Suc k) cur orig_in afl =
     hv_bind (hv_lift (get_q afl cur) afl) (\<lambda>e afl.
     if use_splicing afl \<and> ready_for_splicing_count afl > 1 \<and> len e \<ge> 4 then
       hv_bind (pick_splice afl) (\<lambda>tid afl.
       hv_bind (hv_lift (get_q afl tid) afl) (\<lambda>target afl.
       hv_bind (queue_testcase_get (afl\<lparr>splicing_with := sint (of_nat tid :: u32)\<rparr>) tid) (\<lambda>new_buf afl.
       hv_bind (hv_lift (locate_diffs orig_in new_buf (min (len e) (len target))) afl) (\<lambda>(f_diff, l_diff) afl.
       if f_diff < 0 \<or> l_diff < 2 \<or> f_diff = l_diff then find_splice k cur orig_in afl
       else
         hv_bind (hv_below afl (word_of_int (l_diff - f_diff))) (\<lambda>r afl.
         hv_bind (hv_lift (splice_at (word_of_int f_diff + r) orig_in new_buf (len target)) afl) (\<lambda>in_buf.
         hv_ok (Some (in_buf, k))))))))
     else hv_ok None afl)"

text \<open>Havoc, and havoc again on every splice found.\<close>

partial_function (option) random_stages ::
  "'a afl_havoc_scheme fuzzer \<Rightarrow> 'a afl_havoc_scheme world \<Rightarrow> qid \<Rightarrow> bool \<Rightarrow> nat \<Rightarrow> u32 \<Rightarrow> bytes \<Rightarrow> bytes \<Rightarrow> bytes \<Rightarrow> u32 \<Rightarrow> 'a afl_havoc_scheme
     \<Rightarrow> (u8, 'a afl_havoc_scheme) hv_out" where
  "random_stages cfs w cur doing_det left orig_perf orig_in in_buf out perf afl =
     (case havoc_stage cfs w cur doing_det (SPLICE_CYCLES - left) orig_perf in_buf out perf afl of
        None \<Rightarrow> None
      | Some (Inl err) \<Rightarrow> Some (Inl err)
      | Some (Inr ((abandon, perf), afl)) \<Rightarrow>
          (case abandon of
             Some ret \<Rightarrow> Some (Inr (ret, afl))
           | None \<Rightarrow>
               (case find_splice left cur orig_in afl of
                  None \<Rightarrow> None
                | Some (Inl err) \<Rightarrow> Some (Inl err)
                | Some (Inr (found, afl)) \<Rightarrow>
                    (case found of
                       None \<Rightarrow> Some (Inr (0, afl))
                     | Some (spliced, left) \<Rightarrow> random_stages cfs w cur doing_det left orig_perf orig_in spliced spliced perf afl))))"

end
