(* ===== verification/Afl_Mangle.thy ===== *)
theory Afl_Mangle
  imports Afl_Havoc
begin

unbundle bit_operations_syntax

text \<open>
  Memory safety of the havoc mutations of \<open>src/afl-fuzz-one.c\<close>, and how their sizes and counters are bounded. A mutation is safe
  when it makes no access outside its buffers: the only error it may end with is a fatal one of reading a test case from disk.
\<close>

section \<open>Rules for steps\<close>

definition hv_safe :: "('b \<Rightarrow> 's \<Rightarrow> bool) \<Rightarrow> ('b, 's) hv_out \<Rightarrow> bool" where
  "hv_safe Q r \<longleftrightarrow> (\<forall>x afl. r = Some (Inr (x, afl)) \<longrightarrow> Q x afl) \<and> (\<forall>err. r = Some (Inl err) \<longrightarrow> (\<exists>m. err = Fatal m))"

lemma hv_safe_ok: "Q x s \<Longrightarrow> hv_safe Q (hv_ok x s)"
  by (simp add: hv_safe_def hv_ok_def)

lemma hv_safe_bind:
  assumes "hv_safe P r" and "\<And>x s. P x s \<Longrightarrow> hv_safe Q (f x s)"
  shows "hv_safe Q (hv_bind r f)"
  using assms by (auto simp: hv_safe_def hv_bind_def split: option.splits sum.splits prod.splits)

lemma hv_safe_lift: "r = Inr x \<Longrightarrow> Q x s \<Longrightarrow> hv_safe Q (hv_lift r s)"
  by (simp add: hv_safe_def hv_lift_def)

lemma hv_safe_lift_bind: "r = Inr x \<Longrightarrow> hv_safe Q (f x s) \<Longrightarrow> hv_safe Q (hv_bind (hv_lift r s) f)"
  by (simp add: hv_bind_def hv_lift_def)

lemma hv_safe_if: "(c \<Longrightarrow> hv_safe Q a) \<Longrightarrow> (\<not> c \<Longrightarrow> hv_safe Q b) \<Longrightarrow> hv_safe Q (if c then a else b)"
  by simp

lemma hv_safe_weaken: "hv_safe P r \<Longrightarrow> (\<And>x s. P x s \<Longrightarrow> Q x s) \<Longrightarrow> hv_safe Q r"
  by (auto simp: hv_safe_def)

text \<open>What the mutations rely on: tokens with their data, the counters of the arrays, and a cache in order.\<close>

definition tokens_hold :: "(bytes \<times> u32) list \<Rightarrow> bool" where
  "tokens_hold ts \<longleftrightarrow> list_all (\<lambda>(data, k). unat k \<le> length data \<and> k \<le> MAX_DICT_FILE) ts"

definition hv_state :: "'a afl_det_scheme \<Rightarrow> bool" where
  "hv_state afl \<longleftrightarrow>
     tokens_hold (user_tokens afl) \<and> length (extras afl) < 2 ^ 32
     \<and> tokens_hold (auto_tokens (unat (a_extras_cnt afl)) afl) \<and> unat (a_extras_cnt afl) \<le> length (a_extras afl)
     \<and> tc_wf afl \<and> unat (queued_items afl) = length (queue_buf afl) \<and> queue_buf afl \<noteq> []"

lemma hv_state_rand: "afl_rand.more a = afl_rand.more b \<Longrightarrow> hv_state a = hv_state b"
  by (cases a; cases b) (simp add: hv_state_def user_tokens_def auto_tokens_def tc_wf_def)

lemma hv_safe_below:
  assumes "hv_state s" and "\<And>r s'. hv_state s' \<Longrightarrow> unat r < max 1 (unat limit) \<Longrightarrow> hv_safe Q (f r s')"
  shows "hv_safe Q (hv_bind (hv_below s limit) f)"
proof (rule hv_safe_bind [where P = "\<lambda>r s'. hv_state s' \<and> unat r < max 1 (unat limit)"])
  show "hv_safe (\<lambda>r s'. hv_state s' \<and> unat r < max 1 (unat limit)) (hv_below s limit)"
    using assms(1) afl_rng.rb_bound hv_state_rand [OF afl_rng.rb_rest]
    by (fastforce simp: hv_safe_def hv_draw_def word_less_nat_alt word_le_nat_alt split: if_splits)
qed (use assms(2) in blast)

lemma hv_safe_block:
  assumes "hv_state s" and "0 < limit"
    and "\<And>r s'. hv_state s' \<Longrightarrow> 1 \<le> unat r \<Longrightarrow> unat r \<le> unat limit \<Longrightarrow> unat r \<le> 32768 \<Longrightarrow> hv_safe Q (f r s')"
  shows "hv_safe Q (hv_bind (hv_block s limit) f)"
proof (rule hv_safe_bind [where P = "\<lambda>r s'. hv_state s' \<and> 1 \<le> unat r \<and> unat r \<le> unat limit \<and> unat r \<le> 32768"])
  show "hv_safe (\<lambda>r s'. hv_state s' \<and> 1 \<le> unat r \<and> unat r \<le> unat limit \<and> unat r \<le> 32768) (hv_block s limit)"
    unfolding hv_safe_def hv_draw_def
  proof (intro conjI allI impI)
    fix r s'
    assume "map_option Inr (choose_block_len s limit) = Some (Inr (r, s'))"
    then have "1 \<le> r \<and> r \<le> limit \<and> r \<le> HAVOC_BLK_XL \<and> afl_rand.more s' = afl_rand.more s"
      using choose_block_len_bounds [OF _ assms(2)] by auto
    then show "hv_state s'" "1 \<le> unat r" "unat r \<le> unat limit" "unat r \<le> 32768"
      using assms(1) hv_state_rand [of s' s] by (simp_all add: word_le_nat_alt)
  qed simp
qed (use assms(3) in blast)

section \<open>Lengths\<close>

definition fits :: "bytes \<Rightarrow> bool" where
  "fits out \<longleftrightarrow> 0 < length out \<and> length out \<le> unat MAX_FILE"

abbreviation kept :: "bytes \<Rightarrow> 'a afl_havoc_scheme \<Rightarrow> bool" where
  "kept out afl \<equiv> fits out \<and> hv_state afl"

lemma fits_len: "fits out \<Longrightarrow> unat (temp_len out) = length out"
  unfolding fits_def by (intro unat_of_nat_eq) simp

lemma fits_add: "fits out \<Longrightarrow> unat k \<le> 2 ^ 20 \<Longrightarrow> unat (temp_len out + k) = length out + unat k"
  by (subst unat_add_small) (simp_all add: fits_len, simp add: fits_def)

lemma fits_minus: "fits out \<Longrightarrow> unat k \<le> length out \<Longrightarrow> unat (temp_len out - k) = length out - unat k"
  by (subst unat_sub) (simp_all add: word_le_nat_alt fits_len)

lemma fits_room: "fits out \<Longrightarrow> unat k \<le> length out \<Longrightarrow> unat (temp_len out - k + 1) = length out - unat k + 1"
  by (subst unat_add_small) (auto simp: fits_minus fits_def)

lemma fits_bits: "fits out \<Longrightarrow> unat (push_bit 3 (temp_len out)) = 8 * length out"
  by (simp add: push_bit_eq_mult unat_word_ariths fits_len mult.commute) (simp add: fits_def)

lemmas fits_lengths = fits_len fits_add fits_minus fits_room fits_bits word_less_nat_alt word_le_nat_alt

section \<open>Values\<close>

lemma flip_bit_safe: "kept out afl \<Longrightarrow> hv_safe kept (hv_flip_bit out afl)"
  unfolding hv_flip_bit_def
proof (rule hv_safe_below, simp, rule hv_safe_lift)
  fix r :: u32 and s :: "'a afl_havoc_scheme"
  assume out: "kept out afl" and s: "hv_state s" and r: "unat r < max 1 (unat (push_bit 3 (temp_len out)))"
  have "unat (drop_bit 3 r) < length out"
    using out r by (simp add: fits_lengths drop_bit_eq_div unat_div max_def less_mult_imp_div_less fits_def split: if_splits)
  then show "FLIP_BIT out r = Inr (out[unat (drop_bit 3 r) := out ! unat (drop_bit 3 r) XOR drop_bit (unat (r AND 7)) 128])"
    by (simp add: FLIP_BIT_def Let_def)
  show "kept (out[unat (drop_bit 3 r) := out ! unat (drop_bit 3 r) XOR drop_bit (unat (r AND 7)) 128]) s"
    using out s by (simp add: fits_def)
qed

lemma put_at_eq: "i < length out \<Longrightarrow> put_at out i b = Inr (out[i := b])"
  by (simp add: put_at_def)

lemma get_at_eq: "i < length xs \<Longrightarrow> get_at what xs i = Inr (xs ! i)"
  by (simp add: get_at_def)

lemma hv_byte_eq: "unat i < length out \<Longrightarrow> hv_byte f i out = Inr (out[unat i := f (out ! unat i)])"
  by (simp add: hv_byte_def put_at_eq get_at_eq)

lemma fits_update [simp]: "fits (out[i := b]) = fits out"
  by (simp add: fits_def)

lemma fits_Nil [simp]: "\<not> fits []"
  by (simp add: fits_def)

lemma fits_pos: "fits out \<Longrightarrow> max 1 (length out) = length out"
  by (simp add: fits_def max_def Suc_le_eq)

lemma one_byte_safe: "kept out afl \<Longrightarrow> hv_safe kept (hv_one_byte f out afl)"
  unfolding hv_one_byte_def
  by (intro hv_safe_below hv_safe_lift [OF hv_byte_eq]) (simp_all add: fits_len fits_pos [unfolded One_nat_def])

lemma random8_safe: "kept out afl \<Longrightarrow> hv_safe kept (hv_random8 out afl)"
  unfolding hv_random8_def
  by (intro hv_safe_below hv_safe_lift [OF hv_byte_eq]) (simp_all add: fits_len fits_pos [unfolded One_nat_def])

lemma arith8_safe: "kept out afl \<Longrightarrow> hv_safe kept (hv_arith8 f out afl)"
  unfolding hv_arith8_def
  by (intro hv_safe_below hv_safe_lift [OF hv_byte_eq]) (simp_all add: fits_len fits_pos [unfolded One_nat_def])

lemma interest_eq: "unat j < length xs \<Longrightarrow> bind_result (get_at what xs (unat j)) g = g (xs ! unat j)"
  by (simp add: get_at_eq)

lemma interest_index: "0 < length xs \<Longrightarrow> length xs < 2 ^ 32 \<Longrightarrow> unat j < max 1 (unat (of_nat (length xs) :: u32)) \<Longrightarrow> unat j < length xs"
  by (simp add: unat_of_nat_eq max_def split: if_splits)

lemma interesting_lengths: "length interesting_8 = 9" "length interesting_16 = 19" "length interesting_32 = 27"
  by (simp_all add: interesting_8_def interesting_16_def interesting_32_def)

lemma interest8_safe: "kept out afl \<Longrightarrow> hv_safe kept (hv_interest8 out afl)"
  unfolding hv_interest8_def
  by (intro hv_safe_below hv_safe_lift [OF trans [OF interest_eq put_at_eq]])
    (simp_all add: fits_len fits_pos [unfolded One_nat_def] interesting_lengths)

lemma hv_safe_write:
  assumes "fits out" and "hv_state s" and "unat i + k \<le> length out"
  shows "hv_safe kept (hv_lift (write_at k (x :: 'w::len word) out (unat i)) s)"
  by (rule hv_safe_lift [where x = "take (unat i) out @ split_word k x @ drop (unat i + k) out"])
    (use assms in \<open>auto simp: write_at_def fits_def\<close>)

lemma word_index: "fits out \<Longrightarrow> \<not> temp_len out < 2 \<Longrightarrow> unat i < max 1 (unat (temp_len out - 1)) \<Longrightarrow> unat i + 2 \<le> length out"
  by (auto simp: fits_lengths max_def split: if_splits)

lemma dword_index: "fits out \<Longrightarrow> \<not> temp_len out < 4 \<Longrightarrow> unat i < max 1 (unat (temp_len out - 3)) \<Longrightarrow> unat i + 4 \<le> length out"
  by (auto simp: fits_lengths max_def split: if_splits)

lemma interest16_safe: "kept out afl \<Longrightarrow> hv_safe kept (hv_interest16 be out afl)"
  unfolding hv_interest16_def Let_def
  by (auto intro!: hv_safe_ok hv_safe_below hv_safe_write word_index simp: interest_eq interesting_lengths)

lemma interest32_safe: "kept out afl \<Longrightarrow> hv_safe kept (hv_interest32 be out afl)"
  unfolding hv_interest32_def Let_def
  by (auto intro!: hv_safe_ok hv_safe_below hv_safe_write dword_index simp: interest_eq interesting_lengths)

lemma read_at_eq: "i + k \<le> length out \<Longrightarrow> bind_result (read_at k out i) g = g (join_words (take k (drop i out)))"
  by (simp add: read_at_def)

lemma read16_eq:
  "fits out \<Longrightarrow> \<not> temp_len out < 2 \<Longrightarrow> unat i < max (Suc 0) (unat (temp_len out - 1)) \<Longrightarrow>
     bind_result (read_at 2 out (unat i)) g = g (join_words (take 2 (drop (unat i) out)))"
  by (rule read_at_eq [OF word_index]) simp_all

lemma read32_eq:
  "fits out \<Longrightarrow> \<not> temp_len out < 4 \<Longrightarrow> unat i < max (Suc 0) (unat (temp_len out - 3)) \<Longrightarrow>
     bind_result (read_at 4 out (unat i)) g = g (join_words (take 4 (drop (unat i) out)))"
  by (rule read_at_eq [OF dword_index]) simp_all

lemma arith16_safe: "kept out afl \<Longrightarrow> hv_safe kept (hv_arith16 be f out afl)"
  unfolding hv_arith16_def
  by (auto intro!: hv_safe_ok hv_safe_below hv_safe_write word_index simp: read16_eq)

lemma arith32_safe: "kept out afl \<Longrightarrow> hv_safe kept (hv_arith32 be f out afl)"
  unfolding hv_arith32_def
  by (auto intro!: hv_safe_ok hv_safe_below hv_safe_write dword_index simp: read32_eq)

section \<open>Blocks\<close>

lemma block_at_eq: "unat from + unat k \<le> length ar \<Longrightarrow> block_at what ar from k = Inr (take (unat k) (drop (unat from) ar))"
  by (simp add: block_at_def)

lemma hv_safe_lay:
  assumes "fits out" and "hv_state s" and "unat to + length data \<le> length out"
  shows "hv_safe kept (hv_lift (lay data to out) s)"
  by (rule hv_safe_lift [where x = "take (unat to) out @ data @ drop (unat to + length data) out"])
    (use assms in \<open>auto simp: lay_def fits_def\<close>)

lemma hv_safe_insert:
  assumes "fits out" and "hv_state s" and "unat to \<le> length out" and "length out + length data \<le> unat MAX_FILE"
  shows "hv_safe kept (hv_lift (insert_block data to out) s)"
  by (rule hv_safe_lift [where x = "take (unat to) out @ data @ drop (unat to) out"])
    (use assms in \<open>auto simp: insert_block_def fits_def\<close>)

lemma hv_safe_copy:
  assumes "fits out" and "hv_state s" and "unat i + unat k \<le> length ar" and "unat to + unat k \<le> length out"
  shows "hv_safe kept (hv_lift (bind_result (block_at what ar i k) (\<lambda>b. lay b to out)) s)"
  using hv_safe_lay [OF assms(1,2), of to "take (unat k) (drop (unat i) ar)"] assms(3,4) by (simp add: block_at_eq)

lemma hv_safe_clone:
  assumes "fits out" and "hv_state s" and "unat i + unat k \<le> length ar" and "unat to \<le> length out"
    and "length out + unat k \<le> unat MAX_FILE"
  shows "hv_safe kept (hv_lift (bind_result (block_at what ar i k) (\<lambda>b. insert_block b to out)) s)"
  using hv_safe_insert [OF assms(1,2,4), of "take (unat k) (drop (unat i) ar)"] assms(3,5) by (simp add: block_at_eq)

lemma room_index: "fits out \<Longrightarrow> unat k \<le> length out \<Longrightarrow> unat i < max 1 (unat (temp_len out - k + 1)) \<Longrightarrow> unat i + unat k \<le> length out"
  by (simp add: fits_room)

lemma grow_room: "fits out \<Longrightarrow> temp_len out + HAVOC_BLK_XL < MAX_FILE \<Longrightarrow> length out + 32768 < unat MAX_FILE"
  by (simp add: fits_lengths)

lemma hv_fill_safe:
  assumes "kept out afl"
  shows "hv_safe (\<lambda>_. hv_state) (hv_fill out afl)"
  using assms unfolding hv_fill_def
  by (auto intro!: hv_safe_below hv_safe_ok hv_safe_lift [OF get_at_eq] simp: fits_len fits_pos [unfolded One_nat_def])

lemma clone_safe: "kept out afl \<Longrightarrow> hv_safe kept (hv_clone out afl)"
proof (cases "temp_len out + HAVOC_BLK_XL < MAX_FILE")
  case True
  assume k: "kept out afl"
  note room = grow_room [OF conjunct1 [OF k] True]
  show ?thesis
    unfolding hv_clone_def if_P [OF True]
    by (intro hv_safe_below hv_safe_block)
      (use k room in \<open>auto simp: room_index fits_lengths fits_pos [unfolded One_nat_def] intro!: hv_safe_clone\<close>)
qed (simp add: hv_clone_def hv_safe_ok)

lemma insert_fixed_safe: "kept out afl \<Longrightarrow> hv_safe kept (hv_insert_fixed out afl)"
proof (cases "temp_len out + HAVOC_BLK_XL < MAX_FILE")
  case True
  assume k: "kept out afl"
  note room = grow_room [OF conjunct1 [OF k] True]
  show ?thesis
    unfolding hv_insert_fixed_def if_P [OF True]
    by (intro hv_safe_below hv_safe_block hv_safe_bind [OF hv_fill_safe])
      (use k room in \<open>auto simp: fits_lengths fits_pos [unfolded One_nat_def] intro!: hv_safe_insert\<close>)
qed (simp add: hv_insert_fixed_def hv_safe_ok)

lemma part_len: "fits out \<Longrightarrow> \<not> temp_len out < 2 \<Longrightarrow> 0 < temp_len out - 1"
  "fits out \<Longrightarrow> \<not> temp_len out < 2 \<Longrightarrow> unat k \<le> unat (temp_len out - 1) \<Longrightarrow> unat k < length out"
  by (auto simp: fits_lengths)

lemma part_index:
  assumes "fits out" and "\<not> temp_len out < 2" and "unat k \<le> unat (temp_len out - 1)"
    and "unat i < max (Suc 0) (unat (temp_len out - k + 1))"
  shows "unat i + unat k \<le> length out"
  by (rule room_index) (use assms less_imp_le [OF part_len(2) [OF assms(1-3)]] in simp_all)

lemma overwrite_safe: "kept out afl \<Longrightarrow> hv_safe kept (hv_overwrite out afl)"
proof (cases "temp_len out < 2")
  case False
  assume k: "kept out afl"
  note part = part_len [OF conjunct1 [OF k] False]
  show ?thesis
    unfolding hv_overwrite_def if_not_P [OF False]
    by (intro hv_safe_below hv_safe_block)
      (use k part in \<open>auto simp: part_index [OF _ False] intro!: hv_safe_ok hv_safe_copy\<close>)
qed (simp add: hv_overwrite_def hv_safe_ok)

lemma overwrite_fixed_safe: "kept out afl \<Longrightarrow> hv_safe kept (hv_overwrite_fixed out afl)"
proof (cases "temp_len out < 2")
  case False
  assume k: "kept out afl"
  note part = part_len [OF conjunct1 [OF k] False]
  show ?thesis
    unfolding hv_overwrite_fixed_def if_not_P [OF False]
    by (intro hv_safe_below hv_safe_block hv_safe_bind [OF hv_fill_safe])
      (use k part in \<open>auto simp: part_index [OF _ False] intro!: hv_safe_lay\<close>)
qed (simp add: hv_overwrite_fixed_def hv_safe_ok)

lemma delete_safe: "kept out afl \<Longrightarrow> hv_safe kept (hv_delete out afl)"
proof (cases "temp_len out < 2")
  case False
  assume k: "kept out afl"
  note part = part_len [OF conjunct1 [OF k] False]
  have cut: "hv_safe kept (hv_lift (if unat f + unat d \<le> length out then Inr (take (unat f) out @ drop (unat f + unat d) out)
        else Inl (Out_of_bounds ''out_buf'')) s)"
    if "unat f + unat d \<le> length out" "hv_state s" "unat d < length out" for f d :: u32 and s
    using that k by (intro hv_safe_lift) (auto simp: fits_def)
  show ?thesis
    unfolding hv_delete_def if_not_P [OF False]
    by (intro hv_safe_below hv_safe_block cut) (use k part in \<open>auto intro!: part_index [OF _ False]\<close>)
qed (simp add: hv_delete_def hv_safe_ok)

text \<open>The two blocks that change places do not overlap and lie in the buffer.\<close>

lemma draw_other_bound:
  "draw_other a n afl = Some r \<Longrightarrow> fst r \<noteq> a \<and> afl_rand.more (snd r) = afl_rand.more afl \<and> unat (fst r) < max 1 (unat n)"
proof (rule draw_other.raw_induct [where P = "\<lambda>a n afl r.
    fst r \<noteq> a \<and> afl_rand.more (snd r) = afl_rand.more afl \<and> unat (fst r) < max 1 (unat n)"])
  fix f a n and afl :: "'a afl_rand_scheme" and r
  assume IH: "\<And>a n afl r. f a n afl = Some r \<Longrightarrow>
      fst r \<noteq> a \<and> afl_rand.more (snd r) = afl_rand.more afl \<and> unat (fst r) < max 1 (unat n)"
    and eq: "(case rand_below afl n of None \<Rightarrow> None | Some (to, afl) \<Rightarrow> if to = a then f a n afl else Some (to, afl)) = Some r"
  obtain x s where draw: "rand_below afl n = Some (x, s)" using eq by (auto split: option.splits)
  have "afl_rand.more s = afl_rand.more afl" "unat x < max 1 (unat n)"
    using afl_rng.rb_rest [OF draw] afl_rng.rb_bound [OF draw] by (auto simp: word_less_nat_alt word_le_nat_alt split: if_splits)
  then show "fst r \<noteq> a \<and> afl_rand.more (snd r) = afl_rand.more afl \<and> unat (fst r) < max 1 (unat n)"
    using eq draw IH [of a n s r] by (auto split: if_splits)
qed

lemma hv_safe_other:
  assumes "hv_state s" and "\<And>to s'. hv_state s' \<Longrightarrow> to \<noteq> a \<Longrightarrow> unat to < max 1 (unat n) \<Longrightarrow> hv_safe Q (f to s')"
  shows "hv_safe Q (hv_bind (hv_draw (draw_other a n s)) f)"
proof (rule hv_safe_bind [where P = "\<lambda>to s'. hv_state s' \<and> to \<noteq> a \<and> unat to < max 1 (unat n)"])
  show "hv_safe (\<lambda>to s'. hv_state s' \<and> to \<noteq> a \<and> unat to < max 1 (unat n)) (hv_draw (draw_other a n s))"
    unfolding hv_safe_def hv_draw_def
  proof (intro conjI allI impI)
    fix to s'
    assume "map_option Inr (draw_other a n s) = Some (Inr (to, s'))"
    then have "draw_other a n s = Some (to, s')" by auto
    from draw_other_bound [OF this] show "hv_state s'" "to \<noteq> a" "unat to < max 1 (unat n)"
      using assms(1) hv_state_rand [of s' s] by simp_all
  qed simp
qed (use assms(2) in blast)

lemma switch_blocks_safe:
  assumes "fits out" and "hv_state s" and "unat i + unat k \<le> length out" and "unat j + unat k \<le> length out"
  shows "hv_safe kept (hv_lift (switch_blocks i j k out) s)"
  using assms hv_safe_lay [of "take (unat i) out @ take (unat k) (drop (unat j) out) @ drop (unat i + unat k) out" s j
      "take (unat k) (drop (unat i) out)"]
  by (simp add: switch_blocks_def block_at_eq lay_def fits_def)

lemma switch_lengths:
  assumes "fits out" and "unat i < length out" and "unat j < length out" and "i \<noteq> j"
    and "unat k \<le> unat (min (if i < j then j - i else i - j) (if i < j then temp_len out - j else temp_len out - i))"
  shows "unat i + unat k \<le> length out" and "unat j + unat k \<le> length out"
proof -
  have "unat k \<le> (if i < j then length out - unat j else length out - unat i)"
    using assms by (auto simp: min_def fits_minus word_le_nat_alt split: if_splits)
  then show "unat i + unat k \<le> length out" "unat j + unat k \<le> length out"
    using assms(2,3) by (auto simp: word_less_nat_alt split: if_splits)
qed

lemma switch_room:
  assumes "fits out" and "unat i < length out" and "unat j < length out" and "j \<noteq> i"
  shows "0 < min (if i < j then j - i else i - j) (if i < j then temp_len out - j else temp_len out - i)"
proof -
  have "unat i < unat j \<or> unat j < unat i" using assms(4) by (metis linorder_neqE_nat unsigned_word_eqI)
  then show ?thesis using assms by (auto simp: min_def word_less_nat_alt fits_minus unat_sub word_le_nat_alt)
qed

lemma switch_safe: "kept out afl \<Longrightarrow> hv_safe kept (hv_switch out afl)"
  unfolding hv_switch_def Let_def
  by (auto simp: fits_len fits_pos [unfolded One_nat_def] intro!: hv_safe_ok hv_safe_below hv_safe_other hv_safe_block switch_blocks_safe
      switch_room elim: switch_lengths [rotated 4])

section \<open>Tokens and other test cases\<close>

lemma tokens_nth: "tokens_hold ts \<Longrightarrow> i < length ts \<Longrightarrow> ts ! i = (data, k) \<Longrightarrow> unat k \<le> length data \<and> k \<le> MAX_DICT_FILE"
  by (auto simp: tokens_hold_def list_all_length)

lemma hv_safe_token:
  assumes "hv_state s" and "tokens_hold ts" and "0 < cnt" and "unat cnt \<le> length ts"
    and body: "\<And>data k s'. hv_state s' \<Longrightarrow> unat k \<le> length data \<Longrightarrow> unat k \<le> 128 \<Longrightarrow> hv_safe Q (f data k s')"
  shows "hv_safe Q (hv_bind (hv_below (s :: 'a afl_det_scheme) cnt) (\<lambda>use afl. hv_bind (hv_lift (get_at what ts (unat use)) afl) (\<lambda>(data, k). f data k)))"
proof (rule hv_safe_below [OF assms(1)])
  fix r and s' :: "'a afl_det_scheme"
  assume s': "hv_state s'" and "unat r < max 1 (unat cnt)"
  then have "unat r < length ts" using assms(3,4) by (simp add: word_less_nat_alt max_def split: if_splits)
  moreover obtain data k where "ts ! unat r = (data, k)" by fastforce
  ultimately show "hv_safe Q (hv_bind (hv_lift (get_at what ts (unat r)) s') (\<lambda>(data, k). f data k))"
    using tokens_nth [OF assms(2)] body [OF s'] by (intro hv_safe_lift_bind [OF get_at_eq]) (auto simp: word_le_nat_alt)
qed

lemma token_over_safe:
  assumes "kept out afl" and "tokens_hold ts" and "0 < cnt" and "unat cnt \<le> length ts"
  shows "hv_safe kept (hv_token_over cnt ts out afl)"
  unfolding hv_token_over_def
  by (rule hv_safe_token [OF conjunct2 [OF assms(1)] assms(2-4)])
    (use assms(1) in \<open>auto intro!: hv_safe_ok hv_safe_below hv_safe_copy simp: room_index fits_len word_less_nat_alt\<close>)

lemma token_insert_safe:
  assumes "kept out afl" and "tokens_hold ts" and "0 < cnt" and "unat cnt \<le> length ts"
  shows "hv_safe kept (hv_token_insert cnt ts out afl)"
  unfolding hv_token_insert_def
  by (rule hv_safe_token [OF conjunct2 [OF assms(1)] assms(2-4)])
    (use assms(1) in \<open>auto intro!: hv_safe_ok hv_safe_below hv_safe_clone simp: fits_len fits_add word_less_nat_alt word_le_nat_alt\<close>)

text \<open>Loading another test case keeps the rest of the state.\<close>

definition tc_rest :: "'a afl_tc_scheme \<Rightarrow> 'a afl_tc_scheme \<Rightarrow> bool" where
  "tc_rest afl afl' \<longleftrightarrow> queued_items afl' = queued_items afl \<and> afl_tc.more afl' = afl_tc.more afl"

lemma tc_rest_trans: "tc_rest a b \<Longrightarrow> tc_rest b c \<Longrightarrow> tc_rest a c"
  by (simp add: tc_rest_def)

lemma tc_rest_steps:
  "rand_below afl n = Some (r, afl') \<Longrightarrow> tc_rest afl afl'"
  "tc_rest afl (learn_cache_entries m afl)"
  "evict_testcase tid old afl = Inr afl' \<Longrightarrow> tc_rest afl afl'"
  "tc_rest afl (register_testcase q tid data m afl)"
  subgoal by (drule afl_rng.rb_rest) (cases afl; cases afl'; simp add: tc_rest_def)
  subgoal by (simp add: tc_rest_def learn_cache_entries_def Let_def)
  subgoal by (auto simp: tc_rest_def evict_testcase_def Let_def upd_q_def get_q_def split: if_splits)
  subgoal by (simp add: tc_rest_def register_testcase_def Let_def upd_q_def)
  done

lemma pick_victim_rest: "pick_victim afl = Some r \<Longrightarrow> \<forall>tid old afl'. r = Inr (tid, old, afl') \<longrightarrow> tc_rest afl afl'"
proof (rule pick_victim.raw_induct [where P = "\<lambda>afl r. \<forall>tid old afl'. r = Inr (tid, old, afl') \<longrightarrow> tc_rest afl afl'"])
  fix f and afl :: "'a afl_tc_scheme" and r
  assume IH: "\<And>s r. f s = Some r \<Longrightarrow> \<forall>tid old afl'. r = Inr (tid, old, afl') \<longrightarrow> tc_rest s afl'"
    and eq: "(case rand_below afl (q_testcase_max_cache_count afl) of None \<Rightarrow> None
        | Some (tid, afl) \<Rightarrow>
            (case get_at ''q_testcase_cache'' (q_testcase_cache afl) (unat tid) of
               Inl err \<Rightarrow> Some (Inl err)
             | Inr slot \<Rightarrow> (case slot of None \<Rightarrow> f afl
                 | Some old \<Rightarrow> if queue_cur afl = Some old then f afl
                               else Some (Inr (unat tid, old, afl))))) = Some r"
  obtain x s where draw: "rand_below afl (q_testcase_max_cache_count afl) = Some (x, s)"
    using eq by (auto split: option.splits)
  note step = tc_rest_steps(1) [OF draw]
  show "\<forall>tid old afl'. r = Inr (tid, old, afl') \<longrightarrow> tc_rest afl afl'"
    using eq draw IH [of s r] step tc_rest_trans [OF step] by (auto split: sum.splits option.splits if_splits)
qed

lemma make_room_rest: "make_room n tid afl = Some r \<Longrightarrow> \<forall>tid' afl'. r = Inr (tid', afl') \<longrightarrow> tc_rest afl afl'"
proof (rule make_room.raw_induct [where P = "\<lambda>n tid afl r. \<forall>tid' afl'. r = Inr (tid', afl') \<longrightarrow> tc_rest afl afl'"])
  fix f n tid and afl :: "'a afl_tc_scheme" and r
  assume IH: "\<And>n tid s r. f n tid s = Some r \<Longrightarrow> \<forall>tid' afl'. r = Inr (tid', afl') \<longrightarrow> tc_rest s afl'"
    and eq: "(if \<not> cache_full afl n then Some (Inr (tid, afl))
        else (case pick_victim (learn_cache_entries n afl) of None \<Rightarrow> None
          | Some (Inl err) \<Rightarrow> Some (Inl err)
          | Some (Inr (tid, old, afl)) \<Rightarrow>
              (case evict_testcase tid old afl of Inl err \<Rightarrow> Some (Inl err)
               | Inr afl \<Rightarrow> f n tid afl))) = Some r"
  show "\<forall>tid' afl'. r = Inr (tid', afl') \<longrightarrow> tc_rest afl afl'"
  proof (intro allI impI)
    fix tid' afl' assume r: "r = Inr (tid', afl')"
    show "tc_rest afl afl'"
    proof (cases "cache_full afl n")
      case False
      with eq r show ?thesis by (simp add: tc_rest_def)
    next
      case True
      obtain t old s s' where v: "pick_victim (learn_cache_entries n afl) = Some (Inr (t, old, s))"
          and s': "evict_testcase t old s = Inr s'" "f n t s' = Some r"
        using eq True r by (auto split: option.splits sum.splits)
      have "tc_rest (learn_cache_entries n afl) s" using pick_victim_rest [OF v] by blast
      from tc_rest_trans [OF tc_rest_steps(2) tc_rest_trans [OF this tc_rest_steps(3) [OF s'(1)]]] IH [OF s'(2)] r
      show ?thesis using tc_rest_trans by blast
    qed
  qed
qed

lemma hv_state_rest:
  assumes "hv_state s" and "tc_rest s s'" and "tc_wf s'" and "length (queue_buf s') = length (queue_buf s)"
  shows "hv_state s'"
proof -
  have "queued_items s' = queued_items s" using assms(2) by (simp add: tc_rest_def)
  moreover have "extras s' = extras s" "a_extras s' = a_extras s" "a_extras_cnt s' = a_extras_cnt s"
    using assms(2) by (cases s; cases s'; simp add: tc_rest_def)+
  ultimately show ?thesis
    using assms(1,3,4) unfolding hv_state_def user_tokens_def auto_tokens_def by (metis length_greater_0_conv)
qed

lemma cache_load_safe:
  fixes s :: "'a afl_det_scheme"
  assumes st: "hv_state s" and q: "q < length (queue_buf s)" and new: "testcase_buf (queue_buf s ! q) = None"
    and room: "\<not> cache_full s (len (queue_buf s ! q))" and tid: "free_or_next tid s"
  shows "hv_safe (\<lambda>buf s'. hv_state s' \<and> length buf = unat (len (queue_buf s ! q)) \<and> map len (queue_buf s') = map len (queue_buf s)) (Some (cache_load q (queue_buf s ! q) tid s))"
proof -
  let ?e = "queue_buf s ! q"
  have wf: "tc_wf s" using st by (simp add: hv_state_def)
  obtain i where i: "find_free (q_testcase_cache s)
       (if tid \<ge> unat (q_testcase_max_cache_entries s) then unat (q_testcase_smallest_free s) else tid) = Inr i"
      "i < length (q_testcase_cache s)" "q_testcase_cache s ! i = None"
    using start_slot_found [OF wf room tid [unfolded free_or_next_def]] by blast
  show ?thesis
  proof (cases "load_file s (fname ?e) (len ?e)")
    case (Inl err)
    then have "\<exists>m. err = Fatal m" by (auto simp: load_file_def split: option.splits if_splits)
    with Inl i(1) show ?thesis by (auto simp: cache_load_def hv_safe_def)
  next
    case (Inr data)
    then have n: "length data = unat (len ?e)" by (auto simp: load_file_def split: option.splits if_splits)
    let ?s = "register_testcase q i data (len ?e) s"
    have "hv_state ?s"
      by (rule hv_state_rest [OF st tc_rest_steps(4) register_testcase_wf [OF wf q new i(2,3) n]]) (simp add: register_testcase_fields)
    moreover have "map len (queue_buf ?s) = map len (queue_buf s)"
      by (auto simp: register_testcase_fields map_update q list_update_same_conv)
    ultimately show ?thesis using Inr i(1) n by (simp add: cache_load_def hv_safe_def)
  qed
qed

lemma testcase_safe:
  fixes s :: "'a afl_det_scheme"
  assumes st: "hv_state s" and q: "q < length (queue_buf s)"
  shows "hv_safe (\<lambda>buf s'. hv_state s' \<and> length buf = unat (len (queue_buf s ! q)) \<and> map len (queue_buf s') = map len (queue_buf s)) (queue_testcase_get s q)"
proof -
  let ?e = "queue_buf s ! q" and ?Q = "\<lambda>buf s'. hv_state s' \<and> length buf = unat (len (queue_buf s ! q)) \<and> map len (queue_buf s') = map len (queue_buf s)"
  have wf: "tc_wf s" using st by (simp add: hv_state_def)
  consider (off) "q_testcase_max_cache_size s = 0" | (hit) b where "q_testcase_max_cache_size s \<noteq> 0" "testcase_buf ?e = Some b"
    | (miss) "q_testcase_max_cache_size s \<noteq> 0" "testcase_buf ?e = None" by (cases "testcase_buf ?e") auto
  then show ?thesis
  proof cases
    case off
    then show ?thesis using st q
      by (auto simp: queue_testcase_get_def get_q_def hv_safe_def load_file_def split: option.splits if_splits)
  next
    case hit
    then show ?thesis using st q tc_wfD(4) [OF wf q hit(2)] by (simp add: queue_testcase_get_def get_q_def hv_safe_def)
  next
    case miss
    let ?m = "make_room (len ?e) (unat (q_testcase_max_cache_count s)) s"
    have get: "queue_testcase_get s q = (case ?m of None \<Rightarrow> None | Some (Inl err) \<Rightarrow> Some (Inl err)
        | Some (Inr (tid, afl)) \<Rightarrow> Some (cache_load q ?e tid afl))"
      using miss q by (simp add: queue_testcase_get_def get_q_def)
    show ?thesis
    proof (cases ?m)
      case None
      then show ?thesis unfolding get by (simp add: hv_safe_def)
    next
      case (Some m)
      obtain tid t where t: "m = Inr (tid, t)" "tc_wf t" "only_evicts s t" "\<not> cache_full t (len ?e)" "free_or_next tid t"
        using make_room_ok [OF Some] wf unfolding room_ok_def by (auto simp: free_or_next_def)
      have "kept_or_dropped (queue_cur s \<noteq> Some q) ?e (queue_buf t ! q)"
        using t(3) q unfolding only_evicts_def by blast
      then have e: "len (queue_buf t ! q) = len ?e" "fname (queue_buf t ! q) = fname ?e" "testcase_buf (queue_buf t ! q) = None"
        using miss unfolding kept_or_dropped_def by (elim disjE conjE; simp)+
      have n: "length (queue_buf t) = length (queue_buf s)" using t(3) by (simp add: only_evicts_def)
      have lens: "map len (queue_buf t) = map len (queue_buf s)"
        using t(3) by (auto simp: only_evicts_def kept_or_dropped_def list_eq_iff_nth_eq)
      have "tc_rest s t" using make_room_rest [OF Some] t(1) by blast
      from hv_state_rest [OF st this t(2) n] have "hv_state t" .
      from cache_load_safe [OF this _ e(3), unfolded e(1), OF _ t(4,5)] q n
      have "hv_safe ?Q (Some (cache_load q (queue_buf t ! q) tid t))" by (simp add: lens)
      moreover have "cache_load q (queue_buf t ! q) tid t = cache_load q ?e tid t" unfolding cache_load_def e ..
      ultimately show ?thesis unfolding get Some t(1) by simp
    qed
  qed
qed

definition picked :: "'a afl_save_scheme \<Rightarrow> (nat \<times> 'a afl_save_scheme) result \<Rightarrow> bool" where
  "picked afl r \<longleftrightarrow> (unat (queued_items afl) = length (queue_buf afl) \<longrightarrow> queue_buf afl \<noteq> [] \<longrightarrow>
     (\<exists>tid afl'. r = Inr (tid, afl') \<and> afl_rand.more afl' = afl_rand.more afl \<and> tid < length (queue_buf afl)
        \<and> 4 \<le> len (queue_buf afl ! tid)))"

lemma pick_splice_picked: "pick_splice afl = Some r \<Longrightarrow> picked afl r"
proof (rule pick_splice.raw_induct [where P = picked])
  fix f and afl :: "'a afl_save_scheme" and r
  assume IH: "\<And>s r. f s = Some r \<Longrightarrow> picked s r"
    and eq: "(case rand_below afl (queued_items afl) of None \<Rightarrow> None
        | Some (tid, afl) \<Rightarrow> if tid = current_entry afl then f afl
            else (case get_q afl (unat tid) of Inl err \<Rightarrow> Some (Inl err)
                  | Inr e \<Rightarrow> if len e < 4 then f afl else Some (Inr (unat tid, afl)))) = Some r"
  obtain x s where draw: "rand_below afl (queued_items afl) = Some (x, s)" using eq by (auto split: option.splits)
  have more: "afl_rand.more s = afl_rand.more afl" by (rule afl_rng.rb_rest [OF draw])
  then have same: "queue_buf s = queue_buf afl" "queued_items s = queued_items afl" by (cases s; cases afl; simp)+
  show "picked afl r"
    unfolding picked_def
  proof (intro impI)
    assume q: "unat (queued_items afl) = length (queue_buf afl)" "queue_buf afl \<noteq> []"
    then have "queued_items afl \<noteq> 0" by auto
    then have x: "unat x < length (queue_buf afl)"
      using afl_rng.rb_nat_less [OF draw] q by (simp add: word_neq_0_conv)
    show "\<exists>tid afl'. r = Inr (tid, afl') \<and> afl_rand.more afl' = afl_rand.more afl \<and> tid < length (queue_buf afl)
        \<and> 4 \<le> len (queue_buf afl ! tid)"
    proof (cases "x = current_entry s \<or> len (queue_buf afl ! unat x) < 4")
      case True
      with eq draw x same have "f s = Some r" by (auto simp: get_q_def split: if_splits)
      from IH [OF this] q show ?thesis unfolding picked_def same more by simp
    next
      case False
      with eq draw x same have "r = Inr (unat x, s)" by (simp add: get_q_def)
      with False x more show ?thesis by (auto simp: not_less)
    qed
  qed
qed

lemma hv_safe_pick:
  assumes "hv_state s"
    and "\<And>tid s'. hv_state s' \<Longrightarrow> queue_buf s' = queue_buf s \<Longrightarrow> tid < length (queue_buf s') \<Longrightarrow> 4 \<le> len (queue_buf s' ! tid) \<Longrightarrow> hv_safe Q (f tid s')"
  shows "hv_safe Q (hv_bind (pick_splice (s :: 'a afl_det_scheme)) f)"
proof (rule hv_safe_bind [where P = "\<lambda>tid s'. hv_state s' \<and> queue_buf s' = queue_buf s \<and> tid < length (queue_buf s') \<and> 4 \<le> len (queue_buf s' ! tid)"])
  show "hv_safe (\<lambda>tid s'. hv_state s' \<and> queue_buf s' = queue_buf s \<and> tid < length (queue_buf s') \<and> 4 \<le> len (queue_buf s' ! tid)) (pick_splice s)"
  proof (cases "pick_splice s")
    case (Some r)
    then obtain tid s' where r: "r = Inr (tid, s')" "afl_rand.more s' = afl_rand.more s" "tid < length (queue_buf s)"
        "4 \<le> len (queue_buf s ! tid)"
      using pick_splice_picked [OF Some] assms(1) unfolding picked_def hv_state_def by blast
    moreover have "queue_buf s' = queue_buf s" using r(2) by (cases s; cases s'; simp)
    ultimately show ?thesis using Some assms(1) hv_state_rand [OF r(2)] by (simp add: hv_safe_def)
  qed (simp add: hv_safe_def)
qed (use assms(2) in blast)

lemma other_index:
  assumes "1 \<le> unat k" and "unat k \<le> unat n" and "unat i < max 1 (unat (n - k + 1 :: u32))"
  shows "unat i + unat k \<le> unat n"
proof -
  have "unat (n - k) = unat n - unat k" using assms(2) by (simp add: unat_sub word_le_nat_alt)
  then have "unat (n - k + 1) = unat n - unat k + 1"
    using assms(1,2) unat_lt2p [of n] by (subst unat_add_small) auto
  with assms show ?thesis by simp
qed

lemma splice_over_safe:
  fixes s :: "'a afl_havoc_scheme"
  assumes "hv_state s" and "fits out" and "4 \<le> n" and "length new_buf = unat n"
  shows "hv_safe kept (hv_bind (hv_block s (n - 1)) (\<lambda>copy_len afl.
      let copy_len = (if temp_len out < copy_len then temp_len out else copy_len) in
      hv_bind (hv_below afl (n - copy_len + 1)) (\<lambda>copy_from afl.
      hv_bind (hv_below afl (temp_len out - copy_len + 1)) (\<lambda>copy_to.
      hv_lift (bind_result (block_at ''new_buf'' new_buf copy_from copy_len) (\<lambda>b. lay b copy_to out))))))"
proof (rule hv_safe_block [OF assms(1)])
  have n: "unat (n - 1) = unat n - 1" using assms(3) by (simp add: unat_sub word_le_nat_alt)
  then show "0 < n - 1" using assms(3) by (simp add: word_less_nat_alt word_le_nat_alt)
  fix r :: u32 and s' :: "'a afl_havoc_scheme"
  assume s': "hv_state s'" and r: "1 \<le> unat r" "unat r \<le> unat (n - 1)" "unat r \<le> 32768"
  define k where "k = (if temp_len out < r then temp_len out else r)"
  have k: "1 \<le> unat k" "unat k \<le> unat n" "unat k \<le> length out"
    using r n assms(2) by (auto simp: k_def fits_len word_less_nat_alt Suc_le_eq)
  show "hv_safe kept (let copy_len = (if temp_len out < r then temp_len out else r) in
      hv_bind (hv_below s' (n - copy_len + 1)) (\<lambda>copy_from afl.
      hv_bind (hv_below afl (temp_len out - copy_len + 1)) (\<lambda>copy_to.
      hv_lift (bind_result (block_at ''new_buf'' new_buf copy_from copy_len) (\<lambda>b. lay b copy_to out)))))"
    unfolding k_def [symmetric] Let_def
    by (intro hv_safe_below hv_safe_copy) (use s' assms(2,4) k room_index [OF assms(2) k(3)] other_index [OF k(1,2)] in auto)
qed

lemma splice_insert_safe:
  fixes s :: "'a afl_havoc_scheme"
  assumes "hv_state s" and "fits out" and "4 \<le> n" and "length new_buf = unat n"
    and "\<not> MAX_FILE \<le> temp_len out + HAVOC_BLK_XL"
  shows "hv_safe kept (hv_bind (hv_block s n) (\<lambda>clone_len afl.
      hv_bind (hv_below afl (n - clone_len + 1)) (\<lambda>clone_from afl.
      hv_bind (hv_below afl (temp_len out + 1)) (\<lambda>clone_to.
      hv_lift (bind_result (block_at ''new_buf'' new_buf clone_from clone_len) (\<lambda>b. insert_block b clone_to out))))))"
proof -
  have room: "length out + 32768 < unat MAX_FILE" by (rule grow_room [OF assms(2)]) (use assms(5) in simp)
  have "0 < n" using assms(3) by (simp add: word_less_nat_alt word_le_nat_alt)
  then show ?thesis
    by (intro hv_safe_block hv_safe_below hv_safe_clone)
      (use assms room other_index [of _ n] in \<open>auto simp: fits_add\<close>)
qed

lemma get_q_eq: "q < length (queue_buf s) \<Longrightarrow> get_q s q = Inr (queue_buf s ! q)"
  by (simp add: get_q_def)

lemma splice_safe: "kept out afl \<Longrightarrow> hv_safe kept (hv_splice r out afl)"
proof -
  assume k: "kept out afl"
  have load: "hv_safe kept (hv_bind (queue_testcase_get s tid) (\<lambda>new_buf afl.
     if 2 \<le> temp_len out \<and> r mod 2 \<noteq> 0 \<or> MAX_FILE \<le> temp_len out + HAVOC_BLK_XL
     then hv_bind (hv_block afl (len (queue_buf s ! tid) - 1)) (\<lambda>copy_len afl.
          let copy_len = (if temp_len out < copy_len then temp_len out else copy_len) in
          hv_bind (hv_below afl (len (queue_buf s ! tid) - copy_len + 1)) (\<lambda>copy_from afl.
          hv_bind (hv_below afl (temp_len out - copy_len + 1)) (\<lambda>copy_to.
          hv_lift (bind_result (block_at ''new_buf'' new_buf copy_from copy_len) (\<lambda>b. lay b copy_to out)))))
     else hv_bind (hv_block afl (len (queue_buf s ! tid))) (\<lambda>clone_len afl.
          hv_bind (hv_below afl (len (queue_buf s ! tid) - clone_len + 1)) (\<lambda>clone_from afl.
          hv_bind (hv_below afl (temp_len out + 1)) (\<lambda>clone_to.
          hv_lift (bind_result (block_at ''new_buf'' new_buf clone_from clone_len) (\<lambda>b. insert_block b clone_to out)))))))"
    if "hv_state s" "tid < length (queue_buf s)" "4 \<le> len (queue_buf s ! tid)" for s :: "'a afl_havoc_scheme" and tid
    by (rule hv_safe_bind [OF testcase_safe [OF that(1,2)]], rule hv_safe_if; intro splice_over_safe splice_insert_safe)
      (use k that(3) in auto)
  show ?thesis
    unfolding hv_splice_def Let_def
    by (rule hv_safe_pick [OF conjunct2 [OF k]], rule hv_safe_lift_bind [OF get_q_eq], assumption)
      (rule load [unfolded Let_def])
qed

section \<open>Stacks of mutations\<close>

lemma hv_state_tokens:
  assumes "hv_state afl"
  shows "tokens_hold (auto_tokens (unat (a_extras_cnt afl)) afl)"
    and "unat (a_extras_cnt afl) \<le> length (auto_tokens (unat (a_extras_cnt afl)) afl)"
    and "tokens_hold (user_tokens afl)" and "unat (extras_cnt afl) \<le> length (user_tokens afl)"
  using assms by (simp_all add: hv_state_def auto_tokens_def user_tokens_def unat_of_nat)

lemma auto_safe: "kept out afl \<Longrightarrow> hv_safe kept (hv_auto ascii r out afl)"
  unfolding hv_auto_def Let_def
  by (auto intro!: hv_safe_if splice_safe token_over_safe token_insert_safe hv_state_tokens simp: word_neq_0_conv)

lemma default_safe: "kept out afl \<Longrightarrow> hv_safe kept (hv_default ascii r out afl)"
  unfolding hv_default_def
  by (auto intro!: hv_safe_if auto_safe token_over_safe token_insert_safe hv_state_tokens simp: word_neq_0_conv)

lemmas mutations_safe = flip_bit_safe interest8_safe interest16_safe interest32_safe arith8_safe arith16_safe arith32_safe
  random8_safe clone_safe insert_fixed_safe overwrite_safe overwrite_fixed_safe one_byte_safe switch_safe delete_safe default_safe

lemma havoc_mutation_safe: "kept out afl \<Longrightarrow> hv_safe kept (havoc_mutation ascii r out afl)"
  unfolding havoc_mutation_def by (auto simp: mutations_safe)

lemma havoc_stack_keeps: "kept out afl \<Longrightarrow> hv_safe kept (havoc_stack k ascii r_max out afl)"
  by (induction k arbitrary: out afl)
    (auto intro!: hv_safe_ok hv_safe_below hv_safe_bind [OF havoc_mutation_safe])

text \<open>(C18)
  Memory safety of the stacked havoc mutations: from a buffer of 1 to \<open>MAX_FILE\<close> bytes, with the cache and the token arrays in order,
  no sequence of mutations reads or writes outside the buffer, a token, a table or another test case, whatever the random numbers
  are. The result again has 1 to \<open>MAX_FILE\<close> bytes and leaves cache and tokens in order; the only error is a test case that cannot be
  read from disk.
\<close>

theorem havoc_stack_safe:
  assumes "hv_state afl" and "0 < length out" and "length out \<le> unat MAX_FILE" and "havoc_stack k ascii r_max out afl = Some r"
  shows "(\<exists>out' afl'. r = Inr (out', afl') \<and> 0 < length out' \<and> length out' \<le> unat MAX_FILE \<and> hv_state afl') \<or> (\<exists>m. r = Inl (Fatal m))"
proof -
  have "hv_safe kept (havoc_stack k ascii r_max out afl)" using assms(1-3) by (intro havoc_stack_keeps) (simp add: fits_def)
  then show ?thesis using assms(4) by (cases r) (auto simp: hv_safe_def fits_def)
qed

definition hv_demo :: afl_havoc where
  "hv_demo = afl_save.extend (save_demo\<lparr>rand_seed := (0, 0, 0), queue_buf := queue_buf (tc_demo []), queued_items := 2,
       q_testcase_cache := [Some 0, None, None, None], q_testcase_max_cache_size := 100, q_testcase_max_cache_entries := 4,
       q_testcase_cache_size := 2, q_testcase_max_cache_count := 1, q_testcase_cache_count := 1, q_testcase_smallest_free := 0\<rparr>)
     \<lparr>stage_finds = replicate 32 0, stage_cycles = replicate 32 0, blocks_eff_total = 0, blocks_eff_select = 0, no_arith = False,
      max_det_extras = 200, havoc_div = 1, havoc_stack_pow2 = 7, expand_havoc = False, use_splicing = True, custom_only = False,
      cmplog_binary = False\<rparr>"

lemma hv_demo_fields:
  "rand_seed hv_demo = (0, 0, 0)" "fixed_seed hv_demo" "queue_buf hv_demo = queue_buf (tc_demo [])" "queued_items hv_demo = 2"
  "q_testcase_cache hv_demo = [Some 0, None, None, None]" "q_testcase_max_cache_entries hv_demo = 4" "q_testcase_cache_size hv_demo = 2"
  "q_testcase_max_cache_count hv_demo = 1" "q_testcase_cache_count hv_demo = 1" "q_testcase_smallest_free hv_demo = 0"
  "extras hv_demo = []" "a_extras_cnt hv_demo = 0"
  by (simp_all add: hv_demo_def afl_save.extend_def)
    (simp_all add: save_demo_def afl_run.extend_def cal_demo_def run_demo_def afl_one.extend_def one_demo_def afl_extras.extend_def
      extras_demo_def afl_tc.extend_def tc_demo_def afl_queue.extend_def queue_demo_def afl_cov.extend_def cov_demo_def)

lemma hv_demo_state: "hv_state hv_demo"
  by (simp add: hv_state_def hv_demo_fields user_tokens_def auto_tokens_def tokens_hold_def tc_wf_def tc_demo_fields zero_entry_def
      slot_len_def less_Suc_eq nth_Cons' split: if_splits)

lemma unbiased_zero:
  assumes "rand_seed afl = (0, 0, 0)" and "0 < b"
  shows "rand_unbiased b afl = Some (0, afl\<lparr>rand_seed := (0, 0, 0)\<rparr>)"
proof -
  have "rand_next afl = (0, afl\<lparr>rand_seed := (0, 0, 0)\<rparr>)" using assms(1) by (simp add: rand_next_def romu_duo_jr_def ROTL_def)
  then show ?thesis using assms(2) by (subst rand_unbiased.simps) (auto simp: word_less_nat_alt)
qed

lemma rand_zero:
  assumes "rand_seed afl = (0, 0, 0)" and "fixed_seed afl" and "1 < n" and "0 < rand_bound n"
  shows "rand_below afl n = Some (0, afl\<lparr>rand_cnt := rand_cnt afl - 1, rand_seed := (0, 0, 0)\<rparr>)"
proof -
  have "\<not> n \<le> 1" using assms(3) by (simp add: word_le_nat_alt word_less_nat_alt)
  moreover have "rand_unbiased (rand_bound n) (afl\<lparr>rand_cnt := rand_cnt afl - 1\<rparr>)
      = Some (0, afl\<lparr>rand_cnt := rand_cnt afl - 1, rand_seed := (0, 0, 0)\<rparr>)"
    using unbiased_zero [of "afl\<lparr>rand_cnt := rand_cnt afl - 1\<rparr>", OF _ assms(4)] assms(1) by simp
  ultimately show ?thesis using assms(2) by (simp add: rand_below_def Let_def del: One_nat_def)
qed

theorem havoc_stack_safe_witness:
  "\<exists>afl'. havoc_stack 1 False 65 [65, 66] hv_demo = Some (Inr ([193, 66], afl')) \<and> hv_state afl'"
proof -
  have "0 < rand_bound 65" "0 < rand_bound 16" by (simp_all add: rand_bound_def word_less_nat_alt)
  then obtain afl' where run: "havoc_stack 1 False 65 [65, 66] hv_demo = Some (Inr ([193, 66], afl'))"
    by (simp add: rand_zero hv_demo_fields hv_bind_def hv_draw_def hv_lift_def hv_ok_def havoc_mutation_def hv_flip_bit_def FLIP_BIT_def)
  with havoc_stack_safe [OF hv_demo_state, of "[65, 66]", OF _ _ run] show ?thesis by simp
qed

section \<open>Splicing\<close>

text \<open>A queue of test cases of at most \<open>MAX_FILE\<close> bytes, among them the current one.\<close>

definition spliceable :: "qid \<Rightarrow> bytes \<Rightarrow> 'a afl_havoc_scheme \<Rightarrow> bool" where
  "spliceable cur orig_in afl \<longleftrightarrow> hv_state afl \<and> cur < length (queue_buf afl) \<and> length orig_in = unat (len (queue_buf afl ! cur))
     \<and> list_all (\<lambda>n. n \<le> MAX_FILE) (map len (queue_buf afl))"

lemma spliceable_lens:
  assumes "spliceable cur orig_in a" and "hv_state b" and "map len (queue_buf b) = map len (queue_buf a)"
  shows "spliceable cur orig_in b"
proof -
  have "length (queue_buf b) = length (queue_buf a)" using assms(3) by (rule map_eq_imp_length_eq)
  moreover from this have "len (queue_buf b ! cur) = len (queue_buf a ! cur)"
    using assms(1) arg_cong [OF assms(3), of "\<lambda>l. l ! cur"] by (simp add: spliceable_def)
  ultimately show ?thesis using assms by (simp add: spliceable_def)
qed

lemma splice_at_found:
  assumes "f \<le> l" and "l < unat n" and "n = min a (of_nat (length in_buf))" and "f \<noteq> l"
    and "length new_buf = unat a" and "a \<le> MAX_FILE" and "length in_buf \<le> unat MAX_FILE" and "unat r < max 1 (unat (word_of_int (int l - int f) :: u32))"
  shows "\<exists>m. splice_at (word_of_int (int f) + r) in_buf new_buf a = Inr (take m in_buf @ take (unat a - m) new_buf)
    \<and> f \<le> m \<and> m < l \<and> l < length in_buf \<and> l < unat a"
proof -
  have len: "unat (of_nat (length in_buf) :: u32) = length in_buf" by (rule unat_of_nat_eq) (use assms(7) in simp)
  then have n: "unat n \<le> unat a" "unat n \<le> length in_buf"
    using assms(3) by (auto simp: min_def word_le_nat_alt)
  have big: "l < 2 ^ 32" using assms(2) unat_lt2p [of n] by simp
  have "word_of_int (int l - int f) = (of_nat (l - f) :: u32)" using assms(1) by (simp flip: of_nat_diff)
  moreover have "unat (of_nat (l - f) :: u32) = l - f" by (rule unat_of_nat_eq) (use big in simp)
  ultimately have r: "f + unat r < l" using assms(1,4,8) by (auto simp: max_def split: if_splits)
  have "unat (of_nat f :: u32) = f" by (rule unat_of_nat_eq) (use big assms(1) in simp)
  then have "unat (of_nat f + r) = f + unat r" using r big by (subst unat_add_small) simp_all
  then have s: "unat (word_of_int (int f) + r) = f + unat r" by simp
  then have "word_of_int (int f) + r \<le> a" using r assms(2) n by (simp add: word_le_nat_alt)
  then have "unat (a - (word_of_int (int f) + r)) = unat a - (f + unat r)" using s by (simp add: unat_sub)
  with s r n assms(2,5) show ?thesis
    by (intro exI [of _ "f + unat r"]) (auto simp: splice_at_def block_at_def)
qed

definition splice_ok :: "nat \<Rightarrow> (bytes \<times> nat) option \<Rightarrow> bool" where
  "splice_ok k res \<longleftrightarrow> (\<forall>in_buf left. res = Some (in_buf, left) \<longrightarrow> left < k \<and> 4 \<le> length in_buf \<and> length in_buf \<le> unat MAX_FILE)"

lemma splice_ok_Suc: "splice_ok k res \<Longrightarrow> splice_ok (Suc k) res"
  by (auto simp: splice_ok_def)

lemma draw_spliceable:
  fixes s :: "'a afl_havoc_scheme"
  assumes "spliceable cur orig_in s"
  shows "hv_safe (\<lambda>r t. spliceable cur orig_in t \<and> unat r < max 1 (unat limit)) (hv_below s limit)"
  unfolding hv_safe_def hv_draw_def
proof (intro conjI allI impI)
  fix r and t :: "'a afl_havoc_scheme"
  assume "map_option Inr (rand_below s limit) = Some (Inr (r, t))"
  then have draw: "rand_below s limit = Some (r, t)" by auto
  show "unat r < max 1 (unat limit)"
    using afl_rng.rb_bound [OF draw] by (auto simp: word_less_nat_alt word_le_nat_alt split: if_splits)
  have "hv_state t" using hv_state_rand [OF afl_rng.rb_rest [OF draw]] assms by (simp add: spliceable_def)
  moreover have "queue_buf t = queue_buf s" by (rule rand_below_tc(1) [OF draw])
  ultimately show "spliceable cur orig_in t" by (intro spliceable_lens [OF assms]) simp_all
qed simp

lemma diffs_safe:
  assumes "unat n \<le> length p1" and "unat n \<le> length p2" and "unat n \<le> unat MAX_FILE"
    and "\<And>f l. f < 0 \<or> (\<exists>i j. f = int i \<and> l = int j \<and> i \<le> j \<and> j < unat n) \<Longrightarrow> hv_safe Q (g (f, l) s)"
  shows "hv_safe Q (hv_bind (hv_lift (locate_diffs p1 p2 n) s) g)"
proof -
  have "unat n \<le> 2 ^ 31" using assms(3) by simp
  note diffs = locate_diffs_first_last [OF assms(1,2) this]
  then obtain f l where "locate_diffs p1 p2 n = Inr (f, l)" "f < 0 \<or> (\<exists>i j. f = int i \<and> l = int j \<and> i \<le> j \<and> j < unat n)"
    by (force split: if_splits)
  then show ?thesis by (intro hv_safe_lift_bind) (auto intro: assms(4))
qed

lemma hv_state_splicing [simp]: "hv_state (s\<lparr>splicing_with := x\<rparr>) = hv_state s"
  by (simp add: hv_state_def user_tokens_def auto_tokens_def tc_wf_def)

lemma splice_point_safe:
  fixes s :: "'a afl_havoc_scheme"
  assumes s: "spliceable cur orig_in s" and a: "length new_buf = unat a" "4 \<le> a" "a \<le> MAX_FILE"
    and again: "\<And>t :: 'a afl_havoc_scheme. spliceable cur orig_in t \<Longrightarrow> hv_safe (\<lambda>res u. spliceable cur orig_in u \<and> splice_ok k res) (find_splice k cur orig_in t)"
  shows "hv_safe (\<lambda>res u. spliceable cur orig_in u \<and> splice_ok (Suc k) res)
    (hv_bind (hv_lift (locate_diffs orig_in new_buf (min (of_nat (length orig_in)) a)) s) (\<lambda>(f_diff, l_diff) afl.
       if f_diff < 0 \<or> l_diff < 2 \<or> f_diff = l_diff then find_splice k cur orig_in afl
       else
         hv_bind (hv_below afl (word_of_int (l_diff - f_diff))) (\<lambda>r afl.
         hv_bind (hv_lift (splice_at (word_of_int f_diff + r) orig_in new_buf a) afl) (\<lambda>in_buf.
         hv_ok (Some (in_buf, k))))))"
proof -
  have big: "length orig_in \<le> unat MAX_FILE"
    using s by (auto simp: spliceable_def list_all_length word_le_nat_alt)
  then have len: "unat (of_nat (length orig_in) :: u32) = length orig_in" by (intro unat_of_nat_eq) simp
  have found: "hv_safe (\<lambda>res u. spliceable cur orig_in u \<and> splice_ok (Suc k) res)
      (hv_bind (hv_below s (word_of_int (int l - int f))) (\<lambda>r afl.
       hv_bind (hv_lift (splice_at (word_of_int (int f) + r) orig_in new_buf a) afl) (\<lambda>in_buf. hv_ok (Some (in_buf, k)))))"
    if fl: "f \<le> l" "l < unat (min (of_nat (length orig_in)) a)" "f \<noteq> l" for f l
  proof (rule hv_safe_bind [where P = "\<lambda>r t. spliceable cur orig_in t \<and> unat r < max 1 (unat (word_of_int (int l - int f) :: u32))"])
    show "hv_safe (\<lambda>r t. spliceable cur orig_in t \<and> unat r < max 1 (unat (word_of_int (int l - int f) :: u32)))
        (hv_below s (word_of_int (int l - int f)))"
      by (rule draw_spliceable [OF s])
    fix r :: u32 and t :: "'a afl_havoc_scheme"
    assume t: "spliceable cur orig_in t \<and> unat r < max 1 (unat (word_of_int (int l - int f) :: u32))"
    obtain m where "splice_at (word_of_int (int f) + r) orig_in new_buf a = Inr (take m orig_in @ take (unat a - m) new_buf)"
        "f \<le> m" "m < l" "l < length orig_in" "l < unat a"
      using splice_at_found [OF fl(1,2) min.commute fl(3) a(1,3) big, of r] t by blast
    then obtain out where "splice_at (word_of_int (int f) + r) orig_in new_buf a = Inr out" "length out = unat a"
      using a(1) by auto
    then show "hv_safe (\<lambda>res u. spliceable cur orig_in u \<and> splice_ok (Suc k) res)
        (hv_bind (hv_lift (splice_at (word_of_int (int f) + r) orig_in new_buf a) t) (\<lambda>in_buf. hv_ok (Some (in_buf, k))))"
      using t a(2,3) by (intro hv_safe_lift_bind hv_safe_ok) (auto simp: splice_ok_def word_le_nat_alt)
  qed
  show ?thesis
  proof (rule diffs_safe)
    fix f l
    assume d: "f < 0 \<or> (\<exists>i j. f = int i \<and> l = int j \<and> i \<le> j \<and> j < unat (min (of_nat (length orig_in)) a))"
    have "hv_safe (\<lambda>res u. spliceable cur orig_in u \<and> splice_ok (Suc k) res) (find_splice k cur orig_in s)"
      using again [OF s] by (rule hv_safe_weaken) (simp add: splice_ok_Suc)
    then show "hv_safe (\<lambda>res u. spliceable cur orig_in u \<and> splice_ok (Suc k) res)
        ((case (f, l) of (f_diff, l_diff) \<Rightarrow> \<lambda>afl. if f_diff < 0 \<or> l_diff < 2 \<or> f_diff = l_diff then find_splice k cur orig_in afl
          else hv_bind (hv_below afl (word_of_int (l_diff - f_diff))) (\<lambda>r afl.
            hv_bind (hv_lift (splice_at (word_of_int f_diff + r) orig_in new_buf a) afl) (\<lambda>in_buf. hv_ok (Some (in_buf, k))))) s)"
      using d found by auto
  qed (use a big len in \<open>auto simp: min_def word_le_nat_alt\<close>)
qed

lemma find_splice_keeps:
  fixes afl :: "'a afl_havoc_scheme"
  shows "spliceable cur orig_in afl \<Longrightarrow> hv_safe (\<lambda>res s. spliceable cur orig_in s \<and> splice_ok k res) (find_splice k cur orig_in afl)"
proof (induction k arbitrary: afl)
  case 0
  then show ?case by (simp add: hv_safe_ok splice_ok_def)
next
  case (Suc k)
  let ?Q = "\<lambda>res s. spliceable cur orig_in s \<and> splice_ok (Suc k) res"
  have st: "hv_state afl" and cur: "cur < length (queue_buf afl)" and n: "len (queue_buf afl ! cur) = of_nat (length orig_in)"
    using Suc.prems by (auto simp: spliceable_def)
  have load: "hv_safe ?Q (hv_bind (queue_testcase_get (s\<lparr>splicing_with := sint (of_nat tid :: u32)\<rparr>) tid) (\<lambda>new_buf t.
      hv_bind (hv_lift (locate_diffs orig_in new_buf (min (of_nat (length orig_in)) (len (queue_buf s ! tid)))) t) (\<lambda>(f_diff, l_diff) afl.
       if f_diff < 0 \<or> l_diff < 2 \<or> f_diff = l_diff then find_splice k cur orig_in afl
       else
         hv_bind (hv_below afl (word_of_int (l_diff - f_diff))) (\<lambda>r afl.
         hv_bind (hv_lift (splice_at (word_of_int f_diff + r) orig_in new_buf (len (queue_buf s ! tid))) afl) (\<lambda>in_buf.
         hv_ok (Some (in_buf, k)))))))"
    if s: "hv_state s" "queue_buf s = queue_buf afl" "tid < length (queue_buf s)" "4 \<le> len (queue_buf s ! tid)"
    for s :: "'a afl_havoc_scheme" and tid
  proof -
    let ?s = "s\<lparr>splicing_with := sint (of_nat tid :: u32)\<rparr>"
    have "len (queue_buf s ! tid) \<le> MAX_FILE" using s(2,3) Suc.prems by (simp add: spliceable_def list_all_length)
    moreover have "hv_state ?s" using s(1) by simp
    ultimately show ?thesis
      using s(2-4) Suc.IH by (intro hv_safe_bind [OF testcase_safe [of ?s tid]] splice_point_safe spliceable_lens [OF Suc.prems]) simp_all
  qed
  show ?case
    unfolding find_splice.simps
    by (rule hv_safe_lift_bind [OF get_q_eq [OF cur]], unfold n, rule hv_safe_if, rule hv_safe_pick [OF st],
        rule hv_safe_lift_bind [OF get_q_eq], assumption, rule load)
      (use Suc.prems in \<open>auto simp: splice_ok_def intro: hv_safe_ok\<close>)
qed

text \<open>What a test case is: its bytes in the cache, or in its file. Looking for a splice makes no new content.\<close>

definition stored :: "'a afl_tc_scheme \<Rightarrow> qid \<Rightarrow> bytes \<Rightarrow> bool" where
  "stored afl q b \<longleftrightarrow> testcase_buf (queue_buf afl ! q) = Some b
     \<or> load_file afl (fname (queue_buf afl ! q)) (len (queue_buf afl ! q)) = Inr b"

definition nothing_new :: "'a afl_save_scheme \<Rightarrow> 'a afl_save_scheme \<Rightarrow> bool" where
  "nothing_new s s' \<longleftrightarrow> length (queue_buf s') = length (queue_buf s) \<and> current_entry s' = current_entry s
     \<and> (\<forall>q < length (queue_buf s). \<forall>b. stored s' q b \<longrightarrow> stored s q b)"

lemma nothing_new_trans: "nothing_new a b \<Longrightarrow> nothing_new b c \<Longrightarrow> nothing_new a c"
  by (simp add: nothing_new_def)

lemma nothing_new_rand:
  fixes a b :: "'a afl_save_scheme"
  assumes "afl_rand.more b = afl_rand.more a"
  shows "nothing_new a b"
proof -
  have "queue_buf b = queue_buf a" "fs b = fs a" "fs_deny b = fs_deny a" "current_entry b = current_entry a"
    using assms by (cases a; cases b; simp)+
  then show ?thesis by (simp add: nothing_new_def stored_def load_file_def read_file_def)
qed

lemma testcase_get_cases:
  fixes s :: "'a afl_save_scheme"
  assumes get: "queue_testcase_get s q = Some (Inr (b, s'))" and wf: "tc_wf s"
  obtains (same) "s' = s" "stored s q b" "q < length (queue_buf s)"
  | (loaded) t i where "only_evicts s t" "tc_rest s t" "load_file t (fname (queue_buf s ! q)) (len (queue_buf s ! q)) = Inr b"
      "s' = register_testcase q i b (len (queue_buf s ! q)) t" "q < length (queue_buf s)"
proof -
  let ?e = "queue_buf s ! q"
  have q: "q < length (queue_buf s)" using get by (auto simp: queue_testcase_get_def get_q_def split: if_splits)
  consider (off) "q_testcase_max_cache_size s = 0" | (hit) b where "q_testcase_max_cache_size s \<noteq> 0" "testcase_buf ?e = Some b"
    | (miss) "q_testcase_max_cache_size s \<noteq> 0" "testcase_buf ?e = None" by (cases "testcase_buf ?e") auto
  then show thesis
  proof cases
    case off
    then show thesis using get q by (intro same) (auto simp: queue_testcase_get_def get_q_def bind_result_Inr_iff stored_def)
  next
    case hit
    then show thesis using get q by (intro same) (simp_all add: queue_testcase_get_def get_q_def stored_def)
  next
    case miss
    from get q miss obtain tid t where room: "make_room (len ?e) (unat (q_testcase_max_cache_count s)) s = Some (Inr (tid, t))"
      and load: "cache_load q ?e tid t = Inr (b, s')"
      by (auto simp: queue_testcase_get_def get_q_def split: option.splits sum.splits)
    have "only_evicts s t" using make_room_ok [OF room] wf unfolding room_ok_def by (auto simp: free_or_next_def)
    moreover have "tc_rest s t" using make_room_rest [OF room] by blast
    ultimately show thesis using load q that(2) by (auto simp: cache_load_def Let_def bind_result_Inr_iff)
  qed
qed

lemma testcase_stored:
  fixes s :: "'a afl_save_scheme"
  assumes "queue_testcase_get s q = Some (Inr (b, s'))" and "tc_wf s"
  shows "stored s q b \<and> nothing_new s s'"
  using assms
proof (cases rule: testcase_get_cases)
  case same
  then show ?thesis by (simp add: nothing_new_def)
next
  case (loaded t i)
  note ev = loaded(1) and s' = loaded(4)
  have ce: "current_entry t = current_entry s" using loaded(2) by (cases s; cases t; simp add: tc_rest_def)
  have "tc_rest t s'" unfolding s' by (rule tc_rest_steps(4))
  then have ce': "current_entry s' = current_entry t" by (cases s'; cases t; simp add: tc_rest_def)
  have disk: "load_file t fn n = load_file s fn n" "load_file s' fn n = load_file t fn n" for fn n
    using ev by (simp_all add: load_file_def read_file_def only_evicts_def s' register_testcase_def Let_def upd_q_def)
  have qb: "queue_buf s' = (queue_buf t)[q := (queue_buf t ! q)\<lparr>testcase_buf := Some b\<rparr>]"
    by (simp add: s' register_testcase_fields)
  have b: "stored s q b" using loaded(3) by (simp add: stored_def disk)
  have "stored s d c" if "stored s' d c" "d < length (queue_buf s)" for d c
  proof -
    have "queue_buf t ! d = queue_buf s ! d \<or> queue_buf t ! d = (queue_buf s ! d)\<lparr>testcase_buf := None\<rparr>"
      using ev that(2) unfolding only_evicts_def kept_or_dropped_def by blast
    then show ?thesis
      using that(1) b unfolding stored_def disk qb
      by (cases "d = q"; cases "q < length (queue_buf t)") (auto simp: list_update_beyond)
  qed
  then show ?thesis using b ce ce' ev by (simp add: nothing_new_def only_evicts_def s' register_testcase_fields)
qed

text \<open>Of the entry itself and of the rest of the state nothing changes but the cached bytes.\<close>

lemma testcase_get_entry:
  fixes s :: "'a afl_save_scheme"
  assumes "queue_testcase_get s q = Some (Inr (b, s'))" and "tc_wf s"
  shows "q < length (queue_buf s') \<and> tc_rest s s' \<and> (\<exists>t. queue_buf s' ! q = (queue_buf s ! q)\<lparr>testcase_buf := t\<rparr>)"
  using assms
proof (cases rule: testcase_get_cases)
  case same
  then show ?thesis by (auto simp: tc_rest_def intro!: exI [of _ "testcase_buf (queue_buf s ! q)"])
next
  case (loaded t i)
  have "queue_buf t ! q = queue_buf s ! q \<or> queue_buf t ! q = (queue_buf s ! q)\<lparr>testcase_buf := None\<rparr>"
    using loaded(1,5) unfolding only_evicts_def kept_or_dropped_def by blast
  moreover have "length (queue_buf t) = length (queue_buf s)" using loaded(1) by (simp add: only_evicts_def)
  moreover have "tc_rest s s'" unfolding loaded(4) by (rule tc_rest_trans [OF loaded(2) tc_rest_steps(4)])
  ultimately show ?thesis using loaded(5) by (auto simp: loaded(4) register_testcase_fields)
qed

lemma pick_splice_other:
  "pick_splice afl = Some r \<Longrightarrow> \<forall>tid s. r = Inr (tid, s) \<longrightarrow> tid \<noteq> unat (current_entry afl) \<and> afl_rand.more s = afl_rand.more afl"
proof (rule pick_splice.raw_induct
    [where P = "\<lambda>afl r. \<forall>tid s. r = Inr (tid, s) \<longrightarrow> tid \<noteq> unat (current_entry afl) \<and> afl_rand.more s = afl_rand.more afl"])
  fix f and afl :: "'a afl_save_scheme" and r
  assume IH: "\<And>s r. f s = Some r \<Longrightarrow>
      \<forall>tid s'. r = Inr (tid, s') \<longrightarrow> tid \<noteq> unat (current_entry s) \<and> afl_rand.more s' = afl_rand.more s"
    and eq: "(case rand_below afl (queued_items afl) of None \<Rightarrow> None
        | Some (tid, afl) \<Rightarrow> if tid = current_entry afl then f afl
            else (case get_q afl (unat tid) of Inl err \<Rightarrow> Some (Inl err)
                  | Inr e \<Rightarrow> if len e < 4 then f afl else Some (Inr (unat tid, afl)))) = Some r"
  obtain x s where draw: "rand_below afl (queued_items afl) = Some (x, s)" using eq by (auto split: option.splits)
  have more: "afl_rand.more s = afl_rand.more afl" by (rule afl_rng.rb_rest [OF draw])
  then have cur: "current_entry s = current_entry afl" by (cases s; cases afl; simp)
  have "f s = Some r \<or> (\<exists>err. r = Inl err) \<or> x \<noteq> current_entry s \<and> r = Inr (unat x, s)"
    using eq draw by (simp split: if_splits sum.splits) blast+
  then show "\<forall>tid s'. r = Inr (tid, s') \<longrightarrow> tid \<noteq> unat (current_entry afl) \<and> afl_rand.more s' = afl_rand.more afl"
  proof (elim disjE exE conjE)
    assume "f s = Some r"
    from IH [OF this] show ?thesis unfolding more cur .
  next
    assume "x \<noteq> current_entry s" "r = Inr (unat x, s)"
    then show ?thesis using more cur by (simp add: word_unat_eq_iff)
  qed simp
qed

text \<open>
  \<open>in_buf\<close> is \<open>orig_in\<close> up to a split point, and from there the beginning of another test case of the same length as \<open>in_buf\<close>; the two test
  cases differ at or before the split and behind it.
\<close>

definition spliced :: "'a afl_save_scheme \<Rightarrow> bytes \<Rightarrow> bytes \<Rightarrow> bool" where
  "spliced afl orig_in in_buf \<longleftrightarrow> (\<exists>tid < length (queue_buf afl). \<exists>new_buf f m l.
     tid \<noteq> unat (current_entry afl) \<and> stored afl tid new_buf \<and> length new_buf = length in_buf
     \<and> in_buf = take m orig_in @ take (length in_buf - m) new_buf
     \<and> f \<le> m \<and> m < l \<and> l < length orig_in \<and> l < length new_buf
     \<and> orig_in ! f \<noteq> new_buf ! f \<and> orig_in ! l \<noteq> new_buf ! l
     \<and> (\<forall>i < min (length orig_in) (length new_buf). i < f \<or> l < i \<longrightarrow> orig_in ! i = new_buf ! i))"

lemma spliced_earlier:
  assumes "nothing_new afl s" and "spliced s orig_in in_buf"
  shows "spliced afl orig_in in_buf"
proof -
  from assms(2) obtain tid new_buf f m l where t: "tid < length (queue_buf s)" "tid \<noteq> unat (current_entry s)" "stored s tid new_buf"
    and rest: "length new_buf = length in_buf \<and> in_buf = take m orig_in @ take (length in_buf - m) new_buf
     \<and> f \<le> m \<and> m < l \<and> l < length orig_in \<and> l < length new_buf
     \<and> orig_in ! f \<noteq> new_buf ! f \<and> orig_in ! l \<noteq> new_buf ! l
     \<and> (\<forall>i < min (length orig_in) (length new_buf). i < f \<or> l < i \<longrightarrow> orig_in ! i = new_buf ! i)"
    unfolding spliced_def by blast
  have "tid < length (queue_buf afl)" "tid \<noteq> unat (current_entry afl)" "stored afl tid new_buf"
    using assms(1) t by (simp_all add: nothing_new_def)
  with rest show ?thesis unfolding spliced_def by blast
qed

lemma hv_bind_Inr: "hv_bind x f = Some (Inr y) \<longleftrightarrow> (\<exists>a s. x = Some (Inr (a, s)) \<and> f a s = Some (Inr y))"
  by (auto simp: hv_bind_def split: option.splits sum.splits)

lemma hv_lift_Inr: "hv_lift x s = Some (Inr (a, t)) \<longleftrightarrow> x = Inr a \<and> t = s"
  by (auto simp: hv_lift_def split: sum.splits)

lemma splice_point_content:
  fixes s t :: "'a afl_havoc_scheme"
  assumes s: "spliceable cur orig_in s" and a: "length new_buf = unat a" "a \<le> MAX_FILE"
    and diffs: "locate_diffs orig_in new_buf (min (of_nat (length orig_in)) a) = Inr (fd, ld)" "\<not> (fd < 0 \<or> ld < 2 \<or> fd = ld)"
    and draw: "hv_below s (word_of_int (ld - fd)) = Some (Inr (r, t))"
    and out: "splice_at (word_of_int fd + r) orig_in new_buf a = Inr in_buf"
    and tid: "tid < length (queue_buf afl)" "tid \<noteq> unat (current_entry afl)" "stored afl tid new_buf"
  shows "spliced afl orig_in in_buf"
proof -
  let ?n = "min (of_nat (length orig_in)) a :: u32"
  have big: "length orig_in \<le> unat MAX_FILE"
    using s by (auto simp: spliceable_def list_all_length word_le_nat_alt)
  then have "unat (of_nat (length orig_in) :: u32) = length orig_in" by (intro unat_of_nat_eq) simp
  then have n: "unat ?n = min (length orig_in) (length new_buf)" using a(1) by (simp add: min_def word_le_nat_alt)
  have le: "unat ?n \<le> length orig_in" "unat ?n \<le> length new_buf" "unat ?n \<le> 2 ^ 31"
    using n big by auto
  from locate_diffs_first_last [OF le] diffs obtain f l where fl: "fd = int f" "ld = int l" "f \<le> l" "l < unat ?n"
      "orig_in ! f \<noteq> new_buf ! f" "orig_in ! l \<noteq> new_buf ! l" "\<forall>i < unat ?n. i < f \<or> l < i \<longrightarrow> orig_in ! i = new_buf ! i"
    by (auto split: if_splits)
  have r: "unat r < max 1 (unat (word_of_int (int l - int f) :: u32))"
    using draw_spliceable [OF s, of "word_of_int (ld - fd)"] draw fl(1,2) by (simp add: hv_safe_def)
  have "f \<noteq> l" using diffs(2) fl(1,2) by simp
  from splice_at_found [OF fl(3,4) min.commute this a big r] obtain m where
    m: "in_buf = take m orig_in @ take (unat a - m) new_buf" "f \<le> m" "m < l" "l < length orig_in" "l < unat a"
    using out unfolding fl(1) by auto
  then have "length in_buf = length new_buf" using a(1) by simp
  with m fl tid a(1) n show ?thesis unfolding spliced_def by metis
qed

lemma find_splice_content:
  fixes afl :: "'a afl_havoc_scheme"
  shows "spliceable cur orig_in afl \<Longrightarrow> find_splice k cur orig_in afl = Some (Inr (Some (in_buf, left), afl')) \<Longrightarrow> spliced afl orig_in in_buf"
proof (induction k arbitrary: afl)
  case 0
  then show ?case by (simp add: hv_ok_def)
next
  case (Suc k)
  have st: "hv_state afl" and n: "len (queue_buf afl ! cur) = of_nat (length orig_in)"
    using Suc.prems(1) by (auto simp: spliceable_def)
  from Suc.prems obtain tid s1 where pick: "pick_splice afl = Some (Inr (tid, s1))" and
    rest: "hv_bind (hv_lift (get_q s1 tid) s1) (\<lambda>target afl.
       hv_bind (queue_testcase_get (afl\<lparr>splicing_with := sint (of_nat tid :: u32)\<rparr>) tid) (\<lambda>new_buf afl.
       hv_bind (hv_lift (locate_diffs orig_in new_buf (min (of_nat (length orig_in)) (len target))) afl) (\<lambda>(f_diff, l_diff) afl.
       if f_diff < 0 \<or> l_diff < 2 \<or> f_diff = l_diff then find_splice k cur orig_in afl
       else
         hv_bind (hv_below afl (word_of_int (l_diff - f_diff))) (\<lambda>r afl.
         hv_bind (hv_lift (splice_at (word_of_int f_diff + r) orig_in new_buf (len target)) afl) (\<lambda>in_buf.
         hv_ok (Some (in_buf, k))))))) = Some (Inr (Some (in_buf, left), afl'))"
    unfolding find_splice.simps hv_bind_Inr hv_lift_Inr
    by (auto simp: get_q_def n hv_ok_def hv_bind_Inr hv_lift_Inr split: if_splits)
  have other: "tid \<noteq> unat (current_entry afl)" and more: "afl_rand.more s1 = afl_rand.more afl"
    using pick_splice_other [OF pick] by blast+
  have s1: "queue_buf s1 = queue_buf afl" using more by (cases s1; cases afl; simp)
  let ?s2 = "s1\<lparr>splicing_with := sint (of_nat tid :: u32)\<rparr>" and ?a = "len (queue_buf afl ! tid)"
  have st2: "hv_state ?s2" using st hv_state_rand [OF more] by simp
  have new2: "nothing_new afl ?s2"
    by (rule nothing_new_trans [OF nothing_new_rand [OF more]]) (simp add: nothing_new_def stored_def load_file_def read_file_def)
  from rest obtain new_buf s3 fd ld where tid: "tid < length (queue_buf afl)"
    and get: "queue_testcase_get ?s2 tid = Some (Inr (new_buf, s3))"
    and diffs: "locate_diffs orig_in new_buf (min (of_nat (length orig_in)) ?a) = Inr (fd, ld)"
    and fin: "(if fd < 0 \<or> ld < 2 \<or> fd = ld then find_splice k cur orig_in s3
       else hv_bind (hv_below s3 (word_of_int (ld - fd))) (\<lambda>r afl.
         hv_bind (hv_lift (splice_at (word_of_int fd + r) orig_in new_buf ?a) afl) (\<lambda>in_buf.
         hv_ok (Some (in_buf, k))))) = Some (Inr (Some (in_buf, left), afl'))"
    by (auto simp: hv_bind_Inr hv_lift_Inr get_q_def s1 split: if_splits)
  have "tc_wf ?s2" using st2 by (simp add: hv_state_def)
  from testcase_stored [OF get this] have b: "stored ?s2 tid new_buf" "nothing_new ?s2 s3" by blast+
  have safe: "hv_state s3" "length new_buf = unat ?a" "map len (queue_buf s3) = map len (queue_buf afl)"
    using testcase_safe [OF st2, of tid] get tid by (simp_all add: hv_safe_def s1)
  have s3: "spliceable cur orig_in s3" by (rule spliceable_lens [OF Suc.prems(1) safe(1,3)])
  have new3: "nothing_new afl s3" by (rule nothing_new_trans [OF new2 b(2)])
  have st_b: "stored afl tid new_buf" using new2 b(1) tid by (simp add: nothing_new_def)
  show ?case
  proof (cases "fd < 0 \<or> ld < 2 \<or> fd = ld")
    case True
    then have "find_splice k cur orig_in s3 = Some (Inr (Some (in_buf, left), afl'))" using fin by simp
    from spliced_earlier [OF new3 Suc.IH [OF s3 this]] show ?thesis .
  next
    case False
    then obtain r t where draw: "hv_below s3 (word_of_int (ld - fd)) = Some (Inr (r, t))"
      and out: "splice_at (word_of_int fd + r) orig_in new_buf ?a = Inr in_buf"
      using fin by (auto simp: hv_bind_Inr hv_lift_Inr hv_ok_def)
    have "?a \<le> MAX_FILE" using tid Suc.prems(1) by (simp add: spliceable_def list_all_length)
    from splice_point_content [OF s3 safe(2) this diffs False draw out tid other st_b] show ?thesis .
  qed
qed

text \<open>(C22)
  The search for a splice is safe and builds what it should: with cache and tokens in order and no test case above \<open>MAX_FILE\<close>, it makes no
  bad access in up to \<open>k\<close> tries. A splice it finds uses up at least one try, has 4 to \<open>MAX_FILE\<close> bytes, and consists of the current input
  up to a split point and of the beginning of the test case of another queue entry (from memory or from its file), which is as long as the splice;
  the split is not before the first and is before the last byte in which the two test cases differ.
\<close>

theorem find_splice_safe:
  assumes "spliceable cur orig_in afl" and "find_splice k cur orig_in afl = Some r"
  shows "(\<exists>m. r = Inl (Fatal m)) \<or> (\<exists>res afl'. r = Inr (res, afl') \<and> spliceable cur orig_in afl'
    \<and> (\<forall>in_buf left. res = Some (in_buf, left) \<longrightarrow> left < k \<and> 4 \<le> length in_buf \<and> length in_buf \<le> unat MAX_FILE
         \<and> spliced afl orig_in in_buf))"
  using find_splice_keeps [OF assms(1), of k] find_splice_content [OF assms(1), of k] assms(2)
  by (cases r) (auto simp: hv_safe_def splice_ok_def)

definition splice_demo :: afl_havoc where
  "splice_demo = hv_demo\<lparr>queue_buf := [zero_entry\<lparr>len := 4, testcase_buf := Some [5, 6, 7, 8]\<rparr>, zero_entry\<lparr>len := 4, id_q := 1\<rparr>],
     q_testcase_cache_size := 4, q_testcase_max_cache_size := 100, ready_for_splicing_count := 2, current_entry := 1, use_splicing := True\<rparr>"

lemma splice_demo_fields:
  "queue_buf splice_demo = [zero_entry\<lparr>len := 4, testcase_buf := Some [5, 6, 7, 8]\<rparr>, zero_entry\<lparr>len := 4, id_q := 1\<rparr>]"
  "q_testcase_cache_size splice_demo = 4" "q_testcase_max_cache_size splice_demo = 100" "ready_for_splicing_count splice_demo = 2"
  "current_entry splice_demo = 1" "use_splicing splice_demo" "rand_seed splice_demo = (0, 0, 0)" "fixed_seed splice_demo"
  "queued_items splice_demo = 2" "q_testcase_cache splice_demo = [Some 0, None, None, None]" "q_testcase_max_cache_entries splice_demo = 4"
  "q_testcase_max_cache_count splice_demo = 1" "q_testcase_cache_count splice_demo = 1" "q_testcase_smallest_free splice_demo = 0"
  "extras splice_demo = []" "a_extras_cnt splice_demo = 0"
  by (simp_all add: splice_demo_def hv_demo_fields)

lemma splice_demo_ready: "spliceable 1 [5, 2, 3, 4] splice_demo"
  by (simp add: spliceable_def hv_state_def splice_demo_fields user_tokens_def auto_tokens_def tokens_hold_def tc_wf_def zero_entry_def
      slot_len_def less_Suc_eq nth_Cons' split: if_splits)

lemma splice_demo_pick: "pick_splice splice_demo = Some (Inr (0, splice_demo\<lparr>rand_cnt := rand_cnt splice_demo - 1, rand_seed := (0, 0, 0)\<rparr>))"
proof -
  have "0 < rand_bound 2" by (simp add: rand_bound_def word_less_nat_alt)
  then have "rand_below splice_demo 2 = Some (0, splice_demo\<lparr>rand_cnt := rand_cnt splice_demo - 1, rand_seed := (0, 0, 0)\<rparr>)"
    by (intro rand_zero) (simp_all add: splice_demo_fields word_less_nat_alt)
  then show ?thesis by (subst pick_splice.simps) (simp add: splice_demo_fields get_q_def zero_entry_def word_less_nat_alt)
qed

lemma splice_demo_diffs: "locate_diffs [5, 2, 3, 4] [5, 6, 7, 8] 4 = Inr (1, 3)"
proof -
  have "unat (4 :: u32) = Suc (Suc (Suc (Suc 0)))" by simp
  then show ?thesis unfolding locate_diffs_def by (simp only: locate_diffs_loop.simps) simp
qed

theorem find_splice_safe_witness:
  "\<exists>afl'. find_splice 1 1 [5, 2, 3, 4] splice_demo = Some (Inr (Some ([5, 5, 6, 7], 0), afl')) \<and> hv_state afl'
     \<and> spliced splice_demo [5, 2, 3, 4] [5, 5, 6, 7]"
proof -
  have "0 < rand_bound 2" by (simp add: rand_bound_def word_less_nat_alt)
  then obtain afl' where run: "find_splice 1 1 [5, 2, 3, 4] splice_demo = Some (Inr (Some ([5, 5, 6, 7], 0), afl'))"
    by (simp add: splice_demo_pick splice_demo_fields hv_bind_def hv_draw_def hv_lift_def hv_ok_def get_q_def zero_entry_def queue_testcase_get_def
        splice_demo_diffs rand_zero splice_at_def block_at_def)
  with find_splice_safe [OF splice_demo_ready run] show ?thesis by (simp add: spliceable_def)
qed

end
