(* ===== verification/Afl_One.thy ===== *)
theory Afl_One
  imports Afl_Mangle
begin

unbundle bit_operations_syntax

text \<open>
  \<open>fuzz_one_original\<close> of \<open>src/afl-fuzz-one.c\<close> as a whole, for sessions without custom mutators: loading, calibrating and
  trimming the current entry, its score, the deterministic and the random stages, and the bookkeeping at the end. The CmpLog stage
  \<open>input_to_state_stage\<close> of \<open>src/afl-fuzz-redqueen.c\<close> is an argument.
\<close>

record afl_fuzz = afl_havoc +
  skip_deterministic :: bool
  disable_trim :: bool
  main_node_id :: u32
  main_node_max :: u32
  cmplog_lvl :: u32
  cmplog_max_filesize :: u32

abbreviation CAL_CHANCES :: u8 where "CAL_CHANCES \<equiv> 3"
abbreviation CMPLOG_LVL_MAX :: u8 where "CMPLOG_LVL_MAX \<equiv> 3"

text \<open>\<open>in_buf\<close> is the entry's cached test case when there is a cache.\<close>

abbreviation in_cache :: "'a afl_tc_scheme \<Rightarrow> bool" where
  "in_cache afl \<equiv> q_testcase_max_cache_size afl \<noteq> 0"

type_synonym 's its_stage = "'s \<Rightarrow> bytes \<Rightarrow> bytes \<Rightarrow> u32 \<Rightarrow> (bool \<times> bytes \<times> 's) result option"

section \<open>Preparing the entry\<close>

text \<open>A step that may abandon the entry says so by \<open>True\<close>.\<close>

definition skip_item :: "'a afl_fuzz_scheme \<Rightarrow> (bool, 'a afl_fuzz_scheme) hv_out" where
  "skip_item afl = hv_ok True (afl\<lparr>cur_skipped_items := cur_skipped_items afl + 1\<rparr>)"

text \<open>Calibration, when it failed before.\<close>

definition retry_calibration ::
  "'a afl_fuzz_scheme world \<Rightarrow> qid \<Rightarrow> bytes \<Rightarrow> 'a afl_fuzz_scheme \<Rightarrow> (bool, 'a afl_fuzz_scheme) hv_out" where
  "retry_calibration w cur in_buf afl =
     hv_bind (hv_lift (get_q afl cur) afl) (\<lambda>e afl.
     if cal_failed e = 0 then hv_ok False afl
     else
       hv_bind (if cal_failed e < CAL_CHANCES
                then calibrate_case w (upd_q (\<lambda>e. e\<lparr>exec_cksum := 0\<rparr>) cur afl) cur in_buf (ucast (queue_cycle afl - 1)) False
                else hv_ok FSRV_RUN_TMOUT afl) (\<lambda>res afl.
       if cal_failed e < CAL_CHANCES \<and> res = FSRV_RUN_ERROR then Some (Inl (Fatal ''Unable to execute target application''))
       else if stop_soon afl \<or> res \<noteq> crash_mode afl then skip_item afl
       else hv_ok False afl))"

text \<open>Trimming, once for each entry; the new input is read again.\<close>

definition trim_entry ::
  "'a afl_fuzz_scheme world \<Rightarrow> qid \<Rightarrow> bytes \<Rightarrow> 'a afl_fuzz_scheme \<Rightarrow> (bool \<times> bytes, 'a afl_fuzz_scheme) hv_out" where
  "trim_entry w cur in_buf afl =
     hv_bind (hv_lift (get_q afl cur) afl) (\<lambda>e afl.
     if non_instrumented_mode afl \<or> trim_done e \<or> disable_trim afl then hv_ok (False, in_buf) afl
     else
       (case trim_case w (in_cache afl) afl cur in_buf of
          None \<Rightarrow> None
        | Some (Inl err) \<Rightarrow> Some (Inl err)
        | Some (Inr (res, _, afl)) \<Rightarrow>
            hv_bind (queue_testcase_get afl cur) (\<lambda>in_buf afl.
            if res = FSRV_RUN_ERROR then Some (Inl (Fatal ''Unable to execute target application''))
            else if stop_soon afl then hv_ok (True, in_buf) (afl\<lparr>cur_skipped_items := cur_skipped_items afl + 1\<rparr>)
            else
              let afl = upd_q (\<lambda>e. e\<lparr>trim_done := True\<rparr>) cur afl in
              hv_bind (hv_lift (get_q afl cur) afl) (\<lambda>e' afl.
              hv_ok (False, in_buf)
                (if len e' \<le> 4 \<and> len e > 4 then afl\<lparr>ready_for_splicing_count := ready_for_splicing_count afl - 1\<rparr> else afl)))))"

text \<open>The CmpLog stage, for entries it has not seen at this level.\<close>

definition cmplog_entry ::
  "'a afl_fuzz_scheme its_stage \<Rightarrow> 'a afl_fuzz_scheme world \<Rightarrow> qid \<Rightarrow> bytes \<Rightarrow> bytes \<Rightarrow> 'a afl_fuzz_scheme
     \<Rightarrow> (bool \<times> bytes, 'a afl_fuzz_scheme) hv_out" where
  "cmplog_entry its w cur in_buf out afl =
     hv_bind (hv_lift (get_q afl cur) afl) (\<lambda>e afl.
     if \<not> (cmplog_mode afl \<and> ucast (colorized e) < cmplog_lvl afl \<and> len e \<le> cmplog_max_filesize afl) then hv_ok (False, out) afl
     else if len e < 4 then hv_ok (False, out) (upd_q (\<lambda>e. e\<lparr>colorized := CMPLOG_LVL_MAX\<rparr>) cur afl)
     else if cmplog_lvl afl = 2 \<and> \<not> favored e \<and> tc_ref e = 0 \<and> queued_items afl = 0
     then Some (Inl (Not_finite ''modulo zero''))
     else
       let at_once = (favored e \<or> cmplog_lvl afl = 3
             \<or> cmplog_lvl afl = 2 \<and> (tc_ref e \<noteq> 0 \<or> total_execs afl mod ucast (queued_items afl) \<le> 10));
           (late, afl) = (if at_once then (False, afl)
             else case get_cur_time w afl of (now, afl) \<Rightarrow> (now - last_find_time afl > 250000, afl))
       in if at_once \<or> late
          then (case its afl in_buf out (len e) of
                  None \<Rightarrow> None
                | Some (Inl err) \<Rightarrow> Some (Inl err)
                | Some (Inr (stop, out, afl)) \<Rightarrow> hv_ok (stop, out) afl)
          else hv_ok (False, out) afl)"

text \<open>Whether the deterministic stages are done.\<close>

definition wants_det :: "u32 \<Rightarrow> queue_entry \<Rightarrow> 'a afl_fuzz_scheme \<Rightarrow> bool" where
  "wants_det perf e afl \<longleftrightarrow>
     \<not> skip_deterministic afl \<and> \<not> passed_det e
     \<and> \<not> ucast perf < (if depth e * 30 \<le> ucast (havoc_max_mult afl) * 100 then depth e * 30 else ucast (havoc_max_mult afl) * 100 :: u64)
     \<and> (main_node_max afl = 0 \<or> exec_cksum e mod ucast (main_node_max afl) = ucast (main_node_id afl - 1))"

section \<open>The end\<close>

text \<open>From \<open>abandon_entry\<close>.\<close>

definition finish_entry :: "qid \<Rightarrow> 'a afl_fuzz_scheme \<Rightarrow> 'a afl_fuzz_scheme" where
  "finish_entry cur afl =
     (let e = queue_buf afl ! cur; afl = afl\<lparr>splicing_with := - 1\<rparr>;
          afl = (if \<not> stop_soon afl \<and> cal_failed e = 0 \<and> \<not> was_fuzzed e \<and> \<not> disabled e
                 then (upd_q (\<lambda>e. e\<lparr>was_fuzzed := True\<rparr>) cur afl)
                        \<lparr>pending_not_fuzzed := pending_not_fuzzed afl - 1, reinit_table := True,
                         pending_favored := (if favored e then pending_favored afl - 1 else pending_favored afl)\<rparr>
                 else afl)
      in upd_q (\<lambda>e. e\<lparr>fuzz_level := fuzz_level e + 1\<rparr>) cur afl)"

definition fuzz_stages ::
  "auto_extra_data qsorter \<Rightarrow> 'a afl_fuzz_scheme its_stage \<Rightarrow> (real \<Rightarrow> real) \<Rightarrow> (real \<Rightarrow> real) \<Rightarrow> 'a afl_fuzz_scheme fuzzer \<Rightarrow> 'a afl_fuzz_scheme world
     \<Rightarrow> qid \<Rightarrow> bytes \<Rightarrow> 'a afl_fuzz_scheme \<Rightarrow> (u8, 'a afl_fuzz_scheme) hv_out" where
  "fuzz_stages qsort its rnd rndl cfs w cur in_buf afl =
     hv_bind (hv_lift (calculate_score rnd rndl afl cur) afl) (\<lambda>(perf, afl) _.
     let afl = upd_q (\<lambda>e. e\<lparr>perf_score := real (unat perf)\<rparr>) cur afl in
     if perf = 0 \<and> active_items afl > 1 then hv_ok 1 afl
     else
       hv_bind (cmplog_entry its w cur in_buf in_buf afl) (\<lambda>(stop, out) afl.
       if stop then hv_ok 1 afl
       else
         hv_bind (hv_lift (get_q afl cur) afl) (\<lambda>e afl.
         if wants_det perf e afl
         then (case det_stages qsort cfs w (len e) in_buf cur out afl of
                 None \<Rightarrow> None
               | Some (Inl err) \<Rightarrow> Some (Inl err)
               | Some (Inr (stop, v, afl)) \<Rightarrow>
                   if stop then hv_ok 1 afl
                   else random_stages cfs w cur True SPLICE_CYCLES perf in_buf in_buf (dv_out v) perf afl)
         else random_stages cfs w cur False SPLICE_CYCLES perf in_buf in_buf out perf afl)))"

definition fuzz_one_original ::
  "auto_extra_data qsorter \<Rightarrow> 'a afl_fuzz_scheme its_stage \<Rightarrow> (real \<Rightarrow> real) \<Rightarrow> (real \<Rightarrow> real) \<Rightarrow> 'a afl_fuzz_scheme world
     \<Rightarrow> 'a afl_fuzz_scheme \<Rightarrow> (u8, 'a afl_fuzz_scheme) hv_out" where
  "fuzz_one_original qsort its rnd rndl w afl =
     (case queue_cur afl of
        None \<Rightarrow> Some (Inl (Out_of_bounds ''queue_cur''))
      | Some cur \<Rightarrow>
          hv_bind (queue_testcase_get afl cur) (\<lambda>in_buf afl.
          hv_bind (hv_lift (get_q afl cur) afl) (\<lambda>e afl.
          hv_bind (retry_calibration w cur in_buf (afl\<lparr>subseq_tmouts := 0, cur_depth := ucast (depth e)\<rparr>)) (\<lambda>stop afl.
          hv_bind (if stop then hv_ok 1 afl
                   else hv_bind (trim_entry w cur in_buf afl) (\<lambda>(stop, in_buf) afl.
                        if stop then hv_ok 1 afl
                        else fuzz_stages qsort its rnd rndl (common_fuzz_stuff rnd w) w cur in_buf afl)) (\<lambda>ret afl.
          hv_ok ret (finish_entry cur afl))))))"

section \<open>Properties\<close>

text \<open>The two counters of pending entries, as \<open>cull_queue\<close> and \<open>add_to_queue\<close> leave them.\<close>

definition pending_agree :: "'a afl_queue_scheme \<Rightarrow> bool" where
  "pending_agree afl \<longleftrightarrow>
     pending_not_fuzzed afl = of_nat (length (filter (\<lambda>e. \<not> was_fuzzed e) (queue_buf afl)))
     \<and> pending_favored afl = of_nat (length (filter (\<lambda>e. favored e \<and> \<not> was_fuzzed e) (queue_buf afl)))"

lemma count_update:
  assumes "i < length xs"
  shows "length (filter P (xs[i := y])) + (if P (xs ! i) then 1 else 0) = length (filter P xs) + (if P y then 1 else 0)"
proof -
  have "length (filter P xs) = length (filter P (take i xs @ xs ! i # drop (Suc i) xs))"
    using arg_cong [OF id_take_nth_drop [OF assms], of "\<lambda>l. length (filter P l)"] .
  then show ?thesis by (simp add: upd_conv_take_nth_drop [OF assms])
qed

lemma count_drop:
  assumes "i < length xs" and "P (xs ! i)" and "\<not> P y"
  shows "(of_nat (length (filter P (xs[i := y]))) :: u32) = of_nat (length (filter P xs)) - 1"
proof -
  have "length (filter P xs) = Suc (length (filter P (xs[i := y])))" using count_update [OF assms(1), of P y] assms(2,3) by simp
  then show ?thesis by simp
qed

lemma count_same:
  "i < length xs \<Longrightarrow> P (xs ! i) = P y \<Longrightarrow> length (filter P (xs[i := y])) = length (filter P xs)"
  using count_update [of i xs P y] by simp

text \<open>(C23)
  The end of \<open>fuzz_one_original\<close> keeps the counters of pending entries: however the entry was left, \<open>pending_not_fuzzed\<close> is still the
  number of entries never fuzzed and \<open>pending_favored\<close> the number of favoured ones among them, the entry counts as fuzzed unless the
  session stops, calibration failed or it is disabled, its fuzz level has grown by one and no other entry has changed.
\<close>

theorem finish_entry_counts:
  assumes "cur < length (queue_buf afl)" and "pending_agree afl"
  shows "pending_agree (finish_entry cur afl)
    \<and> (\<exists>e'. queue_buf (finish_entry cur afl) = (queue_buf afl)[cur := e'] \<and> fuzz_level e' = fuzz_level (queue_buf afl ! cur) + 1
        \<and> (was_fuzzed e' \<longleftrightarrow> was_fuzzed (queue_buf afl ! cur)
             \<or> \<not> stop_soon afl \<and> cal_failed (queue_buf afl ! cur) = 0 \<and> \<not> disabled (queue_buf afl ! cur)))
    \<and> splicing_with (finish_entry cur afl) = - 1"
proof -
  let ?e = "queue_buf afl ! cur"
  let ?mark = "\<not> stop_soon afl \<and> cal_failed ?e = 0 \<and> \<not> was_fuzzed ?e \<and> \<not> disabled ?e"
  let ?e' = "(if ?mark then ?e\<lparr>was_fuzzed := True\<rparr> else ?e)\<lparr>fuzz_level := fuzz_level ?e + 1\<rparr>"
  have buf: "queue_buf (finish_entry cur afl) = (queue_buf afl)[cur := ?e']"
    using assms(1) by (simp add: finish_entry_def upd_q_def Let_def)
  have pend: "pending_not_fuzzed (finish_entry cur afl) = pending_not_fuzzed afl - (if ?mark then 1 else 0)"
      "pending_favored (finish_entry cur afl) = pending_favored afl - (if ?mark \<and> favored ?e then 1 else 0)"
      "splicing_with (finish_entry cur afl) = - 1"
    by (simp_all add: finish_entry_def upd_q_def Let_def)
  have "pending_agree (finish_entry cur afl)"
    unfolding pending_agree_def buf pend
    using assms count_drop [OF assms(1), of "\<lambda>e. \<not> was_fuzzed e" ?e'] count_same [OF assms(1), of "\<lambda>e. \<not> was_fuzzed e" ?e']
      count_drop [OF assms(1), of "\<lambda>e. favored e \<and> \<not> was_fuzzed e" ?e'] count_same [OF assms(1), of "\<lambda>e. favored e \<and> \<not> was_fuzzed e" ?e']
    by (auto simp: pending_agree_def)
  then show ?thesis unfolding buf pend by (auto intro!: exI [of _ ?e'])
qed

definition fuzz_demo :: afl_fuzz where
  "fuzz_demo = afl_havoc.extend (hv_demo\<lparr>queue_cur := Some 0, q_testcase_max_cache_size := 100, crash_mode := FSRV_RUN_OK, stop_soon := False,
       pending_not_fuzzed := 2, pending_favored := 0,
       queue_buf := [zero_entry\<lparr>len := 2, testcase_buf := Some [7, 9], cal_failed := 3\<rparr>, zero_entry\<lparr>len := 3, id_q := 1\<rparr>]\<rparr>)
     \<lparr>skip_deterministic = True, disable_trim = False, main_node_id = 0, main_node_max = 0, cmplog_lvl = 2,
      cmplog_max_filesize = 65536\<rparr>"

lemma fuzz_demo_fields:
  "queue_cur fuzz_demo = Some 0" "q_testcase_max_cache_size fuzz_demo = 100" "crash_mode fuzz_demo = FSRV_RUN_OK" "\<not> stop_soon fuzz_demo"
  "pending_not_fuzzed fuzz_demo = 2" "pending_favored fuzz_demo = 0"
  "queue_buf fuzz_demo = [zero_entry\<lparr>len := 2, testcase_buf := Some [7, 9], cal_failed := 3\<rparr>, zero_entry\<lparr>len := 3, id_q := 1\<rparr>]"
  by (simp_all add: fuzz_demo_def afl_havoc.extend_def)

theorem finish_entry_counts_witness:
  "pending_agree (finish_entry 1 fuzz_demo) \<and> splicing_with (finish_entry 1 fuzz_demo) = - 1"
proof -
  have "pending_agree fuzz_demo" by (simp add: pending_agree_def fuzz_demo_fields zero_entry_def)
  from finish_entry_counts [OF _ this, of 1] show ?thesis by (simp add: fuzz_demo_fields)
qed

text \<open>(C40)
  An entry whose calibration failed \<open>CAL_CHANCES\<close> times is passed over by \<open>fuzz_one_original\<close>, whether its test case is cached or not: the
  call does nothing but load the test case (which may evict others, or end in an error or not at all, as \<open>queue_testcase_get\<close> says), count
  a skipped item, increase the fuzz level of the entry and reset \<open>subseq_tmouts\<close>, \<open>cur_depth\<close> and \<open>splicing_with\<close>, and returns 1. In particular the
  target is not run and the entry stays pending.
\<close>

theorem exhausted_entry_skipped:
  fixes afl :: "'a afl_fuzz_scheme"
  assumes "tc_wf afl" and "queue_cur afl = Some cur" and "cur < length (queue_buf afl)"
    and "CAL_CHANCES \<le> cal_failed (queue_buf afl ! cur)" and "crash_mode afl \<noteq> FSRV_RUN_TMOUT"
  shows "fuzz_one_original qsort its rnd rndl w afl = (case queue_testcase_get afl cur of
      None \<Rightarrow> None
    | Some (Inl err) \<Rightarrow> Some (Inl err)
    | Some (Inr (_, afl1)) \<Rightarrow> Some (Inr (1, (upd_q (\<lambda>e. e\<lparr>fuzz_level := fuzz_level e + 1\<rparr>) cur afl1)
        \<lparr>subseq_tmouts := 0, cur_depth := ucast (depth (queue_buf afl ! cur)),
         cur_skipped_items := cur_skipped_items afl + 1, splicing_with := - 1\<rparr>)))"
proof (cases "queue_testcase_get afl cur")
  case None
  then show ?thesis using assms(2) by (simp add: fuzz_one_original_def hv_bind_def)
next
  case (Some r)
  show ?thesis
  proof (cases r)
    case (Inl err)
    then show ?thesis using assms(2) Some by (simp add: fuzz_one_original_def hv_bind_def)
  next
    case (Inr x)
    obtain buf a where x: "x = (buf, a)" by (cases x)
    let ?e = "queue_buf a ! cur"
    have get: "queue_testcase_get afl cur = Some (Inr (buf, a))" using Some Inr x by simp
    from testcase_get_entry [OF get assms(1)] obtain t where cur: "cur < length (queue_buf a)" and rest: "tc_rest afl a"
      and e: "?e = (queue_buf afl ! cur)\<lparr>testcase_buf := t\<rparr>" by blast
    have kept: "crash_mode a = crash_mode afl" "cur_skipped_items a = cur_skipped_items afl"
      using rest by (cases a; cases afl; simp add: tc_rest_def)+
    have fail: "cal_failed ?e \<noteq> 0" "\<not> cal_failed ?e < CAL_CHANCES"
      using assms(4) unfolding e by (auto simp: word_le_nat_alt word_less_nat_alt)
    have "fuzz_one_original qsort its rnd rndl w afl = Some (Inr (1, finish_entry cur
        (a\<lparr>subseq_tmouts := 0, cur_depth := ucast (depth ?e), cur_skipped_items := cur_skipped_items a + 1\<rparr>)))"
      using assms(2,5) get cur fail kept(1)
      by (simp add: fuzz_one_original_def hv_bind_def hv_lift_def hv_ok_def get_q_def retry_calibration_def skip_item_def)
    moreover have "depth ?e = depth (queue_buf afl ! cur)" by (simp add: e)
    ultimately show ?thesis using fail(1) kept(2) unfolding get by (simp add: finish_entry_def upd_q_def Let_def)
  qed
qed

lemma fuzz_demo_cache: "tc_wf fuzz_demo"
proof -
  have "q_testcase_cache fuzz_demo = q_testcase_cache hv_demo" "q_testcase_max_cache_entries fuzz_demo = 4"
    "q_testcase_cache_size fuzz_demo = 2" "q_testcase_max_cache_count fuzz_demo = 1" "q_testcase_cache_count fuzz_demo = 1"
    "q_testcase_smallest_free fuzz_demo = 0"
    by (simp_all add: fuzz_demo_def afl_havoc.extend_def hv_demo_fields)
  then show ?thesis
    by (simp add: tc_wf_def fuzz_demo_fields hv_demo_fields zero_entry_def slot_len_def less_Suc_eq nth_Cons' split: if_splits)
qed

theorem exhausted_entry_skipped_witness:
  "\<exists>afl'. fuzz_one_original insertion_sort (\<lambda>_ _ _ _. None) (\<lambda>x. x) (\<lambda>x. x) (demo_world (\<lambda>_ _ _. ok_reply [1, 2])) fuzz_demo
     = Some (Inr (1, afl')) \<and> pending_not_fuzzed afl' = 2 \<and> fuzz_level (queue_buf afl' ! 0) = 1"
proof -
  have "queue_testcase_get fuzz_demo 0 = Some (Inr ([7, 9], fuzz_demo))"
    by (simp add: queue_testcase_get_def get_q_def fuzz_demo_fields)
  with exhausted_entry_skipped [of fuzz_demo 0 insertion_sort "\<lambda>_ _ _ _. None" "\<lambda>x. x" "\<lambda>x. x"
      "demo_world (\<lambda>_ _ _. ok_reply [1, 2])", OF fuzz_demo_cache]
  show ?thesis by (simp add: fuzz_demo_fields zero_entry_def upd_q_def)
qed

end
