(* ===== verification/Spec2Isabelle.thy ===== *)
theory Spec2Isabelle
  imports Afl_Stages Afl_One
begin

text \<open>
  Verification of the core of a coverage-guided fuzzer: AFL++ with the PST-FUZZ scheduling extension, as it stands under
  \<open>src/AFLplusplus\<close>. The fuzzer keeps a corpus of inputs (the queue), picks the next input, mutates it, runs the target,
  and looks at the coverage map the run leaves in shared memory; inputs with new coverage join the queue. What is
  modelled are the parts of \<open>afl-fuzz\<close> between the random generator and the stages of \<open>fuzz_one\<close>.

  \<^bold>\<open>Parts and theories.\<close> Each theory imports the ones above it; the state \<open>afl_state_t\<close> is one record that each component
  extends with its own fields, so an operation of a component works on every later state.

  \<^item> \<open>Afl_Prelude\<close>: the integer types of \<open>include/types.h\<close> as words, byte buffers as lists, machine words read through a cast
    pointer (little endian), and the error values: \<open>Fatal\<close> for \<open>FATAL\<close> and \<open>PFATAL\<close>, \<open>Out_of_bounds\<close> for an access outside a
    buffer, \<open>Not_finite\<close> for floating point results without a value.
  \<^item> \<open>Afl_Rand\<close>: \<open>src/afl-performance.c\<close> and the random functions of \<open>include/afl-fuzz.h\<close>. XXH3 and \<open>/dev/urandom\<close> are parameters.
    The contract of \<open>rand_below\<close> is the locale \<open>bounded_rng\<close>; every client below uses its facts through \<open>afl_rng\<close>.
  \<^item> \<open>Afl_Coverage\<close>: the word routines of \<open>include/coverage-64.h\<close> (with the scalar, AVX2 and AVX-512 builds of \<open>skim\<close>) and
    \<open>include/coverage-32.h\<close>.
  \<^item> \<open>Afl_Files\<close>: the file operations the modelled code performs, over a store from path names to contents.
  \<^item> \<open>Afl_Bitmap\<close>: \<open>src/afl-fuzz-bitmap.c\<close> up to \<open>minimize_bits\<close>: the PST-FUZZ weight, counting, \<open>has_new_bits\<close> in both word sizes
    and its unclassified shortcut.
  \<^item> \<open>Afl_Entry\<close>, \<open>Afl_Text\<close>, \<open>Afl_Queue\<close>, \<open>Afl_Score\<close>, \<open>Afl_Testcache\<close>: \<open>src/afl-fuzz-queue.c\<close>, in this order: \<open>struct queue_entry\<close> and the
    power schedules; \<open>check_if_text\<close>; selection, marking, \<open>add_to_queue\<close>, \<open>update_bitmap_score\<close>, \<open>cull_queue\<close>; \<open>calculate_score\<close>,
    \<open>compute_weight\<close>, \<open>create_alias_table\<close>; the test case cache.
  \<^item> \<open>Afl_Extras\<close>, \<open>Afl_Auto\<close>: \<open>src/afl-fuzz-extras.c\<close>, the dictionary tokens: all operations in the first theory, the
    invariant of the automatic tokens in the second.
  \<^item> \<open>Afl_Mutate\<close>: the helpers at the head of \<open>src/afl-fuzz-one.c\<close>.
  \<^item> \<open>Afl_Exec\<close>: running the target: \<open>afl_fsrv_write_to_testcase\<close> and \<open>afl_fsrv_run_target\<close> of \<open>src/afl-forkserver.c\<close>,
    \<open>write_to_testcase\<close>, \<open>write_with_gap\<close> and \<open>fuzz_run_target\<close> of \<open>src/afl-fuzz-run.c\<close>, \<open>ck_write\<close> of \<open>include/debug.h\<close>.
  \<^item> \<open>Afl_Trim\<close>: \<open>trim_case\<close> of \<open>src/afl-fuzz-run.c\<close> and \<open>trim_case_custom\<close> of \<open>src/afl-fuzz-mutators.c\<close>.
  \<^item> \<open>Afl_Calibrate\<close>: \<open>calibrate_case\<close> of \<open>src/afl-fuzz-run.c\<close>.
  \<^item> \<open>Afl_Common\<close>: \<open>afl_memmem\<close>, the Levenshtein distance and the \<open>stringify\<close> functions of \<open>src/afl-common.c\<close>.
  \<^item> \<open>Afl_Save\<close>, \<open>Afl_Hangs\<close>: \<open>describe_op\<close>, \<open>write_crash_readme\<close> and \<open>save_if_interesting\<close> of \<open>src/afl-fuzz-bitmap.c\<close> and
    \<open>common_fuzz_stuff\<close> of \<open>src/afl-fuzz-run.c\<close> in the first theory; the loop of \<open>save_if_interesting\<close> in the second.
  \<^item> \<open>Afl_Det\<close>, \<open>Afl_Restore\<close>, \<open>Afl_Stages\<close>: the deterministic stages of \<open>fuzz_one_original\<close> in \<open>src/afl-fuzz-one.c\<close>: the definitions, with
    \<open>common_fuzz_stuff\<close> as an argument; the rules for steps and loops and the restoration of the buffer; and the properties, with
    \<open>common_fuzz_stuff\<close> itself or with a recorder that notes the inputs it is given.
  \<^item> \<open>Afl_Havoc\<close>, \<open>Afl_Mangle\<close>: the random stages of \<open>fuzz_one_original\<close>, havoc and splicing: the definitions, and the rules and proofs of
    their memory safety.
  \<^item> \<open>Afl_One\<close>: \<open>fuzz_one_original\<close> as a whole, from loading the entry to \<open>abandon_entry\<close>; \<open>input_to_state_stage\<close> is an argument.

  \<^bold>\<open>Correspondence.\<close> A C function is a definition of the same name; its loops and the branches of long functions are definitions
  of their own. Pointers to queue entries are indices into \<open>queue_buf\<close>; null is \<open>None\<close>. A \<open>result\<close> is an error or the
  value with the new state. A loop that may run forever is a \<open>partial_function\<close> over \<open>option\<close>, and \<open>None\<close> means that it does not
  return; a loop that ends is a terminating function, so no definition uses fuel except \<open>load_auto_loop\<close> and \<open>next_free\<close>, where the
  bound is the loop's own (\<open>USE_AUTO_EXTRAS\<close> files, the length of the slot array, beyond which the access is out of bounds). Integers keep
  their width; counters that the source cannot bring to wrap (the index into a 64-byte buffer) are natural numbers. A \<open>double\<close> is a
  real number rounded by a parameter after every operation. The order \<open>qsort\<close> gives to equal elements is unspecified, so
  \<open>qsort\<close> is a parameter with the hypothesis \<open>qsort_spec\<close>; insertion sort meets it. What surrounds the fuzzer is the record
  \<open>world\<close>: the target (what the fork server answers, given the number of the run, the input and the time limit), the clock (given
  the number of readings), the hash, the status screen, the start of the fork server and the results of \<open>write\<close>; a hypothesis on it,
  such as \<open>stats_keep\<close> (the screen changes only files, its own fields and the flags it clears) or \<open>writes_whole\<close> (each \<open>write\<close> takes all the
  bytes it is given), is named where it is used. The results of \<open>write\<close> are numbered within one \<open>ck_write\<close>; the files \<open>fuzz_bitmap\<close> and those of the
  automatic tokens are written in one piece. The target adds to the counters it finds in the map, so that clearing it matters.

  \<^bold>\<open>What is shown.\<close>

  \<^item> Coverage: \<open>has_new_bits\<close> reports exactly the new tuples and counts and clears exactly the seen virgin bits; the vectorised,
    32-bit and shortcut builds agree with the plain one; classification is the bytewise bucket map; counting and minimising
    are exact.
  \<^item> Randomness: \<open>rand_below\<close> reduces the first value of the sequence that is not rejected, equally many accepted values give each result, and
    it returns exactly when the sequence leaves the rejected values.
  \<^item> Queue: \<open>update_bitmap_score\<close> keeps the reference counts of \<open>top_rated\<close> and \<open>trace_mini\<close> and gives each map byte to the right
    entry; \<open>cull_queue\<close> favours a covering set; the selection stays inside the queue; \<open>add_to_queue\<close> keeps the queue
    well-formed; marking is undone by unmarking.
  \<^item> Scores: bounds for every rounding and schedule; the alias table has the intended distribution in exact arithmetic.
  \<^item> Cache: slots, buffers, counters and the memory budget stay consistent through store, get with any sequence of evictions and
    resizing; a stored test case is returned; the entry being fuzzed is never evicted.
  \<^item> Text: the UTF-8 tests accept exactly the encodings of scalar values.
  \<^item> Tokens: dictionary files round trip; the loader hangs exactly on raw non-printable bytes; duplicate removal equals its
    reference definition; insertion keeps the sorted set; the automatic tokens stay bounded and distinct.
  \<^item> Mutation helpers: \<open>could_be_bitflip\<close> accepts exactly the runs of 1, 2, 4, 8, 16 or 32 bits of the word, block lengths are in range, splice points are the outermost differences.
  \<^item> Execution, without custom mutators: when files take all bytes, the target reads exactly the bytes meant for it on every channel, and result
    and map of a run depend on the input alone, whatever earlier runs left; \<open>ck_write\<close> writes a prefix, whatever \<open>write\<close> returns,
    and never reports an error.
  \<^item> Trimming, without custom mutators: the built-in trimmer returns for every target (under \<open>no_unlink\<close>, when each \<open>write\<close> makes progress); when
    files take all bytes and without \<open>no_unlink\<close>, it keeps the checksum of the path of a deterministic target, and the file holds what is left.
  \<^item> Calibration returns for every target after at most thirteen runs; a stable target is never marked variable; a byte marked
    variable never counts as new again; the entry of a well-behaved target is rated by its runs and its trace.
  \<^item> Saving: an ordinary run is kept exactly for new coverage; a known crash is only counted; the loop returns in an instrumented
    session (each jump back clears a bit of \<open>virgin_tmout\<close>) and has no normal result in a non-instrumented one that keeps slow inputs; the
    names of local finds fit their buffers and those of synchronised ones need not.
  \<^item> Deterministic stages: every stage leaves \<open>out_buf\<close> as it found it, for every target; the value stages end and stay inside the buffer and
    the effector map; the walking bits try exactly the inputs meant; the byte arithmetic loses no value to its test against the
    bit flips, and the 16-bit arithmetic does.
  \<^item> Random stages: no stack of havoc mutations and no search for a splice reads or writes outside its buffers, whatever is drawn, and the
    buffer keeps 1 to \<open>MAX_FILE\<close> bytes; a splice is the input up to a point between its first and last difference from the test case of another
    entry, followed by the beginning of that test case. A draw need not return (a generator may be rejected
    forever, or no other entry may fit), so these theorems are about the results there are; the termination of the value stages does not
    depend on draws.
  \<^item> One entry: the counters of pending entries stay exact at the end of \<open>fuzz_one_original\<close>; an entry that cannot be calibrated is only
    loaded, counted as skipped and raised in its fuzz level.

  \<^bold>\<open>Not modelled.\<close> Allocation failure and memory growth; the \<open>INTROSPECTION\<close> and \<open>SIMPLE_FILES\<close> builds and the Nyx mode; terminal
  output and the command \<open>infoexec\<close>; the operating system beyond the file store and the \<open>world\<close> (processes, signals, shared memory,
  directories other than as a parameter); the fuzzing hooks of custom mutators; the compiler passes, emulation modes, helper
  libraries and the Magma harness; the stages of MOpt (\<open>mopt_common_fuzzing\<close>), \<open>sync_fuzzers\<close>, the CmpLog encodings
  (\<open>src/afl-fuzz-redqueen.c\<close>), start-up and the stand-alone tools.
\<close>

end
